(* ===== verification/Go_Prelude.thy ===== *)
theory Go_Prelude
  imports Main "HOL-Library.Word" "HOL-Library.Multiset"
begin

unbundle bit_operations_syntax

text \<open>
  Shared vocabulary of the development: the Go integer types as machine words, the run-time
  panics as values, and the generic lemmas on words, bits and lists that the component
  theories rely on.

  \<^item> \<open>uint8\<close>, \<open>uint16\<close>, \<open>uint32\<close>, \<open>uint64\<close> are words of that width; a slice of bytes is a list
    of \<open>8 word\<close>; a rune (\<open>int32\<close>) is a \<open>32 word\<close> whose signed reading is \<open>sint\<close>.
  \<^item> An operation that can panic returns a value of \<open>panic + 'a\<close>; \<open>Inl\<close> carries the panic.
  \<^item> The collection \<open>word_nat\<close> holds the equations that read words as natural numbers.
\<close>

type_synonym u8 = "8 word"
type_synonym u16 = "16 word"
type_synonym u32 = "32 word"
type_synonym u64 = "64 word"
type_synonym bytes = "8 word list"
type_synonym rune = "32 word"

text \<open>The run-time panics the modelled code can raise.\<close>

datatype panic =
    IndexOutOfRange
  | SliceBounds
  | DivideError
  | OverflowError
  | NilDereference
  | PanicMsg string

text \<open>The bytes of a Go string literal.\<close>

definition bytes_of :: "string \<Rightarrow> bytes" where
  "bytes_of s = map (\<lambda>c. of_nat (of_char c)) s"

text \<open>An assignment \<open>a[n] = v\<close> to an element of a slice.\<close>

definition slice_put :: "'a list \<Rightarrow> nat \<Rightarrow> 'a \<Rightarrow> panic + 'a list" where
  "slice_put a n v = (if n < length a then Inr (a[n := v]) else Inl IndexOutOfRange)"

text \<open>A run of such assignments to consecutive elements from \<open>n\<close> on, in this order.\<close>

fun slice_puts :: "'a list \<Rightarrow> nat \<Rightarrow> 'a list \<Rightarrow> panic + 'a list" where
  "slice_puts a n [] = Inr a"
| "slice_puts a n (v # vs) = (case slice_put a n v of Inl e \<Rightarrow> Inl e | Inr a \<Rightarrow> slice_puts a (n + 1) vs)"

text \<open>The built-in \<open>copy(dst, src)\<close> of slices that do not overlap: \<open>dst\<close> afterwards.\<close>

definition go_copy :: "'a list \<Rightarrow> 'a list \<Rightarrow> 'a list" where
  "go_copy dst src = take (length dst) src @ drop (length src) dst"

named_theorems word_nat
named_theorems word_bits

lemma word_less_nat [word_nat]: "(a :: 'a::len word) < b \<longleftrightarrow> unat a < unat b"
  by (rule word_less_nat_alt)

lemma word_le_nat [word_nat]: "(a :: 'a::len word) \<le> b \<longleftrightarrow> unat a \<le> unat b"
  by (rule word_le_nat_alt)

lemma unat_take_bit [word_nat]: "unat (take_bit n a :: 'a::len word) = unat a mod 2 ^ n"
  by (simp add: unsigned_take_bit_eq) (simp add: take_bit_eq_mod)

lemma unat_and_mask [word_nat]: "unat (a AND mask n :: 'a::len word) = unat a mod 2 ^ n"
  by (simp flip: take_bit_eq_mask add: unat_take_bit)

lemma unat_drop_bit [word_nat]: "unat (drop_bit n a :: 'a::len word) = unat a div 2 ^ n"
  by (simp add: unat_drop_bit_eq) (simp add: drop_bit_eq_div)

lemma unat_push_bit [word_nat]:
  "unat (push_bit n a :: 'a::len word) = unat a * 2 ^ n mod 2 ^ LENGTH('a)"
  by (simp add: unsigned_push_bit_eq) (simp add: push_bit_eq_mult take_bit_eq_mod)

lemma unat_ucast [word_nat]: "unat (ucast (x :: 'a::len word) :: 'b::len word) = unat x mod 2 ^ LENGTH('b)"
  by (simp add: unsigned_ucast_eq take_bit_eq_mod)

lemma unat_lt2p: "unat (x :: 'a::len word) < 2 ^ LENGTH('a)"
  by simp

lemma unat_power_lower [word_nat]: "n < LENGTH('a) \<Longrightarrow> unat (2 ^ n :: 'a::len word) = 2 ^ n"
  using unat_push_bit [of n "1 :: 'a word"] by (simp add: push_bit_eq_mult)

text \<open>Two words with no common bit: their disjunction is their sum, without overflow.\<close>

lemma unat_or_disjoint:
  fixes a b :: "'a::len word"
  assumes "a AND b = 0"
  shows "unat (a OR b) = unat a + unat b"
proof -
  have "unat a AND unat b = unat (a AND b)"
    by (simp add: unsigned_and_eq)
  with assms have "unat a AND unat b = 0" by simp
  then show ?thesis
    by (simp add: unsigned_or_eq disjunctive_add_eq_or)
qed

text \<open>A word is the sum of its bits.\<close>

lemma unat_sum_bits:
  "unat (a :: 'a::len word) = (\<Sum>i<LENGTH('a). of_bool (bit a i) * 2 ^ i)"
proof -
  have "unat a = horner_sum of_bool 2 (map (bit (unat a)) [0..<LENGTH('a)])"
    by (simp add: horner_sum_bit_eq_take_bit take_bit_nat_eq_self)
  also have "\<dots> = (\<Sum>i<LENGTH('a). of_bool (bit (unat a) i) * 2 ^ i)"
    by (simp add: horner_sum_eq_sum lessThan_atLeast0)
  also have "\<dots> = (\<Sum>i<LENGTH('a). of_bool (bit a i) * 2 ^ i)"
    by (rule sum.cong) (auto simp: bit_simps)
  finally show ?thesis .
qed

text \<open>The lowest set bit, isolated by \<open>x & -x\<close>.\<close>

lemma lowest_bit:
  fixes x :: "'a::len word"
  assumes "bit x n" "\<And>i. i < n \<Longrightarrow> \<not> bit x i"
  shows "x AND - x = 2 ^ n"
proof -
  define r where "r = x AND NOT (2 ^ n)"
  have n: "n < LENGTH('a)" using assms(1) by (rule bit_imp_le_length)
  have "r AND 2 ^ n = 0" by (auto intro!: bit_word_eqI simp: r_def bit_simps)
  then have "r + 2 ^ n = r OR 2 ^ n" by (rule disjunctive_add_eq_or)
  also have "\<dots> = x" using assms(1) by (auto intro!: bit_word_eqI simp: r_def bit_simps)
  finally have x: "x = r + 2 ^ n" by simp
  have "r AND mask n = 0"
    using assms(2) by (auto intro!: bit_word_eqI simp: r_def bit_simps)
  then have "r + mask n = r OR mask n" by (rule disjunctive_add_eq_or)
  moreover have "x - 1 = r + mask n" using x by (simp add: mask_eq_exp_minus_1)
  ultimately have "- x = NOT (r OR mask n)" by (simp add: minus_eq_not_minus_1)
  then show ?thesis using assms n
    by (auto intro!: bit_word_eqI simp: r_def bit_simps)
qed

text \<open>Finite case analysis over \<open>i < n\<close> for a numeral \<open>n\<close>, and a table checked entry by entry.\<close>

lemma all_less_Suc: "(\<forall>i<Suc n. P i) \<longleftrightarrow> (\<forall>i<n. P i) \<and> P n"
  by (auto simp: less_Suc_eq)

lemma all_less_numeral: "(\<forall>i<numeral k. P i) \<longleftrightarrow> (\<forall>i<pred_numeral k. P i) \<and> P (pred_numeral k)"
  by (simp only: numeral_eq_Suc all_less_Suc)

lemma table_lookup: "list_all2 P (map uint tab) [0..m] \<Longrightarrow> int n \<le> m \<Longrightarrow> P (uint (tab ! n)) (int n)"
  by (frule list_all2_lengthD, drule list_all2_nthD [of _ _ _ n]) (auto simp: nth_upto)

text \<open>The top bit, and the signed reading of a word by its unsigned one.\<close>

lemma of_bool_div: "(n::nat) < 2 ^ Suc k \<Longrightarrow> n div 2 ^ k = of_bool (2 ^ k \<le> n)"
  by (auto simp: le_div_geq)

lemma bit_top: "bit (a :: 'a::len word) (LENGTH('a) - 1) \<longleftrightarrow> 2 ^ (LENGTH('a) - 1) \<le> unat a"
proof -
  have "unat a < 2 ^ Suc (LENGTH('a) - 1)" using unat_lt2p [of a] by simp
  then have "unat a div 2 ^ (LENGTH('a) - 1) = of_bool (2 ^ (LENGTH('a) - 1) \<le> unat a)" by (rule of_bool_div)
  moreover have "bit (unat a) (LENGTH('a) - 1) \<longleftrightarrow> bit a (LENGTH('a) - 1)" by (simp add: bit_unsigned_iff)
  ultimately show ?thesis by (simp add: bit_iff_odd)
qed

lemma sint_unat:
  "sint (a :: 'a::len word) =
     (if unat a < 2 ^ (LENGTH('a) - 1) then int (unat a) else int (unat a) - 2 ^ LENGTH('a))"
proof -
  have "sint a = take_bit (Suc (LENGTH('a) - 1)) (uint a) - 2 ^ Suc (LENGTH('a) - 1) * of_bool (bit (uint a) (LENGTH('a) - 1))"
    unfolding sint_uint One_nat_def by (rule signed_take_bit_eq_take_bit_minus)
  then have "sint a = uint a - 2 ^ LENGTH('a) * of_bool (bit a (LENGTH('a) - 1))"
    by (simp add: bit_uint_iff take_bit_int_eq_self)
  then show ?thesis unfolding bit_top by simp
qed

lemma signed_drop_bit_pos:
  fixes w :: "'a::len word"
  assumes "unat w < 2 ^ (LENGTH('a) - 1)"
  shows "signed_drop_bit n w = drop_bit n w"
proof -
  have "\<not> bit w (LENGTH('a) - 1)" using assms unfolding bit_top by simp
  then show ?thesis 
    by (intro bit_word_eqI) (auto simp: bit_signed_drop_bit_iff bit_drop_bit_eq dest: bit_imp_le_length)
qed

text \<open>Wrap-around of an \<open>int\<close> that is read as an unbounded integer otherwise.\<close>

definition wrap64 :: "int \<Rightarrow> int" where
  "wrap64 x = (x + 2 ^ 63) mod 2 ^ 64 - 2 ^ 63"

lemma wrap64_in: "- (2 ^ 63) \<le> x \<Longrightarrow> x < 2 ^ 63 \<Longrightarrow> wrap64 x = x"
  by (simp add: wrap64_def)

lemma wrap64_small: "0 \<le> x \<Longrightarrow> x < 2 ^ 63 \<Longrightarrow> wrap64 x = x"
  by (simp add: wrap64_in)

lemma wrap64_range: "- (2 ^ 63) \<le> wrap64 x" "wrap64 x < 2 ^ 63"
  by (simp_all add: wrap64_def)

lemma wrap64_over: "2 ^ 63 \<le> x \<Longrightarrow> x < 2 ^ 64 + 2 ^ 63 \<Longrightarrow> wrap64 x = x - 2 ^ 64"
proof -
  assume "2 ^ 63 \<le> x" "x < 2 ^ 64 + 2 ^ 63"
  then have "(x + 2 ^ 63 - 2 ^ 64) mod 2 ^ 64 = x + 2 ^ 63 - 2 ^ 64" by (intro mod_pos_pos_trivial) simp_all
  then show ?thesis by (simp only: wrap64_def minus_mod_self2)
qed

text \<open>Runs of assignments within the bounds of the slice replace a segment of it.\<close>

lemma slice_puts_eq:
  "n + length vs \<le> length a \<Longrightarrow> slice_puts a n vs = Inr (take n a @ vs @ drop (n + length vs) a)"
proof (induction vs arbitrary: a n)
  case (Cons v vs)
  then have "a[n := v] = take n a @ v # drop (Suc n) a" by (simp add: upd_conv_take_nth_drop)
  then show ?case using Cons by (simp add: slice_put_def add.commute)
qed simp

lemma slice_puts_short: "length a < n + length vs \<Longrightarrow> n \<le> length a \<Longrightarrow> slice_puts a n vs = Inl IndexOutOfRange"
  by (induction vs arbitrary: a n) (auto simp: slice_put_def)

lemma slice_puts_append:
  "slice_puts (out @ d) (length out) vs =
     (if length vs \<le> length d then Inr (out @ vs @ drop (length vs) d) else Inl IndexOutOfRange)"
  by (simp add: slice_puts_eq slice_puts_short)

lemma slice_put_puts: "slice_put a n v = slice_puts a n [v]"
  by (simp split: sum.split)

lemma slice_puts_bind:
  "slice_puts a n (xs @ ys) = (case slice_puts a n xs of Inl e \<Rightarrow> Inl e | Inr a \<Rightarrow> slice_puts a (n + length xs) ys)"
  by (induction xs arbitrary: a n) (auto split: sum.split)

lemma slice_puts_two: "slice_puts a n [x, y] = (case slice_puts a n [x] of Inl e \<Rightarrow> Inl e | Inr a \<Rightarrow> slice_puts a (Suc n) [y])"
  by (auto split: sum.split)

text \<open>A word assembled from a shifted part and a part below it.\<close>

lemma unat_push_or:
  fixes a b :: "'a::len word"
  assumes "unat b < 2 ^ k" "unat a * 2 ^ k < 2 ^ LENGTH('a)"
  shows "unat (push_bit k a OR b) = unat a * 2 ^ k + unat b"
proof -
  have "push_bit k a AND b = 0"
  proof (rule bit_word_eqI)
    fix i
    have "\<not> bit b i" if "k \<le> i"
    proof -
      have "unat b < 2 ^ i" using assms(1) power_increasing [OF that, of "2 :: nat"] by linarith
      then have "\<not> bit (unat b) i" by (simp add: bit_iff_odd)
      then show ?thesis by (simp add: bit_unsigned_iff)
    qed
    then show "bit (push_bit k a AND b) i = bit (0 :: 'a word) i" by (auto simp: bit_simps)
  qed
  then show ?thesis using assms(2) by (simp add: unat_or_disjoint unat_push_bit)
qed

section \<open>The search for a byte\<close>

text \<open>
  \<open>bytealg.IndexByte\<close> and \<open>bytealg.IndexByteString\<close> are not part of this source tree: the code that calls them takes a search as a
  parameter, and this is what is documented of it, the index of the first such byte, or \<open>-1\<close>. A plain loop is an instance.
\<close>

type_synonym index_fun = "bytes \<Rightarrow> u8 \<Rightarrow> int"

locale index_byte =
  fixes ix :: index_fun
  assumes index_first: "ix s c = (if c \<in> set s then int (length (takeWhile (\<lambda>x. x \<noteq> c) s)) else - 1)"

fun index_of :: "bytes \<Rightarrow> u8 \<Rightarrow> int" where
  "index_of [] c = - 1"
| "index_of (x # s) c = (if x = c then 0 else (let i = index_of s c in if i < 0 then - 1 else i + 1))"

interpretation index_loop: index_byte index_of
proof
  show "index_of s c = (if c \<in> set s then int (length (takeWhile (\<lambda>x. x \<noteq> c) s)) else - 1)" for s c
    by (induction s) (auto simp: Let_def)
qed

end
