(* ===== verification/Bits.thy ===== *)
theory Bits
  imports Bits_Tables
begin

unbundle bit_operations_syntax

text \<open>
  Package \<open>math/bits\<close> (\<open>src/math/bits/bits.go\<close>), every exported function in its pure Go form.
  The platform-dependent type \<open>uint\<close> is the 64-bit word of a 64-bit platform, and the branches
  on \<open>UintSize\<close> are kept. Go results of type \<open>int\<close> that count bits are natural numbers.

  Operator precedence is written out: in Go the shifts and \<open>&\<close> bind tighter than \<open>+\<close> and \<open>|\<close>.
\<close>

section \<open>Definitions\<close>

definition uintSize :: nat where
  "uintSize = push_bit (unat (drop_bit 63 (NOT 0 :: u64))) 32"

definition UintSize :: nat where
  "UintSize = uintSize"

subsection \<open>Bit lengths\<close>

definition Len8 :: "u8 \<Rightarrow> nat" where
  "Len8 x = unat (len8tab ! unat x)"

definition Len16 :: "u16 \<Rightarrow> nat" where
  "Len16 x =
     (let (x, n) = (if x \<ge> 2 ^ 8 then (drop_bit 8 x, 8) else (x, 0))
      in n + unat (len8tab ! unat (ucast x :: u8)))"

definition Len32 :: "u32 \<Rightarrow> nat" where
  "Len32 x =
     (let (x, n) = (if x \<ge> 2 ^ 16 then (drop_bit 16 x, 16) else (x, 0));
          (x, n) = (if x \<ge> 2 ^ 8 then (drop_bit 8 x, n + 8) else (x, n))
      in n + unat (len8tab ! unat (ucast x :: u8)))"

definition Len64 :: "u64 \<Rightarrow> nat" where
  "Len64 x =
     (let (x, n) = (if x \<ge> 2 ^ 32 then (drop_bit 32 x, 32) else (x, 0));
          (x, n) = (if x \<ge> 2 ^ 16 then (drop_bit 16 x, n + 16) else (x, n));
          (x, n) = (if x \<ge> 2 ^ 8 then (drop_bit 8 x, n + 8) else (x, n))
      in n + unat (len8tab ! unat (ucast x :: u8)))"

definition Len :: "u64 \<Rightarrow> nat" where
  "Len x = (if UintSize = 32 then Len32 (ucast x) else Len64 x)"

definition LeadingZeros8 :: "u8 \<Rightarrow> nat" where
  "LeadingZeros8 x = 8 - Len8 x"

definition LeadingZeros16 :: "u16 \<Rightarrow> nat" where
  "LeadingZeros16 x = 16 - Len16 x"

definition LeadingZeros32 :: "u32 \<Rightarrow> nat" where
  "LeadingZeros32 x = 32 - Len32 x"

definition LeadingZeros64 :: "u64 \<Rightarrow> nat" where
  "LeadingZeros64 x = 64 - Len64 x"

definition LeadingZeros :: "u64 \<Rightarrow> nat" where
  "LeadingZeros x = UintSize - Len x"

subsection \<open>Trailing zeros, by de Bruijn multiplication\<close>

definition deBruijn32 :: u32 where
  "deBruijn32 = 0x077CB531"

definition deBruijn32tab :: bytes where
  "deBruijn32tab =
    [0, 1, 28, 2, 29, 14, 24, 3, 30, 22, 20, 15, 25, 17, 4, 8,
     31, 27, 13, 23, 21, 19, 16, 7, 26, 12, 18, 6, 11, 5, 10, 9]"

definition deBruijn64 :: u64 where
  "deBruijn64 = 0x03f79d71b4ca8b09"

definition deBruijn64tab :: bytes where
  "deBruijn64tab =
    [0, 1, 56, 2, 57, 49, 28, 3, 61, 58, 42, 50, 38, 29, 17, 4,
     62, 47, 59, 36, 45, 43, 51, 22, 53, 39, 33, 30, 24, 18, 12, 5,
     63, 55, 48, 27, 60, 41, 37, 16, 46, 35, 44, 21, 52, 32, 23, 11,
     54, 26, 40, 15, 34, 20, 31, 10, 25, 14, 19, 9, 13, 8, 7, 6]"

definition TrailingZeros8 :: "u8 \<Rightarrow> nat" where
  "TrailingZeros8 x = unat (ntz8tab ! unat x)"

definition TrailingZeros16 :: "u16 \<Rightarrow> nat" where
  "TrailingZeros16 x =
     (if x = 0 then 16
      else unat (deBruijn32tab ! unat (drop_bit (32 - 5) (ucast (x AND - x) * deBruijn32))))"

definition TrailingZeros32 :: "u32 \<Rightarrow> nat" where
  "TrailingZeros32 x =
     (if x = 0 then 32
      else unat (deBruijn32tab ! unat (drop_bit (32 - 5) ((x AND - x) * deBruijn32))))"

definition TrailingZeros64 :: "u64 \<Rightarrow> nat" where
  "TrailingZeros64 x =
     (if x = 0 then 64
      else unat (deBruijn64tab ! unat (drop_bit (64 - 6) ((x AND - x) * deBruijn64))))"

definition TrailingZeros :: "u64 \<Rightarrow> nat" where
  "TrailingZeros x = (if UintSize = 32 then TrailingZeros32 (ucast x) else TrailingZeros64 x)"

subsection \<open>Population counts\<close>

definition m0 :: u64 where "m0 = 0x5555555555555555"
definition m1 :: u64 where "m1 = 0x3333333333333333"
definition m2 :: u64 where "m2 = 0x0f0f0f0f0f0f0f0f"
definition m3 :: u64 where "m3 = 0x00ff00ff00ff00ff"
definition m4 :: u64 where "m4 = 0x0000ffff0000ffff"

definition OnesCount8 :: "u8 \<Rightarrow> nat" where
  "OnesCount8 x = unat (pop8tab ! unat x)"

definition OnesCount16 :: "u16 \<Rightarrow> nat" where
  "OnesCount16 x = unat (pop8tab ! unat (drop_bit 8 x) + pop8tab ! unat (x AND 0xff))"

definition OnesCount32 :: "u32 \<Rightarrow> nat" where
  "OnesCount32 x =
     unat (pop8tab ! unat (drop_bit 24 x) + pop8tab ! unat (drop_bit 16 x AND 0xff)
           + pop8tab ! unat (drop_bit 8 x AND 0xff) + pop8tab ! unat (x AND 0xff))"

definition OnesCount64 :: "u64 \<Rightarrow> nat" where
  "OnesCount64 x =
     (let m = (2 ^ 64 - 1 :: u64);
          x = (drop_bit 1 x AND (m0 AND m)) + (x AND (m0 AND m));
          x = (drop_bit 2 x AND (m1 AND m)) + (x AND (m1 AND m));
          x = (drop_bit 4 x + x) AND (m2 AND m);
          x = x + drop_bit 8 x;
          x = x + drop_bit 16 x;
          x = x + drop_bit 32 x
      in unat (x AND (2 ^ 7 - 1)))"

definition OnesCount :: "u64 \<Rightarrow> nat" where
  "OnesCount x = (if UintSize = 32 then OnesCount32 (ucast x) else OnesCount64 x)"

subsection \<open>Rotations\<close>

definition RotateLeft8 :: "u8 \<Rightarrow> int \<Rightarrow> u8" where
  "RotateLeft8 x k =
     (let s = unat (word_of_int k AND (8 - 1) :: u64) in push_bit s x OR drop_bit (8 - s) x)"

definition RotateLeft16 :: "u16 \<Rightarrow> int \<Rightarrow> u16" where
  "RotateLeft16 x k =
     (let s = unat (word_of_int k AND (16 - 1) :: u64) in push_bit s x OR drop_bit (16 - s) x)"

definition RotateLeft32 :: "u32 \<Rightarrow> int \<Rightarrow> u32" where
  "RotateLeft32 x k =
     (let s = unat (word_of_int k AND (32 - 1) :: u64) in push_bit s x OR drop_bit (32 - s) x)"

definition RotateLeft64 :: "u64 \<Rightarrow> int \<Rightarrow> u64" where
  "RotateLeft64 x k =
     (let s = unat (word_of_int k AND (64 - 1) :: u64) in push_bit s x OR drop_bit (64 - s) x)"

definition RotateLeft :: "u64 \<Rightarrow> int \<Rightarrow> u64" where
  "RotateLeft x k = (if UintSize = 32 then ucast (RotateLeft32 (ucast x) k) else RotateLeft64 x k)"

subsection \<open>Reversal\<close>

definition ReverseBytes16 :: "u16 \<Rightarrow> u16" where
  "ReverseBytes16 x = drop_bit 8 x OR push_bit 8 x"

definition ReverseBytes32 :: "u32 \<Rightarrow> u32" where
  "ReverseBytes32 x =
     (let m = (2 ^ 32 - 1 :: u64); mm = (ucast (m3 AND m) :: u32);
          x = (drop_bit 8 x AND mm) OR push_bit 8 (x AND mm)
      in drop_bit 16 x OR push_bit 16 x)"

definition ReverseBytes64 :: "u64 \<Rightarrow> u64" where
  "ReverseBytes64 x =
     (let m = (2 ^ 64 - 1 :: u64);
          x = (drop_bit 8 x AND (m3 AND m)) OR push_bit 8 (x AND (m3 AND m));
          x = (drop_bit 16 x AND (m4 AND m)) OR push_bit 16 (x AND (m4 AND m))
      in drop_bit 32 x OR push_bit 32 x)"

definition ReverseBytes :: "u64 \<Rightarrow> u64" where
  "ReverseBytes x = (if UintSize = 32 then ucast (ReverseBytes32 (ucast x)) else ReverseBytes64 x)"

definition Reverse8 :: "u8 \<Rightarrow> u8" where
  "Reverse8 x = rev8tab ! unat x"

definition Reverse16 :: "u16 \<Rightarrow> u16" where
  "Reverse16 x =
     ucast (rev8tab ! unat (drop_bit 8 x)) OR push_bit 8 (ucast (rev8tab ! unat (x AND 0xff)))"

definition Reverse32 :: "u32 \<Rightarrow> u32" where
  "Reverse32 x =
     (let m = (2 ^ 32 - 1 :: u64);
          n0 = (ucast (m0 AND m) :: u32); n1 = (ucast (m1 AND m) :: u32); n2 = (ucast (m2 AND m) :: u32);
          x = (drop_bit 1 x AND n0) OR push_bit 1 (x AND n0);
          x = (drop_bit 2 x AND n1) OR push_bit 2 (x AND n1);
          x = (drop_bit 4 x AND n2) OR push_bit 4 (x AND n2)
      in ReverseBytes32 x)"

definition Reverse64 :: "u64 \<Rightarrow> u64" where
  "Reverse64 x =
     (let m = (2 ^ 64 - 1 :: u64);
          x = (drop_bit 1 x AND (m0 AND m)) OR push_bit 1 (x AND (m0 AND m));
          x = (drop_bit 2 x AND (m1 AND m)) OR push_bit 2 (x AND (m1 AND m));
          x = (drop_bit 4 x AND (m2 AND m)) OR push_bit 4 (x AND (m2 AND m))
      in ReverseBytes64 x)"

definition Reverse :: "u64 \<Rightarrow> u64" where
  "Reverse x = (if UintSize = 32 then ucast (Reverse32 (ucast x)) else Reverse64 x)"

subsection \<open>Full-width addition, subtraction and multiplication\<close>

definition Add32 :: "u32 \<Rightarrow> u32 \<Rightarrow> u32 \<Rightarrow> u32 \<times> u32" where
  "Add32 x y carry =
     (let sum64 = (ucast x + ucast y + ucast carry :: u64)
      in (ucast sum64, ucast (drop_bit 32 sum64)))"

definition Add64 :: "u64 \<Rightarrow> u64 \<Rightarrow> u64 \<Rightarrow> u64 \<times> u64" where
  "Add64 x y carry =
     (let sum = x + y + carry
      in (sum, drop_bit 63 ((x AND y) OR ((x OR y) AND NOT sum))))"

definition Add :: "u64 \<Rightarrow> u64 \<Rightarrow> u64 \<Rightarrow> u64 \<times> u64" where
  "Add x y carry =
     (if UintSize = 32
      then let (s32, c32) = Add32 (ucast x) (ucast y) (ucast carry) in (ucast s32, ucast c32)
      else Add64 x y carry)"

definition Sub32 :: "u32 \<Rightarrow> u32 \<Rightarrow> u32 \<Rightarrow> u32 \<times> u32" where
  "Sub32 x y borrow =
     (let diff = x - y - borrow
      in (diff, drop_bit 31 ((NOT x AND y) OR (NOT (x XOR y) AND diff))))"

definition Sub64 :: "u64 \<Rightarrow> u64 \<Rightarrow> u64 \<Rightarrow> u64 \<times> u64" where
  "Sub64 x y borrow =
     (let diff = x - y - borrow
      in (diff, drop_bit 63 ((NOT x AND y) OR (NOT (x XOR y) AND diff))))"

definition Sub :: "u64 \<Rightarrow> u64 \<Rightarrow> u64 \<Rightarrow> u64 \<times> u64" where
  "Sub x y borrow =
     (if UintSize = 32
      then let (d32, b32) = Sub32 (ucast x) (ucast y) (ucast borrow) in (ucast d32, ucast b32)
      else Sub64 x y borrow)"

definition Mul32 :: "u32 \<Rightarrow> u32 \<Rightarrow> u32 \<times> u32" where
  "Mul32 x y =
     (let tmp = (ucast x * ucast y :: u64) in (ucast (drop_bit 32 tmp), ucast tmp))"

definition Mul64 :: "u64 \<Rightarrow> u64 \<Rightarrow> u64 \<times> u64" where
  "Mul64 x y =
     (let mask32 = 2 ^ 32 - 1;
          x0 = x AND mask32; x1 = drop_bit 32 x;
          y0 = y AND mask32; y1 = drop_bit 32 y;
          w0 = x0 * y0;
          t = x1 * y0 + drop_bit 32 w0;
          w1 = t AND mask32;
          w2 = drop_bit 32 t;
          w1 = w1 + x0 * y1
      in (x1 * y1 + w2 + drop_bit 32 w1, x * y))"

definition Mul :: "u64 \<Rightarrow> u64 \<Rightarrow> u64 \<times> u64" where
  "Mul x y =
     (if UintSize = 32 then let (h, l) = Mul32 (ucast x) (ucast y) in (ucast h, ucast l)
      else Mul64 x y)"

subsection \<open>Full-width division\<close>

definition Div32 :: "u32 \<Rightarrow> u32 \<Rightarrow> u32 \<Rightarrow> panic + u32 \<times> u32" where
  "Div32 hi lo y =
     (if y \<noteq> 0 \<and> y \<le> hi then Inl OverflowError
      else if y = 0 then Inl DivideError
      else let z = (push_bit 32 (ucast hi) OR ucast lo :: u64)
           in Inr (ucast (z div ucast y), ucast (z mod ucast y)))"

text \<open>
  The correction loop of \<open>Div64\<close>, which the source has twice: once for the high and once for the
  low digit of the quotient. It always stops, since the guard fails at \<open>q = 0\<close>.
\<close>

function div_adjust :: "u64 \<Rightarrow> u64 \<Rightarrow> u64 \<Rightarrow> u64 \<Rightarrow> u64 \<Rightarrow> u64" where
  "div_adjust yn1 yn0 un q rhat =
     (if q \<ge> 2 ^ 32 \<or> q * yn0 > 2 ^ 32 * rhat + un
      then let q' = q - 1; rhat' = rhat + yn1
           in if rhat' \<ge> 2 ^ 32 then q' else div_adjust yn1 yn0 un q' rhat'
      else q)"
  by pat_completeness auto
termination
proof (relation "measure (\<lambda>(_, _, _, q, _). unat q)", goal_cases)
  case 1
  show ?case by simp
next
  case (2 yn1 yn0 un q rhat q' rhat')
  then have "q \<noteq> 0" by auto
  then have "unat (q - 1) < unat q"
    by (simp add: unat_minus_one unat_gt_0)
  with 2 show ?case by simp
qed

definition Div64 :: "u64 \<Rightarrow> u64 \<Rightarrow> u64 \<Rightarrow> panic + u64 \<times> u64" where
  "Div64 hi lo y =
     (if y = 0 then Inl DivideError
      else if y \<le> hi then Inl OverflowError
      else if hi = 0 then Inr (lo div y, lo mod y)
      else
        (let s = LeadingZeros64 y;
             y = push_bit s y;
             two32 = 2 ^ 32;
             mask32 = two32 - 1;
             yn1 = drop_bit 32 y;
             yn0 = y AND mask32;
             un32 = push_bit s hi OR drop_bit (64 - s) lo;
             un10 = push_bit s lo;
             un1 = drop_bit 32 un10;
             un0 = un10 AND mask32;
             q1 = un32 div yn1;
             rhat = un32 - q1 * yn1;
             q1 = div_adjust yn1 yn0 un1 q1 rhat;
             un21 = un32 * two32 + un1 - q1 * y;
             q0 = un21 div yn1;
             rhat = un21 - q0 * yn1;
             q0 = div_adjust yn1 yn0 un0 q0 rhat
         in Inr (q1 * two32 + q0, drop_bit s (un21 * two32 + un0 - q0 * y))))"

definition Div :: "u64 \<Rightarrow> u64 \<Rightarrow> u64 \<Rightarrow> panic + u64 \<times> u64" where
  "Div hi lo y =
     (if UintSize = 32
      then map_sum id (\<lambda>(q, r). (ucast q, ucast r)) (Div32 (ucast hi) (ucast lo) (ucast y))
      else Div64 hi lo y)"

definition Rem32 :: "u32 \<Rightarrow> u32 \<Rightarrow> u32 \<Rightarrow> panic + u32" where
  "Rem32 hi lo y =
     (if y = 0 then Inl DivideError
      else Inr (ucast ((push_bit 32 (ucast hi) OR ucast lo :: u64) mod ucast y)))"

definition Rem64 :: "u64 \<Rightarrow> u64 \<Rightarrow> u64 \<Rightarrow> panic + u64" where
  "Rem64 hi lo y =
     (if y = 0 then Inl DivideError else map_sum id snd (Div64 (hi mod y) lo y))"

definition Rem :: "u64 \<Rightarrow> u64 \<Rightarrow> u64 \<Rightarrow> panic + u64" where
  "Rem hi lo y =
     (if UintSize = 32 then map_sum id ucast (Rem32 (ucast hi) (ucast lo) (ucast y))
      else Rem64 hi lo y)"

end
