(* ===== verification/Bits_Counting.thy ===== *)
theory Bits_Counting
  imports Bits
begin

unbundle bit_operations_syntax

text \<open>
  The counting functions of \<open>math/bits\<close>: bit lengths and leading zeros against the least \<open>k\<close> with
  \<open>x < 2^k\<close>, trailing zeros against the least set bit (through the de Bruijn tables), and
  population counts against the number of set bits (through the table and through the
  word-parallel summation of \<open>OnesCount64\<close>).
\<close>

section \<open>Bit length\<close>

definition bitlen :: "nat \<Rightarrow> nat" where
  "bitlen n = (LEAST k. n < 2 ^ k)"

lemma bitlen_eqI: "n < 2 ^ k \<Longrightarrow> k = 0 \<or> 2 ^ (k - 1) \<le> n \<Longrightarrow> bitlen n = k"
  unfolding bitlen_def
proof (rule Least_equality)
  fix y assume "k = 0 \<or> 2 ^ (k - 1) \<le> n" "n < 2 ^ y"
  then have "k = 0 \<or> (2::nat) ^ (k - 1) < 2 ^ y" by linarith
  then show "k \<le> y" by auto
qed

lemma bitlen_upper: "n < 2 ^ bitlen n"
  unfolding bitlen_def by (rule LeastI [of _ n]) simp

lemma bitlen_lower: "0 < n \<Longrightarrow> 2 ^ (bitlen n - 1) \<le> n"
proof -
  assume "0 < n"
  then have "bitlen n \<noteq> 0" using bitlen_upper [of n] by (cases "bitlen n") auto
  then have "\<not> n < 2 ^ (bitlen n - 1)"
    unfolding bitlen_def by (intro not_less_Least) simp
  then show ?thesis by simp
qed

lemma bitlen_drop: "2 ^ j \<le> n \<Longrightarrow> bitlen n = j + bitlen (n div 2 ^ j)"
proof (rule bitlen_eqI)
  assume j: "2 ^ j \<le> n"
  let ?m = "n div 2 ^ j"
  have "0 < ?m" using j by (simp add: div_greater_zero_iff)
  then have "2 ^ (bitlen ?m - 1) * 2 ^ j \<le> n"
    using bitlen_lower [of ?m] by (simp add: less_eq_div_iff_mult_less_eq)
  moreover have "0 < bitlen ?m" using \<open>0 < ?m\<close> bitlen_upper [of ?m] by (cases "bitlen ?m") auto
  ultimately show "j + bitlen ?m = 0 \<or> 2 ^ (j + bitlen ?m - 1) \<le> n"
    by (simp add: mult.commute flip: power_add)
  show "n < 2 ^ (j + bitlen ?m)"
    using bitlen_upper [of ?m] by (simp add: div_less_iff_less_mult power_add mult.commute)
qed

lemma len8: "list_all2 (\<lambda>t i. i < 2 ^ nat t \<and> (nat t = 0 \<or> 2 ^ (nat t - 1) \<le> i)) (map uint len8tab) [0..255]"
  by code_simp

lemma len8tab_bitlen: "n < 256 \<Longrightarrow> unat (len8tab ! n) = bitlen n"
proof -
  assume n: "n < 256"
  let ?t = "unat (len8tab ! n)"
  have "int n < 2 ^ ?t \<and> (?t = 0 \<or> 2 ^ (?t - 1) \<le> int n)"
    using table_lookup [OF len8, of n] n unfolding unat_eq_nat_uint by simp
  then have "n < 2 ^ ?t" "?t = 0 \<or> 2 ^ (?t - 1) \<le> n"
    by (simp_all add: of_nat_less_iff [symmetric] of_nat_le_iff [symmetric] del: of_nat_less_iff of_nat_le_iff)
  then show ?thesis using bitlen_eqI by simp
qed

lemma len8tab_ucast: "unat x < 2 ^ 8 \<Longrightarrow> unat (len8tab ! unat (ucast x :: u8)) = bitlen (unat x)"
  by (simp add: unat_ucast len8tab_bitlen)

lemma Len_stage:
  assumes "(if x \<ge> 2 ^ j then (drop_bit j x, n') else (x, n)) = (y, m)" "n' = n + j"
    and "j < LENGTH('a)" "j + j' \<ge> l" and "unat (x :: 'a::len word) < 2 ^ l" and "j \<le> j'"
  shows "m + bitlen (unat y) = n + bitlen (unat x)" "unat y < 2 ^ j'"
proof -
  have e: "unat (2 ^ j :: 'a word) = 2 ^ j" using assms(3) by (simp add: unat_power_lower)
  show "m + bitlen (unat y) = n + bitlen (unat x)"
    using assms(1,2) bitlen_drop [of j "unat x"] by (auto simp: word_nat e split: if_splits)
  have "unat x < 2 ^ j' * 2 ^ j" using assms(4,5)
    by (metis add.commute less_le_trans one_le_numeral power_add power_increasing)
  then show "unat y < 2 ^ j'" using assms(1,6)
    by (auto simp: word_nat e div_less_iff_less_mult split: if_splits) 
        (meson less_le_trans not_le one_le_numeral power_increasing)
qed

lemma Len8_bitlen: "Len8 x = bitlen (unat x)"
  using unat_lt2p [of x] by (simp add: Len8_def len8tab_bitlen)


lemma Len16_bitlen: "Len16 x = bitlen (unat x)"
proof -
  obtain y n where y: "(if x \<ge> 2 ^ 8 then (drop_bit 8 x, 8) else (x, 0)) = (y, n :: nat)" by fastforce
  have "Len16 x = n + unat (len8tab ! unat (ucast y :: u8))"
    unfolding Len16_def y Let_def by simp
  then show ?thesis using Len_stage [OF y, where l = 16 and j' = 8] unat_lt2p [of x]
    by (simp add: len8tab_ucast)
qed

lemma Len32_bitlen: "Len32 x = bitlen (unat x)"
proof -
  obtain y n where y: "(if x \<ge> 2 ^ 16 then (drop_bit 16 x, 16) else (x, 0)) = (y, n :: nat)" by fastforce
  obtain z m where z: "(if y \<ge> 2 ^ 8 then (drop_bit 8 y, n + 8) else (y, n)) = (z, m)" by fastforce
  have "Len32 x = m + unat (len8tab ! unat (ucast z :: u8))"
    unfolding Len32_def y Let_def prod.case z by simp
  then show ?thesis using Len_stage [OF y, where l = 32 and j' = 16] Len_stage [OF z, where l = 16 and j' = 8]
      unat_lt2p [of x]
    by (simp add: len8tab_ucast)
qed

lemma Len64_bitlen: "Len64 x = bitlen (unat x)"
proof -
  obtain y n where y: "(if x \<ge> 2 ^ 32 then (drop_bit 32 x, 32) else (x, 0)) = (y, n :: nat)" by fastforce
  obtain z m where z: "(if y \<ge> 2 ^ 16 then (drop_bit 16 y, n + 16) else (y, n)) = (z, m)" by fastforce
  obtain w k where w: "(if z \<ge> 2 ^ 8 then (drop_bit 8 z, m + 8) else (z, m)) = (w, k)" by fastforce
  have "Len64 x = k + unat (len8tab ! unat (ucast w :: u8))"
    unfolding Len64_def y Let_def prod.case z w by simp
  then show ?thesis using Len_stage [OF y, where l = 64 and j' = 32] Len_stage [OF z, where l = 32 and j' = 16]
      Len_stage [OF w, where l = 16 and j' = 8] unat_lt2p [of x]
    by (simp add: len8tab_ucast)
qed

lemma UintSize_64 [simp]: "UintSize = 64"
  by (simp add: UintSize_def uintSize_def)

section \<open>Trailing zeros\<close>

lemma ntz8_table: "list_all2 (\<lambda>t i. i = 0 \<and> t = 8 \<or> i \<noteq> 0 \<and> i mod 2 ^ nat t = 0 \<and> odd (i div 2 ^ nat t)) (map uint ntz8tab) [0..255]"
  by code_simp

lemma deBruijn64_table: "\<forall>i<64. unat (deBruijn64tab ! unat (drop_bit (64 - 6) (2 ^ i * deBruijn64))) = i"
  by (simp add: deBruijn64tab_def deBruijn64_def all_less_numeral)

lemma deBruijn32_table: "\<forall>i<32. unat (deBruijn32tab ! unat (drop_bit (32 - 5) (2 ^ i * deBruijn32))) = i"
  by (simp add: deBruijn32tab_def deBruijn32_def all_less_numeral)

lemma isolate_Least:
  assumes "(x :: 'a::len word) \<noteq> 0"
  shows "x AND - x = 2 ^ (LEAST i. bit x i)" "(LEAST i. bit x i) < LENGTH('a)"
proof -
  obtain i where "bit x i" using assms bit_eq_iff [of x 0] by auto
  then have b: "bit x (LEAST i. bit x i)" by (rule LeastI)
  then show "(LEAST i. bit x i) < LENGTH('a)" by (rule bit_imp_le_length)
  show "x AND - x = 2 ^ (LEAST i. bit x i)"
    by (rule lowest_bit [OF b]) (rule not_less_Least)
qed

lemma TrailingZeros64_eq: "TrailingZeros64 x = (if x = 0 then 64 else LEAST i. bit x i)"
  using deBruijn64_table isolate_Least [of x] by (simp add: TrailingZeros64_def)

lemma TrailingZeros32_eq: "TrailingZeros32 x = (if x = 0 then 32 else LEAST i. bit x i)"
  using deBruijn32_table isolate_Least [of x] by (simp add: TrailingZeros32_def)

lemma TrailingZeros16_eq: "TrailingZeros16 x = (if x = 0 then 16 else LEAST i. bit x i)"
proof (cases "x = 0")
  case False
  have "(ucast (2 ^ (LEAST i. bit x i) :: u16) :: u32) = 2 ^ (LEAST i. bit x i)"
    using isolate_Least [OF False] by (auto intro!: bit_word_eqI simp: bit_simps)
  then show ?thesis using deBruijn32_table isolate_Least [OF False] by (simp add: TrailingZeros16_def)
qed (simp add: TrailingZeros16_def)

lemma Least_bit_eqI: "take_bit n x = 0 \<Longrightarrow> bit (x :: 'a::len word) n \<Longrightarrow> (LEAST i. bit x i) = n"
  by (rule Least_equality)
    (auto simp: bit_eq_iff bit_simps dest: bit_imp_le_length simp flip: not_less)

lemma TrailingZeros8_eq: "TrailingZeros8 x = (if x = 0 then 8 else LEAST i. bit x i)"
proof (cases "x = 0")
  case True
  then show ?thesis by (simp add: TrailingZeros8_def ntz8tab_def)
next
  case False
  let ?t = "unat (ntz8tab ! unat x)"
  have "uint x \<noteq> 0" using False by (simp add: unsigned_eq_0_iff)
  then have t: "uint x mod 2 ^ ?t = 0 \<and> odd (uint x div 2 ^ ?t)"
    using table_lookup [OF ntz8_table, of "unat x"] uint_lt2p [of x]
    unfolding unat_eq_nat_uint by simp
  then have "take_bit ?t x = 0"
    by (simp add: word_uint_eq_iff unsigned_take_bit_eq) (simp add: take_bit_eq_mod)
  moreover have "bit x ?t" using t by (simp add: bit_uint_iff bit_iff_odd [of "uint x", symmetric])
  ultimately show ?thesis using False by (simp add: TrailingZeros8_def Least_bit_eqI)
qed

lemma masks_64:
  "m0 AND (2 ^ 64 - 1) = m0" "m1 AND (2 ^ 64 - 1) = m1" "m2 AND (2 ^ 64 - 1) = m2"
  "m3 AND (2 ^ 64 - 1) = m3" "m4 AND (2 ^ 64 - 1) = m4"
  by (simp_all add: m0_def m1_def m2_def m3_def m4_def)



section \<open>Population counts\<close>

text \<open>Little-endian digit lists in base \<open>2^w\<close>: the state of the word-parallel summation.\<close>

fun digits_val :: "nat \<Rightarrow> nat list \<Rightarrow> nat" where
  "digits_val w [] = 0"
| "digits_val w (d # ds) = d + 2 ^ w * digits_val w ds"

fun evens :: "'a list \<Rightarrow> 'a list" where
  "evens (a # b # ds) = a # evens ds"
| "evens [] = []"
| "evens [a] = [a]"

fun pair_sums :: "nat list \<Rightarrow> nat list" where
  "pair_sums (a # b # ds) = (a + b) # pair_sums ds"
| "pair_sums _ = []"

lemma digits_val_append0: "digits_val w (ds @ [0]) = digits_val w ds"
  by (induction ds) auto

lemma digits_val_tl: "list_all (\<lambda>d. d < 2 ^ w) ds \<Longrightarrow> digits_val w ds div 2 ^ w = digits_val w (tl ds @ [0])"
  by (cases ds) (auto simp: digits_val_append0)

lemma digits_val_add: "length xs = length ys \<Longrightarrow> digits_val w xs + digits_val w ys = digits_val w (map2 (+) xs ys)"
  by (induction xs ys rule: list_induct2) (auto simp: algebra_simps, metis distrib_left mult.commute)

lemma bit_block:
  fixes c n :: nat
  assumes "c < 2 ^ w"
  shows "bit (c + 2 ^ w * n) i \<longleftrightarrow> (if i < w then bit c i else bit n (i - w))"
proof -
  have t: "bit c i \<Longrightarrow> i < w" for i using assms take_bit_nat_eq_self [of c w] by (metis bit_take_bit_iff)
  then have "c AND push_bit w n = 0"
    by (intro bit_eqI) (auto simp: bit_simps dest!: t)
  then have "c + push_bit w n = c OR push_bit w n"
    by (rule disjunctive_add_eq_or)
  then have "bit (c + 2 ^ w * n) i \<longleftrightarrow> bit (c OR push_bit w n) i"
    by (simp add: push_bit_eq_mult mult.commute)
  with t show ?thesis by (auto simp: bit_or_iff bit_push_bit_iff)
qed

lemma and_block:
  fixes c m n M :: nat
  assumes "c < 2 ^ w" and "m < 2 ^ w"
  shows "(c + 2 ^ w * n) AND (m + 2 ^ w * M) = (c AND m) + 2 ^ w * (n AND M)"
proof -
  have "take_bit w (c AND m) = c AND m" using assms by (simp add: take_bit_nat_eq_self)
  then have "c AND m < 2 ^ w" by (metis take_bit_nat_less_exp)
  with assms show ?thesis by (auto intro!: bit_eqI simp: bit_block bit_and_iff)
qed

lemma digits_and_evens:
  "even (length ds) \<Longrightarrow> list_all (\<lambda>d. d < 2 ^ w) ds \<Longrightarrow> 
   digits_val w ds AND digits_val (2 * w) (replicate (length ds div 2) (mask w)) = digits_val (2 * w) (evens ds)"
proof (induction ds rule: evens.induct)
  case (1 a b r)
  have mask_lt: "mask w < (2 :: nat) ^ w" by (simp add: mask_eq_exp_minus_1)
  let ?M = "digits_val (2 * w) (replicate (length r div 2) (mask w))"
  have "digits_val w (a # b # r) AND digits_val (2 * w) (replicate (length (a # b # r) div 2) (mask w)) =
     (a + 2 ^ w * (b + 2 ^ w * digits_val w r)) AND (mask w + 2 ^ w * (0 + 2 ^ w * ?M))"
    by (simp add: power_add mult_2 mult.assoc)
  also have "\<dots> = (a AND mask w) + 2 ^ w * ((b AND 0) + 2 ^ w * (digits_val w r AND ?M))"
    using 1 and_block [of b w 0] by (simp add: and_block mask_lt)
  also have "\<dots> = a + 2 ^ (2 * w) * digits_val (2 * w) (evens r)"
    using 1 by (simp add: power_add mult_2 mult.assoc take_bit_nat_eq_self flip: take_bit_eq_mask)
  finally show ?case by simp
qed auto

lemma length_pair_sums [simp]: "length (pair_sums ds) = length ds div 2"
  by (induction ds rule: pair_sums.induct) auto
lemma sum_pair_sums: "even (length ds) \<Longrightarrow> sum_list (pair_sums ds) = sum_list ds"
  by (induction ds rule: pair_sums.induct) auto
lemma bound_pair_sums: "list_all (\<lambda>d. d \<le> B) ds \<Longrightarrow> list_all (\<lambda>d. d \<le> 2 * B) (pair_sums ds)"
  by (induction ds rule: pair_sums.induct) auto
lemma length_evens: "even (length ds) \<Longrightarrow> length (evens ds) = length ds div 2"
  by (induction ds rule: evens.induct) auto
lemma evens_tl: "even (length ds) \<Longrightarrow> ds \<noteq> [] \<Longrightarrow> map2 (+) (evens (tl ds @ [0])) (evens ds) = pair_sums ds"
proof (induction ds rule: pair_sums.induct)
  case (1 a b ds)
  then show ?case by (cases ds) (auto simp: add.commute)
qed auto

lemma swar_step:
  assumes "even (length ds)" "ds \<noteq> []" "list_all (\<lambda>d. d < 2 ^ w) ds"
  defines "M \<equiv> digits_val (2 * w) (replicate (length ds div 2) (mask w))"
  shows "(digits_val w ds div 2 ^ w AND M) + (digits_val w ds AND M) = digits_val (2 * w) (pair_sums ds)"
proof -
  obtain d r where ds: "ds = d # r" using assms(2) by (cases ds) auto
  then have "digits_val w ds div 2 ^ w AND M = digits_val (2 * w) (evens (tl ds @ [0]))"
    using assms digits_and_evens [of "tl ds @ [0]" w] by (simp add: digits_val_append0)
  moreover have "digits_val w ds AND M = digits_val (2 * w) (evens ds)"
    using assms digits_and_evens [of ds w] by simp
  ultimately show ?thesis using assms(1,2) ds
    by (simp add: digits_val_add length_evens flip: evens_tl)
qed

lemma evens_adjacent: "even (length ds) \<Longrightarrow> ds \<noteq> [] \<Longrightarrow> evens (map2 (+) (tl ds @ [0]) ds) = pair_sums ds"
proof (induction ds rule: pair_sums.induct)
  case (1 a b ds)
  then show ?case by (cases ds) (auto simp: add.commute)
qed auto

lemma swar_step':
  assumes "even (length ds)" "ds \<noteq> []" "list_all (\<lambda>d. d \<le> B) ds" "2 * B < 2 ^ w"
  defines "M \<equiv> digits_val (2 * w) (replicate (length ds div 2) (mask w))"
  shows "(digits_val w ds div 2 ^ w + digits_val w ds) AND M = digits_val (2 * w) (pair_sums ds)"
proof -
  obtain d r where ds: "ds = d # r" using assms(2) by (cases ds) auto
  let ?s = "map2 (+) (tl ds @ [0]) ds"
  have "list_all (\<lambda>d. d < 2 ^ w) ds" using assms(3,4) by (auto simp: list_all_iff)
  then have "digits_val w ds div 2 ^ w + digits_val w ds = digits_val w ?s"
    using ds digits_val_add [of "tl ds @ [0]" ds w] by (simp add: digits_val_append0)
  moreover have "list_all (\<lambda>d. d < 2 ^ w) ?s"
  proof -
    have "x < 2 ^ w" if "x \<in> set ?s" for x
    proof -
      from that obtain a b where "x = a + b" "a \<in> set (tl ds @ [0])" "b \<in> set ds" 
        using set_zip_leftD [of _ _ "tl ds @ [0]" ds] set_zip_rightD [of _ _ "tl ds @ [0]" ds] by fastforce
      then have "a \<le> B" "b \<le> B" using assms(3) ds by (auto simp: list_all_iff)
      then show ?thesis using \<open>x = a + b\<close> assms(4) by simp
    qed
    then show ?thesis by (simp add: list_all_iff)
  qed
  moreover have "evens ?s = pair_sums ds" using assms(1,2) by (rule evens_adjacent)
  ultimately show ?thesis using assms(1) ds digits_and_evens [of ?s w] by (simp add: M_def)
qed


lemma unat_digits: "unat (x :: 'a::len word) = digits_val 1 (map (\<lambda>i. of_bool (bit x i)) [0..<LENGTH('a)])"
proof -
  have "digits_val 1 ds = (\<Sum>i<length ds. ds ! i * 2 ^ i)" for ds
    by (induction ds) (simp_all add: sum.lessThan_Suc_shift sum_distrib_left mult.left_commute del: sum.lessThan_Suc)
  then show ?thesis by (simp add: unat_sum_bits)
qed

lemma card_bits: "card {i. bit (x :: 'a::len word) i} = sum_list (map (\<lambda>i. of_bool (bit x i)) [0..<LENGTH('a)])"
proof -
  have "{i. bit x i} = {i \<in> {0..<LENGTH('a)}. bit x i}" by (auto dest: bit_imp_le_length)
  then show ?thesis by (simp add: interv_sum_list_conv_sum_set_nat sum.If_cases of_bool_def Int_def)
qed

lemma digits_val_bound: "list_all (\<lambda>d. d < 2 ^ w) ds \<Longrightarrow> digits_val w ds < 2 ^ (w * length ds)"
proof (induction ds)
  case (Cons d ds)
  then have "d + 2 ^ w * digits_val w ds < 2 ^ w * (digits_val w ds + 1)" by simp
  also have "\<dots> \<le> 2 ^ w * 2 ^ (w * length ds)" using Cons by (intro mult_left_mono) auto
  finally show ?case by (simp add: power_add)
qed simp


lemma replicate_numeral: "replicate (numeral k) x = x # replicate (pred_numeral k) x"
  by (simp only: numeral_eq_Suc replicate_Suc)

lemma unat_add_exact: "unat a + unat b < 2 ^ LENGTH('a) \<Longrightarrow> unat (a + b :: 'a::len word) = unat a + unat b"
  by (simp add: unat_word_ariths)

lemma unat_masks: "unat m0 = digits_val 2 (replicate 32 (mask 1))" "unat m1 = digits_val 4 (replicate 16 (mask 2))"
     "unat m2 = digits_val 8 (replicate 8 (mask 4))"
    by (simp_all add: m0_def m1_def m2_def mask_eq_exp_minus_1 replicate_numeral)

lemma swar_word:
  fixes x M :: u64
  assumes x: "unat x = digits_val w ds" and ds: "list_all (\<lambda>d. d \<le> B) ds" "B < 2 ^ w" "2 * B < 2 ^ (2 * w)"
    and l: "w * length ds = 64" "even (length ds)"
    and M: "unat M = digits_val (2 * w) (replicate (length ds div 2) (mask w))"
  shows "unat ((drop_bit w x AND M) + (x AND M)) = digits_val (2 * w) (pair_sums ds)"
proof -
  have "list_all (\<lambda>d. d < 2 ^ w) ds" "ds \<noteq> []" using ds l by (auto simp: list_all_iff)
  then have s: "unat (drop_bit w x AND M) + unat (x AND M) = digits_val (2 * w) (pair_sums ds)"
    using swar_step [of ds w] l by (simp add: unsigned_and_eq unat_drop_bit x M)
  have "list_all (\<lambda>d. d < 2 ^ (2 * w)) (pair_sums ds)"
    using bound_pair_sums [OF ds(1)] ds(3) by (auto simp: list_all_iff)
  then have "digits_val (2 * w) (pair_sums ds) < 2 ^ 64"
    using digits_val_bound [of "2 * w" "pair_sums ds"] l by (simp add: mult.commute mult.assoc)
  with s show ?thesis by (simp add: unat_add_exact)
qed

lemma sum_bytes:
  assumes x: "unat (x :: u64) = digits_val 8 e" and "list_all (\<lambda>d. d \<le> 8) e" "length e = 8"
  shows "unat ((let x = x + drop_bit 8 x; x = x + drop_bit 16 x; x = x + drop_bit 32 x in x) AND (2 ^ 7 - 1)) = sum_list e"
proof -
  obtain a b c d f g h i where e: "e = [a,b,c,d,f,g,h,i]" using assms(3)
    by (auto simp: length_Suc_conv eval_nat_numeral)
  have b: "a \<le> 8" "b \<le> 8" "c \<le> 8" "d \<le> 8" "f \<le> 8" "g \<le> 8" "h \<le> 8" "i \<le> 8" using assms(2) by (auto simp: e)
  define y where "y = x + drop_bit 8 x"
  define z where "z = y + drop_bit 16 y"
  have "unat x div 2 ^ 8 = digits_val 8 [b,c,d,f,g,h,i]" using b by (simp add: x e)
  then have y: "unat y = digits_val 8 [a+b,b+c,c+d,d+f,f+g,g+h,h+i,i]"
    unfolding y_def using b by (subst unat_add_exact) (simp_all add: word_nat x e)
  have "unat y div 2 ^ 16 = digits_val 8 [c+d,d+f,f+g,g+h,h+i,i]" using b by (simp add: y)
  then have z: "unat z = digits_val 8 [a+b+c+d,b+c+d+f,c+d+f+g,d+f+g+h,f+g+h+i,g+h+i,h+i,i]"
    unfolding z_def using b by (subst unat_add_exact) (simp_all add: word_nat y)
  have "unat z div 2 ^ 32 = digits_val 8 [f+g+h+i,g+h+i,h+i,i]" using b by (simp add: z)
  then have w: "unat (z + drop_bit 32 z) = digits_val 8 [a+b+c+d+f+g+h+i,b+c+d+f+g+h+i,c+d+f+g+h+i,d+f+g+h+i,f+g+h+i,g+h+i,h+i,i]"
    using b by (subst unat_add_exact) (simp_all add: word_nat z)
  have "digits_val 8 (s # r) mod 2 ^ 7 = s" if "s \<le> 64" for s r
    using that mod_mult_self2 [of s 128 "2 * digits_val 8 r"] by simp
  note low = this
  have w: "unat (z + drop_bit 32 z) mod 2 ^ 7 = a+b+c+d+f+g+h+i"
    unfolding w by (rule low) (use b in simp)
  have "(2 ^ 7 - 1 :: u64) = mask 7" by (simp add: mask_eq_exp_minus_1)
  then show ?thesis unfolding Let_def using w by (simp only: unat_and_mask y_def z_def) (simp add: e)
qed

lemma digits_val_double: "digits_val w (map ((*) 2) ds) = 2 * digits_val w ds"
  by (induction ds) auto

lemma OnesCount64_card: "OnesCount64 x = card {i. bit x i}"
proof -
  define b where "b = map (\<lambda>i. of_bool (bit x i) :: nat) [0..<64]"
  define c where "c = pair_sums b"
  define d where "d = pair_sums c"
  define e where "e = pair_sums d"
  have B: "list_all (\<lambda>d. d \<le> 1) b" by (auto simp: b_def list_all_iff)
  have C: "list_all (\<lambda>d. d \<le> 2) c" using bound_pair_sums [OF B] by (simp add: c_def)
  have D: "list_all (\<lambda>d. d \<le> 4) d" using bound_pair_sums [OF C] by (simp add: d_def)
  have E: "list_all (\<lambda>d. d \<le> 8) e" using bound_pair_sums [OF D] by (simp add: e_def)
  have L: "length b = 64" "length c = 32" "length d = 16" "length e = 8" by (simp_all add: b_def c_def d_def e_def)
  have S: "sum_list e = card {i. bit x i}" using L by (simp add: e_def d_def c_def sum_pair_sums card_bits b_def)
  have N: "d \<noteq> []" using L by auto
  define y1 where "y1 = (drop_bit 1 x AND m0) + (x AND m0)"
  define y2 where "y2 = (drop_bit 2 y1 AND m1) + (y1 AND m1)"
  define y3 where "y3 = (drop_bit 4 y2 + y2) AND m2"
  have "unat x = digits_val 1 b" using unat_digits[of x] by (simp add: b_def)
  then have "unat y1 = digits_val (2 * 1) c"
    unfolding y1_def c_def using B L by (intro swar_word [where B = 1]) (simp_all add: unat_masks)
  then have "unat y2 = digits_val (2 * 2) d"
    unfolding y2_def d_def using C L by (intro swar_word [where B = 2]) (simp_all add: unat_masks)
  moreover have "2 * digits_val 4 d < 2 ^ 64"
    using digits_val_bound [of 4 "map ((*) 2) d"] D L
    by (fastforce simp: digits_val_double list_all_iff)
  ultimately have "unat (drop_bit 4 y2 + y2) = digits_val 4 d div 2 ^ 4 + digits_val 4 d"
    by (subst unat_add_exact) (simp_all add: word_nat)
  then have "unat y3 = digits_val 8 e"
    using swar_step' [of d 4 4] D L N by (auto simp: y3_def e_def unsigned_and_eq unat_masks)
  then have "unat ((let x = y3 + drop_bit 8 y3; x = x + drop_bit 16 x; x = x + drop_bit 32 x in x) AND (2 ^ 7 - 1)) = sum_list e"
    using E L by (intro sum_bytes)
  then show ?thesis unfolding OnesCount64_def Let_def masks_64 y3_def y2_def y1_def S .
qed

definition ones :: "nat \<Rightarrow> nat" where
  "ones n = card {i. bit n i}"

lemma finite_bits: "finite {i. bit (n::nat) i}"
proof -
  have "i < n" if "bit n i" for i
  proof -
    have "0 < n div 2 ^ i" using that by (auto simp: bit_iff_odd intro: Nat.gr0I)
    then have "2 ^ i \<le> n" by (simp add: div_greater_zero_iff)
    then show ?thesis using less_exp [of i] by linarith
  qed
  then have "{i. bit n i} \<subseteq> {..<n}" by auto
  then show ?thesis by (rule finite_subset) simp
qed

lemma bit_mod_less: "bit (n mod 2 ^ w :: nat) i \<Longrightarrow> i < w"
  by (simp add: bit_simps flip: take_bit_eq_mod)

lemma ones_split: "ones n = ones (n mod 2 ^ w) + ones (n div 2 ^ w)"
proof -
  have b: "bit n i \<longleftrightarrow> (if i < w then bit (n mod 2 ^ w) i else bit (n div 2 ^ w) (i - w))" for i
    using bit_block [of "n mod 2 ^ w" w "n div 2 ^ w" i] by simp
  have "{i. bit n i} = {i. bit (n mod 2 ^ w) i} \<union> (\<lambda>i. i + w) ` {i. bit (n div 2 ^ w) i}"
    using b bit_mod_less by (auto simp: image_iff) (metis add.commute add_diff_inverse_nat)+
  moreover have "{i. bit (n mod 2 ^ w) i} \<inter> (\<lambda>i. i + w) ` {i. bit (n div 2 ^ w) i} = {}"
    using bit_mod_less by force
  ultimately show ?thesis
    by (simp add: ones_def card_Un_disjoint finite_bits card_image inj_on_def)
qed

lemma ones_word: "card {i. bit (x :: 'a::len word) i} = ones (unat x)"
  by (simp add: ones_def bit_unsigned_iff)


lemma pop8_table: "map uint pop8tab = map (\<lambda>i. i mod 2 + i div 2 mod 2 + i div 4 mod 2 + i div 8 mod 2 + i div 16 mod 2 + i div 32 mod 2 + i div 64 mod 2 + i div 128 mod 2) [0..255]"
  by code_simp

lemma ones_bit: "ones (n mod 2) = n mod 2"
  by (cases "even n") (auto simp: ones_def odd_iff_mod_2_eq_one bit_Suc_0_iff even_iff_mod_2_eq_zero)

lemma ones_step: "ones n = n mod 2 + ones (n div 2)"
  using ones_split [of n 1] by (simp add: ones_bit)

lemma ones_0 [simp]: "ones 0 = 0"
  by (simp add: ones_def)

lemma pop8tab_ones: 
  assumes n: "n < 256"
  shows "unat (pop8tab ! n) = ones n"
proof -
  have "list_all2 (=) (map uint pop8tab) (map (\<lambda>i. i mod 2 + i div 2 mod 2 + i div 4 mod 2 + i div 8 mod 2 + i div 16 mod 2 + i div 32 mod 2 + i div 64 mod 2 + i div 128 mod 2) [0..255])"
    by (simp only: pop8_table list.rel_eq)
  then have "list_all2 (\<lambda>t i. t = i mod 2 + i div 2 mod 2 + i div 4 mod 2 + i div 8 mod 2 + i div 16 mod 2 + i div 32 mod 2 + i div 64 mod 2 + i div 128 mod 2) (map uint pop8tab) [0..255]"
    by (simp only: list_all2_map2)
  moreover have "int n \<le> 255" using n by simp
  ultimately
  have "uint (pop8tab ! n) = int (n mod 2 + n div 2 mod 2 + n div 4 mod 2 + n div 8 mod 2 + n div 16 mod 2 + n div 32 mod 2 + n div 64 mod 2 + n div 128 mod 2)"
    by (auto dest!: table_lookup simp only: zdiv_int zmod_int of_nat_add of_nat_numeral)
  moreover have "n div 256 = 0" using n by simp
  then have "ones n = n mod 2 + n div 2 mod 2 + n div 4 mod 2 + n div 8 mod 2 + n div 16 mod 2 + n div 32 mod 2 + n div 64 mod 2 + n div 128 mod 2"
    by (simp add: ones_step [of n] ones_step [of "n div 2"] ones_step [of "n div 4"] ones_step [of "n div 8"] ones_step [of "n div 16"] 
       ones_step [of "n div 32"] ones_step [of "n div 64"] ones_step [of "n div 128"] flip: div_mult2_eq)
  ultimately show ?thesis by (simp only: unat_eq_nat_uint nat_int)
qed

lemma ones_byte: "ones (n mod 256) \<le> 8"
proof -
  have "{i. bit (n mod 2 ^ 8) i} \<subseteq> {..<8}" using bit_mod_less by blast
  from card_mono [OF _ this] show ?thesis by (simp add: ones_def)
qed

lemma OnesCount8_card: "OnesCount8 x = card {i. bit x i}"
  using unat_lt2p [of x] by (simp add: OnesCount8_def pop8tab_ones ones_word)

lemma OnesCount16_card: "OnesCount16 x = card {i. bit x i}"
proof -
  have m: "(0xff :: u16) = mask 8" by (simp add: mask_eq_exp_minus_1)
  have "unat x div 256 mod 256 = unat x div 256" using unat_lt2p [of x] by simp
  then have "OnesCount16 x = ones (unat x div 256 mod 256) + ones (unat x mod 256)"
    using ones_byte [of "unat x"] ones_byte [of "unat x div 256"] pop8tab_ones [of "unat x div 256 mod 256"] pop8tab_ones [of "unat x mod 256"]
    unfolding OnesCount16_def m unat_and_mask unat_drop_bit by (subst unat_add_exact) simp_all
  then show ?thesis using ones_split [of "unat x" 8] \<open>unat x div 256 mod 256 = _\<close>
    by (simp add: ones_word)
qed

lemma OnesCount32_card: "OnesCount32 x = card {i. bit x i}"
proof -
  let ?n = "unat x"
  have m: "(0xff :: u32) = mask 8" by (simp add: mask_eq_exp_minus_1)
  have h: "?n div 2 ^ 24 mod 256 = ?n div 2 ^ 24" using unat_lt2p [of x] by simp
  define p where "p k = pop8tab ! (?n div 2 ^ k mod 256)" for k
  have p: "unat (p k) = ones (?n div 2 ^ k mod 256)" for k unfolding p_def by (rule pop8tab_ones) simp
  have le: "unat (p k) \<le> 8" for k using p ones_byte by simp
  have "OnesCount32 x = unat (p 24 + p 16 + p 8 + p 0)"
    using h unfolding OnesCount32_def m unat_and_mask unat_drop_bit p_def by simp
  also have "\<dots> = unat (p 24) + unat (p 16) + unat (p 8) + unat (p 0)"
    using le [of 24] le [of 16] le [of 8] le [of 0]
    by (subst unat_add_exact; (subst unat_add_exact)?; (subst unat_add_exact)?; simp)
  also have "\<dots> = ones ?n"
    using h ones_split [of ?n 8] ones_split [of "?n div 2 ^ 8" 8] ones_split [of "?n div 2 ^ 16" 8]
    by (simp add: p flip: div_mult2_eq)
  finally show ?thesis by (simp add: ones_word)
qed

section \<open>Properties\<close>

text \<open>
  C3: counting bits. The bit lengths of all four widths, and of \<open>uint\<close>, are the least \<open>k\<close> with \<open>x < 2^k\<close>, so 0
  for 0; the leading zeros are the rest of the word. The number of trailing zeros is the position of the lowest set
  bit, and the width for 0: the de Bruijn multiplication and both its tables compute exactly this. The population
  count is the number of set bits, for the table-driven versions and for the word-parallel \<open>OnesCount64\<close>.
\<close>

theorem bit_counts:
  "Len8 a = (LEAST k. unat a < 2 ^ k) \<and> Len16 b = (LEAST k. unat b < 2 ^ k) \<and>
   Len32 c = (LEAST k. unat c < 2 ^ k) \<and> Len64 d = (LEAST k. unat d < 2 ^ k) \<and>
   Len d = (LEAST k. unat d < 2 ^ k) \<and>
   LeadingZeros8 a = 8 - (LEAST k. unat a < 2 ^ k) \<and> LeadingZeros16 b = 16 - (LEAST k. unat b < 2 ^ k) \<and>
   LeadingZeros32 c = 32 - (LEAST k. unat c < 2 ^ k) \<and> LeadingZeros64 d = 64 - (LEAST k. unat d < 2 ^ k) \<and>
   LeadingZeros d = 64 - (LEAST k. unat d < 2 ^ k) \<and>
   TrailingZeros8 a = (if a = 0 then 8 else LEAST i. bit a i) \<and>
   TrailingZeros16 b = (if b = 0 then 16 else LEAST i. bit b i) \<and>
   TrailingZeros32 c = (if c = 0 then 32 else LEAST i. bit c i) \<and>
   TrailingZeros64 d = (if d = 0 then 64 else LEAST i. bit d i) \<and>
   TrailingZeros d = (if d = 0 then 64 else LEAST i. bit d i) \<and>
   OnesCount8 a = card {i. bit a i} \<and> OnesCount16 b = card {i. bit b i} \<and>
   OnesCount32 c = card {i. bit c i} \<and> OnesCount64 d = card {i. bit d i} \<and>
   OnesCount d = card {i. bit d i}"
  by (simp add: Len_def LeadingZeros8_def LeadingZeros16_def LeadingZeros32_def LeadingZeros64_def
      LeadingZeros_def Len8_bitlen Len16_bitlen Len32_bitlen Len64_bitlen bitlen_def
      TrailingZeros8_eq TrailingZeros16_eq TrailingZeros32_eq TrailingZeros64_eq TrailingZeros_def
      OnesCount8_card OnesCount16_card OnesCount32_card OnesCount64_card OnesCount_def)

end
