(* ===== verification/Bits_Shuffle.thy ===== *)
theory Bits_Shuffle
  imports Bits_Counting
begin

unbundle bit_operations_syntax

text \<open>
  Rotations and reversals of \<open>math/bits\<close> against the bit-level specifications \<open>word_rotl\<close> and
  \<open>word_reverse\<close> of the word library.
\<close>

definition swap_blocks :: "nat \<Rightarrow> 'a::len word \<Rightarrow> 'a word \<Rightarrow> 'a word" where
  "swap_blocks k M x = (drop_bit k x AND M) OR push_bit k (x AND M)"

lemma bit_swap_blocks: 
  fixes x :: "'a::len word"
  assumes M: "\<forall>i<LENGTH('a). bit M i \<longleftrightarrow> even (i div k)" and k: "0 < k" and i: "i < LENGTH('a)"
  shows "bit (swap_blocks k M x) i \<longleftrightarrow> bit x (if even (i div k) then i + k else i - k)"
proof -
  have "even ((i - k) div k) \<longleftrightarrow> odd (i div k)" if "k \<le> i" "0 < k"
    using that by (simp add: le_div_geq)
  moreover have "k \<le> i" if "odd (i div k)" using that by (metis div_less even_zero not_less)
  ultimately show ?thesis using M i k bit_imp_le_length [of x]
    by (auto simp: swap_blocks_def bit_simps add.commute)
qed

section \<open>Reversal\<close>

lemma blocks_of_masks:
  "\<forall>i<64. bit m0 i \<longleftrightarrow> even (i div 1)" "\<forall>i<64. bit m1 i \<longleftrightarrow> even (i div 2)"
  "\<forall>i<64. bit m2 i \<longleftrightarrow> even (i div 4)" "\<forall>i<64. bit m3 i \<longleftrightarrow> even (i div 8)"
  "\<forall>i<64. bit m4 i \<longleftrightarrow> even (i div 16)"
  by (simp_all add: m0_def m1_def m2_def m3_def m4_def all_less_numeral)



lemma swap_half: "LENGTH('a) = 2 * k \<Longrightarrow> drop_bit k x OR push_bit k x = swap_blocks k (mask k) (x :: 'a::len word)"
  by (rule bit_word_eqI) (auto simp: bit_simps swap_blocks_def dest: bit_imp_le_length)

lemma bit_mask_half:
  "LENGTH('a) = 2 * k \<Longrightarrow> \<forall>i<LENGTH('a). bit (mask k :: 'a::len word) i \<longleftrightarrow> even (i div k)"
proof (intro allI impI)
  fix i assume k: "LENGTH('a) = 2 * k" and i: "i < LENGTH('a)"
  show "bit (mask k :: 'a word) i \<longleftrightarrow> even (i div k)"
  proof (cases "i < k")
    case False
    with k i have "i div k = 1" by (simp add: le_div_geq)
    with False show ?thesis by (simp add: bit_simps)
  qed (use k i in \<open>simp add: bit_simps\<close>)
qed

lemma ReverseBytes64_swap:
  "ReverseBytes64 x = swap_blocks 32 (mask 32) (swap_blocks 16 m4 (swap_blocks 8 m3 x))"
proof -
  have "drop_bit 32 y OR push_bit 32 y = swap_blocks 32 (mask 32) y" for y :: u64
    by (rule swap_half) simp
  then show ?thesis
    unfolding ReverseBytes64_def Let_def masks_64 swap_blocks_def [of 8] swap_blocks_def [of 16] .
qed

lemma bit_ReverseBytes64: "bit (ReverseBytes64 x) i \<longleftrightarrow> i < 64 \<and> bit x (8 * (7 - i div 8) + i mod 8)"
proof (cases "i < 64")
  case True
  have "\<forall>i<64. bit (ReverseBytes64 x) i \<longleftrightarrow> bit x (8 * (7 - i div 8) + i mod 8)"
    by (simp add: ReverseBytes64_swap bit_swap_blocks blocks_of_masks bit_mask_half all_less_numeral)
       (simp add: numeral_2_eq_2)
  with True show ?thesis by blast
qed (auto dest: bit_imp_le_length)

lemma Reverse64_reverse: "Reverse64 x = word_reverse x"
proof (rule bit_word_eqI)
  fix i assume i: "i < LENGTH(64)"
  let ?y = "swap_blocks 4 m2 (swap_blocks 2 m1 (swap_blocks 1 m0 x))"
  have "Reverse64 x = ReverseBytes64 ?y"
    unfolding Reverse64_def Let_def masks_64 swap_blocks_def ..
  moreover have "\<forall>i<64. bit ?y (8 * (7 - i div 8) + i mod 8) \<longleftrightarrow> bit x (63 - i)"
    by (simp add: bit_swap_blocks blocks_of_masks all_less_numeral)
       (simp add: numeral_2_eq_2 numeral_3_eq_3)
  ultimately show "bit (Reverse64 x) i \<longleftrightarrow> bit (word_reverse x) i"
    using i by (simp add: bit_ReverseBytes64 bit_simps)
qed

lemma rotate_amount: 
  assumes "n \<le> 64"
  shows "unat (word_of_int k AND mask n :: u64) = nat (k mod 2 ^ n)"
proof -
  have "unat (word_of_int k :: u64) = nat (k mod 2 ^ 64)"
    by (simp add: unsigned_of_int take_bit_eq_mod)
  then have "int (unat (word_of_int k AND mask n :: u64)) = k mod 2 ^ 64 mod 2 ^ n"
    by (simp add: word_nat zmod_int)
  also have "\<dots> = k mod 2 ^ n" using assms by (metis le_imp_power_dvd mod_mod_cancel)
  finally show ?thesis by (metis nat_int)
qed

lemma rotate_rotl:
  "s < LENGTH('a) \<Longrightarrow> push_bit s x OR drop_bit (LENGTH('a) - s) x = word_rotl s (x :: 'a::len word)"
proof (rule bit_word_eqI)
  fix n assume s: "s < LENGTH('a)" and n: "n < LENGTH('a)"
  show "bit (push_bit s x OR drop_bit (LENGTH('a) - s) x) n \<longleftrightarrow> bit (word_rotl s x) n"
  proof (cases "s \<le> n")
    case True
    then have "(n + (LENGTH('a) - s)) mod LENGTH('a) = n - s"
      using s n by (simp add: mod_if)
    with True s n show ?thesis
      by (auto simp: bit_simps dest: bit_imp_le_length)
  next
    case False
    then have "(n + (LENGTH('a) - s)) mod LENGTH('a) = n + (LENGTH('a) - s)"
      using s n by simp
    with False s n show ?thesis
      by (auto simp: bit_simps add.commute)
  qed
qed

lemma RotateLeft64_rotl: "RotateLeft64 x k = word_rotl (nat (k mod 64)) x"
  using rotate_amount [of 6 k] rotate_rotl [of "nat (k mod 64)" x]
  by (simp add: RotateLeft64_def Let_def mask_eq_exp_minus_1 nat_less_iff)
lemma RotateLeft8_rotl: "RotateLeft8 x k = word_rotl (nat (k mod 8)) x"
  using rotate_amount [of 3 k] rotate_rotl [of "nat (k mod 8)" x]
  by (simp add: RotateLeft8_def Let_def mask_eq_exp_minus_1 nat_less_iff)

lemma rev8_table: "map uint rev8tab = map (\<lambda>i. 128 * (i mod 2) + 64 * (i div 2 mod 2) + 32 * (i div 4 mod 2) + 16 * (i div 8 mod 2) + 8 * (i div 16 mod 2) + 4 * (i div 32 mod 2) + 2 * (i div 64 mod 2) + i div 128 mod 2) [0..255]"
  by code_simp

lemma sum_8: "(\<Sum>i<8. f i) = f 0 + f 1 + f 2 + f 3 + f 4 + f 5 + f 6 + f 7" for f :: "nat \<Rightarrow> nat"
  by (simp add: eval_nat_numeral lessThan_Suc)

lemma unat_reverse_byte:
  assumes "n < 256"
  shows "unat (word_reverse (of_nat n :: u8)) =
    128 * (n mod 2) + 64 * (n div 2 mod 2) + 32 * (n div 4 mod 2) + 16 * (n div 8 mod 2) + 8 * (n div 16 mod 2) + 4 * (n div 32 mod 2) + 2 * (n div 64 mod 2) + n div 128 mod 2"
proof -
  have "unat (word_reverse (of_nat n :: u8)) = (\<Sum>i<8. n div 2 ^ (7 - i) mod 2 * 2 ^ i)"
    unfolding unat_sum_bits
    by (rule sum.cong) (auto simp: bit_simps bit_iff_odd [of n] mod_2_eq_odd)
  also have "\<dots> = 128 * (n mod 2) + 64 * (n div 2 mod 2) + 32 * (n div 4 mod 2) + 16 * (n div 8 mod 2) + 8 * (n div 16 mod 2) + 4 * (n div 32 mod 2) + 2 * (n div 64 mod 2) + n div 128 mod 2"
    unfolding sum_8 by simp
  finally show ?thesis .
qed

lemma rev8tab_reverse:
  assumes "n < 256"
  shows "rev8tab ! n = word_reverse (of_nat n)"
proof -
  define f :: "int \<Rightarrow> int" where "f i = 128 * (i mod 2) + 64 * (i div 2 mod 2) + 32 * (i div 4 mod 2) + 16 * (i div 8 mod 2) + 8 * (i div 16 mod 2) + 4 * (i div 32 mod 2) + 2 * (i div 64 mod 2) + i div 128 mod 2" for i
  have "list_all2 (=) (map uint rev8tab) (map f [0..255])"
    unfolding f_def [abs_def] by (simp only: rev8_table list.rel_eq)
  then have "list_all2 (\<lambda>t i. t = f i) (map uint rev8tab) [0..255]"
    by (simp only: list_all2_map2)
  then have "uint (rev8tab ! n) = f (int n)" by (rule table_lookup) (use assms in simp)
  also have "\<dots> = int (unat (word_reverse (of_nat n :: u8)))"
    by (simp only: f_def unat_reverse_byte [OF assms] zdiv_int zmod_int of_nat_add of_nat_mult of_nat_numeral)
  finally show ?thesis by (simp add: word_uint_eq_iff)
qed

lemma Reverse8_reverse: "Reverse8 x = word_reverse x"
  using unat_lt2p [of x] by (simp add: Reverse8_def rev8tab_reverse)

lemma Reverse16_reverse: "Reverse16 x = word_reverse x"
proof -
  have m: "(0xff :: u16) = mask 8" by (simp add: mask_eq_exp_minus_1)
  have a: "rev8tab ! unat (drop_bit 8 x) = word_reverse (ucast (drop_bit 8 x))"
     "rev8tab ! unat (x AND mask 8) = word_reverse (ucast x)"
  proof -
    have "rev8tab ! unat y = word_reverse y" for y :: u8
      using rev8tab_reverse [of "unat y"] unat_lt2p [of y] by simp
    moreover have "unat (drop_bit 8 x) = unat (ucast (drop_bit 8 x) :: u8)" "unat (x AND mask 8) = unat (ucast x :: u8)"
      using unat_lt2p [of x] by (simp_all only: unat_drop_bit unat_and_mask unat_ucast) simp_all
    ultimately show "rev8tab ! unat (drop_bit 8 x) = word_reverse (ucast (drop_bit 8 x))"
      "rev8tab ! unat (x AND mask 8) = word_reverse (ucast x)" by simp_all
  qed
  have "bit (Reverse16 x) n \<longleftrightarrow> bit (word_reverse x) n" if "n < 16" for n
    using that unfolding Reverse16_def m a
    by (cases "n < 8") (auto simp: bit_simps Suc_diff_le)
  then show ?thesis by (intro bit_word_eqI) simp
qed

lemma blocks_of_masks_32:
  "\<forall>i<32. bit (ucast m0 :: u32) i \<longleftrightarrow> even (i div 1)" "\<forall>i<32. bit (ucast m1 :: u32) i \<longleftrightarrow> even (i div 2)"
  "\<forall>i<32. bit (ucast m2 :: u32) i \<longleftrightarrow> even (i div 4)" "\<forall>i<32. bit (ucast m3 :: u32) i \<longleftrightarrow> even (i div 8)"
  using blocks_of_masks by (auto simp: bit_simps)

lemma masks_32: "ucast (m0 AND (2 ^ 32 - 1)) = (ucast m0 :: u32)" "ucast (m1 AND (2 ^ 32 - 1)) = (ucast m1 :: u32)"
 "ucast (m2 AND (2 ^ 32 - 1)) = (ucast m2 :: u32)" "ucast (m3 AND (2 ^ 32 - 1)) = (ucast m3 :: u32)"
  by (simp_all add: m0_def m1_def m2_def m3_def)

lemma bit_ReverseBytes32: "bit (ReverseBytes32 x) i \<longleftrightarrow> i < 32 \<and> bit x (8 * (3 - i div 8) + i mod 8)"
proof (cases "i < 32")
  case True
  have "drop_bit 16 y OR push_bit 16 y = swap_blocks 16 (mask 16) y" for y :: u32
    by (rule swap_half) simp
  then have e: "ReverseBytes32 x = swap_blocks 16 (mask 16) (swap_blocks 8 (ucast m3) x)"
    unfolding ReverseBytes32_def Let_def masks_32 swap_blocks_def [of 8] .
  have "\<forall>i<32. bit (ReverseBytes32 x) i \<longleftrightarrow> bit x (8 * (3 - i div 8) + i mod 8)"
    by (simp add: e bit_swap_blocks blocks_of_masks_32 bit_mask_half all_less_numeral)
       (simp add: numeral_2_eq_2)
  with True show ?thesis by blast
qed (auto dest: bit_imp_le_length)

lemma Reverse32_reverse: "Reverse32 x = word_reverse x"
proof (rule bit_word_eqI)
  fix i assume i: "i < LENGTH(32)"
  let ?y = "swap_blocks 4 (ucast m2) (swap_blocks 2 (ucast m1) (swap_blocks 1 (ucast m0) x))"
  have "Reverse32 x = ReverseBytes32 ?y"
    unfolding Reverse32_def Let_def masks_32 swap_blocks_def ..
  moreover have "\<forall>i<32. bit ?y (8 * (3 - i div 8) + i mod 8) \<longleftrightarrow> bit x (31 - i)"
    by (simp add: bit_swap_blocks blocks_of_masks_32 all_less_numeral)
       (simp add: numeral_2_eq_2 numeral_3_eq_3)
  ultimately show "bit (Reverse32 x) i \<longleftrightarrow> bit (word_reverse x) i"
    using i by (simp add: bit_ReverseBytes32 bit_simps)
qed

lemma bit_ReverseBytes16: "bit (ReverseBytes16 x) i \<longleftrightarrow> i < 16 \<and> bit x (8 * (1 - i div 8) + i mod 8)"
proof (cases "i < 16")
  case True
  have e: "ReverseBytes16 x = swap_blocks 8 (mask 8) x"
    unfolding ReverseBytes16_def by (rule swap_half) simp
  have "\<forall>i<16. bit (ReverseBytes16 x) i \<longleftrightarrow> bit x (8 * (1 - i div 8) + i mod 8)"
    by (simp add: e bit_swap_blocks bit_mask_half all_less_numeral)
       (simp add: numeral_2_eq_2)
  with True show ?thesis by blast
qed (auto dest: bit_imp_le_length)

lemma RotateLeft16_rotl: "RotateLeft16 x k = word_rotl (nat (k mod 16)) x"
  using rotate_amount [of 4 k] rotate_rotl [of "nat (k mod 16)" x]
  by (simp add: RotateLeft16_def Let_def mask_eq_exp_minus_1 nat_less_iff)

lemma RotateLeft32_rotl: "RotateLeft32 x k = word_rotl (nat (k mod 32)) x"
  using rotate_amount [of 5 k] rotate_rotl [of "nat (k mod 32)" x]
  by (simp add: RotateLeft32_def Let_def mask_eq_exp_minus_1 nat_less_iff)

section \<open>Properties\<close>

text \<open>
  C4: moving bits. \<open>Reverse\<close> reverses the order of the bits, at every width, whether by table or by swapping
  ever larger blocks. \<open>ReverseBytes\<close> reverses the order of the bytes and keeps the order of the bits inside each;
  \<open>RotateLeft\<close> rotates by \<open>k\<close> modulo the width, so a negative \<open>k\<close> rotates right.
\<close>

theorem bit_moves:
  "Reverse8 a = word_reverse a \<and> Reverse16 b = word_reverse b \<and> Reverse32 c = word_reverse c \<and>
   Reverse64 d = word_reverse d \<and> Reverse d = word_reverse d \<and>
   (bit (ReverseBytes16 b) i \<longleftrightarrow> i < 16 \<and> bit b (8 * (1 - i div 8) + i mod 8)) \<and>
   (bit (ReverseBytes32 c) i \<longleftrightarrow> i < 32 \<and> bit c (8 * (3 - i div 8) + i mod 8)) \<and>
   (bit (ReverseBytes64 d) i \<longleftrightarrow> i < 64 \<and> bit d (8 * (7 - i div 8) + i mod 8)) \<and>
   ReverseBytes d = ReverseBytes64 d \<and>
   RotateLeft8 a k = word_rotl (nat (k mod 8)) a \<and> RotateLeft16 b k = word_rotl (nat (k mod 16)) b \<and>
   RotateLeft32 c k = word_rotl (nat (k mod 32)) c \<and> RotateLeft64 d k = word_rotl (nat (k mod 64)) d \<and>
   RotateLeft d k = word_rotl (nat (k mod 64)) d"
  by (simp add: Reverse8_reverse Reverse16_reverse Reverse32_reverse Reverse64_reverse Reverse_def
      bit_ReverseBytes16 bit_ReverseBytes32 bit_ReverseBytes64 ReverseBytes_def RotateLeft_def
      RotateLeft8_rotl RotateLeft16_rotl RotateLeft32_rotl RotateLeft64_rotl)

end
