(* ===== verification/Bits_Arith.thy ===== *)
theory Bits_Arith
  imports Bits_Counting
begin

unbundle bit_operations_syntax

text \<open>
  Full-width arithmetic of \<open>math/bits\<close>: the carry and borrow chains, the 128-bit product built
  from 32-bit halves, and the two-digit long division of \<open>Div64\<close> (normalisation by the leading
  zeros, a quotient digit estimated from the top half of the divisor, at most two corrections).
\<close>

section \<open>Carry, borrow and product\<close>

lemma drop_top: "unat (drop_bit (LENGTH('a) - 1) (a :: 'a::len word)) = of_bool (bit a (LENGTH('a) - 1))"
  using of_bool_div [of "unat a" "LENGTH('a) - 1"] unat_lt2p [of a]
  by (simp add: bit_top [simplified] unat_drop_bit)

lemmas top_64 = bit_top [where 'a = 64, simplified] drop_top [where 'a = 64, simplified]
lemmas top_32 = bit_top [where 'a = 32, simplified] drop_top [where 'a = 32, simplified]

lemma Add64_full: 
  assumes "carry \<le> 1"
  shows "case Add64 x y carry of (s, c) \<Rightarrow> unat s + 2 ^ 64 * unat c = unat x + unat y + unat carry"
proof -
  let ?s = "x + y + carry"
  have c: "unat carry \<le> 1" using assms by (simp add: word_nat)
  have s: "unat ?s = (unat x + unat y + unat carry) mod 2 ^ 64" by (simp add: unat_word_ariths mod_simps)
  have b: "bit ((x AND y) OR ((x OR y) AND NOT ?s)) 63 \<longleftrightarrow> bit x 63 \<and> bit y 63 \<or> (bit x 63 \<or> bit y 63) \<and> \<not> bit ?s 63"
    by (simp add: bit_simps)
  have "unat x < 2 ^ 64" "unat y < 2 ^ 64" using unat_lt2p[of x] unat_lt2p[of y] by simp_all
  then show ?thesis using c
    unfolding Add64_def Let_def prod.case top_64(2) b
    by (auto simp: top_64(1) s mod_if)
qed

lemma Sub64_full: 
  assumes "borrow \<le> 1"
  shows "case Sub64 x y borrow of (d, b) \<Rightarrow> unat d + unat y + unat borrow = unat x + 2 ^ 64 * unat b"
proof -
  let ?d = "x - y - borrow"
  have c: "unat borrow \<le> 1" using assms by (simp add: word_nat)
  have "unat (d + y + borrow) = (unat d + unat y + unat borrow) mod 2 ^ 64" for d
    by (simp add: unat_word_ariths mod_simps)
  from this [of ?d] have x: "unat x = (unat ?d + unat y + unat borrow) mod 2 ^ 64" by simp
  have b: "bit ((NOT x AND y) OR (NOT (x XOR y) AND ?d)) 63 \<longleftrightarrow> \<not> bit x 63 \<and> bit y 63 \<or> (bit x 63 \<longleftrightarrow> bit y 63) \<and> bit ?d 63"
    by (auto simp add: bit_simps)
  have "unat ?d < 2 ^ 64" "unat y < 2 ^ 64" using unat_lt2p[of ?d] unat_lt2p[of y] by simp_all
  then show ?thesis using c
    unfolding Sub64_def Let_def prod.case top_64(2) b
    by (auto simp: top_64(1) x mod_if split: if_splits)
qed

lemma div_of_parts: "r < c \<Longrightarrow> (k * c + r) div c = k" for k c r :: nat
  by simp

lemma mul_nat:
  fixes x0 x1 y0 y1 B :: nat
  assumes "x0 < B" "x1 < B" "y0 < B" "y1 < B"
  defines "t \<equiv> x1 * y0 + x0 * y0 div B"
  defines "w \<equiv> t mod B + x0 * y1"
  shows "x0 * y0 < B * B" "t < B * B" "w < B * B"
    "x1 * y1 + t div B + w div B = (x1 * B + x0) * (y1 * B + y0) div (B * B)"
proof -
  have m: "a * b + B \<le> B * B" if "a < B" "b < B" for a b
  proof -
    have "a * b + B \<le> a * B + B" using that by simp
    also have "\<dots> = Suc a * B" by simp
    also have "\<dots> \<le> B * B" using that by (intro mult_le_mono) auto
    finally show ?thesis .
  qed
  have m': "a * b < B * B" if "a < B" "b < B" for a b
    using that by (simp add: mult_strict_mono)
  have "x0 * y0 div B < B" using m' assms by (simp add: div_less_iff_less_mult)
  show "x0 * y0 < B * B" using m' assms by simp
  show "t < B * B" using m [of x1 y0] assms(1-4) \<open>x0 * y0 div B < B\<close> by (simp add: t_def)
  have "t mod B < B" using assms by simp
  then show "w < B * B" using m [OF assms(1,4)] unfolding w_def by linarith
  let ?r = "w mod B * B + x0 * y0 mod B"
  have "w mod B < B" "x0 * y0 mod B < B" using assms(1) by simp_all
  then have "?r < Suc (w mod B) * B" by simp
  also have "\<dots> \<le> B * B" using \<open>w mod B < B\<close> by (intro mult_le_mono) auto
  finally have r: "?r < B * B" .
  have "(x1 * B + x0) * (y1 * B + y0) = x1 * y1 * (B * B) + (x1 * y0 + x0 * y1) * B + x0 * y0" by algebra
  also have "\<dots> = x1 * y1 * (B * B) + (x1 * y0 + x0 * y1 + x0 * y0 div B) * B + x0 * y0 mod B"
    by (simp add: distrib_right)
  also have "x1 * y0 + x0 * y1 + x0 * y0 div B = t + x0 * y1" by (simp add: t_def)
  also have "t + x0 * y1 = t div B * B + w" unfolding w_def by simp
  also have "x1 * y1 * (B * B) + (t div B * B + w) * B + x0 * y0 mod B = (x1 * y1 + t div B + w div B) * (B * B) + ?r"
  proof -
    have "w * B = w div B * (B * B) + w mod B * B" by (metis distrib_right div_mult_mod_eq mult.assoc)
    then show ?thesis by (simp add: algebra_simps)
  qed
  finally show "x1 * y1 + t div B + w div B = (x1 * B + x0) * (y1 * B + y0) div (B * B)"
    using r by (simp only: div_of_parts)
qed


lemma unat_mul_exact: "unat a * unat b < 2 ^ LENGTH('a) \<Longrightarrow> unat (a * b :: 'a::len word) = unat a * unat b"
  by (simp add: unat_word_ariths)

lemma Mul64_full: "case Mul64 x y of (hi, lo) \<Rightarrow> 2 ^ 64 * unat hi + unat lo = unat x * unat y"
proof -
  let ?B = "2 ^ 32 :: nat"
  have mask: "(2 ^ 32 - 1 :: u64) = mask 32" by (simp add: mask_eq_exp_minus_1)
  define x0 x1 y0 y1 where "x0 = x AND mask 32" and "x1 = drop_bit 32 x" and "y0 = y AND mask 32" and "y1 = drop_bit 32 y"
  note d = x0_def x1_def y0_def y1_def
  have lt: "unat x0 < ?B" "unat x1 < ?B" "unat y0 < ?B" "unat y1 < ?B"
    using unat_lt2p [of x] unat_lt2p [of y] unfolding d unat_and_mask unat_drop_bit by auto
  have xy: "unat x = unat x1 * ?B + unat x0" "unat y = unat y1 * ?B + unat y0"
    unfolding d unat_and_mask unat_drop_bit by simp_all
  note m = mul_nat [OF lt]
  define t where "t = x1 * y0 + drop_bit 32 (x0 * y0)"
  define w where "w = (t AND mask 32) + x0 * y1"
  have p: "unat (x0 * y0) = unat x0 * unat y0" using m(1) by (intro unat_mul_exact) simp
  have t: "unat t = unat x1 * unat y0 + unat x0 * unat y0 div ?B"
    using m(2) unfolding t_def by (subst unat_add_exact; simp add: unat_mul_exact unat_drop_bit p)
  have w: "unat w = unat t mod ?B + unat x0 * unat y1"
    using m(3) unfolding w_def t by (subst unat_add_exact; simp add: unat_mul_exact unat_and_mask t)
  define hi where "hi = x1 * y1 + drop_bit 32 t + drop_bit 32 w"
  have "unat x1 * unat y1 + unat t div ?B + unat w div ?B = unat x * unat y div 2 ^ 64"
    using m(4) unfolding w t xy by (simp flip: power_add)
  moreover have "unat x * unat y div 2 ^ 64 < 2 ^ 64"
    using mult_strict_mono [OF unat_lt2p [of x] unat_lt2p [of y]] by (simp add: div_less_iff_less_mult)
  ultimately have "unat hi = unat x * unat y div 2 ^ 64"
    unfolding hi_def by (subst unat_add_exact; (subst unat_add_exact)?; simp add: unat_mul_exact unat_drop_bit)
  moreover have "Mul64 x y = (hi, x * y)"
    unfolding Mul64_def Let_def mask by (simp add: hi_def t_def w_def d)
  ultimately show ?thesis by (simp add: unat_word_ariths)
qed

lemma div_adjust_correct:
  fixes u y :: nat
  assumes y: "y = unat yn1 * 2 ^ 32 + unat yn0" "2 ^ 31 \<le> unat yn1" "unat yn1 < 2 ^ 32" "unat yn0 < 2 ^ 32"
    and u: "unat un < 2 ^ 32" "u < y"
    and "u = unat q * unat yn1 + unat rhat" "unat rhat < 2 ^ 32" "(u * 2 ^ 32 + unat un) div y \<le> unat q"
    "unat q \<le> 2 ^ 32 + 1"
  shows "unat (div_adjust yn1 yn0 un q rhat) = (u * 2 ^ 32 + unat un) div y"
  using assms(7-)
proof (induction "unat q" arbitrary: q rhat rule: less_induct)
  case less
  let ?N = "u * 2 ^ 32 + unat un"
  let ?Q = "?N div y"
  have "0 < y" using y by simp
  have QB: "?Q < 2 ^ 32"
    using u \<open>0 < y\<close> by (simp add: div_less_iff_less_mult)
  have qy: "unat q * y + unat rhat * 2 ^ 32 + unat un = ?N + unat q * unat yn0"
    using less.prems(1) y(1) by (simp add: algebra_simps)
  show ?case
  proof (cases "q \<ge> 2 ^ 32 \<or> q * yn0 > 2 ^ 32 * rhat + un")
    case True
    have "?Q < unat q"
    proof (cases "q \<ge> 2 ^ 32")
      case True then show ?thesis using QB by (simp add: word_nat)
    next
      case False
      then have "unat q < 2 ^ 32" by (simp add: word_nat)
      then have "unat (q * yn0) = unat q * unat yn0" using y
        by (intro unat_mul_exact) (auto intro: less_le_trans [OF mult_strict_mono])
      moreover have "unat (2 ^ 32 * rhat + un) = 2 ^ 32 * unat rhat + unat un"
        using less.prems u by (subst unat_add_exact; (subst unat_mul_exact)?; simp)
      ultimately have "?N < unat q * y" using True False qy by (simp add: word_nat)
      then show ?thesis using \<open>0 < y\<close> by (simp add: div_less_iff_less_mult)
    qed
    then have q1: "unat (q - 1) = unat q - 1" by (intro unat_minus_one) auto
    have r1: "unat (rhat + yn1) = unat rhat + unat yn1"
      using less.prems y by (intro unat_add_exact) simp
    have uq: "u = unat (q - 1) * unat yn1 + unat (rhat + yn1)"
      using less.prems(1) \<open>?Q < unat q\<close> unfolding q1 r1 by (cases "unat q") auto
    show ?thesis
    proof (cases "rhat + yn1 \<ge> 2 ^ 32")
      case rb: True
      have "unat (q - 1) * unat yn0 \<le> 2 ^ 32 * 2 ^ 32"
        using less.prems(4) y(4) unfolding q1 by (intro mult_le_mono) auto
      also have "\<dots> \<le> 2 ^ 32 * unat (rhat + yn1)" using rb by (simp add: word_nat)
      finally have "unat (q - 1) * y \<le> ?N"
        using uq y(1) by (simp add: algebra_simps)
      then have "unat (q - 1) \<le> ?Q" using \<open>0 < y\<close> by (simp add: less_eq_div_iff_mult_less_eq)
      then have "unat (q - 1) = ?Q" using \<open>?Q < unat q\<close> q1 by simp
      then show ?thesis using True rb by (subst div_adjust.simps) (simp add: Let_def)
    next
      case False
      then have "unat (div_adjust yn1 yn0 un (q - 1) (rhat + yn1)) = ?Q"
        using less.prems \<open>?Q < unat q\<close> q1 uq by (intro less.hyps) (auto simp: word_nat)
      then show ?thesis using True False by (subst div_adjust.simps) (simp add: Let_def)
    qed
  next
    case False
    then have "unat q < 2 ^ 32" by (simp add: word_nat)
    then have "unat (q * yn0) = unat q * unat yn0" using y
      by (intro unat_mul_exact) (auto intro: less_le_trans [OF mult_strict_mono])
    moreover have "unat (2 ^ 32 * rhat + un) = 2 ^ 32 * unat rhat + unat un"
      using less.prems u by (subst unat_add_exact; (subst unat_mul_exact)?; simp)
    ultimately have "unat q * y \<le> ?N" using False qy by (simp add: word_nat)
    then have "unat q \<le> ?Q" using \<open>0 < y\<close> by (simp add: less_eq_div_iff_mult_less_eq)
    then show ?thesis using False less.prems(3) by (subst div_adjust.simps) simp
  qed
qed

text \<open>One digit of the quotient: the estimate \<open>u div yn1\<close>, corrected.\<close>

lemma div_digit:
  fixes y u un :: u64
  defines "yn1 \<equiv> drop_bit 32 y" and "yn0 \<equiv> y AND mask 32"
  assumes y: "2 ^ 63 \<le> unat y" and u: "u < y" and un: "unat un < 2 ^ 32"
  defines "N \<equiv> unat u * 2 ^ 32 + unat un"
  defines "q \<equiv> div_adjust yn1 yn0 un (u div yn1) (u - u div yn1 * yn1)"
  shows "unat q = N div unat y" and "unat (u * 2 ^ 32 + un - q * y) = N mod unat y"
proof -
  have n: "unat yn1 = unat y div 2 ^ 32" "unat yn0 = unat y mod 2 ^ 32"
    by (simp_all only: yn1_def yn0_def unat_drop_bit unat_and_mask)
  then have Y: "unat y = unat yn1 * 2 ^ 32 + unat yn0" by simp
  have y1: "2 ^ 31 \<le> unat yn1" "unat yn1 < 2 ^ 32" "unat yn0 < 2 ^ 32"
    using y unat_lt2p [of y] by (simp_all add: n)
  have U: "unat u < unat y" using u by (simp add: word_nat)
  have r: "u - u div yn1 * yn1 = u mod yn1" by (simp add: minus_div_mult_eq_mod)
  have dm: "unat (u div yn1) = unat u div unat yn1" "unat (u mod yn1) = unat u mod unat yn1"
    by (simp_all add: unat_div_distrib unat_mod_distrib)
  have "0 < unat yn1" using y1 by simp
  have est: "N div unat y \<le> unat u div unat yn1"
  proof -
    have "N div unat y \<le> N div (unat yn1 * 2 ^ 32)"
      using \<open>0 < unat yn1\<close> Y by (intro div_le_mono2) auto
    also have "\<dots> = N div 2 ^ 32 div unat yn1" by (metis div_mult2_eq mult.commute)
    also have "N div 2 ^ 32 = unat u" using un by (simp add: N_def)
    finally show ?thesis .
  qed
  have le: "unat u div unat yn1 \<le> 2 ^ 32 + 1"
  proof -
    have "unat u < (2 ^ 32 + 2) * unat yn1" using U Y y1 by (simp add: distrib_right)
    then have "unat u div unat yn1 < 2 ^ 32 + 2" using \<open>0 < unat yn1\<close> by (simp only: div_less_iff_less_mult)
    then show ?thesis by simp
  qed
  show Q: "unat q = N div unat y"
    unfolding q_def r N_def
    using y1 Y U un est le less_trans [OF mod_less_divisor [OF \<open>0 < unat yn1\<close>, of "unat u"] y1(2)]
    by (intro div_adjust_correct) (simp_all add: dm N_def)
  have "u * 2 ^ 32 + un - q * y = of_nat N - of_nat (unat q * unat y)"
    by (simp add: N_def)
  also have "\<dots> = of_nat (N mod unat y)"
    unfolding Q by (metis add_diff_cancel_left' div_mult_mod_eq of_nat_add)
  finally have "unat (u * 2 ^ 32 + un - q * y) = N mod unat y mod 2 ^ 64"
    by (simp add: unat_of_nat)
  moreover have "N mod unat y < 2 ^ 64"
    using unat_lt2p [of y] U by (simp add: less_trans [OF mod_less_divisor])
  ultimately show "unat (u * 2 ^ 32 + un - q * y) = N mod unat y" by simp
qed

lemma two_digits:
  fixes u a b y B :: nat
  assumes "0 < y" 
  defines "N1 \<equiv> u * B + a" 
  defines "N0 \<equiv> N1 mod y * B + b"
  shows "(u * B + a) * B + b = (N1 div y * B + N0 div y) * y + N0 mod y" "N0 mod y < y"
proof -
  have "N1 * B + b = (N1 div y * y + N1 mod y) * B + b" by simp
  also have "\<dots> = N1 div y * B * y + N0" unfolding N0_def by algebra
  also have "\<dots> = N1 div y * B * y + (N0 div y * y + N0 mod y)" by simp
  finally show "(u * B + a) * B + b = (N1 div y * B + N0 div y) * y + N0 mod y"
    by (simp only: N1_def distrib_right add.assoc)
qed (use assms in simp)

lemma Div64_normalised:
  fixes hi lo y :: u64
  assumes "y \<noteq> 0" "hi < y"
  defines "s \<equiv> LeadingZeros64 y"
  defines "N \<equiv> unat hi * 2 ^ 64 + unat lo"
  shows "s < 64" "unat (push_bit s y) = unat y * 2 ^ s" "2 ^ 63 \<le> unat (push_bit s y)"
    "unat (push_bit s hi OR drop_bit (64 - s) lo) = N * 2 ^ s div 2 ^ 64"
    "unat (push_bit s lo) = N * 2 ^ s mod 2 ^ 64"
proof -
  let ?l = "bitlen (unat y)"
  have y0: "0 < unat y" using assms(1) by (simp add: unat_gt_0)
  have l: "2 ^ (?l - 1) \<le> unat y" "unat y < 2 ^ ?l" using bitlen_lower [OF y0] bitlen_upper by auto
  have "?l \<noteq> 0" using l(2) y0 by (cases ?l) auto
  have "(2::nat) ^ (?l - 1) < 2 ^ 64" using l(1) unat_lt2p [of y] by simp
  then have "?l - 1 < 64" by (rule power_less_imp_less_exp [rotated]) simp
  then have "?l \<le> 64" by simp
  have s: "s = 64 - ?l" by (simp add: s_def LeadingZeros64_def Len64_bitlen)
  show "s < 64" using \<open>?l \<noteq> 0\<close> \<open>?l \<le> 64\<close> s by simp
  have "unat y * 2 ^ s < 2 ^ ?l * 2 ^ s" using l by simp
  also have "\<dots> = 2 ^ 64" using \<open>?l \<le> 64\<close> by (simp add: s flip: power_add)
  finally have ys: "unat y * 2 ^ s < 2 ^ 64" .
  then show e: "unat (push_bit s y) = unat y * 2 ^ s" by (simp add: unat_push_bit)
  have "2 ^ 63 = 2 ^ (?l - 1) * (2::nat) ^ s" using \<open>?l \<le> 64\<close> \<open>?l \<noteq> 0\<close> by (simp add: s flip: power_add)
  also have "\<dots> \<le> unat y * 2 ^ s" using l by simp
  finally show "2 ^ 63 \<le> unat (push_bit s y)" using e by simp
  have "unat hi * 2 ^ s < 2 ^ 64"
    using ys assms(2) by (intro le_less_trans [OF _ ys]) (simp add: word_nat)
  then have h: "unat (push_bit s hi) = unat hi * 2 ^ s" by (simp add: unat_push_bit)
  have "push_bit s hi AND drop_bit (64 - s) lo = 0"
    by (rule bit_word_eqI) (use \<open>s < 64\<close> in \<open>auto simp: bit_simps dest: bit_imp_le_length\<close>)
  then have "unat (push_bit s hi OR drop_bit (64 - s) lo) = unat hi * 2 ^ s + unat lo div 2 ^ (64 - s)"
    by (simp add: unat_or_disjoint h unat_drop_bit)
  also have "unat lo div 2 ^ (64 - s) = unat lo * 2 ^ s div 2 ^ 64"
  proof -
    have "(2::nat) ^ 64 = 2 ^ (64 - s) * 2 ^ s" using \<open>s < 64\<close> by (simp flip: power_add)
    then have "unat lo * 2 ^ s div 2 ^ 64 = unat lo * 2 ^ s div (2 ^ (64 - s) * 2 ^ s)" by (simp only:)
    then show ?thesis by (simp only: div_mult_mult2 power_not_zero) simp
  qed
  also have "unat hi * 2 ^ s + unat lo * 2 ^ s div 2 ^ 64 = N * 2 ^ s div 2 ^ 64"
    by (simp add: N_def algebra_simps)
  finally show "unat (push_bit s hi OR drop_bit (64 - s) lo) = N * 2 ^ s div 2 ^ 64" .
  show "unat (push_bit s lo) = N * 2 ^ s mod 2 ^ 64"
  proof -
    have "N * 2 ^ s = unat lo * 2 ^ s + (unat hi * 2 ^ s) * 2 ^ 64" by (simp add: N_def distrib_right)
    then show ?thesis by (simp only: mod_mult_self1) (simp add: unat_push_bit)
  qed
qed

lemma Div64_correct:
  "Div64 hi lo y =
     (if y = 0 then Inl DivideError
      else if y \<le> hi then Inl OverflowError
      else let N = unat hi * 2 ^ 64 + unat lo in Inr (of_nat (N div unat y), of_nat (N mod unat y)))"
proof -
  let ?N = "unat hi * 2 ^ 64 + unat lo"
  consider "y = 0" | "y \<noteq> 0" "y \<le> hi" | "y \<noteq> 0" "hi < y" "hi = 0" | "y \<noteq> 0" "hi < y" "hi \<noteq> 0"
    by (metis not_le)
  then show ?thesis
  proof cases
    case 3
    then show ?thesis by (simp add: Div64_def word_arith_nat_div word_arith_nat_mod Let_def)
  next
    case 4
    define s where "s = LeadingZeros64 y"
    define z where "z = push_bit s y"
    define u where "u = push_bit s hi OR drop_bit (64 - s) lo"
    define v where "v = push_bit s lo"
    note n = Div64_normalised(1-3) [OF 4(1,2), folded s_def, folded z_def]
      Div64_normalised(4,5) [OF 4(1,2), of lo, folded s_def, folded u_def v_def]
    have mask: "(2 ^ 32 - 1 :: u64) = mask 32" by (simp add: mask_eq_exp_minus_1)
    have N: "?N * 2 ^ s = unat u * 2 ^ 64 + unat v" unfolding n(4,5) by simp
    have "?N < Suc (unat hi) * 2 ^ 64" using unat_lt2p [of lo] by simp
    also have "\<dots> \<le> unat y * 2 ^ 64" using 4(2) by (intro mult_le_mono) (auto simp: word_nat)
    finally have "?N < unat y * 2 ^ 64" .
    then have "?N * 2 ^ s < unat z * 2 ^ 64" by (simp add: n(2))
    then have uz: "u < z" using N by (simp add: word_nat)
    define v1 v0 where "v1 = drop_bit 32 v" and "v0 = v AND mask 32"
    have v: "unat v = unat v1 * 2 ^ 32 + unat v0" "unat v1 < 2 ^ 32" "unat v0 < 2 ^ 32"
      using unat_lt2p [of v] unfolding v1_def v0_def unat_drop_bit unat_and_mask by auto
    define q1 where "q1 = div_adjust (drop_bit 32 z) (z AND mask 32) v1 (u div drop_bit 32 z) (u - u div drop_bit 32 z * drop_bit 32 z)"
    define r where "r = u * 2 ^ 32 + v1 - q1 * z"
    note d1 = div_digit [OF n(3) uz v(2), folded q1_def, folded r_def]
    define q0 where "q0 = div_adjust (drop_bit 32 z) (z AND mask 32) v0 (r div drop_bit 32 z) (r - r div drop_bit 32 z * drop_bit 32 z)"
    have z0: "0 < unat z" using n(3) by simp
    then have rz: "r < z" using d1(2) by (simp add: word_nat)
    define r0 where "r0 = r * 2 ^ 32 + v0 - q0 * z"
    note d0 = div_digit [OF n(3) rz v(3), folded q0_def, folded r0_def]
    have D: "Div64 hi lo y = Inr (q1 * 2 ^ 32 + q0, drop_bit s r0)"
      using 4 unfolding Div64_def Let_def mask 
      by (simp add: q1_def q0_def r_def r0_def v1_def v0_def u_def v_def z_def s_def)
    have e: "?N * 2 ^ s = (unat q1 * 2 ^ 32 + unat q0) * unat z + unat r0" "unat r0 < unat z"
      using two_digits [OF z0, of "unat u" "2 ^ 32" "unat v1" "unat v0", folded d1, folded d0] N v(1)
      by simp_all
    let ?Q = "unat q1 * 2 ^ 32 + unat q0"
    have "2 ^ s dvd unat r0"
      using e(1) by (metis dvd_add_right_iff dvd_triv_right dvd_mult n(2))
    then obtain R where R: "unat r0 = R * 2 ^ s" by (auto simp: dvd_def mult.commute)
    have "?N * 2 ^ s = (?Q * unat y + R) * 2 ^ s" using e(1) by (simp add: n(2) R algebra_simps)
    then have NQ: "?N = ?Q * unat y + R" by simp
    have Ry: "R < unat y" using e(2) by (simp add: n(2) R)
    have "?N div unat y = ?Q" "?N mod unat y = R" unfolding NQ using Ry by simp_all
    moreover have "unat (drop_bit s r0) = R" by (simp add: unat_drop_bit R)
    then have "drop_bit s r0 = of_nat R" by (metis of_nat_unat ucast_id)
    moreover have "q1 * 2 ^ 32 + q0 = of_nat ?Q" by simp
    ultimately show ?thesis using 4 D by (simp add: Let_def)
  qed (auto simp: Div64_def)
qed

lemma Add32_full:
  "carry \<le> 1 \<Longrightarrow> case Add32 x y carry of (s, c) \<Rightarrow> unat s + 2 ^ 32 * unat c = unat x + unat y + unat carry"
  using unat_lt2p [of x] unat_lt2p [of y]
  by (simp add: Add32_def Let_def word_nat unat_word_ariths)

lemma Sub32_full: 
  assumes "borrow \<le> 1"
  shows "case Sub32 x y borrow of (d, b) \<Rightarrow> unat d + unat y + unat borrow = unat x + 2 ^ 32 * unat b"
proof -
  let ?d = "x - y - borrow"
  have c: "unat borrow \<le> 1" using assms by (simp add: word_nat)
  have "unat (d + y + borrow) = (unat d + unat y + unat borrow) mod 2 ^ 32" for d
    by (simp add: unat_word_ariths mod_simps)
  from this [of ?d] have x: "unat x = (unat ?d + unat y + unat borrow) mod 2 ^ 32" by simp
  have b: "bit ((NOT x AND y) OR (NOT (x XOR y) AND ?d)) 31 \<longleftrightarrow> \<not> bit x 31 \<and> bit y 31 \<or> (bit x 31 \<longleftrightarrow> bit y 31) \<and> bit ?d 31"
    by (auto simp add: bit_simps)
  have "unat ?d < 2 ^ 32" "unat y < 2 ^ 32" using unat_lt2p[of ?d] unat_lt2p[of y] by simp_all
  then show ?thesis using c
    unfolding Sub32_def Let_def prod.case top_32(2) b
    by (auto simp: top_32(1) x mod_if split: if_splits)
qed

lemma Mul32_full: "case Mul32 x y of (hi, lo) \<Rightarrow> 2 ^ 32 * unat hi + unat lo = unat x * unat y"
proof -
  have "unat x * unat y < 2 ^ 64" using mult_strict_mono [OF unat_lt2p [of x] unat_lt2p [of y]] by simp
  then show ?thesis
    using unat_lt2p [of x] unat_lt2p [of y]
    by (simp add: Mul32_def Let_def word_nat unat_word_ariths div_less_iff_less_mult)
qed

lemma cat_words: "unat (push_bit 32 (ucast hi) OR ucast lo :: u64) = unat hi * 2 ^ 32 + unat lo" for hi lo :: u32
proof -
  have "push_bit 32 (ucast hi) AND (ucast lo :: u64) = 0"
    by (rule bit_word_eqI) (auto simp: bit_simps dest: bit_imp_le_length)
  then show ?thesis using unat_lt2p [of hi] unat_lt2p [of lo]
    by (simp add: unat_or_disjoint word_nat)
qed


lemma ucast_div_small:
  fixes z :: u64 and y :: u32
  assumes "unat z div unat y < 2 ^ 32" "y \<noteq> 0"
  shows "ucast (z div ucast y) = (of_nat (unat z div unat y) :: u32)"
    "ucast (z mod ucast y) = (of_nat (unat z mod unat y) :: u32)"
proof -
  have "unat (ucast y :: u64) = unat y" using unat_lt2p [of y] by (simp add: unat_ucast)
  moreover have "0 < unat y" using assms(2) by (simp add: unat_gt_0)
  moreover have "ucast w = (of_nat (unat w) :: u32)" for w :: u64 by simp
  ultimately show "ucast (z div ucast y) = (of_nat (unat z div unat y) :: u32)"
    "ucast (z mod ucast y) = (of_nat (unat z mod unat y) :: u32)"
    by (simp_all only: unat_div_distrib unat_mod_distrib)
qed

lemma Div32_correct:
  "Div32 hi lo y =
     (if y = 0 then Inl DivideError
      else if y \<le> hi then Inl OverflowError
      else let N = unat hi * 2 ^ 32 + unat lo in Inr (of_nat (N div unat y), of_nat (N mod unat y)))"
proof (cases "y = 0 \<or> y \<le> hi")
  case False
  let ?N = "unat hi * 2 ^ 32 + unat lo"
  have "?N < Suc (unat hi) * 2 ^ 32" using unat_lt2p [of lo] by simp
  also have "\<dots> \<le> unat y * 2 ^ 32" using False by (intro mult_le_mono) (auto simp: word_nat)
  finally have "?N div unat y < 2 ^ 32" using False
    by (subst div_less_iff_less_mult) (auto simp: unat_gt_0 mult.commute)
  then show ?thesis using False ucast_div_small [of "push_bit 32 (ucast hi) OR ucast lo" y]
    unfolding cat_words by (simp add: Div32_def Let_def)
qed (auto simp: Div32_def)

lemma Rem64_correct:
  "Rem64 hi lo y = (if y = 0 then Inl DivideError else Inr (of_nat ((unat hi * 2 ^ 64 + unat lo) mod unat y)))"
proof (cases "y = 0")
  case False
  then have "unat (hi mod y) < unat y" by (simp add: unat_mod_distrib unat_gt_0)
  then have "\<not> y \<le> hi mod y" by (simp add: word_nat)
  moreover have "(unat (hi mod y) * 2 ^ 64 + unat lo) mod unat y = (unat hi * 2 ^ 64 + unat lo) mod unat y"
    by (simp only: unat_mod_distrib) (metis mod_add_left_eq mod_mult_left_eq)
  ultimately show ?thesis using False by (simp add: Rem64_def Div64_correct Let_def)
qed (simp add: Rem64_def)

lemma Rem32_correct:
  "Rem32 hi lo y = (if y = 0 then Inl DivideError else Inr (of_nat ((unat hi * 2 ^ 32 + unat lo) mod unat y)))"
proof -
  have "unat (ucast y :: u64) = unat y" using unat_lt2p [of y] by (simp add: unat_ucast)
  moreover have "ucast w = (of_nat (unat w) :: u32)" for w :: u64 by simp
  ultimately show ?thesis
    unfolding Rem32_def by (simp only: unat_mod_distrib cat_words)
qed

section \<open>Properties\<close>

text \<open>
  C2: addition, subtraction and multiplication lose nothing: with a carry or borrow of 0 or 1,
  \<open>sum + 2^w * carryOut = x + y + carry\<close>, \<open>diff + y + borrow = x + 2^w * borrowOut\<close> and
  \<open>2^w * hi + lo = x * y\<close>, at both widths.
\<close>

theorem Add_Sub_Mul_exact:
  assumes "c \<le> 1" and "c' \<le> 1"
  shows "(case Add64 x y c of (s, co) \<Rightarrow> unat s + 2 ^ 64 * unat co = unat x + unat y + unat c) \<and>
    (case Sub64 x y c of (d, bo) \<Rightarrow> unat d + unat y + unat c = unat x + 2 ^ 64 * unat bo) \<and>
    (case Mul64 x y of (hi, lo) \<Rightarrow> 2 ^ 64 * unat hi + unat lo = unat x * unat y) \<and>
    (case Add32 x' y' c' of (s, co) \<Rightarrow> unat s + 2 ^ 32 * unat co = unat x' + unat y' + unat c') \<and>
    (case Sub32 x' y' c' of (d, bo) \<Rightarrow> unat d + unat y' + unat c' = unat x' + 2 ^ 32 * unat bo) \<and>
    (case Mul32 x' y' of (hi, lo) \<Rightarrow> 2 ^ 32 * unat hi + unat lo = unat x' * unat y') \<and>
    Add x y c = Add64 x y c \<and> Sub x y c = Sub64 x y c \<and> Mul x y = Mul64 x y"
  using Add64_full [OF assms(1)] Sub64_full [OF assms(1)] Mul64_full
    Add32_full [OF assms(2)] Sub32_full [OF assms(2)] Mul32_full
  by (simp add: Add_def Sub_def Mul_def)

theorem Add_Sub_Mul_exact_witness:
  "Add64 (- 1) 5 1 = (5, 1) \<and> Sub64 3 5 1 = (- 3, 1) \<and> 2 ^ 64 * unat (fst (Mul64 (- 1) 7)) + unat (snd (Mul64 (- 1) 7)) = unat (- 1 :: u64) * 7"
proof -
  have "case Mul64 (- 1) 7 of (hi, lo) \<Rightarrow> 2 ^ 64 * unat hi + unat lo = unat (- 1 :: u64) * unat (7 :: u64)"
    using Add_Sub_Mul_exact [of 1 1 "- 1" 7] by simp
  then show ?thesis by (simp add: Add64_def Sub64_def case_prod_beta)
qed

text \<open>
  C1: \<open>Div64\<close> and \<open>Div32\<close> panic exactly when the divisor is 0 (divide error) or at most the high
  word (overflow), and otherwise return the quotient and remainder of the double-width dividend;
  \<open>Rem64\<close> and \<open>Rem32\<close> panic only for 0.
\<close>

theorem Div_quotient_remainder:
  "Div64 hi lo y =
     (if y = 0 then Inl DivideError
      else if y \<le> hi then Inl OverflowError
      else let N = unat hi * 2 ^ 64 + unat lo in Inr (of_nat (N div unat y), of_nat (N mod unat y))) \<and>
   Div hi lo y = Div64 hi lo y \<and>
   Rem64 hi lo y =
     (if y = 0 then Inl DivideError else Inr (of_nat ((unat hi * 2 ^ 64 + unat lo) mod unat y))) \<and>
   Rem hi lo y = Rem64 hi lo y \<and>
   Div32 hi' lo' y' =
     (if y' = 0 then Inl DivideError
      else if y' \<le> hi' then Inl OverflowError
      else let N = unat hi' * 2 ^ 32 + unat lo' in Inr (of_nat (N div unat y'), of_nat (N mod unat y'))) \<and>
   Rem32 hi' lo' y' =
     (if y' = 0 then Inl DivideError else Inr (of_nat ((unat hi' * 2 ^ 32 + unat lo') mod unat y')))"
  by (simp only: Div64_correct Rem64_correct Div32_correct Rem32_correct Div_def Rem_def UintSize_64) simp

end
