(* ===== verification/Utf8.thy ===== *)
theory Utf8
  imports Go_Prelude
begin

unbundle bit_operations_syntax

text \<open>
  Package \<open>unicode/utf8\<close> (\<open>src/unicode/utf8/utf8.go\<close>). A byte slice and a Go string are both lists
  of bytes, so a function and its \<open>InString\<close> twin have the same type; both are modelled, each from
  its own text. A rune is an \<open>int32\<close>, a \<open>32 word\<close> compared by its signed value. The platform word
  (\<open>ptrSize\<close>, \<open>hiBits\<close>) is the 8-byte one.
\<close>

section \<open>Constants and tables\<close>

definition RuneError :: rune where "RuneError = 0xFFFD"
definition RuneSelf :: u8 where "RuneSelf = 0x80"
definition MaxRune :: rune where "MaxRune = 0x10FFFF"
definition UTFMax :: int where "UTFMax = 4"

definition surrogateMin :: rune where "surrogateMin = 0xD800"
definition surrogateMax :: rune where "surrogateMax = 0xDFFF"

definition utf8_tx :: u8 where "utf8_tx = 0x80"
definition utf8_t2 :: u8 where "utf8_t2 = 0xC0"
definition utf8_t3 :: u8 where "utf8_t3 = 0xE0"
definition utf8_t4 :: u8 where "utf8_t4 = 0xF0"

definition utf8_maskx :: u8 where "utf8_maskx = 0x3F"
definition utf8_mask2 :: u8 where "utf8_mask2 = 0x1F"
definition utf8_mask3 :: u8 where "utf8_mask3 = 0x0F"
definition utf8_mask4 :: u8 where "utf8_mask4 = 0x07"

definition rune1Max :: rune where "rune1Max = 0x7F"
definition rune2Max :: rune where "rune2Max = 0x7FF"
definition rune3Max :: rune where "rune3Max = 0xFFFF"

definition utf8_locb :: u8 where "utf8_locb = 0x80"
definition utf8_hicb :: u8 where "utf8_hicb = 0xBF"

definition utf8_xx :: u8 where "utf8_xx = 0xF1"
definition utf8_as :: u8 where "utf8_as = 0xF0"
definition utf8_s1 :: u8 where "utf8_s1 = 0x02"
definition utf8_s2 :: u8 where "utf8_s2 = 0x13"
definition utf8_s3 :: u8 where "utf8_s3 = 0x03"
definition utf8_s4 :: u8 where "utf8_s4 = 0x23"
definition utf8_s5 :: u8 where "utf8_s5 = 0x34"
definition utf8_s6 :: u8 where "utf8_s6 = 0x04"
definition utf8_s7 :: u8 where "utf8_s7 = 0x44"

definition runeErrorByte0 :: u8 where "runeErrorByte0 = utf8_t3 OR ucast (drop_bit 12 RuneError)"
definition runeErrorByte1 :: u8 where
  "runeErrorByte1 = utf8_tx OR (ucast (drop_bit 6 RuneError) AND utf8_maskx)"
definition runeErrorByte2 :: u8 where "runeErrorByte2 = utf8_tx OR (ucast RuneError AND utf8_maskx)"

definition first_info :: bytes where
  "first_info =
    replicate 128 utf8_as @ replicate 64 utf8_xx @
    [utf8_xx, utf8_xx, utf8_s1, utf8_s1, utf8_s1, utf8_s1, utf8_s1, utf8_s1, utf8_s1, utf8_s1, utf8_s1, utf8_s1, utf8_s1, utf8_s1, utf8_s1, utf8_s1,
     utf8_s1, utf8_s1, utf8_s1, utf8_s1, utf8_s1, utf8_s1, utf8_s1, utf8_s1, utf8_s1, utf8_s1, utf8_s1, utf8_s1, utf8_s1, utf8_s1, utf8_s1, utf8_s1,
     utf8_s2, utf8_s3, utf8_s3, utf8_s3, utf8_s3, utf8_s3, utf8_s3, utf8_s3, utf8_s3, utf8_s3, utf8_s3, utf8_s3, utf8_s3, utf8_s4, utf8_s3, utf8_s3,
     utf8_s5, utf8_s6, utf8_s6, utf8_s6, utf8_s7, utf8_xx, utf8_xx, utf8_xx, utf8_xx, utf8_xx, utf8_xx, utf8_xx, utf8_xx, utf8_xx, utf8_xx, utf8_xx]"

record acceptRange =
  ar_lo :: u8
  ar_hi :: u8

definition acceptRanges :: "acceptRange list" where
  "acceptRanges =
    [\<lparr>ar_lo = utf8_locb, ar_hi = utf8_hicb\<rparr>, \<lparr>ar_lo = 0xA0, ar_hi = utf8_hicb\<rparr>, \<lparr>ar_lo = utf8_locb, ar_hi = 0x9F\<rparr>,
     \<lparr>ar_lo = 0x90, ar_hi = utf8_hicb\<rparr>, \<lparr>ar_lo = utf8_locb, ar_hi = 0x8F\<rparr>] @ replicate 11 \<lparr>ar_lo = 0, ar_hi = 0\<rparr>"

section \<open>Decoding\<close>

definition FullRune :: "bytes \<Rightarrow> bool" where
  "FullRune p =
     (let n = length p in
      if n = 0 then False
      else
        let x = first_info ! unat (p ! 0) in
        if n \<ge> unat (x AND 7) then True
        else
          let accept = acceptRanges ! unat (drop_bit 4 x) in
          if n > 1 \<and> (p ! 1 < ar_lo accept \<or> ar_hi accept < p ! 1) then True
          else if n > 2 \<and> (p ! 2 < utf8_locb \<or> utf8_hicb < p ! 2) then True
          else False)"

definition FullRuneInString :: "bytes \<Rightarrow> bool" where
  "FullRuneInString s =
     (let n = length s in
      if n = 0 then False
      else
        let x = first_info ! unat (s ! 0) in
        if n \<ge> unat (x AND 7) then True
        else
          let accept = acceptRanges ! unat (drop_bit 4 x) in
          if n > 1 \<and> (s ! 1 < ar_lo accept \<or> ar_hi accept < s ! 1) then True
          else if n > 2 \<and> (s ! 2 < utf8_locb \<or> utf8_hicb < s ! 2) then True
          else False)"

definition decodeRuneSlow :: "bytes \<Rightarrow> rune \<times> nat" where
  "decodeRuneSlow p =
     (let n = length p in
      if n < 1 then (RuneError, 0)
      else
        let p0 = p ! 0; x = first_info ! unat p0 in
        if x \<ge> utf8_as then
          let mask = signed_drop_bit 31 (push_bit 31 (ucast x :: rune))
          in ((ucast (p ! 0) AND NOT mask) OR (RuneError AND mask), 1)
        else
          let sz = unat (x AND 7); accept = acceptRanges ! unat (drop_bit 4 x) in
          if n < sz then (RuneError, 1)
          else let b1 = p ! 1 in
          if b1 < ar_lo accept \<or> ar_hi accept < b1 then (RuneError, 1)
          else if sz \<le> 2 then (push_bit 6 (ucast (p0 AND utf8_mask2)) OR ucast (b1 AND utf8_maskx), 2)
          else let b2 = p ! 2 in
          if b2 < utf8_locb \<or> utf8_hicb < b2 then (RuneError, 1)
          else if sz \<le> 3 then
            (push_bit 12 (ucast (p0 AND utf8_mask3)) OR push_bit 6 (ucast (b1 AND utf8_maskx))
             OR ucast (b2 AND utf8_maskx), 3)
          else let b3 = p ! 3 in
          if b3 < utf8_locb \<or> utf8_hicb < b3 then (RuneError, 1)
          else
            (push_bit 18 (ucast (p0 AND utf8_mask4)) OR push_bit 12 (ucast (b1 AND utf8_maskx))
             OR push_bit 6 (ucast (b2 AND utf8_maskx)) OR ucast (b3 AND utf8_maskx), 4))"

definition DecodeRune :: "bytes \<Rightarrow> rune \<times> nat" where
  "DecodeRune p =
     (case p of
        b # _ \<Rightarrow> if b < RuneSelf then (ucast b, 1) else decodeRuneSlow p
      | [] \<Rightarrow> decodeRuneSlow p)"

definition decodeRuneInStringSlow :: "bytes \<Rightarrow> rune \<times> nat" where
  "decodeRuneInStringSlow s =
     (let n = length s in
      if n < 1 then (RuneError, 0)
      else
        let s0 = s ! 0; x = first_info ! unat s0 in
        if x \<ge> utf8_as then
          let mask = signed_drop_bit 31 (push_bit 31 (ucast x :: rune))
          in ((ucast (s ! 0) AND NOT mask) OR (RuneError AND mask), 1)
        else
          let sz = unat (x AND 7); accept = acceptRanges ! unat (drop_bit 4 x) in
          if n < sz then (RuneError, 1)
          else let c1 = s ! 1 in
          if c1 < ar_lo accept \<or> ar_hi accept < c1 then (RuneError, 1)
          else if sz \<le> 2 then (push_bit 6 (ucast (s0 AND utf8_mask2)) OR ucast (c1 AND utf8_maskx), 2)
          else let c2 = s ! 2 in
          if c2 < utf8_locb \<or> utf8_hicb < c2 then (RuneError, 1)
          else if sz \<le> 3 then
            (push_bit 12 (ucast (s0 AND utf8_mask3)) OR push_bit 6 (ucast (c1 AND utf8_maskx))
             OR ucast (c2 AND utf8_maskx), 3)
          else let c3 = s ! 3 in
          if c3 < utf8_locb \<or> utf8_hicb < c3 then (RuneError, 1)
          else
            (push_bit 18 (ucast (s0 AND utf8_mask4)) OR push_bit 12 (ucast (c1 AND utf8_maskx))
             OR push_bit 6 (ucast (c2 AND utf8_maskx)) OR ucast (c3 AND utf8_maskx), 4))"

definition DecodeRuneInString :: "bytes \<Rightarrow> rune \<times> nat" where
  "DecodeRuneInString s =
     (if s \<noteq> [] \<and> s ! 0 < RuneSelf then (ucast (s ! 0), 1) else decodeRuneInStringSlow s)"

definition RuneStart :: "u8 \<Rightarrow> bool" where
  "RuneStart b = (b AND 0xC0 \<noteq> 0x80)"

text \<open>The loop \<open>for start--; start >= lim; start--\<close>: the index it stops at, \<open>lim - 1\<close> if none.\<close>

function scan_back :: "bytes \<Rightarrow> int \<Rightarrow> int \<Rightarrow> int" where
  "scan_back p lim start =
     (if start \<ge> lim \<and> \<not> RuneStart (p ! nat start) then scan_back p lim (start - 1) else start)"
  by pat_completeness auto
termination
  by (relation "measure (\<lambda>(p, lim, start). nat (start - lim + 1))") auto

declare scan_back.simps [simp del]

definition DecodeLastRune :: "bytes \<Rightarrow> rune \<times> nat" where
  "DecodeLastRune p =
     (let end = int (length p) in
      if end = 0 then (RuneError, 0)
      else
        let start = end - 1; r = (ucast (p ! nat start) :: rune) in
        if sint r < 0x80 then (r, 1)
        else
          let lim = max (end - UTFMax) 0;
              start = scan_back p lim (start - 1);
              start = (if start < 0 then 0 else start);
              (r, size) = DecodeRune (drop (nat start) p)
          in if start + int size \<noteq> end then (RuneError, 1) else (r, size))"

definition DecodeLastRuneInString :: "bytes \<Rightarrow> rune \<times> nat" where
  "DecodeLastRuneInString s =
     (let end = int (length s) in
      if end = 0 then (RuneError, 0)
      else
        let start = end - 1; r = (ucast (s ! nat start) :: rune) in
        if sint r < 0x80 then (r, 1)
        else
          let lim = max (end - UTFMax) 0;
              start = scan_back s lim (start - 1);
              start = (if start < 0 then 0 else start);
              (r, size) = DecodeRuneInString (drop (nat start) s)
          in if start + int size \<noteq> end then (RuneError, 1) else (r, size))"

section \<open>Encoding\<close>

definition RuneLen :: "rune \<Rightarrow> int" where
  "RuneLen r =
     (if sint r < 0 then - 1
      else if sint r \<le> sint rune1Max then 1
      else if sint r \<le> sint rune2Max then 2
      else if sint surrogateMin \<le> sint r \<and> sint r \<le> sint surrogateMax then - 1
      else if sint r \<le> sint rune3Max then 3
      else if sint r \<le> sint MaxRune then 4
      else - 1)"

text \<open>
  \<open>EncodeRune\<close> writes into the caller's slice. The result is the updated slice and the count, or
  the panic of the first out-of-range index, before which nothing is written.
\<close>

definition encodeRuneNonASCII :: "bytes \<Rightarrow> rune \<Rightarrow> panic + bytes \<times> nat" where
  "encodeRuneNonASCII p r =
     (if r \<le> rune2Max then
        if length p \<le> 1 then Inl IndexOutOfRange
        else Inr (p[0 := utf8_t2 OR ucast (drop_bit 6 r), 1 := utf8_tx OR (ucast r AND utf8_maskx)], 2)
      else if r < surrogateMin \<or> surrogateMax < r \<and> r \<le> rune3Max then
        if length p \<le> 2 then Inl IndexOutOfRange
        else Inr (p[0 := utf8_t3 OR ucast (drop_bit 12 r), 1 := utf8_tx OR (ucast (drop_bit 6 r) AND utf8_maskx),
                    2 := utf8_tx OR (ucast r AND utf8_maskx)], 3)
      else if r > rune3Max \<and> r \<le> MaxRune then
        if length p \<le> 3 then Inl IndexOutOfRange
        else Inr (p[0 := utf8_t4 OR ucast (drop_bit 18 r), 1 := utf8_tx OR (ucast (drop_bit 12 r) AND utf8_maskx),
                    2 := utf8_tx OR (ucast (drop_bit 6 r) AND utf8_maskx), 3 := utf8_tx OR (ucast r AND utf8_maskx)], 4)
      else
        if length p \<le> 2 then Inl IndexOutOfRange
        else Inr (p[0 := runeErrorByte0, 1 := runeErrorByte1, 2 := runeErrorByte2], 3))"

definition EncodeRune :: "bytes \<Rightarrow> rune \<Rightarrow> panic + bytes \<times> nat" where
  "EncodeRune p r =
     (if r \<le> rune1Max then
        if length p \<le> 0 then Inl IndexOutOfRange else Inr (p[0 := ucast r], 1)
      else encodeRuneNonASCII p r)"

definition appendRuneNonASCII :: "bytes \<Rightarrow> rune \<Rightarrow> bytes" where
  "appendRuneNonASCII p r =
     (if r \<le> rune2Max then
        p @ [utf8_t2 OR ucast (drop_bit 6 r), utf8_tx OR (ucast r AND utf8_maskx)]
      else if r < surrogateMin \<or> surrogateMax < r \<and> r \<le> rune3Max then
        p @ [utf8_t3 OR ucast (drop_bit 12 r), utf8_tx OR (ucast (drop_bit 6 r) AND utf8_maskx),
             utf8_tx OR (ucast r AND utf8_maskx)]
      else if r > rune3Max \<and> r \<le> MaxRune then
        p @ [utf8_t4 OR ucast (drop_bit 18 r), utf8_tx OR (ucast (drop_bit 12 r) AND utf8_maskx),
             utf8_tx OR (ucast (drop_bit 6 r) AND utf8_maskx), utf8_tx OR (ucast r AND utf8_maskx)]
      else p @ [runeErrorByte0, runeErrorByte1, runeErrorByte2])"

definition AppendRune :: "bytes \<Rightarrow> rune \<Rightarrow> bytes" where
  "AppendRune p r = (if r \<le> rune1Max then p @ [ucast r] else appendRuneNonASCII p r)"

section \<open>Counting and validation\<close>

text \<open>
  \<open>for range s\<close> over a string: the language decodes one rune per iteration, and advances by one byte
  over an invalid encoding.
\<close>

lemma DecodeRuneInString_pos: "s \<noteq> [] \<Longrightarrow> 0 < snd (DecodeRuneInString s)"
  by (auto simp: DecodeRuneInString_def decodeRuneInStringSlow_def Let_def)

function RuneCountInString :: "bytes \<Rightarrow> nat" where
  "RuneCountInString s =
     (if s = [] then 0 else 1 + RuneCountInString (drop (snd (DecodeRuneInString s)) s))"
  by pat_completeness auto
termination
  by (relation "measure length") (simp_all add: DecodeRuneInString_pos)

declare RuneCountInString.simps [simp del]

function RuneCount_from :: "bytes \<Rightarrow> nat \<Rightarrow> nat" where
  "RuneCount_from p n =
     (if n < length p then
        if p ! n \<ge> RuneSelf then n + RuneCountInString (drop n p) else RuneCount_from p (n + 1)
      else n)"
  by pat_completeness auto
termination
  by (relation "measure (\<lambda>(p, n). length p - n)") auto

declare RuneCount_from.simps [simp del]

definition RuneCount :: "bytes \<Rightarrow> nat" where
  "RuneCount p = RuneCount_from p 0"

definition ptrSize :: nat where
  "ptrSize = push_bit (unat (drop_bit 63 (NOT 0 :: u64))) 4"

definition hiBits :: u64 where
  "hiBits = drop_bit (64 - 8 * ptrSize) 0x8080808080808080"

definition word_of :: "bytes \<Rightarrow> u64" where
  "word_of s =
     (if ptrSize = 4 then
        ucast (s ! 0) OR push_bit 8 (ucast (s ! 1)) OR push_bit 16 (ucast (s ! 2))
        OR push_bit 24 (ucast (s ! 3))
      else
        ucast (s ! 0) OR push_bit 8 (ucast (s ! 1)) OR push_bit 16 (ucast (s ! 2))
        OR push_bit 24 (ucast (s ! 3)) OR push_bit 32 (ucast (s ! 4)) OR push_bit 40 (ucast (s ! 5))
        OR push_bit 48 (ucast (s ! 6)) OR push_bit 56 (ucast (s ! 7)))"

lemma ptrSize_8 [simp]: "ptrSize = 8"
  by (simp add: ptrSize_def)

text \<open>The fast path over ASCII: the innermost loop by 4 words, and the two guards before it.\<close>

function skip_ascii4 :: "bytes \<Rightarrow> bytes" where
  "skip_ascii4 p =
     (if length p > 4 * ptrSize \<and>
         (word_of p OR word_of (drop ptrSize p) OR
          (word_of (drop (2 * ptrSize) p) OR word_of (drop (3 * ptrSize) p))) AND hiBits = 0
      then skip_ascii4 (drop (4 * ptrSize) p) else p)"
  by pat_completeness auto
termination
  by (relation "measure length") auto

declare skip_ascii4.simps [simp del]

definition skip_ascii :: "bytes \<Rightarrow> bytes" where
  "skip_ascii p =
     (if length p > ptrSize \<and> word_of p AND hiBits = 0 then
        let p = drop ptrSize p in
        if length p > 2 * ptrSize \<and> (word_of p OR word_of (drop ptrSize p)) AND hiBits = 0
        then skip_ascii4 (drop (2 * ptrSize) p)
        else p
      else p)"

lemma length_skip_ascii4: "length (skip_ascii4 p) \<le> length p"
proof (induction p rule: skip_ascii4.induct)
  case (1 p)
  then show ?case by (subst skip_ascii4.simps) (auto intro: le_trans)
qed

lemma length_skip_ascii: "length (skip_ascii p) \<le> length p"
  using length_skip_ascii4 [of "drop (2 * ptrSize) (drop ptrSize p)"]
  by (auto simp: skip_ascii_def Let_def)

function Valid :: "bytes \<Rightarrow> bool" where
  "Valid p =
     (if length p > 0 then
        let p0 = p ! 0 in
        if p0 < RuneSelf then Valid (skip_ascii (drop 1 p))
        else
          let x = first_info ! unat p0; size = unat (x AND 7);
              accept = acceptRanges ! unat (drop_bit 4 x) in
          if size = 2 then
            if length p < 2 \<or> p ! 1 < ar_lo accept \<or> ar_hi accept < p ! 1 then False
            else Valid (drop 2 p)
          else if size = 3 then
            if length p < 3 \<or> p ! 1 < ar_lo accept \<or> ar_hi accept < p ! 1 \<or> p ! 2 < utf8_locb \<or> utf8_hicb < p ! 2
            then False else Valid (drop 3 p)
          else if size = 4 then
            if length p < 4 \<or> p ! 1 < ar_lo accept \<or> ar_hi accept < p ! 1 \<or> p ! 2 < utf8_locb \<or> utf8_hicb < p ! 2
               \<or> p ! 3 < utf8_locb \<or> utf8_hicb < p ! 3
            then False else Valid (drop 4 p)
          else False
      else True)"
  by pat_completeness auto
termination
  by (relation "measure length") (auto intro: le_less_trans [OF length_skip_ascii])

declare Valid.simps [simp del]

function ValidString :: "bytes \<Rightarrow> bool" where
  "ValidString s =
     (if length s > 0 then
        let s0 = s ! 0 in
        if s0 < RuneSelf then ValidString (skip_ascii (drop 1 s))
        else
          let x = first_info ! unat s0; size = unat (x AND 7);
              accept = acceptRanges ! unat (drop_bit 4 x) in
          if size = 2 then
            if length s < 2 \<or> s ! 1 < ar_lo accept \<or> ar_hi accept < s ! 1 then False
            else ValidString (drop 2 s)
          else if size = 3 then
            if length s < 3 \<or> s ! 1 < ar_lo accept \<or> ar_hi accept < s ! 1 \<or> s ! 2 < utf8_locb \<or> utf8_hicb < s ! 2
            then False else ValidString (drop 3 s)
          else if size = 4 then
            if length s < 4 \<or> s ! 1 < ar_lo accept \<or> ar_hi accept < s ! 1 \<or> s ! 2 < utf8_locb \<or> utf8_hicb < s ! 2
               \<or> s ! 3 < utf8_locb \<or> utf8_hicb < s ! 3
            then False else ValidString (drop 4 s)
          else False
      else True)"
  by pat_completeness auto
termination
  by (relation "measure length") (auto intro: le_less_trans [OF length_skip_ascii])

declare ValidString.simps [simp del]

definition ValidRune :: "rune \<Rightarrow> bool" where
  "ValidRune r \<longleftrightarrow>
     0 \<le> sint r \<and> sint r < sint surrogateMin \<or> sint surrogateMax < sint r \<and> sint r \<le> sint MaxRune"

end
