(* ===== verification/Utf8_Correct.thy ===== *)
theory Utf8_Correct
  imports Utf8 "HOL-Library.Sublist"
begin

unbundle bit_operations_syntax

text \<open>
  Correctness of package \<open>unicode/utf8\<close>. The decoder is first read on numbers (\<open>decode_nat\<close>), where
  it is shown inverse to the standard encoding \<open>enc_nat\<close> of the valid code points; the rest of the
  theory states this on the byte lists the code works on.
\<close>

section \<open>The decoder on numbers\<close>

lemmas utf8_consts = utf8_xx_def utf8_as_def utf8_s1_def utf8_s2_def utf8_s3_def utf8_s4_def utf8_s5_def utf8_s6_def utf8_s7_def
  utf8_locb_def utf8_hicb_def
  RuneError_def RuneSelf_def MaxRune_def rune1Max_def rune2Max_def rune3Max_def surrogateMin_def surrogateMax_def
  runeErrorByte0_def runeErrorByte1_def runeErrorByte2_def

definition first_spec :: "int \<Rightarrow> int" where
  "first_spec i = (if i < 0x80 then 0xF0 else if i < 0xC2 then 0xF1 else if i < 0xE0 then 0x02 else if i = 0xE0 then 0x13 
     else if i = 0xED then 0x23 else if i < 0xF0 then 0x03 else if i = 0xF0 then 0x34 else if i < 0xF4 then 0x04 
     else if i = 0xF4 then 0x44 else 0xF1)"

lemma first_table: "list_all2 (\<lambda>t i. t = first_spec i) (map uint first_info) [0..255]"
  by code_simp

lemma first_info_spec:
  fixes b :: u8
  shows "first_info ! unat b = word_of_int (first_spec (uint b))"
proof -
  have "unat b < 256" using unat_lt2p [of b] by simp
  then have "int (unat b) \<le> 255" by linarith
  then have "uint (first_info ! unat b) = first_spec (int (unat b))"
    by (rule table_lookup [OF first_table])
  then have "word_of_int (uint (first_info ! unat b)) = (word_of_int (first_spec (uint b)) :: u8)" by simp
  then show ?thesis by (simp only: word_of_int_uint)
qed

lemma first_info_nat:
  fixes b :: u8
  defines "n \<equiv> unat b"
  shows "first_info ! unat b = (if n < 0x80 then 0xF0 else if n < 0xC2 then 0xF1 else if n < 0xE0 then 0x02 else if n = 0xE0 then 0x13 
     else if n = 0xED then 0x23 else if n < 0xF0 then 0x03 else if n = 0xF0 then 0x34 else if n < 0xF4 then 0x04 
     else if n = 0xF4 then 0x44 else 0xF1)"
proof -
  have "uint b = int n" by (simp add: n_def)
  then show ?thesis unfolding first_info_spec first_spec_def by simp
qed

lemma accept_simps:
 "acceptRanges ! 0 = \<lparr>ar_lo = 0x80, ar_hi = 0xBF\<rparr>" "acceptRanges ! Suc 0 = \<lparr>ar_lo = 0xA0, ar_hi = 0xBF\<rparr>"
 "acceptRanges ! 2 = \<lparr>ar_lo = 0x80, ar_hi = 0x9F\<rparr>" "acceptRanges ! 3 = \<lparr>ar_lo = 0x90, ar_hi = 0xBF\<rparr>"
 "acceptRanges ! 4 = \<lparr>ar_lo = 0x80, ar_hi = 0x8F\<rparr>"
  by (simp_all add: acceptRanges_def utf8_consts)

text \<open>The well-formed byte sequences, on numbers.\<close>

definition utf8_cont :: "nat \<Rightarrow> bool" where "utf8_cont b \<longleftrightarrow> 0x80 \<le> b \<and> b \<le> 0xBF"

definition utf8_second :: "nat \<Rightarrow> nat \<Rightarrow> bool" where
  "utf8_second a b \<longleftrightarrow> (if a = 0xE0 then 0xA0 else if a = 0xF0 then 0x90 else 0x80) \<le> b \<and>
     b \<le> (if a = 0xED then 0x9F else if a = 0xF4 then 0x8F else 0xBF)"

lemma val2: "unat (push_bit 6 (ucast (a AND utf8_mask2)) OR ucast (b AND utf8_maskx) :: rune) = unat a mod 32 * 64 + unat b mod 64"
proof -
  have m: "utf8_mask2 = mask 5" "utf8_maskx = mask 6" by (simp_all add: utf8_mask2_def utf8_maskx_def mask_eq_exp_minus_1)
  show ?thesis unfolding m
    apply (subst unat_or_disjoint)
     apply (rule bit_word_eqI; auto simp: bit_simps)
    apply (simp add: word_nat)
    done
qed
lemma val3: "unat (push_bit 12 (ucast (a AND utf8_mask3)) OR push_bit 6 (ucast (b AND utf8_maskx)) OR ucast (c AND utf8_maskx) :: rune)
   = (unat a mod 16) * 4096 + unat b mod 64 * 64 + unat c mod 64"
proof -
  have m: "utf8_mask3 = mask 4" "utf8_maskx = mask 6" by (simp_all add: utf8_mask3_def utf8_maskx_def mask_eq_exp_minus_1)
  show ?thesis unfolding m
    apply (subst unat_or_disjoint)
     apply (rule bit_word_eqI; auto simp: bit_simps)
    apply (subst unat_or_disjoint)
     apply (rule bit_word_eqI; auto simp: bit_simps)
    apply (simp add: word_nat)
    done
qed
lemma val4: "unat (push_bit 18 (ucast (a AND utf8_mask4)) OR push_bit 12 (ucast (b AND utf8_maskx)) OR push_bit 6 (ucast (c AND utf8_maskx)) OR ucast (d AND utf8_maskx) :: rune)
   = (unat a mod 8) * 262144 + unat b mod 64 * 4096 + unat c mod 64 * 64 + unat d mod 64"
proof -
  have m: "utf8_mask4 = mask 3" "utf8_maskx = mask 6" by (simp_all add: utf8_mask4_def utf8_maskx_def mask_eq_exp_minus_1)
  show ?thesis unfolding m
    apply (subst unat_or_disjoint)
     apply (rule bit_word_eqI; auto simp: bit_simps)
    apply (subst unat_or_disjoint)
     apply (rule bit_word_eqI; auto simp: bit_simps)
    apply (subst unat_or_disjoint)
     apply (rule bit_word_eqI; auto simp: bit_simps)
    apply (simp add: word_nat)
    done
qed

lemma signed_mask_0: "signed_drop_bit 31 (push_bit 31 (ucast (0xF0 :: u8) :: rune)) = 0" 
  and signed_mask_1: "signed_drop_bit 31 (push_bit 31 (ucast (0xF1 :: u8) :: rune)) = - 1"
   by code_simp+

definition decode_nat :: "nat list \<Rightarrow> (nat \<times> nat) option" where
  "decode_nat s = (case s of
     [] \<Rightarrow> None
   | a # r1 \<Rightarrow>
       if a < 0x80 then Some (a, 1)
       else if a < 0xC2 \<or> 0xF4 < a then None
       else case r1 of [] \<Rightarrow> None | b # r2 \<Rightarrow>
         if \<not> utf8_second a b then None
         else if a < 0xE0 then Some (a mod 32 * 64 + b mod 64, 2)
         else case r2 of [] \<Rightarrow> None | c # r3 \<Rightarrow>
           if \<not> utf8_cont c then None
           else if a < 0xF0 then Some (a mod 16 * 4096 + b mod 64 * 64 + c mod 64, 3)
           else case r3 of [] \<Rightarrow> None | d # r4 \<Rightarrow>
             if \<not> utf8_cont d then None
             else Some (a mod 8 * 262144 + b mod 64 * 4096 + c mod 64 * 64 + d mod 64, 4))"

lemma eq_of_nat: "unat w = n \<Longrightarrow> w = of_nat n" by auto

lemma DecodeRune_nat: "p \<noteq> [] \<Longrightarrow> DecodeRune p = (case decode_nat (map unat p) of Some (r, n) \<Rightarrow> (of_nat r, n) | None \<Rightarrow> (RuneError, 1))"
proof -
  assume "p \<noteq> []"
  then obtain a r1 where p: "p = a # r1" by (cases p) auto
  note v = val2 [THEN eq_of_nat] val3 [THEN eq_of_nat] val4 [THEN eq_of_nat]
  note simps = p DecodeRune_def decodeRuneSlow_def decode_nat_def word_nat utf8_consts first_info_nat Let_def
    accept_simps utf8_second_def utf8_cont_def v
  consider "unat a < 0x80" | "0x80 \<le> unat a" "unat a < 0xC2" | "0xC2 \<le> unat a" "unat a < 0xE0" | "unat a = 0xE0" | "unat a = 0xED"
    | "0xE0 < unat a" "unat a < 0xF0" "unat a \<noteq> 0xED" | "unat a = 0xF0" | "0xF0 < unat a" "unat a < 0xF4" | "unat a = 0xF4" | "0xF4 < unat a" by linarith
  then show ?thesis
  proof cases
    case 1 then show ?thesis by (simp add: p DecodeRune_def decode_nat_def word_nat RuneSelf_def)
  next
    case 2 then show ?thesis by (simp add: simps signed_mask_1)
  next
    case 3 then show ?thesis by (cases r1) (simp_all add: simps)
  next
    case 4 then show ?thesis by (cases r1; cases "tl r1") (simp_all add: simps)
  next
    case 5 then show ?thesis by (cases r1; cases "tl r1") (simp_all add: simps)
  next
    case 6 then show ?thesis by (cases r1; cases "tl r1") (simp_all add: simps)
  next
    case 7 then show ?thesis by (cases r1; cases "tl r1"; cases "tl (tl r1)") (simp_all add: simps)
  next
    case 8 then show ?thesis by (cases r1; cases "tl r1"; cases "tl (tl r1)") (simp_all add: simps)
  next
    case 9 then show ?thesis by (cases r1; cases "tl r1"; cases "tl (tl r1)") (simp_all add: simps)
  next
    case 10 then show ?thesis by (simp add: simps signed_mask_1)
  qed
qed

definition valid_nat :: "nat \<Rightarrow> bool" where
  "valid_nat n \<longleftrightarrow> n < 0xD800 \<or> 0xDFFF < n \<and> n \<le> 0x10FFFF"

definition enc_nat :: "nat \<Rightarrow> nat list" where
  "enc_nat n =
     (if n < 0x80 then [n]
      else if n < 0x800 then [0xC0 + n div 64, 0x80 + n mod 64]
      else if n < 0x10000 then [0xE0 + n div 4096, 0x80 + n div 64 mod 64, 0x80 + n mod 64]
      else [0xF0 + n div 262144, 0x80 + n div 4096 mod 64, 0x80 + n div 64 mod 64, 0x80 + n mod 64])"

lemma ValidRune_nat: "ValidRune r \<longleftrightarrow> valid_nat (unat r)"
  using unat_lt2p [of r] by (auto simp: ValidRune_def valid_nat_def sint_unat utf8_consts simp del: of_nat_unat)

lemma or_lead:
  fixes b c :: u8
  assumes "unat b < 2 ^ k" "take_bit k c = 0"
  shows "unat (c OR b) = unat c + unat b"
proof -
  have "take_bit k b = b" using assms(1) by (simp add: word_unat_eq_iff unat_take_bit)
  then have "bit b i \<Longrightarrow> i < k" for i by (metis bit_take_bit_iff)
  moreover have "bit c i \<Longrightarrow> \<not> i < k" for i using assms(2) by (metis bit_take_bit_iff bit_0_eq bot_apply bot_bool_def)
  ultimately have "c AND b = 0" by (intro bit_word_eqI) (auto simp: bit_simps)
  then show ?thesis by (rule unat_or_disjoint)
qed

lemmas utf8_leads = utf8_tx_def utf8_t2_def utf8_t3_def utf8_t4_def

lemma lead_byte:
  "unat b < 32 \<Longrightarrow> unat (utf8_t2 OR b) = 0xC0 + unat b"
  "unat b < 16 \<Longrightarrow> unat (utf8_t3 OR b) = 0xE0 + unat b"
  "unat b < 8 \<Longrightarrow> unat (utf8_t4 OR b) = 0xF0 + unat b"
  by (simp_all add: or_lead [of b 5] or_lead [of b 4] or_lead [of b 3] utf8_leads)

lemma cont_byte: "unat (utf8_tx OR (b AND utf8_maskx)) = 0x80 + unat b mod 64"
proof -
  have m: "utf8_maskx = mask 6" by (simp add: utf8_maskx_def mask_eq_exp_minus_1)
  show ?thesis unfolding m by (subst or_lead [where k = 6]) (simp_all add: unat_and_mask utf8_leads)
qed

lemma mod_byte_64: "(m :: nat) mod 256 mod 64 = m mod 64"
  by (rule mod_mod_cancel) simp

lemma AppendRune_nat: "ValidRune r \<Longrightarrow> map unat (AppendRune p r) = map unat p @ enc_nat (unat r)"
  unfolding ValidRune_nat
  by (auto simp: AppendRune_def appendRuneNonASCII_def word_nat utf8_consts valid_nat_def enc_nat_def lead_byte cont_byte mod_byte_64)

lemma digits_64: "n = n div 64 * 64 + n mod 64" 
  "n = n div 4096 * 4096 + n div 64 mod 64 * 64 + n mod 64"
  "n = n div 262144 * 262144 + n div 4096 mod 64 * 4096 + n div 64 mod 64 * 64 + n mod 64" for n :: nat
proof -
  have a: "n div 64 = n div 4096 * 64 + n div 64 mod 64"
    using div_mult_mod_eq [of "n div 64" 64] by (simp flip: div_mult2_eq)
  have b: "n div 4096 = n div 262144 * 64 + n div 4096 mod 64"
    using div_mult_mod_eq [of "n div 4096" 64] by (simp flip: div_mult2_eq)
  show c: "n = n div 64 * 64 + n mod 64" by simp
  then show d: "n = n div 4096 * 4096 + n div 64 mod 64 * 64 + n mod 64" using a by linarith
  then show "n = n div 262144 * 262144 + n div 4096 mod 64 * 4096 + n div 64 mod 64 * 64 + n mod 64" using b by linarith
qed

lemma digit_shift:
  "y < 64 \<Longrightarrow> (0x80 + y) mod 64 = y" "y < 32 \<Longrightarrow> (0xC0 + y) mod 32 = y"
  "y < 16 \<Longrightarrow> (0xE0 + y) mod 16 = y" "y < 8 \<Longrightarrow> (0xF0 + y) mod 8 = y" for y :: nat
  using mod_mult_self3 [of 2 64 y] mod_mult_self3 [of 6 32 y] mod_mult_self3 [of 14 16 y] mod_mult_self3 [of 30 8 y]
  by simp_all

lemma digit_2: "y < 64 \<Longrightarrow> (x * 64 + y) div 64 = x \<and> (x * 64 + y) mod 64 = y" for x y :: nat
  by simp

lemma digit_3:
  fixes x y z :: nat
  assumes "y < 64" "z < 64"
  defines "n \<equiv> x * 4096 + y * 64 + z"
  shows "n div 4096 = x" "n div 64 = x * 64 + y" "n div 64 mod 64 = y" "n mod 64 = z"
proof -
  have n: "n = (x * 64 + y) * 64 + z" by (simp add: n_def)
  show d: "n div 64 = x * 64 + y" "n mod 64 = z" using digit_2 [OF assms(2)] unfolding n by blast+
  show "n div 64 mod 64 = y" using digit_2 [OF assms(1)] unfolding d by blast
  have "n div 4096 = n div 64 div 64" by (simp flip: div_mult2_eq)
  then show "n div 4096 = x" using digit_2 [OF assms(1), of x] unfolding d by simp
qed

lemma digit_4:
  fixes x y z w :: nat
  assumes "y < 64" "z < 64" "w < 64"
  defines "n \<equiv> x * 262144 + y * 4096 + z * 64 + w"
  shows "n div 262144 = x" "n div 4096 mod 64 = y" "n div 64 mod 64 = z" "n mod 64 = w"
proof -
  have n: "n = (x * 64 + y) * 4096 + z * 64 + w" by (simp add: n_def)
  note d = digit_3 [OF assms(2,3), of "x * 64 + y", folded n]
  show "n div 64 mod 64 = z" "n mod 64 = w" by (rule d)+
  show "n div 4096 mod 64 = y" using digit_2 [OF assms(1)] unfolding d(1) by blast
  have "n div 262144 = n div 4096 div 64" by (simp flip: div_mult2_eq)
  then show "n div 262144 = x" using digit_2 [OF assms(1), of x] unfolding d by simp
qed

lemma decode_2:
  assumes "x < 32" "y < 64" "0x80 \<le> x * 64 + y"
  shows "decode_nat ([0xC0 + x, 0x80 + y] @ rest) = Some (x * 64 + y, 2)"
  using assms by (simp add: decode_nat_def utf8_second_def utf8_cont_def digit_shift)

lemma decode_3:
  assumes "x < 16" "y < 64" "z < 64" "0x800 \<le> x * 4096 + y * 64 + z" "x * 4096 + y * 64 + z < 0xD800 \<or> 0xDFFF < x * 4096 + y * 64 + z"
  shows "decode_nat ([0xE0 + x, 0x80 + y, 0x80 + z] @ rest) = Some (x * 4096 + y * 64 + z, 3)"
  using assms by (auto simp: decode_nat_def utf8_second_def utf8_cont_def digit_shift)

lemma decode_4:
  assumes "x \<le> 4" "y < 64" "z < 64" "w < 64" "0x10000 \<le> x * 262144 + y * 4096 + z * 64 + w" "x * 262144 + y * 4096 + z * 64 + w \<le> 0x10FFFF"
  shows "decode_nat ([0xF0 + x, 0x80 + y, 0x80 + z, 0x80 + w] @ rest) = Some (x * 262144 + y * 4096 + z * 64 + w, 4)"
  using assms by (auto simp: decode_nat_def utf8_second_def utf8_cont_def digit_shift)

lemma decode_enc: "valid_nat n \<Longrightarrow> decode_nat (enc_nat n @ rest) = Some (n, length (enc_nat n))"
proof -
  assume v: "valid_nat n"
  consider "n < 0x80" | "0x80 \<le> n" "n < 0x800" | "0x800 \<le> n" "n < 0x10000" | "0x10000 \<le> n" by linarith
  then show ?thesis
  proof cases
    case 1 then show ?thesis by (simp add: enc_nat_def decode_nat_def)
  next
    case 2 then show ?thesis using decode_2 [of "n div 64" "n mod 64" rest] digits_64(1) [of n] 
      by (simp add: enc_nat_def)
  next
    case 3 then show ?thesis using v decode_3 [of "n div 4096" "n div 64 mod 64" "n mod 64" rest] digits_64(2) [of n] 
      by (simp add: enc_nat_def valid_nat_def)
  next
    case 4 then show ?thesis using v decode_4 [of "n div 262144" "n div 4096 mod 64" "n div 64 mod 64" "n mod 64" rest] digits_64(3) [of n] 
      by (simp add: enc_nat_def valid_nat_def)
  qed
qed

lemma enc_2: "x < 32 \<Longrightarrow> y < 64 \<Longrightarrow> 2 \<le> x \<Longrightarrow> enc_nat (x * 64 + y) = [0xC0 + x, 0x80 + y]"
  by (simp add: enc_nat_def)
lemma enc_3:
  assumes "x < 16" "y < 64" "z < 64" "0x800 \<le> x * 4096 + y * 64 + z"
  shows "enc_nat (x * 4096 + y * 64 + z) = [0xE0 + x, 0x80 + y, 0x80 + z]"
  using assms(1,4) digit_3 [OF assms(2,3), of x] assms(2,3) unfolding enc_nat_def by simp

lemma enc_4:
  assumes "x \<le> 4" "y < 64" "z < 64" "w < 64" "0x10000 \<le> x * 262144 + y * 4096 + z * 64 + w"
  shows "enc_nat (x * 262144 + y * 4096 + z * 64 + w) = [0xF0 + x, 0x80 + y, 0x80 + z, 0x80 + w]"
  using assms(1,5) digit_4 [OF assms(2-4), of x] assms(2-4) unfolding enc_nat_def by simp

lemma undigit:
  "0xC0 \<le> a \<Longrightarrow> a < 0xE0 \<Longrightarrow> a = 0xC0 + a mod 32" "0xE0 \<le> a \<Longrightarrow> a < 0xF0 \<Longrightarrow> a = 0xE0 + a mod 16"
  "0xF0 \<le> a \<Longrightarrow> a < 0xF8 \<Longrightarrow> a = 0xF0 + a mod 8" "0x80 \<le> a \<Longrightarrow> a \<le> 0xBF \<Longrightarrow> a = 0x80 + a mod 64" for a :: nat
  using digit_shift(1) [of "a - 0x80"] digit_shift(2) [of "a - 0xC0"] digit_shift(3) [of "a - 0xE0"] digit_shift(4) [of "a - 0xF0"]
  by simp_all

lemma decode_nat_inv:
  assumes "decode_nat s = Some (n, k)"
  obtains (1) r where "s = n # r" "k = 1" "n < 0x80"
  | (2) x y r where "s = (0xC0 + x) # (0x80 + y) # r" "n = x * 64 + y" "k = 2" "x < 32" "2 \<le> x" "y < 64"
  | (3) x y z r where "s = (0xE0 + x) # (0x80 + y) # (0x80 + z) # r" "n = x * 4096 + y * 64 + z" "k = 3"
      "x < 16" "y < 64" "z < 64" "x = 0 \<longrightarrow> 32 \<le> y" "x = 13 \<longrightarrow> y < 32"
  | (4) x y z w r where "s = (0xF0 + x) # (0x80 + y) # (0x80 + z) # (0x80 + w) # r" "n = x * 262144 + y * 4096 + z * 64 + w" "k = 4"
      "x \<le> 4" "y < 64" "z < 64" "w < 64" "x = 0 \<longrightarrow> 16 \<le> y" "x = 4 \<longrightarrow> y < 16"
proof -
  from assms obtain a r1 where s: "s = a # r1" by (auto simp: decode_nat_def split: list.splits)
  consider "a < 0x80" | "0xC2 \<le> a" "a < 0xE0" | "0xE0 \<le> a" "a < 0xF0" | "0xF0 \<le> a" "a \<le> 0xF4"
    using assms s by (fastforce simp: decode_nat_def)
  then show thesis
  proof cases
    case 1 with assms s that(1) show ?thesis by (simp add: decode_nat_def)
  next
    case 2
    with assms s obtain b r2 where r: "r1 = b # r2" "0x80 \<le> b" "b \<le> 0xBF" "n = a mod 32 * 64 + b mod 64" "k = 2"
      by (auto simp: decode_nat_def utf8_second_def split: list.splits if_splits)
    show ?thesis
      using that(2) [of "a mod 32" "b mod 64" r2] undigit(1) [of a] undigit(4) [of b] 2 r s by simp
  next
    case 3
    with assms s obtain b c r3 where r: "r1 = b # c # r3" "utf8_second a b" "utf8_cont c" "n = a mod 16 * 4096 + b mod 64 * 64 + c mod 64" "k = 3"
      by (auto simp: decode_nat_def split: list.splits if_splits)
    have b: "0x80 \<le> b" "b \<le> 0xBF" using r(2) by (auto simp: utf8_second_def split: if_splits)
    have d: "a = 0xE0 + a mod 16" "b = 0x80 + b mod 64" "c = 0x80 + c mod 64"
      using undigit(2) [of a] undigit(4) [of b] undigit(4) [of c] 3 r(3) b by (simp_all add: utf8_cont_def)
    have "a mod 16 = 0 \<longrightarrow> 32 \<le> b mod 64" "a mod 16 = 13 \<longrightarrow> b mod 64 < 32"
      using d r(2) unfolding utf8_second_def by auto
    then show ?thesis using that(3) [of "a mod 16" "b mod 64" "c mod 64" r3] d r s by simp
  next
    case 4
    with assms s obtain b c d r4 where r: "r1 = b # c # d # r4" "utf8_second a b" "utf8_cont c" "utf8_cont d"
        "n = a mod 8 * 262144 + b mod 64 * 4096 + c mod 64 * 64 + d mod 64" "k = 4"
      by (auto simp: decode_nat_def split: list.splits if_splits)
    have b: "0x80 \<le> b" "b \<le> 0xBF" using r(2) by (auto simp: utf8_second_def split: if_splits)
    have d: "a = 0xF0 + a mod 8" "b = 0x80 + b mod 64" "c = 0x80 + c mod 64" "d = 0x80 + d mod 64"
      using undigit(3) [of a] undigit(4) [of b] undigit(4) [of c] undigit(4) [of d] 4 r(3,4) b by (simp_all add: utf8_cont_def)
    have "a mod 8 = 0 \<longrightarrow> 16 \<le> b mod 64" "a mod 8 = 4 \<longrightarrow> b mod 64 < 16" "a mod 8 \<le> 4"
      using d r(2) 4(2) unfolding utf8_second_def by auto
    then show ?thesis using that(4) [of "a mod 8" "b mod 64" "c mod 64" "d mod 64" r4] d r s by simp
  qed
qed

lemma enc_decode: "decode_nat s = Some (n, k) \<Longrightarrow> valid_nat n \<and> k = length (enc_nat n) \<and> take k s = enc_nat n"
proof (erule decode_nat_inv)
  fix r assume "s = n # r" "k = 1" "n < 0x80"
  then show ?thesis by (simp add: valid_nat_def enc_nat_def)
next
  fix x y r assume "s = (0xC0 + x) # (0x80 + y) # r" "n = x * 64 + y" "k = 2" "x < 32" "2 \<le> x" "y < 64"
  then show ?thesis by (simp add: valid_nat_def enc_2)
next
  fix x y z r assume a: "s = (0xE0 + x) # (0x80 + y) # (0x80 + z) # r" "n = x * 4096 + y * 64 + z" "k = 3"
      "x < 16" "y < 64" "z < 64" "x = 0 \<longrightarrow> 32 \<le> y" "x = 13 \<longrightarrow> y < 32"
  then have "0x800 \<le> n" by (cases "x = 0") simp_all
  moreover have "valid_nat n"
    using a(2,4-8) by (cases "x < 13"; cases "x = 13") (simp_all add: valid_nat_def)
  ultimately show ?thesis using a enc_3 by simp
next
  fix x y z w r assume a: "s = (0xF0 + x) # (0x80 + y) # (0x80 + z) # (0x80 + w) # r" "n = x * 262144 + y * 4096 + z * 64 + w" "k = 4"
      "x \<le> 4" "y < 64" "z < 64" "w < 64" "x = 0 \<longrightarrow> 16 \<le> y" "x = 4 \<longrightarrow> y < 16"
  then have "0x10000 \<le> n" by (cases "x = 0") simp_all
  moreover from this have "valid_nat n"
    using a(2,4-9) by (cases "x = 4") (simp_all add: valid_nat_def)
  ultimately show ?thesis using a enc_4 by simp
qed

section \<open>Encodings as byte lists\<close>

abbreviation rune_enc :: "rune \<Rightarrow> bytes" where "rune_enc r \<equiv> AppendRune [] r"

lemma map_unat_inj: "map unat p = map unat q \<longleftrightarrow> p = (q :: bytes)"
  by (simp add: inj_map_eq_map)

lemma enc_nat_bytes: "ValidRune r \<Longrightarrow> map unat (rune_enc r) = enc_nat (unat r)"
  by (simp add: AppendRune_nat)

lemma length_rune_enc: "ValidRune r \<Longrightarrow> length (rune_enc r) = length (enc_nat (unat r))"
  by (metis enc_nat_bytes length_map)

lemma rune_enc_ne [simp]: "rune_enc r \<noteq> []"
  by (simp add: AppendRune_def appendRuneNonASCII_def)

lemma length_rune_enc_pos [simp]: "0 < length (rune_enc r)" "Suc 0 \<le> length (rune_enc r)" "length (rune_enc r) \<le> 4"
  by (simp_all add: AppendRune_def appendRuneNonASCII_def)

lemma DecodeRune_enc: "ValidRune r \<Longrightarrow> DecodeRune (rune_enc r @ q) = (r, length (rune_enc r))"
  by (simp add: DecodeRune_nat enc_nat_bytes decode_enc ValidRune_nat [symmetric] length_rune_enc)

lemma valid_nat_lt: "valid_nat n \<Longrightarrow> n < 2 ^ 32" by (auto simp: valid_nat_def)

lemma decode_nat_bytes:
  assumes "decode_nat (map unat p) = Some (n, k)"
  shows "ValidRune (of_nat n)" "take k p = rune_enc (of_nat n)" "k = length (rune_enc (of_nat n))" "DecodeRune p = (of_nat n, k)"
proof -
  from enc_decode [OF assms] have v: "valid_nat n" and k: "k = length (enc_nat n)" and t: "take k (map unat p) = enc_nat n" by auto
  have u: "unat (of_nat n :: rune) = n" using valid_nat_lt [OF v] by (simp add: unat_of_nat)
  then show r: "ValidRune (of_nat n)" by (simp add: ValidRune_nat v)
  show "take k p = rune_enc (of_nat n)" unfolding map_unat_inj [symmetric]
    using t by (simp add: take_map enc_nat_bytes r u del: map_unat_inj)
  show "k = length (rune_enc (of_nat n))" by (simp add: k length_rune_enc r u)
  have "p \<noteq> []" using assms by (auto simp: decode_nat_def)
  then show "DecodeRune p = (of_nat n, k)" by (simp add: DecodeRune_nat assms)
qed

lemma decode_nat_enc: "ValidRune r \<Longrightarrow> decode_nat (map unat (rune_enc r @ q)) = Some (unat r, length (rune_enc r))"
  by (simp add: enc_nat_bytes decode_enc ValidRune_nat [symmetric] length_rune_enc)

lemma rune_cases:
  obtains (empty) "p = []"
  | (rune) r q where "ValidRune r" "p = rune_enc r @ q" "DecodeRune p = (r, length (rune_enc r))" "decode_nat (map unat p) = Some (unat r, length (rune_enc r))"
  | (invalid) "p \<noteq> []" "\<And>r q. ValidRune r \<Longrightarrow> p \<noteq> rune_enc r @ q" "DecodeRune p = (RuneError, 1)" "decode_nat (map unat p) = None"
proof (cases "p = []")
  case False
  show thesis
  proof (cases "decode_nat (map unat p)")
    case None
    then show thesis using False invalid decode_nat_enc by (fastforce simp: DecodeRune_nat)
  next
    case (Some nk)
    then obtain n k where s: "decode_nat (map unat p) = Some (n, k)" by (cases nk) auto
    note d = decode_nat_bytes [OF s]
    have p: "p = rune_enc (of_nat n) @ drop k p" using append_take_drop_id [of k p] d(2) by simp
    have "decode_nat (map unat p) = Some (unat (of_nat n :: rune), length (rune_enc (of_nat n)))"
      using decode_nat_enc [OF d(1), of "drop k p"] unfolding p [symmetric] .
    then show thesis using rune [OF d(1) p] d(3,4) by simp
  qed
qed (rule empty)

lemma rune_enc_prefix_unique: "ValidRune r \<Longrightarrow> ValidRune r' \<Longrightarrow> rune_enc r @ q = rune_enc r' @ q' \<Longrightarrow> r = r' \<and> q = q'"
  by (metis DecodeRune_enc append_same_eq fst_conv append_eq_append_conv)

lemma DecodeRuneInString_eq: "DecodeRuneInString = DecodeRune"
proof -
  have "decodeRuneInStringSlow = decodeRuneSlow"
    by (rule ext) (simp only: decodeRuneInStringSlow_def decodeRuneSlow_def)
  then show ?thesis by (intro ext) (simp add: DecodeRuneInString_def DecodeRune_def split: list.split)
qed

lemma DecodeRune_iff:
  "DecodeRune p = (r, n) \<longleftrightarrow>
     (if p = [] then r = RuneError \<and> n = 0
      else if \<exists>c. ValidRune c \<and> prefix (AppendRune [] c) p
      then ValidRune r \<and> prefix (AppendRune [] r) p \<and> n = length (AppendRune [] r)
      else r = RuneError \<and> n = 1)"
proof (cases p rule: rune_cases)
  case empty then show ?thesis by (auto simp: DecodeRune_def decodeRuneSlow_def)
next
  case (rune c q)
  then have "\<exists>c. ValidRune c \<and> prefix (AppendRune [] c) p" by (auto simp: prefix_def)
  moreover have "p \<noteq> []" using rune(2) by simp
  moreover have "ValidRune r \<and> prefix (AppendRune [] r) p \<longleftrightarrow> r = c"
    using rune(1,2) rune_enc_prefix_unique [OF rune(1)] by (auto simp: prefix_def)
  ultimately show ?thesis using rune(3) by auto
next
  case invalid
  then have "\<not> (\<exists>c. ValidRune c \<and> prefix (AppendRune [] c) p)" unfolding prefix_def by blast
  then show ?thesis using invalid(1,3) by auto
qed

lemma DecodeRune_bounds: "p \<noteq> [] \<Longrightarrow> DecodeRuneInString p = (r, n) \<Longrightarrow> 1 \<le> n \<and> n \<le> length p"
  using DecodeRune_iff [of p r n] by (auto simp: DecodeRuneInString_eq Suc_le_eq dest: prefix_length_le split: if_splits)

section \<open>Encoding\<close>

lemma RuneError_valid [simp]: "ValidRune RuneError"
  by (simp add: ValidRune_nat valid_nat_def RuneError_def)

lemma rune_lt: "unat (r :: rune) < 4294967296" using unat_lt2p [of r] by simp

lemma AppendRune_invalid: "\<not> ValidRune r \<Longrightarrow> AppendRune p r = p @ rune_enc RuneError"
  unfolding ValidRune_nat
  by (auto simp: AppendRune_def appendRuneNonASCII_def word_nat valid_nat_def utf8_consts)

lemma AppendRune_split: "AppendRune p r = p @ rune_enc r"
  by (simp add: AppendRune_def appendRuneNonASCII_def)

lemma RuneLen_eq: "RuneLen r = (if ValidRune r then int (length (rune_enc r)) else - 1)"
  using rune_lt [of r]
  by (auto simp: RuneLen_def ValidRune_nat AppendRune_def appendRuneNonASCII_def sint_unat word_nat valid_nat_def utf8_consts simp del: of_nat_unat)

lemma update_prefix:
  "p \<noteq> [] \<Longrightarrow> p[0 := a] = [a] @ drop (Suc 0) p"
  "Suc 0 < length p \<Longrightarrow> p[0 := a, Suc 0 := b] = [a, b] @ drop (Suc (Suc 0)) p"
  "2 < length p \<Longrightarrow> p[0 := a, Suc 0 := b, 2 := c] = [a, b, c] @ drop (Suc (Suc (Suc 0))) p"
  "3 < length p \<Longrightarrow> p[0 := a, Suc 0 := b, 2 := c, 3 := d] = [a, b, c, d] @ drop (Suc (Suc (Suc (Suc 0)))) p"
  by (cases p; cases "tl p"; cases "tl (tl p)"; cases "tl (tl (tl p))"; simp add: numeral_eq_Suc)+

lemma EncodeRune_eq: "EncodeRune p r =
     (if length p < length (rune_enc r) then Inl IndexOutOfRange
      else Inr (rune_enc r @ drop (length (rune_enc r)) p, length (rune_enc r)))"
proof -
  note defs = EncodeRune_def encodeRuneNonASCII_def AppendRune_def appendRuneNonASCII_def
  show ?thesis
  proof (cases "r \<le> rune1Max")
    case True then show ?thesis by (auto simp: defs update_prefix)
  next
    case False
    then show ?thesis
      by (cases "r \<le> rune2Max"; cases "r < surrogateMin \<or> surrogateMax < r \<and> r \<le> rune3Max";
          cases "r > rune3Max \<and> r \<le> MaxRune"; cases "length p \<le> 1"; cases "length p \<le> 2"; cases "length p \<le> 3")
         (auto simp: defs update_prefix)
  qed
qed

section \<open>Validation and counting\<close>

definition well_formed :: "bytes \<Rightarrow> bool" where
  "well_formed p \<longleftrightarrow> (\<exists>rs. list_all ValidRune rs \<and> p = concat (map (AppendRune []) rs))"

lemma well_formed_Nil [simp]: "well_formed []"
  unfolding well_formed_def by (rule exI [of _ "[]"]) simp

lemma well_formed_cases:
  assumes "well_formed p" "p \<noteq> []"
  obtains r q where "ValidRune r" "p = rune_enc r @ q" "well_formed q"
proof -
  obtain rs where rs: "list_all ValidRune rs" "p = concat (map (AppendRune []) rs)" using assms(1) by (auto simp: well_formed_def)
  then obtain c cs where "rs = c # cs" using assms(2) by (cases rs) auto
  then show thesis using rs that [of c "concat (map (AppendRune []) cs)"] by (auto simp: well_formed_def)
qed

lemma well_formed_enc: "ValidRune r \<Longrightarrow> well_formed (rune_enc r @ q) \<longleftrightarrow> well_formed q"
proof
  assume v: "ValidRune r" and "well_formed (rune_enc r @ q)"
  then obtain c q' where "ValidRune c" "rune_enc r @ q = rune_enc c @ q'" "well_formed q'"
    by (rule_tac well_formed_cases) auto
  then show "well_formed q" using rune_enc_prefix_unique [OF v] by blast
next
  assume v: "ValidRune r" and "well_formed q"
  then obtain rs where "list_all ValidRune rs" "q = concat (map (AppendRune []) rs)" by (auto simp: well_formed_def)
  then show "well_formed (rune_enc r @ q)" unfolding well_formed_def using v by (intro exI [of _ "r # rs"]) simp
qed

lemma well_formed_invalid: "p \<noteq> [] \<Longrightarrow> (\<And>r q. ValidRune r \<Longrightarrow> p \<noteq> rune_enc r @ q) \<Longrightarrow> \<not> well_formed p"
  using well_formed_cases by blast

lemma rune_enc_ascii: "b < RuneSelf \<Longrightarrow> ValidRune (ucast b) \<and> rune_enc (ucast b) = [b]"
  by (simp add: ValidRune_nat valid_nat_def word_nat utf8_consts AppendRune_def) (simp add: word_unat_eq_iff word_nat)

abbreviation ascii :: "bytes \<Rightarrow> bool" where "ascii \<equiv> list_all (\<lambda>b. b < RuneSelf)"

lemma well_formed_ascii: "ascii a \<Longrightarrow> well_formed (a @ q) \<longleftrightarrow> well_formed q"
proof (induction a)
  case (Cons b a)
  then show ?case using well_formed_enc [of "ucast b" "a @ q"] rune_enc_ascii [of b] by simp
qed simp

lemma not_bit_byte [simp]: "8 \<le> n \<Longrightarrow> \<not> bit (b :: u8) n"
  by (auto dest: bit_imp_le_length)

lemma bit_hiBits: "bit hiBits n \<longleftrightarrow> n < 64 \<and> n mod 8 = 7"
proof -
  have "\<forall>n<64. bit hiBits n \<longleftrightarrow> n mod 8 = 7"
    unfolding all_less_numeral by (simp add: hiBits_def all_less_numeral bit_simps)
  moreover have "bit hiBits n \<Longrightarrow> n < 64" by (auto dest: bit_imp_le_length)
  ultimately show ?thesis by blast
qed

lemma hiBits_zero: "w AND hiBits = 0 \<longleftrightarrow> (\<forall>i<8. \<not> bit w (8 * i + 7))"
proof
  assume "w AND hiBits = 0"
  then have n: "\<not> (bit w n \<and> bit hiBits n)" for n by (metis bit_and_iff bit_0_eq bot_apply bot_bool_def)
  have "(8 * i + 7) mod 8 = 7" for i :: nat by presburger
  then have "\<not> bit w (8 * i + 7)" if "i < 8" for i using n [of "8 * i + 7"] that by (simp add: bit_hiBits)
  then show "\<forall>i<8. \<not> bit w (8 * i + 7)" by blast
next
  assume a: "\<forall>i<8. \<not> bit w (8 * i + 7)"
  have "\<not> (bit w n \<and> bit hiBits n)" for n
  proof
    assume b: "bit w n \<and> bit hiBits n"
    then have "n = 8 * (n div 8) + 7" using div_mult_mod_eq [of n 8] by (simp add: bit_hiBits mult.commute)
    moreover have "n div 8 < 8" using b by (auto simp: bit_hiBits)
    ultimately show False using a b by metis
  qed
  then show "w AND hiBits = 0" by (intro bit_word_eqI) (auto simp: bit_and_iff)
qed

lemma byte_ascii: "b < RuneSelf \<longleftrightarrow> \<not> bit b 7"
  using bit_top [of b] by (auto simp: word_nat RuneSelf_def)

lemma word_of_bit: "i < 8 \<Longrightarrow> bit (word_of p) (8 * i + 7) \<longleftrightarrow> bit (p ! i) 7"
proof -
  have "\<forall>i<8. bit (word_of p) (8 * i + 7) \<longleftrightarrow> bit (p ! i) 7"
    by (simp add: all_less_numeral word_of_def bit_simps)
  then show "i < 8 \<Longrightarrow> ?thesis" by blast
qed

lemma word_of_ascii: "8 \<le> length p \<Longrightarrow> (\<forall>i<8. \<not> bit (word_of p) (8 * i + 7)) \<longleftrightarrow> ascii (take 8 p)"
  by (auto simp: word_of_bit list_all_length byte_ascii)

lemma or_hiBits: "(v OR w) AND hiBits = 0 \<longleftrightarrow> v AND hiBits = 0 \<and> w AND hiBits = 0"
  by (auto simp: hiBits_zero bit_or_iff)

lemma word_of_hiBits: "k + 8 \<le> length p \<Longrightarrow> word_of (drop k p) AND hiBits = 0 \<longleftrightarrow> ascii (take 8 (drop k p))"
  by (simp add: hiBits_zero word_of_ascii)

lemma ascii_drop: "ascii (take m p) \<Longrightarrow> ascii (take n (drop m p)) \<Longrightarrow> ascii (take (m + n) p)"
  by (simp add: take_add)

lemma skip_ascii4_drop: "\<exists>k. ascii (take k p) \<and> skip_ascii4 p = drop k p"
proof (induction p rule: skip_ascii4.induct)
  case (1 p)
  show ?case
  proof (cases "length p > 4 * ptrSize \<and>
         (word_of p OR word_of (drop ptrSize p) OR
          (word_of (drop (2 * ptrSize) p) OR word_of (drop (3 * ptrSize) p))) AND hiBits = 0")
    case True
    then have "ascii (take (8 + 8) p)" "ascii (take (8 + 8) (drop 16 p))"
      using ascii_drop [of 8 p 8] ascii_drop [of 8 "drop 16 p" 8] word_of_hiBits [of 0 p] word_of_hiBits [of 8 p]
        word_of_hiBits [of 16 p] word_of_hiBits [of 24 p] by (simp_all add: or_hiBits)
    then have a: "ascii (take 32 p)" using ascii_drop [of 16 p 16] by simp
    obtain k where "ascii (take k (drop 32 p))" "skip_ascii4 (drop 32 p) = drop k (drop 32 p)" using "1.IH" [OF True] by auto
    then show ?thesis using True a ascii_drop [of 32 p k]
      by (intro exI [of _ "32 + k"]) (simp add: skip_ascii4.simps [of p] add.commute)
  next
    case False
    then show ?thesis by (intro exI [of _ 0]) (auto simp: skip_ascii4.simps [of p])
  qed
qed

lemma skip_ascii_drop: "\<exists>k. ascii (take k p) \<and> skip_ascii p = drop k p"
proof (cases "length p > 8 \<and> word_of p AND hiBits = 0")
  case True
  then have a: "ascii (take 8 p)" using word_of_hiBits [of 0 p] by simp
  let ?q = "drop 8 p"
  show ?thesis
  proof (cases "length ?q > 16 \<and> (word_of ?q OR word_of (drop 8 ?q)) AND hiBits = 0")
    case b: True
    then have "ascii (take (8 + 8) ?q)" 
      using ascii_drop [of 8 ?q 8] word_of_hiBits [of 0 ?q] word_of_hiBits [of 8 ?q] by (simp add: or_hiBits)
    with a have c: "ascii (take 24 p)" using ascii_drop [of 8 p 16] by simp
    obtain k where "ascii (take k (drop 24 p))" "skip_ascii4 (drop 24 p) = drop k (drop 24 p)" using skip_ascii4_drop by blast
    then show ?thesis using True b c ascii_drop [of 24 p k]
      by (intro exI [of _ "24 + k"]) (simp add: skip_ascii_def add.commute)
  next
    case False
    then show ?thesis using True a by (intro exI [of _ 8]) (auto simp: skip_ascii_def Let_def)
  qed
next
  case False
  then show ?thesis by (intro exI [of _ 0]) (auto simp: skip_ascii_def)
qed

lemma Valid_step: "p \<noteq> [] \<Longrightarrow> \<not> p ! 0 < RuneSelf \<Longrightarrow> 
   Valid p = (case decode_nat (map unat p) of Some (r, n) \<Rightarrow> Valid (drop n p) | None \<Rightarrow> False)"
proof -
  assume p: "p \<noteq> []" "\<not> p ! 0 < RuneSelf"
  then obtain a r1 where s: "p = a # r1" by (cases p) auto
  then have a: "0x80 \<le> unat a" using p(2) by (simp add: word_nat RuneSelf_def)
  note simps = s Valid.simps [of "a # _"] decode_nat_def word_nat utf8_consts Let_def
    accept_simps utf8_second_def utf8_cont_def
  consider "unat a < 0xC2" | "0xC2 \<le> unat a" "unat a < 0xE0" | "unat a = 0xE0" | "unat a = 0xED"
    | "0xE0 < unat a" "unat a < 0xF0" "unat a \<noteq> 0xED" | "unat a = 0xF0" | "0xF0 < unat a" "unat a < 0xF4" | "unat a = 0xF4" | "0xF4 < unat a" by linarith
  then show ?thesis
  proof cases
    case 1 then show ?thesis using a first_info_nat [of a] by (simp add: simps)
  next
    case 2 then show ?thesis using first_info_nat [of a] by (cases r1) (simp_all add: simps)
  next
    case 3 then show ?thesis using first_info_nat [of a] by (cases r1; cases "tl r1") (simp_all add: simps)
  next
    case 4 then show ?thesis using first_info_nat [of a] by (cases r1; cases "tl r1") (simp_all add: simps)
  next
    case 5 then show ?thesis using first_info_nat [of a] by (cases r1; cases "tl r1") (simp_all add: simps)
  next
    case 6 then show ?thesis using first_info_nat [of a] by (cases r1; cases "tl r1"; cases "tl (tl r1)") (simp_all add: simps)
  next
    case 7 then show ?thesis using first_info_nat [of a] by (cases r1; cases "tl r1"; cases "tl (tl r1)") (simp_all add: simps)
  next
    case 8 then show ?thesis using first_info_nat [of a] by (cases r1; cases "tl r1"; cases "tl (tl r1)") (simp_all add: simps)
  next
    case 9 then show ?thesis using first_info_nat [of a] by (simp add: simps)
  qed
qed

lemma Valid_well_formed: "Valid p = well_formed p"
proof (induction "length p" arbitrary: p rule: less_induct)
  case less
  show ?case
  proof (cases "p = []")
    case True then show ?thesis by (simp add: Valid.simps)
  next
    case False
    show ?thesis
    proof (cases "p ! 0 < RuneSelf")
      case True
      obtain k where k: "ascii (take k (drop 1 p))" "skip_ascii (drop 1 p) = drop k (drop 1 p)" using skip_ascii_drop by blast
      have "Valid p = Valid (drop k (drop 1 p))" using True False k(2) by (simp add: Valid.simps [of p])
      also have "\<dots> = well_formed (drop k (drop 1 p))" using less False by simp
      also have "\<dots> = well_formed (drop 1 p)" using well_formed_ascii [OF k(1), of "drop k (drop 1 p)"] by (simp del: drop_drop)
      also have "\<dots> = well_formed p"
        using well_formed_ascii [of "[p ! 0]" "drop 1 p"] True False by (simp add: Cons_nth_drop_Suc)
      finally show ?thesis .
    next
      case na: False
      show ?thesis
      proof (cases p rule: rune_cases)
        case empty then show ?thesis using False by simp
      next
        case (rune r q)
        then have "Valid p = Valid q" using Valid_step [OF False na] by simp
        also have "\<dots> = well_formed q" using less rune(2) by simp
        finally show ?thesis using rune(1,2) well_formed_enc by simp
      next
        case invalid
        then show ?thesis using Valid_step [OF False na] well_formed_invalid [OF invalid(1,2)] by simp
      qed
    qed
  qed
qed

lemma ValidString_eq: "ValidString p = Valid p"
proof (induction "length p" arbitrary: p rule: less_induct)
  case less
  have "p \<noteq> [] \<Longrightarrow> ValidString (drop (numeral k) p) = Valid (drop (numeral k) p)" for k
    using less by simp
  moreover have "p \<noteq> [] \<Longrightarrow> ValidString (skip_ascii (drop 1 p)) = Valid (skip_ascii (drop 1 p))"
    using less le_less_trans [OF length_skip_ascii [of "drop 1 p"]] by simp
  moreover have "ValidString [] = Valid []" by (simp add: Valid.simps ValidString.simps)
  ultimately show ?case unfolding Valid.simps [of p] ValidString.simps [of p] by (simp add: Let_def)
qed


lemma RuneCountInString_enc: "ValidRune r \<Longrightarrow> RuneCountInString (rune_enc r @ q) = Suc (RuneCountInString q)"
  by (simp add: RuneCountInString.simps [of "rune_enc r @ q"] DecodeRuneInString_eq DecodeRune_enc)

lemma RuneCount_from_eq: "n \<le> length p \<Longrightarrow> RuneCount_from p n = n + RuneCountInString (drop n p)"
proof (induction p n rule: RuneCount_from.induct)
  case (1 p n)
  show ?case
  proof (cases "n < length p \<and> p ! n < RuneSelf")
    case True
    then have "RuneCountInString (drop n p) = Suc (RuneCountInString (drop (Suc n) p))"
      using RuneCountInString_enc [of "ucast (p ! n)" "drop (Suc n) p"] rune_enc_ascii [of "p ! n"]
      by (simp add: Cons_nth_drop_Suc)
    then show ?thesis using True 1 by (simp add: RuneCount_from.simps [of p n])
  next
    case False
    then show ?thesis using 1(2) by (cases "n < length p") (auto simp: RuneCount_from.simps [of p n] RuneCount_from.simps [of p "length p"] RuneCountInString.simps [of "[]"])
  qed
qed

lemma RuneCount_eq: "RuneCount p = RuneCountInString p"
  by (simp add: RuneCount_def RuneCount_from_eq)

lemma rune_enc_valid: "\<exists>c. ValidRune c \<and> rune_enc r = rune_enc c"
proof (cases "ValidRune r")
  case False
  then have "rune_enc r = rune_enc RuneError" using AppendRune_invalid [of r "[]"] by simp
  then show ?thesis using RuneError_valid by blast
qed blast

lemma RuneCountInString_concat: "RuneCountInString (concat (map rune_enc rs) @ q) = length rs + RuneCountInString q"
proof (induction rs)
  case (Cons r rs)
  obtain c where "ValidRune c" "rune_enc r = rune_enc c" using rune_enc_valid by blast
  then show ?case using Cons RuneCountInString_enc [of c] by simp
qed simp

section \<open>The last rune\<close>

lemma RuneStart_nat: "RuneStart b \<longleftrightarrow> \<not> utf8_cont (unat b)"
proof -
  have "b AND 0xC0 = push_bit 6 (drop_bit 6 b)"
  proof -
    have "b AND push_bit 6 (mask 2) = push_bit 6 (drop_bit 6 b)"
      by (rule bit_word_eqI) (auto simp: bit_simps)
    then show ?thesis by (simp add: mask_eq_exp_minus_1)
  qed
  moreover have "push_bit 6 (drop_bit 6 b) = 0x80 \<longleftrightarrow> unat b div 64 = 2"
    using unat_lt2p [of b] by (auto simp: word_unat_eq_iff word_nat)
  moreover have "unat b div 64 = 2 \<longleftrightarrow> utf8_cont (unat b)" unfolding utf8_cont_def by auto
  ultimately show ?thesis by (simp add: RuneStart_def)
qed

lemma enc_nat_cont: "valid_nat n \<Longrightarrow> i < length (enc_nat n) \<Longrightarrow> utf8_cont (enc_nat n ! i) \<longleftrightarrow> i \<noteq> 0"
  by (auto simp: enc_nat_def utf8_cont_def valid_nat_def less_Suc_eq split: if_splits)

lemma rune_enc_start: "ValidRune r \<Longrightarrow> i < length (rune_enc r) \<Longrightarrow> RuneStart (rune_enc r ! i) \<longleftrightarrow> i = 0"
  using enc_nat_cont [of "unat r" i] by (simp add: RuneStart_nat ValidRune_nat [symmetric] flip: enc_nat_bytes)

lemma scan_back_spec:
  "scan_back p lim start \<le> start" "lim - 1 \<le> start \<Longrightarrow> lim - 1 \<le> scan_back p lim start"
  "scan_back p lim start < i \<Longrightarrow> i \<le> start \<Longrightarrow> \<not> RuneStart (p ! nat i)"
  "lim \<le> scan_back p lim start \<Longrightarrow> RuneStart (p ! nat (scan_back p lim start))"
proof (induction p lim start rule: scan_back.induct)
  case (1 p lim start)
  { case 1 then show ?case using "1.IH" by (subst scan_back.simps) force }
  { case 2 then show ?case using "1.IH" by (subst scan_back.simps) force }
  { case 3 then show ?case using "1.IH"(3) by (cases "i = start") (auto simp: scan_back.simps [of p lim start] split: if_splits) }
  { case 4 then show ?case using "1.IH"(4) by (auto simp: scan_back.simps [of p lim start] split: if_splits) }
qed

lemma rune_enc_length_1: "ValidRune r \<Longrightarrow> length (rune_enc r) = 1 \<Longrightarrow> \<exists>b. rune_enc r = [b] \<and> b < RuneSelf"
  by (auto simp: AppendRune_def appendRuneNonASCII_def word_nat utf8_consts split: if_splits)

lemma rune_enc_suffix_unique:
  assumes "ValidRune r" "ValidRune c" "q @ rune_enc r = q' @ rune_enc c"
  shows "r = c"
proof -
  have *: "length (rune_enc r) \<le> length (rune_enc c)" 
    if v: "ValidRune r" "ValidRune c" and e: "q @ rune_enc r = q' @ rune_enc c" for r c q q'
  proof (rule ccontr)
    assume l: "\<not> ?thesis"
    then have "length q < length q'" using arg_cong [OF e, of length] by simp
    then obtain d where "rune_enc r = d @ rune_enc c" "d \<noteq> []" using e by (auto simp: append_eq_append_conv2)
    then have "RuneStart (rune_enc r ! length d)" "length d < length (rune_enc r)" "length d \<noteq> 0"
      using rune_enc_start [OF v(2), of 0] by (simp_all add: nth_append)
    then show False using rune_enc_start [OF v(1)] by blast
  qed
  have "length (rune_enc r) = length (rune_enc c)" using * [OF assms] * [OF assms(2,1) assms(3) [symmetric]] by simp
  then have "rune_enc r = rune_enc c" using assms(3) by simp
  then show ?thesis using rune_enc_prefix_unique [OF assms(1,2), of "[]" "[]"] by simp
qed

lemma nat_int_pred: "nat (int n - 1) = n - 1"
  by arith

lemma last_ascii: "sint (ucast (b :: u8) :: rune) < 0x80 \<longleftrightarrow> b < RuneSelf"
  using unat_lt2p [of b] by (simp add: sint_unat word_nat RuneSelf_def del: of_nat_unat)

lemma scan_back_rune:
  assumes "ValidRune c" "p = q @ rune_enc c" "2 \<le> length (rune_enc c)"
  shows "scan_back p (max (int (length p) - UTFMax) 0) (int (length p) - 2) = int (length q)"
    (is "?k = _")
proof -
  have lim: "max (int (length p) - UTFMax) 0 \<le> int (length q)"
    using length_rune_enc_pos(3) [of c] unfolding assms(2) UTFMax_def length_append by linarith
  have at: "p ! (length q + i) = rune_enc c ! i" for i using assms(2) by (simp add: nth_append)
  have "\<not> ?k < int (length q)"
  proof
    assume "?k < int (length q)"
    then have "\<not> RuneStart (p ! nat (int (length q)))" by (rule scan_back_spec(3)) (use assms(2,3) in simp)
    then show False using at [of 0] rune_enc_start [OF assms(1), of 0] by simp
  qed
  moreover have "\<not> int (length q) < ?k"
  proof
    assume k: "int (length q) < ?k"
    then have "RuneStart (p ! nat ?k)" using lim by (intro scan_back_spec(4)) linarith
    moreover define j where "j = nat (?k - int (length q))"
    then have j: "?k = int (length q + j)" "0 < j" using k by auto
    moreover have "j < length (rune_enc c)"
      using scan_back_spec(1) [of p "max (int (length p) - UTFMax) 0" "int (length p) - 2"] j(1) assms(2) by simp
    ultimately show False using at [of j] rune_enc_start [OF assms(1), of j] by (simp del: of_nat_add)
  qed
  ultimately show ?thesis by simp
qed

lemma DecodeLastRune_rune: "ValidRune c \<Longrightarrow> DecodeLastRune (q @ rune_enc c) = (c, length (rune_enc c))"
proof -
  assume v: "ValidRune c"
  let ?p = "q @ rune_enc c"
  show ?thesis
  proof (cases "length (rune_enc c) = 1")
    case True
    then obtain b where b: "rune_enc c = [b]" "b < RuneSelf" using rune_enc_length_1 [OF v] by blast
    then have "c = ucast b" using rune_enc_prefix_unique [OF v, of "ucast b" "[]" "[]"] rune_enc_ascii [of b] by simp
    then show ?thesis using b by (simp add: DecodeLastRune_def Let_def last_ascii nth_append)
  next
    case False
    then have l: "2 \<le> length (rune_enc c)" using length_rune_enc_pos(1) [of c] by linarith
    have "?p ! (length ?p - 1) = rune_enc c ! (length (rune_enc c) - 1)"
      using l nth_append_length_plus [of q "rune_enc c" "length (rune_enc c) - 1"] by simp
    then have "\<not> RuneStart (?p ! (length ?p - 1))"
      using rune_enc_start [OF v, of "length (rune_enc c) - 1"] l by simp
    then have "\<not> ?p ! nat (int (length ?p) - 1) < RuneSelf"
      unfolding nat_int_pred by (simp add: RuneStart_nat utf8_cont_def word_nat RuneSelf_def)
    then show ?thesis using scan_back_rune [OF v refl l, of q] l DecodeRune_enc [OF v, of "[]"]
      by (simp add: DecodeLastRune_def Let_def last_ascii)
  qed
qed

lemma DecodeLastRune_invalid:
  assumes "p \<noteq> []" "\<not> (\<exists>c. ValidRune c \<and> suffix (rune_enc c) p)"
  shows "DecodeLastRune p = (RuneError, 1)"
proof -
  have "\<not> last p < RuneSelf"
    using rune_enc_ascii [of "last p"] assms append_butlast_last_id [OF assms(1)] unfolding suffix_def by metis
  then have l: "\<not> sint (ucast (p ! nat (int (length p) - 1)) :: rune) < 0x80"
    using assms(1) by (simp add: last_ascii last_conv_nth nat_int_pred)
  define start where "start = max (scan_back p (max (int (length p) - UTFMax) 0) (int (length p) - 2)) 0"
  obtain r n where d: "DecodeRune (drop (nat start) p) = (r, n)" by fastforce
  have "(r, n) = (RuneError, 1)" if e: "start + int n = int (length p)"
  proof (cases "drop (nat start) p" rule: rune_cases)
    case empty
    then have "n = 0" using d by (simp add: DecodeRune_def decodeRuneSlow_def)
    have "start \<le> max (int (length p) - 2) 0"
      unfolding start_def using scan_back_spec(1) [of p _ "int (length p) - 2"] by (meson max.mono order_refl)
    then show ?thesis using e \<open>n = 0\<close> assms(1) by (cases p) auto
  next
    case (rune c q)
    have "length (drop (nat start) p) = n" using e by (simp add: start_def)
    then have "q = []" using rune(2,3) d by auto
    then have "suffix (rune_enc c) p" using rune(2) by (metis append_Nil2 suffix_drop)
    then show ?thesis using assms(2) rune(1) by blast
  next
    case invalid then show ?thesis using d by simp
  qed
  moreover have "(if k < 0 then 0 else k) = max k 0" for k :: int by simp
  ultimately show ?thesis using assms(1) l d
    by (auto simp: DecodeLastRune_def Let_def start_def)
qed

lemma DecodeLastRuneInString_eq: "DecodeLastRuneInString = DecodeLastRune"
  by (rule ext) (simp only: DecodeLastRuneInString_def DecodeLastRune_def DecodeRuneInString_eq)

section \<open>Full runes\<close>

lemma FullRune_more:
  assumes "decode_nat (map unat (p @ t)) = Some (n, length p + length t)" "t \<noteq> []" "p \<noteq> []"
  shows "\<not> FullRune p"
proof -
  obtain a r1 where p: "p = a # r1" using assms(3) by (cases p) auto
  note simps = p FullRune_def decode_nat_def word_nat utf8_consts Let_def accept_simps utf8_second_def utf8_cont_def
  consider "unat a < 0xC2" | "0xC2 \<le> unat a" "unat a < 0xE0" | "unat a = 0xE0" | "unat a = 0xED"
    | "0xE0 < unat a" "unat a < 0xF0" "unat a \<noteq> 0xED" | "unat a = 0xF0" | "0xF0 < unat a" "unat a < 0xF4" | "unat a = 0xF4" | "0xF4 < unat a" by linarith
  then show ?thesis
  proof cases
    case 1
    then show ?thesis using assms first_info_nat [of a]
      by (cases r1; cases "tl r1"; cases "tl (tl r1)") (auto simp: simps split: if_splits list.splits)
  next
    case 2
    then show ?thesis using assms first_info_nat [of a]
      by (cases r1; cases "tl r1"; cases "tl (tl r1)") (auto simp: simps split: if_splits list.splits)
  next
    case 3
    then show ?thesis using assms first_info_nat [of a]
      by (cases r1; cases "tl r1"; cases "tl (tl r1)") (auto simp: simps split: if_splits list.splits)
  next
    case 4
    then show ?thesis using assms first_info_nat [of a]
      by (cases r1; cases "tl r1"; cases "tl (tl r1)") (auto simp: simps split: if_splits list.splits)
  next
    case 5
    then show ?thesis using assms first_info_nat [of a]
      by (cases r1; cases "tl r1"; cases "tl (tl r1)") (auto simp: simps split: if_splits list.splits)
  next
    case 6
    then show ?thesis using assms first_info_nat [of a]
      by (cases r1; cases "tl r1"; cases "tl (tl r1)") (auto simp: simps split: if_splits list.splits)
  next
    case 7
    then show ?thesis using assms first_info_nat [of a]
      by (cases r1; cases "tl r1"; cases "tl (tl r1)") (auto simp: simps split: if_splits list.splits)
  next
    case 8
    then show ?thesis using assms first_info_nat [of a]
      by (cases r1; cases "tl r1"; cases "tl (tl r1)") (auto simp: simps split: if_splits list.splits)
  next
    case 9
    then show ?thesis using assms first_info_nat [of a]
      by (cases r1; cases "tl r1"; cases "tl (tl r1)") (auto simp: simps split: if_splits list.splits)
  qed
qed

lemma FullRune_extend:
  assumes "p \<noteq> []" "\<not> FullRune p"
  shows "\<exists>t n. t \<noteq> [] \<and> decode_nat (map unat (p @ t)) = Some (n, length p + length t)"
proof -
  obtain a r1 where p: "p = a # r1" using assms(1) by (cases p) auto
  note simps = p FullRune_def decode_nat_def word_nat utf8_consts Let_def accept_simps utf8_second_def utf8_cont_def
  consider "unat a < 0xC2" | "0xC2 \<le> unat a" "unat a < 0xE0" | "unat a = 0xE0" | "unat a = 0xED"
    | "0xE0 < unat a" "unat a < 0xF0" "unat a \<noteq> 0xED" | "unat a = 0xF0" | "0xF0 < unat a" "unat a < 0xF4" | "unat a = 0xF4" | "0xF4 < unat a" by linarith
  then show ?thesis
  proof cases
    case 1 then show ?thesis using assms first_info_nat [of a] by (cases "unat a < 0x80") (auto simp: simps)
  next
    case 9 then show ?thesis using assms first_info_nat [of a] by (auto simp: simps)
  next
    case 2 then show ?thesis using assms first_info_nat [of a]
      by (cases r1; cases "tl r1"; cases "tl (tl r1)"; intro exI [of _ "drop (length r1) [0x80]"])
        (auto simp: simps split: if_splits)
  next
    case 3 then show ?thesis using assms first_info_nat [of a]
      by (cases r1; cases "tl r1"; cases "tl (tl r1)"; intro exI [of _ "drop (length r1) [0xA0, 0x80]"])
        (auto simp: simps split: if_splits)
  next
    case 4 then show ?thesis using assms first_info_nat [of a]
      by (cases r1; cases "tl r1"; cases "tl (tl r1)"; intro exI [of _ "drop (length r1) [0x80, 0x80]"])
        (auto simp: simps split: if_splits)
  next
    case 5 then show ?thesis using assms first_info_nat [of a]
      by (cases r1; cases "tl r1"; cases "tl (tl r1)"; intro exI [of _ "drop (length r1) [0x80, 0x80]"])
        (auto simp: simps split: if_splits)
  next
    case 6 then show ?thesis using assms first_info_nat [of a]
      by (cases r1; cases "tl r1"; cases "tl (tl r1)"; intro exI [of _ "drop (length r1) [0x90, 0x80, 0x80]"])
        (auto simp: simps split: if_splits)
  next
    case 7 then show ?thesis using assms first_info_nat [of a]
      by (cases r1; cases "tl r1"; cases "tl (tl r1)"; intro exI [of _ "drop (length r1) [0x80, 0x80, 0x80]"])
        (auto simp: simps split: if_splits)
  next
    case 8 then show ?thesis using assms first_info_nat [of a]
      by (cases r1; cases "tl r1"; cases "tl (tl r1)"; intro exI [of _ "drop (length r1) [0x80, 0x80, 0x80]"])
        (auto simp: simps split: if_splits)
  qed
qed

lemma FullRune_eq: "\<not> FullRune p \<longleftrightarrow> (\<exists>r. ValidRune r \<and> strict_prefix p (rune_enc r))"
proof
  assume n: "\<not> FullRune p"
  show "\<exists>r. ValidRune r \<and> strict_prefix p (rune_enc r)"
  proof (cases "p = []")
    case True
    then have "strict_prefix p (rune_enc RuneError)" using rune_enc_ne [of RuneError] unfolding strict_prefix_def by (metis Nil_prefix)
    then show ?thesis using RuneError_valid by blast
  next
    case False
    obtain t n where t: "t \<noteq> []" "decode_nat (map unat (p @ t)) = Some (n, length p + length t)"
      using FullRune_extend [OF False n] by blast
    have "p @ t = rune_enc (of_nat n)" using decode_nat_bytes(2) [OF t(2)] by simp
    then show ?thesis using decode_nat_bytes(1) [OF t(2)] t(1) by (auto simp: strict_prefix_def prefix_def intro!: exI [of _ "of_nat n"] simp del: rune_enc_ne dest: sym)
  qed
next
  assume "\<exists>r. ValidRune r \<and> strict_prefix p (rune_enc r)"
  then obtain r t where r: "ValidRune r" "rune_enc r = p @ t" "t \<noteq> []" by (auto simp: strict_prefix_def prefix_def)
  then show "\<not> FullRune p" using decode_nat_enc [OF r(1), of "[]"] FullRune_more [of p t "unat r"] by (cases "p = []") (simp_all add: FullRune_def)
qed

lemma DecodeLastRune_iff:
  "DecodeLastRuneInString p = DecodeLastRune p \<and>
   (DecodeLastRune p = (r, n) \<longleftrightarrow>
     (if p = [] then r = RuneError \<and> n = 0
      else if \<exists>c. ValidRune c \<and> suffix (AppendRune [] c) p
      then ValidRune r \<and> suffix (AppendRune [] r) p \<and> n = length (AppendRune [] r)
      else r = RuneError \<and> n = 1))"
proof -
  consider (nil) "p = []" | (rune) c q where "ValidRune c" "p = q @ rune_enc c"
    | (none) "p \<noteq> []" "\<not> (\<exists>c. ValidRune c \<and> suffix (rune_enc c) p)" unfolding suffix_def by blast
  then show ?thesis
  proof cases
    case nil then show ?thesis by (auto simp: DecodeLastRuneInString_eq DecodeLastRune_def)
  next
    case rune
    then have "ValidRune r \<and> suffix (AppendRune [] r) p \<longleftrightarrow> r = c"
      using rune_enc_suffix_unique [OF rune(1)] by (auto simp: suffix_def)
    then show ?thesis using rune DecodeLastRune_rune [OF rune(1), of q]
      by (auto simp: DecodeLastRuneInString_eq suffix_def)
  next
    case none then show ?thesis by (auto simp: DecodeLastRuneInString_eq DecodeLastRune_invalid)
  qed
qed

section \<open>Properties\<close>

text \<open>
  C5: decoding. \<open>DecodeRune\<close> accepts exactly the shortest-form encodings of the valid code points. On a slice that
  starts with the encoding \<open>AppendRune\<close> gives of some valid rune it returns that rune and the length of
  its encoding; on the empty slice it returns \<open>RuneError\<close> with width 0, on every other slice
  (overlong forms, surrogates, values above \<open>MaxRune\<close>, truncated and stray bytes) \<open>RuneError\<close> with
  width 1. \<open>DecodeLastRune\<close>, which scans back at most \<open>UTFMax\<close> bytes, does the same at the end of the slice. The copies of the
  code for strings agree with them.
\<close>

theorem decode_runes_spec:
  "DecodeRuneInString p = DecodeRune p \<and>
   (DecodeRune p = (r, n) \<longleftrightarrow>
     (if p = [] then r = RuneError \<and> n = 0
      else if \<exists>c. ValidRune c \<and> prefix (AppendRune [] c) p
      then ValidRune r \<and> prefix (AppendRune [] r) p \<and> n = length (AppendRune [] r)
      else r = RuneError \<and> n = 1)) \<and>
   DecodeLastRuneInString p = DecodeLastRune p \<and>
   (DecodeLastRune p = (r, n) \<longleftrightarrow>
     (if p = [] then r = RuneError \<and> n = 0
      else if \<exists>c. ValidRune c \<and> suffix (AppendRune [] c) p
      then ValidRune r \<and> suffix (AppendRune [] r) p \<and> n = length (AppendRune [] r)
      else r = RuneError \<and> n = 1))"
proof (intro conjI)
  show "DecodeRuneInString p = DecodeRune p" by (simp only: DecodeRuneInString_eq)
  show "DecodeLastRuneInString p = DecodeLastRune p" using DecodeLastRune_iff [of p r n] by (rule conjunct1)
qed (rule DecodeRune_iff DecodeLastRune_iff [THEN conjunct2])+

text \<open>
  C6: \<open>AppendRune\<close> appends the encoding of the rune, that of \<open>RuneError\<close> when the rune is not valid;
  \<open>EncodeRune\<close> writes the same bytes over the front of the slice and returns their number, or panics
  without a write when the slice is shorter; \<open>RuneLen\<close> is the length of the encoding, \<open>-1\<close> for an
  invalid rune.
\<close>

theorem EncodeRune_spec:
  "AppendRune p r = p @ AppendRune [] (if ValidRune r then r else RuneError) \<and>
   EncodeRune p r =
     (if length p < length (AppendRune [] r) then Inl IndexOutOfRange
      else Inr (AppendRune [] r @ drop (length (AppendRune [] r)) p, length (AppendRune [] r))) \<and>
   RuneLen r = (if ValidRune r then int (length (AppendRune [] r)) else - 1)"
  using AppendRune_split [of p r] AppendRune_invalid [of r p]
  by (simp add: EncodeRune_eq RuneLen_eq)

text \<open>
  C7: \<open>Valid\<close> and \<open>ValidString\<close>, with their fast paths that test 8, 16 and 32 bytes at a time, hold
  exactly for the concatenations of encodings of valid runes.
\<close>

theorem Valid_spec:
  "ValidString p = Valid p \<and>
   (Valid p \<longleftrightarrow> (\<exists>rs. list_all ValidRune rs \<and> p = concat (map (AppendRune []) rs)))"
  using Valid_well_formed [of p] ValidString_eq [of p] by (simp add: well_formed_def)

text \<open>
  C8: \<open>FullRune\<close> says whether more input could change the decoding: it is false exactly for the proper
  prefixes of encodings of valid runes (the empty slice included). \<open>RuneCount\<close>, with its ASCII scan, is the number of
  decoding steps over the slice, and counts the runes of a concatenation of encodings. The copies of both for strings
  agree with them.
\<close>

theorem FullRune_RuneCount_spec:
  "FullRuneInString p = FullRune p \<and>
   (FullRune p \<longleftrightarrow> \<not> (\<exists>r. ValidRune r \<and> strict_prefix p (AppendRune [] r))) \<and>
   RuneCount p = RuneCountInString p \<and>
   RuneCount p = (if p = [] then 0 else Suc (RuneCount (drop (snd (DecodeRune p)) p))) \<and>
   RuneCount (concat (map (AppendRune []) rs) @ p) = length rs + RuneCount p"
proof (intro conjI)
  show "FullRuneInString p = FullRune p" by (simp only: FullRuneInString_def FullRune_def)
  show "FullRune p \<longleftrightarrow> \<not> (\<exists>r. ValidRune r \<and> strict_prefix p (AppendRune [] r))" using FullRune_eq [of p] by blast
qed (use RuneCountInString.simps [of p] in \<open>simp_all add: RuneCount_eq RuneCountInString_concat DecodeRuneInString_eq\<close>)

end
