(* ===== verification/Utf16.thy ===== *)
theory Utf16
  imports Utf8_Correct
begin

text \<open>
  Package \<open>unicode/utf16\<close> (\<open>src/unicode/utf16/utf16.go\<close>): surrogate pairs, and the conversion of
  sequences of runes to and from 16-bit code units. A rune is compared by its signed reading, as
  the \<open>int32\<close> it is. \<open>Encode\<close> writes into a slice it has sized beforehand: the writes are checked
  against its length, so that a wrong size would show as a panic.
\<close>

section \<open>The code\<close>

definition replacementChar :: rune where "replacementChar = 0xFFFD"

definition utf16_maxRune :: rune where "utf16_maxRune = 0x10FFFF"

definition surr1 :: rune where "surr1 = 0xd800"

definition surr2 :: rune where "surr2 = 0xdc00"

definition surr3 :: rune where "surr3 = 0xe000"

definition surrSelf :: rune where "surrSelf = 0x10000"

definition IsSurrogate :: "rune \<Rightarrow> bool" where
  "IsSurrogate r = (sint surr1 \<le> sint r \<and> sint r < sint surr3)"

definition utf16_DecodeRune :: "rune \<Rightarrow> rune \<Rightarrow> rune" where
  "utf16_DecodeRune r1 r2 =
     (if sint surr1 \<le> sint r1 \<and> sint r1 < sint surr2 \<and> sint surr2 \<le> sint r2 \<and> sint r2 < sint surr3
      then (push_bit 10 (r1 - surr1) OR (r2 - surr2)) + surrSelf
      else replacementChar)"

definition utf16_EncodeRune :: "rune \<Rightarrow> rune \<times> rune" where
  "utf16_EncodeRune r =
     (if sint r < sint surrSelf \<or> sint r > sint utf16_maxRune then (replacementChar, replacementChar)
      else let r = r - surrSelf in (surr1 + (signed_drop_bit 10 r AND 0x3ff), surr2 + (r AND 0x3ff)))"

definition utf16_RuneLen :: "rune \<Rightarrow> int" where
  "utf16_RuneLen r =
     (if 0 \<le> sint r \<and> sint r < sint surr1 \<or> sint surr3 \<le> sint r \<and> sint r < sint surrSelf then 1
      else if sint surrSelf \<le> sint r \<and> sint r \<le> sint utf16_maxRune then 2
      else - 1)"

fun utf16_Encode_loop :: "rune list \<Rightarrow> u16 list \<Rightarrow> nat \<Rightarrow> panic + u16 list \<times> nat" where
  "utf16_Encode_loop [] a n = Inr (a, n)"
| "utf16_Encode_loop (v # s) a n =
     (if utf16_RuneLen v = 1 then
        (case slice_put a n (ucast v) of Inl e \<Rightarrow> Inl e | Inr a \<Rightarrow> utf16_Encode_loop s a (n + 1))
      else if utf16_RuneLen v = 2 then
        let (r1, r2) = utf16_EncodeRune v in
        (case slice_put a n (ucast r1) of
           Inl e \<Rightarrow> Inl e
         | Inr a \<Rightarrow>
             (case slice_put a (n + 1) (ucast r2) of
                Inl e \<Rightarrow> Inl e
              | Inr a \<Rightarrow> utf16_Encode_loop s a (n + 2)))
      else
        (case slice_put a n (ucast replacementChar) of Inl e \<Rightarrow> Inl e | Inr a \<Rightarrow> utf16_Encode_loop s a (n + 1)))"

definition utf16_Encode :: "rune list \<Rightarrow> panic + u16 list" where
  "utf16_Encode s =
     (let n = fold (\<lambda>v n. if sint v \<ge> sint surrSelf then n + 1 else n) s (length s);
          a = replicate n 0 in
      case utf16_Encode_loop s a 0 of
        Inl e \<Rightarrow> Inl e
      | Inr (a, n) \<Rightarrow> if n \<le> length a then Inr (take n a) else Inl SliceBounds)"

definition utf16_AppendRune :: "u16 list \<Rightarrow> rune \<Rightarrow> u16 list" where
  "utf16_AppendRune a r =
     (if 0 \<le> sint r \<and> sint r < sint surr1 \<or> sint surr3 \<le> sint r \<and> sint r < sint surrSelf then a @ [ucast r]
      else if sint surrSelf \<le> sint r \<and> sint r \<le> sint utf16_maxRune then
        let (r1, r2) = utf16_EncodeRune r in a @ [ucast r1, ucast r2]
      else a @ [ucast replacementChar])"

text \<open>The loop of \<open>decode\<close>, on the code units from index \<open>i\<close> on.\<close>

fun utf16_decode :: "u16 list \<Rightarrow> rune list \<Rightarrow> rune list" where
  "utf16_decode [] buf = buf"
| "utf16_decode (r # s) buf =
     (if r < ucast surr1 \<or> ucast surr3 \<le> r then utf16_decode s (buf @ [ucast r])
      else
        case s of
          r' # s' \<Rightarrow>
            if ucast surr1 \<le> r \<and> r < ucast surr2 \<and> ucast surr2 \<le> r' \<and> r' < ucast surr3
            then utf16_decode s' (buf @ [utf16_DecodeRune (ucast r) (ucast r')])
            else utf16_decode s (buf @ [replacementChar])
        | [] \<Rightarrow> utf16_decode s (buf @ [replacementChar]))"

definition utf16_Decode :: "u16 list \<Rightarrow> rune list" where
  "utf16_Decode s = utf16_decode s []"

section \<open>The code units of one rune\<close>

lemmas utf16_consts = replacementChar_def utf16_maxRune_def surr1_def surr2_def surr3_def surrSelf_def

abbreviation utf16_enc :: "rune \<Rightarrow> u16 list" where "utf16_enc r \<equiv> utf16_AppendRune [] r"

text \<open>What a rune becomes when it is written and read back.\<close>

definition valid_or_error :: "rune \<Rightarrow> rune" where
  "valid_or_error r = (if ValidRune r then r else RuneError)"

lemma sint_rune: "sint (r :: rune) = (if unat r < 2147483648 then int (unat r) else int (unat r) - 4294967296)"
  using sint_unat [of r] by simp

definition utf16_nat :: "nat \<Rightarrow> nat list" where
  "utf16_nat n =
     (if valid_nat n then
        if n < 0x10000 then [n] else [0xd800 + (n - 0x10000) div 1024, 0xdc00 + (n - 0x10000) mod 1024]
      else [0xFFFD])"

lemma rune_sub32: "c \<le> unat r \<Longrightarrow> c < 2 ^ 32 \<Longrightarrow> unat ((r :: rune) - of_nat c) = unat r - c"
  by (simp add: unat_sub_if' unat_of_nat)

lemma rune_ranges:
  fixes r :: rune
  shows "(0 \<le> sint r \<and> sint r < sint surr1 \<or> sint surr3 \<le> sint r \<and> sint r < sint surrSelf) \<longleftrightarrow> valid_nat (unat r) \<and> unat r < 0x10000"
  "(sint surrSelf \<le> sint r \<and> sint r \<le> sint utf16_maxRune) \<longleftrightarrow> 0x10000 \<le> unat r \<and> unat r \<le> 0x10FFFF"
  "(sint r < sint surrSelf \<or> sint r > sint utf16_maxRune) \<longleftrightarrow> \<not> (0x10000 \<le> unat r \<and> unat r \<le> 0x10FFFF)"
  using rune_lt [of r] by (auto simp: sint_rune utf16_consts valid_nat_def simp del: of_nat_unat)

lemma rune_range_self: "sint (r :: rune) \<ge> sint surrSelf \<longleftrightarrow> 0x10000 \<le> unat r \<and> unat r < 0x80000000"
  using rune_lt [of r] by (auto simp: sint_rune utf16_consts simp del: of_nat_unat)

lemma rune16_cases:
  fixes r :: rune
  obtains (single) "valid_nat (unat r)" "unat r < 0x10000" | (pair) "0x10000 \<le> unat r" "unat r \<le> 0x10FFFF" | (bad) "\<not> valid_nat (unat r)"
proof (cases "unat r < 0x10000")
  case False
  then show ?thesis using that(2,3) by (cases "unat r \<le> 0x10FFFF") (simp_all add: valid_nat_def)
qed (use that in blast)

lemma utf16_EncodeRune_nat:
  assumes "0x10000 \<le> unat r" "unat r \<le> 0x10FFFF"
  shows "unat (fst (utf16_EncodeRune r)) = 0xd800 + (unat r - 0x10000) div 1024"
    "unat (snd (utf16_EncodeRune r)) = 0xdc00 + (unat r - 0x10000) mod 1024"
proof -
  define q where "q = r - surrSelf"
  have q: "unat q = unat r - 0x10000" using rune_sub32 [of "0x10000" r] assms(1) by (simp add: q_def surrSelf_def)
  have s: "signed_drop_bit 10 q = drop_bit 10 q" using q assms by (intro signed_drop_bit_pos) simp
  have m: "(0x3ff :: rune) = mask 10" by (simp add: mask_eq_exp_minus_1)
  have e: "utf16_EncodeRune r = (surr1 + (drop_bit 10 q AND mask 10), surr2 + (q AND mask 10))"
    using assms unfolding utf16_EncodeRune_def rune_ranges Let_def q_def [symmetric] s m by simp
  have d: "unat q div 1024 mod 1024 = unat q div 1024" using q assms by simp
  have "unat q div 1024 < 1024" using q assms by simp
  then show "unat (fst (utf16_EncodeRune r)) = 0xd800 + (unat r - 0x10000) div 1024"
    by (simp add: e unat_word_ariths word_nat surr1_def d q [symmetric])
  have "unat q mod 1024 < 1024" by simp
  then show "unat (snd (utf16_EncodeRune r)) = 0xdc00 + (unat r - 0x10000) mod 1024"
    by (simp add: e unat_word_ariths word_nat surr2_def q [symmetric])
qed

lemma utf16_AppendRune_split: "utf16_AppendRune a r = a @ utf16_enc r"
  by (simp add: utf16_AppendRune_def split: prod.split)

lemma utf16_enc_cases:
  "utf16_enc r =
     (if valid_nat (unat r) \<and> unat r < 0x10000 then [ucast r]
      else if 0x10000 \<le> unat r \<and> unat r \<le> 0x10FFFF then [ucast (fst (utf16_EncodeRune r)), ucast (snd (utf16_EncodeRune r))]
      else [ucast replacementChar])"
  unfolding utf16_AppendRune_def rune_ranges by (simp split: prod.split)

lemma utf16_enc_nat: "map unat (utf16_enc r) = utf16_nat (unat r)"
proof -
  have "(unat r - 0x10000) div 1024 < 1024" if "unat r \<le> 0x10FFFF" using that by simp
  moreover have "(unat r - 0x10000) mod 1024 < 1024" by simp
  ultimately show ?thesis
    by (auto simp: utf16_enc_cases utf16_nat_def valid_nat_def word_nat utf16_EncodeRune_nat replacementChar_def)
qed

lemma utf16_RuneLen_eq: "utf16_RuneLen r = (if ValidRune r then int (length (utf16_enc r)) else - 1)"
  unfolding ValidRune_nat utf16_RuneLen_def rune_ranges utf16_enc_cases by (auto simp: valid_nat_def)

lemma utf16_enc_invalid: "\<not> ValidRune r \<Longrightarrow> utf16_enc r = [ucast replacementChar]"
  unfolding ValidRune_nat utf16_enc_cases by (auto simp: valid_nat_def)

lemma length_utf16_enc: "length (utf16_enc r) = (if valid_nat (unat r) \<and> 0x10000 \<le> unat r then 2 else 1)"
  unfolding utf16_enc_cases by (auto simp: valid_nat_def)

section \<open>Encode\<close>

lemma slice_put_enc:
  "n < length a \<Longrightarrow> slice_put a n v = Inr (a[n := v])" by (simp add: slice_put_def)

lemma utf16_Encode_step:
  assumes "n + length (utf16_enc v) \<le> length a"
  shows "utf16_Encode_loop (v # s) a n =
    utf16_Encode_loop s (take n a @ utf16_enc v @ drop (n + length (utf16_enc v)) a) (n + length (utf16_enc v))"
proof -
  have one: "a[n := x] = take n a @ [x] @ drop (n + 1) a" if "n < length a" for x
    using that by (simp add: upd_conv_take_nth_drop)
  have two: "a[n := x, n + 1 := y] = take n a @ [x, y] @ drop (n + 2) a" if "n + 1 < length a" for x y
    using that one [of x] by (simp add: upd_conv_take_nth_drop nth_append take_Suc_conv_app_nth)
  show ?thesis
  proof (cases v rule: rune16_cases)
    case single
    then have "utf16_enc v = [ucast v]" "utf16_RuneLen v = 1" by (simp_all add: utf16_enc_cases utf16_RuneLen_eq ValidRune_nat)
    then show ?thesis using assms one by (simp add: slice_put_enc)
  next
    case pair
    then have "utf16_enc v = [ucast (fst (utf16_EncodeRune v)), ucast (snd (utf16_EncodeRune v))]" "utf16_RuneLen v = 2"
      by (simp_all add: utf16_enc_cases utf16_RuneLen_eq ValidRune_nat valid_nat_def)
    then show ?thesis using assms two by (simp add: slice_put_enc split: prod.split)
  next
    case bad
    then have "utf16_enc v = [ucast replacementChar]" "utf16_RuneLen v = - 1"
      by (simp_all add: utf16_enc_invalid utf16_RuneLen_eq ValidRune_nat)
    then show ?thesis using assms one by (simp add: slice_put_enc)
  qed
qed

lemma utf16_Encode_loop_eq:
  "n + length (concat (map utf16_enc s)) \<le> length a \<Longrightarrow>
   utf16_Encode_loop s a n =
     Inr (take n a @ concat (map utf16_enc s) @ drop (n + length (concat (map utf16_enc s))) a,
          n + length (concat (map utf16_enc s)))"
proof (induction s arbitrary: a n)
  case (Cons v s)
  then show ?case by (simp add: utf16_Encode_step Cons.IH add_ac del: utf16_Encode_loop.simps)
qed simp

lemma utf16_Encode_size:
  "n + length (concat (map utf16_enc s)) \<le> fold (\<lambda>v n. if sint v \<ge> sint surrSelf then n + 1 else n) s (n + length s)"
proof (induction s arbitrary: n)
  case (Cons v s)
  have "length (utf16_enc v) \<le> (if sint v \<ge> sint surrSelf then 2 else 1)"
    unfolding length_utf16_enc rune_range_self by (auto simp: valid_nat_def)
  then show ?case using Cons.IH [of "n + length (utf16_enc v)"] Cons.IH [of "n + 1"] Cons.IH [of "n + 2"]
    by (auto simp: add_ac)
qed simp

lemma utf16_Encode_eq: "utf16_Encode s = Inr (concat (map utf16_enc s))"
  using utf16_Encode_size [of 0 s] by (simp add: utf16_Encode_def utf16_Encode_loop_eq Let_def)

section \<open>Decode\<close>

text \<open>A valid rune starts no surrogate pair unless it is written as one, and reads back as itself.\<close>

lemma utf16_DecodeRune_nat:
  assumes "0xd800 \<le> unat a" "unat a < 0xdc00" "0xdc00 \<le> unat b" "unat b < 0xe000"
  shows "unat (utf16_DecodeRune a b) = 0x10000 + (unat a - 0xd800) * 1024 + (unat b - 0xdc00)"
proof -
  have u: "unat (a - surr1) = unat a - 0xd800" "unat (b - surr2) = unat b - 0xdc00"
    using rune_sub32 [of "0xd800" a] rune_sub32 [of "0xdc00" b] assms by (simp_all add: surr1_def surr2_def)
  have "push_bit 10 (a - surr1) AND (b - surr2) = 0"
  proof (rule bit_word_eqI)
    fix i
    have "\<not> bit (b - surr2) i" if "10 \<le> i"
    proof -
      have "unat (b - surr2) < 2 ^ i" using u(2) assms power_increasing [OF that, of "2 :: nat"] by simp
      then have "\<not> bit (unat (b - surr2)) i" by (simp add: bit_iff_odd)
      then show ?thesis by (simp add: bit_unsigned_iff)
    qed
    then show "bit (push_bit 10 (a - surr1) AND (b - surr2)) i = bit (0 :: rune) i" by (auto simp: bit_simps)
  qed
  then have "unat (push_bit 10 (a - surr1) OR (b - surr2)) = (unat a - 0xd800) * 1024 + (unat b - 0xdc00)"
    using assms by (simp add: unat_or_disjoint unat_push_bit u)
  moreover have "utf16_DecodeRune a b = (push_bit 10 (a - surr1) OR (b - surr2)) + surrSelf"
    using assms by (simp add: utf16_DecodeRune_def sint_rune utf16_consts del: of_nat_unat)
  ultimately show ?thesis using assms by (simp add: unat_word_ariths surrSelf_def)
qed

lemma unat_u16_rune: "unat (ucast (x :: u16) :: rune) = unat x"
  using unat_lt2p [of x] by (simp add: unat_ucast)

lemma utf16_decode_append: "utf16_decode s (c @ buf) = c @ utf16_decode s buf"
proof (induction s buf arbitrary: c rule: utf16_decode.induct)
  case (2 r s buf)
  show ?case
  proof (cases s)
    case Nil
    then show ?thesis by simp
  next
    case (Cons r' s')
    then show ?thesis using "2.IH" by (simp del: utf16_decode.simps add: utf16_decode.simps(2) [of r])
  qed
qed simp

lemma utf16_decode_buf: "utf16_decode s buf = buf @ utf16_decode s []"
  using utf16_decode_append [of s buf "[]"] by simp

lemma u16_consts: "ucast surr1 = (0xd800 :: u16)" "ucast surr2 = (0xdc00 :: u16)" "ucast surr3 = (0xe000 :: u16)"
  by (simp_all add: utf16_consts)

lemma utf16_Decode_Nil [simp]: "utf16_Decode [] = []" by (simp add: utf16_Decode_def)

lemma utf16_Decode_single:
  "unat r < 0xd800 \<or> 0xe000 \<le> unat r \<Longrightarrow> utf16_Decode (r # s) = ucast r # utf16_Decode s"
  by (simp add: utf16_Decode_def u16_consts word_nat utf16_decode_buf [of s "[_]"])

lemma utf16_Decode_pair:
  "0xd800 \<le> unat a \<Longrightarrow> unat a < 0xdc00 \<Longrightarrow> 0xdc00 \<le> unat b \<Longrightarrow> unat b < 0xe000 \<Longrightarrow>
   utf16_Decode (a # b # s) = utf16_DecodeRune (ucast a) (ucast b) # utf16_Decode s"
  by (simp add: utf16_Decode_def u16_consts word_nat utf16_decode_buf [of s "[_]"])

lemma utf16_Decode_bad:
  assumes "0xd800 \<le> unat r" "unat r < 0xe000"
    and "\<And>b q. s = b # q \<Longrightarrow> unat r < 0xdc00 \<Longrightarrow> \<not> (0xdc00 \<le> unat b \<and> unat b < 0xe000)"
  shows "utf16_Decode (r # s) = RuneError # utf16_Decode s"
  using assms by (auto simp: utf16_Decode_def u16_consts word_nat utf16_decode_buf [of _ "[_]"] replacementChar_def RuneError_def split: list.split)

lemma utf16_Decode_enc: "utf16_Decode (utf16_enc r @ q) = valid_or_error r # utf16_Decode q"
proof -
  show ?thesis
  proof (cases r rule: rune16_cases)
    case single
    have "ucast (ucast r :: u16) = r" using single by (simp add: word_unat_eq_iff word_nat)
    then show ?thesis using single utf16_Decode_single [of "ucast r" q]
      by (auto simp: utf16_enc_cases valid_or_error_def ValidRune_nat valid_nat_def word_nat)
  next
    case pair
    let ?a = "ucast (fst (utf16_EncodeRune r)) :: u16" and ?b = "ucast (snd (utf16_EncodeRune r)) :: u16"
    have d: "(unat r - 0x10000) div 1024 < 1024" "(unat r - 0x10000) mod 1024 < 1024" using pair by simp_all
    have u: "unat ?a = 0xd800 + (unat r - 0x10000) div 1024" "unat ?b = 0xdc00 + (unat r - 0x10000) mod 1024"
      using d by (simp_all add: word_nat utf16_EncodeRune_nat [OF pair])
    have "unat (utf16_DecodeRune (ucast ?a) (ucast ?b)) = unat r"
      using d pair u div_mult_mod_eq [of "unat r - 0x10000" 1024]
      by (subst utf16_DecodeRune_nat) (simp_all only: unat_u16_rune, simp_all)
    then have "utf16_DecodeRune (ucast ?a) (ucast ?b) = r" by (simp only: word_unat_eq_iff)
    then show ?thesis using pair utf16_Decode_pair [of ?a ?b q] u d
      by (simp add: utf16_enc_cases valid_or_error_def ValidRune_nat valid_nat_def)
  next
    case bad
    then show ?thesis using utf16_Decode_single [of "0xFFFD" q]
      by (simp add: utf16_enc_invalid valid_or_error_def ValidRune_nat replacementChar_def RuneError_def)
  qed
qed

lemma utf16_Decode_concat: "utf16_Decode (concat (map utf16_enc s)) = map valid_or_error s"
  by (induction s) (simp_all add: utf16_Decode_enc)


section \<open>Paired surrogates\<close>

text \<open>Every high surrogate is followed by a low one, and every low one preceded by a high one.\<close>

fun surrogates_paired :: "u16 list \<Rightarrow> bool" where
  "surrogates_paired [] \<longleftrightarrow> True"
| "surrogates_paired [a] \<longleftrightarrow> a < 0xd800 \<or> 0xe000 \<le> a"
| "surrogates_paired (a # b # s) \<longleftrightarrow>
     (if 0xd800 \<le> a \<and> a < 0xdc00 then 0xdc00 \<le> b \<and> b < 0xe000 \<and> surrogates_paired s
      else (a < 0xd800 \<or> 0xe000 \<le> a) \<and> surrogates_paired (b # s))"

lemma paired_single: "unat a < 0xd800 \<or> 0xe000 \<le> unat a \<Longrightarrow> surrogates_paired (a # q) = surrogates_paired q"
  by (cases q) (auto simp: word_nat)

lemma utf16_enc_eq:
  assumes "valid_nat n" "r = of_nat n" "map unat u = utf16_nat n"
  shows "utf16_enc r = u"
proof -
  have "map unat (utf16_enc r) = map unat u"
    using assms valid_nat_lt [of n] by (simp add: utf16_enc_nat unat_of_nat)
  then show ?thesis by (rule map_injective) (simp add: inj_def word_unat_eq_iff)
qed

lemma utf16_enc_single: "unat (a :: u16) < 0xd800 \<or> 0xe000 \<le> unat a \<Longrightarrow> utf16_enc (ucast a) = [a]"
  using unat_lt2p [of a]
  by (intro utf16_enc_eq [of "unat a"]) (auto simp: valid_nat_def utf16_nat_def word_unat_eq_iff unat_u16_rune unat_of_nat)

lemma utf16_enc_pair:
  assumes "0xd800 \<le> unat a" "unat a < 0xdc00" "0xdc00 \<le> unat b" "unat b < 0xe000"
  shows "utf16_enc (utf16_DecodeRune (ucast a) (ucast b)) = [a, b]" "ValidRune (utf16_DecodeRune (ucast a) (ucast b))"
proof -
  define n where "n = 0x10000 + (unat a - 0xd800) * 1024 + (unat b - 0xdc00)"
  have u: "unat (utf16_DecodeRune (ucast a) (ucast b)) = n"
    using assms by (subst utf16_DecodeRune_nat) (simp_all add: unat_u16_rune n_def)
  have n: "valid_nat n" using assms by (simp add: valid_nat_def n_def)
  have "n - 0x10000 = (unat b - 0xdc00) + (unat a - 0xd800) * 1024" "unat b - 0xdc00 < 1024"
    using assms by (simp_all add: n_def)
  then have "(n - 0x10000) div 1024 = unat a - 0xd800" "(n - 0x10000) mod 1024 = unat b - 0xdc00" by simp_all
  then have "map unat [a, b] = utf16_nat n" using assms n by (simp add: utf16_nat_def) (simp add: n_def)
  moreover have "utf16_DecodeRune (ucast a) (ucast b) = of_nat n"
    by (simp flip: u)
  ultimately show "utf16_enc (utf16_DecodeRune (ucast a) (ucast b)) = [a, b]" using n utf16_enc_eq by blast
  show "ValidRune (utf16_DecodeRune (ucast a) (ucast b))" using n by (simp add: ValidRune_nat u)
qed

lemma utf16_cases:
  obtains (empty) "u = []"
  | (single) a s where "u = a # s" "unat a < 0xd800 \<or> 0xe000 \<le> unat a"
  | (pair) a b s where "u = a # b # s" "0xd800 \<le> unat a" "unat a < 0xdc00" "0xdc00 \<le> unat b" "unat b < 0xe000"
  | (bad) a s where "u = a # s" "0xd800 \<le> unat a" "unat a < 0xe000"
      "\<And>b q. s = b # q \<Longrightarrow> unat a < 0xdc00 \<Longrightarrow> \<not> (0xdc00 \<le> unat b \<and> unat b < 0xe000)"
proof (cases u)
  case (Cons a s)
  then show ?thesis
    using that(2-4) [of a] by (cases s) (metis list.distinct(1) list.inject linorder_not_less)+
qed (use that(1) in blast)

lemma paired_enc: "surrogates_paired (utf16_enc r @ q) = surrogates_paired q"
proof (cases r rule: rune16_cases)
  case single
  then have "unat (ucast r :: u16) = unat r" by (simp add: unat_ucast)
  then show ?thesis using single paired_single [of "ucast r" q] by (auto simp: utf16_enc_cases valid_nat_def)
next
  case pair
  have d: "(unat r - 0x10000) div 1024 < 1024" "(unat r - 0x10000) mod 1024 < 1024" using pair by simp_all
  then show ?thesis using pair by (simp add: utf16_enc_cases valid_nat_def word_nat utf16_EncodeRune_nat [OF pair])
next
  case bad
  then show ?thesis using paired_single [of "0xFFFD" q] by (simp add: utf16_enc_invalid ValidRune_nat replacementChar_def)
qed

lemma utf16_Decode_valid: "list_all ValidRune (utf16_Decode u)"
proof (induction u rule: length_induct)
  case (1 u)
  show ?case
  proof (cases u rule: utf16_cases)
    case (single a s)
    then have "ValidRune (ucast a)" using unat_lt2p [of a] by (auto simp: ValidRune_nat valid_nat_def unat_u16_rune)
    then show ?thesis using 1 single by (simp add: utf16_Decode_single)
  next
    case (pair a b s)
    then show ?thesis using 1 by (simp add: utf16_Decode_pair utf16_enc_pair)
  next
    case (bad a s)
    then show ?thesis using 1 by (simp add: utf16_Decode_bad)
  qed simp
qed

lemma utf16_Encode_Decode: "concat (map utf16_enc (utf16_Decode u)) = u \<longleftrightarrow> surrogates_paired u"
proof
  have "surrogates_paired (concat (map utf16_enc s))" for s by (induction s) (simp_all add: paired_enc)
  then show "concat (map utf16_enc (utf16_Decode u)) = u \<Longrightarrow> surrogates_paired u" by metis
next
  show "surrogates_paired u \<Longrightarrow> concat (map utf16_enc (utf16_Decode u)) = u"
  proof (induction u rule: length_induct)
    case (1 u)
    show ?case
    proof (cases u rule: utf16_cases)
      case (single a s)
      then show ?thesis using 1 by (simp add: utf16_Decode_single utf16_enc_single paired_single)
    next
      case (pair a b s)
      then show ?thesis using 1 by (simp add: utf16_Decode_pair utf16_enc_pair word_nat)
    next
      case (bad a s)
      then show ?thesis using "1.prems" by (cases s) (auto simp: word_nat split: if_splits)
    qed simp
  qed
qed

section \<open>Property\<close>

text \<open>
  C14: UTF-16. \<open>Encode\<close> never writes outside the slice it allocates; its result is what
  \<open>AppendRune\<close> gives rune by rune, and \<open>Decode\<close> reads it back, with every rune that is not a valid
  code point replaced by U+FFFD. \<open>RuneLen\<close> is the number of code units written, -1 for the runes
  that have no encoding. \<open>Decode\<close> yields valid runes only, and re-encoding what it yields
  restores the code units exactly when their surrogates are properly paired.
\<close>

theorem utf16_roundtrip:
  "utf16_Encode s = Inr (fold (\<lambda>r a. utf16_AppendRune a r) s []) \<and>
   utf16_Decode (fold (\<lambda>r a. utf16_AppendRune a r) s []) = map (\<lambda>r. if ValidRune r then r else RuneError) s \<and>
   utf16_RuneLen r = (if ValidRune r then int (length (utf16_AppendRune a r)) - int (length a) else - 1) \<and>
   list_all ValidRune (utf16_Decode u) \<and>
   (utf16_Encode (utf16_Decode u) = Inr u \<longleftrightarrow> surrogates_paired u)"
proof -
  have "fold (\<lambda>r a. utf16_AppendRune a r) s a = a @ concat (map utf16_enc s)" for a
  proof (induction s arbitrary: a)
    case (Cons r s)
    show ?case using Cons.IH [of "utf16_AppendRune a r"] utf16_AppendRune_split [of a r] by simp
  qed simp
  moreover have "int (length (utf16_AppendRune a r)) - int (length a) = int (length (utf16_enc r))"
    using utf16_AppendRune_split [of a r] by simp
  ultimately show ?thesis
    by (simp add: utf16_Encode_eq utf16_Decode_concat utf16_RuneLen_eq utf16_Decode_valid utf16_Encode_Decode valid_or_error_def)
qed

end
