(* ===== verification/Sort_Model.thy ===== *)
theory Sort_Model
  imports Bits "HOL-Library.Signed_Division"
begin

unbundle bit_operations_syntax

text \<open>
  Package \<open>sort\<close>: the routines of \<open>src/sort/zsortinterface.go\<close> and \<open>src/sort/sort.go\<close>, and the copies
  of the same generated code that package \<open>slices\<close> uses on slices (\<open>src/slices/zsortanyfunc.go\<close>,
  \<open>src/slices/sort.go\<close>).

  A value of Go's \<open>sort.Interface\<close> is a record of its three methods over a state of any type; a
  method that changes the collection returns the new state. Indices are Go \<open>int\<close>s, modelled by
  unbounded integers (a length is far below \<open>2^62\<close>, so no index expression of this code wraps);
  the random generator of \<open>breakPatterns\<close> works on 64-bit words, as in the code. Each \<open>for\<close> loop is a
  recursive function of its loop variables.
\<close>

section \<open>The interface\<close>

record 's Interface =
  If_Len :: "'s \<Rightarrow> int"
  If_Less :: "'s \<Rightarrow> int \<Rightarrow> int \<Rightarrow> bool"
  If_Swap :: "'s \<Rightarrow> int \<Rightarrow> int \<Rightarrow> 's"

datatype sortedHint = unknownHint | increasingHint | decreasingHint

definition xorshift_Next :: "u64 \<Rightarrow> u64" where
  "xorshift_Next r0 =
     (let r1 = r0 XOR push_bit 13 r0;
          r2 = r1 XOR drop_bit 7 r1;
          r3 = r2 XOR push_bit 17 r2
      in r3)"

definition nextPowerOfTwo :: "int \<Rightarrow> u64" where
  "nextPowerOfTwo len = (let shift = Len (word_of_int len) in push_bit shift 1)"

section \<open>Insertion sort and heap sort\<close>

function insertionSort_shift :: "('s, 'z) Interface_scheme \<Rightarrow> 's \<Rightarrow> int \<Rightarrow> int \<Rightarrow> 's" where
  "insertionSort_shift D s a j =
     (if j > a \<and> If_Less D s j (j - 1) then insertionSort_shift D (If_Swap D s j (j - 1)) a (j - 1) else s)"
  by pat_completeness auto
termination by (relation "measure (\<lambda>(_, _, a, j). nat (j - a))") auto

declare insertionSort_shift.simps [simp del]

function insertionSort_loop :: "('s, 'z) Interface_scheme \<Rightarrow> 's \<Rightarrow> int \<Rightarrow> int \<Rightarrow> int \<Rightarrow> 's" where
  "insertionSort_loop D s a b i =
     (if i < b then insertionSort_loop D (insertionSort_shift D s a i) a b (i + 1) else s)"
  by pat_completeness auto
termination by (relation "measure (\<lambda>(_, _, _, b, i). nat (b - i))") auto

declare insertionSort_loop.simps [simp del]

definition insertionSort :: "('s, 'z) Interface_scheme \<Rightarrow> 's \<Rightarrow> int \<Rightarrow> int \<Rightarrow> 's" where
  "insertionSort D s a b = insertionSort_loop D s a b (a + 1)"

text \<open>
  The loop of \<open>siftDown\<close>. A negative root never occurs; the guard makes the loop's measure total.
\<close>

function siftDown :: "('s, 'z) Interface_scheme \<Rightarrow> 's \<Rightarrow> int \<Rightarrow> int \<Rightarrow> int \<Rightarrow> 's" where
  "siftDown D s root hi first =
     (let child = 2 * root + 1 in
      if child \<ge> hi \<or> root < 0 then s
      else
        let child = (if child + 1 < hi \<and> If_Less D s (first + child) (first + child + 1) then child + 1 else child) in
        if \<not> If_Less D s (first + root) (first + child) then s
        else siftDown D (If_Swap D s (first + root) (first + child)) child hi first)"
  by pat_completeness auto
termination by (relation "measure (\<lambda>(_, _, root, hi, _). nat (hi - root))") (auto split: if_splits)

declare siftDown.simps [simp del]

function heapSort_build :: "('s, 'z) Interface_scheme \<Rightarrow> 's \<Rightarrow> int \<Rightarrow> int \<Rightarrow> int \<Rightarrow> 's" where
  "heapSort_build D s hi first i =
     (if i \<ge> 0 then heapSort_build D (siftDown D s i hi first) hi first (i - 1) else s)"
  by pat_completeness auto
termination by (relation "measure (\<lambda>(_, _, _, _, i). nat (i + 1))") auto

declare heapSort_build.simps [simp del]

function heapSort_pop :: "('s, 'z) Interface_scheme \<Rightarrow> 's \<Rightarrow> int \<Rightarrow> int \<Rightarrow> int \<Rightarrow> 's" where
  "heapSort_pop D s lo first i =
     (if i \<ge> 0 then heapSort_pop D (siftDown D (If_Swap D s first (first + i)) lo i first) lo first (i - 1) else s)"
  by pat_completeness auto
termination by (relation "measure (\<lambda>(_, _, _, _, i). nat (i + 1))") auto

declare heapSort_pop.simps [simp del]

definition heapSort :: "('s, 'z) Interface_scheme \<Rightarrow> 's \<Rightarrow> int \<Rightarrow> int \<Rightarrow> 's" where
  "heapSort D s a b =
     (let first = a; lo = 0; hi = b - a;
          s = heapSort_build D s hi first ((hi - 1) sdiv 2)
      in heapSort_pop D s lo first (hi - 1))"

section \<open>The parts of pdqsort\<close>

function partition_up :: "('s, 'z) Interface_scheme \<Rightarrow> 's \<Rightarrow> int \<Rightarrow> int \<Rightarrow> int \<Rightarrow> int" where
  "partition_up D s a i j = (if i \<le> j \<and> If_Less D s i a then partition_up D s a (i + 1) j else i)"
  by pat_completeness auto
termination by (relation "measure (\<lambda>(_, _, _, i, j). nat (j + 1 - i))") auto

declare partition_up.simps [simp del]

function partition_down :: "('s, 'z) Interface_scheme \<Rightarrow> 's \<Rightarrow> int \<Rightarrow> int \<Rightarrow> int \<Rightarrow> int" where
  "partition_down D s a i j = (if i \<le> j \<and> \<not> If_Less D s j a then partition_down D s a i (j - 1) else j)"
  by pat_completeness auto
termination by (relation "measure (\<lambda>(_, _, _, i, j). nat (j + 1 - i))") auto

declare partition_down.simps [simp del]

lemma partition_up_ge: "i \<le> partition_up D s a i j"
  by (induction D s a i j rule: partition_up.induct) (subst partition_up.simps, force)

lemma partition_up_le: "i \<le> j + 1 \<Longrightarrow> partition_up D s a i j \<le> j + 1"
  by (induction D s a i j rule: partition_up.induct) (subst partition_up.simps, force)

lemma partition_down_le: "partition_down D s a i j \<le> j"
  by (induction D s a i j rule: partition_down.induct) (subst partition_down.simps, force)

lemma partition_down_ge: "i - 1 \<le> j \<Longrightarrow> i - 1 \<le> partition_down D s a i j"
  by (induction D s a i j rule: partition_down.induct) (subst partition_down.simps, force)

lemma partition_up_stop: "partition_up D s a i j \<le> j \<Longrightarrow> \<not> If_Less D s (partition_up D s a i j) a"
  by (induction D s a i j rule: partition_up.induct) (metis partition_up.simps)

lemma partition_down_stop: "i \<le> partition_down D s a i j \<Longrightarrow> If_Less D s (partition_down D s a i j) a"
  by (induction D s a i j rule: partition_down.induct) (metis partition_down.simps)

text \<open>Where the scans meet neither stops on the other's element.\<close>

lemma partition_scans_cross:
  fixes D :: "('s, 'z) Interface_scheme"
  assumes "i - 1 \<le> j"
  shows "i \<le> partition_up D s a i j" "partition_up D s a i j \<le> j + 1"
    "partition_up D s a i j - 1 \<le> partition_down D s a (partition_up D s a i j) j"
    "partition_down D s a (partition_up D s a i j) j \<le> j"
    "partition_up D s a i j \<noteq> partition_down D s a (partition_up D s a i j) j"
proof -
  let ?i = "partition_up D s a i j"
  show b: "i \<le> ?i" "?i \<le> j + 1" "partition_down D s a ?i j \<le> j"
    using assms(1) partition_up_ge [of i D s a j] partition_up_le [of i j D s a] partition_down_le [of D s a ?i j]
    by auto
  then show "?i - 1 \<le> partition_down D s a ?i j" using partition_down_ge [of ?i j D s a] by simp
  show "?i \<noteq> partition_down D s a ?i j"
    using partition_up_stop [of D s a i j] partition_down_stop [of ?i D s a j] b by auto
qed

text \<open>The second loop of \<open>partition\<close>: the state and the index \<open>j\<close> at its \<open>break\<close>.\<close>

function partition_loop :: "('s, 'z) Interface_scheme \<Rightarrow> 's \<Rightarrow> int \<Rightarrow> int \<Rightarrow> int \<Rightarrow> 's \<times> int" where
  "partition_loop D s a i j =
     (let i = partition_up D s a i j; j = partition_down D s a i j in
      if i > j then (s, j) else partition_loop D (If_Swap D s i j) a (i + 1) (j - 1))"
  by pat_completeness auto
termination
proof (relation "measure (\<lambda>(_, _, _, i, j). nat (j + 1 - i))", goal_cases)
  case (2 D s a i j i' j')
  then show ?case using partition_up_ge [of i D s a j] partition_down_le [of D s a i' j] by simp
qed simp

declare partition_loop.simps [simp del]

definition partition_range :: "('s, 'z) Interface_scheme \<Rightarrow> 's \<Rightarrow> int \<Rightarrow> int \<Rightarrow> int \<Rightarrow> 's \<times> int \<times> bool" where
  "partition_range D s a b pivot =
     (let s = If_Swap D s a pivot;
          i = a + 1; j = b - 1;
          i = partition_up D s a i j;
          j = partition_down D s a i j in
      if i > j then (If_Swap D s j a, j, True)
      else
        let s = If_Swap D s i j; (s, j) = partition_loop D s a (i + 1) (j - 1)
        in (If_Swap D s j a, j, False))"

function partitionEqual_up :: "('s, 'z) Interface_scheme \<Rightarrow> 's \<Rightarrow> int \<Rightarrow> int \<Rightarrow> int \<Rightarrow> int" where
  "partitionEqual_up D s a i j = (if i \<le> j \<and> \<not> If_Less D s a i then partitionEqual_up D s a (i + 1) j else i)"
  by pat_completeness auto
termination by (relation "measure (\<lambda>(_, _, _, i, j). nat (j + 1 - i))") auto

declare partitionEqual_up.simps [simp del]

function partitionEqual_down :: "('s, 'z) Interface_scheme \<Rightarrow> 's \<Rightarrow> int \<Rightarrow> int \<Rightarrow> int \<Rightarrow> int" where
  "partitionEqual_down D s a i j = (if i \<le> j \<and> If_Less D s a j then partitionEqual_down D s a i (j - 1) else j)"
  by pat_completeness auto
termination by (relation "measure (\<lambda>(_, _, _, i, j). nat (j + 1 - i))") auto

declare partitionEqual_down.simps [simp del]

lemma partitionEqual_up_ge: "i \<le> partitionEqual_up D s a i j"
  by (induction D s a i j rule: partitionEqual_up.induct) (subst partitionEqual_up.simps, force)

lemma partitionEqual_up_le: "i \<le> j + 1 \<Longrightarrow> partitionEqual_up D s a i j \<le> j + 1"
  by (induction D s a i j rule: partitionEqual_up.induct) (subst partitionEqual_up.simps, force)

lemma partitionEqual_down_le: "partitionEqual_down D s a i j \<le> j"
  by (induction D s a i j rule: partitionEqual_down.induct) (subst partitionEqual_down.simps, force)

lemma partitionEqual_down_ge: "i - 1 \<le> j \<Longrightarrow> i - 1 \<le> partitionEqual_down D s a i j"
  by (induction D s a i j rule: partitionEqual_down.induct) (subst partitionEqual_down.simps, force)

lemma partitionEqual_up_stop: "partitionEqual_up D s a i j \<le> j \<Longrightarrow> If_Less D s a (partitionEqual_up D s a i j)"
  by (induction D s a i j rule: partitionEqual_up.induct) (metis partitionEqual_up.simps)

lemma partitionEqual_down_stop: "i \<le> partitionEqual_down D s a i j \<Longrightarrow> \<not> If_Less D s a (partitionEqual_down D s a i j)"
  by (induction D s a i j rule: partitionEqual_down.induct) (metis partitionEqual_down.simps)

lemma partitionEqual_scans_cross:
  fixes D :: "('s, 'z) Interface_scheme"
  assumes "i - 1 \<le> j"
  shows "i \<le> partitionEqual_up D s a i j" "partitionEqual_up D s a i j \<le> j + 1"
    "partitionEqual_up D s a i j - 1 \<le> partitionEqual_down D s a (partitionEqual_up D s a i j) j"
    "partitionEqual_down D s a (partitionEqual_up D s a i j) j \<le> j"
    "partitionEqual_up D s a i j \<noteq> partitionEqual_down D s a (partitionEqual_up D s a i j) j"
proof -
  let ?i = "partitionEqual_up D s a i j"
  show b: "i \<le> ?i" "?i \<le> j + 1" "partitionEqual_down D s a ?i j \<le> j"
    using assms(1) partitionEqual_up_ge [of i D s a j] partitionEqual_up_le [of i j D s a] partitionEqual_down_le [of D s a ?i j]
    by auto
  then show "?i - 1 \<le> partitionEqual_down D s a ?i j" using partitionEqual_down_ge [of ?i j D s a] by simp
  show "?i \<noteq> partitionEqual_down D s a ?i j"
    using partitionEqual_up_stop [of D s a i j] partitionEqual_down_stop [of ?i D s a j] b by auto
qed

function partitionEqual_loop :: "('s, 'z) Interface_scheme \<Rightarrow> 's \<Rightarrow> int \<Rightarrow> int \<Rightarrow> int \<Rightarrow> 's \<times> int" where
  "partitionEqual_loop D s a i j =
     (let i = partitionEqual_up D s a i j; j = partitionEqual_down D s a i j in
      if i > j then (s, i) else partitionEqual_loop D (If_Swap D s i j) a (i + 1) (j - 1))"
  by pat_completeness auto
termination
proof (relation "measure (\<lambda>(_, _, _, i, j). nat (j + 1 - i))", goal_cases)
  case (2 D s a i j i' j')
  then show ?case using partitionEqual_up_ge [of i D s a j] partitionEqual_down_le [of D s a i' j] by simp
qed simp

declare partitionEqual_loop.simps [simp del]

definition partitionEqual :: "('s, 'z) Interface_scheme \<Rightarrow> 's \<Rightarrow> int \<Rightarrow> int \<Rightarrow> int \<Rightarrow> 's \<times> int" where
  "partitionEqual D s a b pivot =
     (let s = If_Swap D s a pivot; i = a + 1; j = b - 1 in partitionEqual_loop D s a i j)"

text \<open>The loops of \<open>partialInsertionSort\<close>: skipping ordered pairs, and the two shifts.\<close>

function partial_skip :: "('s, 'z) Interface_scheme \<Rightarrow> 's \<Rightarrow> int \<Rightarrow> int \<Rightarrow> int" where
  "partial_skip D s b i = (if i < b \<and> \<not> If_Less D s i (i - 1) then partial_skip D s b (i + 1) else i)"
  by pat_completeness auto
termination by (relation "measure (\<lambda>(_, _, b, i). nat (b - i))") auto

declare partial_skip.simps [simp del]

function partial_shift_left :: "('s, 'z) Interface_scheme \<Rightarrow> 's \<Rightarrow> int \<Rightarrow> 's" where
  "partial_shift_left D s j =
     (if j \<ge> 1 then
        if \<not> If_Less D s j (j - 1) then s else partial_shift_left D (If_Swap D s j (j - 1)) (j - 1)
      else s)"
  by pat_completeness auto
termination by (relation "measure (\<lambda>(_, _, j). nat j)") auto

declare partial_shift_left.simps [simp del]

function partial_shift_right :: "('s, 'z) Interface_scheme \<Rightarrow> 's \<Rightarrow> int \<Rightarrow> int \<Rightarrow> 's" where
  "partial_shift_right D s b j =
     (if j < b then
        if \<not> If_Less D s j (j - 1) then s else partial_shift_right D (If_Swap D s j (j - 1)) b (j + 1)
      else s)"
  by pat_completeness auto
termination by (relation "measure (\<lambda>(_, _, b, j). nat (b - j))") auto

declare partial_shift_right.simps [simp del]

function partial_loop :: "('s, 'z) Interface_scheme \<Rightarrow> 's \<Rightarrow> int \<Rightarrow> int \<Rightarrow> int \<Rightarrow> int \<Rightarrow> 's \<times> bool" where
  "partial_loop D s a b i j =
     (if j < 5 then
        let i = partial_skip D s b i in
        if i = b then (s, True)
        else if b - a < 50 then (s, False)
        else
          let s = If_Swap D s i (i - 1);
              s = (if i - a \<ge> 2 then partial_shift_left D s (i - 1) else s);
              s = (if b - i \<ge> 2 then partial_shift_right D s b (i + 1) else s)
          in partial_loop D s a b i (j + 1)
      else (s, False))"
  by pat_completeness auto
termination by (relation "measure (\<lambda>(_, _, _, _, _, j). nat (5 - j))") auto

declare partial_loop.simps [simp del]

definition partialInsertionSort :: "('s, 'z) Interface_scheme \<Rightarrow> 's \<Rightarrow> int \<Rightarrow> int \<Rightarrow> 's \<times> bool" where
  "partialInsertionSort D s a b = partial_loop D s a b (a + 1) 0"

function breakPatterns_loop ::
    "('s, 'z) Interface_scheme \<Rightarrow> 's \<Rightarrow> int \<Rightarrow> int \<Rightarrow> u64 \<Rightarrow> u64 \<Rightarrow> int \<Rightarrow> int \<Rightarrow> 's" where
  "breakPatterns_loop D s a len random modulus idx final =
     (if idx \<le> final then
        let random = xorshift_Next random;
            other = uint (random AND (modulus - 1));
            other = (if other \<ge> len then other - len else other)
        in breakPatterns_loop D (If_Swap D s idx (a + other)) a len random modulus (idx + 1) final
      else s)"
  by pat_completeness auto
termination by (relation "measure (\<lambda>(_, _, _, _, _, _, idx, final). nat (final + 1 - idx))") auto

declare breakPatterns_loop.simps [simp del]

definition breakPatterns :: "('s, 'z) Interface_scheme \<Rightarrow> 's \<Rightarrow> int \<Rightarrow> int \<Rightarrow> 's" where
  "breakPatterns D s a b =
     (let len = b - a in
      if len \<ge> 8 then
        let random = word_of_int len; modulus = nextPowerOfTwo len
        in breakPatterns_loop D s a len random modulus
             (a + (len div 4) * 2 - 1) (a + (len div 4) * 2 + 1)
      else s)"

definition order2 :: "('s, 'z) Interface_scheme \<Rightarrow> 's \<Rightarrow> int \<Rightarrow> int \<Rightarrow> int \<Rightarrow> int \<times> int \<times> int" where
  "order2 D s a b swaps = (if If_Less D s b a then (b, a, swaps + 1) else (a, b, swaps))"

definition median :: "('s, 'z) Interface_scheme \<Rightarrow> 's \<Rightarrow> int \<Rightarrow> int \<Rightarrow> int \<Rightarrow> int \<Rightarrow> int \<times> int" where
  "median D s a b c swaps =
     (let (a, b, swaps) = order2 D s a b swaps;
          (b, c, swaps) = order2 D s b c swaps;
          (a, b, swaps) = order2 D s a b swaps
      in (b, swaps))"

definition medianAdjacent :: "('s, 'z) Interface_scheme \<Rightarrow> 's \<Rightarrow> int \<Rightarrow> int \<Rightarrow> int \<times> int" where
  "medianAdjacent D s a swaps = median D s (a - 1) a (a + 1) swaps"

definition choosePivot :: "('s, 'z) Interface_scheme \<Rightarrow> 's \<Rightarrow> int \<Rightarrow> int \<Rightarrow> int \<times> sortedHint" where
  "choosePivot D s a b =
     (let l = b - a; swaps = 0;
          i = a + l div 4 * 1;
          j = a + l div 4 * 2;
          k = a + l div 4 * 3;
          (j, swaps) =
            (if l \<ge> 8 then
               let (i, j, k, swaps) =
                     (if l \<ge> 50 then
                        let (i, swaps) = medianAdjacent D s i swaps;
                            (j, swaps) = medianAdjacent D s j swaps;
                            (k, swaps) = medianAdjacent D s k swaps
                        in (i, j, k, swaps)
                      else (i, j, k, swaps))
               in median D s i j k swaps
             else (j, swaps))
      in if swaps = 0 then (j, increasingHint)
         else if swaps = 4 * 3 then (j, decreasingHint)
         else (j, unknownHint))"

function reverseRange_loop :: "('s, 'z) Interface_scheme \<Rightarrow> 's \<Rightarrow> int \<Rightarrow> int \<Rightarrow> 's" where
  "reverseRange_loop D s i j = (if i < j then reverseRange_loop D (If_Swap D s i j) (i + 1) (j - 1) else s)"
  by pat_completeness auto
termination by (relation "measure (\<lambda>(_, _, i, j). nat (j - i))") auto

declare reverseRange_loop.simps [simp del]

definition reverseRange :: "('s, 'z) Interface_scheme \<Rightarrow> 's \<Rightarrow> int \<Rightarrow> int \<Rightarrow> 's" where
  "reverseRange D s a b = reverseRange_loop D s a (b - 1)"

section \<open>pdqsort\<close>

lemma partition_loop_bounds:
  "i - 1 \<le> j \<Longrightarrow> i - 1 \<le> snd (partition_loop D s a i j) \<and> snd (partition_loop D s a i j) \<le> j"
proof (induction D s a i j rule: partition_loop.induct)
  case (1 D s a i j)
  let ?i = "partition_up D s a i j"
  let ?j = "partition_down D s a ?i j"
  note b = partition_scans_cross [OF 1(2), of D s a]
  show ?case
  proof (cases "?i > ?j")
    case True then show ?thesis using b by (simp add: partition_loop.simps [of D s a i j])
  next
    case False
    then show ?thesis using 1(1) [OF refl refl False] b by (simp add: partition_loop.simps [of D s a i j] Let_def)
  qed
qed

lemma partitionEqual_loop_bounds:
  "i - 1 \<le> j \<Longrightarrow> i \<le> snd (partitionEqual_loop D s a i j) \<and> snd (partitionEqual_loop D s a i j) \<le> j + 1"
proof (induction D s a i j rule: partitionEqual_loop.induct)
  case (1 D s a i j)
  let ?i = "partitionEqual_up D s a i j"
  let ?j = "partitionEqual_down D s a ?i j"
  note b = partitionEqual_scans_cross [OF 1(2), of D s a]
  show ?case
  proof (cases "?i > ?j")
    case True then show ?thesis using b by (simp add: partitionEqual_loop.simps [of D s a i j])
  next
    case False
    then show ?thesis using 1(1) [OF refl refl False] b
      by (simp add: partitionEqual_loop.simps [of D s a i j] Let_def)
  qed
qed

lemma partition_range_bounds:
  assumes "a < b" "partition_range D s a b pivot = (s', mid, ap)"
  shows "a \<le> mid" "mid < b"
proof -
  let ?s = "If_Swap D s a pivot"
  let ?i = "partition_up D ?s a (a + 1) (b - 1)"
  let ?j = "partition_down D ?s a ?i (b - 1)"
  have "a + 1 - 1 \<le> b - 1" using assms(1) by simp
  note b = partition_scans_cross [OF this, of D ?s a]
  have "a \<le> mid \<and> mid < b"
  proof (cases "?i > ?j")
    case True then show ?thesis using assms(2) b by (auto simp: partition_range_def Let_def)
  next
    case False
    then show ?thesis
      using assms(2) b partition_loop_bounds [of "?i + 1" "?j - 1" D "If_Swap D ?s ?i ?j" a]
      by (auto simp: partition_range_def Let_def split: prod.splits)
  qed
  then show "a \<le> mid" "mid < b" by auto
qed

lemma partitionEqual_bounds:
  assumes "a < b" "partitionEqual D s a b pivot = (s', mid)"
  shows "a < mid" "mid \<le> b"
  using assms partitionEqual_loop_bounds [of "a + 1" "b - 1" D "If_Swap D s a pivot" a]
  by (simp_all add: partitionEqual_def Let_def)

function pdqsort_loop ::
    "('s, 'z) Interface_scheme \<Rightarrow> 's \<Rightarrow> int \<Rightarrow> int \<Rightarrow> int \<Rightarrow> bool \<Rightarrow> bool \<Rightarrow> 's" where
  "pdqsort_loop D s a b limit wasBalanced wasPartitioned =
     (let len = b - a in
      if len \<le> 12 then insertionSort D s a b
      else if limit = 0 then heapSort D s a b
      else
        let (s, limit) = (if \<not> wasBalanced then (breakPatterns D s a b, limit - 1) else (s, limit));
            (pivot, hint) = choosePivot D s a b;
            (s, pivot, hint) =
              (if hint = decreasingHint then (reverseRange D s a b, (b - 1) - (pivot - a), increasingHint)
               else (s, pivot, hint));
            (s, done) =
              (if wasBalanced \<and> wasPartitioned \<and> hint = increasingHint then partialInsertionSort D s a b
               else (s, False)) in
        if done then s
        else if a > 0 \<and> \<not> If_Less D s (a - 1) pivot then
          let (s, mid) = partitionEqual D s a b pivot
          in pdqsort_loop D s mid b limit wasBalanced wasPartitioned
        else
          let (s, mid, alreadyPartitioned) = partition_range D s a b pivot;
              leftLen = mid - a; rightLen = b - mid; balanceThreshold = len div 8 in
          if leftLen < rightLen then
            pdqsort_loop D (pdqsort_loop D s a mid limit True True) (mid + 1) b limit
              (leftLen \<ge> balanceThreshold) alreadyPartitioned
          else
            pdqsort_loop D (pdqsort_loop D s (mid + 1) b limit True True) a mid limit
              (rightLen \<ge> balanceThreshold) alreadyPartitioned)"
  by pat_completeness auto
termination
  apply (relation "measure (\<lambda>(_, _, a, b, _). nat (b - a))")
      apply simp
  subgoal premises p
    using p(1,2) partitionEqual_bounds [of _ _ _ _ _, OF _ p(15) [symmetric, unfolded p(16) [symmetric]]] by simp
  subgoal premises p
    using p(1,2) partition_range_bounds [of _ _ _ _ _, OF _ p(15) [symmetric, unfolded p(16,17) [symmetric]]] by simp
  subgoal premises p
    using p(1,2) partition_range_bounds [of _ _ _ _ _, OF _ p(15) [symmetric, unfolded p(16,17) [symmetric]]] by simp
  subgoal premises p
    using p(1,2) partition_range_bounds [of _ _ _ _ _, OF _ p(15) [symmetric, unfolded p(16,17) [symmetric]]] by simp
  subgoal premises p
    using p(1,2) partition_range_bounds [of _ _ _ _ _, OF _ p(15) [symmetric, unfolded p(16,17) [symmetric]]] by simp
  done

declare pdqsort_loop.simps [simp del]

definition pdqsort :: "('s, 'z) Interface_scheme \<Rightarrow> 's \<Rightarrow> int \<Rightarrow> int \<Rightarrow> int \<Rightarrow> 's" where
  "pdqsort D s a b limit = pdqsort_loop D s a b limit True True"

section \<open>Stable sorting\<close>

function swapRange_loop :: "('s, 'z) Interface_scheme \<Rightarrow> 's \<Rightarrow> int \<Rightarrow> int \<Rightarrow> int \<Rightarrow> int \<Rightarrow> 's" where
  "swapRange_loop D s a b n i =
     (if i < n then swapRange_loop D (If_Swap D s (a + i) (b + i)) a b n (i + 1) else s)"
  by pat_completeness auto
termination by (relation "measure (\<lambda>(_, _, _, _, n, i). nat (n - i))") auto

declare swapRange_loop.simps [simp del]

definition swapRange :: "('s, 'z) Interface_scheme \<Rightarrow> 's \<Rightarrow> int \<Rightarrow> int \<Rightarrow> int \<Rightarrow> 's" where
  "swapRange D s a b n = swapRange_loop D s a b n 0"

text \<open>
  The loop of \<open>rotate\<close> ends only for positive block lengths (the code assumes \<open>a < m && m < b\<close>):
  with a zero or negative one it would subtract for ever, so the result is then \<open>None\<close>.
\<close>

function rotate_loop :: "('s, 'z) Interface_scheme \<Rightarrow> 's \<Rightarrow> int \<Rightarrow> int \<Rightarrow> int \<Rightarrow> ('s \<times> int) option" where
  "rotate_loop D s m i j =
     (if i \<noteq> j then
        if i \<le> 0 \<or> j \<le> 0 then None
        else if i > j then rotate_loop D (swapRange D s (m - i) m j) m (i - j) j
        else rotate_loop D (swapRange D s (m - i) (m + j - i) i) m i (j - i)
      else Some (s, i))"
  by pat_completeness auto
termination by (relation "measure (\<lambda>(_, _, _, i, j). nat (i + j))") auto

declare rotate_loop.simps [simp del]

definition rotate_blocks :: "('s, 'z) Interface_scheme \<Rightarrow> 's \<Rightarrow> int \<Rightarrow> int \<Rightarrow> int \<Rightarrow> 's option" where
  "rotate_blocks D s a m b =
     (let i = m - a; j = b - m in
      case rotate_loop D s m i j of
        None \<Rightarrow> None
      | Some (s, i) \<Rightarrow> Some (swapRange D s (m - i) m i))"

text \<open>The three binary searches of \<open>symMerge\<close>: the predicate says whether to go right.\<close>

function bisect :: "(int \<Rightarrow> bool) \<Rightarrow> int \<Rightarrow> int \<Rightarrow> int" where
  "bisect right i j =
     (if i < j then
        let h = (i + j) div 2 in if right h then bisect right (h + 1) j else bisect right i h
      else i)"
  by pat_completeness auto
termination by (relation "measure (\<lambda>(_, i, j). nat (j - i))") auto

declare bisect.simps [simp del]

lemma bisect_bounds: "i \<le> j \<Longrightarrow> i \<le> bisect P i j \<and> bisect P i j \<le> j"
proof (induction P i j rule: bisect.induct)
  case (1 P i j)
  show ?case
  proof (cases "i < j")
    case True
    then have "i \<le> (i + j) div 2" "(i + j) div 2 < j" by auto
    then show ?thesis using 1 True by (simp add: bisect.simps [of P i j] Let_def) force
  qed (use 1 in \<open>simp add: bisect.simps [of P j j]\<close>)
qed

function symMerge_up :: "('s, 'z) Interface_scheme \<Rightarrow> 's \<Rightarrow> int \<Rightarrow> int \<Rightarrow> 's" where
  "symMerge_up D s i k = (if k < i - 1 then symMerge_up D (If_Swap D s k (k + 1)) i (k + 1) else s)"
  by pat_completeness auto
termination by (relation "measure (\<lambda>(_, _, i, k). nat (i - k))") auto

function symMerge_down :: "('s, 'z) Interface_scheme \<Rightarrow> 's \<Rightarrow> int \<Rightarrow> int \<Rightarrow> 's" where
  "symMerge_down D s i k = (if k > i then symMerge_down D (If_Swap D s k (k - 1)) i (k - 1) else s)"
  by pat_completeness auto
termination by (relation "measure (\<lambda>(_, _, i, k). nat (k - i))") auto

declare symMerge_up.simps [simp del] symMerge_down.simps [simp del]

function symMerge :: "('s, 'z) Interface_scheme \<Rightarrow> 's \<Rightarrow> int \<Rightarrow> int \<Rightarrow> int \<Rightarrow> 's option" where
  "symMerge D s a m b =
     (if m - a = 1 then
        let i = bisect (\<lambda>h. If_Less D s h a) m b in Some (symMerge_up D s i a)
      else if b - m = 1 then
        let i = bisect (\<lambda>h. \<not> If_Less D s m h) a m in Some (symMerge_down D s i m)
      else
        let mid = (a + b) div 2;
            n = mid + m;
            (start, r) = (if m > mid then (n - b, mid) else (a, m));
            p = n - 1;
            start = bisect (\<lambda>c. \<not> If_Less D s (p - c) c) start r;
            end = n - start in
        case (if start < m \<and> m < end then rotate_blocks D s start m end else Some s) of
          None \<Rightarrow> None
        | Some s \<Rightarrow>
            (case (if a < start \<and> start < mid then symMerge D s a start mid else Some s) of
               None \<Rightarrow> None
             | Some s \<Rightarrow> if mid < end \<and> end < b then symMerge D s mid end b else Some s))"
  by pat_completeness auto
termination
  by (relation "measure (\<lambda>(_, _, a, m, b). nat (b - a))") auto

declare symMerge.simps [simp del]

function stable_blocks :: "('s, 'z) Interface_scheme \<Rightarrow> 's \<Rightarrow> int \<Rightarrow> int \<Rightarrow> int \<Rightarrow> int \<Rightarrow> 's" where
  "stable_blocks D s blockSize n a b =
     (if b \<le> n \<and> blockSize > 0 then stable_blocks D (insertionSort D s a b) blockSize n b (b + blockSize)
      else insertionSort D s a n)"
  by pat_completeness auto
termination by (relation "measure (\<lambda>(_, _, _, n, _, b). nat (n + 1 - b))") auto

function stable_pass :: "('s, 'z) Interface_scheme \<Rightarrow> 's \<Rightarrow> int \<Rightarrow> int \<Rightarrow> int \<Rightarrow> int \<Rightarrow> 's option" where
  "stable_pass D s blockSize n a b =
     (if b \<le> n \<and> blockSize > 0 then
        (case symMerge D s a (a + blockSize) b of
           None \<Rightarrow> None
         | Some s \<Rightarrow> stable_pass D s blockSize n b (b + 2 * blockSize))
      else
        let m = a + blockSize in if m < n then symMerge D s a m n else Some s)"
  by pat_completeness auto
termination by (relation "measure (\<lambda>(_, _, _, n, _, b). nat (n + 1 - b))") auto

function stable_merge :: "('s, 'z) Interface_scheme \<Rightarrow> 's \<Rightarrow> int \<Rightarrow> int \<Rightarrow> 's option" where
  "stable_merge D s blockSize n =
     (if blockSize < n \<and> blockSize > 0 then
        (case stable_pass D s blockSize n 0 (2 * blockSize) of
           None \<Rightarrow> None
         | Some s \<Rightarrow> stable_merge D s (blockSize * 2) n)
      else Some s)"
  by pat_completeness auto
termination by (relation "measure (\<lambda>(_, _, blockSize, n). nat (n - blockSize))") auto

declare stable_blocks.simps [simp del] stable_pass.simps [simp del] stable_merge.simps [simp del]

definition stable :: "('s, 'z) Interface_scheme \<Rightarrow> 's \<Rightarrow> int \<Rightarrow> 's option" where
  "stable D s n =
     (let blockSize = 20; s = stable_blocks D s blockSize n 0 blockSize in stable_merge D s blockSize n)"

section \<open>The entry points\<close>

definition Sort :: "('s, 'z) Interface_scheme \<Rightarrow> 's \<Rightarrow> 's" where
  "Sort D s =
     (let n = If_Len D s in
      if n \<le> 1 then s
      else let limit = int (Len (word_of_int n)) in pdqsort D s 0 n limit)"

definition Stable :: "('s, 'z) Interface_scheme \<Rightarrow> 's \<Rightarrow> 's option" where
  "Stable D s = stable D s (If_Len D s)"

function IsSorted_loop :: "('s, 'z) Interface_scheme \<Rightarrow> 's \<Rightarrow> int \<Rightarrow> bool" where
  "IsSorted_loop D s i =
     (if i > 0 then if If_Less D s i (i - 1) then False else IsSorted_loop D s (i - 1) else True)"
  by pat_completeness auto
termination by (relation "measure (\<lambda>(_, _, i). nat i)") auto

declare IsSorted_loop.simps [simp del]

definition IsSorted :: "('s, 'z) Interface_scheme \<Rightarrow> 's \<Rightarrow> bool" where
  "IsSorted D s = (let n = If_Len D s in IsSorted_loop D s (n - 1))"

definition sort_reverse :: "('s, 'z) Interface_scheme \<Rightarrow> ('s, 'z) Interface_scheme" where
  "sort_reverse D = D\<lparr>If_Less := (\<lambda>s i j. If_Less D s j i)\<rparr>"

section \<open>Slices as sortable data\<close>

text \<open>The exchange of two elements of a slice; indices are in range where the code runs.\<close>

definition slice_swap :: "'a list \<Rightarrow> int \<Rightarrow> int \<Rightarrow> 'a list" where
  "slice_swap x i j = x[nat i := x ! nat j, nat j := x ! nat i]"

definition IntSlice :: "int list Interface" where
  "IntSlice = \<lparr>If_Len = (\<lambda>x. int (length x)), If_Less = (\<lambda>x i j. x ! nat i < x ! nat j), If_Swap = slice_swap\<rparr>"

text \<open>Go compares strings byte by byte.\<close>

fun string_less :: "bytes \<Rightarrow> bytes \<Rightarrow> bool" where
  "string_less _ [] = False"
| "string_less [] (_ # _) = True"
| "string_less (x # xs) (y # ys) = (x < y \<or> x = y \<and> string_less xs ys)"

definition StringSlice :: "bytes list Interface" where
  "StringSlice =
     \<lparr>If_Len = (\<lambda>x. int (length x)), If_Less = (\<lambda>x i j. string_less (x ! nat i) (x ! nat j)), If_Swap = slice_swap\<rparr>"

text \<open>
  The generated variant of package \<open>slices\<close> reads \<open>data.Less(i, j)\<close> as \<open>cmp(data[i], data[j]) < 0\<close> and
  \<open>data.Swap(i, j)\<close> as a parallel assignment of two elements, and is otherwise the same text.
\<close>

definition cmpSlice :: "('a \<Rightarrow> 'a \<Rightarrow> int) \<Rightarrow> 'a list Interface" where
  "cmpSlice cmp =
     \<lparr>If_Len = (\<lambda>x. int (length x)), If_Less = (\<lambda>x i j. cmp (x ! nat i) (x ! nat j) < 0), If_Swap = slice_swap\<rparr>"

definition insertionSortCmpFunc :: "'a list \<Rightarrow> int \<Rightarrow> int \<Rightarrow> ('a \<Rightarrow> 'a \<Rightarrow> int) \<Rightarrow> 'a list" where
  "insertionSortCmpFunc x a b cmp = insertionSort (cmpSlice cmp) x a b"

definition heapSortCmpFunc :: "'a list \<Rightarrow> int \<Rightarrow> int \<Rightarrow> ('a \<Rightarrow> 'a \<Rightarrow> int) \<Rightarrow> 'a list" where
  "heapSortCmpFunc x a b cmp = heapSort (cmpSlice cmp) x a b"

definition pdqsortCmpFunc :: "'a list \<Rightarrow> int \<Rightarrow> int \<Rightarrow> int \<Rightarrow> ('a \<Rightarrow> 'a \<Rightarrow> int) \<Rightarrow> 'a list" where
  "pdqsortCmpFunc x a b limit cmp = pdqsort (cmpSlice cmp) x a b limit"

definition stableCmpFunc :: "'a list \<Rightarrow> int \<Rightarrow> ('a \<Rightarrow> 'a \<Rightarrow> int) \<Rightarrow> 'a list option" where
  "stableCmpFunc x n cmp = stable (cmpSlice cmp) x n"

definition SortFunc :: "'a list \<Rightarrow> ('a \<Rightarrow> 'a \<Rightarrow> int) \<Rightarrow> 'a list" where
  "SortFunc x cmp = (let n = int (length x) in pdqsortCmpFunc x 0 n (int (Len (word_of_int n))) cmp)"

definition SortStableFunc :: "'a list \<Rightarrow> ('a \<Rightarrow> 'a \<Rightarrow> int) \<Rightarrow> 'a list option" where
  "SortStableFunc x cmp = stableCmpFunc x (int (length x)) cmp"

function IsSortedFunc_loop :: "'a list \<Rightarrow> ('a \<Rightarrow> 'a \<Rightarrow> int) \<Rightarrow> int \<Rightarrow> bool" where
  "IsSortedFunc_loop x cmp i =
     (if i > 0 then if cmp (x ! nat i) (x ! nat (i - 1)) < 0 then False else IsSortedFunc_loop x cmp (i - 1) else True)"
  by pat_completeness auto
termination by (relation "measure (\<lambda>(_, _, i). nat i)") auto

declare IsSortedFunc_loop.simps [simp del]

definition IsSortedFunc :: "'a list \<Rightarrow> ('a \<Rightarrow> 'a \<Rightarrow> int) \<Rightarrow> bool" where
  "IsSortedFunc x cmp = IsSortedFunc_loop x cmp (int (length x) - 1)"

definition MinFunc :: "'a list \<Rightarrow> ('a \<Rightarrow> 'a \<Rightarrow> int) \<Rightarrow> panic + 'a" where
  "MinFunc x cmp =
     (if length x < 1 then Inl (PanicMsg ''slices.MinFunc: empty list'')
      else Inr (fold (\<lambda>y m. if cmp y m < 0 then y else m) (drop 1 x) (x ! 0)))"

definition MaxFunc :: "'a list \<Rightarrow> ('a \<Rightarrow> 'a \<Rightarrow> int) \<Rightarrow> panic + 'a" where
  "MaxFunc x cmp =
     (if length x < 1 then Inl (PanicMsg ''slices.MaxFunc: empty list'')
      else Inr (fold (\<lambda>y m. if cmp y m > 0 then y else m) (drop 1 x) (x ! 0)))"

section \<open>Binary search\<close>

text \<open>
  The midpoint \<open>int(uint(i+j) >> 1)\<close>: the sum of two \<open>int\<close> values may wrap around to a negative one, which read as a \<open>uint\<close> is the sum again. The
  loops are partial functions: from arbitrary bounds they need not end.
\<close>

definition midpoint :: "int \<Rightarrow> int \<Rightarrow> int" where
  "midpoint i j = wrap64 (wrap64 (i + j) mod 2 ^ 64 div 2)"

partial_function (option) Search_loop :: "(int \<Rightarrow> bool) \<Rightarrow> int \<Rightarrow> int \<Rightarrow> int option" where
  "Search_loop f i j =
     (if i < j then
        let h = midpoint i j in if \<not> f h then Search_loop f (wrap64 (h + 1)) j else Search_loop f i h
      else Some i)"

declare Search_loop.simps [code]

definition Search :: "int \<Rightarrow> (int \<Rightarrow> bool) \<Rightarrow> int option" where
  "Search n f = Search_loop f 0 n"

partial_function (option) Find_loop :: "(int \<Rightarrow> int) \<Rightarrow> int \<Rightarrow> int \<Rightarrow> int option" where
  "Find_loop cmp i j =
     (if i < j then
        let h = midpoint i j in if cmp h > 0 then Find_loop cmp (wrap64 (h + 1)) j else Find_loop cmp i h
      else Some i)"

declare Find_loop.simps [code]

definition sort_Find :: "int \<Rightarrow> (int \<Rightarrow> int) \<Rightarrow> (int \<times> bool) option" where
  "sort_Find n cmp = map_option (\<lambda>i. (i, i < n \<and> cmp i = 0)) (Find_loop cmp 0 n)"

definition SearchInts :: "int list \<Rightarrow> int \<Rightarrow> int option" where
  "SearchInts a x = Search (int (length a)) (\<lambda>i. a ! nat i \<ge> x)"

definition SearchStrings :: "bytes list \<Rightarrow> bytes \<Rightarrow> int option" where
  "SearchStrings a x = Search (int (length a)) (\<lambda>i. \<not> string_less (a ! nat i) x)"

partial_function (option) BinarySearchFunc_loop :: "'e list \<Rightarrow> 't \<Rightarrow> ('e \<Rightarrow> 't \<Rightarrow> int) \<Rightarrow> int \<Rightarrow> int \<Rightarrow> int option" where
  "BinarySearchFunc_loop x target cmp i j =
     (if i < j then
        let h = midpoint i j in
        if cmp (x ! nat h) target < 0 then BinarySearchFunc_loop x target cmp (wrap64 (h + 1)) j
        else BinarySearchFunc_loop x target cmp i h
      else Some i)"

declare BinarySearchFunc_loop.simps [code]

definition BinarySearchFunc :: "'e list \<Rightarrow> 't \<Rightarrow> ('e \<Rightarrow> 't \<Rightarrow> int) \<Rightarrow> (int \<times> bool) option" where
  "BinarySearchFunc x target cmp =
     (let n = int (length x)
      in map_option (\<lambda>i. (i, i < n \<and> cmp (x ! nat i) target = 0)) (BinarySearchFunc_loop x target cmp 0 n))"

end
