(* ===== verification/Sort_Spec.thy ===== *)
theory Sort_Spec
  imports Sort_Model
begin

text \<open>
  The contract of the collections that package \<open>sort\<close> orders, as two locales: a strict weak order on
  the elements, and a collection whose \<open>Len\<close>, \<open>Less\<close> and \<open>Swap\<close> act on a list of elements as their
  documentation says. Insertion sort and heap sort are verified in it; ranges \<open>data[a:b]\<close> of the
  collection are described by \<open>perm_range\<close> (only elements of the range are permuted) and
  \<open>sorted_range\<close>.
\<close>

section \<open>Ranges of lists\<close>

definition perm_range :: "int \<Rightarrow> int \<Rightarrow> 'a list \<Rightarrow> 'a list \<Rightarrow> bool" where
  "perm_range a b xs ys \<longleftrightarrow>
     mset ys = mset xs \<and> (\<forall>i. 0 \<le> i \<and> i < int (length xs) \<and> (i < a \<or> b \<le> i) \<longrightarrow> ys ! nat i = xs ! nat i)"

definition sorted_range :: "('a \<Rightarrow> 'a \<Rightarrow> bool) \<Rightarrow> int \<Rightarrow> int \<Rightarrow> 'a list \<Rightarrow> bool" where
  "sorted_range lt a b xs \<longleftrightarrow> (\<forall>i j. a \<le> i \<and> i < j \<and> j < b \<longrightarrow> \<not> lt (xs ! nat j) (xs ! nat i))"

definition slice_of :: "int \<Rightarrow> int \<Rightarrow> 'a list \<Rightarrow> 'a list" where
  "slice_of a b xs = take (nat (b - a)) (drop (nat a) xs)"

lemma perm_range_length: "perm_range a b xs ys \<Longrightarrow> length ys = length xs"
  by (metis perm_range_def size_mset)

lemma perm_range_refl [simp, intro]: "perm_range a b xs xs"
  by (simp add: perm_range_def)

lemma perm_range_trans: "perm_range a b xs ys \<Longrightarrow> perm_range a b ys zs \<Longrightarrow> perm_range a b xs zs"
  using perm_range_length [of a b xs ys] by (simp add: perm_range_def)

lemma perm_range_mono: "perm_range a b xs ys \<Longrightarrow> a' \<le> a \<Longrightarrow> b \<le> b' \<Longrightarrow> perm_range a' b' xs ys"
  by (auto simp: perm_range_def)

lemma perm_range_outside:
  "perm_range a b xs ys \<Longrightarrow> 0 \<le> i \<Longrightarrow> i < int (length xs) \<Longrightarrow> i < a \<or> b \<le> i \<Longrightarrow> ys ! nat i = xs ! nat i"
  by (auto simp: perm_range_def)

lemma slice_of_split:
  assumes "0 \<le> a" "a \<le> b" "b \<le> int (length xs)"
  shows "xs = take (nat a) xs @ slice_of a b xs @ drop (nat b) xs"
proof -
  have "drop (nat b) xs = drop (nat (b - a)) (drop (nat a) xs)" using assms by (simp add: nat_diff_distrib)
  then show ?thesis unfolding slice_of_def using assms by (metis append_take_drop_id)
qed

lemma length_slice_of: "0 \<le> a \<Longrightarrow> a \<le> b \<Longrightarrow> b \<le> int (length xs) \<Longrightarrow> length (slice_of a b xs) = nat (b - a)"
  by (simp add: slice_of_def nat_diff_distrib)

lemma nth_slice_of:
  "0 \<le> a \<Longrightarrow> b \<le> int (length xs) \<Longrightarrow> k < nat (b - a) \<Longrightarrow> slice_of a b xs ! k = xs ! nat (a + int k)"
  by (simp add: slice_of_def nat_add_distrib)

lemma set_slice_of:
  assumes "0 \<le> a" "a \<le> b" "b \<le> int (length xs)"
  shows "set (slice_of a b xs) = {xs ! nat i |i. a \<le> i \<and> i < b}"
proof -
  have "set (slice_of a b xs) = {slice_of a b xs ! k |k. k < nat (b - a)}"
    by (simp add: set_conv_nth length_slice_of assms)
  also have "\<dots> = {xs ! nat (a + int k) |k. k < nat (b - a)}"
    using nth_slice_of [OF assms(1,3)] by (metis (no_types, lifting))
  also have "\<dots> = {xs ! nat i |i. a \<le> i \<and> i < b}"
  proof -
    have "\<exists>i. xs ! nat (a + int k) = xs ! nat i \<and> a \<le> i \<and> i < b" if "k < nat (b - a)" for k
      using that by (intro exI [of _ "a + int k"]) auto
    moreover have "\<exists>k. xs ! nat i = xs ! nat (a + int k) \<and> k < nat (b - a)" if "a \<le> i" "i < b" for i
      using that by (intro exI [of _ "nat (i - a)"]) auto
    ultimately show ?thesis by blast
  qed
  finally show ?thesis .
qed

lemma perm_range_slice:
  assumes "perm_range a b xs ys" "0 \<le> a" "a \<le> b" "b \<le> int (length xs)"
  shows "take (nat a) ys = take (nat a) xs" "drop (nat b) ys = drop (nat b) xs"
    "mset (slice_of a b ys) = mset (slice_of a b xs)"
proof -
  have l: "length ys = length xs" using assms(1) by (rule perm_range_length)
  show t: "take (nat a) ys = take (nat a) xs"
  proof (rule nth_equalityI)
    fix k assume "k < length (take (nat a) ys)"
    then show "take (nat a) ys ! k = take (nat a) xs ! k"
      using perm_range_outside [OF assms(1), of "int k"] l by (auto simp: zless_nat_eq_int_zless)
  qed (simp add: l)
  show d: "drop (nat b) ys = drop (nat b) xs"
  proof (rule nth_equalityI)
    fix k assume "k < length (drop (nat b) ys)"
    then have "ys ! nat (int (nat b + k)) = xs ! nat (int (nat b + k))"
      using l assms by (intro perm_range_outside [OF assms(1)]) auto
    then show "drop (nat b) ys ! k = drop (nat b) xs ! k" using assms(4) l by (simp del: of_nat_add)
  qed (simp add: l)
  have "mset (take (nat a) ys @ slice_of a b ys @ drop (nat b) ys) = mset (take (nat a) xs @ slice_of a b xs @ drop (nat b) xs)"
    using slice_of_split [OF assms(2,3), of ys] slice_of_split [OF assms(2-4)] assms(1,4) l by (simp add: perm_range_def)
  then show "mset (slice_of a b ys) = mset (slice_of a b xs)" using t d by simp
qed

lemma perm_range_all:
  assumes "perm_range a b xs ys" "0 \<le> a" "b \<le> int (length xs)" "\<forall>i. a \<le> i \<and> i < b \<longrightarrow> P (xs ! nat i)"
    "a \<le> i" "i < b"
  shows "P (ys ! nat i)"
proof -
  have ab: "a \<le> b" using assms by simp
  have "set (slice_of a b ys) = set (slice_of a b xs)"
    using perm_range_slice(3) [OF assms(1,2) ab assms(3)] by (rule mset_eq_setD)
  moreover have "ys ! nat i \<in> set (slice_of a b ys)"
    using set_slice_of [OF assms(2) ab, of ys] perm_range_length [OF assms(1)] assms by auto
  ultimately show ?thesis using set_slice_of [OF assms(2) ab assms(3)] assms(4) by auto
qed

lemma nat_eq_iff2: "0 \<le> i \<Longrightarrow> 0 \<le> j \<Longrightarrow> nat i = nat j \<longleftrightarrow> i = j" by auto

lemma slice_swap_nth:
  assumes "0 \<le> i" "i < int (length xs)" "0 \<le> j" "j < int (length xs)" "0 \<le> k" "k < int (length xs)"
  shows "slice_swap xs i j ! nat k = (if k = j then xs ! nat i else if k = i then xs ! nat j else xs ! nat k)"
  using assms by (auto simp: slice_swap_def nth_list_update nat_eq_iff2)

lemma perm_range_swap:
  assumes "0 \<le> a" "b \<le> int (length xs)" "a \<le> i" "i < b" "a \<le> j" "j < b"
  shows "perm_range a b xs (slice_swap xs i j)"
proof -
  have "mset (slice_swap xs i j) = mset xs" using assms by (simp add: slice_swap_def mset_swap)
  moreover have "slice_swap xs i j ! nat k = xs ! nat k" if "0 \<le> k" "k < int (length xs)" "k < a \<or> b \<le> k" for k
    using slice_swap_nth [of i xs j k] assms that by auto
  ultimately show ?thesis by (auto simp: perm_range_def)
qed

lemma sorted_range_cong:
  "(\<And>i. a \<le> i \<Longrightarrow> i < b \<Longrightarrow> xs ! nat i = ys ! nat i) \<Longrightarrow> sorted_range lt a b xs = sorted_range lt a b ys"
  by (auto simp: sorted_range_def)

lemma sorted_range_sub: "sorted_range lt a b xs \<Longrightarrow> a \<le> a' \<Longrightarrow> b' \<le> b \<Longrightarrow> sorted_range lt a' b' xs"
  by (auto simp: sorted_range_def)

lemma sorted_range_single: "b \<le> a + 1 \<Longrightarrow> sorted_range lt a b xs"
  by (auto simp: sorted_range_def)

section \<open>The contract of a sortable collection\<close>

locale strict_weak_order =
  fixes lt :: "'a \<Rightarrow> 'a \<Rightarrow> bool"
  assumes lt_irrefl: "\<not> lt x x"
    and lt_trans: "lt x y \<Longrightarrow> lt y z \<Longrightarrow> lt x z"
    and not_lt_trans: "\<not> lt x y \<Longrightarrow> \<not> lt y z \<Longrightarrow> \<not> lt x z"
begin

lemma lt_asym: "lt x y \<Longrightarrow> \<not> lt y x"
  using lt_irrefl lt_trans by blast

lemma lt_le_trans: "lt x y \<Longrightarrow> \<not> lt z y \<Longrightarrow> lt x z"
  using not_lt_trans by blast

lemma le_lt_trans: "\<not> lt y x \<Longrightarrow> lt y z \<Longrightarrow> lt x z"
  using not_lt_trans by blast

lemma sorted_range_append:
  assumes "sorted_range lt a m xs" "sorted_range lt m b xs"
    "\<And>i j. a \<le> i \<Longrightarrow> i < m \<Longrightarrow> m \<le> j \<Longrightarrow> j < b \<Longrightarrow> \<not> lt (xs ! nat j) (xs ! nat i)"
  shows "sorted_range lt a b xs"
  using assms unfolding sorted_range_def by (meson not_less linorder_not_le)

lemma sorted_range_adjacent:
  assumes "\<And>i. a < i \<Longrightarrow> i < b \<Longrightarrow> \<not> lt (xs ! nat i) (xs ! nat (i - 1))"
  shows "sorted_range lt a b xs"
proof -
  have "\<not> lt (xs ! nat j) (xs ! nat i)" if "a \<le> i" "i < j" "j < b" for i j
    using that(2,3)
  proof (induction j rule: int_gr_induct [of i])
    case base then show ?case using that(1) assms [of "i + 1"] by simp
  next
    case (step j) then show ?case using that(1) assms [of "j + 1"] not_lt_trans by force
  qed
  then show ?thesis by (auto simp: sorted_range_def)
qed

end

locale sort_data = strict_weak_order lt for lt :: "'a \<Rightarrow> 'a \<Rightarrow> bool" +
  fixes D :: "('s, 'z) Interface_scheme" and elems :: "'s \<Rightarrow> 'a list"
  assumes Len_elems: "If_Len D s = int (length (elems s))"
    and Less_elems: "0 \<le> i \<Longrightarrow> i < int (length (elems s)) \<Longrightarrow> 0 \<le> j \<Longrightarrow> j < int (length (elems s)) \<Longrightarrow>
      If_Less D s i j = lt (elems s ! nat i) (elems s ! nat j)"
    and Swap_elems: "0 \<le> i \<Longrightarrow> i < int (length (elems s)) \<Longrightarrow> 0 \<le> j \<Longrightarrow> j < int (length (elems s)) \<Longrightarrow>
      elems (If_Swap D s i j) = slice_swap (elems s) i j"
begin

abbreviation len :: "'s \<Rightarrow> int" where "len s \<equiv> int (length (elems s))"
abbreviation elem :: "'s \<Rightarrow> int \<Rightarrow> 'a" where "elem s i \<equiv> elems s ! nat i"
abbreviation rearr :: "int \<Rightarrow> int \<Rightarrow> 's \<Rightarrow> 's \<Rightarrow> bool" where "rearr a b s s' \<equiv> perm_range a b (elems s) (elems s')"

lemma rearr_len: "rearr a b s s' \<Longrightarrow> length (elems s') = length (elems s)"
  by (rule perm_range_length)

lemma len_swap [simp]: "0 \<le> i \<Longrightarrow> i < len s \<Longrightarrow> 0 \<le> j \<Longrightarrow> j < len s \<Longrightarrow> length (elems (If_Swap D s i j)) = length (elems s)"
  by (simp add: Swap_elems slice_swap_def)

lemma elem_swap:
  "0 \<le> i \<Longrightarrow> i < len s \<Longrightarrow> 0 \<le> j \<Longrightarrow> j < len s \<Longrightarrow> 0 \<le> k \<Longrightarrow> k < len s \<Longrightarrow>
    elem (If_Swap D s i j) k = (if k = j then elem s i else if k = i then elem s j else elem s k)"
  by (simp add: Swap_elems slice_swap_nth)

lemma rearr_swap:
  "0 \<le> a \<Longrightarrow> b \<le> len s \<Longrightarrow> a \<le> i \<Longrightarrow> i < b \<Longrightarrow> a \<le> j \<Longrightarrow> j < b \<Longrightarrow> rearr a b s (If_Swap D s i j)"
  by (simp add: Swap_elems perm_range_swap)

subsection \<open>Insertion sort\<close>

lemma insertionSort_shift_correct:
  assumes "0 \<le> a" "a \<le> j" "j < b" "b \<le> len s"
    "\<And>p q. a \<le> p \<Longrightarrow> p < q \<Longrightarrow> q < b \<Longrightarrow> q \<noteq> j \<Longrightarrow> \<not> lt (elem s q) (elem s p)"
  shows "rearr a b s (insertionSort_shift D s a j) \<and> sorted_range lt a b (elems (insertionSort_shift D s a j))"
  using assms
proof (induction "nat j" arbitrary: s j rule: less_induct)
  case less
  note bounds = less.prems(1-4)
  show ?case
  proof (cases "j > a \<and> If_Less D s j (j - 1)")
    case True
    let ?s = "If_Swap D s j (j - 1)"
    have ja: "a < j" using True by blast
    have l: "lt (elem s j) (elem s (j - 1))" using True bounds by (auto simp: Less_elems)
    have "\<not> lt (elem ?s q) (elem ?s p)" if "a \<le> p" "p < q" "q < b" "q \<noteq> j - 1" for p q
    proof (cases "q = j")
      case True
      then show ?thesis using that bounds ja less.prems(5) [of p "j - 1"] lt_asym [OF l]
        by (auto simp: elem_swap)
    next
      case False
      then show ?thesis using that bounds ja less.prems(5) [of "j - 1" q] less.prems(5) [of j q] less.prems(5) [of p q]
        by (auto simp: elem_swap)
    qed
    then have "rearr a b ?s (insertionSort_shift D ?s a (j - 1)) \<and> sorted_range lt a b (elems (insertionSort_shift D ?s a (j - 1)))"
      using True bounds by (intro less.hyps) auto
    moreover have "rearr a b s ?s" using True bounds by (intro rearr_swap) auto
    ultimately show ?thesis using True by (auto simp: insertionSort_shift.simps [of D s a j] intro: perm_range_trans)
  next
    case False
    have "\<not> lt (elem s q) (elem s p)" if "a \<le> p" "p < q" "q < b" for p q
    proof (cases "q = j")
      case True
      then have "\<not> lt (elem s j) (elem s (j - 1))" using False that bounds by (simp add: Less_elems)
      moreover have "p \<noteq> j - 1 \<Longrightarrow> \<not> lt (elem s (j - 1)) (elem s p)" using less.prems(5) [of p "j - 1"] that True by simp
      ultimately show ?thesis using True not_lt_trans by blast
    qed (use less.prems(5) [of p q] that in simp)
    then have "sorted_range lt a b (elems s)" by (simp add: sorted_range_def)
    then show ?thesis using False by (auto simp: insertionSort_shift.simps [of D s a j])
  qed
qed

lemma insertionSort_loop_correct:
  assumes "0 \<le> a" "a < i" "b \<le> len s" "sorted_range lt a i (elems s)"
  shows "rearr a b s (insertionSort_loop D s a b i) \<and> sorted_range lt a b (elems (insertionSort_loop D s a b i))"
  using assms
proof (induction "nat (b - i)" arbitrary: s i rule: less_induct)
  case less
  show ?case
  proof (cases "i < b")
    case True
    let ?s = "insertionSort_shift D s a i"
    have "rearr a (i + 1) s ?s \<and> sorted_range lt a (i + 1) (elems ?s)"
      using less.prems True by (intro insertionSort_shift_correct) (auto simp: sorted_range_def)
    moreover from this have r: "rearr a b s ?s" using True by (auto elim: perm_range_mono)
    ultimately have "rearr a b ?s (insertionSort_loop D ?s a b (i + 1)) \<and>
        sorted_range lt a b (elems (insertionSort_loop D ?s a b (i + 1)))"
      using less.prems True rearr_len by (intro less.hyps) auto
    then show ?thesis using True r by (auto simp: insertionSort_loop.simps [of D s a b i] intro: perm_range_trans)
  next
    case False
    then show ?thesis using less.prems(4) by (simp add: insertionSort_loop.simps [of D s a b i] sorted_range_sub)
  qed
qed

lemma insertionSort_correct:
  "0 \<le> a \<Longrightarrow> b \<le> len s \<Longrightarrow> rearr a b s (insertionSort D s a b) \<and> sorted_range lt a b (elems (insertionSort D s a b))"
  unfolding insertionSort_def by (rule insertionSort_loop_correct) (simp_all add: sorted_range_single)

subsection \<open>Heap sort\<close>

text \<open>
  The heap order of the collection from \<open>first\<close>: a node is not below its children. \<open>siftDown\<close> restores
  it when \<open>root\<close> is the only node that may break it.
\<close>

lemma siftDown_correct:
  assumes "0 \<le> first" "0 \<le> lo" "lo \<le> root" "root < hi" "first + hi \<le> len s"
    "\<And>i c. lo \<le> i \<Longrightarrow> i \<noteq> root \<Longrightarrow> c < hi \<Longrightarrow> c = 2 * i + 1 \<or> c = 2 * i + 2 \<Longrightarrow> \<not> lt (elem s (first + i)) (elem s (first + c))"
    "\<And>p c. lo \<le> p \<Longrightarrow> root = 2 * p + 1 \<or> root = 2 * p + 2 \<Longrightarrow> c < hi \<Longrightarrow> c = 2 * root + 1 \<or> c = 2 * root + 2 \<Longrightarrow>
       \<not> lt (elem s (first + p)) (elem s (first + c))"
  shows "rearr first (first + hi) s (siftDown D s root hi first) \<and>
     (\<forall>i c. lo \<le> i \<and> c < hi \<and> (c = 2 * i + 1 \<or> c = 2 * i + 2) \<longrightarrow>
        \<not> lt (elem (siftDown D s root hi first) (first + i)) (elem (siftDown D s root hi first) (first + c)))"
  using assms
proof (induction "nat (hi - root)" arbitrary: s root rule: less_induct)
  case less
  note bounds = less.prems(1-5)
  let ?c0 = "2 * root + 1"
  define child where "child = (if ?c0 + 1 < hi \<and> If_Less D s (first + ?c0) (first + ?c0 + 1) then ?c0 + 1 else ?c0)"
  show ?case
  proof (cases "?c0 \<ge> hi")
    case True
    then show ?thesis using less.prems(6) bounds by (auto simp: siftDown.simps [of D s root hi first])
  next
    case False
    have ch: "child = ?c0 \<or> child = ?c0 + 1" "child < hi" using False by (auto simp: child_def)
    have big: "\<not> lt (elem s (first + child)) (elem s (first + c))" if "c = ?c0 \<or> c = ?c0 + 1" "c < hi" for c
    proof -
      have "If_Less D s (first + ?c0) (first + ?c0 + 1) = lt (elem s (first + ?c0)) (elem s (first + (?c0 + 1)))" if "?c0 + 1 < hi"
        using Less_elems [of "first + ?c0" s "first + ?c0 + 1"] that bounds by (simp add: add.assoc)
      then show ?thesis using that lt_irrefl lt_asym
        by (cases "?c0 + 1 < hi"; cases "c = ?c0"; cases "If_Less D s (first + ?c0) (first + ?c0 + 1)") (simp_all add: child_def)
    qed
    have eq: "siftDown D s root hi first = (if \<not> If_Less D s (first + root) (first + child) then s
        else siftDown D (If_Swap D s (first + root) (first + child)) child hi first)"
      using False bounds by (simp add: siftDown.simps [of D s root hi first] child_def Let_def)
    show ?thesis
    proof (cases "If_Less D s (first + root) (first + child)")
      case False2: False
      then have "\<not> lt (elem s (first + root)) (elem s (first + child))" using bounds ch by (auto simp: Less_elems)
      then have "\<not> lt (elem s (first + root)) (elem s (first + c))" if "c = ?c0 \<or> c = ?c0 + 1" "c < hi" for c
        using big [OF that] not_lt_trans by blast
      then have "\<not> lt (elem s (first + i)) (elem s (first + c))" if "lo \<le> i" "c < hi" "c = 2 * i + 1 \<or> c = 2 * i + 2" for i c
        using less.prems(6) [of i c] that by (cases "i = root") auto
      then show ?thesis using False2 eq by auto
    next
      case True
      let ?s = "If_Swap D s (first + root) (first + child)"
      have l: "lt (elem s (first + root)) (elem s (first + child))" using True bounds ch by (auto simp: Less_elems)
      have at: "elem ?s (first + k) = (if k = child then elem s (first + root) else if k = root then elem s (first + child) else elem s (first + k))"
        if "0 \<le> k" "k < hi" for k using that bounds ch by (auto simp: elem_swap)
      have "rearr first (first + hi) ?s (siftDown D ?s child hi first) \<and>
         (\<forall>i c. lo \<le> i \<and> c < hi \<and> (c = 2 * i + 1 \<or> c = 2 * i + 2) \<longrightarrow>
           \<not> lt (elem (siftDown D ?s child hi first) (first + i)) (elem (siftDown D ?s child hi first) (first + c)))"
      proof (rule less.hyps)
        show "nat (hi - child) < nat (hi - root)" using ch bounds by auto
        show "\<not> lt (elem ?s (first + i)) (elem ?s (first + c))"
          if "lo \<le> i" "i \<noteq> child" "c < hi" "c = 2 * i + 1 \<or> c = 2 * i + 2" for i c
        proof (cases "i = root")
          case True
          then have "elem ?s (first + i) = elem s (first + child)" using at [of root] ch bounds by auto
          moreover have "elem ?s (first + c) = (if c = child then elem s (first + root) else elem s (first + c))"
            using at [of c] True that bounds by auto
          ultimately show ?thesis using True that big [of c] lt_asym [OF l] by auto
        next
          case False
          then have n: "\<not> lt (elem s (first + i)) (elem s (first + c))" using less.prems(6) that by blast
          have "c \<noteq> child" using that ch False by presburger
          moreover have "c = root \<Longrightarrow> \<not> lt (elem s (first + i)) (elem s (first + child))"
            using less.prems(7) [of i child] that ch by auto
          ultimately show ?thesis using at [of i] at [of c] n that bounds False by (auto split: if_splits)
        qed
        show "\<not> lt (elem ?s (first + p)) (elem ?s (first + c))"
          if "lo \<le> p" "child = 2 * p + 1 \<or> child = 2 * p + 2" "c < hi" "c = 2 * child + 1 \<or> c = 2 * child + 2" for p c
        proof -
          have p: "p = root" using that(2) ch by presburger
          have "\<not> lt (elem s (first + child)) (elem s (first + c))" using less.prems(6) [of child c] that ch bounds by auto
          then show ?thesis using at [of root] at [of c] p that ch bounds by (auto split: if_splits)
        qed
      qed (use bounds ch in auto)
      moreover have "rearr first (first + hi) s ?s" using bounds ch by (intro rearr_swap) auto
      ultimately show ?thesis using True eq by (auto intro: perm_range_trans)
    qed
  qed
qed

lemma heap_top:
  assumes "0 \<le> i" "i < hi"
    "\<forall>i c. 0 \<le> i \<and> c < hi \<and> (c = 2 * i + 1 \<or> c = 2 * i + 2) \<longrightarrow> \<not> lt (elem s (first + i)) (elem s (first + c))"
  shows "\<not> lt (elem s first) (elem s (first + i))"
  using assms(1,2)
proof (induction "nat i" arbitrary: i rule: less_induct)
  case less
  show ?case
  proof (cases "i = 0")
    case False
    let ?p = "(i - 1) div 2"
    have p: "0 \<le> ?p" "?p < i" "i = 2 * ?p + 1 \<or> i = 2 * ?p + 2" using less.prems False by presburger+
    then have "\<not> lt (elem s first) (elem s (first + ?p))" using less by simp
    moreover have "\<not> lt (elem s (first + ?p)) (elem s (first + i))" using assms(3) p less.prems by blast
    ultimately show ?thesis using not_lt_trans by blast
  qed (simp add: lt_irrefl)
qed

lemma heapSort_build_correct:
  assumes "0 \<le> first" "first + hi \<le> len s" "0 \<le> hi" "- 1 \<le> i"
    "\<forall>k c. i < k \<and> c < hi \<and> (c = 2 * k + 1 \<or> c = 2 * k + 2) \<longrightarrow> \<not> lt (elem s (first + k)) (elem s (first + c))"
  defines "s' \<equiv> heapSort_build D s hi first i"
  shows "rearr first (first + hi) s s' \<and>
    (\<forall>k c. 0 \<le> k \<and> c < hi \<and> (c = 2 * k + 1 \<or> c = 2 * k + 2) \<longrightarrow> \<not> lt (elem s' (first + k)) (elem s' (first + c)))"
  unfolding s'_def using assms(1-5)
proof (induction "nat (i + 1)" arbitrary: s i rule: less_induct)
  case less
  show ?case
  proof (cases "i \<ge> 0")
    case True
    let ?s = "siftDown D s i hi first"
    have st: "rearr first (first + hi) s ?s \<and>
      (\<forall>k c. i \<le> k \<and> c < hi \<and> (c = 2 * k + 1 \<or> c = 2 * k + 2) \<longrightarrow> \<not> lt (elem ?s (first + k)) (elem ?s (first + c)))"
    proof (cases "i < hi")
      case True
      then show ?thesis using less.prems \<open>i \<ge> 0\<close> by (intro siftDown_correct) auto
    next
      case False
      then have "?s = s" using \<open>i \<ge> 0\<close> by (simp add: siftDown.simps [of D s i hi first])
      then show ?thesis using False \<open>i \<ge> 0\<close> less.prems by auto
    qed
    have "rearr first (first + hi) ?s (heapSort_build D ?s hi first (i - 1)) \<and>
     (\<forall>k c. 0 \<le> k \<and> c < hi \<and> (c = 2 * k + 1 \<or> c = 2 * k + 2) \<longrightarrow>
       \<not> lt (elem (heapSort_build D ?s hi first (i - 1)) (first + k)) (elem (heapSort_build D ?s hi first (i - 1)) (first + c)))"
      using st less.prems True rearr_len [of first "first + hi" s ?s] by (intro less.hyps) auto
    then show ?thesis using True st by (auto simp: heapSort_build.simps [of D s hi first i] intro: perm_range_trans)
  next
    case False
    then have "i = - 1" using less.prems by simp
    then show ?thesis using less.prems(5) by (auto simp: heapSort_build.simps [of D s hi first "- 1"])
  qed
qed

lemma heapSort_pop_correct:
  assumes "0 \<le> first" "first + hi \<le> len s" "- 1 \<le> i" "i < hi"
    "\<forall>k c. 0 \<le> k \<and> c < i + 1 \<and> (c = 2 * k + 1 \<or> c = 2 * k + 2) \<longrightarrow> \<not> lt (elem s (first + k)) (elem s (first + c))"
    "sorted_range lt (first + (i + 1)) (first + hi) (elems s)"
    "\<forall>p q. first \<le> p \<and> p < first + (i + 1) \<and> first + (i + 1) \<le> q \<and> q < first + hi \<longrightarrow> \<not> lt (elem s q) (elem s p)"
  defines "s' \<equiv> heapSort_pop D s 0 first i"
  shows "rearr first (first + hi) s s' \<and> sorted_range lt first (first + hi) (elems s')"
  unfolding s'_def using assms(1-7)
proof (induction "nat (i + 1)" arbitrary: s i rule: less_induct)
  case less
  show ?case
  proof (cases "i \<ge> 0")
    case False
    then have "i = - 1" using less.prems by simp
    then show ?thesis using less.prems(6) by (simp add: heapSort_pop.simps [of D s 0 first "- 1"])
  next
    case True
    let ?s1 = "If_Swap D s first (first + i)"
    let ?s2 = "siftDown D ?s1 0 i first"
    note b = less.prems(1-4)
    have top: "\<not> lt (elem s first) (elem s (first + k))" if "0 \<le> k" "k < i + 1" for k
      using heap_top [OF that less.prems(5)] .
    have at: "elem ?s1 k = (if k = first + i then elem s first else if k = first then elem s (first + i) else elem s k)"
      if "0 \<le> k" "k < len s" for k using that b True by (simp add: elem_swap)
    have r1: "rearr first (first + (i + 1)) s ?s1" using b True by (intro rearr_swap) auto
    have h: "rearr first (first + i) ?s1 ?s2 \<and>
      (\<forall>k c. 0 \<le> k \<and> c < i \<and> (c = 2 * k + 1 \<or> c = 2 * k + 2) \<longrightarrow> \<not> lt (elem ?s2 (first + k)) (elem ?s2 (first + c)))"
    proof (cases "i = 0")
      case True
      then have "?s2 = ?s1" by (simp add: siftDown.simps [of D _ 0 0 first])
      then show ?thesis using True by auto
    next
      case False
      then show ?thesis using b \<open>i \<ge> 0\<close> less.prems(5) at
        by (intro siftDown_correct) (auto simp: len_swap)
    qed
    have out: "elem ?s2 q = elem ?s1 q" if "first + i \<le> q" "q < first + hi" for q
      using perm_range_outside [OF conjunct1 [OF h], of q] that b True by (simp add: len_swap)
    have ge: "\<not> lt (elem ?s2 q) (elem ?s2 p)" if "first \<le> p" "p < first + i" "first + i \<le> q" "q < first + hi" for p q
    proof -
      have "\<not> lt (elem ?s1 q) (elem ?s1 k)" if "first \<le> k" "k < first + i" for k
      proof (cases "q = first + i")
        case True
        then show ?thesis using at [of q] at [of k] top [of "k - first"] top [of i] that b by (auto split: if_splits)
      next
        case False
        then show ?thesis using \<open>first + i \<le> q\<close> \<open>q < first + hi\<close> at [of q] at [of k] that b True less.prems(7)
          by (auto split: if_splits)
      qed
      then have "\<not> lt (elem ?s1 q) (elem ?s2 p)"
        using that b True by (intro perm_range_all [OF conjunct1 [OF h], of "\<lambda>x. \<not> lt (elem ?s1 q) x"]) (auto simp: len_swap)
      then show ?thesis using out that by simp
    qed
    have so: "sorted_range lt (first + i) (first + hi) (elems ?s2)"
    proof -
      have "\<not> lt (elem ?s1 q) (elem ?s1 p)" if "first + i \<le> p" "p < q" "q < first + hi" for p q
        using that at [of p] at [of q] b True less.prems(6,7) by (auto simp: sorted_range_def split: if_splits)
      then show ?thesis using out by (auto simp: sorted_range_def)
    qed
    have r2: "rearr first (first + hi) s ?s2"
      using r1 h b by (meson perm_range_trans perm_range_mono order_refl add_left_mono zless_imp_add1_zle less_imp_le)
    have "rearr first (first + hi) ?s2 (heapSort_pop D ?s2 0 first (i - 1)) \<and>
        sorted_range lt first (first + hi) (elems (heapSort_pop D ?s2 0 first (i - 1)))"
      using h ge so b True rearr_len [OF r2] by (intro less.hyps) auto
    then show ?thesis using r2 True by (auto simp: heapSort_pop.simps [of D s 0 first i] intro: perm_range_trans)
  qed
qed

lemma heapSort_correct:
  assumes "0 \<le> a" "a \<le> b" "b \<le> len s"
  shows "rearr a b s (heapSort D s a b) \<and> sorted_range lt a b (elems (heapSort D s a b))"
proof -
  let ?hi = "b - a"
  define i where "i = (?hi - 1) sdiv 2"
  have i: "- 1 \<le> i" "?hi \<le> 2 * (i + 1) + 1"
    using assms(2) by (auto simp: i_def signed_divide_int_def sgn_if)
  let ?s = "heapSort_build D s ?hi a i"
  have h: "rearr a (a + ?hi) s ?s \<and>
    (\<forall>k c. 0 \<le> k \<and> c < ?hi \<and> (c = 2 * k + 1 \<or> c = 2 * k + 2) \<longrightarrow> \<not> lt (elem ?s (a + k)) (elem ?s (a + c)))"
    using assms i by (intro heapSort_build_correct) auto
  then have "rearr a (a + ?hi) ?s (heapSort_pop D ?s 0 a (?hi - 1)) \<and>
      sorted_range lt a (a + ?hi) (elems (heapSort_pop D ?s 0 a (?hi - 1)))"
    using assms rearr_len [of a b s ?s] by (intro heapSort_pop_correct) (auto simp: sorted_range_single)
  then show ?thesis using h by (auto simp: heapSort_def Let_def i_def intro: perm_range_trans)
qed

end
end
