(* ===== verification/Sort_Pdq.thy ===== *)
theory Sort_Pdq
  imports Sort_Spec Bits_Counting
begin

unbundle bit_operations_syntax

text \<open>
  The pattern-defeating quicksort of package \<open>sort\<close>, verified for every collection that meets the
  contract \<open>sort_data\<close>: the two partitions, the attempt on nearly sorted input, pivot selection,
  scattering and reversal, and the loop that ties them together.
\<close>

text \<open>A range split at a pivot: smaller elements before it, elements not smaller after it.\<close>

definition split_range :: "('a \<Rightarrow> 'a \<Rightarrow> bool) \<Rightarrow> int \<Rightarrow> int \<Rightarrow> int \<Rightarrow> 'a list \<Rightarrow> bool" where
  "split_range lt a m b xs \<longleftrightarrow>
     (\<forall>k. a \<le> k \<and> k < m \<longrightarrow> lt (xs ! nat k) (xs ! nat m)) \<and> (\<forall>k. m < k \<and> k < b \<longrightarrow> \<not> lt (xs ! nat k) (xs ! nat m))"

text \<open>The random offset of \<open>breakPatterns\<close> stays below twice the length.\<close>

lemma Len_bitlen: "Len x = bitlen (unat x)"
  by (simp add: Len_def UintSize_def uintSize_def Len64_bitlen)

lemma random_offset:
  assumes "8 \<le> n"
  shows "uint (r AND (nextPowerOfTwo n - 1)) < 2 * n"
proof (cases "n < 2 ^ 63")
  case True
  define k where "k = bitlen (nat n)"
  have u: "unat (word_of_int n :: u64) = nat n" using assms True by (simp add: unat_eq_nat_uint uint_word_of_int)
  have k: "2 ^ (k - 1) \<le> nat n" "nat n < 2 ^ k" using assms bitlen_lower [of "nat n"] bitlen_upper [of "nat n"] by (simp_all add: k_def)
  have "k \<noteq> 0" using k(2) assms by (cases k) auto
  moreover from this have "2 ^ k \<le> 2 * nat n" using k(1) by (cases k) auto
  then have "int (2 ^ k) \<le> int (2 * nat n)" by (simp only: of_nat_le_iff)
  then have p: "(2 :: int) ^ k \<le> 2 * n" using assms by simp
  have "nextPowerOfTwo n - 1 = mask k" by (simp add: nextPowerOfTwo_def Let_def Len_bitlen u k_def push_bit_eq_mult mask_eq_exp_minus_1)
  moreover have "uint (r AND mask k) < 2 ^ k" by (simp flip: take_bit_eq_mask add: unsigned_take_bit_eq)
  ultimately show ?thesis using p by simp
next
  case False
  then show ?thesis using uint_lt2p [of "r AND (nextPowerOfTwo n - 1)"] by simp
qed

context sort_data
begin

subsection \<open>Partitioning\<close>

lemma partition_up_prefix:
  assumes "0 \<le> a" "a < len s" "0 \<le> i" "j < len s" "i \<le> k" "k < partition_up D s a i j"
  shows "lt (elem s k) (elem s a)"
  using assms
proof (induction "nat (j + 1 - i)" arbitrary: i rule: less_induct)
  case less
  show ?case
  proof (cases "i \<le> j \<and> If_Less D s i a")
    case True
    then have "lt (elem s i) (elem s a)" using less.prems by (auto simp: Less_elems)
    moreover have "lt (elem s k) (elem s a)" if "k \<noteq> i"
      using less.prems True that by (intro less.hyps) (auto simp: partition_up.simps [of D s a i j])
    ultimately show ?thesis by blast
  qed (use less.prems in \<open>auto simp: partition_up.simps [of D s a i j]\<close>)
qed

lemma partition_down_suffix:
  assumes "0 \<le> a" "a < len s" "0 \<le> i" "j < len s" "partition_down D s a i j < k" "k \<le> j"
  shows "\<not> lt (elem s k) (elem s a)"
  using assms
proof (induction "nat (j + 1 - i)" arbitrary: j rule: less_induct)
  case less
  show ?case
  proof (cases "i \<le> j \<and> \<not> If_Less D s j a")
    case True
    then have "\<not> lt (elem s j) (elem s a)" using less.prems by (auto simp: Less_elems)
    moreover have "\<not> lt (elem s k) (elem s a)" if "k \<noteq> j"
      using less.prems True that by (intro less.hyps [of "j - 1"]) (auto simp: partition_down.simps [of D s a i j])
    ultimately show ?thesis by blast
  qed (use less.prems in \<open>auto simp: partition_down.simps [of D s a i j]\<close>)
qed

lemma partition_loop_correct:
  assumes "0 \<le> a" "a < i" "i - 1 \<le> j" "j < b" "b \<le> len s"
    "\<forall>k. a < k \<and> k < i \<longrightarrow> lt (elem s k) (elem s a)" "\<forall>k. j < k \<and> k < b \<longrightarrow> \<not> lt (elem s k) (elem s a)"
    "partition_loop D s a i j = (s', m)"
  shows "rearr (a + 1) b s s' \<and> a \<le> m \<and> m < b \<and> (\<forall>k. a < k \<and> k \<le> m \<longrightarrow> lt (elem s' k) (elem s' a)) \<and>
    (\<forall>k. m < k \<and> k < b \<longrightarrow> \<not> lt (elem s' k) (elem s' a))"
  using assms
proof (induction "nat (j + 1 - i)" arbitrary: s i j rule: less_induct)
  case less
  let ?i = "partition_up D s a i j"
  let ?j = "partition_down D s a ?i j"
  note bo = less.prems(1-5)
  note cr = partition_scans_cross [OF less.prems(3), of D s a]
  have "lt (elem s k) (elem s a)" if "a < k" "k < ?i" for k
    using that less.prems(6) partition_up_prefix [of a s i j k] bo by (cases "k < i") auto
  then have lo: "\<forall>k. a < k \<and> k < ?i \<longrightarrow> lt (elem s k) (elem s a)" by blast
  have "\<not> lt (elem s k) (elem s a)" if "?j < k" "k < b" for k
    using that less.prems(7) partition_down_suffix [of a s ?i j k] bo cr(1) by (cases "k \<le> j") auto
  then have hi: "\<forall>k. ?j < k \<and> k < b \<longrightarrow> \<not> lt (elem s k) (elem s a)" by blast
  show ?case
  proof (cases "?i > ?j")
    case True
    then have "m = ?j" "s' = s" using less.prems(8) by (auto simp: partition_loop.simps [of D s a i j])
    then show ?thesis using lo hi cr True bo by auto
  next
    case False
    let ?s = "If_Swap D s ?i ?j"
    have at: "elem ?s k = (if k = ?j then elem s ?i else if k = ?i then elem s ?j else elem s k)" if "0 \<le> k" "k < len s" for k
      using that cr bo False by (intro elem_swap) auto
    have i: "\<not> lt (elem s ?i) (elem s a)" using partition_up_stop [of D s a i j] cr bo False by (auto simp: Less_elems)
    have j: "lt (elem s ?j) (elem s a)" using partition_down_stop [of ?i D s a j] cr bo False by (auto simp: Less_elems)
    have r: "rearr (a + 1) b s ?s" using cr bo False by (intro rearr_swap) auto
    have "rearr (a + 1) b ?s s' \<and> a \<le> m \<and> m < b \<and> (\<forall>k. a < k \<and> k \<le> m \<longrightarrow> lt (elem s' k) (elem s' a)) \<and>
      (\<forall>k. m < k \<and> k < b \<longrightarrow> \<not> lt (elem s' k) (elem s' a))"
    proof (rule less.hyps)
      show "partition_loop D ?s a (?i + 1) (?j - 1) = (s', m)"
        using less.prems(8) False by (simp add: partition_loop.simps [of D s a i j] Let_def)
      show "\<forall>k. a < k \<and> k < ?i + 1 \<longrightarrow> lt (elem ?s k) (elem ?s a)"
        using lo j cr bo False at [of a] by (auto simp: at)
      show "\<forall>k. ?j - 1 < k \<and> k < b \<longrightarrow> \<not> lt (elem ?s k) (elem ?s a)"
        using hi i cr bo False at [of a] by (auto simp: at)
    qed (use cr bo False rearr_len [OF r] in auto)
    then show ?thesis using r perm_range_trans by blast
  qed
qed

lemma partition_range_loop:
  "partition_range D s a b pivot =
     (let s1 = If_Swap D s a pivot; (s2, j) = partition_loop D s1 a (a + 1) (b - 1)
      in (If_Swap D s2 j a, j, partition_up D s1 a (a + 1) (b - 1) > partition_down D s1 a (partition_up D s1 a (a + 1) (b - 1)) (b - 1)))"
  by (simp add: partition_range_def partition_loop.simps [of D _ a "a + 1" "b - 1"] Let_def)

lemma partition_range_correct:
  assumes "0 \<le> a" "a \<le> pivot" "pivot < b" "b \<le> len s" "partition_range D s a b pivot = (s', mid, ap)"
  shows "rearr a b s s' \<and> a \<le> mid \<and> mid < b \<and> (\<forall>k. a \<le> k \<and> k < mid \<longrightarrow> lt (elem s' k) (elem s' mid)) \<and>
    (\<forall>k. mid < k \<and> k < b \<longrightarrow> \<not> lt (elem s' k) (elem s' mid))"
proof -
  let ?s1 = "If_Swap D s a pivot"
  obtain s2 m where p: "partition_loop D ?s1 a (a + 1) (b - 1) = (s2, m)" by fastforce
  have r1: "rearr a b s ?s1" using assms by (intro rearr_swap) auto
  have l: "rearr (a + 1) b ?s1 s2 \<and> a \<le> m \<and> m < b \<and> (\<forall>k. a < k \<and> k \<le> m \<longrightarrow> lt (elem s2 k) (elem s2 a)) \<and>
    (\<forall>k. m < k \<and> k < b \<longrightarrow> \<not> lt (elem s2 k) (elem s2 a))"
    using assms p rearr_len [OF r1] by (intro partition_loop_correct) auto
  then have r2: "rearr a b ?s1 s2" by (auto elim: perm_range_mono)
  have s': "s' = If_Swap D s2 m a" "mid = m" using assms(5) p by (auto simp: partition_range_loop Let_def)
  have n: "length (elems s2) = length (elems s)" using rearr_len [OF r1] rearr_len [OF r2] by simp
  have r3: "rearr a b s2 s'" unfolding s' using l assms n by (intro rearr_swap) auto
  have at: "elem s' k = (if k = a then elem s2 m else if k = m then elem s2 a else elem s2 k)" if "0 \<le> k" "k < len s" for k
    unfolding s' using that l assms n by (subst elem_swap) auto
  have "rearr a b s s'" using r1 r2 r3 perm_range_trans by blast
  moreover have "lt (elem s' k) (elem s' mid)" if "a \<le> k" "k < mid" for k
    using at [of k] at [of mid] l that s' assms by (auto split: if_splits)
  moreover have "\<not> lt (elem s' k) (elem s' mid)" if "mid < k" "k < b" for k
    using at [of k] at [of mid] l that s' assms by (auto split: if_splits)
  ultimately show ?thesis using l s' by auto
qed

lemma partitionEqual_up_prefix:
  assumes "0 \<le> a" "a < len s" "0 \<le> i" "j < len s" "i \<le> k" "k < partitionEqual_up D s a i j"
  shows "\<not> lt (elem s a) (elem s k)"
  using assms
proof (induction "nat (j + 1 - i)" arbitrary: i rule: less_induct)
  case less
  show ?case
  proof (cases "i \<le> j \<and> \<not> If_Less D s a i")
    case True
    then have "\<not> lt (elem s a) (elem s i)" using less.prems by (auto simp: Less_elems)
    moreover have "\<not> lt (elem s a) (elem s k)" if "k \<noteq> i"
      using less.prems True that by (intro less.hyps) (auto simp: partitionEqual_up.simps [of D s a i j])
    ultimately show ?thesis by blast
  qed (use less.prems in \<open>auto simp: partitionEqual_up.simps [of D s a i j]\<close>)
qed

lemma partitionEqual_down_suffix:
  assumes "0 \<le> a" "a < len s" "0 \<le> i" "j < len s" "partitionEqual_down D s a i j < k" "k \<le> j"
  shows "lt (elem s a) (elem s k)"
  using assms
proof (induction "nat (j + 1 - i)" arbitrary: j rule: less_induct)
  case less
  show ?case
  proof (cases "i \<le> j \<and> If_Less D s a j")
    case True
    then have "lt (elem s a) (elem s j)" using less.prems by (auto simp: Less_elems)
    moreover have "lt (elem s a) (elem s k)" if "k \<noteq> j"
      using less.prems True that by (intro less.hyps [of "j - 1"]) (auto simp: partitionEqual_down.simps [of D s a i j])
    ultimately show ?thesis by blast
  qed (use less.prems in \<open>auto simp: partitionEqual_down.simps [of D s a i j]\<close>)
qed

lemma partitionEqual_loop_correct:
  assumes "0 \<le> a" "a < i" "i - 1 \<le> j" "j < b" "b \<le> len s"
    "\<forall>k. a < k \<and> k < i \<longrightarrow> \<not> lt (elem s a) (elem s k)" "\<forall>k. j < k \<and> k < b \<longrightarrow> lt (elem s a) (elem s k)"
    "partitionEqual_loop D s a i j = (s', m)"
  shows "rearr (a + 1) b s s' \<and> a < m \<and> m \<le> b \<and> (\<forall>k. a < k \<and> k < m \<longrightarrow> \<not> lt (elem s' a) (elem s' k)) \<and>
    (\<forall>k. m \<le> k \<and> k < b \<longrightarrow> lt (elem s' a) (elem s' k))"
  using assms
proof (induction "nat (j + 1 - i)" arbitrary: s i j rule: less_induct)
  case less
  let ?i = "partitionEqual_up D s a i j"
  let ?j = "partitionEqual_down D s a ?i j"
  note bo = less.prems(1-5)
  note cr = partitionEqual_scans_cross [OF less.prems(3), of D s a]
  have "\<not> lt (elem s a) (elem s k)" if "a < k" "k < ?i" for k
    using that less.prems(6) partitionEqual_up_prefix [of a s i j k] bo by (cases "k < i") auto
  then have lo: "\<forall>k. a < k \<and> k < ?i \<longrightarrow> \<not> lt (elem s a) (elem s k)" by blast
  have "lt (elem s a) (elem s k)" if "?j < k" "k < b" for k
    using that less.prems(7) partitionEqual_down_suffix [of a s ?i j k] bo cr(1) by (cases "k \<le> j") auto
  then have hi: "\<forall>k. ?j < k \<and> k < b \<longrightarrow> lt (elem s a) (elem s k)" by blast
  show ?case
  proof (cases "?i > ?j")
    case True
    then have "m = ?i" "s' = s" using less.prems(8) by (auto simp: partitionEqual_loop.simps [of D s a i j])
    then show ?thesis using lo hi cr True bo by auto
  next
    case False
    let ?s = "If_Swap D s ?i ?j"
    have at: "elem ?s k = (if k = ?j then elem s ?i else if k = ?i then elem s ?j else elem s k)" if "0 \<le> k" "k < len s" for k
      using that cr bo False by (intro elem_swap) auto
    have i: "lt (elem s a) (elem s ?i)" using partitionEqual_up_stop [of D s a i j] cr bo False by (auto simp: Less_elems)
    have j: "\<not> lt (elem s a) (elem s ?j)" using partitionEqual_down_stop [of ?i D s a j] cr bo False by (auto simp: Less_elems)
    have r: "rearr (a + 1) b s ?s" using cr bo False by (intro rearr_swap) auto
    have "rearr (a + 1) b ?s s' \<and> a < m \<and> m \<le> b \<and> (\<forall>k. a < k \<and> k < m \<longrightarrow> \<not> lt (elem s' a) (elem s' k)) \<and>
      (\<forall>k. m \<le> k \<and> k < b \<longrightarrow> lt (elem s' a) (elem s' k))"
    proof (rule less.hyps)
      show "partitionEqual_loop D ?s a (?i + 1) (?j - 1) = (s', m)"
        using less.prems(8) False by (simp add: partitionEqual_loop.simps [of D s a i j] Let_def)
      show "\<forall>k. a < k \<and> k < ?i + 1 \<longrightarrow> \<not> lt (elem ?s a) (elem ?s k)"
        using lo j cr bo False at [of a] by (auto simp: at)
      show "\<forall>k. ?j - 1 < k \<and> k < b \<longrightarrow> lt (elem ?s a) (elem ?s k)"
        using hi i cr bo False at [of a] by (auto simp: at)
    qed (use cr bo False rearr_len [OF r] in auto)
    then show ?thesis using r perm_range_trans by blast
  qed
qed

lemma partitionEqual_correct:
  assumes "0 \<le> a" "a \<le> pivot" "pivot < b" "b \<le> len s" "partitionEqual D s a b pivot = (s', mid)"
    "\<forall>k. a \<le> k \<and> k < b \<longrightarrow> \<not> lt (elem s k) (elem s pivot)"
  shows "rearr a b s s' \<and> a < mid \<and> mid \<le> b \<and>
    (\<forall>k. a \<le> k \<and> k < mid \<longrightarrow> \<not> lt (elem s' k) (elem s' a) \<and> \<not> lt (elem s' a) (elem s' k)) \<and>
    (\<forall>k. mid \<le> k \<and> k < b \<longrightarrow> lt (elem s' a) (elem s' k))"
proof -
  let ?s1 = "If_Swap D s a pivot"
  have p: "partitionEqual_loop D ?s1 a (a + 1) (b - 1) = (s', mid)" using assms(5) by (simp add: partitionEqual_def Let_def)
  have r1: "rearr a b s ?s1" using assms by (intro rearr_swap) auto
  have l: "rearr (a + 1) b ?s1 s' \<and> a < mid \<and> mid \<le> b \<and> (\<forall>k. a < k \<and> k < mid \<longrightarrow> \<not> lt (elem s' a) (elem s' k)) \<and>
    (\<forall>k. mid \<le> k \<and> k < b \<longrightarrow> lt (elem s' a) (elem s' k))"
    using assms p rearr_len [OF r1] by (intro partitionEqual_loop_correct) auto
  then have r: "rearr a b s s'" using r1 by (meson perm_range_mono perm_range_trans order_refl less_imp_le zless_add1_eq)
  have "elem s' a = elem ?s1 a" using perm_range_outside [OF conjunct1 [OF l], of a] assms rearr_len [OF r1] by simp
  also have "\<dots> = elem s pivot" using assms by (simp add: elem_swap)
  finally have "\<not> lt (elem s' k) (elem s' a)" if "a \<le> k" "k < b" for k
    using perm_range_all [OF r, of "\<lambda>x. \<not> lt x (elem s pivot)" k] that assms by simp
  then show ?thesis using r l lt_irrefl by (metis order_le_less order_less_le_trans)
qed

subsection \<open>Nearly sorted input\<close>

lemma partial_shift_left_eq: "partial_shift_left D s j = insertionSort_shift D s 0 j"
proof (induction "nat j" arbitrary: s j rule: less_induct)
  case less
  then show ?case by (simp add: partial_shift_left.simps [of D s j] insertionSort_shift.simps [of D s 0 j])
qed

text \<open>
  The shift to the left runs down to index 1, below the range: it stops at \<open>a\<close> because no element of
  the range is below the one before it.
\<close>

lemma insertionSort_shift_stop:
  assumes "0 < a" "a \<le> j" "j < b" "b \<le> len s" "\<forall>k. a \<le> k \<and> k < b \<longrightarrow> \<not> lt (elem s k) (elem s (a - 1))"
  shows "insertionSort_shift D s 0 j = insertionSort_shift D s a j"
  using assms
proof (induction "nat j" arbitrary: s j rule: less_induct)
  case less
  show ?case
  proof (cases "j = a")
    case True
    then have "\<not> If_Less D s j (j - 1)" using less.prems by (auto simp: Less_elems)
    then show ?thesis using True by (simp add: insertionSort_shift.simps [of D s _ a])
  next
    case False
    let ?s = "If_Swap D s j (j - 1)"
    have r: "rearr a b s ?s" using False less.prems by (intro rearr_swap) auto
    have "elem ?s (a - 1) = elem s (a - 1)" using perm_range_outside [OF r, of "a - 1"] less.prems by simp
    then have "\<forall>k. a \<le> k \<and> k < b \<longrightarrow> \<not> lt (elem ?s k) (elem ?s (a - 1))"
      using perm_range_all [OF r _ _ less.prems(5)] less.prems by simp
    then have "insertionSort_shift D ?s 0 (j - 1) = insertionSort_shift D ?s a (j - 1)"
      using False less.prems rearr_len [OF r] by (intro less.hyps) auto
    then show ?thesis using False less.prems by (simp add: insertionSort_shift.simps [of D s _ j])
  qed
qed

lemma partial_shift_right_perm:
  assumes "0 \<le> a" "a < j" "b \<le> len s"
  shows "rearr (j - 1) b s (partial_shift_right D s b j)"
  using assms
proof (induction "nat (b - j)" arbitrary: s j rule: less_induct)
  case less
  show ?case
  proof (cases "j < b \<and> If_Less D s j (j - 1)")
    case True
    let ?s = "If_Swap D s j (j - 1)"
    have r: "rearr (j - 1) b s ?s" using True less.prems by (intro rearr_swap) auto
    have "rearr (j + 1 - 1) b ?s (partial_shift_right D ?s b (j + 1))"
      using True less.prems rearr_len [OF r] by (intro less.hyps) auto
    then have "rearr (j - 1) b ?s (partial_shift_right D ?s b (j + 1))" by (rule perm_range_mono) auto
    then show ?thesis using r True perm_range_trans by (auto simp: partial_shift_right.simps [of D s b j])
  qed (auto simp: partial_shift_right.simps [of D s b j])
qed

lemma partial_skip_bounds: "i \<le> b \<Longrightarrow> i \<le> partial_skip D s b i \<and> partial_skip D s b i \<le> b"
proof (induction "nat (b - i)" arbitrary: i rule: less_induct)
  case less
  have "i + 1 \<le> partial_skip D s b (i + 1) \<and> partial_skip D s b (i + 1) \<le> b" if "i < b"
    using that by (intro less.hyps) auto
  then show ?case using less.prems by (auto simp: partial_skip.simps [of D s b i])
qed

lemma partial_skip_ordered:
  assumes "0 < i" "b \<le> len s" "i \<le> k" "k < partial_skip D s b i"
  shows "\<not> lt (elem s k) (elem s (k - 1))"
  using assms
proof (induction "nat (b - i)" arbitrary: i rule: less_induct)
  case less
  show ?case
  proof (cases "i < b \<and> \<not> If_Less D s i (i - 1)")
    case True
    then have "\<not> lt (elem s i) (elem s (i - 1))" using less.prems by (auto simp: Less_elems)
    moreover have "\<not> lt (elem s k) (elem s (k - 1))" if "k \<noteq> i"
      using less.prems True that by (intro less.hyps [of "i + 1"]) (auto simp: partial_skip.simps [of D s b i])
    ultimately show ?thesis by blast
  qed (use less.prems in \<open>auto simp: partial_skip.simps [of D s b i]\<close>)
qed

lemma sorted_range_skip:
  assumes "0 \<le> a" "a < i" "b \<le> len s" "sorted_range lt a i (elems s)"
  shows "sorted_range lt a (partial_skip D s b i) (elems s)"
proof (rule sorted_range_adjacent)
  fix k assume k: "a < k" "k < partial_skip D s b i"
  show "\<not> lt (elem s k) (elem s (k - 1))"
    using k assms partial_skip_ordered [of i b s k] by (cases "k < i") (auto simp: sorted_range_def)
qed

lemma partial_loop_correct:
  assumes "0 \<le> a" "a < i" "i \<le> b" "b \<le> len s" "sorted_range lt a i (elems s)"
    "a > 0 \<longrightarrow> (\<forall>k. a \<le> k \<and> k < b \<longrightarrow> \<not> lt (elem s k) (elem s (a - 1)))" "partial_loop D s a b i j = (s', ok)"
  shows "rearr a b s s' \<and> (ok \<longrightarrow> sorted_range lt a b (elems s'))"
  using assms
proof (induction "nat (5 - j)" arbitrary: s i j rule: less_induct)
  case less
  let ?i = "partial_skip D s b i"
  have b: "i \<le> ?i" "?i \<le> b" using partial_skip_bounds [OF less.prems(3)] by auto
  have so: "sorted_range lt a ?i (elems s)" using less.prems by (intro sorted_range_skip) auto
  show ?case
  proof (cases "j < 5 \<and> ?i \<noteq> b \<and> \<not> b - a < 50")
    case False
    then show ?thesis using less.prems(7) so by (auto simp: partial_loop.simps [of D s a b i j] Let_def split: if_splits)
  next
    case True
    let ?s1 = "If_Swap D s ?i (?i - 1)"
    let ?s2 = "if ?i - a \<ge> 2 then partial_shift_left D ?s1 (?i - 1) else ?s1"
    let ?s3 = "if b - ?i \<ge> 2 then partial_shift_right D ?s2 b (?i + 1) else ?s2"
    have r1: "rearr a b s ?s1" using True b less.prems by (intro rearr_swap) auto
    have n1: "length (elems ?s1) = length (elems s)" using rearr_len [OF r1] .
    have lb: "\<forall>k. a \<le> k \<and> k < b \<longrightarrow> \<not> lt (elem t k) (elem t (a - 1))" if "rearr a b s t" "a > 0" for t
      using perm_range_all [OF that(1), of "\<lambda>x. \<not> lt x (elem s (a - 1))"] perm_range_outside [OF that(1), of "a - 1"]
        that(2) less.prems by simp
    have st: "sorted_range lt a (?i - 1) (elems ?s1)"
      using so b less.prems n1 True by (subst sorted_range_cong [where ys = "elems s"]) (auto simp: elem_swap elim: sorted_range_sub)
    have s2: "rearr a ?i ?s1 ?s2 \<and> sorted_range lt a ?i (elems ?s2)"
    proof (cases "?i - a \<ge> 2")
      case True
      have "insertionSort_shift D ?s1 0 (?i - 1) = insertionSort_shift D ?s1 a (?i - 1)"
        using insertionSort_shift_stop [of a "?i - 1" b ?s1] lb [OF r1] b n1 less.prems(1-4) True by (cases "a = 0") auto
      moreover have "rearr a ?i ?s1 (insertionSort_shift D ?s1 a (?i - 1)) \<and> sorted_range lt a ?i (elems (insertionSort_shift D ?s1 a (?i - 1)))"
        using st b n1 less.prems(1-4) True by (intro insertionSort_shift_correct) (auto simp: sorted_range_def)
      ultimately show ?thesis using True by (simp add: partial_shift_left_eq)
    next
      case False
      then show ?thesis by (simp add: sorted_range_single)
    qed
    have r2: "rearr a b ?s1 ?s2" using s2 b by (auto elim: perm_range_mono)
    have n2: "length (elems ?s2) = length (elems s)" using rearr_len [OF r2] n1 by simp
    have s3: "rearr ?i b ?s2 ?s3"
      using partial_shift_right_perm [of a "?i + 1" b ?s2] b less.prems n2 by simp
    have r3: "rearr a b ?s2 ?s3" using s3 b less.prems by (auto elim!: perm_range_mono)
    have r: "rearr a b s ?s3" using r1 r2 r3 perm_range_trans by blast
    have n3: "length (elems ?s3) = length (elems s)" using rearr_len [OF r] .
    have so3: "sorted_range lt a ?i (elems ?s3)"
      using conjunct2 [OF s2] perm_range_outside [OF s3] b less.prems n2
      by (subst sorted_range_cong [where ys = "elems ?s2"]) auto
    have "rearr a b ?s3 s' \<and> (ok \<longrightarrow> sorted_range lt a b (elems s'))"
    proof (rule less.hyps [where i = ?i and j = "j + 1"])
      show "partial_loop D ?s3 a b ?i (j + 1) = (s', ok)"
        using less.prems(7) True by (simp add: partial_loop.simps [of D s a b i j] Let_def)
      show "a > 0 \<longrightarrow> (\<forall>k. a \<le> k \<and> k < b \<longrightarrow> \<not> lt (elem ?s3 k) (elem ?s3 (a - 1)))" using lb [OF r] by blast
    qed (use True b less.prems n3 so3 in auto)
    then show ?thesis using r perm_range_trans by blast
  qed
qed

lemma partialInsertionSort_correct:
  assumes "0 \<le> a" "a < b" "b \<le> len s" "a > 0 \<longrightarrow> (\<forall>k. a \<le> k \<and> k < b \<longrightarrow> \<not> lt (elem s k) (elem s (a - 1)))"
    "partialInsertionSort D s a b = (s', ok)"
  shows "rearr a b s s' \<and> (ok \<longrightarrow> sorted_range lt a b (elems s'))"
  using assms by (intro partial_loop_correct [of a "a + 1" b s 0]) (auto simp: partialInsertionSort_def sorted_range_single)

subsection \<open>Pivot selection\<close>

lemma median_among: "fst (median D s a b c n) \<in> {a, b, c}"
  by (auto simp: median_def order2_def Let_def)

lemma choosePivot_range:
  assumes "12 < b - a"
  shows "a \<le> fst (choosePivot D s a b) \<and> fst (choosePivot D s a b) < b"
proof -
  let ?q = "(b - a) div 4"
  have q: "3 \<le> ?q" "4 * ?q \<le> b - a" using assms by auto
  have m: "x - 1 \<le> y \<and> y \<le> x + 1" if "medianAdjacent D s x n = (y, n')" for x n y n'
    using median_among [of s "x - 1" x "x + 1" n] that by (auto simp: medianAdjacent_def)
  have r: "a \<le> z \<and> z < b" if "median D s i j k n = (z, n')" "a + ?q * 1 - 1 \<le> i" "i \<le> a + ?q * 1 + 1"
    "a + ?q * 2 - 1 \<le> j" "j \<le> a + ?q * 2 + 1" "a + ?q * 3 - 1 \<le> k" "k \<le> a + ?q * 3 + 1" for i j k n z n'
    using median_among [of s i j k n] that q by auto
  show ?thesis
  proof (cases "50 \<le> b - a")
    case True
    obtain i n1 where i: "medianAdjacent D s (a + ?q) 0 = (i, n1)" by fastforce
    obtain j n2 where j: "medianAdjacent D s (a + ?q * 2) n1 = (j, n2)" by fastforce
    obtain k n3 where k: "medianAdjacent D s (a + ?q * 3) n2 = (k, n3)" by fastforce
    obtain z n4 where z: "median D s i j k n3 = (z, n4)" by fastforce
    have "a \<le> z \<and> z < b" using r [OF z] m [OF i] m [OF j] m [OF k] by simp
    then show ?thesis using True i j k z by (simp add: choosePivot_def)
  next
    case False
    obtain z n4 where z: "median D s (a + ?q) (a + ?q * 2) (a + ?q * 3) 0 = (z, n4)" by fastforce
    have "a \<le> z \<and> z < b" using r [OF z] by simp
    then show ?thesis using False assms z by (simp add: choosePivot_def)
  qed
qed

subsection \<open>Scattering and reversal\<close>

lemma breakPatterns_loop_perm:
  assumes "0 \<le> a" "8 \<le> b - a" "b \<le> len s" "a \<le> idx" "final < b"
  shows "rearr a b s (breakPatterns_loop D s a (b - a) r (nextPowerOfTwo (b - a)) idx final)"
  using assms
proof (induction "nat (final + 1 - idx)" arbitrary: s r idx rule: less_induct)
  case less
  show ?case
  proof (cases "idx \<le> final")
    case True
    define off where "off = uint (xorshift_Next r AND (nextPowerOfTwo (b - a) - 1))"
    define other where "other = (if off \<ge> b - a then off - (b - a) else off)"
    have "0 \<le> off" "off < 2 * (b - a)" using random_offset [of "b - a"] less.prems(2) by (simp_all add: off_def)
    then have o: "0 \<le> other" "other < b - a" by (auto simp: other_def)
    let ?s = "If_Swap D s idx (a + other)"
    have r1: "rearr a b s ?s" using o less.prems True by (intro rearr_swap) auto
    have "rearr a b ?s (breakPatterns_loop D ?s a (b - a) (xorshift_Next r) (nextPowerOfTwo (b - a)) (idx + 1) final)"
      using less.prems True rearr_len [OF r1] by (intro less.hyps) auto
    then show ?thesis using r1 True perm_range_trans
      by (fastforce simp: breakPatterns_loop.simps [of D s a "b - a" r _ idx final] Let_def other_def off_def)
  qed (simp add: breakPatterns_loop.simps [of D s a "b - a" r _ idx final])
qed

lemma breakPatterns_perm:
  assumes "0 \<le> a" "b \<le> len s"
  shows "rearr a b s (breakPatterns D s a b)"
proof (cases "8 \<le> b - a")
  case True
  then have "2 \<le> (b - a) div 4" "4 * ((b - a) div 4) \<le> b - a" by auto
  then show ?thesis using assms True breakPatterns_loop_perm [of a b s] by (simp add: breakPatterns_def Let_def)
qed (simp add: breakPatterns_def)

lemma reverseRange_loop_perm:
  assumes "0 \<le> a" "b \<le> len s" "a \<le> i" "j < b"
  shows "rearr a b s (reverseRange_loop D s i j)"
  using assms
proof (induction "nat (j - i)" arbitrary: s i j rule: less_induct)
  case less
  show ?case
  proof (cases "i < j")
    case True
    let ?s = "If_Swap D s i j"
    have r: "rearr a b s ?s" using less.prems True by (intro rearr_swap) auto
    have "rearr a b ?s (reverseRange_loop D ?s (i + 1) (j - 1))"
      using less.prems True rearr_len [OF r] by (intro less.hyps) auto
    then show ?thesis using r True perm_range_trans by (auto simp: reverseRange_loop.simps [of D s i j])
  qed (simp add: reverseRange_loop.simps [of D s i j])
qed

lemma reverseRange_perm: "0 \<le> a \<Longrightarrow> b \<le> len s \<Longrightarrow> rearr a b s (reverseRange D s a b)"
  by (simp add: reverseRange_def reverseRange_loop_perm)

subsection \<open>pdqsort\<close>

text \<open>Around a pivot: two parts that are rearranged and sorted independently form a sorted range.\<close>

lemma rearr_keeps_low:
  assumes "rearr a m s t" "0 \<le> a" "m < len s" "a \<le> m" "\<forall>k. a \<le> k \<and> k < m \<longrightarrow> lt (elem s k) (elem s m)"
  shows "elem t m = elem s m" "\<forall>k. a \<le> k \<and> k < m \<longrightarrow> lt (elem t k) (elem t m)"
proof -
  show e: "elem t m = elem s m" using perm_range_outside [OF assms(1), of m] assms by simp
  show "\<forall>k. a \<le> k \<and> k < m \<longrightarrow> lt (elem t k) (elem t m)"
    unfolding e using perm_range_all [OF assms(1,2), of "\<lambda>x. lt x (elem s m)"] assms(3,5) by simp
qed

lemma rearr_keeps_high:
  assumes "rearr (m + 1) b s t" "0 \<le> m" "b \<le> len s" "m < b" "\<forall>k. m < k \<and> k < b \<longrightarrow> \<not> lt (elem s k) (elem s m)"
  shows "elem t m = elem s m" "\<forall>k. m < k \<and> k < b \<longrightarrow> \<not> lt (elem t k) (elem t m)"
proof -
  show e: "elem t m = elem s m" using perm_range_outside [OF assms(1), of m] assms by simp
  show "\<forall>k. m < k \<and> k < b \<longrightarrow> \<not> lt (elem t k) (elem t m)"
    unfolding e using perm_range_all [OF assms(1), of "\<lambda>x. \<not> lt x (elem s m)"] assms(2-5) by simp
qed

lemma sorted_around_pivot:
  assumes "\<forall>k. a \<le> k \<and> k < m \<longrightarrow> lt (elem t k) (elem t m)" "\<forall>k. m < k \<and> k < b \<longrightarrow> \<not> lt (elem t k) (elem t m)"
    "sorted_range lt a m (elems t)" "sorted_range lt (m + 1) b (elems t)"
  shows "sorted_range lt a b (elems t)"
proof -
  have "\<not> lt (elem t j) (elem t i)" if "a \<le> i" "i < j" "j < b" for i j
  proof -
    consider "j < m" | "j = m" | "i < m" "m < j" | "i = m" | "m < i" using that by linarith
    then show ?thesis
    proof cases
      case 1 then show ?thesis using assms(3) that by (simp add: sorted_range_def)
    next
      case 2 then show ?thesis using assms(1) that lt_asym by blast
    next
      case 3 then show ?thesis using assms(1,2) that lt_asym not_lt_trans by blast
    next
      case 4 then show ?thesis using assms(2) that by simp
    next
      case 5 then show ?thesis using assms(4) that by (simp add: sorted_range_def)
    qed
  qed
  then show ?thesis by (simp add: sorted_range_def)
qed

lemma sorted_after_equal:
  assumes "\<forall>k. a \<le> k \<and> k < m \<longrightarrow> \<not> lt (elem t k) (elem t a) \<and> \<not> lt (elem t a) (elem t k)"
    "\<forall>k. m \<le> k \<and> k < b \<longrightarrow> lt (elem t a) (elem t k)" "a < m" "sorted_range lt m b (elems t)"
  shows "sorted_range lt a b (elems t)"
proof (rule sorted_range_append [where m = m])
  show "sorted_range lt a m (elems t)" using assms(1) not_lt_trans unfolding sorted_range_def
    by (meson order_less_imp_le order_trans order_le_less_trans)
  fix i j assume "a \<le> i" "i < m" "m \<le> j" "j < b"
  then show "\<not> lt (elem t j) (elem t i)" using assms(1,2) lt_asym not_lt_trans by blast
qed (rule assms(4))

abbreviation split_at :: "int \<Rightarrow> int \<Rightarrow> int \<Rightarrow> 's \<Rightarrow> bool" where
  "split_at a m b t \<equiv> split_range lt a m b (elems t)"

lemma split_at_low:
  assumes "split_at a m b s" "rearr a m s t" "0 \<le> a" "a \<le> m" "m < b" "b \<le> len s"
  shows "split_at a m b t" "rearr a b s t" "\<And>k. m \<le> k \<Longrightarrow> k < b \<Longrightarrow> elem t k = elem s k"
proof -
  show out: "elem t k = elem s k" if "m \<le> k" "k < b" for k
    using perm_range_outside [OF assms(2), of k] that assms(3-6) by simp
  show "split_at a m b t"
    using rearr_keeps_low [OF assms(2)] assms(1,3-6) out by (auto simp: split_range_def)
  show "rearr a b s t" using assms(2,5) by (auto elim: perm_range_mono)
qed

lemma split_at_high:
  assumes "split_at a m b s" "rearr (m + 1) b s t" "0 \<le> a" "a \<le> m" "m < b" "b \<le> len s"
  shows "split_at a m b t" "rearr a b s t" "\<And>k. a \<le> k \<Longrightarrow> k \<le> m \<Longrightarrow> elem t k = elem s k"
proof -
  show out: "elem t k = elem s k" if "a \<le> k" "k \<le> m" for k
    using perm_range_outside [OF assms(2), of k] that assms(3-6) by simp
  show "split_at a m b t"
    using rearr_keeps_high [OF assms(2)] assms(1,3-6) out by (auto simp: split_range_def)
  show "rearr a b s t" using assms(2,4) by (auto elim: perm_range_mono)
qed

lemma sort_low_high:
  assumes "split_at a m b s" "rearr a m s t \<and> sorted_range lt a m (elems t)"
    "rearr (m + 1) b t u \<and> sorted_range lt (m + 1) b (elems u)" "0 \<le> a" "a \<le> m" "m < b" "b \<le> len s"
  shows "rearr a b s u \<and> sorted_range lt a b (elems u)"
proof -
  note lo = split_at_low [OF assms(1) conjunct1 [OF assms(2)] assms(4-7)]
  have "b \<le> len t" using rearr_len [OF lo(2)] assms(7) by simp
  note hi = split_at_high [OF lo(1) conjunct1 [OF assms(3)] assms(4-6) this]
  have "sorted_range lt a m (elems u)" using assms(2) hi(3) by (subst sorted_range_cong [where ys = "elems t"]) auto
  then show ?thesis using sorted_around_pivot [of a m u b] hi(1) assms(3) lo(2) hi(2) perm_range_trans unfolding split_range_def by blast
qed

lemma sort_high_low:
  assumes "split_at a m b s" "rearr (m + 1) b s t \<and> sorted_range lt (m + 1) b (elems t)"
    "rearr a m t u \<and> sorted_range lt a m (elems u)" "0 \<le> a" "a \<le> m" "m < b" "b \<le> len s"
  shows "rearr a b s u \<and> sorted_range lt a b (elems u)"
proof -
  note hi = split_at_high [OF assms(1) conjunct1 [OF assms(2)] assms(4-7)]
  have "b \<le> len t" using rearr_len [OF hi(2)] assms(7) by simp
  note lo = split_at_low [OF hi(1) conjunct1 [OF assms(3)] assms(4-6) this]
  have "sorted_range lt (m + 1) b (elems u)" using assms(2) lo(3) by (subst sorted_range_cong [where ys = "elems t"]) auto
  then show ?thesis using sorted_around_pivot [of a m u b] lo(1) assms(3) lo(2) hi(2) perm_range_trans unfolding split_range_def by blast
qed

lemma pdqsort_loop_correct:
  assumes "0 \<le> a" "a \<le> b" "b \<le> len s" "a > 0 \<longrightarrow> (\<forall>k. a \<le> k \<and> k < b \<longrightarrow> \<not> lt (elem s k) (elem s (a - 1)))"
  shows "rearr a b s (pdqsort_loop D s a b limit wb wp) \<and> sorted_range lt a b (elems (pdqsort_loop D s a b limit wb wp))"
  using assms
proof (induction "nat (b - a)" arbitrary: s a b limit wb wp rule: less_induct)
  case less
  note bo = less.prems(1-3)
  have lb: "\<forall>k. a \<le> k \<and> k < b \<longrightarrow> \<not> lt (elem t k) (elem t (a - 1))" if "rearr a b s t" "a > 0" for t
    using perm_range_all [OF that(1), of "\<lambda>x. \<not> lt x (elem s (a - 1))"] perm_range_outside [OF that(1), of "a - 1"]
      that(2) less.prems by simp
  show ?case
  proof (cases "b - a \<le> 12 \<or> limit = 0")
    case True
    then show ?thesis using bo insertionSort_correct [of a b s] heapSort_correct [of a b s]
      by (cases "b - a \<le> 12") (simp_all add: pdqsort_loop.simps [of D s a b] Let_def)
  next
    case False
    define s1 limit1 where "s1 = (if \<not> wb then breakPatterns D s a b else s)" and "limit1 = (if \<not> wb then limit - 1 else limit)"
    obtain pivot hint where ch: "choosePivot D s1 a b = (pivot, hint)" by fastforce
    define s2 where "s2 = (if hint = decreasingHint then reverseRange D s1 a b else s1)"
    define pivot2 where "pivot2 = (if hint = decreasingHint then b - 1 - (pivot - a) else pivot)"
    define hint2 where "hint2 = (if hint = decreasingHint then increasingHint else hint)"
    obtain s3 ok where pi: "(if wb \<and> wp \<and> hint2 = increasingHint then partialInsertionSort D s2 a b else (s2, False)) = (s3, ok)"
      by fastforce
    have eq: "pdqsort_loop D s a b limit wb wp =
       (if ok then s3
        else if a > 0 \<and> \<not> If_Less D s3 (a - 1) pivot2 then
          let (s, mid) = partitionEqual D s3 a b pivot2 in pdqsort_loop D s mid b limit1 wb wp
        else
          let (s, mid, ap) = partition_range D s3 a b pivot2 in
          if mid - a < b - mid then
            pdqsort_loop D (pdqsort_loop D s a mid limit1 True True) (mid + 1) b limit1 (mid - a \<ge> (b - a) div 8) ap
          else
            pdqsort_loop D (pdqsort_loop D s (mid + 1) b limit1 True True) a mid limit1 (b - mid \<ge> (b - a) div 8) ap)"
      using False ch pi unfolding pdqsort_loop.simps [of D s a b limit wb wp] s1_def limit1_def s2_def pivot2_def hint2_def
      by (cases wb; cases wp; cases hint) (simp_all add: Let_def)
    have pv: "a \<le> pivot2" "pivot2 < b" using choosePivot_range [of b a s1] False ch by (auto simp: pivot2_def)
    have r1: "rearr a b s s1" using bo by (auto simp: s1_def breakPatterns_perm)
    have r2: "rearr a b s1 s2" using bo rearr_len [OF r1] by (auto simp: s2_def reverseRange_perm)
    have r12: "rearr a b s s2" using r1 r2 perm_range_trans by blast
    have n2: "length (elems s2) = length (elems s)" using rearr_len [OF r12] .
    have r3: "rearr a b s2 s3 \<and> (ok \<longrightarrow> sorted_range lt a b (elems s3))"
    proof (cases "wb \<and> wp \<and> hint2 = increasingHint")
      case True
      then show ?thesis using pi False bo n2 lb [OF r12] by (intro partialInsertionSort_correct) auto
    qed (use pi in auto)
    have r: "rearr a b s s3" using r12 r3 perm_range_trans by blast
    have n3: "length (elems s3) = length (elems s)" using rearr_len [OF r] .
    show ?thesis
    proof (cases ok)
      case True
      then show ?thesis using eq r r3 by simp
    next
      case nok: False
      show ?thesis
      proof (cases "a > 0 \<and> \<not> If_Less D s3 (a - 1) pivot2")
        case True
        obtain s4 mid where pe: "partitionEqual D s3 a b pivot2 = (s4, mid)" by fastforce
        have "\<not> lt (elem s3 (a - 1)) (elem s3 pivot2)" using True pv bo n3 by (auto simp: Less_elems)
        then have "\<forall>k. a \<le> k \<and> k < b \<longrightarrow> \<not> lt (elem s3 k) (elem s3 pivot2)" using lb [OF r] True not_lt_trans by blast
        then have p: "rearr a b s3 s4 \<and> a < mid \<and> mid \<le> b \<and>
          (\<forall>k. a \<le> k \<and> k < mid \<longrightarrow> \<not> lt (elem s4 k) (elem s4 a) \<and> \<not> lt (elem s4 a) (elem s4 k)) \<and>
          (\<forall>k. mid \<le> k \<and> k < b \<longrightarrow> lt (elem s4 a) (elem s4 k))"
          using pe pv bo n3 by (intro partitionEqual_correct) auto
        let ?s5 = "pdqsort_loop D s4 mid b limit1 wb wp"
        have n4: "length (elems s4) = length (elems s)" using rearr_len [of a b s3 s4] p n3 by simp
        have "\<not> lt (elem s4 k) (elem s4 (mid - 1))" if "mid \<le> k" "k < b" for k
        proof -
          have "lt (elem s4 a) (elem s4 k)" "\<not> lt (elem s4 a) (elem s4 (mid - 1))" using p that by auto
          then show ?thesis using lt_asym not_lt_trans by blast
        qed
        then have st: "rearr mid b s4 ?s5 \<and> sorted_range lt mid b (elems ?s5)"
          using p bo n4 by (intro less.hyps) auto
        have out: "elem ?s5 k = elem s4 k" if "a \<le> k" "k < mid" for k
          using perm_range_outside [OF conjunct1 [OF st], of k] p bo n4 that by simp
        have "\<forall>k. mid \<le> k \<and> k < b \<longrightarrow> lt (elem ?s5 a) (elem ?s5 k)"
          using perm_range_all [OF conjunct1 [OF st], of "\<lambda>x. lt (elem s4 a) x"] p bo n4 out [of a] by simp
        then have "sorted_range lt a b (elems ?s5)"
          using st p out by (intro sorted_after_equal [of a mid]) auto
        moreover have "rearr a b s4 ?s5" using st p by (auto elim: perm_range_mono)
        then have "rearr a b s ?s5" using r p perm_range_trans by blast
        ultimately show ?thesis using eq nok True pe by simp
      next
        case pa: False
        obtain s4 mid ap where pe: "partition_range D s3 a b pivot2 = (s4, mid, ap)" by (metis prod_cases3)
        have p: "rearr a b s3 s4 \<and> a \<le> mid \<and> mid < b \<and> (\<forall>k. a \<le> k \<and> k < mid \<longrightarrow> lt (elem s4 k) (elem s4 mid)) \<and>
          (\<forall>k. mid < k \<and> k < b \<longrightarrow> \<not> lt (elem s4 k) (elem s4 mid))"
          using pe pv bo n3 by (intro partition_range_correct) auto
        have r4: "rearr a b s s4" using r p perm_range_trans by blast
        have n4: "length (elems s4) = length (elems s)" using rearr_len [OF r4] .
        have sp: "split_at a mid b s4" using p by (simp add: split_range_def)
        have inv: "b \<le> len t" "a > 0 \<longrightarrow> (\<forall>k. a \<le> k \<and> k < mid \<longrightarrow> \<not> lt (elem t k) (elem t (a - 1)))"
            "\<forall>k. mid + 1 \<le> k \<and> k < b \<longrightarrow> \<not> lt (elem t k) (elem t (mid + 1 - 1))"
          if "rearr a b s4 t" "split_at a mid b t" for t
          using that(2) lb [OF perm_range_trans [OF r4 that(1)]] rearr_len [OF that(1)] n4 bo p by (auto simp: split_range_def)
        show ?thesis
        proof (cases "mid - a < b - mid")
          case True
          let ?s5 = "pdqsort_loop D s4 a mid limit1 True True"
          let ?s6 = "pdqsort_loop D ?s5 (mid + 1) b limit1 (mid - a \<ge> (b - a) div 8) ap"
          have s5: "rearr a mid s4 ?s5 \<and> sorted_range lt a mid (elems ?s5)"
            using inv [OF _ sp] p bo n4 by (intro less.hyps) auto
          note lo = split_at_low [OF sp conjunct1 [OF s5]]
          have "rearr (mid + 1) b ?s5 ?s6 \<and> sorted_range lt (mid + 1) b (elems ?s6)"
            using inv [of ?s5] lo p bo n4 by (intro less.hyps) auto
          then have "rearr a b s4 ?s6 \<and> sorted_range lt a b (elems ?s6)"
            using s5 sp p bo n4 by (intro sort_low_high [of a mid b s4 ?s5]) auto
          then show ?thesis using eq nok pa pe True r4 perm_range_trans by auto
        next
          case False
          let ?s5 = "pdqsort_loop D s4 (mid + 1) b limit1 True True"
          let ?s6 = "pdqsort_loop D ?s5 a mid limit1 (b - mid \<ge> (b - a) div 8) ap"
          have s5: "rearr (mid + 1) b s4 ?s5 \<and> sorted_range lt (mid + 1) b (elems ?s5)"
            using inv [OF _ sp] p bo n4 by (intro less.hyps) auto
          note hi = split_at_high [OF sp conjunct1 [OF s5]]
          have "rearr a mid ?s5 ?s6 \<and> sorted_range lt a mid (elems ?s6)"
            using inv [of ?s5] hi p bo n4 by (intro less.hyps) auto
          then have "rearr a b s4 ?s6 \<and> sorted_range lt a b (elems ?s6)"
            using s5 sp p bo n4 by (intro sort_high_low [of a mid b s4 ?s5]) auto
          then show ?thesis using eq nok pa pe False r4 perm_range_trans by auto
        qed
      qed
    qed
  qed
qed

lemma pdqsort_correct:
  "0 \<le> n \<Longrightarrow> n \<le> len s \<Longrightarrow> rearr 0 n s (pdqsort D s 0 n limit) \<and> sorted_range lt 0 n (elems (pdqsort D s 0 n limit))"
  unfolding pdqsort_def by (rule pdqsort_loop_correct) auto

lemma Sort_correct: "mset (elems (Sort D s)) = mset (elems s) \<and> sorted_range lt 0 (len s) (elems (Sort D s))"
proof (cases "len s \<le> 1")
  case True
  then show ?thesis by (simp add: Sort_def Len_elems sorted_range_single)
next
  case False
  then show ?thesis using pdqsort_correct [of "len s" s] by (simp add: Sort_def Len_elems Let_def perm_range_def)
qed

lemma IsSorted_loop_correct: "i < len s \<Longrightarrow> IsSorted_loop D s i \<longleftrightarrow> (\<forall>k. 0 < k \<and> k \<le> i \<longrightarrow> \<not> lt (elem s k) (elem s (k - 1)))"
proof (induction "nat i" arbitrary: i rule: less_induct)
  case less
  show ?case
  proof (cases "i > 0")
    case True
    then have "IsSorted_loop D s i \<longleftrightarrow> \<not> lt (elem s i) (elem s (i - 1)) \<and> IsSorted_loop D s (i - 1)"
      using less.prems by (simp add: IsSorted_loop.simps [of D s i] Less_elems)
    also have "\<dots> \<longleftrightarrow> \<not> lt (elem s i) (elem s (i - 1)) \<and> (\<forall>k. 0 < k \<and> k \<le> i - 1 \<longrightarrow> \<not> lt (elem s k) (elem s (k - 1)))"
      using less True by simp
    also have "\<dots> \<longleftrightarrow> (\<forall>k. 0 < k \<and> k \<le> i \<longrightarrow> \<not> lt (elem s k) (elem s (k - 1)))"
      using True by (metis zle_diff1_eq order_le_less)
    finally show ?thesis .
  qed (auto simp: IsSorted_loop.simps [of D s i])
qed

lemma IsSorted_correct: "IsSorted D s \<longleftrightarrow> sorted_range lt 0 (len s) (elems s)"
proof -
  have "IsSorted D s \<longleftrightarrow> (\<forall>k. 0 < k \<and> k \<le> len s - 1 \<longrightarrow> \<not> lt (elem s k) (elem s (k - 1)))"
    by (simp add: IsSorted_def Len_elems IsSorted_loop_correct)
  moreover have "sorted_range lt 0 (len s) (elems s) \<Longrightarrow> 0 < k \<Longrightarrow> k < len s \<Longrightarrow> \<not> lt (elem s k) (elem s (k - 1))" for k
    by (simp add: sorted_range_def)
  ultimately show ?thesis using sorted_range_adjacent [of 0 "len s" "elems s"] by auto
qed

end
end
