(* ===== verification/Sort_Stable.thy ===== *)
theory Sort_Stable
  imports Sort_Pdq
begin

text \<open>
  Stable sorting: insertion sort of blocks, then \<open>symMerge\<close> passes over block swapping \<open>rotate\<close>. A
  rearrangement is stable (\<open>stable_perm\<close>) when every class of equivalent elements keeps its order;
  the two facts behind it are that exchanging adjacent blocks, every element of the second below
  every element of the first, is stable (\<open>stable_rotate\<close>), and that the symmetric binary search of
  \<open>symMerge\<close> finds such blocks (\<open>symMerge_halves\<close>).
\<close>

section \<open>Stable rearrangement\<close>

definition stable_perm :: "('a \<Rightarrow> 'a \<Rightarrow> bool) \<Rightarrow> 'a list \<Rightarrow> 'a list \<Rightarrow> bool" where
  "stable_perm lt xs ys \<longleftrightarrow>
     (\<forall>x. filter (\<lambda>y. \<not> lt x y \<and> \<not> lt y x) ys = filter (\<lambda>y. \<not> lt x y \<and> \<not> lt y x) xs)"

lemma stable_perm_refl [simp, intro]: "stable_perm lt xs xs"
  by (simp add: stable_perm_def)

lemma stable_perm_trans: "stable_perm lt xs ys \<Longrightarrow> stable_perm lt ys zs \<Longrightarrow> stable_perm lt xs zs"
  by (simp add: stable_perm_def)

context strict_weak_order
begin

lemma stable_rotate:
  assumes "\<And>p q. p \<in> set A \<Longrightarrow> q \<in> set B \<Longrightarrow> lt q p"
  shows "stable_perm lt (U @ A @ B @ V) (U @ B @ A @ V)"
  unfolding stable_perm_def
proof
  fix x
  let ?e = "\<lambda>y. \<not> lt x y \<and> \<not> lt y x"
  have "filter ?e A = [] \<or> filter ?e B = []"
  proof (rule ccontr)
    assume "\<not> ?thesis"
    then obtain p q where "p \<in> set A" "?e p" "q \<in> set B" "?e q" by (auto simp: filter_empty_conv)
    then show False using assms [of p q] not_lt_trans by blast
  qed
  then show "filter ?e (U @ B @ A @ V) = filter ?e (U @ A @ B @ V)" by auto
qed

end

lemma slice_swap_lists:
  "slice_swap (U @ [x] @ V @ [y] @ W) (int (length U)) (int (length U + 1 + length V)) = U @ [y] @ V @ [x] @ W"
  by (simp add: slice_swap_def list_update_append nth_append nat_add_distrib)

lemma slice_swap_commute: "slice_swap xs i j = slice_swap xs j i"
  by (cases "nat i = nat j") (auto simp: slice_swap_def list_update_swap)

lemma list_split2: "Suc k < length xs \<Longrightarrow> \<exists>U x y W. xs = U @ [x] @ [y] @ W \<and> length U = k \<and> xs ! k = x \<and> xs ! Suc k = y"
  by (intro exI [of _ "take k xs"] exI [of _ "xs ! k"] exI [of _ "xs ! Suc k"] exI [of _ "drop (Suc (Suc k)) xs"])
    (simp add: Cons_nth_drop_Suc id_take_nth_drop [symmetric])

lemma list_ne_length: "0 < length xs \<Longrightarrow> xs \<noteq> []"
  by auto

text \<open>A list sorted in blocks of \<open>w\<close> elements, counted from the front.\<close>

definition blocks_sorted :: "('a \<Rightarrow> 'a \<Rightarrow> bool) \<Rightarrow> int \<Rightarrow> int \<Rightarrow> 'a list \<Rightarrow> bool" where
  "blocks_sorted lt w n xs \<longleftrightarrow> (\<forall>k. 0 \<le> k \<longrightarrow> sorted_range lt (k * w) (min (k * w + w) n) xs)"

text \<open>Binary search for the end of a downward closed predicate.\<close>

lemma bisect_spec:
  assumes "i \<le> j" "\<And>h h'. i \<le> h \<Longrightarrow> h \<le> h' \<Longrightarrow> h' < j \<Longrightarrow> P h' \<Longrightarrow> P h"
  shows "(\<forall>h. i \<le> h \<and> h < bisect P i j \<longrightarrow> P h) \<and> (\<forall>h. bisect P i j \<le> h \<and> h < j \<longrightarrow> \<not> P h)"
  using assms
proof (induction P i j rule: bisect.induct)
  case (1 P i j)
  show ?case
  proof (cases "i < j")
    case True
    let ?h = "(i + j) div 2"
    have h: "i \<le> ?h" "?h < j" using True by auto
    show ?thesis
    proof (cases "P ?h")
      case p: True
      have ind: "(\<forall>h. ?h + 1 \<le> h \<and> h < bisect P (?h + 1) j \<longrightarrow> P h) \<and> (\<forall>h. bisect P (?h + 1) j \<le> h \<and> h < j \<longrightarrow> \<not> P h)"
        by (rule 1(1) [OF True refl p]) (use h 1(4) in auto)
      moreover have "P h" if "i \<le> h" "h < ?h + 1" for h using 1(4) [of h ?h] that h p by simp
      ultimately have "\<forall>h. i \<le> h \<and> h < bisect P (?h + 1) j \<longrightarrow> P h" by (meson not_le)
      then show ?thesis using True p ind by (simp add: bisect.simps [of P i j] Let_def)
    next
      case p: False
      have n: "\<not> P h" if "?h \<le> h" "h < j" for h using 1(4) [of ?h h] that h p by blast
      have ind: "(\<forall>h. i \<le> h \<and> h < bisect P i ?h \<longrightarrow> P h) \<and> (\<forall>h. bisect P i ?h \<le> h \<and> h < ?h \<longrightarrow> \<not> P h)"
        by (rule 1(2) [OF True refl p]) (use h 1(4) in auto)
      then have "\<forall>h. bisect P i ?h \<le> h \<and> h < j \<longrightarrow> \<not> P h" using n by (meson not_le)
      then show ?thesis using True p ind by (simp add: bisect.simps [of P i j] Let_def)
    qed
  qed (auto simp: bisect.simps [of P i j])
qed

context sort_data
begin

abbreviation srearr :: "int \<Rightarrow> int \<Rightarrow> 's \<Rightarrow> 's \<Rightarrow> bool" where
  "srearr a b s t \<equiv> perm_range a b (elems s) (elems t) \<and> stable_perm lt (elems s) (elems t)"

lemma srearr_trans: "srearr a b s t \<Longrightarrow> srearr a b t u \<Longrightarrow> srearr a b s u"
  using perm_range_trans stable_perm_trans by blast

lemma srearr_mono: "srearr a b s t \<Longrightarrow> a' \<le> a \<Longrightarrow> b \<le> b' \<Longrightarrow> srearr a' b' s t"
  using perm_range_mono by blast

lemma srearr_swap:
  assumes "0 \<le> a" "b \<le> len s" "a \<le> k" "k + 1 < b" "lt (elem s (k + 1)) (elem s k)"
  shows "srearr a b s (If_Swap D s k (k + 1))" "srearr a b s (If_Swap D s (k + 1) k)"
proof -
  define n where "n = nat k"
  have k: "k = int n" "k + 1 = int (Suc n)" using assms by (auto simp: n_def)
  have n: "Suc n < length (elems s)" using assms k by linarith
  obtain U x y W where e: "elems s = U @ [x] @ [y] @ W" "length U = n" "elems s ! n = x" "elems s ! Suc n = y"
    using list_split2 [OF n] by blast
  have "int (length U + 1 + length ([] :: 'a list)) = k + 1" "int (length U) = k" using e(2) k by simp_all
  then have "slice_swap (elems s) k (k + 1) = U @ [y] @ [x] @ W"
    using slice_swap_lists [of U x "[]" y W] by (simp only: e(1) append_Nil)
  moreover have "nat k = n" "nat (k + 1) = Suc n" using assms by (auto simp: n_def)
  then have "lt y x" using assms(5) e(3,4) by simp
  ultimately have "stable_perm lt (elems s) (slice_swap (elems s) k (k + 1))"
    using stable_rotate [of "[x]" "[y]" U W] e(1) by simp
  then show "srearr a b s (If_Swap D s k (k + 1))" "srearr a b s (If_Swap D s (k + 1) k)"
    using assms rearr_swap [of a b s k "k + 1"] by (simp_all add: Swap_elems slice_swap_commute [of _ "k + 1" k])
qed

lemma insertionSort_shift_stable:
  assumes "0 \<le> a" "j < b" "b \<le> len s"
  shows "stable_perm lt (elems s) (elems (insertionSort_shift D s a j))"
  using assms
proof (induction "nat j" arbitrary: s j rule: less_induct)
  case less
  show ?case
  proof (cases "j > a \<and> If_Less D s j (j - 1)")
    case True
    let ?s = "If_Swap D s j (j - 1)"
    have l: "lt (elem s (j - 1 + 1)) (elem s (j - 1))" using True less.prems by (auto simp: Less_elems)
    have r: "srearr a b s ?s" using srearr_swap(2) [of a b s "j - 1", OF _ _ _ _ l] True less.prems by simp
    have "stable_perm lt (elems ?s) (elems (insertionSort_shift D ?s a (j - 1)))"
      using True less.prems rearr_len [OF conjunct1 [OF r]] by (intro less.hyps) auto
    then show ?thesis using True r stable_perm_trans by (auto simp: insertionSort_shift.simps [of D s a j])
  qed (auto simp: insertionSort_shift.simps [of D s a j])
qed

lemma insertionSort_loop_stable:
  assumes "0 \<le> a" "a < i" "b \<le> len s" "sorted_range lt a i (elems s)"
  shows "stable_perm lt (elems s) (elems (insertionSort_loop D s a b i))"
  using assms
proof (induction "nat (b - i)" arbitrary: s i rule: less_induct)
  case less
  show ?case
  proof (cases "i < b")
    case True
    let ?s = "insertionSort_shift D s a i"
    have st: "rearr a (i + 1) s ?s \<and> sorted_range lt a (i + 1) (elems ?s)"
      using less.prems True by (intro insertionSort_shift_correct) (auto simp: sorted_range_def)
    then have "stable_perm lt (elems ?s) (elems (insertionSort_loop D ?s a b (i + 1)))"
      using less.prems True rearr_len [OF conjunct1 [OF st]] by (intro less.hyps) auto
    moreover have "stable_perm lt (elems s) (elems ?s)"
      using less.prems True by (intro insertionSort_shift_stable [of a i b]) auto
    ultimately show ?thesis using True stable_perm_trans by (auto simp: insertionSort_loop.simps [of D s a b i])
  qed (simp add: insertionSort_loop.simps [of D s a b i])
qed

lemma insertionSort_stable:
  "0 \<le> a \<Longrightarrow> b \<le> len s \<Longrightarrow> srearr a b s (insertionSort D s a b) \<and> sorted_range lt a b (elems (insertionSort D s a b))"
  using insertionSort_correct [of a b s] insertionSort_loop_stable [of a "a + 1" b s]
  by (simp add: insertionSort_def sorted_range_single)

subsection \<open>Rotation\<close>

lemma swapRange_loop_lists:
  assumes "elems s = X @ B1 @ A2 @ M @ A1 @ B2 @ Y" "length A1 = length B1" "length A2 = length B2"
    "a = int (length X)" "b = int (length X + length A1 + length A2 + length M)" "n = int (length A1 + length A2)" "i = int (length A1)"
  shows "elems (swapRange_loop D s a b n i) = X @ B1 @ B2 @ M @ A1 @ A2 @ Y"
  using assms
proof (induction A2 arbitrary: s B1 A1 B2 i)
  case Nil
  then have "\<not> i < n" by simp
  then have "swapRange_loop D s a b n i = s" by (simp add: swapRange_loop.simps [of D s a b n i])
  then show ?case using Nil by simp
next
  case (Cons x A2)
  then obtain y B2' where B2: "B2 = y # B2'" by (cases B2) auto
  let ?s = "If_Swap D s (a + i) (b + i)"
  have p: "a + i = int (length (X @ B1))" "b + i = int (length (X @ B1) + 1 + length (A2 @ M @ A1))"
    using Cons.prems by auto
  have e: "elems s = (X @ B1) @ [x] @ (A2 @ M @ A1) @ [y] @ (B2' @ Y)" using Cons.prems(1) B2 by simp
  have "elems ?s = slice_swap (elems s) (a + i) (b + i)"
    using p e by (intro Swap_elems) auto
  also have "\<dots> = (X @ B1) @ [y] @ (A2 @ M @ A1) @ [x] @ (B2' @ Y)"
    unfolding e p by (rule slice_swap_lists)
  finally have e': "elems ?s = X @ (B1 @ [y]) @ A2 @ M @ (A1 @ [x]) @ B2' @ Y" by simp
  have "elems (swapRange_loop D ?s a b n (i + 1)) = X @ (B1 @ [y]) @ B2' @ M @ (A1 @ [x]) @ A2 @ Y"
    using Cons.prems B2 by (intro Cons.IH [OF e']) auto
  moreover have "i < n" unfolding Cons.prems(6,7) by simp
  then have "swapRange_loop D s a b n i = swapRange_loop D ?s a b n (i + 1)" by (simp add: swapRange_loop.simps [of D s a b n i])
  ultimately show ?case using B2 by simp
qed

lemma swapRange_lists:
  assumes "elems s = X @ A @ M @ B @ Y" "length A = length B" "a = int (length X)"
    "b = int (length X + length A + length M)" "n = int (length A)"
  shows "elems (swapRange D s a b n) = X @ B @ M @ A @ Y"
  using swapRange_loop_lists [of s X "[]" A M "[]" B Y a b n 0] assms by (simp add: swapRange_def)

lemma rotate_loop_lists:
  assumes "elems s = X @ U @ V @ Y" "U \<noteq> []" "V \<noteq> []" "m = int (length X + length U)" "i = int (length U)" "j = int (length V)"
  shows "\<exists>t k. rotate_loop D s m i j = Some (t, k) \<and> elems (swapRange D t (m - k) m k) = X @ V @ U @ Y"
  using assms
proof (induction "length U + length V" arbitrary: s X U V Y i j rule: less_induct)
  case less
  note e = less.prems(1)
  consider "i = j" | "i > j" | "i < j" by linarith
  then show ?case
  proof cases
    case 1
    then have "elems (swapRange D s (m - i) m i) = X @ V @ [] @ U @ Y"
      using less.prems by (intro swapRange_lists) auto
    then show ?thesis using 1 by (simp add: rotate_loop.simps [of D s m j j])
  next
    case 2
    define U1 U2 where "U1 = take (nat j) U" and "U2 = drop (nat j) U"
    have u: "U = U1 @ U2" "length U1 = length V" "U2 \<noteq> []" "U1 \<noteq> []" using 2 less.prems by (auto simp: U1_def U2_def)
    let ?s = "swapRange D s (m - i) m j"
    have "elems ?s = X @ V @ U2 @ U1 @ Y" using less.prems u by (intro swapRange_lists) auto
    then have "\<exists>t k. rotate_loop D ?s m (i - j) j = Some (t, k) \<and> elems (swapRange D t (m - k) m k) = (X @ V) @ U1 @ U2 @ Y"
      using less.prems u by (intro less.hyps) auto
    moreover have "0 < j" using less.prems by simp
    then have "rotate_loop D s m i j = rotate_loop D ?s m (i - j) j" using 2 by (simp add: rotate_loop.simps [of D s m i j])
    ultimately show ?thesis using u by simp
  next
    case 3
    define V1 V2 where "V1 = take (length V - length U) V" and "V2 = drop (length V - length U) V"
    have v: "V = V1 @ V2" "length V2 = length U" "V1 \<noteq> []" "V2 \<noteq> []"
    proof -
      have l: "0 < length U" "length U < length V" using 3 less.prems(2,5,6) by simp_all
      show "V = V1 @ V2" by (simp add: V1_def V2_def)
      have "length V1 = length V - length U" "length V2 = length U" using l by (simp_all add: V1_def V2_def)
      then show "length V2 = length U" "V1 \<noteq> []" "V2 \<noteq> []" using l by (simp, (intro list_ne_length, linarith)+)
    qed
    let ?s = "swapRange D s (m - i) (m + j - i) i"
    have "elems ?s = X @ V2 @ V1 @ U @ Y" using less.prems v by (intro swapRange_lists) auto
    then have "\<exists>t k. rotate_loop D ?s m i (j - i) = Some (t, k) \<and> elems (swapRange D t (m - k) m k) = X @ V1 @ V2 @ (U @ Y)"
      using less.prems v by (intro less.hyps) auto
    moreover have "0 < i" using less.prems by simp
    then have "rotate_loop D s m i j = rotate_loop D ?s m i (j - i)" using 3 by (simp add: rotate_loop.simps [of D s m i j])
    ultimately show ?thesis using v by simp
  qed
qed

lemma slice_of_split3:
  assumes "0 \<le> a" "a \<le> m" "m \<le> b" "b \<le> int (length xs)"
  shows "xs = take (nat a) xs @ slice_of a m xs @ slice_of m b xs @ drop (nat b) xs"
  using slice_of_split [of a m xs] slice_of_split [of m b xs] assms
  by (metis append_take_drop_id same_append_eq order_trans)

lemma rotate_blocks_lists:
  assumes "0 \<le> a" "a < m" "m < b" "b \<le> len s"
  shows "\<exists>t. rotate_blocks D s a m b = Some t \<and>
    elems t = take (nat a) (elems s) @ slice_of m b (elems s) @ slice_of a m (elems s) @ drop (nat b) (elems s)"
proof -
  let ?U = "slice_of a m (elems s)" and ?V = "slice_of m b (elems s)"
  have l: "length ?U = nat (m - a)" "length ?V = nat (b - m)" using assms by (auto simp: length_slice_of)
  have "\<exists>t k. rotate_loop D s m (m - a) (b - m) = Some (t, k) \<and>
     elems (swapRange D t (m - k) m k) = take (nat a) (elems s) @ ?V @ ?U @ drop (nat b) (elems s)"
    using assms l by (intro rotate_loop_lists [OF slice_of_split3 [of a m b "elems s"]]) auto
  then show ?thesis by (auto simp: rotate_blocks_def)
qed

subsection \<open>SymMerge\<close>

lemma symMerge_up_correct:
  assumes "0 \<le> k" "k < i" "i \<le> len s" "\<forall>h. k < h \<and> h < i \<longrightarrow> lt (elem s h) (elem s k)"
  shows "srearr k i s (symMerge_up D s i k) \<and> elem (symMerge_up D s i k) (i - 1) = elem s k \<and>
    (\<forall>h. k \<le> h \<and> h < i - 1 \<longrightarrow> elem (symMerge_up D s i k) h = elem s (h + 1))"
  using assms
proof (induction "nat (i - k)" arbitrary: s k rule: less_induct)
  case less
  show ?case
  proof (cases "k < i - 1")
    case False
    then have "symMerge_up D s i k = s" "i - 1 = k" using less.prems(2) by (auto simp: symMerge_up.simps [of D s i k])
    then show ?thesis by auto
  next
    case True
    let ?s = "If_Swap D s k (k + 1)"
    have r: "srearr k i s ?s" using less.prems True by (intro srearr_swap(1)) auto
    have at: "elem ?s h = (if h = k + 1 then elem s k else if h = k then elem s (k + 1) else elem s h)" if "k \<le> h" "h < i" for h
      using that less.prems True by (intro elem_swap) auto
    have ih: "srearr (k + 1) i ?s (symMerge_up D ?s i (k + 1)) \<and> elem (symMerge_up D ?s i (k + 1)) (i - 1) = elem ?s (k + 1) \<and>
      (\<forall>h. k + 1 \<le> h \<and> h < i - 1 \<longrightarrow> elem (symMerge_up D ?s i (k + 1)) h = elem ?s (h + 1))"
      using less.prems True at rearr_len [OF conjunct1 [OF r]] by (intro less.hyps) auto
    have eq: "symMerge_up D s i k = symMerge_up D ?s i (k + 1)" using True by (simp add: symMerge_up.simps [of D s i k])
    have "elem (symMerge_up D ?s i (k + 1)) k = elem ?s k"
      using perm_range_outside [OF conjunct1 [OF conjunct1 [OF ih]], of k] less.prems rearr_len [OF conjunct1 [OF r]] by simp
    then have "elem (symMerge_up D ?s i (k + 1)) h = elem s (h + 1)" if "k \<le> h" "h < i - 1" for h
      using ih at [of k] at [of "h + 1"] that True by (cases "h = k") auto
    moreover have "srearr k i s (symMerge_up D ?s i (k + 1))"
      by (rule srearr_trans [OF r srearr_mono [OF conjunct1 [OF ih]]]) auto
    moreover have "elem (symMerge_up D ?s i (k + 1)) (i - 1) = elem s k" using ih at [of "k + 1"] True by simp
    ultimately show ?thesis unfolding eq by blast
  qed
qed

lemma symMerge_down_correct:
  assumes "0 \<le> i" "i \<le> k" "k < len s" "\<forall>h. i \<le> h \<and> h < k \<longrightarrow> lt (elem s k) (elem s h)"
  shows "srearr i (k + 1) s (symMerge_down D s i k) \<and> elem (symMerge_down D s i k) i = elem s k \<and>
    (\<forall>h. i < h \<and> h \<le> k \<longrightarrow> elem (symMerge_down D s i k) h = elem s (h - 1))"
  using assms
proof (induction "nat (k - i)" arbitrary: s k rule: less_induct)
  case less
  show ?case
  proof (cases "k > i")
    case False
    then have "symMerge_down D s i k = s" by (simp add: symMerge_down.simps [of D s i k])
    moreover have "i = k" using False less.prems(2) by simp
    ultimately show ?thesis by auto
  next
    case True
    let ?s = "If_Swap D s k (k - 1)"
    have r: "srearr i (k + 1) s ?s" using srearr_swap(2) [of i "k + 1" s "k - 1"] less.prems True by simp
    have at: "elem ?s h = (if h = k - 1 then elem s k else if h = k then elem s (k - 1) else elem s h)" if "i \<le> h" "h \<le> k" for h
      using that less.prems True by (intro elem_swap) auto
    have ih: "srearr i (k - 1 + 1) ?s (symMerge_down D ?s i (k - 1)) \<and> elem (symMerge_down D ?s i (k - 1)) i = elem ?s (k - 1) \<and>
      (\<forall>h. i < h \<and> h \<le> k - 1 \<longrightarrow> elem (symMerge_down D ?s i (k - 1)) h = elem ?s (h - 1))"
      using less.prems True at rearr_len [OF conjunct1 [OF r]] by (intro less.hyps) auto
    have eq: "symMerge_down D s i k = symMerge_down D ?s i (k - 1)" using True by (simp add: symMerge_down.simps [of D s i k])
    have "elem (symMerge_down D ?s i (k - 1)) k = elem ?s k"
      using perm_range_outside [OF conjunct1 [OF conjunct1 [OF ih]], of k] less.prems rearr_len [OF conjunct1 [OF r]] by simp
    then have "elem (symMerge_down D ?s i (k - 1)) h = elem s (h - 1)" if "i < h" "h \<le> k" for h
      using ih at [of k] at [of "h - 1"] that True by (cases "h = k") auto
    moreover have "srearr i (k + 1) s (symMerge_down D ?s i (k - 1))"
      by (rule srearr_trans [OF r srearr_mono [OF conjunct1 [OF ih]]]) auto
    moreover have "elem (symMerge_down D ?s i (k - 1)) i = elem s k" using ih at [of "k - 1"] True by simp
    ultimately show ?thesis unfolding eq by blast
  qed
qed

lemma symMerge_one_left:
  assumes "0 \<le> a" "m = a + 1" "m < b" "b \<le> len s" "sorted_range lt m b (elems s)"
  shows "\<exists>t. symMerge D s a m b = Some t \<and> srearr a b s t \<and> sorted_range lt a b (elems t)"
proof -
  let ?P = "\<lambda>h. If_Less D s h a"
  define i where "i = bisect ?P m b"
  have b: "m \<le> i" "i \<le> b" using bisect_bounds [of m b ?P] assms by (auto simp: i_def)
  have P: "?P h = lt (elem s h) (elem s a)" if "m \<le> h" "h < b" for h using that assms by (intro Less_elems) auto
  have "(\<forall>h. m \<le> h \<and> h < i \<longrightarrow> ?P h) \<and> (\<forall>h. i \<le> h \<and> h < b \<longrightarrow> \<not> ?P h)"
    unfolding i_def
  proof (rule bisect_spec)
    fix h h' assume h: "m \<le> h" "h \<le> h'" "h' < b" "?P h'"
    then have "\<not> lt (elem s h') (elem s h)" using assms(5) lt_irrefl by (cases "h = h'") (auto simp: sorted_range_def)
    then show "?P h" using h P [of h] P [of h'] le_lt_trans [of "elem s h'" "elem s h" "elem s a"] by auto
  qed (use assms in simp)
  then have lo: "\<forall>h. m \<le> h \<and> h < i \<longrightarrow> lt (elem s h) (elem s a)" and hi: "\<forall>h. i \<le> h \<and> h < b \<longrightarrow> \<not> lt (elem s h) (elem s a)"
    using P b by auto
  let ?t = "symMerge_up D s i a"
  have t: "srearr a i s ?t \<and> elem ?t (i - 1) = elem s a \<and> (\<forall>h. a \<le> h \<and> h < i - 1 \<longrightarrow> elem ?t h = elem s (h + 1))"
    using lo b assms by (intro symMerge_up_correct) auto
  have out: "elem ?t h = elem s h" if "i \<le> h" "h < b" for h
    using perm_range_outside [OF conjunct1 [OF conjunct1 [OF t]], of h] that assms b by simp
  have "\<not> lt (elem ?t h) (elem ?t (h - 1))" if h: "a < h" "h < b" for h
  proof -
    consider "h < i - 1" | "h = i - 1" | "h = i" | "i < h" by linarith
    then show ?thesis
    proof cases
      case 1 then show ?thesis using t h b assms by (auto simp: sorted_range_def)
    next
      case 2 then show ?thesis using t h b assms(2) lo lt_asym by auto
    next
      case 3 then show ?thesis using t h out hi by simp
    next
      case 4 then show ?thesis using out h assms b by (simp add: sorted_range_def)
    qed
  qed
  then have "sorted_range lt a b (elems ?t)" by (rule sorted_range_adjacent)
  moreover have "m - a = 1" using assms(2) by simp
  then have "symMerge D s a m b = Some ?t" by (simp add: symMerge.simps [of D s a m b] i_def)
  moreover have "srearr a b s ?t" using t b srearr_mono [of a i s ?t a b] by auto
  ultimately show ?thesis by blast
qed

lemma symMerge_one_right:
  assumes "0 \<le> a" "a < m" "m - a \<noteq> 1" "b = m + 1" "b \<le> len s" "sorted_range lt a m (elems s)"
  shows "\<exists>t. symMerge D s a m b = Some t \<and> srearr a b s t \<and> sorted_range lt a b (elems t)"
proof -
  let ?P = "\<lambda>h. \<not> If_Less D s m h"
  define i where "i = bisect ?P a m"
  have b: "a \<le> i" "i \<le> m" using bisect_bounds [of a m ?P] assms by (auto simp: i_def)
  have P: "?P h = (\<not> lt (elem s m) (elem s h))" if "a \<le> h" "h < m" for h using that assms by (simp add: Less_elems)
  have "(\<forall>h. a \<le> h \<and> h < i \<longrightarrow> ?P h) \<and> (\<forall>h. i \<le> h \<and> h < m \<longrightarrow> \<not> ?P h)"
    unfolding i_def
  proof (rule bisect_spec)
    fix h h' assume h: "a \<le> h" "h \<le> h'" "h' < m" "?P h'"
    then have "\<not> lt (elem s h') (elem s h)" using assms(6) lt_irrefl by (cases "h = h'") (auto simp: sorted_range_def)
    then show "?P h" using h P [of h] P [of h'] not_lt_trans by auto
  qed (use assms in simp)
  then have lo: "\<forall>h. a \<le> h \<and> h < i \<longrightarrow> \<not> lt (elem s m) (elem s h)" and hi: "\<forall>h. i \<le> h \<and> h < m \<longrightarrow> lt (elem s m) (elem s h)"
    using P b by auto
  let ?t = "symMerge_down D s i m"
  have t: "srearr i (m + 1) s ?t \<and> elem ?t i = elem s m \<and> (\<forall>h. i < h \<and> h \<le> m \<longrightarrow> elem ?t h = elem s (h - 1))"
    using hi b assms by (intro symMerge_down_correct) auto
  have out: "elem ?t h = elem s h" if "a \<le> h" "h < i" for h
    using perm_range_outside [OF conjunct1 [OF conjunct1 [OF t]], of h] that assms b by simp
  have "\<not> lt (elem ?t h) (elem ?t (h - 1))" if h: "a < h" "h < b" for h
  proof -
    consider "h < i" | "h = i" | "h = i + 1" | "i + 1 < h" by linarith
    then show ?thesis
    proof cases
      case 1 then show ?thesis using out h assms b by (simp add: sorted_range_def)
    next
      case 2 then show ?thesis using t h out lo by simp
    next
      case 3 then show ?thesis using t h assms(4) hi lt_asym by auto
    next
      case 4 then show ?thesis using t h b assms by (auto simp: sorted_range_def)
    qed
  qed
  then have "sorted_range lt a b (elems ?t)" by (rule sorted_range_adjacent)
  moreover have "b - m = 1" using assms(4) by simp
  then have "symMerge D s a m b = Some ?t" using assms(3) by (simp add: symMerge.simps [of D s a m b] i_def)
  moreover have "srearr a b s ?t" using t b assms(4) srearr_mono [of i "m + 1" s ?t a b] by auto
  ultimately show ?thesis by blast
qed

text \<open>
  The general step: the symmetric binary search finds \<open>start\<close>, the blocks \<open>[start, m)\<close> and
  \<open>[m, end)\<close> change places, and what lies left of the middle is then not above what lies right of it.
\<close>

lemma symMerge_search:
  assumes "0 \<le> a" "a + 1 < m" "m + 1 < b" "b \<le> len s" "sorted_range lt a m (elems s)" "sorted_range lt m b (elems s)"
  defines "mid \<equiv> (a + b) div 2"
  defines "n \<equiv> mid + m"
  defines "start0 \<equiv> (if m > mid then n - b else a)" and "r0 \<equiv> (if m > mid then mid else m)"
  defines "start \<equiv> bisect (\<lambda>c. \<not> If_Less D s (n - 1 - c) c) start0 r0"
  shows "a \<le> start0" "start0 \<le> start" "start \<le> r0" "r0 \<le> m" "r0 \<le> mid" "a < mid" "mid < b"
    "start0 = a \<or> n - start0 = b"
    "\<And>c. start0 \<le> c \<Longrightarrow> c < start \<Longrightarrow> \<not> lt (elem s (n - 1 - c)) (elem s c)"
    "\<And>c. start \<le> c \<Longrightarrow> c < r0 \<Longrightarrow> lt (elem s (n - 1 - c)) (elem s c)"
proof -
  let ?P = "\<lambda>c. \<not> If_Less D s (n - 1 - c) c"
  have m2: "2 * mid \<le> a + b" "a + b < 2 * mid + 2" by (simp_all add: mid_def)
  show mid: "a < mid" "mid < b" using assms(2,3) by (auto simp: mid_def)
  show b: "a \<le> start0" "r0 \<le> m" "r0 \<le> mid" "start0 = a \<or> n - start0 = b"
    using assms(2,3) m2 by (auto simp: start0_def r0_def n_def)
  have sr: "start0 \<le> r0" using assms(2,3) mid by (auto simp: start0_def r0_def n_def)
  show "start0 \<le> start" "start \<le> r0" using bisect_bounds [OF sr, of ?P] by (auto simp: start_def)
  have rng: "a \<le> c \<and> c < m \<and> m \<le> n - 1 - c \<and> n - 1 - c < b" if "start0 \<le> c" "c < r0" for c
    using that assms(2,3) mid m2 by (auto simp: start0_def r0_def n_def split: if_splits)
  have P: "?P c = (\<not> lt (elem s (n - 1 - c)) (elem s c))" if "start0 \<le> c" "c < r0" for c
    using rng [OF that] assms(1,4) by (simp add: Less_elems)
  have "(\<forall>h. start0 \<le> h \<and> h < start \<longrightarrow> ?P h) \<and> (\<forall>h. start \<le> h \<and> h < r0 \<longrightarrow> \<not> ?P h)"
    unfolding start_def
  proof (rule bisect_spec [OF sr])
    fix h h' assume h: "start0 \<le> h" "h \<le> h'" "h' < r0" "?P h'"
    have "\<not> lt (elem s h') (elem s h)" "\<not> lt (elem s (n - 1 - h)) (elem s (n - 1 - h'))"
      using h rng [of h] rng [of h'] assms(5,6) lt_irrefl by (cases "h = h'"; auto simp: sorted_range_def)+
    then show "?P h" using h P [of h] P [of h'] not_lt_trans by (metis order_le_less_trans order_trans)
  qed
  then show "\<And>c. start0 \<le> c \<Longrightarrow> c < start \<Longrightarrow> \<not> lt (elem s (n - 1 - c)) (elem s c)"
    "\<And>c. start \<le> c \<Longrightarrow> c < r0 \<Longrightarrow> lt (elem s (n - 1 - c)) (elem s c)"
    using P \<open>start \<le> r0\<close> \<open>start0 \<le> start\<close> by auto
qed

lemma rotate_blocks_correct:
  assumes "0 \<le> a" "a < m" "m < b" "b \<le> len s" "\<And>i j. a \<le> i \<Longrightarrow> i < m \<Longrightarrow> m \<le> j \<Longrightarrow> j < b \<Longrightarrow> lt (elem s j) (elem s i)"
  shows "\<exists>t. rotate_blocks D s a m b = Some t \<and> srearr a b s t \<and>
    (\<forall>h. a \<le> h \<and> h < a + (b - m) \<longrightarrow> elem t h = elem s (h + (m - a))) \<and>
    (\<forall>h. a + (b - m) \<le> h \<and> h < b \<longrightarrow> elem t h = elem s (h - (b - m)))"
proof -
  let ?xs = "elems s"
  let ?X = "take (nat a) ?xs" and ?U = "slice_of a m ?xs" and ?V = "slice_of m b ?xs" and ?Y = "drop (nat b) ?xs"
  obtain t where t: "rotate_blocks D s a m b = Some t" "elems t = ?X @ ?V @ ?U @ ?Y"
    using rotate_blocks_lists [OF assms(1-4)] by blast
  have xs: "?xs = ?X @ ?U @ ?V @ ?Y" using assms by (intro slice_of_split3) auto
  have l: "length ?X = nat a" "length ?U = nat (m - a)" "length ?V = nat (b - m)" using assms by (auto simp: length_slice_of)
  have "lt q p" if "p \<in> set ?U" "q \<in> set ?V" for p q
    using that set_slice_of [of a m ?xs] set_slice_of [of m b ?xs] assms by auto
  then have st: "stable_perm lt ?xs (elems t)" unfolding t(2) by (subst xs) (rule stable_rotate)
  have e1: "elem t h = elem s (h + (m - a))" if "a \<le> h" "h < a + (b - m)" for h
  proof -
    have k: "\<not> nat h < nat a" "nat h - nat a < nat (b - m)" "m + int (nat h - nat a) = h + (m - a)"
      using that assms(1-4) by arith+
    have "elem t h = ?V ! (nat h - nat a)" using k(1,2) l by (simp only: t(2) nth_append if_False if_True)
    also have "\<dots> = ?xs ! nat (m + int (nat h - nat a))" using k assms(1-4) by (intro nth_slice_of) auto
    also note k(3)
    finally show ?thesis .
  qed
  have e2: "elem t h = elem s (h - (b - m))" if "a + (b - m) \<le> h" "h < b" for h
  proof -
    have k: "\<not> nat h < nat a" "\<not> nat h - nat a < nat (b - m)" "nat h - nat a - nat (b - m) < nat (m - a)"
        "a + int (nat h - nat a - nat (b - m)) = h - (b - m)"
      using that assms(1-4) by arith+
    have "elem t h = ?U ! (nat h - nat a - nat (b - m))" using k(1-3) l by (simp only: t(2) nth_append if_False if_True)
    also have "\<dots> = ?xs ! nat (a + int (nat h - nat a - nat (b - m)))" using k assms(1-4) by (intro nth_slice_of) auto
    also note k(4)
    finally show ?thesis .
  qed
  have "mset (elems t) = mset (?X @ ?U @ ?V @ ?Y)" unfolding t(2) by simp
  moreover have "elem t h = elem s h" if "0 \<le> h" "h < len s" "h < a \<or> b \<le> h" for h
  proof (cases "h < a")
    case True
    then have "nat h < nat a" using that assms(1) by arith
    then show ?thesis using l by (simp add: t(2) nth_append)
  next
    case False
    then have "nat b \<le> nat h" using that by simp
    then obtain k where k: "nat h = nat b + k" using le_iff_add [of "nat b" "nat h"] by blast
    have "length (?X @ ?V @ ?U) = nat b" 
      unfolding length_append l using assms(1-4) by arith
    then have "elem t h = ?Y ! k" using nth_append_length_plus [of "?X @ ?V @ ?U" ?Y k] by (simp add: t(2) k)
    then show ?thesis using assms(4) by (simp add: k)
  qed
  ultimately have "rearr a b s t" unfolding xs [symmetric] by (auto simp: perm_range_def)
  then show ?thesis using t(1) st e1 e2 by blast
qed

text \<open>Two blocks around a middle, no element of the left above one of the right.\<close>

abbreviation halves :: "int \<Rightarrow> int \<Rightarrow> int \<Rightarrow> 's \<Rightarrow> bool" where
  "halves a mid b t \<equiv> (\<forall>i j. a \<le> i \<and> i < mid \<and> mid \<le> j \<and> j < b \<longrightarrow> \<not> lt (elem t j) (elem t i))"

lemma symMerge_halves:
  assumes "0 \<le> a" "a + 1 < m" "m + 1 < b" "b \<le> len s" "sorted_range lt a m (elems s)" "sorted_range lt m b (elems s)"
  defines "mid \<equiv> (a + b) div 2"
  defines "n \<equiv> mid + m"
  defines "start0 \<equiv> (if m > mid then n - b else a)" and "r0 \<equiv> (if m > mid then mid else m)"
  defines "start \<equiv> bisect (\<lambda>c. \<not> If_Less D s (n - 1 - c) c) start0 r0"
  defines "fin \<equiv> n - start"
  shows "a \<le> start \<and> start \<le> mid \<and> mid \<le> fin \<and> fin \<le> b \<and>
    (\<exists>t. (if start < m \<and> m < fin then rotate_blocks D s start m fin else Some s) = Some t \<and> srearr a b s t \<and>
      sorted_range lt a start (elems t) \<and> sorted_range lt start mid (elems t) \<and>
      sorted_range lt mid fin (elems t) \<and> sorted_range lt fin b (elems t) \<and> halves a mid b t)"
proof -
  note se = symMerge_search [OF assms(1-6), folded mid_def, folded n_def, folded start0_def r0_def, folded start_def]
  have m2: "2 * mid \<le> a + b" by (simp add: mid_def)
  have le1: "\<not> lt (elem s j) (elem s i)" if "a \<le> i" "i \<le> j" "j < m" for i j
    using that assms(5) lt_irrefl by (cases "i = j") (auto simp: sorted_range_def)
  have le2: "\<not> lt (elem s j) (elem s i)" if "m \<le> i" "i \<le> j" "j < b" for i j
    using that assms(6) lt_irrefl by (cases "i = j") (auto simp: sorted_range_def)
  have b: "a \<le> start" "start \<le> mid" "mid \<le> fin" "fin \<le> b" "start \<le> m" "m \<le> fin"
    using se(1-8) assms(2,3) m2 by (auto simp: fin_def n_def start0_def r0_def split: if_splits)
  have low: "\<not> lt (elem s j) (elem s i)" if "a \<le> i" "i < start" "fin \<le> j" "j < b" for i j
  proof -
    have "start0 < start" using se(2,8) that by (auto simp: fin_def)
    then have "\<not> lt (elem s fin) (elem s (start - 1))" using se(9) [of "start - 1"] by (simp add: fin_def)
    moreover have "\<not> lt (elem s (start - 1)) (elem s i)" "\<not> lt (elem s j) (elem s fin)"
      using le1 [of i "start - 1"] le2 [of fin j] that b by auto
    ultimately show ?thesis using not_lt_trans by blast
  qed
  show ?thesis
  proof (cases "start < m \<and> m < fin")
    case False
    then have e: "start = m \<and> fin = mid \<or> start = mid \<and> fin = m" using b by (auto simp: fin_def n_def)
    have "\<not> lt (elem s j) (elem s i)" if h: "a \<le> i" "i < mid" "mid \<le> j" "j < b" for i j
      using e
    proof
      assume "start = m \<and> fin = mid"
      then show ?thesis using h low [of i j] le2 [of i j] by (cases "i < m") auto
    next
      assume "start = mid \<and> fin = m"
      then show ?thesis using h b low [of i j] le1 [of i j] by (cases "j < m") auto
    qed
    then have "halves a mid b s" by blast
    moreover have "sorted_range lt a start (elems s) \<and> sorted_range lt start mid (elems s) \<and>
      sorted_range lt mid fin (elems s) \<and> sorted_range lt fin b (elems s)"
      using e b assms(5,6) by (auto elim: sorted_range_sub simp: sorted_range_single)
    ultimately show ?thesis using b False by auto
  next
    case True
    have "start < r0" using True se(3) by (auto simp: r0_def fin_def n_def split: if_splits)
    then have x: "lt (elem s (fin - 1)) (elem s start)" using se(10) [of start] by (simp add: fin_def algebra_simps)
    have cross: "lt (elem s j) (elem s i)" if "start \<le> i" "i < m" "m \<le> j" "j < fin" for i j
    proof -
      have "\<not> lt (elem s i) (elem s start)" "\<not> lt (elem s (fin - 1)) (elem s j)"
        using le1 [of start i] le2 [of j "fin - 1"] that b by auto
      then show ?thesis using lt_le_trans [OF le_lt_trans [OF _ x]] by blast
    qed
    obtain t where t: "rotate_blocks D s start m fin = Some t" "srearr start fin s t"
        "\<forall>h. start \<le> h \<and> h < start + (fin - m) \<longrightarrow> elem t h = elem s (h + (m - start))"
        "\<forall>h. start + (fin - m) \<le> h \<and> h < fin \<longrightarrow> elem t h = elem s (h - (fin - m))"
      using rotate_blocks_correct [of start m fin s] cross True b assms(1,4) by fastforce
    have mid: "start + (fin - m) = mid" by (simp add: fin_def n_def)
    have t1: "elem t h = elem s h" if "a \<le> h" "h < start \<or> fin \<le> h" "h < b" for h
      using perm_range_outside [OF conjunct1 [OF t(2)], of h] that assms(1,4) b by auto
    have t2: "elem t h = elem s (h + (m - start))" "m \<le> h + (m - start)" "h + (m - start) < fin" if "start \<le> h" "h < mid" for h
      using t(3) that mid by auto
    have t3: "elem t h = elem s (h - (fin - m))" "start \<le> h - (fin - m)" "h - (fin - m) < m" if "mid \<le> h" "h < fin" for h
      using t(4) that mid by auto
    have "\<not> lt (elem t j) (elem t i)" if h: "a \<le> i" "i < mid" "mid \<le> j" "j < b" for i j
    proof (cases "i < start")
      case i: True
      show ?thesis
      proof (cases "j < fin")
        case True then show ?thesis using t1 [of i] t3 [of j] le1 [of i "j - (fin - m)"] h i b by simp
      next
        case False then show ?thesis using t1 [of i] t1 [of j] low [of i j] h i b by simp
      qed
    next
      case i: False
      show ?thesis
      proof (cases "j < fin")
        case True then show ?thesis using t2 [of i] t3 [of j] cross lt_asym h i by (metis not_less)
      next
        case False then show ?thesis using t2 [of i] t1 [of j] le2 [of "i + (m - start)" j] h i b by simp
      qed
    qed
    then have "halves a mid b t" by blast
    moreover have "sorted_range lt a start (elems t)" "sorted_range lt fin b (elems t)"
      using t1 le1 le2 b unfolding sorted_range_def by auto
    moreover have "\<not> lt (elem t j) (elem t i)" if "start \<le> i" "i < j" "j < mid" for i j
      using t2 [of i] t2 [of j] le2 [of "i + (m - start)" "j + (m - start)"] that b by simp
    then have "sorted_range lt start mid (elems t)" by (simp add: sorted_range_def)
    moreover have "\<not> lt (elem t j) (elem t i)" if "mid \<le> i" "i < j" "j < fin" for i j
      using t3 [of i] t3 [of j] le1 [of "i - (fin - m)" "j - (fin - m)"] that b by simp
    then have "sorted_range lt mid fin (elems t)" by (simp add: sorted_range_def)
    moreover have "srearr a b s t" by (rule srearr_mono [OF t(2)]) (use b in auto)
    ultimately show ?thesis using b True t(1) by auto
  qed
qed

lemma halves_rearr:
  assumes "halves a mid b s" "rearr a mid s t \<or> rearr mid b s t" "0 \<le> a" "a \<le> mid" "mid \<le> b" "b \<le> len s"
  shows "halves a mid b t"
proof (intro allI impI)
  fix i j assume h: "a \<le> i \<and> i < mid \<and> mid \<le> j \<and> j < b"
  show "\<not> lt (elem t j) (elem t i)"
    using assms(2)
  proof
    assume r: "rearr a mid s t"
    have "elem t j = elem s j" using perm_range_outside [OF r, of j] h assms(3-6) by simp
    moreover have "\<not> lt (elem s j) (elem t i)"
      using perm_range_all [OF r assms(3), of "\<lambda>x. \<not> lt (elem s j) x" i] assms h by simp
    ultimately show ?thesis by simp
  next
    assume r: "rearr mid b s t"
    have "elem t i = elem s i" using perm_range_outside [OF r, of i] h assms(3-6) by simp
    moreover have "\<not> lt (elem t j) (elem s i)"
      using perm_range_all [OF r, of "\<lambda>x. \<not> lt x (elem s i)" j] assms h by simp
    ultimately show ?thesis by simp
  qed
qed

lemma symMerge_general:
  assumes "m - a \<noteq> 1" "b - m \<noteq> 1" "mid = (a + b) div 2" "n = mid + m"
    "start0 = (if m > mid then n - b else a)" "r0 = (if m > mid then mid else m)"
    "start = bisect (\<lambda>c. \<not> If_Less E s (n - 1 - c) c) start0 r0" "fin = n - start"
  shows "symMerge E s a m b =
    (case (if start < m \<and> m < fin then rotate_blocks E s start m fin else Some s) of
       None \<Rightarrow> None
     | Some s \<Rightarrow>
         (case (if a < start \<and> start < mid then symMerge E s a start mid else Some s) of
            None \<Rightarrow> None
          | Some s \<Rightarrow> if mid < fin \<and> fin < b then symMerge E s mid fin b else Some s))"
  using assms(1,2) unfolding symMerge.simps [of E s a m b] assms(3-8)
  by (cases "m > (a + b) div 2") (simp_all add: Let_def)

lemma symMerge_correct:
  assumes "0 \<le> a" "a < m" "m < b" "b \<le> len s" "sorted_range lt a m (elems s)" "sorted_range lt m b (elems s)"
  shows "\<exists>t. symMerge D s a m b = Some t \<and> srearr a b s t \<and> sorted_range lt a b (elems t)"
  using assms
proof (induction "nat (b - a)" arbitrary: s a m b rule: less_induct)
  case less
  note bo = less.prems(1-4) and so = less.prems(5,6)
  consider "m - a = 1" | "m - a \<noteq> 1" "b - m = 1" | (general) "m - a \<noteq> 1" "b - m \<noteq> 1" by blast
  then show ?case
  proof cases
    case 1 then show ?thesis using bo so by (intro symMerge_one_left) auto
  next
    case 2 then show ?thesis using bo so by (intro symMerge_one_right) auto
  next
    case general
    have am: "a + 1 < m" "m + 1 < b" using general bo by auto
    define mid where "mid = (a + b) div 2"
    define n where "n = mid + m"
    define start0 where "start0 = (if m > mid then n - b else a)"
    define r0 where "r0 = (if m > mid then mid else m)"
    define start where "start = bisect (\<lambda>c. \<not> If_Less D s (n - 1 - c) c) start0 r0"
    define fin where "fin = n - start"
    have mi: "a < mid" "mid < b" using am by (auto simp: mid_def)
    note h = symMerge_halves [OF bo(1) am bo(4) so, folded mid_def, folded n_def, folded start0_def r0_def, folded start_def, folded fin_def]
    from h obtain t1 where t1: "(if start < m \<and> m < fin then rotate_blocks D s start m fin else Some s) = Some t1" "srearr a b s t1"
      "sorted_range lt a start (elems t1)" "sorted_range lt start mid (elems t1)"
      "sorted_range lt mid fin (elems t1)" "sorted_range lt fin b (elems t1)" "halves a mid b t1" by blast
    have n1: "length (elems t1) = length (elems s)" using rearr_len [OF conjunct1 [OF t1(2)]] .
    obtain t2 where t2: "(if a < start \<and> start < mid then symMerge D t1 a start mid else Some t1) = Some t2"
      "srearr a mid t1 t2" "sorted_range lt a mid (elems t2)"
    proof (cases "a < start \<and> start < mid")
      case True
      then have "\<exists>t. symMerge D t1 a start mid = Some t \<and> srearr a mid t1 t \<and> sorted_range lt a mid (elems t)"
        using bo n1 mi t1 by (intro less.hyps) auto
      then show ?thesis using True that by auto
    next
      case False
      then have "sorted_range lt a mid (elems t1)" using h t1(3,4) by auto
      then show ?thesis using False that by auto
    qed
    have n2: "length (elems t2) = length (elems s)" using rearr_len [OF conjunct1 [OF t2(2)]] n1 by simp
    have o2: "elem t2 k = elem t1 k" if "mid \<le> k" "k < b" for k
      using perm_range_outside [OF conjunct1 [OF t2(2)], of k] that bo mi n1 by simp
    have so2: "sorted_range lt mid fin (elems t2)" "sorted_range lt fin b (elems t2)"
      using t1(5,6) o2 h by (auto simp: sorted_range_def)
    have ha2: "halves a mid b t2" using halves_rearr [OF t1(7)] t2(2) bo mi n1 by auto
    obtain t3 where t3: "(if mid < fin \<and> fin < b then symMerge D t2 mid fin b else Some t2) = Some t3"
      "srearr mid b t2 t3" "sorted_range lt mid b (elems t3)"
    proof (cases "mid < fin \<and> fin < b")
      case True
      then have "\<exists>t. symMerge D t2 mid fin b = Some t \<and> srearr mid b t2 t \<and> sorted_range lt mid b (elems t)"
        using bo n2 mi so2 by (intro less.hyps) auto
      then show ?thesis using True that by auto
    next
      case False
      then have "sorted_range lt mid b (elems t2)" using h so2 by auto
      then show ?thesis using False that by auto
    qed
    have ha3: "halves a mid b t3" using halves_rearr [OF ha2] t3(2) bo mi n2 by auto
    have "elem t3 k = elem t2 k" if "a \<le> k" "k < mid" for k
      using perm_range_outside [OF conjunct1 [OF t3(2)], of k] that bo mi n2 by simp
    then have "sorted_range lt a mid (elems t3)" using t2(3) by (simp add: sorted_range_def)
    then have "sorted_range lt a b (elems t3)" by (rule sorted_range_append [OF _ t3(3)]) (use ha3 in blast)
    moreover have "symMerge D s a m b = Some t3"
      using t1(1) t2(1) t3(1) symMerge_general [OF general refl refl refl refl refl refl, of D s,
          folded mid_def, folded n_def, folded start0_def r0_def, folded start_def, folded fin_def] by simp
    moreover have "srearr a b t1 t2" "srearr a b t2 t3"
      by (rule srearr_mono [OF t2(2)] srearr_mono [OF t3(2)]; use mi in simp)+
    then have "srearr a b s t3" using srearr_trans [OF t1(2)] srearr_trans by blast
    ultimately show ?thesis by blast
  qed
qed

subsection \<open>The stable sort\<close>

lemma stable_blocks_correct:
  assumes "0 < w" "0 \<le> q" "q * w \<le> n" "n \<le> len s" "\<forall>k. 0 \<le> k \<and> k < q \<longrightarrow> sorted_range lt (k * w) (k * w + w) (elems s)"
  shows "srearr 0 n s (stable_blocks D s w n (q * w) (q * w + w)) \<and>
    blocks_sorted lt w n (elems (stable_blocks D s w n (q * w) (q * w + w)))"
  using assms
proof (induction "nat (n - q * w)" arbitrary: s q rule: less_induct)
  case less
  note bo = less.prems(1-4)
  have a: "0 \<le> q * w" using bo by simp
  have below: "k * w + w \<le> q * w" if "k < q" for k
    using mult_right_mono [of "k + 1" q w] that bo by (simp add: distrib_right)
  have keep: "\<forall>k. 0 \<le> k \<and> k < q \<longrightarrow> sorted_range lt (k * w) (k * w + w) (elems t)" if "rearr (q * w) b s t" for t b
  proof (intro allI impI)
    fix k assume k: "0 \<le> k \<and> k < q"
    have "elem t h = elem s h" if "k * w \<le> h" "h < k * w + w" for h
    proof -
      have "0 \<le> k * w" using k bo by simp
      then show ?thesis using perm_range_outside [OF \<open>rearr (q * w) b s t\<close>, of h] that below [of k] k bo by linarith
    qed
    then show "sorted_range lt (k * w) (k * w + w) (elems t)"
      using less.prems(5) k by (simp add: sorted_range_def)
  qed
  show ?case
  proof (cases "q * w + w \<le> n")
    case True
    let ?s = "insertionSort D s (q * w) (q * w + w)"
    have i: "srearr (q * w) (q * w + w) s ?s \<and> sorted_range lt (q * w) (q * w + w) (elems ?s)"
      using bo a True by (intro insertionSort_stable) auto
    have "\<forall>k. 0 \<le> k \<and> k < q + 1 \<longrightarrow> sorted_range lt (k * w) (k * w + w) (elems ?s)"
      using i keep [OF conjunct1 [OF conjunct1 [OF i]]] by (metis zless_add1_eq)
    then have ih: "srearr 0 n ?s (stable_blocks D ?s w n ((q + 1) * w) ((q + 1) * w + w)) \<and>
      blocks_sorted lt w n (elems (stable_blocks D ?s w n ((q + 1) * w) ((q + 1) * w + w)))"
      using bo True rearr_len [OF conjunct1 [OF conjunct1 [OF i]]] by (intro less.hyps) (auto simp: distrib_right)
    have eq: "stable_blocks D s w n (q * w) (q * w + w) = stable_blocks D ?s w n ((q + 1) * w) ((q + 1) * w + w)"
      using True bo by (simp add: stable_blocks.simps [of D s w n "q * w"] distrib_right)
    have r: "srearr 0 n s ?s" by (rule srearr_mono [OF conjunct1 [OF i]]) (use a True in auto)
    show ?thesis unfolding eq using srearr_trans [OF r conjunct1 [OF ih]] ih by blast
  next
    case False
    let ?s = "insertionSort D s (q * w) n"
    have i: "srearr (q * w) n s ?s \<and> sorted_range lt (q * w) n (elems ?s)"
      using bo a by (intro insertionSort_stable) auto
    have "sorted_range lt (k * w) (min (k * w + w) n) (elems ?s)" if "0 \<le> k" for k
    proof -
      consider "k < q" | "k = q" | "q < k" by linarith
      then show ?thesis
      proof cases
        case 1 then show ?thesis using keep [OF conjunct1 [OF conjunct1 [OF i]]] that
          by (intro sorted_range_sub [where b' = "min _ n"]) auto
      next
        case 2 then show ?thesis using i False by simp
      next
        case 3
        then have "q * w + w \<le> k * w" using mult_right_mono [of "q + 1" k w] bo by (simp add: distrib_right)
        then show ?thesis using False by (intro sorted_range_single) auto
      qed
    qed
    moreover have "stable_blocks D s w n (q * w) (q * w + w) = ?s" using False by (simp add: stable_blocks.simps [of D s w n "q * w"])
    moreover have "srearr 0 n s ?s" by (rule srearr_mono [OF conjunct1 [OF i]]) (use a in auto)
    ultimately show ?thesis by (simp add: blocks_sorted_def)
  qed
qed

lemma stable_pass_correct:
  assumes "0 < w" "0 \<le> q" "q * (2 * w) \<le> n" "n \<le> len s"
    "\<forall>k. 0 \<le> k \<and> k < q \<longrightarrow> sorted_range lt (k * (2 * w)) (k * (2 * w) + 2 * w) (elems s)"
    "\<forall>k. 2 * q \<le> k \<longrightarrow> sorted_range lt (k * w) (min (k * w + w) n) (elems s)"
  shows "\<exists>t. stable_pass D s w n (q * (2 * w)) (q * (2 * w) + 2 * w) = Some t \<and> srearr 0 n s t \<and> blocks_sorted lt (2 * w) n (elems t)"
  using assms
proof (induction "nat (n - q * (2 * w))" arbitrary: s q rule: less_induct)
  case less
  note bo = less.prems(1-4)
  let ?a = "q * (2 * w)"
  have a: "0 \<le> ?a" "?a = 2 * q * w" "?a + w = (2 * q + 1) * w" using bo by (simp_all add: algebra_simps)
  have below: "k * (2 * w) + 2 * w \<le> ?a" if "k < q" for k
    using mult_right_mono [of "k + 1" q "2 * w"] that bo by (simp add: distrib_right)
  have keep: "\<forall>k. 0 \<le> k \<and> k < q \<longrightarrow> sorted_range lt (k * (2 * w)) (k * (2 * w) + 2 * w) (elems t)" if "rearr ?a b s t" for t b
  proof (intro allI impI)
    fix k assume k: "0 \<le> k \<and> k < q"
    have "elem t h = elem s h" if "k * (2 * w) \<le> h" "h < k * (2 * w) + 2 * w" for h
    proof -
      have "0 \<le> k * (2 * w)" using k bo by simp
      then show ?thesis using perm_range_outside [OF \<open>rearr ?a b s t\<close>, of h] that below [of k] k bo by linarith
    qed
    then show "sorted_range lt (k * (2 * w)) (k * (2 * w) + 2 * w) (elems t)"
      using less.prems(5) k by (simp add: sorted_range_def)
  qed
  have s1: "sorted_range lt ?a (min (?a + w) n) (elems s)" using less.prems(6) [rule_format, of "2 * q"] by (simp add: a)
  have "sorted_range lt (?a + w) (min (?a + w + w) n) (elems s)"
    unfolding a(3) using less.prems(6) by simp
  moreover have "?a + w + w = ?a + 2 * w" by simp
  ultimately have s2: "sorted_range lt (?a + w) (min (?a + 2 * w) n) (elems s)" by simp
  show ?case
  proof (cases "?a + 2 * w \<le> n")
    case True
    have "\<exists>t. symMerge D s ?a (?a + w) (?a + 2 * w) = Some t \<and> srearr ?a (?a + 2 * w) s t \<and> sorted_range lt ?a (?a + 2 * w) (elems t)"
      using bo a(1) True s1 s2 by (intro symMerge_correct) (auto simp: min_def)
    then obtain t where t: "symMerge D s ?a (?a + w) (?a + 2 * w) = Some t" "srearr ?a (?a + 2 * w) s t"
      "sorted_range lt ?a (?a + 2 * w) (elems t)" by blast
    have "\<forall>k. 0 \<le> k \<and> k < q + 1 \<longrightarrow> sorted_range lt (k * (2 * w)) (k * (2 * w) + 2 * w) (elems t)"
      using t(3) keep [OF conjunct1 [OF t(2)]] by (metis zless_add1_eq)
    moreover have "\<forall>k. 2 * (q + 1) \<le> k \<longrightarrow> sorted_range lt (k * w) (min (k * w + w) n) (elems t)"
    proof (intro allI impI)
      fix k assume k: "2 * (q + 1) \<le> k"
      have "?a + 2 * w \<le> k * w" using mult_right_mono [OF k, of w] bo by (simp add: algebra_simps)
      then have "elem t h = elem s h" if "k * w \<le> h" "h < min (k * w + w) n" for h
        using perm_range_outside [OF conjunct1 [OF t(2)], of h] that a bo by auto
      then have "sorted_range lt (k * w) (min (k * w + w) n) (elems t) = sorted_range lt (k * w) (min (k * w + w) n) (elems s)"
        by (rule sorted_range_cong)
      then show "sorted_range lt (k * w) (min (k * w + w) n) (elems t)" using less.prems(6) k by simp
    qed
    ultimately have "\<exists>u. stable_pass D t w n ((q + 1) * (2 * w)) ((q + 1) * (2 * w) + 2 * w) = Some u \<and> srearr 0 n t u \<and> blocks_sorted lt (2 * w) n (elems u)"
      using bo True rearr_len [OF conjunct1 [OF t(2)]] by (intro less.hyps) (auto simp: distrib_right)
    then obtain u where u: "stable_pass D t w n ((q + 1) * (2 * w)) ((q + 1) * (2 * w) + 2 * w) = Some u" "srearr 0 n t u"
      "blocks_sorted lt (2 * w) n (elems u)" by blast
    have eq: "stable_pass D s w n ?a (?a + 2 * w) = stable_pass D t w n ((q + 1) * (2 * w)) ((q + 1) * (2 * w) + 2 * w)"
      using True bo t(1) by (simp add: stable_pass.simps [of D s w n ?a] distrib_right)
    have r: "srearr 0 n s t" by (rule srearr_mono [OF t(2)]) (use a True in auto)
    show ?thesis unfolding eq using u(1,3) srearr_trans [OF r u(2)] by blast
  next
    case False
    have "\<exists>t. stable_pass D s w n ?a (?a + 2 * w) = Some t \<and> srearr ?a n s t \<and> sorted_range lt ?a n (elems t)"
    proof (cases "?a + w < n")
      case True
      then have "\<exists>t. symMerge D s ?a (?a + w) n = Some t \<and> srearr ?a n s t \<and> sorted_range lt ?a n (elems t)"
        using bo a(1) False s1 s2 by (intro symMerge_correct) (auto simp: min_def)
      then show ?thesis using True False by (simp add: stable_pass.simps [of D s w n ?a] Let_def)
    next
      case False2: False
      then show ?thesis using False s1 by (simp add: stable_pass.simps [of D s w n ?a] Let_def min_def split: if_splits)
    qed
    then obtain t where t: "stable_pass D s w n ?a (?a + 2 * w) = Some t" "srearr ?a n s t" "sorted_range lt ?a n (elems t)" by blast
    have "sorted_range lt (k * (2 * w)) (min (k * (2 * w) + 2 * w) n) (elems t)" if "0 \<le> k" for k
    proof -
      consider "k < q" | "k = q" | "q < k" by linarith
      then show ?thesis
      proof cases
        case 1 then show ?thesis using keep [OF conjunct1 [OF t(2)]] that
          by (intro sorted_range_sub [where b' = "min _ n"]) auto
      next
        case 2 then show ?thesis using t(3) False by simp
      next
        case 3
        then have "?a + 2 * w \<le> k * (2 * w)" using mult_right_mono [of "q + 1" k "2 * w"] bo by (simp add: distrib_right)
        then show ?thesis using False by (intro sorted_range_single) auto
      qed
    qed
    moreover have "srearr 0 n s t" by (rule srearr_mono [OF t(2)]) (use a in auto)
    ultimately show ?thesis using t(1) by (auto simp: blocks_sorted_def)
  qed
qed

lemma stable_merge_correct:
  assumes "0 < w" "0 \<le> n" "n \<le> len s" "blocks_sorted lt w n (elems s)"
  shows "\<exists>t. stable_merge D s w n = Some t \<and> srearr 0 n s t \<and> sorted_range lt 0 n (elems t)"
  using assms
proof (induction "nat (n - w)" arbitrary: s w rule: less_induct)
  case less
  show ?case
  proof (cases "w < n")
    case True
    have "\<exists>t. stable_pass D s w n (0 * (2 * w)) (0 * (2 * w) + 2 * w) = Some t \<and> srearr 0 n s t \<and> blocks_sorted lt (2 * w) n (elems t)"
      using less.prems True by (intro stable_pass_correct) (auto simp: blocks_sorted_def)
    then obtain t where t: "stable_pass D s w n 0 (2 * w) = Some t" "srearr 0 n s t" "blocks_sorted lt (2 * w) n (elems t)" by auto
    have "blocks_sorted lt (w * 2) n (elems t)" using t(3) by (simp only: mult.commute)
    then have "\<exists>u. stable_merge D t (w * 2) n = Some u \<and> srearr 0 n t u \<and> sorted_range lt 0 n (elems u)"
      using less.prems True rearr_len [OF conjunct1 [OF t(2)]] by (intro less.hyps) auto
    then obtain u where u: "stable_merge D t (w * 2) n = Some u" "srearr 0 n t u" "sorted_range lt 0 n (elems u)" by blast
    have eq: "stable_merge D s w n = stable_merge D t (w * 2) n"
      using True less.prems(1) t(1) by (simp add: stable_merge.simps [of D s w n])
    show ?thesis unfolding eq using u(1,3) srearr_trans [OF t(2) u(2)] by blast
  next
    case False
    have "sorted_range lt (0 * w) (min (0 * w + w) n) (elems s)" using less.prems(4) unfolding blocks_sorted_def by blast
    with False have "sorted_range lt 0 n (elems s)" by simp
    then show ?thesis using False by (simp add: stable_merge.simps [of D s w n])
  qed
qed

lemma stable_correct:
  assumes "0 \<le> n" "n \<le> len s"
  shows "\<exists>t. stable D s n = Some t \<and> srearr 0 n s t \<and> sorted_range lt 0 n (elems t)"
proof -
  let ?s = "stable_blocks D s 20 n 0 20"
  have b: "srearr 0 n s ?s \<and> blocks_sorted lt 20 n (elems ?s)"
    using stable_blocks_correct [of 20 0 n s] assms by fastforce
  then have "\<exists>t. stable_merge D ?s 20 n = Some t \<and> srearr 0 n ?s t \<and> sorted_range lt 0 n (elems t)"
    using assms rearr_len [OF conjunct1 [OF conjunct1 [OF b]]] by (intro stable_merge_correct) auto
  then obtain t where t: "stable_merge D ?s 20 n = Some t" "srearr 0 n ?s t" "sorted_range lt 0 n (elems t)" by blast
  then show ?thesis using srearr_trans [OF conjunct1 [OF b] t(2)] by (simp add: stable_def)
qed

lemma Stable_correct:
  "\<exists>t. Stable D s = Some t \<and> mset (elems t) = mset (elems s) \<and> sorted_range lt 0 (len s) (elems t) \<and> stable_perm lt (elems s) (elems t)"
  using stable_correct [of "len s" s] by (auto simp: Stable_def Len_elems perm_range_def)

end
end
