(* ===== verification/Sort_Instances.thy ===== *)
theory Sort_Instances
  imports Sort_Stable
begin

text \<open>
  The collections of packages \<open>sort\<close>, \<open>slices\<close> and \<open>cmp\<close> that meet the sorting contract, as
  interpretations of \<open>sort_data\<close>, and the properties of the sorting and searching entry points.

  An ordered Go value is an element of a linear order (\<open>Num\<close>) or, for the floating-point types, the negative zero, which the
  operators find equal to the zero of the order although it is another value, or a NaN, which no operator finds less than or equal
  to anything. Package \<open>cmp\<close> is modelled on these values; the types without NaN and negative zero are the values built by \<open>Num\<close>.
\<close>


section \<open>Ordered values\<close>

datatype 'a ordered = NaN | NegZero | Num 'a

fun ordered_value :: "'a::zero ordered \<Rightarrow> 'a" where
  "ordered_value (Num x) = x"
| "ordered_value _ = 0"

definition go_less :: "'a::{linorder, zero} ordered \<Rightarrow> 'a ordered \<Rightarrow> bool" where
  "go_less x y \<longleftrightarrow> x \<noteq> NaN \<and> y \<noteq> NaN \<and> ordered_value x < ordered_value y"

definition go_equal :: "'a::{linorder, zero} ordered \<Rightarrow> 'a ordered \<Rightarrow> bool" where
  "go_equal x y \<longleftrightarrow> x \<noteq> NaN \<and> y \<noteq> NaN \<and> ordered_value x = ordered_value y"

definition cmp_isNaN :: "'a::{linorder, zero} ordered \<Rightarrow> bool" where
  "cmp_isNaN x = (\<not> go_equal x x)"

definition cmp_Less :: "'a::{linorder, zero} ordered \<Rightarrow> 'a ordered \<Rightarrow> bool" where
  "cmp_Less x y = (cmp_isNaN x \<and> \<not> cmp_isNaN y \<or> go_less x y)"

definition cmp_Compare :: "'a::{linorder, zero} ordered \<Rightarrow> 'a ordered \<Rightarrow> int" where
  "cmp_Compare x y =
     (let xNaN = cmp_isNaN x; yNaN = cmp_isNaN y in
      if xNaN then if yNaN then 0 else - 1
      else if yNaN then 1
      else if go_less x y then - 1
      else if go_less y x then 1
      else 0)"

definition Float64Slice :: "'a::{linorder, zero} ordered list Interface" where
  "Float64Slice =
     \<lparr>If_Len = (\<lambda>x. int (length x)),
      If_Less = (\<lambda>x i j. go_less (x ! nat i) (x ! nat j) \<or> cmp_isNaN (x ! nat i) \<and> \<not> cmp_isNaN (x ! nat j)),
      If_Swap = slice_swap\<rparr>"

definition orderedSlice :: "'a::{linorder, zero} ordered list Interface" where
  "orderedSlice =
     \<lparr>If_Len = (\<lambda>x. int (length x)), If_Less = (\<lambda>x i j. cmp_Less (x ! nat i) (x ! nat j)), If_Swap = slice_swap\<rparr>"

definition pdqsortOrdered :: "'a::{linorder, zero} ordered list \<Rightarrow> int \<Rightarrow> int \<Rightarrow> int \<Rightarrow> 'a ordered list" where
  "pdqsortOrdered x a b limit = pdqsort orderedSlice x a b limit"

definition slices_Sort :: "'a::{linorder, zero} ordered list \<Rightarrow> 'a ordered list" where
  "slices_Sort x = (let n = int (length x) in pdqsortOrdered x 0 n (int (Len (word_of_int n))))"

function slices_IsSorted_loop :: "'a::{linorder, zero} ordered list \<Rightarrow> int \<Rightarrow> bool" where
  "slices_IsSorted_loop x i =
     (if i > 0 then if cmp_Less (x ! nat i) (x ! nat (i - 1)) then False else slices_IsSorted_loop x (i - 1) else True)"
  by pat_completeness auto
termination by (relation "measure (\<lambda>(_, i). nat i)") auto

declare slices_IsSorted_loop.simps [simp del]

definition slices_IsSorted :: "'a::{linorder, zero} ordered list \<Rightarrow> bool" where
  "slices_IsSorted x = slices_IsSorted_loop x (int (length x) - 1)"

partial_function (option) BinarySearch_loop :: "'a::{linorder, zero} ordered list \<Rightarrow> 'a ordered \<Rightarrow> int \<Rightarrow> int \<Rightarrow> int option" where
  "BinarySearch_loop x target i j =
     (if i < j then
        let h = midpoint i j in
        if cmp_Less (x ! nat h) target then BinarySearch_loop x target (wrap64 (h + 1)) j else BinarySearch_loop x target i h
      else Some i)"

declare BinarySearch_loop.simps [code]

definition BinarySearch :: "'a::{linorder, zero} ordered list \<Rightarrow> 'a ordered \<Rightarrow> (int \<times> bool) option" where
  "BinarySearch x target =
     (let n = int (length x)
      in map_option (\<lambda>i. (i, i < n \<and> (go_equal (x ! nat i) target \<or> cmp_isNaN (x ! nat i) \<and> cmp_isNaN target)))
           (BinarySearch_loop x target 0 n))"

text \<open>The built-in functions \<open>min\<close> and \<open>max\<close>: a NaN if there is one, and the negative zero is less than the positive one.\<close>

definition go_min :: "'a::{linorder, zero} ordered \<Rightarrow> 'a ordered \<Rightarrow> 'a ordered" where
  "go_min x y =
     (if x = NaN \<or> y = NaN then NaN
      else if go_less x y then x else if go_less y x then y
      else if x = NegZero \<or> y = NegZero then NegZero else x)"

definition go_max :: "'a::{linorder, zero} ordered \<Rightarrow> 'a ordered \<Rightarrow> 'a ordered" where
  "go_max x y =
     (if x = NaN \<or> y = NaN then NaN
      else if go_less x y then y else if go_less y x then x
      else if x = NegZero then y else x)"

definition slices_Min :: "'a::{linorder, zero} ordered list \<Rightarrow> panic + 'a ordered" where
  "slices_Min x =
     (if length x < 1 then Inl (PanicMsg ''slices.Min: empty list'') else Inr (fold (\<lambda>y m. go_min m y) (drop 1 x) (x ! 0)))"

definition slices_Max :: "'a::{linorder, zero} ordered list \<Rightarrow> panic + 'a ordered" where
  "slices_Max x =
     (if length x < 1 then Inl (PanicMsg ''slices.Max: empty list'') else Inr (fold (\<lambda>y m. go_max m y) (drop 1 x) (x ! 0)))"

text \<open>\<open>cmp.Or\<close>, with the zero value and the operator \<open>==\<close> of the type.\<close>

fun cmp_Or :: "('a \<Rightarrow> 'a \<Rightarrow> bool) \<Rightarrow> 'a \<Rightarrow> 'a list \<Rightarrow> 'a" where
  "cmp_Or eq zero [] = zero"
| "cmp_Or eq zero (v # vals) = (if \<not> eq v zero then v else cmp_Or eq zero vals)"

definition SearchFloat64s :: "'a::{linorder, zero} ordered list \<Rightarrow> 'a ordered \<Rightarrow> int option" where
  "SearchFloat64s a x = Search (int (length a)) (\<lambda>i. go_less x (a ! nat i) \<or> go_equal (a ! nat i) x)"

section \<open>The slices of the library meet the contract\<close>

lemma linear_order_weak: "strict_weak_order ((<) :: 'a::linorder \<Rightarrow> 'a \<Rightarrow> bool)"
  by unfold_locales auto

lemma slice_data:
  assumes "strict_weak_order lt"
    "D = \<lparr>If_Len = (\<lambda>x. int (length x)), If_Less = (\<lambda>x i j. lt (x ! nat i) (x ! nat j)), If_Swap = slice_swap\<rparr>"
  shows "sort_data lt D (\<lambda>x. x)"
  using assms by (simp add: sort_data_def sort_data_axioms_def)

lemma string_less_linear:
  "\<not> string_less x x" "string_less x y \<Longrightarrow> string_less y z \<Longrightarrow> string_less x z"
  "\<not> string_less x y \<Longrightarrow> \<not> string_less y x \<Longrightarrow> x = y"
proof -
  show "\<not> string_less x x" by (induction x) auto
  show "string_less x y \<Longrightarrow> string_less y z \<Longrightarrow> string_less x z"
  proof (induction x y arbitrary: z rule: string_less.induct)
    case (2 b ys) then show ?case by (cases z) auto
  next
    case (3 a xs b ys)
    then obtain c zs where z: "z = c # zs" by (cases z) auto
    then show ?case using 3 by (auto intro: less_trans)
  qed simp
  show "\<not> string_less x y \<Longrightarrow> \<not> string_less y x \<Longrightarrow> x = y"
  proof (induction x y rule: string_less.induct)
    case (1 x) then show ?case by (cases x) auto
  next
    case (3 a xs b ys) then show ?case by (cases a b rule: linorder_cases) auto
  qed simp
qed

lemma string_less_weak: "strict_weak_order string_less"
  by unfold_locales (use string_less_linear in blast)+

lemma cmp_isNaN_eq [simp]: "cmp_isNaN x \<longleftrightarrow> x = NaN"
  by (simp add: cmp_isNaN_def go_equal_def)

lemma cmp_Less_cases: "cmp_Less x y \<longleftrightarrow> y \<noteq> NaN \<and> (x = NaN \<or> ordered_value x < ordered_value y)"
  by (auto simp: cmp_Less_def go_less_def)

lemma cmp_Less_weak: "strict_weak_order cmp_Less"
  by unfold_locales (auto simp: cmp_Less_cases)

interpretation int_slice: sort_data "(<)" IntSlice "\<lambda>x. x"
  by (rule slice_data [OF linear_order_weak IntSlice_def])

interpretation string_slice: sort_data string_less StringSlice "\<lambda>x. x"
  by (rule slice_data [OF string_less_weak StringSlice_def])

interpretation ordered_slice: sort_data cmp_Less orderedSlice "\<lambda>x. x"
  by (rule slice_data [OF cmp_Less_weak orderedSlice_def])

lemma Float64Slice_ordered: "Float64Slice = orderedSlice"
  by (simp add: Float64Slice_def orderedSlice_def cmp_Less_def disj_commute)

interpretation float64_slice: sort_data cmp_Less Float64Slice "\<lambda>x. x"
  unfolding Float64Slice_ordered by (rule ordered_slice.sort_data_axioms)

lemma cmpSlice_data: "strict_weak_order (\<lambda>a b. cmp a b < 0) \<Longrightarrow> sort_data (\<lambda>a b. cmp a b < 0) (cmpSlice cmp) (\<lambda>x. x)"
  by (rule slice_data [OF _ cmpSlice_def])

lemma cmp_Compare_Less: "cmp_Compare x y < 0 \<longleftrightarrow> cmp_Less x y" "cmp_Compare x y > 0 \<longleftrightarrow> cmp_Less y x"
  "cmp_Compare x y = 0 \<longleftrightarrow> \<not> cmp_Less x y \<and> \<not> cmp_Less y x"
  by (auto simp: cmp_Compare_def cmp_Less_cases go_less_def Let_def)

lemma cmp_Compare_weak: "strict_weak_order (\<lambda>a b. cmp_Compare a b < 0)"
  by (simp add: cmp_Compare_Less cmp_Less_weak)

interpretation compare_slice: sort_data "\<lambda>a b. cmp_Compare a b < 0" "cmpSlice cmp_Compare" "\<lambda>x. x"
  by (rule cmpSlice_data [OF cmp_Compare_weak])

text \<open>The reversed collection: the same elements under the converse order.\<close>

lemma sort_reverse_data:
  assumes "sort_data lt D elems"
  shows "sort_data (\<lambda>x y. lt y x) (sort_reverse D) elems"
proof -
  have w: "strict_weak_order lt" using assms by (simp add: sort_data_def)
  note laws = sort_data.Len_elems [OF assms] sort_data.Less_elems [OF assms] sort_data.Swap_elems [OF assms]
  show ?thesis
  proof (intro sort_data.intro strict_weak_order.intro sort_data_axioms.intro)
    fix x y z
    show "\<not> lt x x" by (rule strict_weak_order.lt_irrefl [OF w])
    show "lt y x \<Longrightarrow> lt z y \<Longrightarrow> lt z x" using strict_weak_order.lt_trans [OF w] by blast
    show "\<not> lt y x \<Longrightarrow> \<not> lt z y \<Longrightarrow> \<not> lt z x" using strict_weak_order.not_lt_trans [OF w] by blast
  qed (simp_all add: sort_reverse_def laws)
qed

section \<open>Sorted lists\<close>

lemma sorted_range_wrt: "sorted_range lt 0 (int (length xs)) xs \<longleftrightarrow> sorted_wrt (\<lambda>x y. \<not> lt y x) xs"
proof -
  have "sorted_range lt 0 (int (length xs)) xs \<longleftrightarrow> (\<forall>i j. i < j \<and> j < length xs \<longrightarrow> \<not> lt (xs ! j) (xs ! i))"
    unfolding sorted_range_def
  proof (intro iffI allI impI)
    fix i j assume "\<forall>i j. 0 \<le> i \<and> i < j \<and> j < int (length xs) \<longrightarrow> \<not> lt (xs ! nat j) (xs ! nat i)" "i < j \<and> j < length xs"
    then show "\<not> lt (xs ! j) (xs ! i)" by (metis nat_int of_nat_0_le_iff of_nat_less_iff)
  next
    fix i j :: int assume a: "\<forall>i j. i < j \<and> j < length xs \<longrightarrow> \<not> lt (xs ! j) (xs ! i)" "0 \<le> i \<and> i < j \<and> j < int (length xs)"
    then have "nat i < nat j \<and> nat j < length xs" by auto
    then show "\<not> lt (xs ! nat j) (xs ! nat i)" using a(1) by blast
  qed
  then show ?thesis by (auto simp: sorted_wrt_iff_nth_less)
qed

lemma pdqsort_all:
  assumes "sort_data lt D (\<lambda>x. x)"
  shows "mset (pdqsort D x 0 (int (length x)) limit) = mset x \<and> sorted_wrt (\<lambda>a b. \<not> lt b a) (pdqsort D x 0 (int (length x)) limit)"
proof -
  let ?y = "pdqsort D x 0 (int (length x)) limit"
  have p: "perm_range 0 (int (length x)) x ?y \<and> sorted_range lt 0 (int (length x)) ?y"
    using sort_data.pdqsort_correct [OF assms, of "int (length x)" x limit] by simp
  then have "length ?y = length x" using perm_range_length by blast
  then show ?thesis using p sorted_range_wrt [of lt ?y] by (simp add: perm_range_def)
qed

text \<open>From non-negative bounds the midpoint does not overflow, and every search is the bisection.\<close>

lemma midpoint_eq: "0 \<le> i \<Longrightarrow> i \<le> j \<Longrightarrow> j < 2 ^ 63 \<Longrightarrow> midpoint i j = (i + j) div 2"
proof -
  assume a: "0 \<le> i" "i \<le> j" "j < 2 ^ 63"
  have "wrap64 (i + j) mod 2 ^ 64 = (i + j) mod 2 ^ 64" unfolding wrap64_def by (simp add: mod_simps)
  also have "\<dots> = i + j" using a by (intro mod_pos_pos_trivial) simp_all
  finally show ?thesis using a by (simp add: midpoint_def wrap64_small)
qed

lemma loop_bisect:
  assumes "\<And>i j. g i j = (if i < j then let h = midpoint i j in if P h then g (wrap64 (h + 1)) j else g i h else Some i)"
  shows "0 \<le> i \<Longrightarrow> j < 2 ^ 63 \<Longrightarrow> g i j = Some (bisect P i j)"
proof (induction "nat (j - i)" arbitrary: i j rule: less_induct)
  case less
  show ?case
  proof (cases "i < j")
    case True
    define h where "h = (i + j) div 2"
    have h: "0 \<le> h" "i \<le> h" "h < j" "midpoint i j = h" using True less.prems by (auto simp: h_def midpoint_eq)
    then have w: "wrap64 (h + 1) = h + 1" using less.prems by (intro wrap64_small) simp_all
    have "g i j = (if P h then g (h + 1) j else g i h)" using True h(4) w by (subst assms) simp
    moreover have "g (h + 1) j = Some (bisect P (h + 1) j)" "g i h = Some (bisect P i h)"
      using less.hyps [of j "h + 1"] less.hyps [of h i] less.prems h True by simp_all
    ultimately show ?thesis using True by (simp add: bisect.simps [of P i j] flip: h_def)
  next
    case False
    then show ?thesis by (subst assms) (simp add: bisect.simps [of P i j])
  qed
qed

lemma loops_bisect:
  assumes "0 \<le> i" "j < 2 ^ 63"
  shows "Search_loop f i j = Some (bisect (\<lambda>h. \<not> f h) i j)" "Find_loop sgns i j = Some (bisect (\<lambda>h. sgns h > 0) i j)"
    "BinarySearchFunc_loop x t cmp i j = Some (bisect (\<lambda>h. cmp (x ! nat h) t < 0) i j)"
    "BinarySearch_loop y u i j = Some (bisect (\<lambda>h. cmp_Less (y ! nat h) u) i j)"
  by (rule loop_bisect [of "Search_loop f", OF Search_loop.simps assms] loop_bisect [of "Find_loop sgns", OF Find_loop.simps assms]
      loop_bisect [of "BinarySearchFunc_loop x t cmp", OF BinarySearchFunc_loop.simps assms]
      loop_bisect [of "BinarySearch_loop y u", OF BinarySearch_loop.simps assms])+

text \<open>What binary search finds for any predicate: a place where it turns false.\<close>

lemma bisect_edge:
  "i \<le> j \<Longrightarrow> (i < bisect P i j \<longrightarrow> P (bisect P i j - 1)) \<and> (bisect P i j < j \<longrightarrow> \<not> P (bisect P i j))"
proof (induction P i j rule: bisect.induct)
  case (1 P i j)
  show ?case
  proof (cases "i < j")
    case True
    let ?h = "(i + j) div 2"
    have h: "i \<le> ?h" "?h < j" using True by auto
    show ?thesis
    proof (cases "P ?h")
      case p: True
      have "(?h + 1 < bisect P (?h + 1) j \<longrightarrow> P (bisect P (?h + 1) j - 1)) \<and> (bisect P (?h + 1) j < j \<longrightarrow> \<not> P (bisect P (?h + 1) j))"
        using 1(1) [OF True refl p] h by simp
      moreover have "?h + 1 \<le> bisect P (?h + 1) j" using bisect_bounds [of "?h + 1" j P] h by simp
      moreover have "bisect P i j = bisect P (?h + 1) j" using True p by (simp add: bisect.simps [of P i j])
      ultimately show ?thesis using p by (cases "bisect P (?h + 1) j = ?h + 1") auto
    next
      case p: False
      have "(i < bisect P i ?h \<longrightarrow> P (bisect P i ?h - 1)) \<and> (bisect P i ?h < ?h \<longrightarrow> \<not> P (bisect P i ?h))"
        using 1(2) [OF True refl p] h by simp
      moreover have "bisect P i ?h \<le> ?h" using bisect_bounds [of i ?h P] h by simp
      moreover have "bisect P i j = bisect P i ?h" using True p by (simp add: bisect.simps [of P i j])
      ultimately show ?thesis using p by (cases "bisect P i ?h = ?h") auto
    qed
  qed (use 1 in \<open>simp add: bisect.simps [of P j j]\<close>)
qed

lemma bisect_filter:
  fixes x :: "'e list"
  assumes "\<And>i j. i < j \<Longrightarrow> j < length x \<Longrightarrow> P (x ! j) \<Longrightarrow> P (x ! i)"
  defines "r \<equiv> bisect (\<lambda>h. P (x ! nat h)) 0 (int (length x))"
  shows "r = int (length (filter P x))" "\<And>k. k < length x \<Longrightarrow> P (x ! k) \<longleftrightarrow> int k < r"
proof -
  have b: "0 \<le> r" "r \<le> int (length x)" using bisect_bounds [of 0 "int (length x)"] by (simp_all add: r_def)
  have s: "(\<forall>h. 0 \<le> h \<and> h < r \<longrightarrow> P (x ! nat h)) \<and> (\<forall>h. r \<le> h \<and> h < int (length x) \<longrightarrow> \<not> P (x ! nat h))"
    unfolding r_def
  proof (rule bisect_spec)
    fix h h' assume "0 \<le> h" "h \<le> h'" "h' < int (length x)" "P (x ! nat h')"
    then show "P (x ! nat h)" using assms(1) [of "nat h" "nat h'"] by (cases "h = h'") auto
  qed simp
  show k: "P (x ! k) \<longleftrightarrow> int k < r" if "k < length x" for k
    using s [THEN conjunct1, rule_format, of "int k"] s [THEN conjunct2, rule_format, of "int k"] that by (cases "int k < r") auto
  have "filter P (take (nat r) x) = take (nat r) x" "filter P (drop (nat r) x) = []"
    using k b by (auto simp: filter_id_conv filter_empty_conv in_set_conv_nth)
  then have "filter P x = take (nat r) x" by (metis append_Nil2 append_take_drop_id filter_append)
  then show "r = int (length (filter P x))" using b by simp
qed

lemma BinarySearchFunc_eq:
  assumes "sorted_wrt (\<lambda>a b. sgn (cmp a t) \<le> sgn (cmp b t)) x" "int (length x) < 2 ^ 63"
  shows "BinarySearchFunc x t cmp = Some (int (length (filter (\<lambda>e. cmp e t < 0) x)), \<exists>k<length x. cmp (x ! k) t = 0)"
proof -
  have m: "sgn (cmp (x ! i) t) \<le> sgn (cmp (x ! j) t)" if "i \<le> j" "j < length x" for i j
    using assms(1) that by (cases "i = j") (auto simp: sorted_wrt_iff_nth_less)
  have p: "cmp (x ! i) t < 0" if "i < j" "j < length x" "cmp (x ! j) t < 0" for i j
    using m [of i j] that by (auto simp: sgn_if split: if_splits)
  define r where "r = bisect (\<lambda>h. cmp (x ! nat h) t < 0) 0 (int (length x))"
  have f: "r = int (length (filter (\<lambda>e. cmp e t < 0) x))" "\<And>k. k < length x \<Longrightarrow> cmp (x ! k) t < 0 \<longleftrightarrow> int k < r"
    unfolding r_def using bisect_filter [of x "\<lambda>e. cmp e t < 0"] p by blast+
  have "r < int (length x) \<and> cmp (x ! nat r) t = 0 \<longleftrightarrow> (\<exists>k<length x. cmp (x ! k) t = 0)"
  proof
    assume "\<exists>k<length x. cmp (x ! k) t = 0"
    then obtain k where k: "k < length x" "cmp (x ! k) t = 0" by blast
    then have "r \<le> int k" using f(2) [of k] by auto
    then have "nat r \<le> k" "nat r < length x" "r < int (length x)" using k by auto
    then show "r < int (length x) \<and> cmp (x ! nat r) t = 0"
      using m [of "nat r" k] f(2) [of "nat r"] f(1) k by (auto simp: sgn_if split: if_splits)
  qed (use f(1) in auto)
  then show ?thesis using f(1) assms(2) by (simp add: BinarySearchFunc_def loops_bisect r_def)
qed

lemma BinarySearch_eq:
  assumes "sorted_wrt (\<lambda>a b. \<not> cmp_Less b a) x" "int (length x) < 2 ^ 63"
  shows "BinarySearch x t = Some (int (length (filter (\<lambda>e. cmp_Less e t) x)), \<exists>e\<in>set x. cmp_Compare e t = 0)"
proof -
  have m: "\<not> cmp_Less (x ! j) (x ! i)" if "i \<le> j" "j < length x" for i j
    using assms(1) that ordered_slice.lt_irrefl by (cases "i = j") (auto simp: sorted_wrt_iff_nth_less)
  have p: "cmp_Less (x ! i) t" if "i < j" "j < length x" "cmp_Less (x ! j) t" for i j
    using ordered_slice.le_lt_trans [OF m [OF less_imp_le [OF that(1)] that(2)] that(3)] .
  define r where "r = bisect (\<lambda>h. cmp_Less (x ! nat h) t) 0 (int (length x))"
  have f: "r = int (length (filter (\<lambda>e. cmp_Less e t) x))" "\<And>k. k < length x \<Longrightarrow> cmp_Less (x ! k) t \<longleftrightarrow> int k < r"
    unfolding r_def using bisect_filter [of x "\<lambda>e. cmp_Less e t"] p by blast+
  have e: "go_equal a t \<or> a = NaN \<and> t = NaN \<longleftrightarrow> cmp_Compare a t = 0" for a
    by (auto simp: cmp_Compare_Less cmp_Less_cases go_equal_def)
  have "r < int (length x) \<and> cmp_Compare (x ! nat r) t = 0 \<longleftrightarrow> (\<exists>e\<in>set x. cmp_Compare e t = 0)"
  proof
    assume "\<exists>e\<in>set x. cmp_Compare e t = 0"
    then obtain k where k: "k < length x" "\<not> cmp_Less (x ! k) t" "\<not> cmp_Less t (x ! k)" by (auto simp: in_set_conv_nth cmp_Compare_Less)
    then have "r \<le> int k" using f(2) [of k] by auto
    then have n: "nat r \<le> k" "nat r < length x" "r < int (length x)" using k by auto
    then have "\<not> cmp_Less (x ! nat r) t" using f(1) f(2) [of "nat r"] by simp
    moreover have "\<not> cmp_Less t (x ! nat r)" using m [OF n(1) k(1)] k(3) ordered_slice.lt_le_trans by blast
    ultimately show "r < int (length x) \<and> cmp_Compare (x ! nat r) t = 0" using n by (simp add: cmp_Compare_Less)
  qed (use f(1) nth_mem [of "nat r" x] in auto)
  then show ?thesis using f(1) e assms(2) by (simp add: BinarySearch_def loops_bisect r_def)
qed

section \<open>Searches and extremes of slices\<close>

lemma Search_filter:
  assumes "strict_weak_order lt" "sorted_wrt (\<lambda>a b. \<not> lt b a) x" "int (length x) < 2 ^ 63"
  shows "Search (int (length x)) (\<lambda>i. \<not> lt (x ! nat i) t) = Some (int (length (filter (\<lambda>e. lt e t) x)))"
proof -
  have "lt (x ! i) t" if "i < j" "j < length x" "lt (x ! j) t" for i j
    using strict_weak_order.le_lt_trans [OF assms(1) _ that(3), of "x ! i"] assms(2) that by (auto simp: sorted_wrt_iff_nth_less)
  from bisect_filter(1) [of x "\<lambda>e. lt e t", OF this] show ?thesis using assms(3) by (simp add: Search_def loops_bisect)
qed

lemma SearchFloat64s_eq:
  assumes "sorted_wrt (\<lambda>a b. \<not> cmp_Less b a) x" "int (length x) < 2 ^ 63"
  shows "SearchFloat64s x t = Some (if t = NaN then int (length x) else int (length (filter (\<lambda>e. cmp_Less e t) x)))"
proof (cases "t = NaN")
  case True
  have "Search (int (length x)) (\<lambda>i. False) = Some (int (length x))"
    using bisect_edge [of 0 "int (length x)" "\<lambda>_. True"] bisect_bounds [of 0 "int (length x)" "\<lambda>_. True"] assms(2)
    by (auto simp: Search_def loops_bisect)
  then show ?thesis using True by (simp add: SearchFloat64s_def go_less_def go_equal_def)
next
  case False
  then have "(go_less t a \<or> go_equal a t) = (\<not> cmp_Less a t)" for a by (auto simp: cmp_Less_cases go_less_def go_equal_def)
  then show ?thesis using False Search_filter [OF cmp_Less_weak assms, of t] by (simp add: SearchFloat64s_def)
qed

context strict_weak_order
begin

lemma fold_first_least:
  defines "pick \<equiv> \<lambda>y m. if lt y m then y else m"
  shows "\<exists>k<length (a # x). fold pick x a = (a # x) ! k \<and> (\<forall>i<k. lt ((a # x) ! k) ((a # x) ! i)) \<and>
    (\<forall>i<length (a # x). \<not> lt ((a # x) ! i) ((a # x) ! k))"
proof (induction x rule: rev_induct)
  case Nil
  then show ?case using lt_irrefl by simp
next
  case (snoc y x)
  let ?l = "a # x @ [y]"
  obtain k where k: "k < length (a # x)" "fold pick x a = ?l ! k" "\<forall>i<k. lt (?l ! k) (?l ! i)" "\<forall>i<length (a # x). \<not> lt (?l ! i) (?l ! k)"
    using snoc by (auto simp: nth_append simp flip: append_Cons)
  have y: "?l ! length (a # x) = y" by simp
  show ?case
  proof (cases "lt y (?l ! k)")
    case True
    have "lt y (?l ! i)" if "i < length (a # x)" for i using lt_le_trans [OF True] k(4) that by blast
    moreover from this have "\<not> lt (?l ! i) y" if "i < length ?l" for i
      using that lt_asym lt_irrefl y by (cases "i = length (a # x)") (auto simp: less_Suc_eq)
    ultimately show ?thesis using True k(2) y by (intro exI [of _ "length (a # x)"]) (auto simp: pick_def)
  next
    case False
    then have "\<not> lt (?l ! i) (?l ! k)" if "i < length ?l" for i
      using k(4) that y by (cases "i = length (a # x)") (auto simp: less_Suc_eq)
    then show ?thesis using False k by (intro exI [of _ k]) (auto simp: pick_def)
  qed
qed

end

text \<open>An element of the slice before which there is none in the order \<open>lt\<close>, and the first such element.\<close>

definition first_least :: "('a \<Rightarrow> 'a \<Rightarrow> bool) \<Rightarrow> 'a list \<Rightarrow> 'a \<Rightarrow> bool" where
  "first_least lt x m \<longleftrightarrow> (\<exists>k<length x. m = x ! k \<and> (\<forall>i<k. lt m (x ! i)) \<and> (\<forall>y\<in>set x. \<not> lt y m))"

lemma fold_first_least_list:
  assumes "strict_weak_order lt" "x \<noteq> []"
  shows "first_least lt x (fold (\<lambda>y m. if lt y m then y else m) (drop 1 x) (x ! 0))"
proof -
  obtain a xs where x: "x = a # xs" using assms(2) by (cases x) auto
  obtain k where "k < length x" "fold (\<lambda>y m. if lt y m then y else m) xs a = x ! k" "\<forall>i<k. lt (x ! k) (x ! i)" "\<forall>i<length x. \<not> lt (x ! i) (x ! k)"
    using strict_weak_order.fold_first_least [OF assms(1), of a xs] unfolding x by blast
  moreover from this(4) have "\<forall>y\<in>set x. \<not> lt y (x ! k)" by (simp only: all_set_conv_all_nth)
  moreover have "drop 1 x = xs" "x ! 0 = a" by (simp_all add: x)
  ultimately show ?thesis unfolding first_least_def by (intro exI [of _ k]) simp
qed

lemma MinFunc_MaxFunc_eq:
  "strict_weak_order (\<lambda>a b. cmp a b < 0) \<Longrightarrow> if x = [] then MinFunc x cmp = Inl (PanicMsg ''slices.MinFunc: empty list'')
     else \<exists>m. MinFunc x cmp = Inr m \<and> first_least (\<lambda>a b. cmp a b < 0) x m"
  "strict_weak_order (\<lambda>a b. cmp a b > 0) \<Longrightarrow> if x = [] then MaxFunc x cmp = Inl (PanicMsg ''slices.MaxFunc: empty list'')
     else \<exists>m. MaxFunc x cmp = Inr m \<and> first_least (\<lambda>a b. cmp a b > 0) x m"
  using fold_first_least_list [of "\<lambda>a b. cmp a b < 0" x] fold_first_least_list [of "\<lambda>a b. cmp a b > 0" x]
  by (auto simp: MinFunc_def MaxFunc_def Suc_le_eq)

text \<open>The order of \<open>min\<close> and \<open>max\<close>: that of \<open>cmp.Less\<close>, with the negative zero before the positive one.\<close>

definition zero_before :: "'a::{linorder, zero} ordered \<Rightarrow> 'a ordered \<Rightarrow> bool" where
  "zero_before a b \<longleftrightarrow> cmp_Less a b \<or> a = NegZero \<and> b = Num 0"

lemma ordered_value_eq: "x \<noteq> NaN \<Longrightarrow> y \<noteq> NaN \<Longrightarrow> ordered_value x = ordered_value y \<Longrightarrow> x = y \<or> x = NegZero \<and> y = Num 0 \<or> x = Num 0 \<and> y = NegZero"
  by (cases x; cases y) auto

lemma zero_before_weak: "strict_weak_order zero_before" "strict_weak_order (\<lambda>a b. zero_before b a)"
  by (unfold_locales; auto simp: zero_before_def cmp_Less_cases dest: ordered_value_eq)+

lemma fold_go_min_max_NaN: "NaN \<in> set (a # x) \<Longrightarrow> fold (\<lambda>y m. go_min m y) x a = NaN \<and> fold (\<lambda>y m. go_max m y) x a = NaN"
proof (induction x arbitrary: a)
  case (Cons y x)
  then have "NaN \<in> set (go_min a y # x)" "NaN \<in> set (go_max a y # x)" by (auto simp: go_min_def go_max_def)
  then show ?case using Cons.IH by simp
qed simp

lemma fold_go_min_max:
  "NaN \<notin> set (a # x) \<Longrightarrow> fold (\<lambda>y m. go_min m y) x a = fold (\<lambda>y m. if zero_before y m then y else m) x a \<and>
     fold (\<lambda>y m. go_max m y) x a = fold (\<lambda>y m. if zero_before m y then y else m) x a"
proof (induction x arbitrary: a)
  case (Cons y x)
  then have n: "a \<noteq> NaN" "y \<noteq> NaN" by auto
  have "go_min a y = (if zero_before y a then y else a)" "go_max a y = (if zero_before a y then y else a)"
    using n ordered_value_eq [OF n] by (auto simp: go_min_def go_max_def zero_before_def cmp_Less_cases go_less_def)
  then show ?case using Cons by simp
qed simp

lemma first_least_sorted:
  assumes "strict_weak_order lt" "sorted_wrt (\<lambda>a b. \<not> lt b a) s" "set s = set x" "first_least lt' x m" "\<And>a b. lt a b \<Longrightarrow> lt' a b"
  shows "\<not> lt m (hd s) \<and> \<not> lt (hd s) m"
proof -
  have m: "m \<in> set x" "\<not> lt y m" if "y \<in> set x" for y using assms(4,5) that by (auto simp: first_least_def)
  then have s: "s \<noteq> []" using assms(3,4) by (auto simp: first_least_def)
  then have "\<not> lt y (hd s)" if "y \<in> set s" for y
    using that assms(2) strict_weak_order.lt_irrefl [OF assms(1)] by (cases s) auto
  then show ?thesis using m s hd_in_set [OF s] unfolding assms(3) by blast
qed

lemma slices_Min_Max_eq:
  assumes "x \<noteq> []"
  shows "\<exists>m n. slices_Min x = Inr m \<and> slices_Max x = Inr n \<and>
    (if NaN \<in> set x then m = NaN \<and> n = NaN
     else first_least zero_before x m \<and> first_least (\<lambda>a b. zero_before b a) x n \<and>
       cmp_Compare m (hd (slices_Sort x)) = 0 \<and> cmp_Compare n (last (slices_Sort x)) = 0)"
proof (cases "NaN \<in> set x")
  case True
  then show ?thesis using assms fold_go_min_max_NaN [of "x ! 0" "drop 1 x"] by (cases x) (auto simp: slices_Min_def slices_Max_def)
next
  case False
  define s where "s = slices_Sort x"
  have s: "set s = set x" "sorted_wrt (\<lambda>a b. \<not> cmp_Less b a) s"
    using pdqsort_all [OF ordered_slice.sort_data_axioms, of x] by (auto simp: s_def slices_Sort_def pdqsortOrdered_def dest: mset_eq_setD)
  define m where "m = fold (\<lambda>y m. go_min m y) (drop 1 x) (x ! 0)"
  define n where "n = fold (\<lambda>y m. go_max m y) (drop 1 x) (x ! 0)"
  have "set (x ! 0 # drop 1 x) = set x" using assms by (cases x) simp_all
  then have "NaN \<notin> set (x ! 0 # drop 1 x)" using False by simp
  note f = fold_go_min_max [OF this]
  have mn: "first_least zero_before x m" "first_least (\<lambda>a b. zero_before b a) x n"
    unfolding m_def n_def f [THEN conjunct1] f [THEN conjunct2]
    by (rule fold_first_least_list [OF zero_before_weak(1) assms] fold_first_least_list [OF zero_before_weak(2) assms])+
  have w: "strict_weak_order (\<lambda>a b. cmp_Less b a)" by unfold_locales (auto simp: cmp_Less_cases)
  have "\<not> cmp_Less m (hd s) \<and> \<not> cmp_Less (hd s) m"
    by (rule first_least_sorted [OF cmp_Less_weak s(2,1) mn(1)]) (simp add: zero_before_def)
  moreover have "\<not> cmp_Less (hd (rev s)) n \<and> \<not> cmp_Less n (hd (rev s))"
    by (rule first_least_sorted [OF w _ _ mn(2)]) (use s in \<open>simp_all add: zero_before_def sorted_wrt_rev\<close>)
  ultimately have "cmp_Compare m (hd s) = 0" "cmp_Compare n (last s) = 0" by (simp_all add: cmp_Compare_Less hd_rev)
  then show ?thesis using False mn assms by (simp add: slices_Min_def slices_Max_def m_def n_def s_def Suc_le_eq)
qed

text \<open>The extreme and the end of the sorted slice can be different zeros.\<close>

lemma Min_negative_zero: "slices_Min [Num (0 :: int), NegZero] = Inr NegZero \<and> slices_Sort [Num (0 :: int), NegZero] = [Num 0, NegZero]"
  by code_simp

lemma cmp_Or_eq: "cmp_Or eq zero vals = (case filter (\<lambda>v. \<not> eq v zero) vals of [] \<Rightarrow> zero | v # _ \<Rightarrow> v)"
  by (induction vals) auto

lemma sort_Find_eq:
  assumes "n < 2 ^ 63"
  shows "sort_Find n cmp = map_option (\<lambda>i. (i, i < n \<and> cmp i = 0)) (Search n (\<lambda>i. cmp i \<le> 0))"
  using assms by (simp add: sort_Find_def Search_def loops_bisect not_le)

section \<open>Properties\<close>

text \<open>
  C9: \<open>sort.Sort\<close> on any collection that meets the documented contract of \<open>sort.Interface\<close> (\<open>Less\<close> a
  strict weak order on the elements, \<open>Swap\<close> an exchange): it terminates, permutes the elements and
  leaves them in order, whatever mixture of insertion sort, heap sort, partitioning, pattern breaking
  and partial insertion pdqsort chooses; and \<open>IsSorted\<close> then reports true.
\<close>

theorem Sort_sorts:
  assumes "sort_data lt D elems"
  shows "mset (elems (Sort D s)) = mset (elems s) \<and> sorted_wrt (\<lambda>x y. \<not> lt y x) (elems (Sort D s)) \<and> IsSorted D (Sort D s)"
proof -
  have c: "mset (elems (Sort D s)) = mset (elems s)" "sorted_range lt 0 (int (length (elems s))) (elems (Sort D s))"
    using sort_data.Sort_correct [OF assms] by blast+
  then have "length (elems (Sort D s)) = length (elems s)" using mset_eq_length by blast
  then show ?thesis using c sorted_range_wrt sort_data.IsSorted_correct [OF assms] by metis
qed

theorem Sort_sorts_witness:
  "mset (Sort IntSlice [3, 1, 2]) = mset [3, 1, 2] \<and> sorted_wrt (\<lambda>x y. \<not> y < x) (Sort IntSlice [3, 1, 2]) \<and>
   IsSorted IntSlice (Sort IntSlice [3, 1, 2])"
  by (rule Sort_sorts [OF int_slice.sort_data_axioms])

text \<open>
  C10: \<open>sort.Stable\<close> on any collection that meets the contract: it returns (its rotations, merges and
  passes all end), with the elements in order and every class of equivalent elements in its original
  order.
\<close>

theorem Stable_sorts:
  assumes "sort_data lt D elems"
  shows "\<exists>t. Stable D s = Some t \<and> mset (elems t) = mset (elems s) \<and> sorted_wrt (\<lambda>x y. \<not> lt y x) (elems t) \<and>
    (\<forall>x. filter (\<lambda>y. \<not> lt x y \<and> \<not> lt y x) (elems t) = filter (\<lambda>y. \<not> lt x y \<and> \<not> lt y x) (elems s))"
proof -
  obtain t where t: "Stable D s = Some t" "mset (elems t) = mset (elems s)"
      "sorted_range lt 0 (int (length (elems s))) (elems t)" "stable_perm lt (elems s) (elems t)"
    using sort_data.Stable_correct [OF assms] by blast
  then have "sorted_wrt (\<lambda>x y. \<not> lt y x) (elems t)" using sorted_range_wrt mset_eq_length by metis
  then show ?thesis using t by (auto simp: stable_perm_def)
qed

theorem Stable_sorts_witness:
  "\<exists>t. Stable StringSlice [[2, 1], [1], [1, 0]] = Some t \<and> mset t = mset [[2, 1], [1], [1, 0]] \<and>
     sorted_wrt (\<lambda>x y. \<not> string_less y x) t \<and>
     (\<forall>x. filter (\<lambda>y. \<not> string_less x y \<and> \<not> string_less y x) t =
        filter (\<lambda>y. \<not> string_less x y \<and> \<not> string_less y x) [[2, 1], [1], [1, 0]])"
  by (rule Stable_sorts [OF string_slice.sort_data_axioms])

text \<open>
  C11: \<open>slices.SortFunc\<close> and \<open>slices.SortStableFunc\<close>, for a comparison function that is a strict weak
  order: both permute the slice into ascending order, and the stable one keeps the order of the
  elements that compare equal.
  \<open>MinFunc\<close> and \<open>MaxFunc\<close> panic on the empty slice and otherwise return the first of its minimal and of its maximal elements.
\<close>

theorem SortFunc_sorts:
  assumes "strict_weak_order (\<lambda>a b. cmp a b < 0)"
  shows "mset (SortFunc x cmp) = mset x \<and> sorted_wrt (\<lambda>a b. \<not> cmp b a < 0) (SortFunc x cmp) \<and>
    (\<exists>y. SortStableFunc x cmp = Some y \<and> mset y = mset x \<and> sorted_wrt (\<lambda>a b. \<not> cmp b a < 0) y \<and>
      (\<forall>a. filter (\<lambda>b. \<not> cmp a b < 0 \<and> \<not> cmp b a < 0) y = filter (\<lambda>b. \<not> cmp a b < 0 \<and> \<not> cmp b a < 0) x)) \<and>
    (if x = [] then MinFunc x cmp = Inl (PanicMsg ''slices.MinFunc: empty list'')
     else \<exists>m. MinFunc x cmp = Inr m \<and> first_least (\<lambda>a b. cmp a b < 0) x m) \<and>
    (strict_weak_order (\<lambda>a b. cmp a b > 0) \<longrightarrow>
      (if x = [] then MaxFunc x cmp = Inl (PanicMsg ''slices.MaxFunc: empty list'')
       else \<exists>m. MaxFunc x cmp = Inr m \<and> first_least (\<lambda>a b. cmp a b > 0) x m))"
proof -
  note d = cmpSlice_data [OF assms]
  obtain y where y: "stable (cmpSlice cmp) x (int (length x)) = Some y" "perm_range 0 (int (length x)) x y"
      "stable_perm (\<lambda>a b. cmp a b < 0) x y" "sorted_range (\<lambda>a b. cmp a b < 0) 0 (int (length x)) y"
    using sort_data.stable_correct [OF d, of "int (length x)" x] by auto
  then have "sorted_wrt (\<lambda>a b. \<not> cmp b a < 0) y"
    using perm_range_length [OF y(2)] sorted_range_wrt [of "\<lambda>a b. cmp a b < 0" y] by simp
  then have "\<exists>y. SortStableFunc x cmp = Some y \<and> mset y = mset x \<and> sorted_wrt (\<lambda>a b. \<not> cmp b a < 0) y \<and>
      (\<forall>a. filter (\<lambda>b. \<not> cmp a b < 0 \<and> \<not> cmp b a < 0) y = filter (\<lambda>b. \<not> cmp a b < 0 \<and> \<not> cmp b a < 0) x)"
    using y by (auto simp: SortStableFunc_def stableCmpFunc_def stable_perm_def perm_range_def)
  moreover have "mset (SortFunc x cmp) = mset x" "sorted_wrt (\<lambda>a b. \<not> cmp b a < 0) (SortFunc x cmp)"
    using pdqsort_all [OF d, of x] by (auto simp: SortFunc_def pdqsortCmpFunc_def)
  ultimately show ?thesis using MinFunc_MaxFunc_eq(1) [OF assms, of x] MinFunc_MaxFunc_eq(2) [of cmp x] by (intro conjI impI)
qed

theorem SortFunc_sorts_witness:
  "mset (SortFunc [Num (2::int), NaN, Num 1] cmp_Compare) = mset [Num 2, NaN, Num 1] \<and>
   sorted_wrt (\<lambda>a b. \<not> cmp_Compare b a < 0) (SortFunc [Num (2::int), NaN, Num 1] cmp_Compare) \<and>
   (\<exists>m. MaxFunc [Num (2::int), NaN, Num 1] cmp_Compare = Inr m \<and> first_least (\<lambda>a b. cmp_Compare a b > 0) [Num (2::int), NaN, Num 1] m)"
proof -
  have "strict_weak_order (\<lambda>a b :: int ordered. cmp_Compare a b > 0)"
    unfolding cmp_Compare_Less by unfold_locales (auto simp: cmp_Less_cases)
  then show ?thesis using SortFunc_sorts [OF cmp_Compare_weak, of "[Num (2::int), NaN, Num 1]"] by simp
qed

text \<open>
  C12: \<open>slices.Sort\<close> permutes a slice of ordered values into ascending order with the NaN values first,
  \<open>slices.IsSorted\<close> says exactly whether a slice is in that order, and the methods of \<open>Float64Slice\<close>
  order floating-point values in the same way. \<open>slices.Min\<close> and \<open>slices.Max\<close> panic on the
  empty slice, return NaN when there is one, and otherwise the first least and the first greatest element in the order that has the negative
  zero before the positive one. For \<open>cmp.Compare\<close>, which finds the two zeros equal, these elements are equal to the ends of the sorted slice; they
  need not be the ends themselves, as the slice \<open>[0.0, -0.0]\<close> shows, whose minimum is the negative zero and which \<open>Sort\<close> leaves as it is.
  \<open>cmp.Compare\<close> is negative and positive exactly as \<open>cmp.Less\<close> says, zero when both values are NaN or the operator \<open>==\<close> holds, and \<open>cmp.Or\<close>
  returns the first of its arguments that is not equal to the zero value.
\<close>

theorem slices_Sort_sorts:
  "mset (slices_Sort x) = mset x \<and> sorted_wrt (\<lambda>a b. \<not> cmp_Less b a) (slices_Sort x) \<and>
   (slices_IsSorted x \<longleftrightarrow> sorted_wrt (\<lambda>a b. \<not> cmp_Less b a) x) \<and>
   sorted_wrt (\<lambda>a b. \<not> cmp_Less b a) (Sort Float64Slice x) \<and>
   (if x = [] then slices_Min x = Inl (PanicMsg ''slices.Min: empty list'') \<and> slices_Max x = Inl (PanicMsg ''slices.Max: empty list'')
    else \<exists>m n. slices_Min x = Inr m \<and> slices_Max x = Inr n \<and>
      (if NaN \<in> set x then m = NaN \<and> n = NaN
       else first_least zero_before x m \<and> first_least (\<lambda>a b. zero_before b a) x n \<and>
         cmp_Compare m (hd (slices_Sort x)) = 0 \<and> cmp_Compare n (last (slices_Sort x)) = 0)) \<and>
   slices_Min [Num (0 :: int), NegZero] = Inr NegZero \<and> slices_Sort [Num (0 :: int), NegZero] = [Num 0, NegZero] \<and>
   (cmp_Compare a b < 0 \<longleftrightarrow> cmp_Less a b) \<and> (cmp_Compare a b > 0 \<longleftrightarrow> cmp_Less b a) \<and>
   (cmp_Compare a b = 0 \<longleftrightarrow> a = NaN \<and> b = NaN \<or> go_equal a b) \<and>
   cmp_Or eq zero vals = (case filter (\<lambda>v. \<not> eq v zero) vals of [] \<Rightarrow> zero | v # _ \<Rightarrow> v)"
proof -
  have "slices_IsSorted_loop x i = IsSorted_loop orderedSlice x i" for i
  proof (induction x i rule: slices_IsSorted_loop.induct)
    case (1 x i)
    then show ?case by (simp add: slices_IsSorted_loop.simps [of x i] IsSorted_loop.simps [of _ x i] orderedSlice_def)
  qed
  then have "slices_IsSorted x = IsSorted orderedSlice x"
    by (simp add: slices_IsSorted_def IsSorted_def orderedSlice_def)
  then have "slices_IsSorted x \<longleftrightarrow> sorted_wrt (\<lambda>a b. \<not> cmp_Less b a) x"
    by (simp add: ordered_slice.IsSorted_correct sorted_range_wrt)
  moreover have "length (Sort Float64Slice x) = length x"
    using float64_slice.Sort_correct [of x] mset_eq_length by blast
  then have "sorted_wrt (\<lambda>a b. \<not> cmp_Less b a) (Sort Float64Slice x)"
    using float64_slice.Sort_correct [of x] sorted_range_wrt [of cmp_Less "Sort Float64Slice x"] by simp
  moreover have "mset (slices_Sort x) = mset x" "sorted_wrt (\<lambda>a b. \<not> cmp_Less b a) (slices_Sort x)"
    using pdqsort_all [OF ordered_slice.sort_data_axioms, of x] by (simp_all add: slices_Sort_def pdqsortOrdered_def)
  moreover have "x = [] \<Longrightarrow> slices_Min x = Inl (PanicMsg ''slices.Min: empty list'') \<and> slices_Max x = Inl (PanicMsg ''slices.Max: empty list'')"
    by (simp add: slices_Min_def slices_Max_def)
  moreover have "cmp_Compare a b = 0 \<longleftrightarrow> a = NaN \<and> b = NaN \<or> go_equal a b"
    by (auto simp: cmp_Compare_Less cmp_Less_cases go_equal_def)
  moreover note slices_Min_Max_eq [of x] Min_negative_zero cmp_Compare_Less(1,2) [of a b]
  ultimately show ?thesis by (intro conjI cmp_Or_eq) (auto split del: if_split split: if_split [of _ "x = []"])
qed

lemma Search_turns:
  assumes "0 \<le> n" "n < 2 ^ 63"
  shows "\<exists>r. Search n f = Some r \<and> 0 \<le> r \<and> r \<le> n \<and> (0 < r \<longrightarrow> \<not> f (r - 1)) \<and> (r < n \<longrightarrow> f r) \<and>
    ((\<forall>i j. 0 \<le> i \<and> i \<le> j \<and> j < n \<and> f i \<longrightarrow> f j) \<longrightarrow> (\<forall>i. 0 \<le> i \<and> i < n \<longrightarrow> (f i \<longleftrightarrow> r \<le> i)))"
proof -
  let ?P = "\<lambda>h. \<not> f h"
  define r where r: "r = bisect ?P 0 n"
  have s: "Search n f = Some r" using assms(2) by (simp add: r Search_def loops_bisect)
  have "f i \<longleftrightarrow> r \<le> i" if m: "\<forall>i j. 0 \<le> i \<and> i \<le> j \<and> j < n \<and> f i \<longrightarrow> f j" and i: "0 \<le> i" "i < n" for i
  proof -
    have "(\<forall>h. 0 \<le> h \<and> h < r \<longrightarrow> ?P h) \<and> (\<forall>h. r \<le> h \<and> h < n \<longrightarrow> \<not> ?P h)"
      unfolding r using m by (intro bisect_spec [OF assms(1)]) blast
    then show ?thesis using i by (meson not_le)
  qed
  moreover have "0 \<le> r" "r \<le> n" "0 < r \<longrightarrow> \<not> f (r - 1)" "r < n \<longrightarrow> f r"
    using bisect_bounds [OF assms(1), of ?P] bisect_edge [OF assms(1), of ?P] unfolding r by blast+
  ultimately show ?thesis using s by blast
qed

lemma Search_negative: "n \<le> 0 \<Longrightarrow> Search n f = Some 0"
  by (simp add: Search_def Search_loop.simps)

text \<open>
  C13: binary search. \<open>sort.Search\<close>, on any number of indices an \<open>int\<close> can hold and whatever the predicate, returns: the result is an index of
  \<open>[0, n]\<close> where the predicate turns from false to true (0 when \<open>n\<close> is negative); when the predicate never turns back, it is the smallest index
  where it holds. No midpoint overflows, also when the sum of the bounds does. \<open>BinarySearchFunc\<close> on a
  slice ordered with respect to the target (the elements before it, then those equal to it, then those after it), and
  \<open>BinarySearch\<close> on an ascending slice: the index is the number of elements before the target, the place to insert it,
  and the second result says whether an element compares equal to the target (a NaN is found as a NaN, and either zero as the other). \<open>SearchInts\<close>,
  \<open>SearchStrings\<close> and
  \<open>SearchFloat64s\<close> return the same insertion point, except that \<open>SearchFloat64s\<close> returns the length of the slice for a NaN. \<open>Find\<close>
  searches for the first index where the comparison is not positive. The lengths of slices are values of type \<open>int\<close>.
\<close>

theorem binary_searches:
  assumes "n < 2 ^ 63" "int (length x) < 2 ^ 63" "int (length y) < 2 ^ 63" "int (length z) < 2 ^ 63" "int (length z') < 2 ^ 63"
  shows "(\<exists>r. Search n f = Some r \<and> (n < 0 \<longrightarrow> r = 0) \<and> (0 \<le> n \<longrightarrow> 0 \<le> r \<and> r \<le> n \<and> (0 < r \<longrightarrow> \<not> f (r - 1)) \<and> (r < n \<longrightarrow> f r) \<and>
      ((\<forall>i j. 0 \<le> i \<and> i \<le> j \<and> j < n \<and> f i \<longrightarrow> f j) \<longrightarrow> (\<forall>i. 0 \<le> i \<and> i < n \<longrightarrow> (f i \<longleftrightarrow> r \<le> i))))) \<and>
    (sorted_wrt (\<lambda>a b. sgn (cmp a t) \<le> sgn (cmp b t)) x \<longrightarrow>
      BinarySearchFunc x t cmp = Some (int (length (filter (\<lambda>e. cmp e t < 0) x)), \<exists>k<length x. cmp (x ! k) t = 0)) \<and>
    (sorted_wrt (\<lambda>a b. \<not> cmp_Less b a) y \<longrightarrow>
      BinarySearch y u = Some (int (length (filter (\<lambda>e. cmp_Less e u) y)), \<exists>e\<in>set y. cmp_Compare e u = 0) \<and>
      SearchFloat64s y u = Some (if u = NaN then int (length y) else int (length (filter (\<lambda>e. cmp_Less e u) y)))) \<and>
    (sorted_wrt (\<lambda>a b. \<not> b < a) z \<longrightarrow> SearchInts z v = Some (int (length (filter (\<lambda>e. e < v) z)))) \<and>
    (sorted_wrt (\<lambda>a b. \<not> string_less b a) z' \<longrightarrow> SearchStrings z' v' = Some (int (length (filter (\<lambda>e. string_less e v') z')))) \<and>
    sort_Find n sgns = map_option (\<lambda>i. (i, i < n \<and> sgns i = 0)) (Search n (\<lambda>i. sgns i \<le> 0))"
proof -
  have r: "\<exists>r. Search n f = Some r \<and> (n < 0 \<longrightarrow> r = 0) \<and> (0 \<le> n \<longrightarrow> 0 \<le> r \<and> r \<le> n \<and> (0 < r \<longrightarrow> \<not> f (r - 1)) \<and> (r < n \<longrightarrow> f r) \<and>
      ((\<forall>i j. 0 \<le> i \<and> i \<le> j \<and> j < n \<and> f i \<longrightarrow> f j) \<longrightarrow> (\<forall>i. 0 \<le> i \<and> i < n \<longrightarrow> (f i \<longleftrightarrow> r \<le> i))))"
    using Search_turns [OF _ assms(1), of f] Search_negative [of n f] by (cases "n < 0") auto
  have i: "sorted_wrt (\<lambda>a b. \<not> b < a) z \<Longrightarrow> SearchInts z v = Some (int (length (filter (\<lambda>e. e < v) z)))"
    using Search_filter [OF linear_order_weak _ assms(4), of v] by (simp add: SearchInts_def not_less)
  have s: "sorted_wrt (\<lambda>a b. \<not> string_less b a) z' \<Longrightarrow> SearchStrings z' v' = Some (int (length (filter (\<lambda>e. string_less e v') z')))"
    using Search_filter [OF string_less_weak _ assms(5), of v'] by (simp add: SearchStrings_def)
  show ?thesis
    by (intro conjI impI r i s BinarySearchFunc_eq BinarySearch_eq SearchFloat64s_eq sort_Find_eq assms)
qed

theorem binary_searches_witness:
  "Search (2 ^ 63 - 1) (\<lambda>i. 2 ^ 63 - 2 \<le> i) = Some (2 ^ 63 - 2) \<and>
   BinarySearchFunc [1, 4, 4, 9] 4 (\<lambda>a b :: int. a - b) = Some (1, True) \<and>
   BinarySearch [NaN, Num 2, Num (5::int)] (Num 3) = Some (2, False)"
proof -
  let ?f = "\<lambda>i :: int. 2 ^ 63 - 2 \<le> i"
  note ws = binary_searches [of "2 ^ 63 - 1" "[1, 4, 4, 9]" "[NaN, Num 2, Num (5::int)]" "[]" "[]" ?f "\<lambda>a b. a - b" 4 "Num 3" 0 "[]" "\<lambda>_. 0"]
  have "int (length [1, 4, 4, 9 :: int]) < 2 ^ 63" "int (length [NaN, Num 2, Num (5::int)]) < 2 ^ 63" by simp_all
  note ws = ws [OF _ this, simplified]
  from ws obtain r where "Search (2 ^ 63 - 1) ?f = Some r" "r \<le> 2 ^ 63 - 1" "0 < r \<longrightarrow> \<not> ?f (r - 1)" "r < 2 ^ 63 - 1 \<longrightarrow> ?f r" by auto
  then have "Search (2 ^ 63 - 1) ?f = Some (2 ^ 63 - 2)" by (cases "r = 2 ^ 63 - 2") auto
  moreover have "\<exists>k<Suc (Suc (Suc (Suc 0))). [1, 4, 4, 9] ! k = (4 :: int)" by (rule exI [of _ 1]) simp
  ultimately show ?thesis using ws by (simp add: cmp_Less_cases cmp_Compare_Less)
qed

end
