(* ===== verification/Container_Heap.thy ===== *)
theory Container_Heap
  imports Sort_Instances
begin

text \<open>
  Package \<open>container/heap\<close> (\<open>src/container/heap/heap.go\<close>). \<open>heap.Interface\<close> extends \<open>sort.Interface\<close> with
  \<open>Push\<close> and \<open>Pop\<close>, so its record extends that of the sorting theories. The index of a left child is
  computed with the wrap-around of a 64-bit \<open>int\<close>, which the guard \<open>j1 < 0\<close> of \<open>down\<close> is there for; the
  guard on the range of the index only says that it is an \<open>int\<close>.

  \<open>down\<close> is the \<open>siftDown\<close> of heap sort on the reversed order, and is verified through it; \<open>up\<close>, \<open>Fix\<close>
  and \<open>Remove\<close> are verified with \<open>heap_hole\<close>, the heap order around a node of any value. The locale
  \<open>heap_data\<close> adds the contract of \<open>Push\<close> and \<open>Pop\<close> to \<open>sort_data\<close>.
\<close>

section \<open>The code\<close>

record ('s, 'a) heap_Interface = "'s Interface" +
  H_Push :: "'s \<Rightarrow> 'a \<Rightarrow> 's"
  H_Pop :: "'s \<Rightarrow> 's \<times> 'a"

function heap_up :: "('s, 'z) Interface_scheme \<Rightarrow> 's \<Rightarrow> int \<Rightarrow> 's" where
  "heap_up h s j =
     (let i = (j - 1) sdiv 2 in
      if i = j \<or> \<not> If_Less h s j i then s
      else heap_up h (If_Swap h s i j) i)"
  by pat_completeness auto
termination
proof (relation "measure (\<lambda>(_, _, j). nat \<bar>j\<bar>)", simp)
  fix h :: "('s, 'z) Interface_scheme" and s j i
  assume i: "i = (j - 1) sdiv 2" and c: "\<not> (i = j \<or> \<not> If_Less h s j i)"
  have "\<bar>i\<bar> < \<bar>j\<bar>"
  proof (cases "j \<ge> 1")
    case True
    then have "i = (j - 1) div 2" by (auto simp: i signed_divide_int_def sgn_if)
    then show ?thesis using True by simp
  next
    case False
    then have "i = - ((1 - j) div 2)" by (simp add: i signed_divide_int_def sgn_if abs_if)
    moreover have "i \<noteq> j" using c by blast
    ultimately show ?thesis using False by (simp add: abs_if) presburger
  qed
  then show "((h, If_Swap h s i j, i), h, s, j) \<in> measure (\<lambda>(_, _, j). nat \<bar>j\<bar>)" by simp
qed

function heap_down_loop :: "('s, 'z) Interface_scheme \<Rightarrow> 's \<Rightarrow> int \<Rightarrow> int \<Rightarrow> 's \<times> int" where
  "heap_down_loop h s i n =
     (let j1 = wrap64 (2 * i + 1) in
      if j1 \<ge> n \<or> j1 < 0 \<or> \<not> (- (2 ^ 63) \<le> i \<and> i < 2 ^ 63) then (s, i)
      else
        let j2 = j1 + 1;
            j = (if j2 < n \<and> If_Less h s j2 j1 then j2 else j1) in
        if \<not> If_Less h s j i then (s, i)
        else heap_down_loop h (If_Swap h s i j) j n)"
  by pat_completeness auto
termination
proof (relation "measure (\<lambda>(_, _, i, n). nat (n - i))", simp)
  fix h :: "('s, 'z) Interface_scheme" and s i n j1 j2 j
  assume j1: "j1 = wrap64 (2 * i + 1)" and c: "\<not> (j1 \<ge> n \<or> j1 < 0 \<or> \<not> (- (2 ^ 63) \<le> i \<and> i < 2 ^ 63))"
    and j: "j2 = j1 + 1" "j = (if j2 < n \<and> If_Less h s j2 j1 then j2 else j1)"
  have "i < j1"
  proof (cases "i < 0")
    case False
    then have "wrap64 (2 * i + 1) = 2 * i + 1 \<or> wrap64 (2 * i + 1) < 0"
      using c wrap64_in [of "2 * i + 1"] wrap64_over [of "2 * i + 1"] by (cases "2 * i + 1 < 2 ^ 63") simp_all
    then show ?thesis using False c j1 by auto
  qed (use c in simp)
  then show "((h, If_Swap h s i j, j, n), h, s, i, n) \<in> measure (\<lambda>(_, _, i, n). nat (n - i))"
    using c j by simp
qed

declare heap_up.simps [simp del] heap_down_loop.simps [simp del]

definition heap_down :: "('s, 'z) Interface_scheme \<Rightarrow> 's \<Rightarrow> int \<Rightarrow> int \<Rightarrow> 's \<times> bool" where
  "heap_down h s i0 n = (let (s, i) = heap_down_loop h s i0 n in (s, i > i0))"

function heap_Init_loop :: "('s, 'z) Interface_scheme \<Rightarrow> 's \<Rightarrow> int \<Rightarrow> int \<Rightarrow> 's" where
  "heap_Init_loop h s n i = (if i \<ge> 0 then heap_Init_loop h (fst (heap_down h s i n)) n (i - 1) else s)"
  by pat_completeness auto
termination by (relation "measure (\<lambda>(_, _, _, i). nat (i + 1))") auto

declare heap_Init_loop.simps [simp del]

definition heap_Init :: "('s, 'z) Interface_scheme \<Rightarrow> 's \<Rightarrow> 's" where
  "heap_Init h s = (let n = If_Len h s in heap_Init_loop h s n (n sdiv 2 - 1))"

definition heap_Push :: "('s, 'a, 'z) heap_Interface_scheme \<Rightarrow> 's \<Rightarrow> 'a \<Rightarrow> 's" where
  "heap_Push h s x = (let s = H_Push h s x in heap_up h s (If_Len h s - 1))"

definition heap_Pop :: "('s, 'a, 'z) heap_Interface_scheme \<Rightarrow> 's \<Rightarrow> 's \<times> 'a" where
  "heap_Pop h s =
     (let n = If_Len h s - 1;
          s = If_Swap h s 0 n;
          s = fst (heap_down h s 0 n)
      in H_Pop h s)"

definition heap_Remove :: "('s, 'a, 'z) heap_Interface_scheme \<Rightarrow> 's \<Rightarrow> int \<Rightarrow> 's \<times> 'a" where
  "heap_Remove h s i =
     (let n = If_Len h s - 1;
          s = (if n \<noteq> i then
                 let s = If_Swap h s i n; (s, moved) = heap_down h s i n
                 in if \<not> moved then heap_up h s i else s
               else s)
      in H_Pop h s)"

definition heap_Fix :: "('s, 'z) Interface_scheme \<Rightarrow> 's \<Rightarrow> int \<Rightarrow> 's" where
  "heap_Fix h s i = (let (s, moved) = heap_down h s i (If_Len h s) in if \<not> moved then heap_up h s i else s)"

text \<open>An \<open>IntSlice\<close> with \<open>Push\<close> as an append and \<open>Pop\<close> as the removal of the last element.\<close>

definition IntHeap :: "(int list, int) heap_Interface" where
  "IntHeap = Interface.extend IntSlice (heap_Interface.fields (\<lambda>s x. s @ [x]) (\<lambda>s. (butlast s, last s)))"

section \<open>Heap order\<close>

text \<open>Reversing the order of a collection that meets the contract gives another one.\<close>

lemma sort_data_reverse:
  assumes "sort_data lt D elems"
  shows "sort_data (\<lambda>x y. lt y x) (sort_reverse D) elems"
proof -
  from assms have w: "strict_weak_order lt" and d: "sort_data_axioms lt D elems"
    unfolding sort_data_def by blast+
  have "strict_weak_order (\<lambda>x y. lt y x)"
    using w unfolding strict_weak_order_def by blast
  then show ?thesis using d by (auto simp: sort_data_def sort_data_axioms_def sort_reverse_def)
qed

text \<open>The first step of \<open>down\<close>, where no overflow happens: it stays put or moves strictly down.\<close>

lemma heap_down_loop_stop:
  assumes "n < 2 ^ 63" "0 \<le> i" "i < 2 ^ 63" "2 * i + 1 \<ge> n"
  shows "heap_down_loop h s i n = (s, i)"
proof -
  have "wrap64 (2 * i + 1) \<ge> n \<or> wrap64 (2 * i + 1) < 0"
    using assms wrap64_in [of "2 * i + 1"] wrap64_over [of "2 * i + 1"] by (cases "2 * i + 1 < 2 ^ 63") simp_all
  then show ?thesis by (auto simp: heap_down_loop.simps [of h s i n] Let_def)
qed

definition small_child :: "('s, 'z) Interface_scheme \<Rightarrow> 's \<Rightarrow> int \<Rightarrow> int \<Rightarrow> int" where
  "small_child h s i n = (if 2 * i + 2 < n \<and> If_Less h s (2 * i + 2) (2 * i + 1) then 2 * i + 2 else 2 * i + 1)"

lemma small_child_bounds: "2 * i + 1 < n \<Longrightarrow> 2 * i + 1 \<le> small_child h s i n \<and> small_child h s i n < n"
  by (simp add: small_child_def)

lemma heap_down_loop_step:
  assumes "n < 2 ^ 63" "0 \<le> i" "2 * i + 1 < n"
  shows "heap_down_loop h s i n = (if \<not> If_Less h s (small_child h s i n) i then (s, i)
    else heap_down_loop h (If_Swap h s i (small_child h s i n)) (small_child h s i n) n)"
proof -
  have "wrap64 (2 * i + 1) = 2 * i + 1" using assms by (intro wrap64_in) simp_all
  then show ?thesis using assms(1-3) by (simp add: heap_down_loop.simps [of h s i n] Let_def small_child_def add.assoc)
qed

lemma heap_down_loop_ge:
  assumes "n < 2 ^ 63" "0 \<le> i" "i < 2 ^ 63"
  shows "i \<le> snd (heap_down_loop h s i n)"
  using assms(2,3)
proof (induction "nat (n - i)" arbitrary: s i rule: less_induct)
  case less
  show ?case
  proof (cases "2 * i + 1 < n")
    case True
    let ?j = "small_child h s i n"
    note j = small_child_bounds [OF True, of h s]
    then have "?j \<le> snd (heap_down_loop h (If_Swap h s i ?j) ?j n)"
      using less.prems assms(1) by (intro less.hyps) auto
    then show ?thesis
      using heap_down_loop_step [OF assms(1) less.prems(1) True, of h s] j less.prems by simp
  qed (use less.prems assms(1) in \<open>simp add: heap_down_loop_stop\<close>)
qed

lemma heap_down_loop_siftDown:
  assumes "n < 2 ^ 63" "0 \<le> i" "i < 2 ^ 63"
  shows "fst (heap_down_loop h s i n) = siftDown (sort_reverse h) s i n 0"
  using assms(2,3)
proof (induction "nat (n - i)" arbitrary: s i rule: less_induct)
  case less
  show ?case
  proof (cases "2 * i + 1 < n")
    case False
    then show ?thesis using assms(1) less.prems by (simp add: heap_down_loop_stop siftDown.simps [of _ s i n 0])
  next
    case True
    let ?j = "small_child h s i n"
    have IH: "fst (heap_down_loop h (If_Swap h s i ?j) ?j n) = siftDown (sort_reverse h) (If_Swap h s i ?j) ?j n 0"
      using small_child_bounds [OF True, of h s] less.prems assms(1) by (intro less.hyps) auto
    have "siftDown (sort_reverse h) s i n 0 =
       (if \<not> If_Less h s ?j i then s else siftDown (sort_reverse h) (If_Swap h s i ?j) ?j n 0)"
      using True less.prems by (simp add: siftDown.simps [of _ s i n 0] Let_def sort_reverse_def small_child_def add.assoc)
    then show ?thesis using IH unfolding heap_down_loop_step [OF assms(1) less.prems(1) True] by simp
  qed
qed

text \<open>Node \<open>c\<close> is a child of node \<open>p\<close>.\<close>

definition heap_child :: "int \<Rightarrow> int \<Rightarrow> bool" where
  "heap_child p c \<longleftrightarrow> 0 \<le> p \<and> (c = 2 * p + 1 \<or> c = 2 * p + 2)"

lemma heap_child_less: "heap_child p c \<Longrightarrow> 0 \<le> p \<and> p < c"
  by (auto simp: heap_child_def)

lemma heap_child_parent: "heap_child p c \<longleftrightarrow> 1 \<le> c \<and> p = (c - 1) sdiv 2"
proof -
  have "1 \<le> c \<Longrightarrow> (c - 1) sdiv 2 = (c - 1) div 2" by (auto simp: signed_divide_int_def sgn_if)
  then show ?thesis unfolding heap_child_def by (cases "1 \<le> c") (simp_all, presburger+)
qed

definition heap_ordered :: "('a \<Rightarrow> 'a \<Rightarrow> bool) \<Rightarrow> 'a list \<Rightarrow> bool" where
  "heap_ordered lt xs \<longleftrightarrow>
     (\<forall>i j. 0 \<le> i \<and> i < int (length xs) \<and> 2 * i + 1 \<le> j \<and> j \<le> 2 * i + 2 \<and> j < int (length xs) \<longrightarrow>
        \<not> lt (xs ! nat j) (xs ! nat i))"

context sort_data
begin

definition heap_below :: "int \<Rightarrow> 's \<Rightarrow> bool" where
  "heap_below n s \<longleftrightarrow> (\<forall>p c. heap_child p c \<and> c < n \<longrightarrow> \<not> lt (elem s c) (elem s p))"

lemma heap_below_ordered: "heap_below (len s) s \<longleftrightarrow> heap_ordered lt (elems s)"
proof -
  have "heap_child p c \<and> c < len s \<longleftrightarrow> 0 \<le> p \<and> p < len s \<and> 2 * p + 1 \<le> c \<and> c \<le> 2 * p + 2 \<and> c < len s" for p c
    by (auto simp: heap_child_def)
  then show ?thesis by (simp only: heap_below_def heap_ordered_def)
qed

text \<open>Every node except \<open>i\<close> is in order with its parent and children, and these are in order across \<open>i\<close>.\<close>

definition heap_hole :: "int \<Rightarrow> int \<Rightarrow> 's \<Rightarrow> bool" where
  "heap_hole n i s \<longleftrightarrow>
     (\<forall>p c. heap_child p c \<and> c < n \<and> p \<noteq> i \<and> c \<noteq> i \<longrightarrow> \<not> lt (elem s c) (elem s p)) \<and>
     (\<forall>p c. heap_child p i \<and> heap_child i c \<and> c < n \<longrightarrow> \<not> lt (elem s c) (elem s p))"

lemma heap_below_hole: "heap_below n s \<Longrightarrow> heap_hole n i s"
  unfolding heap_hole_def
proof (intro conjI allI impI)
  fix p c assume h: "heap_below n s" and c: "heap_child p i \<and> heap_child i c \<and> c < n"
  then have "i < n" using heap_child_less [of i c] by auto
  then have "\<not> lt (elem s c) (elem s i)" "\<not> lt (elem s i) (elem s p)" using h c unfolding heap_below_def by blast+
  then show "\<not> lt (elem s c) (elem s p)" by (rule not_lt_trans)
qed (simp add: heap_below_def)

lemma heap_hole_cong:
  assumes "heap_hole n i s" "\<And>k. 0 \<le> k \<Longrightarrow> k < n \<Longrightarrow> k \<noteq> i \<Longrightarrow> elem s' k = elem s k"
  shows "heap_hole n i s'"
proof -
  have "elem s' c = elem s c" "elem s' p = elem s p" if "heap_child p c" "c < n" "p \<noteq> i" "c \<noteq> i" for p c
    using assms(2) heap_child_less [OF that(1)] that by auto
  moreover have "elem s' c = elem s c" "elem s' p = elem s p" if "heap_child p i" "heap_child i c" "c < n" for p c
    using assms(2) heap_child_less [OF that(1)] heap_child_less [OF that(2)] that by auto
  ultimately show ?thesis using assms(1) unfolding heap_hole_def by auto
qed

lemma down_hole:
  assumes "0 \<le> i" "i < n" "n \<le> len s" "n < 2 ^ 63" "heap_hole n i s"
    "\<And>p. heap_child p i \<Longrightarrow> \<not> lt (elem s i) (elem s p)"
  defines "s' \<equiv> fst (heap_down_loop D s i n)"
  shows "rearr 0 n s s' \<and> heap_below n s'"
proof -
  have e: "s' = siftDown (sort_reverse D) s i n 0" unfolding s'_def using assms by (intro heap_down_loop_siftDown) auto
  have p1: "\<not> lt (elem s (0 + c)) (elem s (0 + p))" if "0 \<le> p" "p \<noteq> i" "c < n" "c = 2 * p + 1 \<or> c = 2 * p + 2" for p c
    using that assms(5,6) unfolding heap_hole_def heap_child_def by (cases "c = i") auto
  have p2: "\<not> lt (elem s (0 + c)) (elem s (0 + p))"
    if "0 \<le> p" "i = 2 * p + 1 \<or> i = 2 * p + 2" "c < n" "c = 2 * i + 1 \<or> c = 2 * i + 2" for p c
    using that assms(1,5) unfolding heap_hole_def heap_child_def by auto
  have "perm_range 0 (0 + n) (elems s) (elems (siftDown (sort_reverse D) s i n 0)) \<and>
     (\<forall>k c. 0 \<le> k \<and> c < n \<and> (c = 2 * k + 1 \<or> c = 2 * k + 2) \<longrightarrow>
        \<not> lt (elems (siftDown (sort_reverse D) s i n 0) ! nat (0 + c)) (elems (siftDown (sort_reverse D) s i n 0) ! nat (0 + k)))"
    using assms(1-3) p1 p2 by (intro sort_data.siftDown_correct [OF sort_data_reverse [OF sort_data_axioms]]) auto
  then show ?thesis unfolding e heap_below_def heap_child_def by simp
qed

lemma up_correct:
  assumes "0 \<le> j" "j < n" "n \<le> len s" "heap_hole n j s"
    "\<And>c. heap_child j c \<Longrightarrow> c < n \<Longrightarrow> \<not> lt (elem s c) (elem s j)"
  shows "rearr 0 n s (heap_up D s j) \<and> heap_below n (heap_up D s j)"
  using assms
proof (induction "nat j" arbitrary: s j rule: less_induct)
  case less
  note b = less.prems(1-3)
  obtain i where i: "i = (j - 1) sdiv 2" by blast
  have eq: "heap_up D s j = (if i = j \<or> \<not> If_Less D s j i then s else heap_up D (If_Swap D s i j) i)"
    by (simp add: heap_up.simps [of D s j] i Let_def)
  show ?case
  proof (cases "i = j \<or> \<not> If_Less D s j i")
    case True
    have "\<not> lt (elem s c) (elem s p)" if pc: "heap_child p c" "c < n" for p c
    proof -
      consider "p = j" | "c = j" | "p \<noteq> j" "c \<noteq> j" by blast
      then show ?thesis
      proof cases
        case 1
        then show ?thesis using pc less.prems(5) by blast
      next
        case 2
        then have "i = p" using pc heap_child_parent [of p j] i by simp
        then show ?thesis using True 2 pc b heap_child_less [OF pc(1)] by (auto simp: Less_elems)
      next
        case 3
        then show ?thesis using pc less.prems(4) unfolding heap_hole_def by blast
      qed
    qed
    then show ?thesis using True by (auto simp: eq heap_below_def)
  next
    case False
    then have j1: "1 \<le> j" using b by (cases "j = 0") (auto simp: i signed_divide_int_def)
    then have ij: "heap_child i j" by (simp add: heap_child_parent i)
    note i0 = heap_child_less [OF ij]
    have l: "lt (elem s j) (elem s i)" using False b i0 by (simp add: Less_elems)
    let ?s = "If_Swap D s i j"
    have e: "elem ?s k = (if k = j then elem s i else if k = i then elem s j else elem s k)" if "0 \<le> k" "k < n" for k
      using b i0 that by (simp add: elem_swap)
    have ec: "elem ?s c = (if c = j then elem s i else if c = i then elem s j else elem s c)"
        "elem ?s p = (if p = j then elem s i else if p = i then elem s j else elem s p)" if "heap_child p c" "c < n" for p c
      using heap_child_less [OF that(1)] that(2) by (simp_all add: e)
    have h1: "\<not> lt (elem s c) (elem s p)" if "heap_child p c" "c < n" "p \<noteq> j" "c \<noteq> j" for p c
      using less.prems(4) that unfolding heap_hole_def by blast
    have h2: "\<not> lt (elem s c) (elem s i)" if "c < n" "heap_child j c" for c
      using less.prems(4) that ij unfolding heap_hole_def by blast
    have u: "p = i" if "heap_child p j" for p using that i unfolding heap_child_parent by blast
    have n1: "\<not> lt (elem ?s c) (elem ?s p)" if "heap_child p c" "c < n" "p \<noteq> i" "c \<noteq> i" for p c
    proof -
      have "c \<noteq> j" using u that(1,3) by blast
      then have "elem ?s c = elem s c" "elem ?s p = (if p = j then elem s i else elem s p)"
        using ec [OF that(1,2)] that(3,4) by simp_all
      then show ?thesis using h1 [OF that(1,2) _ \<open>c \<noteq> j\<close>] h2 [OF that(2)] that(1) by (cases "p = j") simp_all
    qed
    have n2: "\<not> lt (elem ?s c) (elem ?s p)" if "heap_child p i" "heap_child i c" "c < n" for p c
    proof -
      note a = heap_child_less [OF that(1)] heap_child_less [OF that(2)]
      have p: "\<not> lt (elem s i) (elem s p)" by (rule h1) (use that(1) i0 a b in linarith)+
      have "elem ?s p = elem s p" "elem ?s c = (if c = j then elem s i else elem s c)" using a i0 b that(3) by (simp_all add: e)
      moreover have "\<not> lt (elem s c) (elem s i)" if "c \<noteq> j" by (rule h1) (use that \<open>heap_child i c\<close> \<open>c < n\<close> i0 in linarith)+
      ultimately show ?thesis using p not_lt_trans by (cases "c = j") auto
    qed
    have n3: "\<not> lt (elem ?s c) (elem ?s i)" if "heap_child i c" "c < n" for c
    proof -
      have si: "elem ?s i = elem s j" using i0 b by (simp add: e)
      have j: "\<not> lt (elem s i) (elem s j)" using lt_asym [OF l] .
      show ?thesis
      proof (cases "c = j")
        case False
        then have "\<not> lt (elem s c) (elem s i)" by (intro h1) (use that i0 in linarith)+
        then have "\<not> lt (elem s c) (elem s j)" using j by (rule not_lt_trans)
        then show ?thesis using ec(1) [OF that] heap_child_less [OF that(1)] False si by simp
      qed (use ec(1) [OF that] si j in simp)
    qed
    have "rearr 0 n ?s (heap_up D ?s i) \<and> heap_below n (heap_up D ?s i)"
    proof (rule less.hyps)
      show "heap_hole n i ?s" unfolding heap_hole_def using n1 n2 by blast
    qed (use n3 b i0 in auto)
    moreover have "rearr 0 n s ?s" using b i0 by (intro rearr_swap) auto
    ultimately show ?thesis using False by (auto simp: eq Let_def intro: perm_range_trans)
  qed
qed

lemma fix_correct:
  assumes "0 \<le> i" "i < n" "n \<le> len s" "n < 2 ^ 63" "heap_hole n i s"
  defines "s' \<equiv> (let (s, moved) = heap_down D s i n in if \<not> moved then heap_up D s i else s)"
  shows "rearr 0 n s s' \<and> heap_below n s'"
proof (cases "\<exists>c. heap_child i c \<and> c < n \<and> lt (elem s c) (elem s i)")
  case True
  then obtain c where c: "heap_child i c" "c < n" "lt (elem s c) (elem s i)" by blast
  let ?j = "small_child D s i n"
  have b: "2 * i + 1 < n" using c heap_child_less by (auto simp: heap_child_def)
  have lj: "If_Less D s ?j i"
  proof -
    have "\<not> lt (elem s c) (elem s ?j)"
      using c(1,2) b assms(1-3) lt_irrefl lt_asym by (auto simp: heap_child_def Less_elems small_child_def)
    then have "lt (elem s ?j) (elem s i)" using c(3) not_lt_trans by blast
    then show ?thesis using b assms(1-3) small_child_bounds [OF b, of D s] by (subst Less_elems) auto
  qed
  note jb = small_child_bounds [OF b, of D s]
  have "i < ?j" using assms(1) jb by simp
  also have "?j \<le> snd (heap_down_loop D (If_Swap D s i ?j) ?j n)" using assms(1-4) jb by (intro heap_down_loop_ge) auto
  finally have "i < snd (heap_down_loop D s i n)"
    unfolding heap_down_loop_step [OF assms(4,1) b] using lj by simp
  then have e: "s' = fst (heap_down_loop D s i n)" by (simp add: s'_def heap_down_def split_beta)
  have "\<not> lt (elem s i) (elem s p)" if "heap_child p i" for p
  proof -
    have "\<not> lt (elem s c) (elem s p)" using assms(5) c that unfolding heap_hole_def by blast
    then show ?thesis using c(3) lt_trans by blast
  qed
  then show ?thesis unfolding e using assms(1-5) by (intro down_hole) auto
next
  case False
  have "heap_down_loop D s i n = (s, i)"
  proof (cases "2 * i + 1 < n")
    case True
    let ?j = "small_child D s i n"
    have "heap_child i ?j" "?j < n" using True assms(1) by (auto simp: heap_child_def small_child_def)
    then have "\<not> If_Less D s ?j i" using False assms(1-3) heap_child_less [of i ?j] by (subst Less_elems) auto
    then show ?thesis unfolding heap_down_loop_step [OF assms(4,1) True] by simp
  qed (use assms in \<open>simp add: heap_down_loop_stop\<close>)
  then have "s' = heap_up D s i" by (simp add: s'_def heap_down_def)
  then show ?thesis using up_correct [OF assms(1-3,5)] False by auto
qed

lemma heap_below_min:
  assumes "heap_below n s" "0 \<le> k" "k < n"
  shows "\<not> lt (elem s k) (elem s 0)"
  using assms(2,3)
proof (induction "nat k" arbitrary: k rule: less_induct)
  case less
  show ?case
  proof (cases "k = 0")
    case False
    let ?p = "(k - 1) sdiv 2"
    have p: "heap_child ?p k" using False less.prems by (simp add: heap_child_parent)
    then have "\<not> lt (elem s k) (elem s ?p)" using assms(1) less.prems unfolding heap_below_def by blast
    moreover have "\<not> lt (elem s ?p) (elem s 0)" using heap_child_less [OF p] less by simp
    ultimately show ?thesis using not_lt_trans by blast
  qed (simp add: lt_irrefl)
qed

lemma init_loop_correct:
  assumes "n \<le> len s" "n < 2 ^ 63" "- 1 \<le> i" "i < n"
    "\<forall>k c. heap_child k c \<and> i < k \<and> c < n \<longrightarrow> \<not> lt (elem s c) (elem s k)"
  shows "rearr 0 n s (heap_Init_loop D s n i) \<and> heap_below n (heap_Init_loop D s n i)"
proof -
  have "heap_Init_loop D s n i = heapSort_build (sort_reverse D) s n 0 i"
    using assms(3,4)
  proof (induction "nat (i + 1)" arbitrary: s i rule: less_induct)
    case less
    have "i \<ge> 0 \<Longrightarrow> fst (heap_down D s i n) = siftDown (sort_reverse D) s i n 0"
      using heap_down_loop_siftDown [OF assms(2), of i D s] less.prems assms(2) by (simp add: heap_down_def split_beta)
    then show ?case
      using less by (simp add: heap_Init_loop.simps [of D s n i] heapSort_build.simps [of _ s n 0 i])
  qed
  moreover have "perm_range 0 (0 + n) (elems s) (elems (heapSort_build (sort_reverse D) s n 0 i)) \<and>
     (\<forall>k c. 0 \<le> k \<and> c < n \<and> (c = 2 * k + 1 \<or> c = 2 * k + 2) \<longrightarrow>
        \<not> lt (elems (heapSort_build (sort_reverse D) s n 0 i) ! nat (0 + c)) (elems (heapSort_build (sort_reverse D) s n 0 i) ! nat (0 + k)))"
    using assms by (intro sort_data.heapSort_build_correct [OF sort_data_reverse [OF sort_data_axioms]]) (auto simp: heap_child_def)
  ultimately show ?thesis unfolding heap_below_def heap_child_def by simp
qed

end


section \<open>The contract of a heap\<close>

locale heap_data = sort_data lt D elems
  for lt :: "'a \<Rightarrow> 'a \<Rightarrow> bool" and D :: "('s, 'a, 'z) heap_Interface_scheme" and elems :: "'s \<Rightarrow> 'a list" +
  assumes Push_elems: "elems (H_Push D s x) = elems s @ [x]"
    and Pop_elems: "elems s \<noteq> [] \<Longrightarrow> elems (fst (H_Pop D s)) = butlast (elems s) \<and> snd (H_Pop D s) = last (elems s)"
begin

lemma Init_correct:
  assumes "len s < 2 ^ 63"
  shows "mset (elems (heap_Init D s)) = mset (elems s) \<and> heap_ordered lt (elems (heap_Init D s))"
proof -
  let ?n = "len s"
  have d: "?n sdiv 2 = ?n div 2" by (simp add: signed_divide_int_def sgn_if)
  have n: "\<not> c < ?n" if "heap_child k c" "?n sdiv 2 - 1 < k" for k c
    using that unfolding d heap_child_def by presburger
  have "rearr 0 ?n s (heap_Init D s) \<and> heap_below ?n (heap_Init D s)"
    unfolding heap_Init_def Len_elems Let_def using n assms
    by (intro init_loop_correct) (auto simp: d)
  then show ?thesis using rearr_len [of 0 ?n s "heap_Init D s"] heap_below_ordered [of "heap_Init D s"]
    by (auto simp: perm_range_def)
qed

lemma Push_correct:
  assumes "heap_ordered lt (elems s)"
  shows "mset (elems (heap_Push D s x)) = add_mset x (mset (elems s)) \<and> heap_ordered lt (elems (heap_Push D s x))"
proof -
  let ?s = "H_Push D s x" and ?j = "len s"
  have e: "elem ?s k = elem s k" if "0 \<le> k" "k < ?j" for k
    using that by (auto simp: Push_elems nth_append)
  have h: "heap_below ?j s" using assms by (simp add: heap_below_ordered)
  have "heap_hole (?j + 1) ?j ?s"
    unfolding heap_hole_def
  proof (intro conjI allI impI)
    fix p c assume pc: "heap_child p c \<and> c < ?j + 1 \<and> p \<noteq> ?j \<and> c \<noteq> ?j"
    then show "\<not> lt (elem ?s c) (elem ?s p)" using h e heap_child_less [of p c] by (auto simp: heap_below_def)
  qed (auto dest: heap_child_less)
  then have "rearr 0 (?j + 1) ?s (heap_up D ?s ?j) \<and> heap_below (?j + 1) (heap_up D ?s ?j)"
    by (intro up_correct) (auto simp: Push_elems dest: heap_child_less)
  moreover have "heap_Push D s x = heap_up D ?s ?j" by (simp add: heap_Push_def Len_elems Push_elems)
  ultimately have r: "rearr 0 (?j + 1) ?s (heap_Push D s x)" "heap_below (?j + 1) (heap_Push D s x)" by simp_all
  moreover have "len (heap_Push D s x) = ?j + 1" using rearr_len [OF r(1)] by (simp add: Push_elems)
  ultimately show ?thesis using heap_below_ordered [of "heap_Push D s x"] by (simp add: perm_range_def Push_elems)
qed

text \<open>Taking the last element off when the nodes before it are in heap order.\<close>

lemma take_last:
  assumes "elems s \<noteq> []" "heap_below (len s - 1) s"
  shows "heap_ordered lt (elems (fst (H_Pop D s)))" "add_mset (snd (H_Pop D s)) (mset (elems (fst (H_Pop D s)))) = mset (elems s)"
    "snd (H_Pop D s) = elem s (len s - 1)"
proof -
  let ?t = "fst (H_Pop D s)"
  have l: "len ?t = len s - 1" using Pop_elems [OF assms(1)] assms(1) by (cases "elems s") auto
  have "elem ?t k = elem s k" if "0 \<le> k" "k < len s - 1" for k
    using that Pop_elems [OF assms(1)] by (simp add: nth_butlast)
  then have "heap_below (len ?t) ?t"
    unfolding heap_below_def l
  proof (intro allI impI)
    fix p c assume e: "\<And>k. 0 \<le> k \<Longrightarrow> k < len s - 1 \<Longrightarrow> elem ?t k = elem s k" and pc: "heap_child p c \<and> c < len s - 1"
    then have "\<not> lt (elem s c) (elem s p)" using assms(2) unfolding heap_below_def by blast
    then show "\<not> lt (elem ?t c) (elem ?t p)" using e pc heap_child_less [of p c] by auto
  qed
  then show "heap_ordered lt (elems ?t)" by (simp add: heap_below_ordered)
  show "add_mset (snd (H_Pop D s)) (mset (elems ?t)) = mset (elems s)"
    using Pop_elems [OF assms(1)] assms(1)
    by (metis append_butlast_last_id mset.simps(2) mset_append union_mset_add_mset_right mset.simps(1) add.right_neutral)
  have "last (elems s) = elem s (len s - 1)" using assms(1) by (simp add: last_conv_nth nat_minus_as_int)
  then show "snd (H_Pop D s) = elem s (len s - 1)" using Pop_elems [OF assms(1)] by simp
qed

lemma Remove_correct:
  assumes "heap_ordered lt (elems s)" "len s < 2 ^ 63" "0 \<le> i" "i < len s"
  shows "snd (heap_Remove D s i) = elem s i" "heap_ordered lt (elems (fst (heap_Remove D s i)))"
    "add_mset (elem s i) (mset (elems (fst (heap_Remove D s i)))) = mset (elems s)"
proof -
  let ?n = "len s - 1"
  have h: "heap_below (len s) s" using assms(1) by (simp add: heap_below_ordered)
  define t where "t = (if ?n \<noteq> i then let u = If_Swap D s i ?n; (v, moved) = heap_down D u i ?n in if \<not> moved then heap_up D v i else v else s)"
  have r: "heap_Remove D s i = H_Pop D t" by (simp add: heap_Remove_def Len_elems t_def Let_def)
  have "rearr 0 (len s) s t \<and> heap_below ?n t \<and> elem t ?n = elem s i"
  proof (cases "?n = i")
    case True
    then show ?thesis using h by (auto simp: t_def heap_below_def)
  next
    case False
    let ?u = "If_Swap D s i ?n"
    have i: "i < ?n" using False assms(4) by simp
    have e: "elem ?u k = (if k = ?n then elem s i else if k = i then elem s ?n else elem s k)" if "0 \<le> k" "k < len s" for k
      using assms(3) i that by (subst elem_swap) auto
    have "heap_below ?n s" using h by (auto simp: heap_below_def)
    then have "heap_hole ?n i s" by (rule heap_below_hole)
    then have "heap_hole ?n i ?u" by (rule heap_hole_cong) (use e in auto)
    moreover have lu: "len ?u = len s" using assms(3) i by (subst len_swap) auto
    ultimately have "rearr 0 ?n ?u t \<and> heap_below ?n t"
      unfolding t_def Let_def using False fix_correct [of i ?n ?u] assms i by (simp add: Let_def lu)
    moreover from this have "elem t ?n = elem ?u ?n"
      using assms i lu by (intro perm_range_outside [of 0 ?n "elems ?u"]) auto
    moreover have "rearr 0 (len s) s ?u" using assms i by (intro rearr_swap) auto
    moreover have "0 \<le> ?n" "?n < len s" using assms(3) i by linarith+
    then have "elem ?u ?n = elem s i" using e by simp
    ultimately show ?thesis using perm_range_mono [of 0 ?n "elems ?u" "elems t" 0 "len s"] perm_range_trans by auto
  qed
  moreover from this have l: "len t = len s" using rearr_len by auto
  moreover have "elems t \<noteq> []" using l assms by auto
  ultimately show "snd (heap_Remove D s i) = elem s i" "heap_ordered lt (elems (fst (heap_Remove D s i)))"
    "add_mset (elem s i) (mset (elems (fst (heap_Remove D s i)))) = mset (elems s)"
    unfolding r using take_last [of t] by (auto simp: perm_range_def)
qed

lemma Pop_correct:
  assumes "heap_ordered lt (elems s)" "len s < 2 ^ 63" "elems s \<noteq> []"
  shows "\<forall>x\<in>set (elems s). \<not> lt x (snd (heap_Pop D s))" "heap_ordered lt (elems (fst (heap_Pop D s)))"
    "add_mset (snd (heap_Pop D s)) (mset (elems (fst (heap_Pop D s)))) = mset (elems s)"
proof -
  let ?n = "len s - 1" and ?u = "If_Swap D s 0 (len s - 1)"
  have h: "heap_below (len s) s" using assms(1) by (simp add: heap_below_ordered)
  have n: "0 \<le> ?n" "?n < len s" using assms(3) by (cases "elems s"; simp)+
  define t where "t = fst (heap_down_loop D ?u 0 ?n)"
  have r: "heap_Pop D s = H_Pop D t" by (simp add: heap_Pop_def Len_elems t_def heap_down_def split_beta Let_def)
  have e: "elem ?u k = (if k = ?n then elem s 0 else if k = 0 then elem s ?n else elem s k)" if "0 \<le> k" "k < len s" for k
    using n that by (simp add: elem_swap)
  have "rearr 0 ?n ?u t \<and> heap_below ?n t"
  proof (cases "?n = 0")
    case True
    then show ?thesis by (auto simp: t_def heap_down_loop_stop heap_below_def dest: heap_child_less)
  next
    case False
    have "heap_below ?n s" using h by (auto simp: heap_below_def)
    then have "heap_hole ?n 0 ?u" by (intro heap_hole_cong [OF heap_below_hole]) (use e in auto)
    moreover have "0 < ?n" using False n by linarith
    ultimately show ?thesis unfolding t_def using n assms(2) by (intro down_hole) (auto simp del: nat_less_eq_zless dest: heap_child_less)
  qed
  moreover from this have "elem t ?n = elem ?u ?n" using n by (intro perm_range_outside [of 0 ?n "elems ?u"]) auto
  moreover have "rearr 0 (len s) s ?u" using n by (intro rearr_swap) auto
  ultimately have t: "rearr 0 (len s) s t" "heap_below ?n t" "elem t ?n = elem s 0"
    using e [of ?n] n perm_range_mono [of 0 ?n "elems ?u" "elems t" 0 "len s"] perm_range_trans by auto
  then have l: "len t = len s" using rearr_len by auto
  then have ne: "elems t \<noteq> []" using n by auto
  show "heap_ordered lt (elems (fst (heap_Pop D s)))"
    "add_mset (snd (heap_Pop D s)) (mset (elems (fst (heap_Pop D s)))) = mset (elems s)"
    unfolding r using take_last [OF ne] t l by (auto simp: perm_range_def)
  have v: "snd (heap_Pop D s) = elem s 0" unfolding r using take_last(3) [OF ne] t l by simp
  show "\<forall>x\<in>set (elems s). \<not> lt x (snd (heap_Pop D s))"
  proof
    fix x assume "x \<in> set (elems s)"
    then obtain k where "k < length (elems s)" "x = elems s ! k" by (auto simp: in_set_conv_nth)
    then show "\<not> lt x (snd (heap_Pop D s))" using heap_below_min [OF h, of "int k"] v by simp
  qed
qed

lemma Fix_correct:
  assumes "heap_ordered lt (elems s)" "len s < 2 ^ 63" "0 \<le> i" "i < len s" "elems s' = (elems s)[nat i := x]"
  shows "mset (elems (heap_Fix D s' i)) = mset (elems s') \<and> heap_ordered lt (elems (heap_Fix D s' i))"
proof -
  have h: "heap_below (len s) s" using assms(1) by (simp add: heap_below_ordered)
  have l: "len s' = len s" using assms(5) by simp
  have "heap_hole (len s) i s'" by (rule heap_hole_cong [OF heap_below_hole [OF h]]) (use assms in auto)
  then have "rearr 0 (len s) s' (heap_Fix D s' i) \<and> heap_below (len s) (heap_Fix D s' i)"
    unfolding heap_Fix_def Len_elems l using assms l by (intro fix_correct) auto
  then show ?thesis using rearr_len [of 0 "len s" s' "heap_Fix D s' i"] heap_below_ordered [of "heap_Fix D s' i"] l
    by (auto simp: perm_range_def)
qed

end

lemma IntHeap_sel [simp]:
  "If_Len IntHeap = If_Len IntSlice" "If_Less IntHeap = If_Less IntSlice" "If_Swap IntHeap = If_Swap IntSlice"
  "H_Push IntHeap = (\<lambda>s x. s @ [x])" "H_Pop IntHeap = (\<lambda>s. (butlast s, last s))"
  by (simp_all add: IntHeap_def Interface.extend_def heap_Interface.fields_def)

interpretation int_heap: heap_data "(<)" IntHeap "\<lambda>x. x"
  using int_slice.Less_elems int_slice.Swap_elems int_slice.Len_elems
  by unfold_locales simp_all


section \<open>Properties\<close>

text \<open>
  C15: a heap is a priority queue. On any collection that meets the contract of \<open>heap.Interface\<close> and
  whose length is an \<open>int\<close>, \<open>Init\<close> rearranges the elements into heap order; \<open>Push\<close> keeps that order
  and adds exactly the new element; \<open>Pop\<close> keeps it, and removes and returns an element that no other
  one is less than. \<open>Remove\<close> returns the element at the index and leaves the others in heap
  order; \<open>Fix\<close>, called after the element at an index was given any new value, restores the heap order
  and keeps the elements.
\<close>

theorem heap_priority_queue:
  assumes "heap_data lt h elems" "int (length (elems s)) < 2 ^ 63"
  shows "mset (elems (heap_Init h s)) = mset (elems s) \<and> heap_ordered lt (elems (heap_Init h s)) \<and>
    (heap_ordered lt (elems s) \<longrightarrow>
       heap_ordered lt (elems (heap_Push h s x)) \<and> mset (elems (heap_Push h s x)) = mset (elems s) + {#x#}) \<and>
    (heap_ordered lt (elems s) \<and> elems s \<noteq> [] \<longrightarrow>
       heap_ordered lt (elems (fst (heap_Pop h s))) \<and>
       mset (elems (fst (heap_Pop h s))) + {#snd (heap_Pop h s)#} = mset (elems s) \<and>
       (\<forall>y\<in>set (elems s). \<not> lt y (snd (heap_Pop h s)))) \<and>
    (heap_ordered lt (elems s) \<and> 0 \<le> i \<and> i < int (length (elems s)) \<longrightarrow>
       snd (heap_Remove h s i) = elems s ! nat i \<and> heap_ordered lt (elems (fst (heap_Remove h s i))) \<and>
       mset (elems (fst (heap_Remove h s i))) + {#elems s ! nat i#} = mset (elems s) \<and>
       (elems s' = (elems s)[nat i := x] \<longrightarrow>
          heap_ordered lt (elems (heap_Fix h s' i)) \<and> mset (elems (heap_Fix h s' i)) = mset (elems s')))"
  using heap_data.Init_correct [OF assms] heap_data.Push_correct [OF assms(1)] heap_data.Pop_correct [OF assms(1) _ assms(2)]
    heap_data.Remove_correct [OF assms(1) _ assms(2)] heap_data.Fix_correct [OF assms(1) _ assms(2)]
  by simp

theorem heap_priority_queue_witness:
  "mset (heap_Init IntHeap [5, 2, 8]) = {#2, 5, 8#} \<and> heap_ordered (<) (heap_Init IntHeap [5, 2, 8]) \<and>
   heap_ordered (<) (heap_Push IntHeap [2, 5, 8] 3) \<and> snd (heap_Pop IntHeap [2, 5, 8]) = 2 \<and>
   snd (heap_Remove IntHeap [2, 5, 8] 1) = 5 \<and> heap_ordered (<) (heap_Fix IntHeap [2, 1, 8] 1)"
proof -
  have o: "heap_ordered (<) [2, 5, 8 :: int]"
    unfolding heap_ordered_def by (auto simp: nth_Cons' split: if_splits)
  have "2 \<in># mset (fst (heap_Pop IntHeap [2, 5, 8])) + {#snd (heap_Pop IntHeap [2, 5, 8])#}"
    and l: "\<forall>y\<in>set [2, 5, 8]. \<not> y < snd (heap_Pop IntHeap [2, 5, 8])"
    and m: "mset (fst (heap_Pop IntHeap [2, 5, 8])) + {#snd (heap_Pop IntHeap [2, 5, 8])#} = mset [2, 5, 8]"
    using heap_priority_queue [OF int_heap.heap_data_axioms, of "[2, 5, 8]"] o by auto
  then have "snd (heap_Pop IntHeap [2, 5, 8]) \<in> set [2, 5, 8]"
    by (metis multi_member_last set_mset_mset union_iff)
  then have "snd (heap_Pop IntHeap [2, 5, 8]) = 2" using l by auto
  then show ?thesis
    using heap_priority_queue [OF int_heap.heap_data_axioms, of "[5, 2, 8]"]
      heap_priority_queue [OF int_heap.heap_data_axioms, of "[2, 5, 8]" 3]
      heap_priority_queue [OF int_heap.heap_data_axioms, of "[2, 5, 8]" 1 1 "[2, 1, 8]"] o by auto
qed

end
