(* ===== verification/Linked_Rings.thy ===== *)
theory Linked_Rings
  imports Go_Prelude
begin

text \<open>
  Doubly linked rings in a store, shared by \<open>container/list\<close> and \<open>container/ring\<close>. The store keeps each
  pointer field as a function from addresses, \<open>None\<close> for a nil pointer. \<open>cycle n p c\<close> says that the
  addresses \<open>c\<close>, in this order and back to the first one, are linked in both directions by the next
  pointers \<open>n\<close> and the previous pointers \<open>p\<close>.
\<close>

type_synonym addr = nat

definition link :: "('a \<Rightarrow> 'a option) \<Rightarrow> ('a \<Rightarrow> 'a option) \<Rightarrow> 'a \<Rightarrow> 'a \<Rightarrow> bool" where
  "link n p a b \<longleftrightarrow> n a = Some b \<and> p b = Some a"

definition linked :: "('a \<Rightarrow> 'a option) \<Rightarrow> ('a \<Rightarrow> 'a option) \<Rightarrow> 'a list \<Rightarrow> bool" where
  "linked n p = successively (link n p)"

definition cycle :: "('a \<Rightarrow> 'a option) \<Rightarrow> ('a \<Rightarrow> 'a option) \<Rightarrow> 'a list \<Rightarrow> bool" where
  "cycle n p c \<longleftrightarrow> c \<noteq> [] \<and> distinct c \<and> linked n p c \<and> link n p (last c) (hd c)"

lemma in_set_tlD: "x \<in> set (tl c) \<Longrightarrow> x \<in> set c"
  by (cases c) simp_all

lemma last_notin_butlast: "distinct c \<Longrightarrow> c \<noteq> [] \<Longrightarrow> last c \<notin> set (butlast c)"
  by (induction c) (auto split: if_splits)

lemma linked_simps [simp]:
  "linked n p []" "linked n p [a]" "linked n p (a # b # c) \<longleftrightarrow> link n p a b \<and> linked n p (b # c)"
  by (simp_all add: linked_def)

lemma linked_append:
  "linked n p (us @ vs) \<longleftrightarrow> linked n p us \<and> linked n p vs \<and> (us = [] \<or> vs = [] \<or> link n p (last us) (hd vs))"
  by (simp add: linked_def successively_append_iff)

lemma linked_cong:
  assumes "\<And>x. x \<in> set (butlast c) \<Longrightarrow> n' x = n x" "\<And>x. x \<in> set (tl c) \<Longrightarrow> p' x = p x"
  shows "linked n' p' c = linked n p c"
  using assms
proof (induction c rule: induct_list012)
  case (3 a b c)
  then have "linked n' p' (b # c) = linked n p (b # c)" by (auto dest: in_set_tlD)
  then show ?case using 3(3) [of a] 3(4) [of b] by (simp add: link_def)
qed simp_all

lemma cycle_cong:
  assumes "\<And>x. x \<in> set c \<Longrightarrow> n' x = n x" "\<And>x. x \<in> set c \<Longrightarrow> p' x = p x"
  shows "cycle n' p' c = cycle n p c"
proof -
  have "linked n' p' c = linked n p c"
    using assms by (intro linked_cong) (auto dest: in_set_butlastD in_set_tlD)
  then show ?thesis using assms by (cases "c = []") (auto simp: cycle_def link_def)
qed

lemma cycle_append:
  assumes "us \<noteq> []" "vs \<noteq> []"
  shows "cycle n p (us @ vs) \<longleftrightarrow>
    distinct (us @ vs) \<and> linked n p us \<and> linked n p vs \<and> link n p (last us) (hd vs) \<and> link n p (last vs) (hd us)"
  using assms by (auto simp: cycle_def linked_append)

text \<open>A ring can be entered at any of its nodes.\<close>

lemma cycle_rotate: "cycle n p (us @ vs) = cycle n p (vs @ us)"
  by (cases "us = []"; cases "vs = []") (auto simp: cycle_append)

lemma cycle_next: "cycle n p (a # c) \<Longrightarrow> n a = Some (hd (c @ [a]))"
  by (cases c) (auto simp: cycle_def link_def)

lemma cycle_prev: "cycle n p (a # c) \<Longrightarrow> p a = Some (last (a # c))"
  by (simp add: cycle_def link_def)

lemma cycle_distinct: "cycle n p c \<Longrightarrow> distinct c"
  by (simp add: cycle_def)

lemma cycle_single: "cycle n p [a] \<longleftrightarrow> n a = Some a \<and> p a = Some a"
  by (simp add: cycle_def link_def)

text \<open>A new node between \<open>a\<close> and its successor.\<close>

lemma cycle_insert:
  assumes "cycle n p (a # c)" "e \<notin> set (a # c)" "b = hd (c @ [a])"
  shows "cycle (n(e := Some b, a := Some e)) (p(e := Some a, b := Some e)) (a # e # c)"
proof (cases c)
  case Nil
  then show ?thesis using assms by (auto simp: cycle_def link_def)
next
  case (Cons b' c')
  have "linked (n(e := Some b, a := Some e)) (p(e := Some a, b := Some e)) c = linked n p c"
    using assms Cons by (intro linked_cong) (auto dest: in_set_butlastD simp: cycle_def split: if_splits)
  then show ?thesis using assms Cons by (auto simp: cycle_def link_def last_in_set)
qed

text \<open>The node after \<open>a\<close> taken out.\<close>

lemma cycle_remove:
  assumes "cycle n p (a # e # c)" "b = hd (c @ [a])"
  shows "cycle (n(a := Some b)) (p(b := Some a)) (a # c)"
proof (cases c)
  case Nil
  then show ?thesis using assms by (simp add: cycle_def link_def)
next
  case (Cons b' c')
  have "linked (n(a := Some b)) (p(b := Some a)) c = linked n p c"
    using assms Cons by (intro linked_cong) (auto dest: in_set_butlastD simp: cycle_def split: if_splits)
  then show ?thesis using assms Cons by (auto simp: cycle_def link_def last_in_set)
qed

text \<open>Joining two rings, and cutting one ring in two.\<close>

lemma cycle_join:
  assumes "cycle n p (r # us)" "cycle n p (s # vs)" "set (r # us) \<inter> set (s # vs) = {}"
    "m = hd (us @ [r])" "q = last (s # vs)"
  shows "cycle (n(r := Some s, q := Some m)) (p(s := Some r, m := Some q)) ((r # s # vs) @ us)"
proof -
  let ?n = "n(r := Some s, q := Some m)" and ?p = "p(s := Some r, m := Some q)"
  have q: "q \<in> set (s # vs)" "q \<notin> set (butlast (s # vs))"
    using assms(5) last_notin_butlast [OF cycle_distinct [OF assms(2)]] by simp_all
  have m: "m \<in> set (r # us)" "m \<notin> set (tl us)" using assms(1,4) by (cases us; simp add: cycle_def)+
  have d: "distinct ((r # s # vs) @ us)" using assms(3) cycle_distinct [OF assms(1)] cycle_distinct [OF assms(2)] by auto
  have "linked ?n ?p (s # vs) = linked n p (s # vs)"
    using assms(3) q m cycle_distinct [OF assms(2)] by (intro linked_cong) (auto dest: in_set_butlastD split: if_splits)
  moreover have "link ?n ?p r s" using assms(3) q m by (auto simp: link_def)
  ultimately have l: "linked ?n ?p (r # s # vs)" using assms(2) by (simp add: cycle_def)
  have qm: "link ?n ?p q m" using q m by (simp add: link_def)
  show ?thesis
  proof (cases "us = []")
    case True
    then show ?thesis using d l qm assms(4,5) by (simp add: cycle_def)
  next
    case False
    have "linked ?n ?p us = linked n p us"
      using assms(3) q m cycle_distinct [OF assms(1)] by (intro linked_cong) (auto dest: in_set_butlastD in_set_tlD)
    moreover have "linked n p us" using assms(1) by (cases us) (simp_all add: cycle_def)
    moreover have "last us \<noteq> r" "last us \<noteq> q" "r \<noteq> s" "r \<noteq> m"
      using False q m d last_in_set [OF False] assms(4) by auto
    then have "link ?n ?p (last us) r" using assms(1) False by (simp add: cycle_def link_def)
    ultimately show ?thesis using False d l qm assms(4,5) by (subst cycle_append) simp_all
  qed
qed

lemma cycle_cut:
  assumes "cycle n p ((r # us) @ s # vs)" "m = hd (us @ [s])" "q = last (r # us)"
  defines "n' \<equiv> n(r := Some s, q := Some m)" and "p' \<equiv> p(s := Some r, m := Some q)"
  shows "us \<noteq> [] \<Longrightarrow> cycle n' p' (r # s # vs) \<and> cycle n' p' us" "us = [] \<Longrightarrow> n' = n \<and> p' = p"
proof -
  have c: "distinct ((r # us) @ s # vs)" "linked n p (r # us)" "linked n p (s # vs)" "link n p q s" "link n p (last (s # vs)) r"
    using assms(1) cycle_append [of "r # us" "s # vs" n p] assms(3) by simp_all
  show "us = [] \<Longrightarrow> n' = n \<and> p' = p" using c assms(2,3) by (auto simp: n'_def p'_def link_def)
  assume us: "us \<noteq> []"
  have q: "q = last us" "q \<in> set us" "q \<notin> set (butlast us)"
    using us assms(3) last_notin_butlast [of us] c(1) by simp_all
  have m: "m = hd us" "m \<in> set us" "m \<notin> set (tl us)" using us assms(2) c(1) by (cases us; simp)+
  have "linked n' p' us = linked n p us"
    using c(1) q m unfolding n'_def p'_def by (intro linked_cong) (auto dest: in_set_butlastD in_set_tlD)
  moreover have "linked n p us" using c(2) us by (cases us) simp_all
  moreover have "link n' p' q m" using c(1) q m us by (simp add: n'_def p'_def link_def)
  ultimately have "cycle n' p' us" using us q m c(1) by (simp add: cycle_def)
  moreover have "linked n' p' (s # vs) = linked n p (s # vs)"
    using c(1) q m unfolding n'_def p'_def by (intro linked_cong) (auto dest: in_set_butlastD split: if_splits)
  moreover have "link n' p' r s" "link n' p' (last (s # vs)) r"
    using c q m by (auto simp: n'_def p'_def link_def)
  ultimately show "cycle n' p' (r # s # vs) \<and> cycle n' p' us" using c by (simp add: cycle_def)
qed

end
