(* ===== verification/Container_List.thy ===== *)
theory Container_List
  imports Linked_Rings
begin

text \<open>
  Package \<open>container/list\<close> (\<open>src/container/list/list.go\<close>). The fields of \<open>Element\<close> and \<open>List\<close> are functions
  from addresses in one store. A \<open>*List\<close> is the address of its sentinel \<open>root\<close>, its first field, so
  \<open>&l.root\<close> and \<open>l\<close> are the same address. Assignments through a nil pointer are panics. \<open>st_fresh\<close> is
  the next address that \<open>new\<close> hands out.

  The abstract state keeps, for every list, the sequence of its elements. Every method that takes
  and returns elements refines an operation on these sequences, also for elements that belong to
  another list or to none. \<open>Init\<close> empties the sequence; the elements it cuts off keep their \<open>list\<close> pointer and are set apart.
\<close>

section \<open>The code\<close>

record 'v list_store =
  st_next :: "addr \<Rightarrow> addr option"
  st_prev :: "addr \<Rightarrow> addr option"
  st_list :: "addr \<Rightarrow> addr option"
  st_Value :: "addr \<Rightarrow> 'v"
  st_len :: "addr \<Rightarrow> int"
  st_fresh :: addr

definition Element_Next :: "'v list_store \<Rightarrow> addr \<Rightarrow> addr option" where
  "Element_Next s e =
     (let p = st_next s e in
      case st_list s e of None \<Rightarrow> None | Some l \<Rightarrow> if p \<noteq> Some l then p else None)"

definition Element_Prev :: "'v list_store \<Rightarrow> addr \<Rightarrow> addr option" where
  "Element_Prev s e =
     (let p = st_prev s e in
      case st_list s e of None \<Rightarrow> None | Some l \<Rightarrow> if p \<noteq> Some l then p else None)"

definition List_Init :: "'v list_store \<Rightarrow> addr \<Rightarrow> 'v list_store" where
  "List_Init s l =
     (let s = s\<lparr>st_next := (st_next s)(l := Some l)\<rparr>;
          s = s\<lparr>st_prev := (st_prev s)(l := Some l)\<rparr>
      in s\<lparr>st_len := (st_len s)(l := 0)\<rparr>)"

definition List_New :: "'v list_store \<Rightarrow> 'v list_store \<times> addr" where
  "List_New s =
     (let l = st_fresh s;
          s = s\<lparr>st_next := (st_next s)(l := None), st_prev := (st_prev s)(l := None),
                st_list := (st_list s)(l := None), st_len := (st_len s)(l := 0), st_fresh := Suc l\<rparr>
      in (List_Init s l, l))"

definition List_Len :: "'v list_store \<Rightarrow> addr \<Rightarrow> int" where
  "List_Len s l = st_len s l"

definition List_Front :: "'v list_store \<Rightarrow> addr \<Rightarrow> addr option" where
  "List_Front s l = (if st_len s l = 0 then None else st_next s l)"

definition List_Back :: "'v list_store \<Rightarrow> addr \<Rightarrow> addr option" where
  "List_Back s l = (if st_len s l = 0 then None else st_prev s l)"

definition List_lazyInit :: "'v list_store \<Rightarrow> addr \<Rightarrow> 'v list_store" where
  "List_lazyInit s l = (if st_next s l = None then List_Init s l else s)"

definition List_insert :: "'v list_store \<Rightarrow> addr \<Rightarrow> addr \<Rightarrow> addr \<Rightarrow> panic + 'v list_store \<times> addr" where
  "List_insert s l e at =
     (let s = s\<lparr>st_prev := (st_prev s)(e := Some at)\<rparr>;
          s = s\<lparr>st_next := (st_next s)(e := st_next s at)\<rparr> in
      case st_prev s e of
        None \<Rightarrow> Inl NilDereference
      | Some p \<Rightarrow>
          let s = s\<lparr>st_next := (st_next s)(p := Some e)\<rparr> in
          case st_next s e of
            None \<Rightarrow> Inl NilDereference
          | Some n \<Rightarrow>
              let s = s\<lparr>st_prev := (st_prev s)(n := Some e)\<rparr>;
                  s = s\<lparr>st_list := (st_list s)(e := Some l)\<rparr>;
                  s = s\<lparr>st_len := (st_len s)(l := st_len s l + 1)\<rparr>
              in Inr (s, e))"

definition List_insertValue :: "'v list_store \<Rightarrow> addr \<Rightarrow> 'v \<Rightarrow> addr \<Rightarrow> panic + 'v list_store \<times> addr" where
  "List_insertValue s l v at =
     (let e = st_fresh s;
          s = s\<lparr>st_next := (st_next s)(e := None), st_prev := (st_prev s)(e := None),
                st_list := (st_list s)(e := None), st_Value := (st_Value s)(e := v), st_fresh := Suc e\<rparr>
      in List_insert s l e at)"

definition List_remove :: "'v list_store \<Rightarrow> addr \<Rightarrow> addr \<Rightarrow> panic + 'v list_store" where
  "List_remove s l e =
     (case st_prev s e of
        None \<Rightarrow> Inl NilDereference
      | Some p \<Rightarrow>
          let s = s\<lparr>st_next := (st_next s)(p := st_next s e)\<rparr> in
          case st_next s e of
            None \<Rightarrow> Inl NilDereference
          | Some n \<Rightarrow>
              let s = s\<lparr>st_prev := (st_prev s)(n := st_prev s e)\<rparr>;
                  s = s\<lparr>st_next := (st_next s)(e := None)\<rparr>;
                  s = s\<lparr>st_prev := (st_prev s)(e := None)\<rparr>;
                  s = s\<lparr>st_list := (st_list s)(e := None)\<rparr>
              in Inr (s\<lparr>st_len := (st_len s)(l := st_len s l - 1)\<rparr>))"

definition List_move :: "'v list_store \<Rightarrow> addr \<Rightarrow> addr \<Rightarrow> panic + 'v list_store" where
  "List_move s e at =
     (if e = at then Inr s
      else
        case st_prev s e of
          None \<Rightarrow> Inl NilDereference
        | Some p \<Rightarrow>
            let s = s\<lparr>st_next := (st_next s)(p := st_next s e)\<rparr> in
            case st_next s e of
              None \<Rightarrow> Inl NilDereference
            | Some n \<Rightarrow>
                let s = s\<lparr>st_prev := (st_prev s)(n := st_prev s e)\<rparr>;
                    s = s\<lparr>st_prev := (st_prev s)(e := Some at)\<rparr>;
                    s = s\<lparr>st_next := (st_next s)(e := st_next s at)\<rparr> in
                case st_prev s e of
                  None \<Rightarrow> Inl NilDereference
                | Some p \<Rightarrow>
                    let s = s\<lparr>st_next := (st_next s)(p := Some e)\<rparr> in
                    case st_next s e of
                      None \<Rightarrow> Inl NilDereference
                    | Some n \<Rightarrow> Inr (s\<lparr>st_prev := (st_prev s)(n := Some e)\<rparr>))"

definition List_Remove :: "'v list_store \<Rightarrow> addr \<Rightarrow> addr \<Rightarrow> panic + 'v list_store \<times> 'v" where
  "List_Remove s l e =
     (if st_list s e = Some l then
        case List_remove s l e of Inl x \<Rightarrow> Inl x | Inr s \<Rightarrow> Inr (s, st_Value s e)
      else Inr (s, st_Value s e))"

definition List_PushFront :: "'v list_store \<Rightarrow> addr \<Rightarrow> 'v \<Rightarrow> panic + 'v list_store \<times> addr" where
  "List_PushFront s l v = (let s = List_lazyInit s l in List_insertValue s l v l)"

definition List_PushBack :: "'v list_store \<Rightarrow> addr \<Rightarrow> 'v \<Rightarrow> panic + 'v list_store \<times> addr" where
  "List_PushBack s l v =
     (let s = List_lazyInit s l in
      case st_prev s l of None \<Rightarrow> Inl NilDereference | Some at \<Rightarrow> List_insertValue s l v at)"

definition List_InsertBefore :: "'v list_store \<Rightarrow> addr \<Rightarrow> 'v \<Rightarrow> addr \<Rightarrow> panic + 'v list_store \<times> addr option" where
  "List_InsertBefore s l v mark =
     (if st_list s mark \<noteq> Some l then Inr (s, None)
      else
        case st_prev s mark of
          None \<Rightarrow> Inl NilDereference
        | Some at \<Rightarrow> (case List_insertValue s l v at of Inl x \<Rightarrow> Inl x | Inr (s, e) \<Rightarrow> Inr (s, Some e)))"

definition List_InsertAfter :: "'v list_store \<Rightarrow> addr \<Rightarrow> 'v \<Rightarrow> addr \<Rightarrow> panic + 'v list_store \<times> addr option" where
  "List_InsertAfter s l v mark =
     (if st_list s mark \<noteq> Some l then Inr (s, None)
      else case List_insertValue s l v mark of Inl x \<Rightarrow> Inl x | Inr (s, e) \<Rightarrow> Inr (s, Some e))"

definition List_MoveToFront :: "'v list_store \<Rightarrow> addr \<Rightarrow> addr \<Rightarrow> panic + 'v list_store" where
  "List_MoveToFront s l e =
     (if st_list s e \<noteq> Some l \<or> st_next s l = Some e then Inr s else List_move s e l)"

definition List_MoveToBack :: "'v list_store \<Rightarrow> addr \<Rightarrow> addr \<Rightarrow> panic + 'v list_store" where
  "List_MoveToBack s l e =
     (if st_list s e \<noteq> Some l \<or> st_prev s l = Some e then Inr s
      else case st_prev s l of None \<Rightarrow> Inl NilDereference | Some at \<Rightarrow> List_move s e at)"

definition List_MoveBefore :: "'v list_store \<Rightarrow> addr \<Rightarrow> addr \<Rightarrow> addr \<Rightarrow> panic + 'v list_store" where
  "List_MoveBefore s l e mark =
     (if st_list s e \<noteq> Some l \<or> e = mark \<or> st_list s mark \<noteq> Some l then Inr s
      else case st_prev s mark of None \<Rightarrow> Inl NilDereference | Some at \<Rightarrow> List_move s e at)"

definition List_MoveAfter :: "'v list_store \<Rightarrow> addr \<Rightarrow> addr \<Rightarrow> addr \<Rightarrow> panic + 'v list_store" where
  "List_MoveAfter s l e mark =
     (if st_list s e \<noteq> Some l \<or> e = mark \<or> st_list s mark \<noteq> Some l then Inr s
      else List_move s e mark)"

text \<open>The loops of \<open>PushBackList\<close> and \<open>PushFrontList\<close>, by the number of elements still to copy.\<close>

fun PushBackList_loop :: "'v list_store \<Rightarrow> addr \<Rightarrow> nat \<Rightarrow> addr option \<Rightarrow> panic + 'v list_store" where
  "PushBackList_loop s l 0 e = Inr s"
| "PushBackList_loop s l (Suc i) None = Inl NilDereference"
| "PushBackList_loop s l (Suc i) (Some e) =
     (case st_prev s l of
        None \<Rightarrow> Inl NilDereference
      | Some at \<Rightarrow>
          (case List_insertValue s l (st_Value s e) at of
             Inl x \<Rightarrow> Inl x
           | Inr (s, _) \<Rightarrow> PushBackList_loop s l i (Element_Next s e)))"

definition List_PushBackList :: "'v list_store \<Rightarrow> addr \<Rightarrow> addr \<Rightarrow> panic + 'v list_store" where
  "List_PushBackList s l other =
     (let s = List_lazyInit s l in PushBackList_loop s l (nat (List_Len s other)) (List_Front s other))"

fun PushFrontList_loop :: "'v list_store \<Rightarrow> addr \<Rightarrow> nat \<Rightarrow> addr option \<Rightarrow> panic + 'v list_store" where
  "PushFrontList_loop s l 0 e = Inr s"
| "PushFrontList_loop s l (Suc i) None = Inl NilDereference"
| "PushFrontList_loop s l (Suc i) (Some e) =
     (case List_insertValue s l (st_Value s e) l of
        Inl x \<Rightarrow> Inl x
      | Inr (s, _) \<Rightarrow> PushFrontList_loop s l i (Element_Prev s e))"

definition List_PushFrontList :: "'v list_store \<Rightarrow> addr \<Rightarrow> addr \<Rightarrow> panic + 'v list_store" where
  "List_PushFrontList s l other =
     (let s = List_lazyInit s l in PushFrontList_loop s l (nat (List_Len s other)) (List_Back s other))"

section \<open>The invariant of the store\<close>

text \<open>\<open>A\<close> gives the elements of every list that exists. A zero list has not been initialised yet.\<close>

definition list_ring :: "'v list_store \<Rightarrow> addr \<Rightarrow> addr list \<Rightarrow> bool" where
  "list_ring s l xs \<longleftrightarrow> cycle (st_next s) (st_prev s) (l # xs)"

definition list_inv :: "'v list_store \<Rightarrow> (addr \<rightharpoonup> addr list) \<Rightarrow> bool" where
  "list_inv s A \<longleftrightarrow>
     (\<forall>l xs. A l = Some xs \<longrightarrow>
        (list_ring s l xs \<or> st_next s l = None \<and> xs = []) \<and> st_len s l = int (length xs) \<and>
        l < st_fresh s \<and> st_list s l = None \<and> (\<forall>x\<in>set xs. x < st_fresh s)) \<and>
     (\<forall>x l. st_list s x = Some l \<longleftrightarrow> (\<exists>xs. A l = Some xs \<and> x \<in> set xs))"

lemma list_invD:
  assumes "list_inv s A" "A l = Some xs"
  shows "list_ring s l xs \<or> st_next s l = None \<and> xs = []" "st_len s l = int (length xs)" "l < st_fresh s"
    "st_list s l = None" "\<And>x. x \<in> set xs \<Longrightarrow> x < st_fresh s" "\<And>x. st_list s x = Some l \<longleftrightarrow> x \<in> set xs"
  using assms unfolding list_inv_def by (blast, blast, blast, blast, blast, auto)

lemma list_inv_member: "list_inv s A \<Longrightarrow> st_list s x = Some l \<Longrightarrow> \<exists>xs. A l = Some xs \<and> x \<in> set xs"
  unfolding list_inv_def by blast

lemma list_inv_disjoint:
  assumes "list_inv s A" "A l = Some xs" "A k = Some ys" "l \<noteq> k"
  shows "set (l # xs) \<inter> set (k # ys) = {}"
proof -
  note l = list_invD(4,6) [OF assms(1,2)] and k = list_invD(4,6) [OF assms(1,3)]
  have "x \<notin> set ys" if "x \<in> set (l # xs)" for x using that l(1) l(2) [of x] k(2) [of x] assms(4) by auto
  moreover have "k \<notin> set (l # xs)" using l(2) [of k] k(1) assms(4) by auto
  ultimately show ?thesis by auto
qed

text \<open>
  A change of the ring of one list that moves no pointer of another: what it has to establish for
  the invariant to hold with the new sequence of elements.
\<close>

lemma list_inv_update:
  assumes "list_inv s A" "A l = Some xs" "list_ring s' l xs'"
    and frame: "\<And>y. y \<notin> set (l # xs) \<Longrightarrow> y < st_fresh s \<Longrightarrow> st_next s' y = st_next s y \<and> st_prev s' y = st_prev s y"
    and owner: "\<And>y. st_list s' y = (if y \<in> set xs' then Some l else if y \<in> set xs then None else st_list s y)"
    and len: "st_len s' = (st_len s)(l := int (length xs'))"
    and fresh: "st_fresh s \<le> st_fresh s'" "\<And>x. x \<in> set xs' \<Longrightarrow> x < st_fresh s'" "\<And>x. x \<in> set xs' \<Longrightarrow> x \<in> set xs \<or> st_fresh s \<le> x"
  shows "list_inv s' (A(l \<mapsto> xs'))"
proof -
  have old: "x \<notin> set xs'" if "x \<notin> set xs" "x < st_fresh s" for x using that fresh(3) by force
  have 1: "(list_ring s' k ys \<or> st_next s' k = None \<and> ys = []) \<and> st_len s' k = int (length ys) \<and>
        k < st_fresh s' \<and> st_list s' k = None \<and> (\<forall>x\<in>set ys. x < st_fresh s')" if "(A(l \<mapsto> xs')) k = Some ys" for k ys
  proof (cases "k = l")
    case True
    note d = list_invD [OF assms(1,2)]
    have "l \<notin> set xs" using d(4) d(6) [of l] by simp
    then have "l \<notin> set xs'" using old d(3) by blast
    then show ?thesis using that True d assms(3) len fresh owner [of l] \<open>l \<notin> set xs\<close> by auto
  next
    case False
    then have k: "A k = Some ys" using that by simp
    note d = list_invD [OF assms(1) k]
    have dj: "set (l # xs) \<inter> set (k # ys) = {}" using list_inv_disjoint [OF assms(1,2) k] False by simp
    have f: "st_next s' y = st_next s y \<and> st_prev s' y = st_prev s y" if "y \<in> set (k # ys)" for y
      using that dj d(3,5) frame [of y] by auto
    then have "list_ring s' k ys = list_ring s k ys" unfolding list_ring_def by (intro cycle_cong) auto
    moreover have "k \<notin> set xs'" using dj d(3) old by auto
    moreover have "k \<notin> set xs" using dj by auto
    ultimately show ?thesis
      using d(1-5) f [of k] False len fresh(1) owner [of k] by (simp add: order_less_le_trans [OF _ fresh(1)])
  qed
  have 2: "st_list s' x = Some k \<longleftrightarrow> (\<exists>ys. (A(l \<mapsto> xs')) k = Some ys \<and> x \<in> set ys)" for x k
  proof (cases "k = l")
    case True
    then show ?thesis using owner [of x] list_invD(6) [OF assms(1,2), of x] by auto
  next
    case False
    have "st_list s x = Some k \<longleftrightarrow> (\<exists>ys. A k = Some ys \<and> x \<in> set ys)" using assms(1) unfolding list_inv_def by blast
    moreover have "st_list s x \<noteq> Some k" if "x \<in> set xs'"
    proof
      assume m: "st_list s x = Some k"
      then have "x \<notin> set xs" using list_invD(6) [OF assms(1,2), of x] False by simp
      moreover have "x < st_fresh s" using list_inv_member [OF assms(1) m] list_invD(5) [OF assms(1)] by blast
      ultimately show False using old that by blast
    qed
    moreover have "st_list s x \<noteq> Some k" if "x \<in> set xs"
      using that list_invD(6) [OF assms(1,2), of x] False by simp
    ultimately show ?thesis unfolding owner [of x] using False by (cases "x \<in> set xs'"; cases "x \<in> set xs") simp_all
  qed
  show ?thesis unfolding list_inv_def by (rule conjI) ((intro allI impI, erule 1), (intro allI, rule 2))
qed

section \<open>Insertion, removal, move\<close>

lemma insertValue_eq:
  assumes "st_next s at = Some b" "at \<noteq> st_fresh s" "b \<noteq> st_fresh s"
  shows "List_insertValue s l v at =
    Inr (s\<lparr>st_next := (st_next s)(st_fresh s := Some b, at := Some (st_fresh s)),
           st_prev := (st_prev s)(st_fresh s := Some at, b := Some (st_fresh s)),
           st_list := (st_list s)(st_fresh s := Some l), st_Value := (st_Value s)(st_fresh s := v),
           st_len := (st_len s)(l := st_len s l + 1), st_fresh := Suc (st_fresh s)\<rparr>, st_fresh s)"
  using assms by (simp add: List_insertValue_def List_insert_def Let_def)

lemma insertValue_inv:
  assumes "list_inv s A" "A l = Some xs" "list_ring s l xs" "l # xs = us @ at # vs"
  defines "xs' \<equiv> tl (us @ at # st_fresh s # vs)"
  obtains s' where "List_insertValue s l v at = Inr (s', st_fresh s)" "list_inv s' (A(l \<mapsto> xs'))" "list_ring s' l xs'"
    "st_Value s' = (st_Value s)(st_fresh s := v)" "st_fresh s' = Suc (st_fresh s)"
proof -
  let ?f = "st_fresh s"
  define b where "b = hd ((vs @ us) @ [at])"
  have c: "cycle (st_next s) (st_prev s) (at # vs @ us)"
    using assms(3,4) cycle_rotate [of "st_next s" "st_prev s" us "at # vs"] by (simp add: list_ring_def)
  have n: "st_next s at = Some b" using cycle_next [OF c] by (simp add: b_def)
  have lt: "x < ?f" if "x \<in> set (l # xs)" for x using that list_invD(3,5) [OF assms(1,2)] by auto
  have set: "set (l # xs) = set (at # vs @ us)" using assms(4) by auto
  have b: "b \<in> set (l # xs)" unfolding set b_def by (cases vs; cases us) auto
  have at: "at \<in> set (l # xs)" unfolding set by simp
  have ne: "at \<noteq> ?f" "b \<noteq> ?f" "?f \<notin> set (l # xs)" using lt [of at] lt [of b] lt [of ?f] at b by auto
  let ?s = "s\<lparr>st_next := (st_next s)(?f := Some b, at := Some ?f), st_prev := (st_prev s)(?f := Some at, b := Some ?f),
     st_list := (st_list s)(?f := Some l), st_Value := (st_Value s)(?f := v), st_len := (st_len s)(l := st_len s l + 1), st_fresh := Suc ?f\<rparr>"
  have "cycle (st_next ?s) (st_prev ?s) (at # ?f # vs @ us)"
    using cycle_insert [OF c _ b_def, of ?f] ne(3) unfolding set by simp
  then have "cycle (st_next ?s) (st_prev ?s) (us @ at # ?f # vs)"
    using cycle_rotate [of "st_next ?s" "st_prev ?s" us "at # ?f # vs"] by simp
  moreover have l: "l # xs' = us @ at # ?f # vs" using assms(4) by (cases us) (auto simp: xs'_def)
  ultimately have r: "list_ring ?s l xs'" by (simp add: list_ring_def)
  have sx: "set xs' = insert ?f (set xs)" "length xs' = Suc (length xs)"
    using arg_cong [OF l, of set] arg_cong [OF l, of length] assms(4) arg_cong [OF assms(4), of length] cycle_distinct [OF c] ne
    by (cases us; auto simp: xs'_def)+
  have "list_inv ?s (A(l \<mapsto> xs'))"
  proof (rule list_inv_update [OF assms(1,2) r])
    show "st_list ?s y = (if y \<in> set xs' then Some l else if y \<in> set xs then None else st_list s y)" for y
      using list_invD(6) [OF assms(1,2), of y] sx by auto
    show "st_len ?s = (st_len s)(l := int (length xs'))" using list_invD(2) [OF assms(1,2)] sx by (simp add: add.commute)
  qed (use at b lt sx in \<open>auto simp: less_Suc_eq\<close>)
  then show ?thesis using that [of ?s] insertValue_eq [OF n ne(1,2), of l v] r by simp
qed


text \<open>The neighbours of an element: the ring entered just before it.\<close>

lemma ring_neighbours:
  assumes "list_ring s l xs" "l # xs = us @ e # vs" "us \<noteq> []"
  shows "st_prev s e = Some (last us)" "st_next s e = Some (hd (vs @ [l]))" "cycle (st_next s) (st_prev s) (last us # e # vs @ butlast us)"
proof -
  have "us = butlast us @ [last us]" using assms(3) by simp
  then have "l # xs = butlast us @ last us # e # vs" using assms(2) by (metis append.assoc append_Cons append_Nil)
  then show c: "cycle (st_next s) (st_prev s) (last us # e # vs @ butlast us)"
    using assms(1) cycle_rotate [of "st_next s" "st_prev s" "butlast us" "last us # e # vs"] by (simp add: list_ring_def)
  then show "st_prev s e = Some (last us)" by (simp add: cycle_def link_def)
  have "hd us = l" using assms(2,3) by (cases us) auto
  have "cycle (st_next s) (st_prev s) (e # (vs @ butlast us) @ [last us])"
    using c cycle_rotate [of "st_next s" "st_prev s" "[last us]" "e # vs @ butlast us"] by simp
  then have "st_next s e = Some (hd (((vs @ butlast us) @ [last us]) @ [e]))" by (rule cycle_next)
  then show "st_next s e = Some (hd (vs @ [l]))" using assms(2,3) by (cases vs; cases us) auto
qed

lemma split_element: "x \<in> set xs \<Longrightarrow> l \<notin> set xs \<Longrightarrow> \<exists>us vs. l # xs = us @ x # vs \<and> us \<noteq> []"
  by (metis append_Cons list.distinct(1) split_list)

lemma remove_eq:
  assumes "st_prev s e = Some a" "st_next s e = Some b" "a \<noteq> e" "b \<noteq> e"
  shows "List_remove s l e =
    Inr (s\<lparr>st_next := (st_next s)(a := Some b, e := None), st_prev := (st_prev s)(b := Some a, e := None),
           st_list := (st_list s)(e := None), st_len := (st_len s)(l := st_len s l - 1)\<rparr>)"
  using assms by (simp add: List_remove_def Let_def fun_upd_twist)

lemma cycle_out:
  assumes "cycle n p (a # e # c)" "b = hd (c @ [a])"
  shows "cycle (n(a := Some b, e := u)) (p(b := Some a, e := w)) (a # c)"
proof -
  have "e \<notin> set (a # c)" using cycle_distinct [OF assms(1)] by auto
  then show ?thesis using cycle_remove [OF assms] cycle_cong [of "a # c" "n(a := Some b, e := u)" "n(a := Some b)" "p(b := Some a, e := w)" "p(b := Some a)"]
    by (metis fun_upd_other)
qed

lemma ring_unlink:
  assumes "list_ring s l xs" "l # xs = us @ e # vs" "us \<noteq> []" "a = last us" "b = hd (vs @ [l])"
  shows "cycle ((st_next s)(a := Some b, e := u)) ((st_prev s)(b := Some a, e := w)) (us @ vs)" "b = hd ((vs @ butlast us) @ [a])"
    "a \<noteq> e" "b \<noteq> e" "us @ vs = l # tl (us @ vs)"
proof -
  note n = ring_neighbours [OF assms(1-3)]
  show b: "b = hd ((vs @ butlast us) @ [a])" using assms(2-5) by (cases vs; cases us) auto
  have "cycle ((st_next s)(a := Some b, e := u)) ((st_prev s)(b := Some a, e := w)) (a # vs @ butlast us)"
    using n(3) b assms(4) by (intro cycle_out) auto
  moreover have "us @ vs = butlast us @ a # vs" using assms(3,4) by simp
  ultimately show "cycle ((st_next s)(a := Some b, e := u)) ((st_prev s)(b := Some a, e := w)) (us @ vs)"
    using cycle_rotate [of _ _ "butlast us" "a # vs"] by (simp only: append_Cons)
  have d: "distinct (us @ e # vs)" using assms(1,2) cycle_distinct unfolding list_ring_def by metis
  then show "a \<noteq> e" using assms(3,4) by auto
  show "b \<noteq> e" using d assms(2,3,5) by (cases vs; cases us) auto
  show "us @ vs = l # tl (us @ vs)" using assms(2,3) by (cases us) auto
qed

lemma ring_ab:
  assumes "l # xs = us @ e # vs" "us \<noteq> []"
  shows "last us \<in> set (l # xs)" "hd (vs @ [l]) \<in> set (l # xs)"
proof -
  have "l \<in> set us" using assms by (cases us) auto
  then show "last us \<in> set (l # xs)" "hd (vs @ [l]) \<in> set (l # xs)"
    using last_in_set [OF assms(2)] hd_in_set [of "vs @ [l]"] unfolding assms(1) by auto
qed

lemma remove_inv:
  assumes "list_inv s A" "A l = Some xs" "list_ring s l xs" "l # xs = us @ e # vs" "us \<noteq> []"
  obtains s' where "List_remove s l e = Inr s'" "list_inv s' (A(l \<mapsto> tl (us @ vs)))"
    "st_Value s' = st_Value s" "st_fresh s' = st_fresh s"
proof -
  define a b where "a = last us" and "b = hd (vs @ [l])"
  note n = ring_neighbours [OF assms(3-5), folded a_def, folded b_def] and u = ring_unlink [OF assms(3-5) a_def b_def]
  let ?s = "s\<lparr>st_next := (st_next s)(a := Some b, e := None), st_prev := (st_prev s)(b := Some a, e := None),
           st_list := (st_list s)(e := None), st_len := (st_len s)(l := st_len s l - 1)\<rparr>"
  let ?xs = "tl (us @ vs)"
  have r: "list_ring ?s l ?xs" using u(1) u(5) by (simp add: list_ring_def)
  have d: "distinct (us @ e # vs)" using assms(3,4) cycle_distinct unfolding list_ring_def by metis
  have sx: "set ?xs = set xs - {e}" "length xs = Suc (length ?xs)" "e \<in> set xs"
    using assms(4,5) d by (cases us; auto)+
  have ab: "a \<in> set (l # xs)" "b \<in> set (l # xs)" using ring_ab [OF assms(4,5)] by (simp_all add: a_def b_def)
  have "list_inv ?s (A(l \<mapsto> ?xs))"
  proof (rule list_inv_update [OF assms(1,2) r])
    show "st_list ?s y = (if y \<in> set ?xs then Some l else if y \<in> set xs then None else st_list s y)" for y
      using list_invD(6) [OF assms(1,2), of y] sx by auto
    show "st_len ?s = (st_len s)(l := int (length ?xs))" using list_invD(2) [OF assms(1,2)] sx by simp
  qed (use ab list_invD(3,5) [OF assms(1,2)] sx in auto)
  then show ?thesis using that [of ?s] remove_eq [OF n(1,2) u(3,4), of l] by simp
qed


lemma move_eq:
  assumes "st_prev s e = Some a" "st_next s e = Some b" "a \<noteq> e" "b \<noteq> e" "e \<noteq> at"
    "((st_next s)(a := Some b)) at = Some c" "c \<noteq> e"
  shows "List_move s e at =
    Inr (s\<lparr>st_next := (st_next s)(a := Some b, e := Some c, at := Some e),
           st_prev := (st_prev s)(b := Some a, e := Some at, c := Some e)\<rparr>)"
  using assms by (simp add: List_move_def Let_def fun_upd_twist split: if_splits)

lemma move_inv:
  assumes "list_inv s A" "A l = Some xs" "list_ring s l xs" "l # xs = us @ e # vs" "us \<noteq> []" "us @ vs = ps @ at # qs"
  obtains s' where "List_move s e at = Inr s'" "list_inv s' (A(l \<mapsto> tl (ps @ at # e # qs)))"
    "st_Value s' = st_Value s" "st_fresh s' = st_fresh s"
proof -
  define a b where "a = last us" and "b = hd (vs @ [l])"
  note n = ring_neighbours [OF assms(3-5), folded a_def, folded b_def] and u = ring_unlink [OF assms(3-5) a_def b_def]
  let ?n = "(st_next s)(a := Some b)" and ?p = "(st_prev s)(b := Some a)"
  have "cycle (?n(e := st_next s e)) (?p(e := st_prev s e)) (us @ vs)" by (rule u(1))
  then have "cycle ?n ?p (us @ vs)" using u(3,4) by (simp add: fun_upd_idem)
  then have c0: "cycle ?n ?p (at # qs @ ps)" using cycle_rotate [of ?n ?p ps "at # qs"] assms(6) by simp
  define c where "c = hd ((qs @ ps) @ [at])"
  have d: "distinct (us @ e # vs)" using assms(3,4) cycle_distinct unfolding list_ring_def by metis
  have e: "e \<notin> set (at # qs @ ps)"
  proof -
    have "set (at # qs @ ps) = set (us @ vs)" using assms(6) by auto
    then show ?thesis using d by auto
  qed
  have cin: "c \<in> set (at # qs @ ps)" unfolding c_def by (cases qs; cases ps) auto
  have m: "List_move s e at = Inr (s\<lparr>st_next := ?n(e := Some c, at := Some e), st_prev := ?p(e := Some at, c := Some e)\<rparr>)"
    using cycle_next [OF c0] e cin u(3,4) by (intro move_eq [OF n(1,2)]) (auto simp: c_def)
  let ?s = "s\<lparr>st_next := ?n(e := Some c, at := Some e), st_prev := ?p(e := Some at, c := Some e)\<rparr>"
  have "cycle (st_next ?s) (st_prev ?s) (at # e # qs @ ps)" using cycle_insert [OF c0 e c_def] by simp
  then have c1: "cycle (st_next ?s) (st_prev ?s) (ps @ at # e # qs)"
    using cycle_rotate [of "st_next ?s" "st_prev ?s" ps "at # e # qs"] by simp
  have l: "ps @ at # e # qs = l # tl (ps @ at # e # qs)" using u(5) assms(6) by (cases ps) auto
  let ?xs = "tl (ps @ at # e # qs)"
  have r: "list_ring ?s l ?xs" using c1 l by (simp add: list_ring_def)
  have sx: "set (l # ?xs) = set (l # xs)" "length ?xs = length xs"
    using arg_cong [OF l, of set] arg_cong [OF l, of length] arg_cong [OF assms(4), of set] arg_cong [OF assms(4), of length]
      arg_cong [OF assms(6), of set] arg_cong [OF assms(6), of length] by auto
  have "l \<notin> set xs" "l \<notin> set ?xs" using cycle_distinct [OF assms(3) [unfolded list_ring_def]] cycle_distinct [OF r [unfolded list_ring_def]] by auto
  then have sx': "set ?xs = set xs" using sx(1) by auto
  have lt: "x < st_fresh s" if "x \<in> set (l # xs)" for x using that list_invD(3,5) [OF assms(1,2)] by auto
  have in_ring: "a \<in> set (l # xs)" "b \<in> set (l # xs)" "c \<in> set (l # xs)" "at \<in> set (l # xs)" "e \<in> set (l # xs)"
  proof -
    show "a \<in> set (l # xs)" "b \<in> set (l # xs)" using ring_ab [OF assms(4,5)] by (simp_all add: a_def b_def)
    have "set (at # qs @ ps) = set (us @ vs)" using assms(6) by auto
    then have "set (at # qs @ ps) \<subseteq> set (l # xs)" unfolding assms(4) by auto
    then show "c \<in> set (l # xs)" "at \<in> set (l # xs)" using cin by auto
    show "e \<in> set (l # xs)" unfolding assms(4) by simp
  qed
  have "list_inv ?s (A(l \<mapsto> ?xs))"
  proof (rule list_inv_update [OF assms(1,2) r])
    show "st_list ?s y = (if y \<in> set ?xs then Some l else if y \<in> set xs then None else st_list s y)" for y
      using list_invD(6) [OF assms(1,2), of y] sx' by auto
    show "st_len ?s = (st_len s)(l := int (length ?xs))" using list_invD(2) [OF assms(1,2)] sx(2) by (simp add: fun_upd_idem)
    show "st_next ?s y = st_next s y \<and> st_prev ?s y = st_prev s y" if "y \<notin> set (l # xs)" "y < st_fresh s" for y
      using that in_ring by auto
  qed (use lt sx' in auto)
  then show ?thesis using that [of ?s] m by simp
qed


section \<open>The sequences\<close>

record 'v seqs =
  sq_items :: "addr \<rightharpoonup> addr list"
  sq_val :: "addr \<Rightarrow> 'v"
  sq_fresh :: addr

definition list_abs :: "'v list_store \<Rightarrow> 'v seqs \<Rightarrow> bool" where
  "list_abs s q \<longleftrightarrow> list_inv s (sq_items q) \<and> st_Value s = sq_val q \<and> st_fresh s = sq_fresh q"

definition seq_before :: "'a \<Rightarrow> 'a \<Rightarrow> 'a list \<Rightarrow> 'a list" where
  "seq_before m e xs = takeWhile (\<lambda>x. x \<noteq> m) xs @ e # dropWhile (\<lambda>x. x \<noteq> m) xs"

definition seq_after :: "'a \<Rightarrow> 'a \<Rightarrow> 'a list \<Rightarrow> 'a list" where
  "seq_after m e xs = takeWhile (\<lambda>x. x \<noteq> m) xs @ m # e # tl (dropWhile (\<lambda>x. x \<noteq> m) xs)"

lemma seq_before_split: "m \<notin> set us \<Longrightarrow> seq_before m e (us @ m # vs) = us @ e # m # vs"
  by (induction us) (auto simp: seq_before_def)

lemma seq_after_split: "m \<notin> set us \<Longrightarrow> seq_after m e (us @ m # vs) = us @ m # e # vs"
  by (induction us) (auto simp: seq_after_def)

datatype 'v list_op =
    Op_New | Op_Init addr
  | Op_PushFront addr 'v | Op_PushBack addr 'v
  | Op_InsertBefore addr 'v addr | Op_InsertAfter addr 'v addr
  | Op_Remove addr addr
  | Op_MoveToFront addr addr | Op_MoveToBack addr addr
  | Op_MoveBefore addr addr addr | Op_MoveAfter addr addr addr
  | Op_PushBackList addr addr | Op_PushFrontList addr addr

definition sq_new :: "'v seqs \<Rightarrow> addr \<Rightarrow> 'v \<Rightarrow> addr list \<Rightarrow> 'v seqs" where
  "sq_new q l v xs =
     q\<lparr>sq_items := (sq_items q)(l \<mapsto> xs), sq_val := (sq_val q)(sq_fresh q := v), sq_fresh := Suc (sq_fresh q)\<rparr>"

definition sq_set :: "'v seqs \<Rightarrow> addr \<Rightarrow> addr list \<Rightarrow> 'v seqs" where
  "sq_set q l xs = q\<lparr>sq_items := (sq_items q)(l \<mapsto> xs)\<rparr>"

abbreviation sq :: "'v seqs \<Rightarrow> addr \<Rightarrow> addr list" where "sq q l \<equiv> the (sq_items q l)"

text \<open>What each method does to the sequences.\<close>

fun seq_step :: "'v seqs \<Rightarrow> 'v list_op \<Rightarrow> 'v seqs" where
  "seq_step q Op_New = q\<lparr>sq_items := (sq_items q)(sq_fresh q \<mapsto> []), sq_fresh := Suc (sq_fresh q)\<rparr>"
| "seq_step q (Op_Init l) = sq_set q l []"
| "seq_step q (Op_PushFront l v) = sq_new q l v (sq_fresh q # sq q l)"
| "seq_step q (Op_PushBack l v) = sq_new q l v (sq q l @ [sq_fresh q])"
| "seq_step q (Op_InsertBefore l v m) = (if m \<in> set (sq q l) then sq_new q l v (seq_before m (sq_fresh q) (sq q l)) else q)"
| "seq_step q (Op_InsertAfter l v m) = (if m \<in> set (sq q l) then sq_new q l v (seq_after m (sq_fresh q) (sq q l)) else q)"
| "seq_step q (Op_Remove l e) = sq_set q l (remove1 e (sq q l))"
| "seq_step q (Op_MoveToFront l e) = (if e \<in> set (sq q l) then sq_set q l (e # remove1 e (sq q l)) else q)"
| "seq_step q (Op_MoveToBack l e) = (if e \<in> set (sq q l) then sq_set q l (remove1 e (sq q l) @ [e]) else q)"
| "seq_step q (Op_MoveBefore l e m) =
     (if e \<in> set (sq q l) \<and> m \<in> set (sq q l) \<and> e \<noteq> m then sq_set q l (seq_before m e (remove1 e (sq q l))) else q)"
| "seq_step q (Op_MoveAfter l e m) =
     (if e \<in> set (sq q l) \<and> m \<in> set (sq q l) \<and> e \<noteq> m then sq_set q l (seq_after m e (remove1 e (sq q l))) else q)"
| "seq_step q (Op_PushBackList l other) =
     fold (\<lambda>e q. sq_new q l (sq_val q e) (sq q l @ [sq_fresh q])) (sq q other) q"
| "seq_step q (Op_PushFrontList l other) =
     fold (\<lambda>e q. sq_new q l (sq_val q e) (sq_fresh q # sq q l)) (rev (sq q other)) q"

text \<open>The methods run on the store; results other than the store are left out.\<close>

definition drop_result :: "panic + 'a \<times> 'b \<Rightarrow> panic + 'a" where
  "drop_result r = (case r of Inl e \<Rightarrow> Inl e | Inr (s, _) \<Rightarrow> Inr s)"

fun list_exec :: "'v list_store \<Rightarrow> 'v list_op \<Rightarrow> panic + 'v list_store" where
  "list_exec s Op_New = Inr (fst (List_New s))"
| "list_exec s (Op_Init l) = Inr (List_Init s l)"
| "list_exec s (Op_PushFront l v) = drop_result (List_PushFront s l v)"
| "list_exec s (Op_PushBack l v) = drop_result (List_PushBack s l v)"
| "list_exec s (Op_InsertBefore l v m) = drop_result (List_InsertBefore s l v m)"
| "list_exec s (Op_InsertAfter l v m) = drop_result (List_InsertAfter s l v m)"
| "list_exec s (Op_Remove l e) = drop_result (List_Remove s l e)"
| "list_exec s (Op_MoveToFront l e) = List_MoveToFront s l e"
| "list_exec s (Op_MoveToBack l e) = List_MoveToBack s l e"
| "list_exec s (Op_MoveBefore l e m) = List_MoveBefore s l e m"
| "list_exec s (Op_MoveAfter l e m) = List_MoveAfter s l e m"
| "list_exec s (Op_PushBackList l other) = List_PushBackList s l other"
| "list_exec s (Op_PushFrontList l other) = List_PushFrontList s l other"

fun op_lists :: "'v list_op \<Rightarrow> addr list" where
  "op_lists Op_New = []" | "op_lists (Op_Init l) = [l]"
| "op_lists (Op_PushFront l v) = [l]" | "op_lists (Op_PushBack l v) = [l]"
| "op_lists (Op_InsertBefore l v m) = [l]" | "op_lists (Op_InsertAfter l v m) = [l]"
| "op_lists (Op_Remove l e) = [l]" | "op_lists (Op_MoveToFront l e) = [l]" | "op_lists (Op_MoveToBack l e) = [l]"
| "op_lists (Op_MoveBefore l e m) = [l]" | "op_lists (Op_MoveAfter l e m) = [l]"
| "op_lists (Op_PushBackList l other) = [l, other]" | "op_lists (Op_PushFrontList l other) = [l, other]"

text \<open>The elements that are passed to a method.\<close>

fun op_elems :: "'v list_op \<Rightarrow> addr list" where
  "op_elems (Op_InsertBefore l v m) = [m]" | "op_elems (Op_InsertAfter l v m) = [m]"
| "op_elems (Op_Remove l e) = [e]" | "op_elems (Op_MoveToFront l e) = [e]" | "op_elems (Op_MoveToBack l e) = [e]"
| "op_elems (Op_MoveBefore l e m) = [e, m]" | "op_elems (Op_MoveAfter l e m) = [e, m]"
| "op_elems _ = []"

text \<open>
  \<open>Init\<close> cuts the elements of the list off without telling them: their \<open>list\<close> pointers stay. The store in which these pointers
  of the elements \<open>D\<close> are cleared:
\<close>

definition detach :: "'v list_store \<Rightarrow> addr set \<Rightarrow> 'v list_store" where
  "detach s D = s\<lparr>st_list := (\<lambda>x. if x \<in> D then None else st_list s x)\<rparr>"

fun op_cuts :: "'v seqs \<Rightarrow> 'v list_op \<Rightarrow> addr list" where
  "op_cuts q (Op_Init l) = sq q l"
| "op_cuts q _ = []"


section \<open>Every method refines its step\<close>

lemma list_absD:
  assumes "list_abs s q" "sq_items q l = Some xs"
  shows "list_inv s (sq_items q)" "st_Value s = sq_val q" "st_fresh s = sq_fresh q" "\<And>x. st_list s x = Some l \<longleftrightarrow> x \<in> set xs"
    "l \<notin> set xs" "xs \<noteq> [] \<Longrightarrow> list_ring s l xs" "st_len s l = int (length xs)"
  using assms list_invD [of s "sq_items q" l xs] unfolding list_abs_def by (auto, metis option.distinct(1))

lemma lazyInit_abs:
  assumes "list_abs s q" "sq_items q l = Some xs"
  shows "list_abs (List_lazyInit s l) q" "list_ring (List_lazyInit s l) l xs"
proof -
  have i: "list_inv s (sq_items q)" using assms(1) by (simp add: list_abs_def)
  note d = list_invD [OF i assms(2)]
  have "list_abs (List_lazyInit s l) q \<and> list_ring (List_lazyInit s l) l xs"
  proof (cases "st_next s l = None")
    case False
    then show ?thesis using d(1) assms(1) by (auto simp: List_lazyInit_def)
  next
    case True
    then have x: "xs = []" using d(1) by (auto simp: list_ring_def dest: cycle_next)
    have r: "list_ring (List_lazyInit s l) l []" using True by (simp add: List_lazyInit_def List_Init_def list_ring_def cycle_single)
    have "list_inv (List_lazyInit s l) ((sq_items q)(l \<mapsto> []))"
      by (rule list_inv_update [OF i assms(2) r]) (use True x d in \<open>auto simp: List_lazyInit_def List_Init_def\<close>)
    then show ?thesis using r x assms True by (simp add: list_abs_def List_lazyInit_def List_Init_def fun_upd_idem)
  qed
  then show "list_abs (List_lazyInit s l) q" "list_ring (List_lazyInit s l) l xs" by blast+
qed

lemma New_abs:
  assumes "list_abs s q"
  shows "list_abs (fst (List_New s)) (seq_step q Op_New)"
proof -
  let ?f = "sq_fresh q" and ?s = "fst (List_New s)" and ?A = "(sq_items q)(sq_fresh q \<mapsto> [])"
  have i: "list_inv s (sq_items q)" and f: "st_fresh s = ?f" using assms by (simp_all add: list_abs_def)
  have st: "st_next ?s = (st_next s)(?f := Some ?f)" "st_prev ?s = (st_prev s)(?f := Some ?f)" "st_list ?s = (st_list s)(?f := None)"
      "st_len ?s = (st_len s)(?f := 0)" "st_fresh ?s = Suc ?f" "st_Value ?s = st_Value s"
    by (simp_all add: List_New_def List_Init_def Let_def f)
  have none: "sq_items q ?f = None" using list_invD(3) [OF i, of ?f] f by (cases "sq_items q ?f") auto
  have 1: "(list_ring ?s k ys \<or> st_next ?s k = None \<and> ys = []) \<and> st_len ?s k = int (length ys) \<and>
        k < st_fresh ?s \<and> st_list ?s k = None \<and> (\<forall>x\<in>set ys. x < st_fresh ?s)" if "?A k = Some ys" for k ys
  proof (cases "k = ?f")
    case True
    then show ?thesis using that by (simp add: st list_ring_def cycle_single)
  next
    case False
    then have k: "sq_items q k = Some ys" using that by simp
    note d = list_invD [OF i k]
    have "list_ring ?s k ys = list_ring s k ys"
      unfolding list_ring_def st using False d(5) f by (intro cycle_cong) auto
    then show ?thesis using d(1-5) False f by (auto simp: st less_Suc_eq)
  qed
  have 2: "st_list ?s x = Some k \<longleftrightarrow> (\<exists>ys. ?A k = Some ys \<and> x \<in> set ys)" for x k
  proof -
    have "st_list s x = Some k \<longleftrightarrow> (\<exists>ys. sq_items q k = Some ys \<and> x \<in> set ys)" using i unfolding list_inv_def by blast
    moreover have "st_list s ?f = None" 
    proof (cases "st_list s ?f")
      case (Some k)
      then show ?thesis using list_inv_member [OF i Some] list_invD(5) [OF i] f by (metis less_irrefl)
    qed
    ultimately show ?thesis using none by (auto simp: st)
  qed
  have "list_inv ?s ?A" unfolding list_inv_def by (rule conjI) ((intro allI impI, erule 1), (intro allI, rule 2))
  then show ?thesis using assms by (simp add: list_abs_def st)
qed

lemma insertValue_abs:
  assumes "list_abs s q" "sq_items q l = Some xs" "list_ring s l xs" "l # xs = us @ at # vs"
  obtains s' where "List_insertValue s l v at = Inr (s', sq_fresh q)" "list_abs s' (sq_new q l v (tl (us @ at # sq_fresh q # vs)))"
    "list_ring s' l (tl (us @ at # sq_fresh q # vs))"
proof -
  have i: "list_inv s (sq_items q)" and f: "st_fresh s = sq_fresh q" "st_Value s = sq_val q" using assms(1) by (simp_all add: list_abs_def)
  show thesis
    by (rule insertValue_inv [OF i assms(2-4), of v], rule that) (simp_all add: list_abs_def sq_new_def f)
qed

lemma move_abs:
  assumes "list_abs s q" "sq_items q l = Some xs" "list_ring s l xs" "l # xs = us @ e # vs" "us \<noteq> []" "us @ vs = ps @ at # qs"
  obtains s' where "List_move s e at = Inr s'" "list_abs s' (sq_set q l (tl (ps @ at # e # qs)))"
proof -
  have i: "list_inv s (sq_items q)" and f: "st_fresh s = sq_fresh q" "st_Value s = sq_val q" using assms(1) by (simp_all add: list_abs_def)
  show thesis by (rule move_inv [OF i assms(2-6)], rule that) (simp_all add: list_abs_def sq_set_def f)
qed

lemma sq_set_same: "sq_items q l = Some xs \<Longrightarrow> sq_set q l xs = q"
  by (simp add: sq_set_def fun_upd_idem)

lemma PushFront_abs:
  assumes "list_abs s q" "sq_items q l = Some xs"
  shows "\<exists>s'. list_exec s (Op_PushFront l v) = Inr s' \<and> list_abs s' (seq_step q (Op_PushFront l v))"
proof -
  note z = lazyInit_abs [OF assms]
  obtain s' where "List_insertValue (List_lazyInit s l) l v l = Inr (s', sq_fresh q)" "list_abs s' (sq_new q l v (tl ([] @ l # sq_fresh q # xs)))"
    by (rule insertValue_abs [OF z(1) assms(2) z(2), of "[]" l xs v]) simp
  then show ?thesis by (simp add: assms(2) List_PushFront_def drop_result_def)
qed

lemma push_back_abs:
  assumes "list_abs s q" "sq_items q l = Some xs" "list_ring s l xs"
  obtains s' at where "st_prev s l = Some at" "List_insertValue s l v at = Inr (s', sq_fresh q)" "list_abs s' (sq_new q l v (xs @ [sq_fresh q]))"
    "list_ring s' l (xs @ [sq_fresh q])"
proof -
  have p: "st_prev s l = Some (last (l # xs))" by (rule cycle_prev [OF assms(3) [unfolded list_ring_def]])
  have u: "l # xs = butlast (l # xs) @ last (l # xs) # []" by (rule append_butlast_last_id [symmetric]) simp
  have t: "tl (butlast (l # xs) @ last (l # xs) # sq_fresh q # []) = xs @ [sq_fresh q]"
    using arg_cong [OF u, of "\<lambda>c. tl (c @ [sq_fresh q])"] by simp
  obtain s' where "List_insertValue s l v (last (l # xs)) = Inr (s', sq_fresh q)" "list_abs s' (sq_new q l v (xs @ [sq_fresh q]))"
      "list_ring s' l (xs @ [sq_fresh q])"
    by (rule insertValue_abs [OF assms u, of v]) (simp only: t)
  then show thesis using that p by blast
qed

lemma PushBack_abs:
  assumes "list_abs s q" "sq_items q l = Some xs"
  shows "\<exists>s'. list_exec s (Op_PushBack l v) = Inr s' \<and> list_abs s' (seq_step q (Op_PushBack l v))"
proof -
  note z = lazyInit_abs [OF assms]
  show ?thesis
    by (rule push_back_abs [OF z(1) assms(2) z(2), of v]) (simp add: assms(2) List_PushBack_def drop_result_def Let_def)
qed

text \<open>An element of the list, with its position in the ring and in the sequence.\<close>

lemma element_split:
  assumes "list_abs s q" "sq_items q l = Some xs" "e \<in> set xs"
  obtains us vs where "l # xs = us @ e # vs" "us \<noteq> []" "us = l # tl us" "xs = tl us @ e # vs" "e \<notin> set us" "e \<notin> set vs" "list_ring s l xs"
    "remove1 e xs = tl (us @ vs)" "st_list s e = Some l"
proof -
  note d = list_absD [OF assms(1,2)]
  obtain us vs where u: "l # xs = us @ e # vs" "us \<noteq> []" using split_element [OF assms(3) d(5)] by blast
  have r: "list_ring s l xs" using d(6) assms(3) by (cases xs) auto
  have dist: "distinct (us @ e # vs)" using r u(1) cycle_distinct unfolding list_ring_def by metis
  have h: "us = l # tl us" using u by (cases us) auto
  then have x: "xs = tl us @ e # vs" using u(1) by (metis append_Cons list.inject)
  have "e \<notin> set (tl us)" using dist in_set_tlD by force
  then have "remove1 e xs = tl (us @ vs)" using u(2) by (simp add: x remove1_append)
  then show thesis using that u r x h dist d(4) assms(3) by auto
qed

lemma InsertBefore_abs:
  assumes "list_abs s q" "sq_items q l = Some xs"
  shows "\<exists>s'. list_exec s (Op_InsertBefore l v m) = Inr s' \<and> list_abs s' (seq_step q (Op_InsertBefore l v m))"
proof (cases "m \<in> set xs")
  case False
  then show ?thesis using assms list_absD(4) [OF assms] by (simp add: List_InsertBefore_def drop_result_def)
next
  case True
  obtain us vs where u: "l # xs = us @ m # vs" "us \<noteq> []" "us = l # tl us" "xs = tl us @ m # vs" "m \<notin> set us" "list_ring s l xs" "st_list s m = Some l"
    by (rule element_split [OF assms True])
  note n = ring_neighbours [OF u(6,1,2)]
  have e: "l # xs = butlast us @ last us # m # vs" using u(1,2) by (metis append_Cons append_assoc append_Nil append_butlast_last_id)
  have "m \<notin> set (tl us)" using u(5) in_set_tlD by force
  then have t: "tl (butlast us @ last us # sq_fresh q # m # vs) = seq_before m (sq_fresh q) xs"
    using u(2) seq_before_split [of m "tl us" "sq_fresh q" vs] unfolding u(4) [symmetric]
    by (metis append_assoc append_Cons append_Nil append_butlast_last_id tl_append2)
  obtain s' where "List_insertValue s l v (last us) = Inr (s', sq_fresh q)" "list_abs s' (sq_new q l v (seq_before m (sq_fresh q) xs))"
    by (rule insertValue_abs [OF assms u(6) e, of v]) (simp only: t)
  then show ?thesis using True u(7) n(1) by (simp add: assms(2) List_InsertBefore_def drop_result_def)
qed

lemma InsertAfter_abs:
  assumes "list_abs s q" "sq_items q l = Some xs"
  shows "\<exists>s'. list_exec s (Op_InsertAfter l v m) = Inr s' \<and> list_abs s' (seq_step q (Op_InsertAfter l v m))"
proof (cases "m \<in> set xs")
  case False
  then show ?thesis using assms list_absD(4) [OF assms] by (simp add: List_InsertAfter_def drop_result_def)
next
  case True
  obtain us vs where u: "l # xs = us @ m # vs" "us \<noteq> []" "us = l # tl us" "xs = tl us @ m # vs" "m \<notin> set us" "list_ring s l xs" "st_list s m = Some l"
    by (rule element_split [OF assms True])
  have "m \<notin> set (tl us)" using u(5) in_set_tlD by force
  then have t: "tl (us @ m # sq_fresh q # vs) = seq_after m (sq_fresh q) xs"
    using u(2) seq_after_split [of m "tl us" "sq_fresh q" vs] unfolding u(4) [symmetric] by simp
  obtain s' where "List_insertValue s l v m = Inr (s', sq_fresh q)" "list_abs s' (sq_new q l v (seq_after m (sq_fresh q) xs))"
    by (rule insertValue_abs [OF assms u(6) u(1), of v]) (simp only: t)
  then show ?thesis using True u(7) by (simp add: assms(2) List_InsertAfter_def drop_result_def)
qed

lemma Remove_abs:
  assumes "list_abs s q" "sq_items q l = Some xs"
  shows "\<exists>s'. List_Remove s l e = Inr (s', sq_val q e) \<and> list_abs s' (seq_step q (Op_Remove l e))"
proof (cases "e \<in> set xs")
  case False
  then show ?thesis using assms list_absD(2,4) [OF assms] by (simp add: List_Remove_def remove1_idem sq_set_same)
next
  case True
  obtain us vs where u: "l # xs = us @ e # vs" "us \<noteq> []" "list_ring s l xs" "remove1 e xs = tl (us @ vs)" "st_list s e = Some l"
    by (rule element_split [OF assms True])
  note d = list_absD [OF assms]
  show ?thesis
    by (rule remove_inv [OF d(1) assms(2) u(3,1,2)]) (use u d in \<open>simp add: List_Remove_def assms(2) list_abs_def sq_set_def\<close>)
qed


lemma MoveToFront_abs:
  assumes "list_abs s q" "sq_items q l = Some xs"
  shows "\<exists>s'. list_exec s (Op_MoveToFront l e) = Inr s' \<and> list_abs s' (seq_step q (Op_MoveToFront l e))"
proof (cases "e \<in> set xs")
  case False
  then show ?thesis using assms list_absD(4) [OF assms] by (simp add: List_MoveToFront_def)
next
  case True
  obtain us vs where u: "l # xs = us @ e # vs" "us \<noteq> []" "us = l # tl us" "xs = tl us @ e # vs" "list_ring s l xs" "remove1 e xs = tl (us @ vs)" "st_list s e = Some l"
    by (rule element_split [OF assms True])
  have n: "st_next s l = Some (hd (xs @ [l]))" by (rule cycle_next [OF u(5) [unfolded list_ring_def]])
  show ?thesis
  proof (cases "st_next s l = Some e")
    case True
    then have "e # remove1 e xs = xs" using n \<open>e \<in> set xs\<close> by (cases xs) auto
    then show ?thesis using True \<open>e \<in> set xs\<close> assms by (simp add: List_MoveToFront_def sq_set_same)
  next
    case False
    have "us @ vs = [] @ l # tl (us @ vs)" using u(3) by (cases us) auto
    then obtain s' where "List_move s e l = Inr s'" "list_abs s' (sq_set q l (tl ([] @ l # e # tl (us @ vs))))"
      by (rule move_abs [OF assms u(5,1,2)])
    then show ?thesis using False \<open>e \<in> set xs\<close> u by (simp add: List_MoveToFront_def assms(2))
  qed
qed

lemma MoveToBack_abs:
  assumes "list_abs s q" "sq_items q l = Some xs"
  shows "\<exists>s'. list_exec s (Op_MoveToBack l e) = Inr s' \<and> list_abs s' (seq_step q (Op_MoveToBack l e))"
proof (cases "e \<in> set xs")
  case False
  then show ?thesis using assms list_absD(4) [OF assms] by (simp add: List_MoveToBack_def)
next
  case True
  obtain us vs where u: "l # xs = us @ e # vs" "us \<noteq> []" "us = l # tl us" "xs = tl us @ e # vs" "list_ring s l xs" "remove1 e xs = tl (us @ vs)" "st_list s e = Some l"
    "e \<notin> set vs"
    by (rule element_split [OF assms True])
  have p: "st_prev s l = Some (last xs)" using cycle_prev [OF u(5) [unfolded list_ring_def]] \<open>e \<in> set xs\<close> by (cases xs) auto
  show ?thesis
  proof (cases "vs = []")
    case True
    then have "remove1 e xs @ [e] = xs" "last xs = e" using u(2,4,6) by simp_all
    then show ?thesis using p \<open>e \<in> set xs\<close> assms by (simp add: List_MoveToBack_def sq_set_same)
  next
    case False
    then have l: "last xs = last (us @ vs)" "last xs \<noteq> e" using u(4,8) last_in_set [OF False] by auto
    have "us @ vs = butlast (us @ vs) @ last (us @ vs) # []" using u(2) by (intro append_butlast_last_id [symmetric]) simp
    then obtain s' where s': "List_move s e (last (us @ vs)) = Inr s'"
        "list_abs s' (sq_set q l (tl (butlast (us @ vs) @ last (us @ vs) # e # [])))"
      by (rule move_abs [OF assms u(5,1,2)])
    have "butlast (us @ vs) @ last (us @ vs) # e # [] = (us @ vs) @ [e]"
      using append_butlast_last_id [of "us @ vs"] u(2) by (metis append_Cons append_Nil append_assoc append_is_Nil_conv)
    then have "tl (butlast (us @ vs) @ last (us @ vs) # e # []) = remove1 e xs @ [e]" using u(2,6) by (simp only:) simp
    then show ?thesis using s' l p \<open>e \<in> set xs\<close> u(7) by (simp add: List_MoveToBack_def assms(2))
  qed
qed

lemma MoveAfter_abs:
  assumes "list_abs s q" "sq_items q l = Some xs"
  shows "\<exists>s'. list_exec s (Op_MoveAfter l e m) = Inr s' \<and> list_abs s' (seq_step q (Op_MoveAfter l e m))"
proof (cases "e \<in> set xs \<and> m \<in> set xs \<and> e \<noteq> m")
  case False
  then show ?thesis using assms list_absD(4) [OF assms] by (auto simp: List_MoveAfter_def)
next
  case True
  then have e: "e \<in> set xs" by simp
  obtain us vs where u: "l # xs = us @ e # vs" "us \<noteq> []" "us = l # tl us" "xs = tl us @ e # vs" "list_ring s l xs" "remove1 e xs = tl (us @ vs)" "st_list s e = Some l"
    by (rule element_split [OF assms e])
  have m: "m \<in> set (remove1 e xs)" "m \<noteq> l" "st_list s m = Some l"
    using True list_absD(4,5) [OF assms] in_set_remove1 [of m e xs] by auto
  obtain ps qs where pq: "remove1 e xs = ps @ m # qs" "m \<notin> set ps" using split_list_first [OF m(1)] by blast
  have "us @ vs = (l # ps) @ m # qs" using pq(1) u(3,6) by (metis append_Cons list.sel(3))
  then obtain s' where "List_move s e m = Inr s'" "list_abs s' (sq_set q l (tl ((l # ps) @ m # e # qs)))"
    by (rule move_abs [OF assms u(5,1,2)])
  then show ?thesis using True u(7) m(3) seq_after_split [OF pq(2), of e qs] pq(1) by (simp add: List_MoveAfter_def assms(2))
qed

lemma MoveBefore_abs:
  assumes "list_abs s q" "sq_items q l = Some xs"
  shows "\<exists>s'. list_exec s (Op_MoveBefore l e m) = Inr s' \<and> list_abs s' (seq_step q (Op_MoveBefore l e m))"
proof (cases "e \<in> set xs \<and> m \<in> set xs \<and> e \<noteq> m")
  case False
  then show ?thesis using assms list_absD(4) [OF assms] by (auto simp: List_MoveBefore_def)
next
  case True
  then have e: "e \<in> set xs" and m: "m \<in> set xs" and em: "e \<noteq> m" by simp_all
  obtain us vs where u: "l # xs = us @ e # vs" "us \<noteq> []" "us = l # tl us" "list_ring s l xs" "remove1 e xs = tl (us @ vs)" "st_list s e = Some l"
    by (rule element_split [OF assms e])
  obtain us2 vs2 where w: "l # xs = us2 @ m # vs2" "us2 \<noteq> []" "us2 = l # tl us2" "xs = tl us2 @ m # vs2" "m \<notin> set us2" "st_list s m = Some l"
    by (rule element_split [OF assms m])
  have p: "st_prev s m = Some (last us2)" using ring_neighbours(1) [OF u(4) w(1,2)] .
  have le: "l \<noteq> e" using list_absD(5) [OF assms] e by auto
  have mt: "m \<notin> set (tl us2)" using w(5) in_set_tlD by force
  show ?thesis
  proof (cases "last us2 = e")
    case True
    then have t: "tl us2 = butlast (tl us2) @ [e]" using w(2,3) le by (metis append_butlast_last_id last.simps)
    have "distinct xs" using u(4) cycle_distinct unfolding list_ring_def by force
    then have "e \<notin> set (butlast (tl us2))" using w(4) t by (metis distinct_append not_distinct_conv_prefix)
    then have "remove1 e xs = butlast (tl us2) @ m # vs2" using w(4) t
      by (metis append.assoc append_Cons append_Nil remove1.simps(2) remove1_append)
    moreover have "m \<notin> set (butlast (tl us2))" using mt in_set_butlastD by force
    ultimately have "seq_before m e (remove1 e xs) = xs" using seq_before_split w(4) t by (metis append.assoc append_Cons append_Nil)
    then show ?thesis using True p assms by (simp add: List_MoveBefore_def List_move_def e m em u(6) w(6) sq_set_same)
  next
    case False
    define ps where "ps = remove1 e us2"
    define qs where "qs = (if e \<in> set us2 then vs2 else remove1 e vs2)"
    have r: "us @ vs = ps @ m # qs"
    proof -
      have "us @ vs = remove1 e (l # xs)" using u(3,5) le by (metis append_Cons list.sel(3) remove1.simps(2))
      then show ?thesis unfolding w(1) ps_def qs_def using em by (simp add: remove1_append remove1_idem)
    qed
    have ne: "ps \<noteq> []" "last ps = last us2" "hd ps = l" "m \<notin> set ps"
    proof -
      have us2: "us2 = butlast us2 @ [last us2]" using w(2) by simp
      have "ps = remove1 e (butlast us2) @ [last us2]" unfolding ps_def using False us2
        by (metis remove1_append remove1.simps append_is_Nil_conv remove1_idem)
      then show "ps \<noteq> []" "last ps = last us2" by simp_all
      show "hd ps = l" unfolding ps_def using w(3) le by (metis list.sel(1) remove1.simps(2))
      show "m \<notin> set ps" using w(5) set_remove1_subset unfolding ps_def by fast
    qed
    have "us @ vs = butlast ps @ last us2 # (m # qs)" using r ne(1,2) by (metis append.assoc append_Cons append_Nil append_butlast_last_id)
    then obtain s' where s': "List_move s e (last us2) = Inr s'" "list_abs s' (sq_set q l (tl (butlast ps @ last us2 # e # m # qs)))"
      by (rule move_abs [OF assms u(4,1,2)])
    have "butlast ps @ last us2 # e # m # qs = ps @ e # m # qs" using ne(1,2) by (metis append.assoc append_Cons append_Nil append_butlast_last_id)
    moreover have "m \<notin> set (tl ps)" using ne(4) in_set_tlD by force
    moreover have "remove1 e xs = tl ps @ m # qs" using u(5) r ne(1) by simp
    ultimately have "tl (butlast ps @ last us2 # e # m # qs) = seq_before m e (remove1 e xs)" using ne(1) by (simp only:) (simp add: seq_before_split)
    then show ?thesis using s' p by (simp add: List_MoveBefore_def e m em u(6) w(6) assms(2))
  qed
qed


subsection \<open>Copying a list\<close>

lemma Element_Next_abs:
  assumes "list_abs s q" "sq_items q l = Some (us @ e # vs)"
  shows "Element_Next s e = (case vs of [] \<Rightarrow> None | z # _ \<Rightarrow> Some z)"
proof -
  note d = list_absD [OF assms]
  have "l # us @ e # vs = (l # us) @ e # vs" by simp
  from ring_neighbours(2) [OF d(6) this] have "st_next s e = Some (hd (vs @ [l]))" by simp
  moreover have "st_list s e = Some l" using d(4) by simp
  ultimately show ?thesis using d(5) by (cases vs) (auto simp: Element_Next_def)
qed

lemma Element_Prev_abs:
  assumes "list_abs s q" "sq_items q l = Some (us @ e # vs)"
  shows "Element_Prev s e = (if us = [] then None else Some (last us))"
proof -
  note d = list_absD [OF assms]
  have "l # us @ e # vs = (l # us) @ e # vs" by simp
  from ring_neighbours(1) [OF d(6) this] have "st_prev s e = Some (last (l # us))" by simp
  moreover have "st_list s e = Some l" using d(4) by simp
  ultimately show ?thesis using d(5) last_in_set [of us] by (cases "us = []") (auto simp: Element_Prev_def)
qed

lemma Front_Back_abs:
  assumes "list_abs s q" "sq_items q l = Some xs"
  shows "List_Front s l = (if xs = [] then None else Some (hd xs))" "List_Back s l = (if xs = [] then None else Some (last xs))"
    "List_Len s l = int (length xs)"
proof -
  note d = list_absD [OF assms]
  have "xs \<noteq> [] \<Longrightarrow> st_next s l = Some (hd xs) \<and> st_prev s l = Some (last xs)"
    using cycle_next [OF d(6) [unfolded list_ring_def]] cycle_prev [OF d(6) [unfolded list_ring_def]] by auto
  then show "List_Front s l = (if xs = [] then None else Some (hd xs))" "List_Back s l = (if xs = [] then None else Some (last xs))"
    "List_Len s l = int (length xs)" using d(7) by (auto simp: List_Front_def List_Back_def List_Len_def)
qed

lemma PushBackList_loop_abs:
  assumes "list_abs s q" "sq_items q l = Some xs" "list_ring s l xs" "sq_items q other = Some (ws @ zs @ ns)" "zs \<noteq> [] \<Longrightarrow> e = Some (hd zs)"
  shows "\<exists>s'. PushBackList_loop s l (length zs) e = Inr s' \<and>
    list_abs s' (fold (\<lambda>e q. sq_new q l (sq_val q e) (sq q l @ [sq_fresh q])) zs q)"
  using assms
proof (induction zs arbitrary: s q xs ws ns e)
  case (Cons z zs)
  obtain s1 at where p: "st_prev s l = Some at" "List_insertValue s l (sq_val q z) at = Inr (s1, sq_fresh q)"
      "list_abs s1 (sq_new q l (sq_val q z) (xs @ [sq_fresh q]))" "list_ring s1 l (xs @ [sq_fresh q])"
    by (rule push_back_abs [OF Cons.prems(1-3), of "sq_val q z"])
  let ?q = "sq_new q l (sq_val q z) (xs @ [sq_fresh q])"
  have l: "sq_items ?q l = Some (xs @ [sq_fresh q])" by (simp add: sq_new_def)
  obtain ns' where o: "sq_items ?q other = Some ((ws @ [z]) @ zs @ ns')"
    using Cons.prems(2,4) by (cases "other = l") (auto simp: sq_new_def)
  have v: "st_Value s z = sq_val q z" using Cons.prems(1) by (simp add: list_abs_def)
  have "Element_Next s1 z = Some (hd zs)" if "zs \<noteq> []"
    using Element_Next_abs [OF p(3), of other ws z "zs @ ns'"] o that by (cases zs) auto
  then obtain s' where "PushBackList_loop s1 l (length zs) (Element_Next s1 z) = Inr s'"
      "list_abs s' (fold (\<lambda>e q. sq_new q l (sq_val q e) (sq q l @ [sq_fresh q])) zs ?q)"
    using Cons.IH [OF p(3) l p(4) o] by blast
  then show ?case using Cons.prems(2,5) p(1,2) v by simp
qed simp

lemma PushFrontList_loop_abs:
  assumes "list_abs s q" "sq_items q l = Some xs" "list_ring s l xs" "sq_items q other = Some (ns @ rev zs @ ws)" "zs \<noteq> [] \<Longrightarrow> e = Some (hd zs)"
  shows "\<exists>s'. PushFrontList_loop s l (length zs) e = Inr s' \<and>
    list_abs s' (fold (\<lambda>e q. sq_new q l (sq_val q e) (sq_fresh q # sq q l)) zs q)"
  using assms
proof (induction zs arbitrary: s q xs ws ns e)
  case (Cons z zs)
  have "l # xs = [] @ l # xs" by simp
  then obtain s1 where p: "List_insertValue s l (sq_val q z) l = Inr (s1, sq_fresh q)"
      "list_abs s1 (sq_new q l (sq_val q z) (tl ([] @ l # sq_fresh q # xs)))" "list_ring s1 l (tl ([] @ l # sq_fresh q # xs))"
    by (rule insertValue_abs [OF Cons.prems(1-3), of _ _ _ "sq_val q z"])
  let ?q = "sq_new q l (sq_val q z) (sq_fresh q # xs)"
  have a: "list_abs s1 ?q" and r: "list_ring s1 l (sq_fresh q # xs)" using p by simp_all
  have l: "sq_items ?q l = Some (sq_fresh q # xs)" by (simp add: sq_new_def)
  obtain ns' where o: "sq_items ?q other = Some (ns' @ rev zs @ z # ws)"
    using Cons.prems(2,4) by (cases "other = l") (auto simp: sq_new_def)
  have v: "st_Value s z = sq_val q z" using Cons.prems(1) by (simp add: list_abs_def)
  have "Element_Prev s1 z = Some (hd zs)" if "zs \<noteq> []"
    using Element_Prev_abs [OF a, of other "ns' @ rev zs" z ws] o that by (simp add: last_rev)
  then obtain s' where "PushFrontList_loop s1 l (length zs) (Element_Prev s1 z) = Inr s'"
      "list_abs s' (fold (\<lambda>e q. sq_new q l (sq_val q e) (sq_fresh q # sq q l)) zs ?q)"
    using Cons.IH [OF a l r o] by blast
  then show ?case using Cons.prems(2,5) p(1) v by simp
qed simp

lemma PushBackList_abs:
  assumes "list_abs s q" "sq_items q l = Some xs" "sq_items q other = Some ys"
  shows "\<exists>s'. list_exec s (Op_PushBackList l other) = Inr s' \<and> list_abs s' (seq_step q (Op_PushBackList l other))"
proof -
  note z = lazyInit_abs [OF assms(1,2)]
  note f = Front_Back_abs [OF z(1) assms(3)]
  have "\<exists>s'. PushBackList_loop (List_lazyInit s l) l (length ys) (List_Front (List_lazyInit s l) other) = Inr s' \<and>
     list_abs s' (fold (\<lambda>e q. sq_new q l (sq_val q e) (sq q l @ [sq_fresh q])) ys q)"
    using f by (intro PushBackList_loop_abs [OF z(1) assms(2) z(2), of other "[]" ys "[]"]) (simp_all add: assms(3))
  then show ?thesis using f by (simp add: List_PushBackList_def Let_def assms(3))
qed

lemma PushFrontList_abs:
  assumes "list_abs s q" "sq_items q l = Some xs" "sq_items q other = Some ys"
  shows "\<exists>s'. list_exec s (Op_PushFrontList l other) = Inr s' \<and> list_abs s' (seq_step q (Op_PushFrontList l other))"
proof -
  note z = lazyInit_abs [OF assms(1,2)]
  note f = Front_Back_abs [OF z(1) assms(3)]
  have "\<exists>s'. PushFrontList_loop (List_lazyInit s l) l (length (rev ys)) (List_Back (List_lazyInit s l) other) = Inr s' \<and>
     list_abs s' (fold (\<lambda>e q. sq_new q l (sq_val q e) (sq_fresh q # sq q l)) (rev ys) q)"
    using f by (intro PushFrontList_loop_abs [OF z(1) assms(2) z(2), of other "[]" "rev ys" "[]"]) (simp_all add: assms(3) hd_rev)
  then show ?thesis using f by (simp add: List_PushFrontList_def Let_def assms(3))
qed

lemma list_exec_abs:
  assumes "list_abs s q" "\<forall>l\<in>set (op_lists opr). sq_items q l \<noteq> None" "\<And>l. opr \<noteq> Op_Init l"
  shows "\<exists>s'. list_exec s opr = Inr s' \<and> list_abs s' (seq_step q opr)"
proof (cases opr)
  case Op_New
  then show ?thesis using New_abs [OF assms(1)] by simp
next
  case (Op_Init l)
  then show ?thesis using assms(3) by blast
next
  case (Op_Remove l e)
  then obtain xs where "sq_items q l = Some xs" using assms(2) by auto
  then show ?thesis using Remove_abs [OF assms(1), of l xs e] Op_Remove by (auto simp: drop_result_def)
next
  case (Op_PushFront l v)
  then show ?thesis using assms(2) PushFront_abs [OF assms(1)] by (auto simp del: list_exec.simps seq_step.simps)
next
  case (Op_PushBack l v)
  then show ?thesis using assms(2) PushBack_abs [OF assms(1)] by (auto simp del: list_exec.simps seq_step.simps)
next
  case (Op_InsertBefore l v m)
  then show ?thesis using assms(2) InsertBefore_abs [OF assms(1)] by (auto simp del: list_exec.simps seq_step.simps)
next
  case (Op_InsertAfter l v m)
  then show ?thesis using assms(2) InsertAfter_abs [OF assms(1)] by (auto simp del: list_exec.simps seq_step.simps)
next
  case (Op_MoveToFront l e)
  then show ?thesis using assms(2) MoveToFront_abs [OF assms(1)] by (auto simp del: list_exec.simps seq_step.simps)
next
  case (Op_MoveToBack l e)
  then show ?thesis using assms(2) MoveToBack_abs [OF assms(1)] by (auto simp del: list_exec.simps seq_step.simps)
next
  case (Op_MoveBefore l e m)
  then show ?thesis using assms(2) MoveBefore_abs [OF assms(1)] by (auto simp del: list_exec.simps seq_step.simps)
next
  case (Op_MoveAfter l e m)
  then show ?thesis using assms(2) MoveAfter_abs [OF assms(1)] by (auto simp del: list_exec.simps seq_step.simps)
next
  case (Op_PushBackList l other)
  then show ?thesis using assms(2) PushBackList_abs [OF assms(1)] by (auto simp del: list_exec.simps seq_step.simps)
next
  case (Op_PushFrontList l other)
  then show ?thesis using assms(2) PushFrontList_abs [OF assms(1)] by (auto simp del: list_exec.simps seq_step.simps)
qed

section \<open>Lists that are initialised again\<close>

lemma detach_simps [simp]:
  "st_next (detach s D) = st_next s" "st_prev (detach s D) = st_prev s" "st_Value (detach s D) = st_Value s"
  "st_len (detach s D) = st_len s" "st_fresh (detach s D) = st_fresh s" "st_list (detach s D) x = (if x \<in> D then None else st_list s x)"
  "detach s {} = s"
  by (simp_all add: detach_def)

lemma map_sum_case: "map_sum id g (case x of None \<Rightarrow> Inl e | Some y \<Rightarrow> f y) = (case x of None \<Rightarrow> Inl e | Some y \<Rightarrow> map_sum id g (f y))"
  by (cases x) simp_all

lemma Init_detach: "List_Init (detach s D) l = detach (List_Init s l) D" "List_lazyInit (detach s D) l = detach (List_lazyInit s l) D"
  by (auto simp: List_lazyInit_def List_Init_def Let_def fun_eq_iff intro!: list_store.equality)

lemma insertValue_detach:
  assumes "st_fresh s \<notin> D"
  shows "List_insertValue (detach s D) l v at = map_sum id (\<lambda>(t, e). (detach t D, e)) (List_insertValue s l v at)"
  using assms by (auto simp: List_insertValue_def List_insert_def Let_def map_sum_case fun_eq_iff split: option.split intro!: list_store.equality)

lemma insertValue_fresh: "List_insertValue s l v at = Inr (t, e) \<Longrightarrow> st_fresh t = Suc (st_fresh s)"
  by (auto simp: List_insertValue_def List_insert_def Let_def split: option.splits)

lemma remove_detach:
  assumes "e \<notin> D"
  shows "List_remove (detach s D) l e = map_sum id (\<lambda>t. detach t D) (List_remove s l e)"
  using assms by (auto simp: List_remove_def Let_def map_sum_case fun_eq_iff split: option.split intro!: list_store.equality)

lemma move_detach: "List_move (detach s D) e at = map_sum id (\<lambda>t. detach t D) (List_move s e at)"
  by (auto simp: List_move_def Let_def map_sum_case fun_eq_iff split: option.split intro!: list_store.equality)

lemma Element_detach:
  "Element_Next (detach s D) e = (if e \<in> D then None else Element_Next s e)" "Element_Prev (detach s D) e = (if e \<in> D then None else Element_Prev s e)"
  by (simp_all add: Element_Next_def Element_Prev_def Let_def)

lemma map_sum_Inr: "map_sum id g x = Inr y \<longleftrightarrow> (\<exists>z. x = Inr z \<and> y = g z)"
  by (cases x) auto

lemma lazyInit_fresh: "st_fresh (List_lazyInit s l) = st_fresh s"
  by (simp add: List_lazyInit_def List_Init_def)

lemma PushBackList_loop_detach:
  "PushBackList_loop (detach s D) l i e = Inr t \<Longrightarrow> \<forall>x\<in>D. x < st_fresh s \<Longrightarrow> \<exists>s'. PushBackList_loop s l i e = Inr s' \<and> t = detach s' D"
proof (induction i arbitrary: s e)
  case (Suc i)
  have f: "st_fresh s \<notin> D" using Suc.prems(2) by auto
  obtain a at s1 x where a: "e = Some a" "st_prev s l = Some at" "List_insertValue s l (st_Value s a) at = Inr (s1, x)"
      "PushBackList_loop (detach s1 D) l i (Element_Next (detach s1 D) a) = Inr t"
    using Suc.prems(1) by (cases e) (auto simp: insertValue_detach [OF f] map_sum_Inr split: option.splits sum.splits)
  show ?case
  proof (cases "a \<in> D")
    case True
    then have "i = 0" using a(4) by (cases i) (simp_all add: Element_detach)
    then show ?thesis using a by simp
  next
    case False
    then have "PushBackList_loop (detach s1 D) l i (Element_Next s1 a) = Inr t" using a(4) by (simp add: Element_detach)
    moreover have "\<forall>x\<in>D. x < st_fresh s1" using Suc.prems(2) insertValue_fresh [OF a(3)] by auto
    ultimately show ?thesis using Suc.IH a by simp
  qed
qed simp

lemma PushFrontList_loop_detach:
  "PushFrontList_loop (detach s D) l i e = Inr t \<Longrightarrow> \<forall>x\<in>D. x < st_fresh s \<Longrightarrow> \<exists>s'. PushFrontList_loop s l i e = Inr s' \<and> t = detach s' D"
proof (induction i arbitrary: s e)
  case (Suc i)
  have f: "st_fresh s \<notin> D" using Suc.prems(2) by auto
  obtain a s1 x where a: "e = Some a" "List_insertValue s l (st_Value s a) l = Inr (s1, x)"
      "PushFrontList_loop (detach s1 D) l i (Element_Prev (detach s1 D) a) = Inr t"
    using Suc.prems(1) by (cases e) (auto simp: insertValue_detach [OF f] map_sum_Inr split: option.splits sum.splits)
  show ?case
  proof (cases "a \<in> D")
    case True
    then have "i = 0" using a(3) by (cases i) (simp_all add: Element_detach)
    then show ?thesis using a by simp
  next
    case False
    then have "PushFrontList_loop (detach s1 D) l i (Element_Prev s1 a) = Inr t" using a(3) by (simp add: Element_detach)
    moreover have "\<forall>x\<in>D. x < st_fresh s1" using Suc.prems(2) insertValue_fresh [OF a(2)] by auto
    ultimately show ?thesis using Suc.IH a by simp
  qed
qed simp

text \<open>A method that is not passed a cut-off element does not notice that the pointers of these elements are cleared.\<close>

lemma List_Front_detach: "List_Front (detach s D) l = List_Front s l" "List_Back (detach s D) l = List_Back s l" "List_Len (detach s D) l = List_Len s l"
  by (simp_all add: List_Front_def List_Back_def List_Len_def)

lemma list_exec_detach:
  assumes "list_exec (detach s D) opr = Inr t" "\<forall>x\<in>D. x < st_fresh s" "\<forall>e\<in>set (op_elems opr). e \<notin> D"
  shows "\<exists>s'. list_exec s opr = Inr s' \<and> t = detach s' D"
proof -
  have f: "st_fresh s \<notin> D" using assms(2) by auto
  have z: "st_fresh (List_lazyInit s l) \<notin> D" for l using f by (simp add: lazyInit_fresh)
  note defs = List_PushFront_def List_PushBack_def List_InsertBefore_def List_InsertAfter_def List_Remove_def List_MoveToFront_def
    List_MoveToBack_def List_MoveBefore_def List_MoveAfter_def drop_result_def Let_def
  note moves = insertValue_detach [OF f] insertValue_detach [OF z] remove_detach move_detach Init_detach
  show ?thesis
  proof (cases opr)
    case Op_New
    have "fst (List_New (detach s D)) = detach (fst (List_New s)) D"
      using f by (auto simp: List_New_def List_Init_def Let_def fun_eq_iff intro!: list_store.equality)
    then show ?thesis using assms(1) Op_New by simp
  next
    case (Op_PushBackList l other)
    then show ?thesis using assms(1,2) PushBackList_loop_detach [of "List_lazyInit s l" D l]
      by (auto simp: List_PushBackList_def Let_def Init_detach List_Front_detach lazyInit_fresh)
  next
    case (Op_PushFrontList l other)
    then show ?thesis using assms(1,2) PushFrontList_loop_detach [of "List_lazyInit s l" D l]
      by (auto simp: List_PushFrontList_def Let_def Init_detach List_Front_detach lazyInit_fresh)
  qed (use assms(1,3) in \<open>auto simp: defs moves map_sum_Inr split: if_splits option.splits sum.splits\<close>)
qed

lemma sq_fresh_mono: "sq_fresh q \<le> sq_fresh (seq_step q opr)"
proof -
  have "sq_fresh q \<le> sq_fresh (fold (\<lambda>e q. sq_new q l (sq_val q e) (g q)) xs q)" for g l xs
  proof (induction xs arbitrary: q)
    case (Cons x xs)
    have "sq_fresh q \<le> sq_fresh (sq_new q l (sq_val q x) (g q))" by (simp add: sq_new_def)
    then show ?case using Cons.IH [of "sq_new q l (sq_val q x) (g q)"] by simp
  qed simp
  then show ?thesis by (cases opr) (auto simp: sq_new_def sq_set_def)
qed

lemma Init_abs:
  assumes "list_abs (detach s D) q" "sq_items q l = Some xs"
  shows "list_abs (detach (List_Init s l) (set xs \<union> D)) (sq_set q l [])"
proof -
  let ?s = "detach (List_Init s l) (set xs \<union> D)"
  have i: "list_inv (detach s D) (sq_items q)" using assms(1) by (simp add: list_abs_def)
  have r: "list_ring ?s l []" by (simp add: list_ring_def cycle_single List_Init_def)
  have "list_inv ?s ((sq_items q)(l \<mapsto> []))"
    by (rule list_inv_update [OF i assms(2) r]) (auto simp: List_Init_def)
  then show ?thesis using assms(1) by (simp add: list_abs_def sq_set_def List_Init_def)
qed

text \<open>The store represents \<open>q\<close>, when the pointers of the elements that were cut off are disregarded.\<close>

definition list_repr :: "'v list_store \<Rightarrow> addr list \<Rightarrow> 'v seqs \<Rightarrow> bool" where
  "list_repr s gone q \<longleftrightarrow> list_abs (detach s (set gone)) q \<and> (\<forall>x\<in>set gone. x < sq_fresh q)"

lemma list_exec_repr:
  assumes "list_repr s gone q" "\<forall>l\<in>set (op_lists opr). sq_items q l \<noteq> None" "\<forall>e\<in>set (op_elems opr). e \<notin> set gone"
  shows "\<exists>s'. list_exec s opr = Inr s' \<and> list_repr s' (op_cuts q opr @ gone) (seq_step q opr)"
proof (cases "\<exists>l. opr = Op_Init l")
  case True
  then obtain l xs where l: "opr = Op_Init l" "sq_items q l = Some xs" using assms(2) by auto
  have a: "list_abs (detach s (set gone)) q" using assms(1) by (simp add: list_repr_def)
  have "x < sq_fresh q" if "x \<in> set xs" for x
    using list_invD(5) [of "detach s (set gone)" "sq_items q" l xs x] l(2) that a by (simp add: list_abs_def)
  then show ?thesis using Init_abs [OF a l(2)] assms(1) l by (auto simp: list_repr_def sq_set_def)
next
  case False
  have a: "list_abs (detach s (set gone)) q" "\<forall>x\<in>set gone. x < st_fresh s" using assms(1) by (auto simp: list_repr_def list_abs_def)
  obtain t where t: "list_exec (detach s (set gone)) opr = Inr t" "list_abs t (seq_step q opr)"
    using list_exec_abs [OF a(1) assms(2)] False by blast
  obtain s' where s': "list_exec s opr = Inr s'" "t = detach s' (set gone)" using list_exec_detach [OF t(1) a(2) assms(3)] by blast
  have "op_cuts q opr = []" using False by (cases opr) auto
  moreover have "x < sq_fresh (seq_step q opr)" if "x \<in> set gone" for x
    using assms(1) that sq_fresh_mono [of q opr] by (auto simp: list_repr_def intro: less_le_trans)
  ultimately show ?thesis using s' t(2) by (simp add: list_repr_def)
qed

fun list_run :: "'v list_store \<Rightarrow> 'v list_op list \<Rightarrow> panic + 'v list_store" where
  "list_run s [] = Inr s"
| "list_run s (opr # oprs) = (case list_exec s opr of Inl e \<Rightarrow> Inl e | Inr s \<Rightarrow> list_run s oprs)"

text \<open>
  Every operation is called on lists that exist when it is called, and is passed no element that an \<open>Init\<close> has cut off; those
  elements are collected.
\<close>

fun ops_ok :: "'v seqs \<Rightarrow> addr list \<Rightarrow> 'v list_op list \<Rightarrow> bool" where
  "ops_ok q gone [] \<longleftrightarrow> True"
| "ops_ok q gone (opr # oprs) \<longleftrightarrow>
     list_all (\<lambda>l. sq_items q l \<noteq> None) (op_lists opr) \<and> list_all (\<lambda>e. e \<notin> set gone) (op_elems opr) \<and>
     ops_ok (seq_step q opr) (op_cuts q opr @ gone) oprs"

fun cut_off :: "'v seqs \<Rightarrow> addr list \<Rightarrow> 'v list_op list \<Rightarrow> addr list" where
  "cut_off q gone [] = gone"
| "cut_off q gone (opr # oprs) = cut_off (seq_step q opr) (op_cuts q opr @ gone) oprs"

definition empty_store :: "'v \<Rightarrow> 'v list_store" where
  "empty_store v = \<lparr>st_next = (\<lambda>_. None), st_prev = (\<lambda>_. None), st_list = (\<lambda>_. None), st_Value = (\<lambda>_. v), st_len = (\<lambda>_. 0), st_fresh = 0\<rparr>"

definition empty_seqs :: "'v \<Rightarrow> 'v seqs" where
  "empty_seqs v = \<lparr>sq_items = Map.empty, sq_val = (\<lambda>_. v), sq_fresh = 0\<rparr>"

lemma empty_abs: "list_abs (empty_store v) (empty_seqs v)"
  by (simp add: list_abs_def list_inv_def empty_store_def empty_seqs_def)

lemma list_run_repr:
  "list_repr s gone q \<Longrightarrow> ops_ok q gone oprs \<Longrightarrow>
    \<exists>s'. list_run s oprs = Inr s' \<and> list_repr s' (cut_off q gone oprs) (foldl seq_step q oprs)"
proof (induction oprs arbitrary: s q gone)
  case (Cons opr oprs)
  then have "\<forall>l\<in>set (op_lists opr). sq_items q l \<noteq> None" "\<forall>e\<in>set (op_elems opr). e \<notin> set gone" by (simp_all add: list_all_iff)
  from list_exec_repr [OF Cons.prems(1) this] obtain s1 where
    s1: "list_exec s opr = Inr s1" "list_repr s1 (op_cuts q opr @ gone) (seq_step q opr)" by blast
  then show ?case using Cons.IH [OF s1(2)] Cons.prems(2) by simp
qed simp

lemma list_run_abs:
  assumes "list_abs s q" "ops_ok q [] oprs"
  shows "\<exists>s'. list_run s oprs = Inr s' \<and> list_abs (detach s' (set (cut_off q [] oprs))) (foldl seq_step q oprs)"
  using list_run_repr [of s "[]" q oprs] assms by (auto simp: list_repr_def)

text \<open>Following \<open>Next\<close> (\<open>Prev\<close>) from an element for at most \<open>n\<close> steps.\<close>

fun list_walk :: "(addr \<Rightarrow> addr option) \<Rightarrow> nat \<Rightarrow> addr option \<Rightarrow> addr list" where
  "list_walk f (Suc n) (Some e) = e # list_walk f n (f e)"
| "list_walk f _ _ = []"

lemma walk_Next:
  assumes "list_abs s q" "sq_items q l = Some (us @ vs)" "length vs \<le> n"
  shows "list_walk (Element_Next s) n (if vs = [] then None else Some (hd vs)) = vs"
  using assms(2,3)
proof (induction vs arbitrary: us n)
  case (Cons v vs)
  obtain k where n: "n = Suc k" "length vs \<le> k" using Cons.prems(2) by (cases n) auto
  have "Element_Next s v = (if vs = [] then None else Some (hd vs))"
    using Element_Next_abs [OF assms(1) Cons.prems(1)] by (auto split: list.split)
  then show ?case using Cons.IH [of "us @ [v]" k] Cons.prems(1) n by simp
qed (cases n; simp)

lemma walk_Prev:
  assumes "list_abs s q" "sq_items q l = Some (rev vs @ us)" "length vs \<le> n"
  shows "list_walk (Element_Prev s) n (if vs = [] then None else Some (hd vs)) = vs"
  using assms(2,3)
proof (induction vs arbitrary: us n)
  case (Cons v vs)
  obtain k where n: "n = Suc k" "length vs \<le> k" using Cons.prems(2) by (cases n) auto
  have "Element_Prev s v = (if vs = [] then None else Some (hd vs))"
    using Element_Prev_abs [OF assms(1), of l "rev vs" v us] Cons.prems(1) by (simp add: last_rev)
  then show ?case using Cons.IH [of "v # us" k] Cons.prems(1) n by simp
qed (cases n; simp)

lemma list_walk_cong: "\<forall>x\<in>set (list_walk g n e). f x = g x \<Longrightarrow> list_walk f n e = list_walk g n e"
  by (induction g n e rule: list_walk.induct) auto

lemma walks_abs:
  assumes "list_abs s q" "sq_items q l = Some xs" "length xs \<le> n"
  shows "List_Len s l = int (length xs)" "list_walk (Element_Next s) n (List_Front s l) = xs" "list_walk (Element_Prev s) n (List_Back s l) = rev xs"
  using Front_Back_abs [OF assms(1,2)] walk_Next [OF assms(1), of l "[]" xs n] walk_Prev [OF assms(1), of l "rev xs" "[]" n] assms(2,3)
  by (auto simp: hd_rev)

text \<open>Reading a list does not meet the elements that were cut off.\<close>

lemma walks_detach:
  assumes "list_abs (detach s D) q" "sq_items q l = Some xs"
  shows "List_Len s l = int (length xs) \<and> list_walk (Element_Next s) (length xs) (List_Front s l) = xs \<and>
    list_walk (Element_Prev s) (length xs) (List_Back s l) = rev xs"
proof -
  have "x \<notin> D" if "x \<in> set xs" for x using list_absD(4) [OF assms, of x] that by (auto split: if_splits)
  then have "\<forall>x\<in>set xs. Element_Next s x = Element_Next (detach s D) x \<and> Element_Prev s x = Element_Prev (detach s D) x"
    by (simp add: Element_detach)
  moreover note w = walks_abs [OF assms order.refl, unfolded List_Front_detach]
  ultimately show ?thesis
    using list_walk_cong [of "Element_Next (detach s D)" "length xs" "List_Front s l" "Element_Next s"]
      list_walk_cong [of "Element_Prev (detach s D)" "length xs" "List_Back s l" "Element_Prev s"] by simp
qed

lemma Init_leaves_owners:
  "\<exists>t. list_exec (fst (List_New (empty_store (0::int)))) (Op_PushBack 0 5) = Inr t \<and> List_Len (List_Init t 0) 0 = 0 \<and>
     (\<exists>t'. List_Remove (List_Init t 0) 0 1 = Inr (t', 5) \<and> List_Len t' 0 = - 1)"
  by (simp add: empty_store_def List_New_def List_Init_def List_PushBack_def List_lazyInit_def List_insertValue_def List_insert_def
      List_Len_def List_Remove_def List_remove_def drop_result_def Let_def)

section \<open>Properties\<close>

text \<open>
  C16: linked lists refine sequences. Starting from a store and sequences it represents, any sequence
  of method calls on existing lists, \<open>Init\<close> included, with any elements, also removed ones and those of other lists, but
  none that an \<open>Init\<close> has cut off, runs without a nil dereference and ends in a store that represents the result of the same
  operations on the sequences, with the values of the elements. Every list then has the length of its sequence, and the loops along
  \<open>Next\<close> and \<open>Prev\<close> visit it. The condition on \<open>Init\<close> is needed: it leaves the \<open>list\<close> pointers of the elements in place, and a \<open>Remove\<close> of
  such an element makes the length of the list negative.
\<close>

theorem list_refines_sequences:
  assumes "list_abs s q" "ops_ok q [] oprs"
  shows "\<exists>s'. list_run s oprs = Inr s' \<and> list_abs (detach s' (set (cut_off q [] oprs))) (foldl seq_step q oprs) \<and>
    (\<forall>l xs. sq_items (foldl seq_step q oprs) l = Some xs \<longrightarrow>
       List_Len s' l = int (length xs) \<and> list_walk (Element_Next s') (length xs) (List_Front s' l) = xs \<and>
       list_walk (Element_Prev s') (length xs) (List_Back s' l) = rev xs)"
  using list_run_abs [OF assms] walks_detach by blast

theorem list_refines_sequences_witness:
  "\<exists>s. list_run (empty_store (0::int)) [Op_New, Op_PushBack 0 5, Op_PushFront 0 7, Op_MoveToBack 0 2, Op_Init 0, Op_PushBack 0 9, Op_PushBackList 0 0] = Inr s \<and>
     list_walk (Element_Next s) 2 (List_Front s 0) = [3, 4]"
proof -
  let ?ops = "[Op_New, Op_PushBack 0 (5::int), Op_PushFront 0 7, Op_MoveToBack 0 2, Op_Init 0, Op_PushBack 0 9, Op_PushBackList 0 0]"
  have o: "ops_ok (empty_seqs 0) [] ?ops" by (simp add: empty_seqs_def sq_new_def sq_set_def)
  have i: "sq_items (foldl seq_step (empty_seqs 0) ?ops) 0 = Some [3, 4]" by (simp add: empty_seqs_def sq_new_def sq_set_def)
  obtain s where s: "list_run (empty_store 0) ?ops = Inr s" "\<forall>l xs. sq_items (foldl seq_step (empty_seqs 0) ?ops) l = Some xs \<longrightarrow>
      list_walk (Element_Next s) (length xs) (List_Front s l) = xs"
    using list_refines_sequences [OF empty_abs o] by blast
  have "list_walk (Element_Next s) (length [3::addr, 4]) (List_Front s 0) = [3, 4]" using s(2) i by blast
  then show ?thesis using s(1) by (intro exI [of _ s] conjI) (simp_all add: numeral_2_eq_2)
qed

text \<open>
  C17: reading a list. \<open>Len\<close> is the number of elements; the loop from \<open>Front\<close> along \<open>Next\<close> visits exactly
  the elements in order and ends, the loop from \<open>Back\<close> along \<open>Prev\<close> visits them in reverse; \<open>Remove\<close>
  returns the value of its element whether or not the element was in the list. \<open>Init\<close> however leaves the \<open>list\<close> pointers of the
  elements in place: a later \<open>Remove\<close> of the element of a list of one is carried out although the list is empty, and the length goes negative.
\<close>

theorem list_traversal:
  assumes "list_abs s q" "sq_items q l = Some xs" "length xs \<le> n"
  shows "List_Len s l = int (length xs) \<and> list_walk (Element_Next s) n (List_Front s l) = xs \<and>
    list_walk (Element_Prev s) n (List_Back s l) = rev xs \<and>
    (\<exists>s'. List_Remove s l e = Inr (s', sq_val q e) \<and> list_abs s' (sq_set q l (remove1 e xs))) \<and>
    (\<exists>t. list_exec (fst (List_New (empty_store (0::int)))) (Op_PushBack 0 5) = Inr t \<and> List_Len (List_Init t 0) 0 = 0 \<and>
       (\<exists>t'. List_Remove (List_Init t 0) 0 1 = Inr (t', 5) \<and> List_Len t' 0 = - 1))"
  using Init_leaves_owners walks_abs [OF assms] Remove_abs [OF assms(1,2), of e] assms(2) by auto

theorem list_traversal_witness:
  "\<exists>s. list_abs s (foldl seq_step (empty_seqs (0::int)) [Op_New, Op_PushBack 0 5, Op_PushFront 0 7]) \<and>
     list_walk (Element_Next s) 9 (List_Front s 0) = [2, 1]"
proof -
  let ?q = "foldl seq_step (empty_seqs (0::int)) [Op_New, Op_PushBack 0 5, Op_PushFront 0 7]"
  have i: "sq_items ?q 0 = Some [2, 1]" by (simp add: empty_seqs_def sq_new_def)
  obtain s where "list_abs s ?q"
    using list_run_abs [OF empty_abs, of 0 "[Op_New, Op_PushBack 0 (5::int), Op_PushFront 0 7]"]
    by (auto simp del: foldl.simps seq_step.simps simp: empty_seqs_def sq_new_def seq_step.simps)
  then show ?thesis using list_traversal [OF _ i, of s 9] by auto
qed

end
