(* ===== verification/Container_Ring.thy ===== *)
theory Container_Ring
  imports Linked_Rings
begin

text \<open>
  Package \<open>container/ring\<close> (\<open>src/container/ring/ring.go\<close>), in a store of the same kind as that of the
  lists. Methods initialise a zero ring on first use, so they return the store. \<open>Len\<close> and \<open>Do\<close> walk
  along \<open>next\<close> until they meet their start, which need not happen for an arbitrary store: their
  loops are partial functions, \<open>None\<close> where the walk does not end.
\<close>

section \<open>The code\<close>

record 'v ring_store =
  rg_next :: "addr \<Rightarrow> addr option"
  rg_prev :: "addr \<Rightarrow> addr option"
  rg_Value :: "addr \<Rightarrow> 'v"
  rg_fresh :: addr

definition Ring_init :: "'v ring_store \<Rightarrow> addr \<Rightarrow> 'v ring_store" where
  "Ring_init s r =
     (let s = s\<lparr>rg_next := (rg_next s)(r := Some r)\<rparr>
      in s\<lparr>rg_prev := (rg_prev s)(r := Some r)\<rparr>)"

definition Ring_Next :: "'v ring_store \<Rightarrow> addr \<Rightarrow> 'v ring_store \<times> addr option" where
  "Ring_Next s r = (if rg_next s r = None then (Ring_init s r, Some r) else (s, rg_next s r))"

definition Ring_Prev :: "'v ring_store \<Rightarrow> addr \<Rightarrow> 'v ring_store \<times> addr option" where
  "Ring_Prev s r = (if rg_next s r = None then (Ring_init s r, Some r) else (s, rg_prev s r))"

text \<open>The loop \<open>r = r.prev\<close> (\<open>r = r.next\<close>), run \<open>k\<close> times.\<close>

fun Ring_follow :: "(addr \<Rightarrow> addr option) \<Rightarrow> nat \<Rightarrow> addr option \<Rightarrow> panic + addr option" where
  "Ring_follow f 0 r = Inr r"
| "Ring_follow f (Suc k) None = Inl NilDereference"
| "Ring_follow f (Suc k) (Some r) = Ring_follow f k (f r)"

definition Ring_Move :: "'v ring_store \<Rightarrow> addr \<Rightarrow> int \<Rightarrow> panic + 'v ring_store \<times> addr option" where
  "Ring_Move s r n =
     (if rg_next s r = None then Inr (Ring_init s r, Some r)
      else
        case (if n < 0 then Ring_follow (rg_prev s) (nat (- n)) (Some r)
              else if n > 0 then Ring_follow (rg_next s) (nat n) (Some r)
              else Inr (Some r)) of
          Inl e \<Rightarrow> Inl e
        | Inr q \<Rightarrow> Inr (s, q))"

text \<open>
  \<open>new(Ring)\<close> and \<open>&Ring{prev: p}\<close> hand out the next address; \<open>v\<close> is the nil value that a new ring
  element holds.
\<close>

definition Ring_alloc :: "'v ring_store \<Rightarrow> 'v \<Rightarrow> addr option \<Rightarrow> 'v ring_store \<times> addr" where
  "Ring_alloc s v p =
     (let a = rg_fresh s in
      (s\<lparr>rg_next := (rg_next s)(a := None), rg_prev := (rg_prev s)(a := p), rg_Value := (rg_Value s)(a := v),
         rg_fresh := Suc a\<rparr>, a))"

fun Ring_New_loop :: "'v ring_store \<Rightarrow> 'v \<Rightarrow> nat \<Rightarrow> addr \<Rightarrow> 'v ring_store \<times> addr" where
  "Ring_New_loop s v 0 p = (s, p)"
| "Ring_New_loop s v (Suc k) p =
     (let (s, a) = Ring_alloc s v (Some p); s = s\<lparr>rg_next := (rg_next s)(p := Some a)\<rparr>
      in Ring_New_loop s v k a)"

definition Ring_New :: "'v ring_store \<Rightarrow> 'v \<Rightarrow> int \<Rightarrow> 'v ring_store \<times> addr option" where
  "Ring_New s v n =
     (if n \<le> 0 then (s, None)
      else
        let (s, r) = Ring_alloc s v None;
            (s, p) = Ring_New_loop s v (nat (n - 1)) r;
            s = s\<lparr>rg_next := (rg_next s)(p := Some r)\<rparr>;
            s = s\<lparr>rg_prev := (rg_prev s)(r := Some p)\<rparr>
        in (s, Some r))"

definition Ring_Link :: "'v ring_store \<Rightarrow> addr \<Rightarrow> addr option \<Rightarrow> panic + 'v ring_store \<times> addr option" where
  "Ring_Link st r so =
     (let (st, n) = Ring_Next st r in
      case so of
        None \<Rightarrow> Inr (st, n)
      | Some s \<Rightarrow>
          let (st, p) = Ring_Prev st s;
              st = st\<lparr>rg_next := (rg_next st)(r := Some s)\<rparr>;
              st = st\<lparr>rg_prev := (rg_prev st)(s := Some r)\<rparr> in
          (case n of
             None \<Rightarrow> Inl NilDereference
           | Some n' \<Rightarrow>
               let st = st\<lparr>rg_prev := (rg_prev st)(n' := p)\<rparr> in
               (case p of
                  None \<Rightarrow> Inl NilDereference
                | Some p' \<Rightarrow> Inr (st\<lparr>rg_next := (rg_next st)(p' := n)\<rparr>, n))))"

definition Ring_Unlink :: "'v ring_store \<Rightarrow> addr \<Rightarrow> int \<Rightarrow> panic + 'v ring_store \<times> addr option" where
  "Ring_Unlink s r n =
     (if n \<le> 0 then Inr (s, None)
      else case Ring_Move s r (wrap64 (n + 1)) of Inl e \<Rightarrow> Inl e | Inr (s, q) \<Rightarrow> Ring_Link s r q)"

partial_function (option) Ring_Len_loop :: "'v ring_store \<Rightarrow> addr \<Rightarrow> addr option \<Rightarrow> int \<Rightarrow> (panic + int) option" where
  "Ring_Len_loop s r p n =
     (if p = Some r then Some (Inr n)
      else case p of
             None \<Rightarrow> Some (Inl NilDereference)
           | Some a \<Rightarrow> Ring_Len_loop s r (rg_next s a) (n + 1))"

definition Ring_Len :: "'v ring_store \<Rightarrow> addr option \<Rightarrow> (panic + int) option" where
  "Ring_Len s ro =
     (case ro of
        None \<Rightarrow> Some (Inr 0)
      | Some r \<Rightarrow> let (s, p) = Ring_Next s r in Ring_Len_loop s r p 1)"

text \<open>The callback of \<open>Do\<close> acts on a state \<open>'st\<close> of the client; the ring itself it must leave alone.\<close>

partial_function (option) Ring_Do_loop ::
  "'v ring_store \<Rightarrow> ('v \<Rightarrow> 'st \<Rightarrow> 'st) \<Rightarrow> addr \<Rightarrow> addr option \<Rightarrow> 'st \<Rightarrow> (panic + 'st) option" where
  "Ring_Do_loop s f r p x =
     (if p = Some r then Some (Inr x)
      else case p of
             None \<Rightarrow> Some (Inl NilDereference)
           | Some a \<Rightarrow> Ring_Do_loop s f r (rg_next s a) (f (rg_Value s a) x))"

definition Ring_Do :: "'v ring_store \<Rightarrow> ('v \<Rightarrow> 'st \<Rightarrow> 'st) \<Rightarrow> addr option \<Rightarrow> 'st \<Rightarrow> (panic + 'st) option" where
  "Ring_Do s f ro x =
     (case ro of
        None \<Rightarrow> Some (Inr x)
      | Some r \<Rightarrow>
          let x = f (rg_Value s r) x; (s, p) = Ring_Next s r
          in Ring_Do_loop s f r p x)"

section \<open>Rings\<close>

text \<open>The ring entered at \<open>r\<close>; a zero element is a ring of its own.\<close>

definition ring_of :: "'v ring_store \<Rightarrow> addr \<Rightarrow> addr list \<Rightarrow> bool" where
  "ring_of s r c \<longleftrightarrow> cycle (rg_next s) (rg_prev s) (r # c) \<or> rg_next s r = None \<and> c = []"

lemma Ring_Next_cases:
  assumes "ring_of s r c"
  obtains s' where "Ring_Next s r = (s', Some (hd (c @ [r])))" "cycle (rg_next s') (rg_prev s') (r # c)"
    "\<And>x. x \<noteq> r \<Longrightarrow> rg_next s' x = rg_next s x \<and> rg_prev s' x = rg_prev s x" "rg_Value s' = rg_Value s"
    "cycle (rg_next s) (rg_prev s) (r # c) \<Longrightarrow> s' = s"
proof (cases "rg_next s r = None")
  case True
  then have c: "c = []" using assms cycle_next by (fastforce simp: ring_of_def)
  show thesis
    using True c by (intro that [of "Ring_init s r"]) (auto simp: Ring_Next_def Ring_init_def cycle_single)
next
  case False
  then have "cycle (rg_next s) (rg_prev s) (r # c)" using assms by (auto simp: ring_of_def)
  then show thesis using False cycle_next [of "rg_next s" "rg_prev s" r c] by (intro that [of s]) (auto simp: Ring_Next_def)
qed

lemma Ring_Prev_cases:
  assumes "ring_of s r c"
  obtains s' where "Ring_Prev s r = (s', Some (last (r # c)))" "cycle (rg_next s') (rg_prev s') (r # c)"
    "\<And>x. x \<noteq> r \<Longrightarrow> rg_next s' x = rg_next s x \<and> rg_prev s' x = rg_prev s x" "rg_Value s' = rg_Value s"
    "cycle (rg_next s) (rg_prev s) (r # c) \<Longrightarrow> s' = s"
proof (cases "rg_next s r = None")
  case True
  then have c: "c = []" using assms cycle_next by (fastforce simp: ring_of_def)
  show thesis
    using True c by (intro that [of "Ring_init s r"]) (auto simp: Ring_Prev_def Ring_init_def cycle_single)
next
  case False
  then have "cycle (rg_next s) (rg_prev s) (r # c)" using assms by (auto simp: ring_of_def)
  then show thesis using False cycle_prev [of "rg_next s" "rg_prev s" r c] by (intro that [of s]) (auto simp: Ring_Prev_def)
qed

text \<open>Where the walks lead.\<close>

lemma cycle_nth_next:
  assumes "cycle n p c" "i < length c"
  shows "n (c ! i) = Some (c ! ((i + 1) mod length c))"
proof -
  have "cycle n p (c ! i # drop (i + 1) c @ take i c)"
    using assms cycle_rotate [of n p "take i c" "drop i c"] Cons_nth_drop_Suc [OF assms(2)] by (metis append_Cons append_take_drop_id Suc_eq_plus1)
  then have "n (c ! i) = Some (hd ((drop (i + 1) c @ take i c) @ [c ! i]))" by (rule cycle_next)
  also have "hd ((drop (i + 1) c @ take i c) @ [c ! i]) = c ! ((i + 1) mod length c)"
  proof (cases "i + 1 < length c")
    case True
    then show ?thesis by (simp add: hd_drop_conv_nth)
  next
    case False
    then have "length c = i + 1" using assms(2) by simp
    then have "take i c @ [c ! i] = c" by (metis Suc_eq_plus1 lessI order_refl take_Suc_conv_app_nth take_all)
    then show ?thesis using \<open>length c = i + 1\<close> hd_conv_nth [of c] by auto
  qed
  finally show ?thesis .
qed

lemma cycle_rev: "cycle n p c \<Longrightarrow> cycle p n (rev c)"
  by (auto simp: cycle_def linked_def link_def successively_rev hd_rev last_rev elim: successively_mono)

lemma Ring_follow_cycle:
  assumes "cycle n p c" "i < length c"
  shows "Ring_follow n k (Some (c ! i)) = Inr (Some (c ! ((i + k) mod length c)))"
  using assms(2)
proof (induction k arbitrary: i)
  case (Suc k)
  have "(i + 1) mod length c < length c" using Suc.prems by (intro mod_less_divisor) linarith
  from Suc.IH [OF this] show ?case using Suc.prems by (simp add: cycle_nth_next [OF assms(1)] mod_simps)
qed simp

lemma Ring_Move_eq:
  assumes "ring_of s r c"
  obtains s' where "Ring_Move s r n = Inr (s', Some ((r # c) ! nat (n mod int (length (r # c)))))"
    "cycle (rg_next s') (rg_prev s') (r # c)" "\<And>x. x \<noteq> r \<Longrightarrow> rg_next s' x = rg_next s x \<and> rg_prev s' x = rg_prev s x"
    "rg_Value s' = rg_Value s" "cycle (rg_next s) (rg_prev s) (r # c) \<Longrightarrow> s' = s"
proof (cases "rg_next s r = None")
  case True
  then have c: "c = []" using assms cycle_next by (fastforce simp: ring_of_def)
  show thesis
    using True c by (intro that [of "Ring_init s r"]) (auto simp: Ring_Move_def Ring_init_def cycle_single)
next
  case False
  then have cy: "cycle (rg_next s) (rg_prev s) (r # c)" using assms by (auto simp: ring_of_def)
  let ?L = "length (r # c)"
  have "Ring_Move s r n = Inr (s, Some ((r # c) ! nat (n mod int ?L)))"
  proof (cases "n < 0")
    case True
    have "cycle (rg_prev s) (rg_next s) (r # rev c)"
      using cycle_rev [OF cy] cycle_rotate [of "rg_prev s" "rg_next s" "rev c" "[r]"] by simp
    from Ring_follow_cycle [OF this, of 0 "nat (- n)"]
    have "Ring_follow (rg_prev s) (nat (- n)) (Some r) = Inr (Some ((r # rev c) ! (nat (- n) mod ?L)))" by simp
    moreover have "(r # rev c) ! (nat (- n) mod ?L) = (r # c) ! nat (n mod int ?L)"
    proof -
      define j where "j = nat (- n) mod ?L"
      have j: "int j = (- n) mod int ?L" using True by (simp add: j_def zmod_int)
      have "j < ?L" by (simp add: j_def)
      show ?thesis
      proof (cases "j = 0")
        case True
        then have "(- n) mod int ?L = 0" using j by linarith
        then have "n mod int ?L = 0" unfolding mod_eq_0_iff_dvd by simp
        then show ?thesis using True by (simp add: j_def)
      next
        case False
        then have "n mod int ?L = int ?L - int j" using j by (simp add: zmod_zminus1_eq_if split: if_splits)
        then have "nat (n mod int ?L) = ?L - j" using \<open>j < ?L\<close> by (simp add: nat_diff_distrib)
        then show ?thesis unfolding j_def [symmetric] using False \<open>j < ?L\<close> by (simp add: nth_Cons' rev_nth)
      qed
    qed
    ultimately show ?thesis using False True by (auto simp: Ring_Move_def)
  next
    case n: False
    have "nat n mod ?L = nat (n mod int ?L)" using n by (simp only: nat_mod_distrib of_nat_0_le_iff not_less nat_int)
    then show ?thesis using False n Ring_follow_cycle [OF cy, of 0 "nat n"] by (cases "n = 0") (auto simp: Ring_Move_def)
  qed
  then show thesis using cy by (intro that [of s]) auto
qed

lemma Ring_Len_loop_eq:
  assumes "cycle (rg_next s) (rg_prev s) (r # us @ vs)"
  shows "Ring_Len_loop s r (Some (hd (vs @ [r]))) n = Some (Inr (n + int (length vs)))"
  using assms
proof (induction vs arbitrary: us n)
  case (Cons v vs)
  have v: "v \<noteq> r" using cycle_distinct [OF Cons.prems] by auto
  have "cycle (rg_next s) (rg_prev s) (v # vs @ r # us)"
    using Cons.prems cycle_rotate [of "rg_next s" "rg_prev s" "r # us" "v # vs"] by simp
  then have "rg_next s v = Some (hd (vs @ [r]))" using cycle_next by (cases vs) fastforce+
  then show ?case using Cons.IH [of "us @ [v]" "n + 1"] Cons.prems v by (simp add: Ring_Len_loop.simps [of s r "Some v"])
qed (simp add: Ring_Len_loop.simps)

lemma Ring_Do_loop_eq:
  assumes "cycle (rg_next s) (rg_prev s) (r # us @ vs)"
  shows "Ring_Do_loop s f r (Some (hd (vs @ [r]))) x = Some (Inr (fold f (map (rg_Value s) vs) x))"
  using assms
proof (induction vs arbitrary: us x)
  case (Cons v vs)
  have v: "v \<noteq> r" using cycle_distinct [OF Cons.prems] by auto
  have "cycle (rg_next s) (rg_prev s) (v # vs @ r # us)"
    using Cons.prems cycle_rotate [of "rg_next s" "rg_prev s" "r # us" "v # vs"] by simp
  then have "rg_next s v = Some (hd (vs @ [r]))" using cycle_next by (cases vs) fastforce+
  then show ?case using Cons.IH [of "us @ [v]"] Cons.prems v by (simp add: Ring_Do_loop.simps [of s f r "Some v"])
qed (simp add: Ring_Do_loop.simps)

section \<open>Linking\<close>

lemma Ring_Link_eq:
  assumes "Ring_Next st r = (st1, Some m)" "Ring_Prev st1 t = (st2, Some q)"
  shows "Ring_Link st r (Some t) =
    Inr (st2\<lparr>rg_next := (rg_next st2)(r := Some t, q := Some m), rg_prev := (rg_prev st2)(t := Some r, m := Some q)\<rparr>, Some m)"
  using assms by (simp add: Ring_Link_def Let_def)

lemma Ring_Link_join:
  assumes "ring_of s r us" "ring_of s t vs" "set (r # us) \<inter> set (t # vs) = {}"
  shows "\<exists>s'. Ring_Link s r (Some t) = Inr (s', Some (hd (us @ [r]))) \<and> cycle (rg_next s') (rg_prev s') (r # t # vs @ us) \<and> rg_Value s' = rg_Value s"
proof -
  obtain s1 where s1: "Ring_Next s r = (s1, Some (hd (us @ [r])))" "cycle (rg_next s1) (rg_prev s1) (r # us)"
      "\<And>x. x \<noteq> r \<Longrightarrow> rg_next s1 x = rg_next s x \<and> rg_prev s1 x = rg_prev s x" "rg_Value s1 = rg_Value s"
    by (rule Ring_Next_cases [OF assms(1)]) blast
  have f: "rg_next s1 x = rg_next s x \<and> rg_prev s1 x = rg_prev s x" if "x \<in> set (t # vs)" for x
    by (rule s1(3)) (use that assms(3) in auto)
  then have "cycle (rg_next s1) (rg_prev s1) (t # vs) = cycle (rg_next s) (rg_prev s) (t # vs)" by (intro cycle_cong) blast+
  then have "ring_of s1 t vs" using assms(2) f [of t] by (simp add: ring_of_def)
  then obtain s2 where s2: "Ring_Prev s1 t = (s2, Some (last (t # vs)))" "cycle (rg_next s2) (rg_prev s2) (t # vs)"
      "\<And>x. x \<noteq> t \<Longrightarrow> rg_next s2 x = rg_next s1 x \<and> rg_prev s2 x = rg_prev s1 x" "rg_Value s2 = rg_Value s1"
    by (rule Ring_Prev_cases) blast
  have "rg_next s2 x = rg_next s1 x \<and> rg_prev s2 x = rg_prev s1 x" if "x \<in> set (r # us)" for x
    by (rule s2(3)) (use that assms(3) in auto)
  then have "cycle (rg_next s2) (rg_prev s2) (r # us) = cycle (rg_next s1) (rg_prev s1) (r # us)" by (intro cycle_cong) blast+
  then have c: "cycle (rg_next s2) (rg_prev s2) (r # us)" using s1(2) by simp
  show ?thesis using Ring_Link_eq [OF s1(1) s2(1)] cycle_join [OF c s2(2) assms(3) refl refl] s1(4) s2(4) by simp
qed

lemma Ring_Link_cut:
  assumes "cycle (rg_next s) (rg_prev s) (r # us @ t # vs)" "us \<noteq> []"
  shows "\<exists>s'. Ring_Link s r (Some t) = Inr (s', Some (hd us)) \<and> cycle (rg_next s') (rg_prev s') (r # t # vs) \<and>
    cycle (rg_next s') (rg_prev s') us \<and> rg_Value s' = rg_Value s"
proof -
  have n: "Ring_Next s r = (s, Some (hd (us @ [t])))"
    using cycle_next [OF assms(1)] assms(2) by (simp add: Ring_Next_def)
  have "cycle (rg_next s) (rg_prev s) (t # vs @ r # us)"
    using assms(1) cycle_rotate [of "rg_next s" "rg_prev s" "r # us" "t # vs"] by simp
  then have p: "Ring_Prev s t = (s, Some (last (r # us)))"
    using cycle_next [of _ _ t] cycle_prev [of _ _ t] by (fastforce simp: Ring_Prev_def)
  have "cycle (rg_next s) (rg_prev s) ((r # us) @ t # vs)" using assms(1) by simp
  from cycle_cut(1) [OF this refl refl assms(2)] show ?thesis using Ring_Link_eq [OF n p] assms(2) by simp
qed

lemma Ring_Link_same:
  assumes "cycle (rg_next s) (rg_prev s) (r # t # vs)"
  shows "Ring_Link s r (Some t) = Inr (s, Some t)"
proof -
  have n: "Ring_Next s r = (s, Some t)" using cycle_next [OF assms] by (simp add: Ring_Next_def)
  have "cycle (rg_next s) (rg_prev s) (t # vs @ [r])"
    using assms cycle_rotate [of "rg_next s" "rg_prev s" "[r]" "t # vs"] by simp
  then have p: "Ring_Prev s t = (s, Some r)"
    using cycle_next [of _ _ t] cycle_prev [of _ _ t] by (fastforce simp: Ring_Prev_def)
  have "rg_next s r = Some t" "rg_prev s t = Some r" using n p cycle_next [OF assms] by (auto simp: Ring_Prev_def split: if_splits)
  then show ?thesis using Ring_Link_eq [OF n p] by (simp add: fun_upd_idem)
qed

lemma Ring_Link_self:
  assumes "cycle (rg_next s) (rg_prev s) (r # us)" "us \<noteq> []"
  shows "\<exists>s'. Ring_Link s r (Some r) = Inr (s', Some (hd us)) \<and> cycle (rg_next s') (rg_prev s') [r] \<and>
    cycle (rg_next s') (rg_prev s') us \<and> rg_Value s' = rg_Value s"
proof -
  have n: "Ring_Next s r = (s, Some (hd us))" using cycle_next [OF assms(1)] assms(2) by (simp add: Ring_Next_def)
  have p: "Ring_Prev s r = (s, Some (last us))" using cycle_prev [OF assms(1)] cycle_next [OF assms(1)] assms(2)
    by (simp add: Ring_Prev_def)
  let ?n = "(rg_next s)(r := Some r, last us := Some (hd us))" and ?p = "(rg_prev s)(r := Some r, hd us := Some (last us))"
  have d: "r \<notin> set us" "distinct us" using cycle_distinct [OF assms(1)] by auto
  have ne: "last us \<noteq> r" "hd us \<noteq> r" using d assms(2) hd_in_set last_in_set by metis+
  have "linked ?n ?p us = linked (rg_next s) (rg_prev s) us"
    using d last_notin_butlast [OF d(2) assms(2)] assms(2)
    by (intro linked_cong) (auto dest: in_set_butlastD in_set_tlD simp: neq_Nil_conv)
  moreover have "linked (rg_next s) (rg_prev s) us" using assms by (cases us) (simp_all add: cycle_def)
  ultimately have "cycle ?n ?p us" using assms(2) d by (simp add: cycle_def link_def)
  moreover have "cycle ?n ?p [r]" using ne by (simp add: cycle_single)
  ultimately show ?thesis using Ring_Link_eq [OF n p] by simp
qed

lemma Ring_Unlink_eq:
  assumes "ring_of s r c" "0 < n" "n < 2 ^ 63 - 1"
  defines "k \<equiv> nat (n mod int (length (r # c)))"
  shows "\<exists>s'. Ring_Unlink s r n = Inr (s', Some (hd (c @ [r]))) \<and> cycle (rg_next s') (rg_prev s') (r # drop k c) \<and>
    (k = 0 \<or> cycle (rg_next s') (rg_prev s') (take k c)) \<and> rg_Value s' = rg_Value s"
proof -
  let ?L = "int (length (r # c))"
  obtain s1 where s1: "Ring_Move s r (n + 1) = Inr (s1, Some ((r # c) ! nat ((n + 1) mod ?L)))" "cycle (rg_next s1) (rg_prev s1) (r # c)"
      "rg_Value s1 = rg_Value s"
    by (rule Ring_Move_eq [OF assms(1), of "n + 1"])
  have k1: "int k = n mod ?L" by (simp add: k_def)
  have "n mod ?L < ?L" by (rule pos_mod_bound) simp
  then have "k \<le> length c" unfolding k1 [symmetric] by simp
  note k = k1 this
  have m: "(n + 1) mod ?L = (int k + 1) mod ?L" unfolding k(1) by (simp add: mod_simps)
  consider "k = length c" "c = []" | "k = length c" "c \<noteq> []" | "k < length c" "k = 0" | "k < length c" "k > 0" using k(2) by linarith
  then have "\<exists>s'. Ring_Link s1 r (Some ((r # c) ! nat ((n + 1) mod ?L))) = Inr (s', Some (hd (c @ [r]))) \<and>
      cycle (rg_next s') (rg_prev s') (r # drop k c) \<and> (k = 0 \<or> cycle (rg_next s') (rg_prev s') (take k c)) \<and> rg_Value s' = rg_Value s1"
  proof cases
    case 1
    then have c: "rg_next s1 r = Some r" "rg_prev s1 r = Some r" using s1(2) by (simp_all add: cycle_single)
    then have "Ring_Link s1 r (Some r) = Inr (s1, Some r)"
      by (simp add: Ring_Link_def Ring_Next_def Ring_Prev_def fun_upd_idem)
    then show ?thesis using 1 s1(2) by simp
  next
    case 2
    then have "(n + 1) mod ?L = 0" unfolding m by (simp add: add.commute)
    then show ?thesis using 2 Ring_Link_self [OF s1(2)] by auto
  next
    case 3
    then have "(n + 1) mod ?L = 1" unfolding m by simp
    moreover obtain t vs where c: "c = t # vs" using 3 by (cases c) auto
    ultimately show ?thesis using Ring_Link_same [of s1 r t vs] s1(2) 3 by simp
  next
    case 4
    then have "(n + 1) mod ?L = int k + 1" unfolding m by simp
    then have t: "(r # c) ! nat ((n + 1) mod ?L) = c ! k" by (simp add: nat_add_distrib)
    have d: "drop k c = c ! k # drop (Suc k) c" using 4 by (simp add: Cons_nth_drop_Suc)
    have "cycle (rg_next s1) (rg_prev s1) (r # take k c @ c ! k # drop (Suc k) c)" using s1(2) d by (metis append_take_drop_id)
    from Ring_Link_cut [OF this] show ?thesis unfolding t d using 4 by (cases c) auto
  qed
  moreover have "wrap64 (n + 1) = n + 1" using assms(2,3) by (intro wrap64_small) simp_all
  ultimately show ?thesis using assms(2) s1 by (simp add: Ring_Unlink_def)
qed

lemma Ring_Unlink_ring:
  assumes "ring_of s r c" "0 < n" "n < 2 ^ 63 - 1"
  shows "let k = nat (n mod int (length (r # c))) in \<exists>s'. Ring_Unlink s r n = Inr (s', Some (hd (c @ [r]))) \<and> ring_of s' r (drop k c) \<and>
    (k = 0 \<or> ring_of s' (hd c) (tl (take k c))) \<and> rg_Value s' = rg_Value s"
proof -
  define k where "k = nat (n mod int (length (r # c)))"
  have "k > 0 \<Longrightarrow> c \<noteq> []" by (cases c) (auto simp: k_def)
  then have "k > 0 \<Longrightarrow> take k c = hd c # tl (take k c)" by (cases c; cases k) auto
  then show ?thesis
    using Ring_Unlink_eq [OF assms, folded k_def] unfolding Let_def k_def [symmetric] ring_of_def by (metis neq0_conv)
qed

text \<open>For the largest \<open>int\<close> the count that is moved wraps around, and the element \<open>2 ^ 63\<close> steps back is linked.\<close>

lemma Ring_Unlink_maxInt:
  assumes "cycle (rg_next s) (rg_prev s) [r, a, b]"
  shows "\<exists>s'. Ring_Unlink s r (2 ^ 63 - 1) = Inr (s', Some a) \<and> ring_of s' r [a, b]"
proof -
  have "ring_of s r [a, b]" using assms by (simp add: ring_of_def)
  then obtain s1 where s1: "Ring_Move s r (- (2 ^ 63)) = Inr (s1, Some ([r, a, b] ! nat (- (2 ^ 63) mod int (length [r, a, b]))))"
      "cycle (rg_next s) (rg_prev s) (r # [a, b]) \<Longrightarrow> s1 = s" by (rule Ring_Move_eq) blast
  have "nat (- (2 ^ 63) mod int (length [r, a, b])) = 1" by simp
  then have "Ring_Unlink s r (2 ^ 63 - 1) = Ring_Link s r (Some a)"
    using s1 assms by (simp add: Ring_Unlink_def wrap64_def)
  then show ?thesis using Ring_Link_same [OF assms] \<open>ring_of s r [a, b]\<close> by simp
qed

lemma Ring_New_loop_eq:
  assumes "Ring_New_loop s v k p = (s', q)" "p < rg_fresh s"
  shows "rg_fresh s' = rg_fresh s + k \<and> q = last (p # [rg_fresh s..<rg_fresh s + k]) \<and>
    linked (rg_next s') (rg_prev s') (p # [rg_fresh s..<rg_fresh s + k]) \<and>
    (\<forall>x<rg_fresh s. (x \<noteq> p \<longrightarrow> rg_next s' x = rg_next s x) \<and> rg_prev s' x = rg_prev s x \<and> rg_Value s' x = rg_Value s x)"
  using assms
proof (induction k arbitrary: s p)
  case (Suc k)
  let ?f = "rg_fresh s"
  let ?s = "s\<lparr>rg_prev := (rg_prev s)(?f := Some p), rg_Value := (rg_Value s)(?f := v), rg_fresh := Suc ?f, rg_next := (rg_next s)(?f := None, p := Some ?f)\<rparr>"
  have "Ring_New_loop ?s v k ?f = (s', q)" using Suc.prems(1) by (simp add: Ring_alloc_def Let_def)
  from Suc.IH [OF this] have ih: "rg_fresh s' = Suc ?f + k" "q = last (?f # [Suc ?f..<Suc ?f + k])"
      "linked (rg_next s') (rg_prev s') (?f # [Suc ?f..<Suc ?f + k])"
      "\<forall>x<Suc ?f. (x \<noteq> ?f \<longrightarrow> rg_next s' x = rg_next ?s x) \<and> rg_prev s' x = rg_prev ?s x \<and> rg_Value s' x = rg_Value ?s x"
    by simp_all
  have u: "[?f..<?f + Suc k] = ?f # [Suc ?f..<Suc ?f + k]" by (simp add: upt_rec)
  have "link (rg_next s') (rg_prev s') p ?f" using ih(4) Suc.prems(2) by (auto simp: link_def less_Suc_eq)
  then show ?case unfolding u using ih Suc.prems(2) by (auto simp: less_Suc_eq)
qed simp

lemma Ring_New_eq:
  fixes s :: "'v ring_store"
  assumes "0 < n"
  defines "f \<equiv> rg_fresh s"
  shows "\<exists>s'. Ring_New s v n = (s', Some f) \<and> cycle (rg_next s') (rg_prev s') [f..<f + nat n] \<and> rg_fresh s' = f + nat n \<and>
    (\<forall>x<f. rg_next s' x = rg_next s x \<and> rg_prev s' x = rg_prev s x \<and> rg_Value s' x = rg_Value s x)"
proof -
  obtain k where k: "nat n = Suc k" "nat (n - 1) = k" using assms(1) by (cases "nat n") auto
  let ?s = "s\<lparr>rg_next := (rg_next s)(f := None), rg_prev := (rg_prev s)(f := None), rg_Value := (rg_Value s)(f := v), rg_fresh := Suc f\<rparr>"
  obtain s1 q where l: "Ring_New_loop ?s v k f = (s1, q)" by fastforce
  then have e: "Ring_New s v n = (s1\<lparr>rg_next := (rg_next s1)(q := Some f), rg_prev := (rg_prev s1)(f := Some q)\<rparr>, Some f)"
    using assms(1) k by (simp add: Ring_New_def Ring_alloc_def f_def Let_def)
  have u: "[f..<f + nat n] = f # [Suc f..<Suc f + k]" using k(1) by (simp add: upt_rec)
  note i = Ring_New_loop_eq [OF l]
  have q: "q = last [f..<f + nat n]" "q \<notin> set (butlast [f..<f + nat n])" "q \<in> set [f..<f + nat n]"
    using i last_notin_butlast [of "[f..<f + nat n]"] last_in_set [of "[f..<f + nat n]"] unfolding u by auto
  have "linked ((rg_next s1)(q := Some f)) ((rg_prev s1)(f := Some q)) [f..<f + nat n] = linked (rg_next s1) (rg_prev s1) [f..<f + nat n]"
    using q(2) by (intro linked_cong) (auto simp: u)
  then have "cycle ((rg_next s1)(q := Some f)) ((rg_prev s1)(f := Some q)) [f..<f + nat n]"
    using i q(1) by (simp add: cycle_def link_def u)
  moreover have "f \<le> q" using q(3) by simp
  ultimately show ?thesis using e i k(1) by auto
qed

section \<open>Properties\<close>

text \<open>
  C18: \<open>Link\<close>. Two different rings become one, with the second ring inserted after the start of the
  first; two elements of the same ring cut out the elements between them, which form a ring of
  their own; linking an element to itself takes all others out. The result is the old successor,
  and no value changes.
\<close>

theorem Ring_Link_spec:
  "(ring_of s r us \<and> ring_of s t vs \<and> set (r # us) \<inter> set (t # vs) = {} \<longrightarrow>
      (\<exists>s'. Ring_Link s r (Some t) = Inr (s', Some (hd (us @ [r]))) \<and> ring_of s' r (t # vs @ us) \<and> rg_Value s' = rg_Value s)) \<and>
   (ring_of s r (us @ t # vs) \<and> us \<noteq> [] \<longrightarrow>
      (\<exists>s'. Ring_Link s r (Some t) = Inr (s', Some (hd us)) \<and> ring_of s' r (t # vs) \<and> ring_of s' (hd us) (tl us) \<and> rg_Value s' = rg_Value s)) \<and>
   (ring_of s r us \<and> us \<noteq> [] \<longrightarrow>
      (\<exists>s'. Ring_Link s r (Some r) = Inr (s', Some (hd us)) \<and> ring_of s' r [] \<and> ring_of s' (hd us) (tl us) \<and> rg_Value s' = rg_Value s))"
  using Ring_Link_join [of s r us t vs] Ring_Link_cut [of s r us t vs] Ring_Link_self [of s r us]
  by (fastforce simp: ring_of_def)

definition zero_rings :: "int ring_store" where
  "zero_rings = \<lparr>rg_next = (\<lambda>_. None), rg_prev = (\<lambda>_. None), rg_Value = int, rg_fresh = 5\<rparr>"

theorem Ring_Link_spec_witness:
  "\<exists>s'. Ring_Link zero_rings 0 (Some 1) = Inr (s', Some 0) \<and> ring_of s' 0 [1] \<and> rg_Value s' = int"
  using Ring_Link_spec [of zero_rings 0 "[]" 1 "[]"] by (simp add: zero_rings_def ring_of_def)

text \<open>
  C19: the other methods on a ring \<open>r # c\<close>. \<open>Move\<close> goes to the element \<open>n\<close> modulo the length further on,
  in either direction; \<open>Len\<close> ends with the number of elements and \<open>Do\<close> visits their values in order;
  \<open>Unlink\<close> takes the next \<open>n\<close> modulo the length elements out into a ring of their own, and for \<open>n \<le> 0\<close> does nothing and returns nil;
  \<open>New\<close> makes a ring of new elements and touches no other, and returns nil for \<open>n \<le> 0\<close>. \<open>Len\<close> and \<open>Do\<close>, the methods that accept
  a nil ring, find no element there. For the largest \<open>int\<close> the sum \<open>n + 1\<close> in \<open>Unlink\<close> wraps around: of a ring of three elements it takes none, although
  \<open>n\<close> modulo the length is one.
\<close>

theorem Ring_methods_spec:
  assumes "ring_of s r c"
  shows "(\<exists>s'. Ring_Move s r n = Inr (s', Some ((r # c) ! nat (n mod int (length (r # c))))) \<and> ring_of s' r c \<and> rg_Value s' = rg_Value s) \<and>
    Ring_Len s (Some r) = Some (Inr (int (length (r # c)))) \<and>
    Ring_Do s f (Some r) x = Some (Inr (fold f (map (rg_Value s) (r # c)) x)) \<and>
    Ring_Len s None = Some (Inr 0) \<and> Ring_Do s f None x = Some (Inr x) \<and>
    (0 < n \<and> n < 2 ^ 63 - 1 \<longrightarrow> (let k = nat (n mod int (length (r # c))) in
       \<exists>s'. Ring_Unlink s r n = Inr (s', Some (hd (c @ [r]))) \<and> ring_of s' r (drop k c) \<and>
         (k = 0 \<or> ring_of s' (hd c) (tl (take k c))) \<and> rg_Value s' = rg_Value s)) \<and>
    (n \<le> 0 \<longrightarrow> Ring_Unlink s r n = Inr (s, None) \<and> Ring_New s v n = (s, None)) \<and>
    (c = [a, b] \<longrightarrow> (2 ^ 63 - 1) mod int (length (r # c)) = 1 \<and>
       (\<exists>s'. Ring_Unlink s r (2 ^ 63 - 1) = Inr (s', Some a) \<and> ring_of s' r [a, b])) \<and>
    (0 < n \<longrightarrow> (\<exists>s'. Ring_New s v n = (s', Some (rg_fresh s)) \<and> ring_of s' (rg_fresh s) [Suc (rg_fresh s)..<rg_fresh s + nat n] \<and>
       (\<forall>y<rg_fresh s. rg_next s' y = rg_next s y \<and> rg_prev s' y = rg_prev s y \<and> rg_Value s' y = rg_Value s y)))"
proof (intro conjI)
  show "\<exists>s'. Ring_Move s r n = Inr (s', Some ((r # c) ! nat (n mod int (length (r # c))))) \<and> ring_of s' r c \<and> rg_Value s' = rg_Value s"
    by (rule Ring_Move_eq [OF assms, of n]) (auto simp: ring_of_def)
  obtain s1 where s1: "Ring_Next s r = (s1, Some (hd (c @ [r])))" "cycle (rg_next s1) (rg_prev s1) (r # c)" "rg_Value s1 = rg_Value s"
    by (rule Ring_Next_cases [OF assms]) blast
  show "Ring_Len s (Some r) = Some (Inr (int (length (r # c))))"
    using Ring_Len_loop_eq [of s1 r "[]" c 1] s1 by (simp add: Ring_Len_def)
  show "Ring_Do s f (Some r) x = Some (Inr (fold f (map (rg_Value s) (r # c)) x))"
    using Ring_Do_loop_eq [of s1 r "[]" c f] s1 by (simp add: Ring_Do_def)
  show "0 < n \<and> n < 2 ^ 63 - 1 \<longrightarrow> (let k = nat (n mod int (length (r # c))) in
       \<exists>s'. Ring_Unlink s r n = Inr (s', Some (hd (c @ [r]))) \<and> ring_of s' r (drop k c) \<and>
         (k = 0 \<or> ring_of s' (hd c) (tl (take k c))) \<and> rg_Value s' = rg_Value s)"
    using Ring_Unlink_ring [OF assms, of n] by simp
  show "c = [a, b] \<longrightarrow> (2 ^ 63 - 1) mod int (length (r # c)) = 1 \<and>
       (\<exists>s'. Ring_Unlink s r (2 ^ 63 - 1) = Inr (s', Some a) \<and> ring_of s' r [a, b])"
    using Ring_Unlink_maxInt [of s r a b] assms by (auto simp: ring_of_def)
  show "0 < n \<longrightarrow> (\<exists>s'. Ring_New s v n = (s', Some (rg_fresh s)) \<and> ring_of s' (rg_fresh s) [Suc (rg_fresh s)..<rg_fresh s + nat n] \<and>
       (\<forall>y<rg_fresh s. rg_next s' y = rg_next s y \<and> rg_prev s' y = rg_prev s y \<and> rg_Value s' y = rg_Value s y))"
    using Ring_New_eq [of n s v] upt_rec [of "rg_fresh s" "rg_fresh s + nat n"] by (auto simp: ring_of_def)
qed (simp_all add: Ring_Len_def Ring_Do_def Ring_Unlink_def Ring_New_def)

theorem Ring_methods_spec_witness:
  "Ring_Len zero_rings (Some 2) = Some (Inr 1) \<and> (\<exists>s'. Ring_Unlink zero_rings 2 3 = Inr (s', Some 2) \<and> ring_of s' 2 []) \<and>
   Ring_Unlink zero_rings 2 0 = Inr (zero_rings, None) \<and> (\<exists>s'. Ring_New zero_rings 0 3 = (s', Some 5) \<and> ring_of s' 5 [6, 7]) \<and>
   (\<exists>t s'. Ring_New zero_rings 0 3 = (t, Some 5) \<and> Ring_Unlink t 5 (2 ^ 63 - 1) = Inr (s', Some 6) \<and> ring_of s' 5 [6, 7])"
proof -
  have z: "ring_of zero_rings 2 []" by (simp add: zero_rings_def ring_of_def)
  note w = Ring_methods_spec [OF z, of 3 "\<lambda>v x. x" 0 0] and w0 = Ring_methods_spec [OF z, of 0 "\<lambda>v x. x" 0 0]
  then obtain t where t: "Ring_New zero_rings 0 3 = (t, Some 5)" "ring_of t 5 [6, 7]" by (auto simp: zero_rings_def upt_rec)
  then have "\<exists>s'. Ring_Unlink t 5 (2 ^ 63 - 1) = Inr (s', Some 6) \<and> ring_of s' 5 [6, 7]"
    using Ring_methods_spec [OF t(2), of 0 "\<lambda>v x. x" 0 0 6 7] by blast
  then show ?thesis using w w0 t by (auto simp: Let_def)
qed

end
