(* ===== verification/Binary.thy ===== *)
theory Binary
  imports Go_Prelude
begin

text \<open>
  Package \<open>encoding/binary\<close>: the byte orders of \<open>src/encoding/binary/binary.go\<close> and the variable-length
  integers of \<open>src/encoding/binary/varint.go\<close>. The blank assignment \<open>_ = b[k]\<close> that opens each fixed-size
  access is its bounds check. \<open>ReadUvarint\<close> takes its bytes from an \<open>io.ByteReader\<close>, here a function on the
  reader's state.
\<close>

section \<open>Byte orders\<close>

definition LE_Uint16 :: "bytes \<Rightarrow> panic + u16" where
  "LE_Uint16 b =
     (if length b \<le> 1 then Inl IndexOutOfRange
      else Inr (ucast (b ! 0) OR push_bit 8 (ucast (b ! 1))))"

definition LE_PutUint16 :: "bytes \<Rightarrow> u16 \<Rightarrow> panic + bytes" where
  "LE_PutUint16 b v =
     (if length b \<le> 1 then Inl IndexOutOfRange
      else slice_puts b 0
         [ucast v, ucast (drop_bit 8 v)])"

definition LE_AppendUint16 :: "bytes \<Rightarrow> u16 \<Rightarrow> bytes" where
  "LE_AppendUint16 b v =
     b @ [ucast v, ucast (drop_bit 8 v)]"

definition LE_Uint32 :: "bytes \<Rightarrow> panic + u32" where
  "LE_Uint32 b =
     (if length b \<le> 3 then Inl IndexOutOfRange
      else Inr (ucast (b ! 0) OR push_bit 8 (ucast (b ! 1)) OR push_bit 16 (ucast (b ! 2)) OR push_bit 24 (ucast (b ! 3))))"

definition LE_PutUint32 :: "bytes \<Rightarrow> u32 \<Rightarrow> panic + bytes" where
  "LE_PutUint32 b v =
     (if length b \<le> 3 then Inl IndexOutOfRange
      else slice_puts b 0
         [ucast v, ucast (drop_bit 8 v), ucast (drop_bit 16 v), ucast (drop_bit 24 v)])"

definition LE_AppendUint32 :: "bytes \<Rightarrow> u32 \<Rightarrow> bytes" where
  "LE_AppendUint32 b v =
     b @ [ucast v, ucast (drop_bit 8 v), ucast (drop_bit 16 v), ucast (drop_bit 24 v)]"

definition LE_Uint64 :: "bytes \<Rightarrow> panic + u64" where
  "LE_Uint64 b =
     (if length b \<le> 7 then Inl IndexOutOfRange
      else Inr (ucast (b ! 0) OR push_bit 8 (ucast (b ! 1)) OR push_bit 16 (ucast (b ! 2)) OR push_bit 24 (ucast (b ! 3)) OR
        push_bit 32 (ucast (b ! 4)) OR push_bit 40 (ucast (b ! 5)) OR push_bit 48 (ucast (b ! 6)) OR push_bit 56 (ucast (b ! 7))))"

definition LE_PutUint64 :: "bytes \<Rightarrow> u64 \<Rightarrow> panic + bytes" where
  "LE_PutUint64 b v =
     (if length b \<le> 7 then Inl IndexOutOfRange
      else slice_puts b 0
         [ucast v, ucast (drop_bit 8 v), ucast (drop_bit 16 v), ucast (drop_bit 24 v),
          ucast (drop_bit 32 v), ucast (drop_bit 40 v), ucast (drop_bit 48 v), ucast (drop_bit 56 v)])"

definition LE_AppendUint64 :: "bytes \<Rightarrow> u64 \<Rightarrow> bytes" where
  "LE_AppendUint64 b v =
     b @ [ucast v, ucast (drop_bit 8 v), ucast (drop_bit 16 v), ucast (drop_bit 24 v),
          ucast (drop_bit 32 v), ucast (drop_bit 40 v), ucast (drop_bit 48 v), ucast (drop_bit 56 v)]"

definition BE_Uint16 :: "bytes \<Rightarrow> panic + u16" where
  "BE_Uint16 b =
     (if length b \<le> 1 then Inl IndexOutOfRange
      else Inr (ucast (b ! 1) OR push_bit 8 (ucast (b ! 0))))"

definition BE_PutUint16 :: "bytes \<Rightarrow> u16 \<Rightarrow> panic + bytes" where
  "BE_PutUint16 b v =
     (if length b \<le> 1 then Inl IndexOutOfRange
      else slice_puts b 0
         [ucast (drop_bit 8 v), ucast v])"

definition BE_AppendUint16 :: "bytes \<Rightarrow> u16 \<Rightarrow> bytes" where
  "BE_AppendUint16 b v =
     b @ [ucast (drop_bit 8 v), ucast v]"

definition BE_Uint32 :: "bytes \<Rightarrow> panic + u32" where
  "BE_Uint32 b =
     (if length b \<le> 3 then Inl IndexOutOfRange
      else Inr (ucast (b ! 3) OR push_bit 8 (ucast (b ! 2)) OR push_bit 16 (ucast (b ! 1)) OR push_bit 24 (ucast (b ! 0))))"

definition BE_PutUint32 :: "bytes \<Rightarrow> u32 \<Rightarrow> panic + bytes" where
  "BE_PutUint32 b v =
     (if length b \<le> 3 then Inl IndexOutOfRange
      else slice_puts b 0
         [ucast (drop_bit 24 v), ucast (drop_bit 16 v), ucast (drop_bit 8 v), ucast v])"

definition BE_AppendUint32 :: "bytes \<Rightarrow> u32 \<Rightarrow> bytes" where
  "BE_AppendUint32 b v =
     b @ [ucast (drop_bit 24 v), ucast (drop_bit 16 v), ucast (drop_bit 8 v), ucast v]"

definition BE_Uint64 :: "bytes \<Rightarrow> panic + u64" where
  "BE_Uint64 b =
     (if length b \<le> 7 then Inl IndexOutOfRange
      else Inr (ucast (b ! 7) OR push_bit 8 (ucast (b ! 6)) OR push_bit 16 (ucast (b ! 5)) OR push_bit 24 (ucast (b ! 4)) OR
        push_bit 32 (ucast (b ! 3)) OR push_bit 40 (ucast (b ! 2)) OR push_bit 48 (ucast (b ! 1)) OR push_bit 56 (ucast (b ! 0))))"

definition BE_PutUint64 :: "bytes \<Rightarrow> u64 \<Rightarrow> panic + bytes" where
  "BE_PutUint64 b v =
     (if length b \<le> 7 then Inl IndexOutOfRange
      else slice_puts b 0
         [ucast (drop_bit 56 v), ucast (drop_bit 48 v), ucast (drop_bit 40 v), ucast (drop_bit 32 v),
          ucast (drop_bit 24 v), ucast (drop_bit 16 v), ucast (drop_bit 8 v), ucast v])"

definition BE_AppendUint64 :: "bytes \<Rightarrow> u64 \<Rightarrow> bytes" where
  "BE_AppendUint64 b v =
     b @ [ucast (drop_bit 56 v), ucast (drop_bit 48 v), ucast (drop_bit 40 v), ucast (drop_bit 32 v),
          ucast (drop_bit 24 v), ucast (drop_bit 16 v), ucast (drop_bit 8 v), ucast v]"

section \<open>Variable-length integers\<close>

definition MaxVarintLen16 :: nat where "MaxVarintLen16 = 3"

definition MaxVarintLen32 :: nat where "MaxVarintLen32 = 5"

definition MaxVarintLen64 :: nat where "MaxVarintLen64 = 10"

lemma drop_bit_7_less: "0x80 \<le> (x :: u64) \<Longrightarrow> unat (drop_bit 7 x) < unat x"
  by (simp add: word_nat)

function AppendUvarint :: "bytes \<Rightarrow> u64 \<Rightarrow> bytes" where
  "AppendUvarint buf x =
     (if x \<ge> 0x80 then AppendUvarint (buf @ [ucast x OR 0x80]) (drop_bit 7 x)
      else buf @ [ucast x])"
  by pat_completeness auto
termination by (relation "measure (\<lambda>(_, x). unat x)") (simp_all add: drop_bit_7_less)

declare AppendUvarint.simps [simp del]

function PutUvarint_loop :: "bytes \<Rightarrow> u64 \<Rightarrow> nat \<Rightarrow> panic + bytes \<times> nat" where
  "PutUvarint_loop buf x i =
     (if x \<ge> 0x80 then
        (case slice_put buf i (ucast x OR 0x80) of
           Inl e \<Rightarrow> Inl e
         | Inr buf \<Rightarrow> PutUvarint_loop buf (drop_bit 7 x) (i + 1))
      else
        (case slice_put buf i (ucast x) of
           Inl e \<Rightarrow> Inl e
         | Inr buf \<Rightarrow> Inr (buf, i + 1)))"
  by pat_completeness auto
termination by (relation "measure (\<lambda>(_, x, _). unat x)") (simp_all add: drop_bit_7_less)

declare PutUvarint_loop.simps [simp del]

definition PutUvarint :: "bytes \<Rightarrow> u64 \<Rightarrow> panic + bytes \<times> nat" where
  "PutUvarint buf x = PutUvarint_loop buf x 0"

text \<open>The loop of \<open>Uvarint\<close>, on the bytes of \<open>buf\<close> from index \<open>i\<close> on.\<close>

fun Uvarint_loop :: "bytes \<Rightarrow> nat \<Rightarrow> u64 \<Rightarrow> nat \<Rightarrow> u64 \<times> int" where
  "Uvarint_loop [] i x s = (0, 0)"
| "Uvarint_loop (b # buf) i x s =
     (if i = MaxVarintLen64 then (0, - (int i + 1))
      else if b < 0x80 then
        if i = MaxVarintLen64 - 1 \<and> b > 1 then (0, - (int i + 1))
        else (x OR push_bit s (ucast b), int i + 1)
      else Uvarint_loop buf (i + 1) (x OR push_bit s (ucast (b AND 0x7f))) (s + 7))"

definition Uvarint :: "bytes \<Rightarrow> u64 \<times> int" where
  "Uvarint buf = Uvarint_loop buf 0 0 0"

text \<open>The zig-zag mapping of \<open>int64\<close> values, written out in each function of the source.\<close>

definition AppendVarint :: "bytes \<Rightarrow> u64 \<Rightarrow> bytes" where
  "AppendVarint buf x =
     (let ux = push_bit 1 x; ux = (if sint x < 0 then NOT ux else ux) in AppendUvarint buf ux)"

definition PutVarint :: "bytes \<Rightarrow> u64 \<Rightarrow> panic + bytes \<times> nat" where
  "PutVarint buf x =
     (let ux = push_bit 1 x; ux = (if sint x < 0 then NOT ux else ux) in PutUvarint buf ux)"

definition Varint :: "bytes \<Rightarrow> u64 \<times> int" where
  "Varint buf =
     (let (ux, n) = Uvarint buf;
          x = drop_bit 1 ux;
          x = (if ux AND 1 \<noteq> 0 then NOT x else x)
      in (x, n))"

datatype io_error = EOF | ErrUnexpectedEOF | errOverflow | OtherError string

text \<open>The \<open>Write\<close> method of an \<open>io.Writer\<close>.\<close>

type_synonym 'w writer = "'w \<Rightarrow> bytes \<Rightarrow> panic + 'w \<times> int \<times> io_error option"

text \<open>\<open>rb\<close> is \<open>r.ReadByte\<close>: it returns the new state of the reader with a byte or an error.\<close>

function ReadUvarint_loop :: "('r \<Rightarrow> 'r \<times> (io_error + u8)) \<Rightarrow> 'r \<Rightarrow> nat \<Rightarrow> u64 \<Rightarrow> nat \<Rightarrow> 'r \<times> u64 \<times> io_error option" where
  "ReadUvarint_loop rb r i x s =
     (if i < MaxVarintLen64 then
        case rb r of
          (r, Inl err) \<Rightarrow> (r, x, Some (if i > 0 \<and> err = EOF then ErrUnexpectedEOF else err))
        | (r, Inr b) \<Rightarrow>
            if b < 0x80 then
              if i = MaxVarintLen64 - 1 \<and> b > 1 then (r, x, Some errOverflow)
              else (r, x OR push_bit s (ucast b), None)
            else ReadUvarint_loop rb r (i + 1) (x OR push_bit s (ucast (b AND 0x7f))) (s + 7)
      else (r, x, Some errOverflow))"
  by pat_completeness auto
termination by (relation "measure (\<lambda>(_, _, i, _, _). MaxVarintLen64 - i)") auto

declare ReadUvarint_loop.simps [simp del]

definition ReadUvarint :: "('r \<Rightarrow> 'r \<times> (io_error + u8)) \<Rightarrow> 'r \<Rightarrow> 'r \<times> u64 \<times> io_error option" where
  "ReadUvarint rb r = ReadUvarint_loop rb r 0 0 0"

definition ReadVarint :: "('r \<Rightarrow> 'r \<times> (io_error + u8)) \<Rightarrow> 'r \<Rightarrow> 'r \<times> u64 \<times> io_error option" where
  "ReadVarint rb r =
     (let (r, ux, err) = ReadUvarint rb r;
          x = drop_bit 1 ux;
          x = (if ux AND 1 \<noteq> 0 then NOT x else x)
      in (r, x, err))"

section \<open>The value of a byte sequence\<close>

primrec le_val :: "bytes \<Rightarrow> nat" where
  "le_val [] = 0"
| "le_val (x # xs) = unat x + 256 * le_val xs"

primrec le_word :: "bytes \<Rightarrow> 'a::len word" where
  "le_word [] = 0"
| "le_word (x # xs) = ucast x OR push_bit 8 (le_word xs)"

lemma le_val_less: "le_val xs < 256 ^ length xs"
proof (induction xs)
  case (Cons x xs)
  have "unat x < 256" using unat_lt2p [of x] by simp
  then show ?case using Cons by simp
qed simp

lemma unat_le_word: "8 * length xs \<le> LENGTH('a::len) \<Longrightarrow> unat (le_word xs :: 'a word) = le_val xs"
proof (induction xs)
  case (Cons x xs)
  have l: "8 \<le> LENGTH('a)" "8 * length xs + 8 \<le> LENGTH('a)" using Cons.prems by simp_all
  have x: "unat (ucast x :: 'a word) = unat x"
    using unat_lt2p [of x] power_increasing [OF l(1), of "2 :: nat"] by (simp add: unat_ucast)
  have "le_val xs * 2 ^ 8 < 256 ^ length xs * 2 ^ 8" using le_val_less [of xs] by simp
  also have "(256 :: nat) ^ length xs * 2 ^ 8 = 2 ^ (8 * length xs + 8)" by (simp add: power_add power_mult)
  also have "\<dots> \<le> 2 ^ LENGTH('a)" using l(2) by (rule power_increasing) simp
  finally have "unat (le_word xs :: 'a word) * 2 ^ 8 < 2 ^ LENGTH('a)" using Cons by simp
  then have "unat (push_bit 8 (le_word xs) OR ucast x :: 'a word) = le_val xs * 2 ^ 8 + unat x"
    using Cons unat_lt2p [of x] by (subst unat_push_or) (simp_all add: x)
  then show ?case by (simp add: or.commute)
qed simp

lemma take_nths: "n \<le> length b \<Longrightarrow> take n b = map ((!) b) [0..<n]"
  by (simp add: list_eq_iff_nth_eq)

lemma upt_bytes: "[0..<2] = [0, 1::nat]" "[0..<4] = [0, 1, 2, 3::nat]" "[0..<8] = [0, 1, 2, 3, 4, 5, 6, 7::nat]"
  by code_simp+

lemma Uint_le_word:
  "2 \<le> length b \<Longrightarrow> LE_Uint16 b = Inr (le_word (take 2 b))" "2 \<le> length b \<Longrightarrow> BE_Uint16 b = Inr (le_word (rev (take 2 b)))"
  "4 \<le> length b \<Longrightarrow> LE_Uint32 b = Inr (le_word (take 4 b))" "4 \<le> length b \<Longrightarrow> BE_Uint32 b = Inr (le_word (rev (take 4 b)))"
  "8 \<le> length b \<Longrightarrow> LE_Uint64 b = Inr (le_word (take 8 b))" "8 \<le> length b \<Longrightarrow> BE_Uint64 b = Inr (le_word (rev (take 8 b)))"
  by (simp_all add: LE_Uint16_def BE_Uint16_def LE_Uint32_def BE_Uint32_def LE_Uint64_def BE_Uint64_def
      take_nths upt_bytes push_bit_or push_bit_push_bit or.assoc)

primrec digits256 :: "nat \<Rightarrow> nat \<Rightarrow> nat list" where
  "digits256 0 v = []"
| "digits256 (Suc n) v = v mod 256 # digits256 n (v div 256)"

lemma digits256_numeral: "digits256 (numeral k) v = v mod 256 # digits256 (pred_numeral k) (v div 256)"
  by (simp only: numeral_eq_Suc [of k] digits256.simps)

lemma le_val_digits: "map unat b = digits256 n v \<Longrightarrow> le_val b = v mod 256 ^ n"
proof (induction n arbitrary: b v)
  case (Suc n)
  then obtain x xs where b: "b = x # xs" "unat x = v mod 256" "map unat xs = digits256 n (v div 256)" by (cases b) auto
  then show ?case using Suc.IH [OF b(3)] by (simp add: mod_mult2_eq)
qed simp

lemma AppendUint_digits:
  "map unat (LE_AppendUint16 [] v) = digits256 2 (unat v)" "map unat (LE_AppendUint32 [] w) = digits256 4 (unat w)"
  "map unat (LE_AppendUint64 [] x) = digits256 8 (unat x)"
  by (simp_all add: LE_AppendUint16_def LE_AppendUint32_def LE_AppendUint64_def word_nat digits256_numeral flip: div_mult2_eq)

lemma le_val_bytes:
  "le_val (LE_AppendUint16 [] v) = unat v" "le_val (LE_AppendUint32 [] w) = unat w" "le_val (LE_AppendUint64 [] x) = unat x"
  using le_val_digits [OF AppendUint_digits(1), of v] le_val_digits [OF AppendUint_digits(2), of w] le_val_digits [OF AppendUint_digits(3), of x]
    unat_lt2p [of v] unat_lt2p [of w] unat_lt2p [of x] by simp_all

lemma AppendUint_length:
  "length (LE_AppendUint16 [] v) = 2" "length (LE_AppendUint32 [] w) = 4" "length (LE_AppendUint64 [] x) = 8"
  by (simp_all add: LE_AppendUint16_def LE_AppendUint32_def LE_AppendUint64_def)

lemma BE_Append_rev:
  "BE_AppendUint16 b v = b @ rev (LE_AppendUint16 [] v)" "BE_AppendUint32 b w = b @ rev (LE_AppendUint32 [] w)"
  "BE_AppendUint64 b x = b @ rev (LE_AppendUint64 [] x)"
  by (simp_all add: LE_AppendUint16_def LE_AppendUint32_def LE_AppendUint64_def BE_AppendUint16_def BE_AppendUint32_def BE_AppendUint64_def)

lemma LE_Append_split:
  "LE_AppendUint16 b v = b @ LE_AppendUint16 [] v" "LE_AppendUint32 b w = b @ LE_AppendUint32 [] w"
  "LE_AppendUint64 b x = b @ LE_AppendUint64 [] x"
  by (simp_all add: LE_AppendUint16_def LE_AppendUint32_def LE_AppendUint64_def)

lemma PutUint_eq:
  "2 \<le> length b \<Longrightarrow> LE_PutUint16 b v = Inr (LE_AppendUint16 [] v @ drop 2 b) \<and> BE_PutUint16 b v = Inr (BE_AppendUint16 [] v @ drop 2 b)"
  "4 \<le> length b \<Longrightarrow> LE_PutUint32 b w = Inr (LE_AppendUint32 [] w @ drop 4 b) \<and> BE_PutUint32 b w = Inr (BE_AppendUint32 [] w @ drop 4 b)"
  "8 \<le> length b \<Longrightarrow> LE_PutUint64 b x = Inr (LE_AppendUint64 [] x @ drop 8 b) \<and> BE_PutUint64 b x = Inr (BE_AppendUint64 [] x @ drop 8 b)"
  by (simp_all add: LE_PutUint16_def LE_PutUint32_def LE_PutUint64_def BE_PutUint16_def BE_PutUint32_def BE_PutUint64_def slice_puts_eq del: slice_puts.simps)
    (simp_all add: LE_AppendUint16_def LE_AppendUint32_def LE_AppendUint64_def BE_AppendUint16_def BE_AppendUint32_def BE_AppendUint64_def numeral_eq_Suc)

lemma le_word_val: "8 * length xs \<le> LENGTH('a::len) \<Longrightarrow> (le_word xs :: 'a word) = of_nat (le_val xs)"
  using unat_le_word [of xs, where 'a = 'a] by (simp flip: word_unat_eq_iff) (metis of_nat_unat ucast_id unat_le_word word_unat_eq_iff unat_of_nat take_bit_nat_eq_self_iff unsigned_less)

section \<open>Properties of the byte orders\<close>

text \<open>
  C20: fixed-size integers. Reading panics on a slice that is too short and otherwise gives the
  number whose base-256 digits are the first bytes of the slice, least significant first for the
  little-endian order and last for the big-endian one. Writing panics on the same slices, and
  otherwise replaces these bytes by the digits of the value that appending adds.
\<close>

theorem byte_orders_spec:
  "LE_Uint16 b = (if length b < 2 then Inl IndexOutOfRange else Inr (of_nat (le_val (take 2 b)))) \<and>
   LE_Uint32 b = (if length b < 4 then Inl IndexOutOfRange else Inr (of_nat (le_val (take 4 b)))) \<and>
   LE_Uint64 b = (if length b < 8 then Inl IndexOutOfRange else Inr (of_nat (le_val (take 8 b)))) \<and>
   BE_Uint16 b = (if length b < 2 then Inl IndexOutOfRange else Inr (of_nat (le_val (rev (take 2 b))))) \<and>
   BE_Uint32 b = (if length b < 4 then Inl IndexOutOfRange else Inr (of_nat (le_val (rev (take 4 b))))) \<and>
   BE_Uint64 b = (if length b < 8 then Inl IndexOutOfRange else Inr (of_nat (le_val (rev (take 8 b))))) \<and>
   (\<exists>u w x. length u = 2 \<and> le_val u = unat v2 \<and> length w = 4 \<and> le_val w = unat v4 \<and> length x = 8 \<and> le_val x = unat v8 \<and>
      LE_AppendUint16 b v2 = b @ u \<and> LE_AppendUint32 b v4 = b @ w \<and> LE_AppendUint64 b v8 = b @ x \<and>
      BE_AppendUint16 b v2 = b @ rev u \<and> BE_AppendUint32 b v4 = b @ rev w \<and> BE_AppendUint64 b v8 = b @ rev x \<and>
      LE_PutUint16 b v2 = (if length b < 2 then Inl IndexOutOfRange else Inr (u @ drop 2 b)) \<and>
      LE_PutUint32 b v4 = (if length b < 4 then Inl IndexOutOfRange else Inr (w @ drop 4 b)) \<and>
      LE_PutUint64 b v8 = (if length b < 8 then Inl IndexOutOfRange else Inr (x @ drop 8 b)) \<and>
      BE_PutUint16 b v2 = (if length b < 2 then Inl IndexOutOfRange else Inr (rev u @ drop 2 b)) \<and>
      BE_PutUint32 b v4 = (if length b < 4 then Inl IndexOutOfRange else Inr (rev w @ drop 4 b)) \<and>
      BE_PutUint64 b v8 = (if length b < 8 then Inl IndexOutOfRange else Inr (rev x @ drop 8 b)))"
proof -
  have r: "LE_Uint16 b = (if length b < 2 then Inl IndexOutOfRange else Inr (of_nat (le_val (take 2 b))))"
    "LE_Uint32 b = (if length b < 4 then Inl IndexOutOfRange else Inr (of_nat (le_val (take 4 b))))"
    "LE_Uint64 b = (if length b < 8 then Inl IndexOutOfRange else Inr (of_nat (le_val (take 8 b))))"
    "BE_Uint16 b = (if length b < 2 then Inl IndexOutOfRange else Inr (of_nat (le_val (rev (take 2 b)))))"
    "BE_Uint32 b = (if length b < 4 then Inl IndexOutOfRange else Inr (of_nat (le_val (rev (take 4 b)))))"
    "BE_Uint64 b = (if length b < 8 then Inl IndexOutOfRange else Inr (of_nat (le_val (rev (take 8 b)))))"
    using Uint_le_word [of b] by (simp_all add: le_word_val)
      (simp_all add: LE_Uint16_def LE_Uint32_def LE_Uint64_def BE_Uint16_def BE_Uint32_def BE_Uint64_def)
  have p: "length b < 2 \<Longrightarrow> LE_PutUint16 b v2 = Inl IndexOutOfRange \<and> BE_PutUint16 b v2 = Inl IndexOutOfRange"
    "length b < 4 \<Longrightarrow> LE_PutUint32 b v4 = Inl IndexOutOfRange \<and> BE_PutUint32 b v4 = Inl IndexOutOfRange"
    "length b < 8 \<Longrightarrow> LE_PutUint64 b v8 = Inl IndexOutOfRange \<and> BE_PutUint64 b v8 = Inl IndexOutOfRange"
    by (simp_all add: LE_PutUint16_def LE_PutUint32_def LE_PutUint64_def BE_PutUint16_def BE_PutUint32_def BE_PutUint64_def)
  show ?thesis
    by (intro conjI r exI [of _ "LE_AppendUint16 [] v2"] exI [of _ "LE_AppendUint32 [] v4"] exI [of _ "LE_AppendUint64 [] v8"]
        AppendUint_length le_val_bytes LE_Append_split BE_Append_rev)
      (use p PutUint_eq [of b] BE_Append_rev [of "[]"] in auto)
qed


section \<open>Seven-bit groups\<close>

text \<open>The value of a sequence of groups, least significant first, whatever the continuation bits.\<close>

primrec uv_val :: "bytes \<Rightarrow> nat" where
  "uv_val [] = 0"
| "uv_val (b # bs) = unat b mod 128 + 128 * uv_val bs"

primrec uv_word :: "bytes \<Rightarrow> u64" where
  "uv_word [] = 0"
| "uv_word (b # bs) = ucast (b AND 0x7f) OR push_bit 7 (uv_word bs)"

lemma unat_and_7f: "unat (b AND 0x7f :: u8) = unat b mod 128"
proof -
  have "(0x7f :: u8) = mask 7" by (simp add: mask_eq_exp_minus_1)
  then show ?thesis by (simp only: unat_and_mask) simp
qed

lemma uv_word_val: "uv_val bs < 2 ^ 64 \<Longrightarrow> unat (uv_word bs) = uv_val bs"
proof (induction bs)
  case (Cons b bs)
  then have "uv_val bs < 2 ^ 57" "unat (uv_word bs) = uv_val bs" by simp_all
  then have "unat (push_bit 7 (uv_word bs) OR ucast (b AND 0x7f) :: u64) = uv_val bs * 2 ^ 7 + unat b mod 128"
    by (subst unat_push_or) (simp_all add: unat_ucast unat_and_7f)
  then show ?case by (simp add: or.commute)
qed simp

text \<open>The number of continuation bytes that open a sequence.\<close>

definition uv_conts :: "bytes \<Rightarrow> nat" where
  "uv_conts buf = length (takeWhile (\<lambda>b. 0x80 \<le> b) buf)"

lemma uv_conts_simps [simp]:
  "uv_conts [] = 0" "b < 0x80 \<Longrightarrow> uv_conts (b # buf) = 0" "\<not> b < 0x80 \<Longrightarrow> uv_conts (b # buf) = Suc (uv_conts buf)"
  by (auto simp: uv_conts_def not_le)

lemma uv_conts_le: "uv_conts buf \<le> length buf"
  by (simp add: uv_conts_def length_takeWhile_le)

lemma and_7f_small: "b < 0x80 \<Longrightarrow> b AND 0x7f = (b :: u8)"
  by (simp add: word_unat_eq_iff unat_and_7f word_nat)

lemma Uvarint_loop_eq:
  assumes "i \<le> 10"
  shows "Uvarint_loop buf i x (7 * i) =
    (if 10 \<le> i + uv_conts buf \<and> 10 < i + length buf then (0, - 11)
     else if uv_conts buf = length buf then (0, 0)
     else if i + uv_conts buf = 9 \<and> buf ! uv_conts buf > 1 then (0, - 10)
     else (x OR push_bit (7 * i) (uv_word (take (Suc (uv_conts buf)) buf)), int (i + uv_conts buf) + 1))"
  using assms
proof (induction buf arbitrary: i x)
  case (Cons b buf)
  show ?case
  proof (cases "i = 10")
    case True
    then show ?thesis by (simp add: MaxVarintLen64_def)
  next
    case False
    show ?thesis
    proof (cases "b < 0x80")
      case True
      then show ?thesis using False Cons.prems by (auto simp: MaxVarintLen64_def and_7f_small)
    next
      case b: False
      have "Suc i \<le> 10" using False Cons.prems by simp
      from Cons.IH [OF this, of "x OR push_bit (7 * i) (ucast (b AND 0x7f))"] show ?thesis
        using False b by (auto simp: MaxVarintLen64_def push_bit_or push_bit_push_bit or.assoc add.commute)
    qed
  qed
qed simp

lemma Uvarint_eq:
  "Uvarint buf =
    (if 10 \<le> uv_conts buf \<and> 10 < length buf then (0, - 11)
     else if uv_conts buf = length buf then (0, 0)
     else if uv_conts buf = 9 \<and> buf ! uv_conts buf > 1 then (0, - 10)
     else (uv_word (take (Suc (uv_conts buf)) buf), int (uv_conts buf) + 1))"
  using Uvarint_loop_eq [of 0 buf 0] by (simp add: Uvarint_def split del: if_split cong: if_cong)

text \<open>The groups up to the first byte without the continuation bit.\<close>

lemma uv_val_bounds:
  "uv_conts buf < length buf \<Longrightarrow>
   unat (buf ! uv_conts buf) * 128 ^ uv_conts buf \<le> uv_val (take (Suc (uv_conts buf)) buf) \<and>
   uv_val (take (Suc (uv_conts buf)) buf) < Suc (unat (buf ! uv_conts buf)) * 128 ^ uv_conts buf"
proof (induction buf)
  case (Cons b buf)
  show ?case
  proof (cases "b < 0x80")
    case True
    then show ?thesis by (simp add: word_nat)
  next
    case False
    then have ih: "unat (buf ! uv_conts buf) * 128 ^ uv_conts buf \<le> uv_val (take (Suc (uv_conts buf)) buf)"
       "Suc (uv_val (take (Suc (uv_conts buf)) buf)) \<le> Suc (unat (buf ! uv_conts buf)) * 128 ^ uv_conts buf"
      using Cons by simp_all
    have "unat b mod 128 < 128" by simp
    then have "unat b mod 128 + 128 * uv_val (take (Suc (uv_conts buf)) buf) < 128 * Suc (uv_val (take (Suc (uv_conts buf)) buf))" by simp
    also have "\<dots> \<le> 128 * (Suc (unat (buf ! uv_conts buf)) * 128 ^ uv_conts buf)" using ih(2) by (rule mult_le_mono2)
    finally show ?thesis using False mult_le_mono2 [OF ih(1), of 128] by (simp add: mult_ac)
  qed
qed simp

lemma uv_val_fits:
  assumes "uv_conts buf < length buf" "uv_conts buf \<le> 9"
  shows "uv_val (take (Suc (uv_conts buf)) buf) < 2 ^ 64 \<longleftrightarrow> \<not> (uv_conts buf = 9 \<and> buf ! uv_conts buf > 1)"
proof -
  let ?c = "uv_conts buf" and ?v = "uv_val (take (Suc (uv_conts buf)) buf)"
  have t: "buf ! ?c < 0x80" using assms(1) nth_length_takeWhile [of "\<lambda>b. 0x80 \<le> b" buf] by (simp add: uv_conts_def not_le)
  note b = uv_val_bounds [OF assms(1)]
  show ?thesis
  proof (cases "?c = 9")
    case True
    then show ?thesis using b by (auto simp: word_nat)
  next
    case False
    have "?v < Suc (unat (buf ! ?c)) * 128 ^ ?c" using b by blast
    also have "\<dots> \<le> 128 * 128 ^ ?c" using t by (intro mult_le_mono1) (simp add: word_nat)
    also have "\<dots> \<le> 128 * 128 ^ 8" using False assms(2) by (intro mult_le_mono2 power_increasing) auto
    finally show ?thesis using False by simp
  qed
qed

section \<open>Encoding\<close>

abbreviation uv_enc :: "u64 \<Rightarrow> bytes" where "uv_enc x \<equiv> AppendUvarint [] x"

lemma AppendUvarint_append: "AppendUvarint (a @ buf) x = a @ AppendUvarint buf x"
proof (induction buf x arbitrary: a rule: AppendUvarint.induct)
  case (1 buf x)
  then show ?case by (simp add: AppendUvarint.simps [of _ x])
qed

lemma AppendUvarint_split: "AppendUvarint buf x = buf @ uv_enc x"
  using AppendUvarint_append [of buf "[]" x] by simp

lemma uv_enc_simps:
  "x < 0x80 \<Longrightarrow> uv_enc x = [ucast x]" "0x80 \<le> x \<Longrightarrow> uv_enc x = (ucast x OR 0x80) # uv_enc (drop_bit 7 x)"
  by (simp_all add: AppendUvarint.simps [of "[]" x] not_le [symmetric] AppendUvarint_split [of "[_]"])

lemma unat_or_80: "unat (ucast (x :: u64) OR 0x80 :: u8) mod 128 = unat x mod 128" "0x80 \<le> (ucast x OR 0x80 :: u8)"
proof -
  have b: "bit (0x80 :: u8) i = (i = 7)" for i
    using bit_exp_iff [of 7 i, where 'a = u8] by auto
  have "take_bit 7 (ucast x OR 0x80 :: u8) = take_bit 7 (ucast x)"
    by (rule bit_word_eqI) (auto simp: bit_simps b)
  from arg_cong [OF this, of unat] show "unat (ucast x OR 0x80 :: u8) mod 128 = unat x mod 128"
    by (simp only: unat_take_bit) (simp add: unat_ucast mod_mod_cancel)
  have "bit (ucast x OR 0x80 :: u8) 7" by (simp add: bit_simps b)
  then show "0x80 \<le> (ucast x OR 0x80 :: u8)" using bit_top [of "ucast x OR 0x80 :: u8"] by (simp add: word_nat)
qed

lemma uv_enc_props:
  "uv_val (uv_enc x) = unat x \<and> uv_conts (uv_enc x @ r) = length (uv_enc x) - 1 \<and> uv_enc x \<noteq> []"
proof (induction "unat x" arbitrary: x rule: less_induct)
  case less
  show ?case
  proof (cases "x < 0x80")
    case True
    then have "(ucast x :: u8) < 0x80" by (simp add: word_nat)
    then show ?thesis using True by (simp add: uv_enc_simps word_nat)
  next
    case False
    then have ih: "uv_val (uv_enc (drop_bit 7 x)) = unat x div 128" "uv_conts (uv_enc (drop_bit 7 x) @ r) = length (uv_enc (drop_bit 7 x)) - 1"
        "uv_enc (drop_bit 7 x) \<noteq> []"
      using less [of "drop_bit 7 x"] drop_bit_7_less [of x] by (simp_all add: not_less unat_drop_bit)
    then have "0 < length (uv_enc (drop_bit 7 x))" by simp
    then show ?thesis using False ih unat_or_80 [of x] by (simp add: uv_enc_simps not_less mod_div_mult_eq)
  qed
qed

lemma uv_enc_length: "unat x < 128 ^ Suc k \<Longrightarrow> length (uv_enc x) \<le> Suc k"
proof (induction k arbitrary: x)
  case (Suc k)
  show ?case
  proof (cases "x < 0x80")
    case False
    have "unat (drop_bit 7 x) < 128 ^ Suc k" using Suc.prems by (simp add: unat_drop_bit less_mult_imp_div_less mult.commute)
    then show ?thesis using False Suc.IH by (simp add: uv_enc_simps not_less)
  qed (simp add: uv_enc_simps)
qed (simp add: uv_enc_simps word_nat)

lemma uv_enc_max: "length (uv_enc x) \<le> 10"
  using uv_enc_length [of x 9] unat_lt2p [of x] by simp

lemma Uvarint_enc: "Uvarint (uv_enc x @ r) = (x, int (length (uv_enc x)))"
proof -
  note p = uv_enc_props [of x r]
  have c: "uv_conts (uv_enc x @ r) = length (uv_enc x) - 1" "uv_conts (uv_enc x @ r) < length (uv_enc x @ r)" using p by (cases "uv_enc x"; simp)+
  have t: "take (Suc (uv_conts (uv_enc x @ r))) (uv_enc x @ r) = uv_enc x" using p by simp
  have "uv_val (uv_enc x) < 2 ^ 64" using p unat_lt2p [of x] by simp
  then have "unat (uv_word (uv_enc x)) = unat x" "\<not> (uv_conts (uv_enc x @ r) = 9 \<and> (uv_enc x @ r) ! uv_conts (uv_enc x @ r) > 1)"
    using p uv_word_val uv_val_fits [OF c(2)] t c(1) uv_enc_max [of x] by auto
  moreover from this(1) have "uv_word (uv_enc x) = x" by (simp add: word_unat_eq_iff)
  moreover obtain k where "length (uv_enc x) = Suc k" using p by (cases "uv_enc x") auto
  ultimately show ?thesis using Uvarint_eq [of "uv_enc x @ r"] c t uv_enc_max [of x] by auto
qed

lemma PutUvarint_loop_eq:
  "PutUvarint_loop buf x i =
    (if i + length (uv_enc x) \<le> length buf then Inr (take i buf @ uv_enc x @ drop (i + length (uv_enc x)) buf, i + length (uv_enc x))
     else Inl IndexOutOfRange)"
proof (induction buf x i rule: PutUvarint_loop.induct)
  case (1 buf x i)
  have ne: "uv_enc y \<noteq> []" for y using uv_enc_props by blast
  show ?case
  proof (cases "i < length buf")
    case False
    moreover obtain k where "length (uv_enc x) = Suc k" using ne [of x] by (cases "uv_enc x") auto
    ultimately show ?thesis by (simp add: PutUvarint_loop.simps [of buf x i] slice_put_def)
  next
    case True
    then have u: "buf[i := v] = take i buf @ v # drop (Suc i) buf" for v by (simp add: upd_conv_take_nth_drop)
    show ?thesis
    proof (cases "0x80 \<le> x")
      case x: True
      obtain m where "length buf = Suc m" using True by (cases "length buf") auto
      with "1.IH" [OF x, of "buf[i := ucast x OR 0x80]"] True show ?thesis
        using x u [of "ucast x OR 0x80"] by (simp add: PutUvarint_loop.simps [of buf x i] slice_put_def uv_enc_simps add.commute)
    qed (use True u [of "ucast x"] in \<open>simp add: PutUvarint_loop.simps [of buf x i] slice_put_def uv_enc_simps\<close>)
  qed
qed

section \<open>Zig-zag\<close>

lemma zigzag:
  fixes x :: u64
  defines "ux \<equiv> (if sint x < 0 then NOT (push_bit 1 x) else push_bit 1 x)"
  shows "(if ux AND 1 \<noteq> 0 then NOT (drop_bit 1 ux) else drop_bit 1 ux) = x"
proof -
  have s: "sint x < 0 \<longleftrightarrow> bit x 63"
    using bit_top [of x] unat_lt2p [of x] by (auto simp: sint_unat simp del: of_nat_unat)
  have o: "ux AND 1 \<noteq> 0 \<longleftrightarrow> bit ux 0" by (simp add: and_one_eq mod2_eq_if bit_0)
  have b: "bit ux i \<longleftrightarrow> i < 64 \<and> (bit x 63 \<noteq> (0 < i \<and> bit x (i - 1)))" for i
    by (auto simp: ux_def s bit_not_iff bit_push_bit_iff simp del: push_bit_Suc)
  have "bit (if ux AND 1 \<noteq> 0 then NOT (drop_bit 1 ux) else drop_bit 1 ux) i \<longleftrightarrow> bit x i" if "i < 64" for i
  proof (cases "i = 63")
    case True
    then show ?thesis unfolding o b by (simp add: bit_not_iff bit_drop_bit_eq b)
  next
    case False
    then show ?thesis using that unfolding o b by (simp add: bit_not_iff bit_drop_bit_eq b)
  qed
  then show ?thesis by (intro bit_word_eqI) simp
qed


section \<open>Reading from a byte reader\<close>

text \<open>A reader over the bytes of a slice.\<close>

fun slice_ReadByte :: "bytes \<Rightarrow> bytes \<times> (io_error + u8)" where
  "slice_ReadByte [] = ([], Inl EOF)"
| "slice_ReadByte (b # buf) = (buf, Inr b)"

lemma ReadUvarint_loop_slice:
  assumes "i \<le> 10"
  shows "if 10 \<le> i + uv_conts buf \<or> uv_conts buf \<noteq> length buf \<and> i + uv_conts buf = 9 \<and> buf ! uv_conts buf > 1
    then \<exists>y. ReadUvarint_loop slice_ReadByte buf i x s = (drop (10 - i) buf, y, Some errOverflow)
    else if uv_conts buf = length buf
    then \<exists>y. ReadUvarint_loop slice_ReadByte buf i x s = ([], y, Some (if i = 0 \<and> buf = [] then EOF else ErrUnexpectedEOF))
    else ReadUvarint_loop slice_ReadByte buf i x s = (drop (Suc (uv_conts buf)) buf, fst (Uvarint_loop buf i x s), None)"
  using assms
proof (induction buf arbitrary: i x s)
  case Nil
  then show ?case by (auto simp: ReadUvarint_loop.simps [of _ "[]" i] ReadUvarint_loop.simps [of _ "[]" 10] MaxVarintLen64_def)
next
  case (Cons b buf)
  show ?case
  proof (cases "i = 10")
    case True
    then show ?thesis by (simp add: ReadUvarint_loop.simps [of _ "b # buf" 10] MaxVarintLen64_def)
  next
    case False
    then have i: "i < 10" "Suc i \<le> 10" using Cons.prems by simp_all
    show ?thesis
    proof (cases "b < 0x80")
      case True
      then show ?thesis using i by (auto simp: ReadUvarint_loop.simps [of _ "b # buf" i] ReadUvarint_loop.simps [of _ "b # buf" 9] MaxVarintLen64_def)
    next
      case b: False
      let ?x = "x OR push_bit s (ucast (b AND 0x7f))"
      have r: "ReadUvarint_loop slice_ReadByte (b # buf) i x s = ReadUvarint_loop slice_ReadByte buf (Suc i) ?x (s + 7)"
        using i b by (simp add: ReadUvarint_loop.simps [of _ "b # buf" i] MaxVarintLen64_def)
      have u: "Uvarint_loop (b # buf) i x s = Uvarint_loop buf (Suc i) ?x (s + 7)"
        using i b by (simp add: MaxVarintLen64_def)
      have d: "drop (10 - i) (b # buf) = drop (10 - Suc i) buf" using i by (simp add: drop_Cons')
      show ?thesis using Cons.IH [OF i(2), of ?x "s + 7"] b unfolding r u d
        by (simp split del: if_split cong: if_cong) (simp split: if_splits)
    qed
  qed
qed

lemma ReadUvarint_slice:
  "snd (Uvarint buf) > 0 \<Longrightarrow> ReadUvarint slice_ReadByte buf = (drop (nat (snd (Uvarint buf))) buf, fst (Uvarint buf), None)"
  "snd (Uvarint buf) \<le> 0 \<Longrightarrow> \<exists>r x. ReadUvarint slice_ReadByte buf =
     (r, x, Some (if buf = [] then EOF else if uv_conts buf = length buf \<and> length buf < 10 then ErrUnexpectedEOF else errOverflow))"
proof -
  note r = ReadUvarint_loop_slice [of 0 buf 0 0, folded ReadUvarint_def Uvarint_def]
  note u = Uvarint_eq [of buf]
  have c: "uv_conts buf = length buf \<or> uv_conts buf < length buf" using uv_conts_le [of buf] by linarith
  show "snd (Uvarint buf) > 0 \<Longrightarrow> ReadUvarint slice_ReadByte buf = (drop (nat (snd (Uvarint buf))) buf, fst (Uvarint buf), None)"
    using r u c by (auto simp: nat_add_distrib split: if_splits)
  show "snd (Uvarint buf) \<le> 0 \<Longrightarrow> \<exists>r x. ReadUvarint slice_ReadByte buf =
     (r, x, Some (if buf = [] then EOF else if uv_conts buf = length buf \<and> length buf < 10 then ErrUnexpectedEOF else errOverflow))"
    using r u c by (auto split: if_splits)
qed

section \<open>Properties of the variable-length integers\<close>

lemma varint_encoding:
  "(\<exists>e. AppendUvarint buf x = buf @ e \<and> 1 \<le> length e \<and> length e \<le> MaxVarintLen64 \<and> Uvarint (e @ rest) = (x, int (length e)) \<and>
      PutUvarint buf x = (if length buf < length e then Inl IndexOutOfRange else Inr (e @ drop (length e) buf, length e))) \<and>
   (\<exists>e. AppendVarint buf x = buf @ e \<and> 1 \<le> length e \<and> length e \<le> MaxVarintLen64 \<and> Varint (e @ rest) = (x, int (length e)) \<and>
      PutVarint buf x = (if length buf < length e then Inl IndexOutOfRange else Inr (e @ drop (length e) buf, length e)))"
proof -
  define ux where "ux = (if sint x < 0 then NOT (push_bit 1 x) else push_bit 1 x)"
  have l: "1 \<le> length (uv_enc y) \<and> length (uv_enc y) \<le> MaxVarintLen64" for y
    using uv_enc_props [of y "[]"] uv_enc_max [of y] by (cases "uv_enc y") (auto simp: MaxVarintLen64_def)
  have p: "PutUvarint buf y = (if length buf < length (uv_enc y) then Inl IndexOutOfRange else Inr (uv_enc y @ drop (length (uv_enc y)) buf, length (uv_enc y)))" for y
    using PutUvarint_loop_eq [of buf y 0] by (auto simp: PutUvarint_def)
  have "Varint (uv_enc ux @ rest) = (x, int (length (uv_enc ux)))"
    using zigzag [of x, folded ux_def] by (simp add: Varint_def Uvarint_enc Let_def del: One_nat_def)
  moreover have "AppendVarint buf x = buf @ uv_enc ux" "PutVarint buf x = PutUvarint buf ux"
    by (simp_all add: AppendVarint_def PutVarint_def ux_def AppendUvarint_split [of buf])
  ultimately show ?thesis using l p AppendUvarint_split [of buf x] Uvarint_enc [of x rest]
    by (intro conjI exI [of _ "uv_enc x"] exI [of _ "uv_enc ux"]) simp_all
qed

lemma Uvarint_cases:
  "let c = uv_conts buf; v = uv_val (take (c + 1) buf) in
   (if c = length buf \<and> c \<le> 10 then Uvarint buf = (0, 0)
    else if c \<le> 9 \<and> v < 2 ^ 64 then unat (fst (Uvarint buf)) = v \<and> snd (Uvarint buf) = int c + 1 \<and>
      ReadUvarint slice_ReadByte buf = (drop (c + 1) buf, fst (Uvarint buf), None)
    else Uvarint buf = (0, - (int (min c 10) + 1))) \<and>
   (snd (Uvarint buf) \<le> 0 \<longleftrightarrow> (\<exists>r x err. ReadUvarint slice_ReadByte buf = (r, x, Some err))) \<and>
   (snd (snd (ReadUvarint slice_ReadByte buf)) = Some EOF \<longleftrightarrow> buf = [])"
proof -
  define c where "c = uv_conts buf"
  define v where "v = uv_val (take (c + 1) buf)"
  have le: "c \<le> length buf" using uv_conts_le by (simp add: c_def)
  have fits: "c < length buf \<Longrightarrow> c \<le> 9 \<Longrightarrow> v < 2 ^ 64 \<longleftrightarrow> \<not> (c = 9 \<and> buf ! c > 1)"
    using uv_val_fits [of buf] by (simp add: c_def v_def)
  have w: "v < 2 ^ 64 \<Longrightarrow> unat (uv_word (take (Suc c) buf)) = v" using uv_word_val by (simp add: v_def)
  have u: "if c = length buf \<and> c \<le> 10 then Uvarint buf = (0, 0)
    else if c \<le> 9 \<and> v < 2 ^ 64 then unat (fst (Uvarint buf)) = v \<and> snd (Uvarint buf) = int c + 1
    else Uvarint buf = (0, - (int (min c 10) + 1))"
  proof (cases "c = length buf")
    case True
    then show ?thesis using Uvarint_eq [of buf, folded c_def] by auto
  next
    case False
    then have lt: "c < length buf" using le by simp
    show ?thesis
    proof (cases "c \<le> 9")
      case True
      then show ?thesis using False lt fits [OF lt True] w Uvarint_eq [of buf, folded c_def] by auto
    qed (use lt Uvarint_eq [of buf, folded c_def] in auto)
  qed
  have r: "\<exists>r x. ReadUvarint slice_ReadByte buf = (r, x, Some (if buf = [] then EOF else if c = length buf \<and> length buf < 10 then ErrUnexpectedEOF else errOverflow))"
    if "snd (Uvarint buf) \<le> 0"
    using ReadUvarint_slice(2) [OF that, folded c_def] .
  show ?thesis
    unfolding Let_def c_def [symmetric] v_def [symmetric]
  proof (intro conjI)
    show "if c = length buf \<and> c \<le> 10 then Uvarint buf = (0, 0)
      else if c \<le> 9 \<and> v < 2 ^ 64 then unat (fst (Uvarint buf)) = v \<and> snd (Uvarint buf) = int c + 1 \<and>
        ReadUvarint slice_ReadByte buf = (drop (c + 1) buf, fst (Uvarint buf), None)
      else Uvarint buf = (0, - (int (min c 10) + 1))"
      using u ReadUvarint_slice(1) [of buf] by (auto simp: nat_add_distrib split: if_splits)
    show "snd (Uvarint buf) \<le> 0 \<longleftrightarrow> (\<exists>r x err. ReadUvarint slice_ReadByte buf = (r, x, Some err))"
      using r ReadUvarint_slice(1) [of buf] by (cases "snd (Uvarint buf) \<le> 0") auto
    have "snd (Uvarint []) = 0" by (simp add: Uvarint_def)
    then show "snd (snd (ReadUvarint slice_ReadByte buf)) = Some EOF \<longleftrightarrow> buf = []"
      using r ReadUvarint_slice(1) [of buf] by (cases "snd (Uvarint buf) \<le> 0") (auto split: if_splits)
  qed
qed

text \<open>
  C21: variable-length integers. \<open>AppendUvarint\<close> adds between one and \<open>MaxVarintLen64\<close> bytes, from which \<open>Uvarint\<close>, whatever
  follows them, reads back the value and their number; \<open>PutUvarint\<close> writes the same bytes and panics
  exactly when the buffer is shorter. \<open>AppendVarint\<close> and \<open>Varint\<close> do the same for signed integers.
  What \<open>Uvarint\<close> and \<open>ReadUvarint\<close> make of arbitrary bytes, with \<open>c\<close> the number of leading bytes that have the
  continuation bit: when \<open>c\<close> bytes are all there is and there are at most ten, the buffer is too small;
  when the groups up to the byte after them make a number below 2^64 within ten bytes, that is the
  result; otherwise overflow is reported at the byte that shows it. \<open>ReadUvarint\<close> over the same bytes
  returns the same value and leaves the rest, and fails with EOF only when there is no byte at all.
\<close>

theorem varint_spec:
  "(\<exists>e. AppendUvarint buf x = buf @ e \<and> 1 \<le> length e \<and> length e \<le> MaxVarintLen64 \<and> Uvarint (e @ rest) = (x, int (length e)) \<and>
      PutUvarint buf x = (if length buf < length e then Inl IndexOutOfRange else Inr (e @ drop (length e) buf, length e))) \<and>
   (\<exists>e. AppendVarint buf x = buf @ e \<and> 1 \<le> length e \<and> length e \<le> MaxVarintLen64 \<and> Varint (e @ rest) = (x, int (length e)) \<and>
      PutVarint buf x = (if length buf < length e then Inl IndexOutOfRange else Inr (e @ drop (length e) buf, length e))) \<and>
   (let c = uv_conts inp; v = uv_val (take (c + 1) inp) in
   (if c = length inp \<and> c \<le> 10 then Uvarint inp = (0, 0)
    else if c \<le> 9 \<and> v < 2 ^ 64 then unat (fst (Uvarint inp)) = v \<and> snd (Uvarint inp) = int c + 1 \<and>
      ReadUvarint slice_ReadByte inp = (drop (c + 1) inp, fst (Uvarint inp), None)
    else Uvarint inp = (0, - (int (min c 10) + 1))) \<and>
   (snd (Uvarint inp) \<le> 0 \<longleftrightarrow> (\<exists>r x err. ReadUvarint slice_ReadByte inp = (r, x, Some err))) \<and>
   (snd (snd (ReadUvarint slice_ReadByte inp)) = Some EOF \<longleftrightarrow> inp = []))"
  by (rule conj_assoc [THEN iffD1, OF conjI, OF varint_encoding Uvarint_cases])

end
