(* ===== verification/Base64.thy ===== *)
theory Base64
  imports Binary "HOL-Library.Signed_Division"
begin

text \<open>
  Package \<open>encoding/base64\<close> (\<open>src/encoding/base64/base64.go\<close>): the alphabets, the encoder and the decoder.
  Slices are lists; a write outside a slice is a panic. \<open>Decode\<close> writes its fast-path words with
  \<open>internal/byteorder\<close>, which is not part of this source tree: the two functions it uses are the
  record \<open>byteorder_pkg\<close>, an argument of every operation that decodes.
\<close>

section \<open>Encodings\<close>

record Encoding =
  encode :: bytes
  decodeMap :: bytes
  padChar :: rune
  strict :: bool

definition StdPadding :: rune where "StdPadding = 0x3D"

definition NoPadding :: rune where "NoPadding = - 1"

definition decodeMapInitialize :: bytes where "decodeMapInitialize = replicate 256 0xff"

definition invalidIndex :: u8 where "invalidIndex = 0xff"

function NewEncoding_loop :: "bytes \<Rightarrow> nat \<Rightarrow> bytes \<Rightarrow> panic + bytes" where
  "NewEncoding_loop encoder i dm =
     (if i < length encoder then
        (let c = encoder ! i in
         if c = 0x0A \<or> c = 0x0D then Inl (PanicMsg ''encoding alphabet contains newline character'')
         else if dm ! unat c \<noteq> invalidIndex then Inl (PanicMsg ''encoding alphabet includes duplicate symbols'')
         else NewEncoding_loop encoder (i + 1) (dm[unat c := of_nat i]))
      else Inr dm)"
  by auto
termination by (relation "measure (\<lambda>(encoder, i, dm). length encoder - i)") auto

declare NewEncoding_loop.simps [simp del]

definition NewEncoding :: "bytes \<Rightarrow> panic + Encoding" where
  "NewEncoding encoder =
     (if length encoder \<noteq> 64 then Inl (PanicMsg ''encoding alphabet is not 64-bytes long'')
      else case NewEncoding_loop encoder 0 decodeMapInitialize of
        Inl e \<Rightarrow> Inl e
      | Inr dm \<Rightarrow> Inr \<lparr>encode = encoder, decodeMap = dm, padChar = StdPadding, strict = False\<rparr>)"

definition WithPadding :: "Encoding \<Rightarrow> rune \<Rightarrow> panic + Encoding" where
  "WithPadding enc padding =
     (if sint padding < sint NoPadding \<or> padding = 0x0D \<or> padding = 0x0A \<or> sint padding > 0xff
      then Inl (PanicMsg ''invalid padding'')
      else if padding \<noteq> NoPadding \<and> decodeMap enc ! unat (ucast padding :: u8) \<noteq> invalidIndex
      then Inl (PanicMsg ''padding contained in alphabet'')
      else Inr (enc\<lparr>padChar := padding\<rparr>))"

definition Strict :: "Encoding \<Rightarrow> Encoding" where
  "Strict enc = enc\<lparr>strict := True\<rparr>"

definition StdEncoding :: "panic + Encoding" where
  "StdEncoding = NewEncoding (bytes_of ''ABCDEFGHIJKLMNOPQRSTUVWXYZabcdefghijklmnopqrstuvwxyz0123456789+/'')"

definition URLEncoding :: "panic + Encoding" where
  "URLEncoding = NewEncoding (bytes_of ''ABCDEFGHIJKLMNOPQRSTUVWXYZabcdefghijklmnopqrstuvwxyz0123456789-_'')"

definition RawStdEncoding :: "panic + Encoding" where
  "RawStdEncoding = (case StdEncoding of Inl e \<Rightarrow> Inl e | Inr enc \<Rightarrow> WithPadding enc NoPadding)"

definition RawURLEncoding :: "panic + Encoding" where
  "RawURLEncoding = (case URLEncoding of Inl e \<Rightarrow> Inl e | Inr enc \<Rightarrow> WithPadding enc NoPadding)"

section \<open>Encoder\<close>

text \<open>\<open>enc.encode[v & 0x3F]\<close>: the index is below 64, the length of the array.\<close>

definition symbol :: "Encoding \<Rightarrow> u64 \<Rightarrow> u8" where
  "symbol enc v = encode enc ! unat (v AND 0x3F)"

function Encode_loop :: "Encoding \<Rightarrow> bytes \<Rightarrow> nat \<Rightarrow> bytes \<Rightarrow> nat \<Rightarrow> nat \<Rightarrow> panic + bytes \<times> nat \<times> nat" where
  "Encode_loop enc src n dst di si =
     (if si < n then
        (let val = push_bit 16 (ucast (src ! si)) OR push_bit 8 (ucast (src ! (si + 1))) OR ucast (src ! (si + 2)) in
         case slice_puts dst di
           [symbol enc (drop_bit 18 val), symbol enc (drop_bit 12 val), symbol enc (drop_bit 6 val), symbol enc val] of
           Inl e \<Rightarrow> Inl e
         | Inr dst \<Rightarrow> Encode_loop enc src n dst (di + 4) (si + 3))
      else Inr (dst, di, si))"
  by auto
termination by (relation "measure (\<lambda>(enc, src, n, dst, di, si). n - si)") auto

declare Encode_loop.simps [simp del]

text \<open>The remaining small block of one or two bytes.\<close>

definition Encode_tail :: "Encoding \<Rightarrow> bytes \<Rightarrow> bytes \<Rightarrow> nat \<Rightarrow> nat \<Rightarrow> panic + bytes" where
  "Encode_tail enc src dst di si =
     (let remain = length src - si in
      if remain = 0 then Inr dst
      else let val = push_bit 16 (ucast (src ! si));
               val = (if remain = 2 then val OR push_bit 8 (ucast (src ! (si + 1))) else val)
        in case slice_puts dst di [symbol enc (drop_bit 18 val), symbol enc (drop_bit 12 val)] of
          Inl e \<Rightarrow> Inl e
        | Inr dst \<Rightarrow>
            (if remain = 2 then
               (case slice_put dst (di + 2) (symbol enc (drop_bit 6 val)) of
                  Inl e \<Rightarrow> Inl e
                | Inr dst \<Rightarrow> if padChar enc \<noteq> NoPadding then slice_put dst (di + 3) (ucast (padChar enc)) else Inr dst)
             else if remain = 1 then
               (if padChar enc \<noteq> NoPadding
                then slice_puts dst (di + 2) [ucast (padChar enc), ucast (padChar enc)] else Inr dst)
             else Inr dst))"

definition Encode :: "Encoding \<Rightarrow> bytes \<Rightarrow> bytes \<Rightarrow> panic + bytes" where
  "Encode enc dst src =
     (if length src = 0 then Inr dst
      else case Encode_loop enc src (length src div 3 * 3) dst 0 0 of
        Inl e \<Rightarrow> Inl e
      | Inr (dst, di, si) \<Rightarrow> Encode_tail enc src dst di si)"

text \<open>\<open>int\<close> is 64 bits wide: the multiplication wraps. The division truncates.\<close>

definition EncodedLen :: "Encoding \<Rightarrow> int \<Rightarrow> int" where
  "EncodedLen enc n =
     (if padChar enc = NoPadding
      then wrap64 (wrap64 (n sdiv 3 * 4) + (n smod 3 * 8 + 5) sdiv 6)
      else wrap64 (wrap64 (n + 2) sdiv 3 * 4))"

text \<open>\<open>make([]byte, n)\<close>.\<close>

definition make_bytes :: "int \<Rightarrow> panic + bytes" where
  "make_bytes n = (if n < 0 then Inl (PanicMsg ''makeslice: len out of range'') else Inr (replicate (nat n) 0))"

text \<open>
  \<open>slices.Grow\<close> (\<open>src/slices/slices.go\<close>) on the part of the backing array behind the slice: \<open>spare\<close> holds
  the bytes between the length and the capacity, and the result those of the grown slice. A new
  array may be longer than asked for; only the first \<open>n\<close> bytes behind the slice are used.
\<close>

definition slices_Grow :: "bytes \<Rightarrow> int \<Rightarrow> panic + bytes" where
  "slices_Grow spare n =
     (if n < 0 then Inl (PanicMsg ''cannot be negative'')
      else if n - int (length spare) > 0 then Inr (spare @ replicate (nat (n - int (length spare))) 0)
      else Inr spare)"

definition AppendEncode :: "Encoding \<Rightarrow> bytes \<Rightarrow> bytes \<Rightarrow> bytes \<Rightarrow> panic + bytes" where
  "AppendEncode enc dst spare src =
     (let n = EncodedLen enc (int (length src)) in
      case slices_Grow spare n of
        Inl e \<Rightarrow> Inl e
      | Inr spare \<Rightarrow>
          (case Encode enc (take (nat n) spare) src of
             Inl e \<Rightarrow> Inl e
           | Inr buf \<Rightarrow> Inr (dst @ buf)))"

definition EncodeToString :: "Encoding \<Rightarrow> bytes \<Rightarrow> panic + bytes" where
  "EncodeToString enc src =
     (case make_bytes (EncodedLen enc (int (length src))) of
        Inl e \<Rightarrow> Inl e
      | Inr buf \<Rightarrow> Encode enc buf src)"

text \<open>
  The stream encoder. The underlying \<open>io.Writer\<close> is a function on its own state; the count it returns
  is ignored by the code, a panic of the writer ends the call.
\<close>

record 'w encoder =
  e_err :: "io_error option"
  e_enc :: Encoding
  e_w :: 'w
  e_buf :: bytes
  e_nbuf :: nat
  e_out :: bytes

text \<open>The loop of the leading fringe: it fills \<open>buf\<close> and counts the bytes taken from \<open>p\<close>.\<close>

function encoder_fill :: "bytes \<Rightarrow> nat \<Rightarrow> bytes \<Rightarrow> nat \<Rightarrow> bytes \<times> nat \<times> nat" where
  "encoder_fill p i buf nbuf =
     (if i < length p \<and> nbuf < 3 then encoder_fill p (i + 1) (buf[nbuf := p ! i]) (nbuf + 1) else (buf, nbuf, i))"
  by auto
termination by (relation "measure (\<lambda>(p, i, buf, nbuf). length p - i)") auto

declare encoder_fill.simps [simp del]

text \<open>\<open>Encode\<close> into \<open>out\<close> followed by the write of its first \<open>k\<close> bytes.\<close>

definition encoder_flush :: "'w writer \<Rightarrow> 'w encoder \<Rightarrow> bytes \<Rightarrow> nat \<Rightarrow> panic + 'w encoder" where
  "encoder_flush wr e src k =
     (case Encode (e_enc e) (e_out e) src of
        Inl p \<Rightarrow> Inl p
      | Inr out \<Rightarrow>
          (if length out < k then Inl SliceBounds
           else case wr (e_w e) (take k out) of
             Inl p \<Rightarrow> Inl p
           | Inr (w, _, err) \<Rightarrow> Inr (e\<lparr>e_out := out, e_w := w, e_err := err\<rparr>)))"

text \<open>
  The loop over the large interior chunks; \<open>out\<close> is an array of 1024 bytes. The result holds the
  encoder, the count \<open>n\<close>, and either the error of a write or the rest of \<open>p\<close>.
\<close>

function encoder_chunks :: "'w writer \<Rightarrow> 'w encoder \<Rightarrow> bytes \<Rightarrow> nat \<Rightarrow> panic + 'w encoder \<times> nat \<times> (io_error + bytes)" where
  "encoder_chunks wr e p n =
     (if 3 \<le> length p then
        (let nn = 1024 div 4 * 3;
             nn = (if nn > length p then length p - length p mod 3 else nn)
         in case encoder_flush wr e (take nn p) (nn div 3 * 4) of
              Inl x \<Rightarrow> Inl x
            | Inr e \<Rightarrow>
                (case e_err e of
                   Some err \<Rightarrow> Inr (e, n, Inl err)
                 | None \<Rightarrow> encoder_chunks wr e (drop nn p) (n + nn)))
      else Inr (e, n, Inr p))"
  by auto
termination
proof (relation "measure (\<lambda>(wr, e, p, n). length p)", goal_cases)
  case (2 wr e p n)
  have "length p mod 3 < 3" by simp
  then have "length p mod 3 < length p" using 2(1) by linarith
  then show ?case using 2(1-3) by auto
qed simp

declare encoder_chunks.simps [simp del]

definition encoder_rest :: "'w writer \<Rightarrow> 'w encoder \<Rightarrow> bytes \<Rightarrow> nat \<Rightarrow> panic + 'w encoder \<times> nat \<times> io_error option" where
  "encoder_rest wr e p n =
     (case encoder_chunks wr e p n of
        Inl x \<Rightarrow> Inl x
      | Inr (e, n, Inl err) \<Rightarrow> Inr (e, n, Some err)
      | Inr (e, n, Inr p) \<Rightarrow> Inr (e\<lparr>e_buf := go_copy (e_buf e) p, e_nbuf := length p\<rparr>, n + length p, None))"

definition encoder_Write :: "'w writer \<Rightarrow> 'w encoder \<Rightarrow> bytes \<Rightarrow> panic + 'w encoder \<times> nat \<times> io_error option" where
  "encoder_Write wr e p =
     (case e_err e of
        Some err \<Rightarrow> Inr (e, 0, Some err)
      | None \<Rightarrow>
          if e_nbuf e > 0 then
            (case encoder_fill p 0 (e_buf e) (e_nbuf e) of
               (buf, nbuf, i) \<Rightarrow>
                 (let e = e\<lparr>e_buf := buf, e_nbuf := nbuf\<rparr> in
                  if nbuf < 3 then Inr (e, i, None)
                  else case encoder_flush wr e (e_buf e) 4 of
                    Inl x \<Rightarrow> Inl x
                  | Inr e \<Rightarrow>
                      (case e_err e of
                         Some err \<Rightarrow> Inr (e, i, Some err)
                       | None \<Rightarrow> encoder_rest wr (e\<lparr>e_nbuf := 0\<rparr>) (drop i p) i)))
          else encoder_rest wr e p 0)"

definition encoder_Close :: "'w writer \<Rightarrow> 'w encoder \<Rightarrow> panic + 'w encoder \<times> io_error option" where
  "encoder_Close wr e =
     (if e_err e = None \<and> e_nbuf e > 0 then
        (case encoder_flush wr e (take (e_nbuf e) (e_buf e)) (nat (EncodedLen (e_enc e) (int (e_nbuf e)))) of
           Inl x \<Rightarrow> Inl x
         | Inr e \<Rightarrow> Inr (e\<lparr>e_nbuf := 0\<rparr>, e_err e))
      else Inr (e, e_err e))"

definition NewEncoder :: "Encoding \<Rightarrow> 'w \<Rightarrow> 'w encoder" where
  "NewEncoder enc w = \<lparr>e_err = None, e_enc = enc, e_w = w, e_buf = replicate 3 0, e_nbuf = 0, e_out = replicate 1024 0\<rparr>"

section \<open>Decoder\<close>

datatype b64_error = CorruptInputError int

record byteorder_pkg =
  BEPutUint32 :: "bytes \<Rightarrow> u32 \<Rightarrow> panic + bytes"
  BEPutUint64 :: "bytes \<Rightarrow> u64 \<Rightarrow> panic + bytes"

definition newline :: "u8 \<Rightarrow> bool" where
  "newline c \<longleftrightarrow> c = 0x0A \<or> c = 0x0D"

function skip_newlines :: "bytes \<Rightarrow> nat \<Rightarrow> nat" where
  "skip_newlines src si = (if si < length src \<and> newline (src ! si) then skip_newlines src (si + 1) else si)"
  by auto
termination by (relation "measure (\<lambda>(src, si). length src - si)") auto

declare skip_newlines.simps [simp del]

text \<open>
  The loop of \<open>decodeQuantum\<close> leaves by a return (with no output) or by reaching the conversion of the
  \<open>dlen\<close> digits in \<open>dbuf\<close>.
\<close>

datatype quantum_exit =
    Quantum_return nat "b64_error option"
  | Quantum_digits bytes nat nat "b64_error option"

function decodeQuantum_loop :: "Encoding \<Rightarrow> bytes \<Rightarrow> nat \<Rightarrow> nat \<Rightarrow> bytes \<Rightarrow> panic + quantum_exit" where
  "decodeQuantum_loop enc src si j dbuf =
     (if j < 4 then
        if length src = si then
          if j = 0 then Inr (Quantum_return si None)
          else if j = 1 \<or> padChar enc \<noteq> NoPadding
          then Inr (Quantum_return si (Some (CorruptInputError (int si - int j))))
          else Inr (Quantum_digits dbuf j si None)
        else if length src < si then Inl IndexOutOfRange
        else
          (let c = src ! si; si = si + 1; d = decodeMap enc ! unat c in
           if d \<noteq> 0xff then decodeQuantum_loop enc src si (j + 1) (dbuf[j := d])
           else if newline c then decodeQuantum_loop enc src si j dbuf
           else if ucast c \<noteq> padChar enc \<or> j = 0 \<or> j = 1
           then Inr (Quantum_return si (Some (CorruptInputError (int si - 1))))
           else
             (case (if j = 2 then
                      (let si = skip_newlines src si in
                       if si = length src then Inl (si, CorruptInputError (int (length src)))
                       else if ucast (src ! si) \<noteq> padChar enc then Inl (si, CorruptInputError (int si - 1))
                       else Inr (si + 1))
                    else Inr si) of
                Inl (si, err) \<Rightarrow> Inr (Quantum_return si (Some err))
              | Inr si \<Rightarrow>
                  (let si = skip_newlines src si in
                   Inr (Quantum_digits dbuf j si (if si < length src then Some (CorruptInputError (int si)) else None)))))
      else Inr (Quantum_digits dbuf 4 si None))"
  by auto
termination by (relation "measure (\<lambda>(enc, src, si, j, dbuf). length src - si)") auto

declare decodeQuantum_loop.simps [simp del]

text \<open>The final \<open>switch\<close> on the number of digits, which falls through from 4 to 3 to 2.\<close>

definition store_digits ::
  "Encoding \<Rightarrow> bytes \<Rightarrow> u8 \<Rightarrow> u8 \<Rightarrow> u8 \<Rightarrow> nat \<Rightarrow> nat \<Rightarrow> b64_error option \<Rightarrow> panic + bytes \<times> nat \<times> nat \<times> b64_error option" where
  "store_digits enc dst b0 b1 b2 dlen si err =
     (case (if dlen = 4
            then (case slice_put dst 2 b2 of Inl e \<Rightarrow> Inl e | Inr dst \<Rightarrow> Inr (dst, 0)) else Inr (dst, b2)) of
        Inl e \<Rightarrow> Inl e
      | Inr (dst, b2) \<Rightarrow>
          (case (if dlen = 4 \<or> dlen = 3
                 then (case slice_put dst 1 b1 of
                         Inl e \<Rightarrow> Inl e
                       | Inr dst \<Rightarrow> Inr (dst, 0, strict enc \<and> b2 \<noteq> 0))
                 else Inr (dst, b1, False)) of
             Inl e \<Rightarrow> Inl e
           | Inr (dst, b1, bad) \<Rightarrow>
               (if bad then Inr (dst, si, 0, Some (CorruptInputError (int si - 1)))
                else if dlen = 4 \<or> dlen = 3 \<or> dlen = 2 then
                  (case slice_put dst 0 b0 of
                     Inl e \<Rightarrow> Inl e
                   | Inr dst \<Rightarrow>
                       if strict enc \<and> (b1 \<noteq> 0 \<or> b2 \<noteq> 0)
                       then Inr (dst, si, 0, Some (CorruptInputError (int si - 2)))
                       else Inr (dst, si, dlen - 1, err))
                else Inr (dst, si, dlen - 1, err))))"

definition decodeQuantum :: "Encoding \<Rightarrow> bytes \<Rightarrow> bytes \<Rightarrow> nat \<Rightarrow> panic + bytes \<times> nat \<times> nat \<times> b64_error option" where
  "decodeQuantum enc dst src si =
     (case decodeQuantum_loop enc src si 0 [0, 0, 0, 0] of
        Inl e \<Rightarrow> Inl e
      | Inr (Quantum_return si err) \<Rightarrow> Inr (dst, si, 0, err)
      | Inr (Quantum_digits dbuf dlen si err) \<Rightarrow>
          (let val = push_bit 18 (ucast (dbuf ! 0)) OR push_bit 12 (ucast (dbuf ! 1)) OR
                     push_bit 6 (ucast (dbuf ! 2)) OR (ucast (dbuf ! 3) :: u64)
           in store_digits enc dst (ucast (drop_bit 16 val)) (ucast (drop_bit 8 val)) (ucast val) dlen si err))"

text \<open>A quantum that starts inside the source reads at least one byte and stays inside it.\<close>

lemma skip_newlines_bounds: "si \<le> length src \<Longrightarrow> si \<le> skip_newlines src si \<and> skip_newlines src si \<le> length src"
  by (induction src si rule: skip_newlines.induct) (subst (1 2) skip_newlines.simps, auto)

definition exit_index :: "quantum_exit \<Rightarrow> nat" where
  "exit_index q = (case q of Quantum_return si _ \<Rightarrow> si | Quantum_digits _ _ si _ \<Rightarrow> si)"

lemma exit_index_simps [simp]:
  "exit_index (Quantum_return si err) = si" "exit_index (Quantum_digits b d si err) = si"
  by (simp_all add: exit_index_def)

lemma decodeQuantum_loop_index:
  "si \<le> length src \<Longrightarrow>
   \<exists>q. decodeQuantum_loop enc src si j dbuf = Inr q \<and> si \<le> exit_index q \<and> exit_index q \<le> length src \<and>
     (j < 4 \<longrightarrow> si < length src \<longrightarrow> si < exit_index q)"
proof (induction enc src si j dbuf rule: decodeQuantum_loop.induct)
  case (1 enc src si j dbuf)
  have k: "k \<le> skip_newlines src k" "skip_newlines src k \<le> length src" if "k \<le> length src" for k
    using skip_newlines_bounds [OF that] by auto
  show ?case
  proof (cases "j < 4 \<and> si < length src")
    case True
    then have s: "Suc si \<le> length src" by simp
    note IH = "1.IH" [OF _ _ _ refl refl refl]
    have "\<exists>q. decodeQuantum_loop enc src (si + 1) (j + 1) (dbuf[j := decodeMap enc ! unat (src ! si)]) = Inr q \<and>
       si + 1 \<le> exit_index q \<and> exit_index q \<le> length src" if "decodeMap enc ! unat (src ! si) \<noteq> 0xff"
      using IH(1) that True by force
    moreover have "\<exists>q. decodeQuantum_loop enc src (si + 1) j dbuf = Inr q \<and> si + 1 \<le> exit_index q \<and> exit_index q \<le> length src"
      if "decodeMap enc ! unat (src ! si) = 0xff" "newline (src ! si)"
      using IH(2) that True by force
    ultimately show ?thesis using True k [OF s] k [of "Suc (skip_newlines src (Suc si))"]
      by (subst decodeQuantum_loop.simps) (auto simp: Let_def Suc_le_eq)
  next
    case False
    then show ?thesis using "1.prems" by (subst decodeQuantum_loop.simps) auto
  qed
qed

lemma decodeQuantum_index:
  assumes "decodeQuantum enc dst src si = Inr (dst', si', n, err)" "si < length src"
  shows "si < si' \<and> si' \<le> length src"
proof -
  obtain q where "decodeQuantum_loop enc src si 0 [0, 0, 0, 0] = Inr q" "si < exit_index q" "exit_index q \<le> length src"
    using decodeQuantum_loop_index [of si src enc 0] assms(2) by auto
  then show ?thesis using assms(1)
    by (cases q) (auto simp: decodeQuantum_def store_digits_def Let_def split: sum.splits if_splits prod.splits)
qed

definition assemble32 :: "u8 \<Rightarrow> u8 \<Rightarrow> u8 \<Rightarrow> u8 \<Rightarrow> u32 \<times> bool" where
  "assemble32 n1 n2 n3 n4 =
     (if n1 OR n2 OR n3 OR n4 = 0xff then (0, False)
      else (push_bit 26 (ucast n1) OR push_bit 20 (ucast n2) OR push_bit 14 (ucast n3) OR push_bit 8 (ucast n4), True))"

definition assemble64 :: "u8 \<Rightarrow> u8 \<Rightarrow> u8 \<Rightarrow> u8 \<Rightarrow> u8 \<Rightarrow> u8 \<Rightarrow> u8 \<Rightarrow> u8 \<Rightarrow> u64 \<times> bool" where
  "assemble64 n1 n2 n3 n4 n5 n6 n7 n8 =
     (if n1 OR n2 OR n3 OR n4 OR n5 OR n6 OR n7 OR n8 = 0xff then (0, False)
      else (push_bit 58 (ucast n1) OR push_bit 52 (ucast n2) OR push_bit 46 (ucast n3) OR push_bit 40 (ucast n4) OR
            push_bit 34 (ucast n5) OR push_bit 28 (ucast n6) OR push_bit 22 (ucast n7) OR push_bit 16 (ucast n8), True))"

text \<open>A call on the subslice \<open>dst[n:]\<close> writes through to \<open>dst\<close>.\<close>

definition put_at :: "bytes \<Rightarrow> nat \<Rightarrow> (bytes \<Rightarrow> panic + bytes) \<Rightarrow> panic + bytes" where
  "put_at dst n f =
     (if length dst < n then Inl SliceBounds
      else case f (drop n dst) of Inl e \<Rightarrow> Inl e | Inr d \<Rightarrow> Inr (take n dst @ d))"

definition decodeQuantum_at ::
  "Encoding \<Rightarrow> bytes \<Rightarrow> nat \<Rightarrow> bytes \<Rightarrow> nat \<Rightarrow> panic + bytes \<times> nat \<times> nat \<times> b64_error option" where
  "decodeQuantum_at enc dst n src si =
     (if length dst < n then Inl SliceBounds
      else case decodeQuantum enc (drop n dst) src si of
        Inl e \<Rightarrow> Inl e
      | Inr (d, si, ninc, err) \<Rightarrow> Inr (take n dst @ d, si, n + ninc, err))"

lemma decodeQuantum_at_index:
  assumes "decodeQuantum_at enc dst n src si = Inr (dst', si', n', err)" "si < length src"
  shows "si < si' \<and> si' \<le> length src"
  using assms decodeQuantum_index
  by (fastforce simp: decodeQuantum_at_def split: if_splits sum.splits prod.splits)

function Decode_loop64 ::
  "byteorder_pkg \<Rightarrow> Encoding \<Rightarrow> bytes \<Rightarrow> bytes \<Rightarrow> nat \<Rightarrow> nat \<Rightarrow> panic + bytes \<times> nat \<times> nat \<times> b64_error option" where
  "Decode_loop64 bo enc src dst n si =
     (if si + 8 \<le> length src \<and> n + 8 \<le> length dst then
        (let d = (\<lambda>i. decodeMap enc ! unat (src ! (si + i))) in
         case assemble64 (d 0) (d 1) (d 2) (d 3) (d 4) (d 5) (d 6) (d 7) of
           (dn, ok) \<Rightarrow>
             if ok then
               (case put_at dst n (\<lambda>b. BEPutUint64 bo b dn) of
                  Inl e \<Rightarrow> Inl e
                | Inr dst \<Rightarrow> Decode_loop64 bo enc src dst (n + 6) (si + 8))
             else
               (case decodeQuantum_at enc dst n src si of
                  Inl e \<Rightarrow> Inl e
                | Inr (dst, si, n, Some err) \<Rightarrow> Inr (dst, si, n, Some err)
                | Inr (dst, si, n, None) \<Rightarrow> Decode_loop64 bo enc src dst n si))
      else Inr (dst, si, n, None))"
  by pat_completeness auto
termination
  by (relation "measure (\<lambda>(bo, enc, src, dst, n, si). length src - si)") (auto dest!: decodeQuantum_at_index)

declare Decode_loop64.simps [simp del]

function Decode_loop32 ::
  "byteorder_pkg \<Rightarrow> Encoding \<Rightarrow> bytes \<Rightarrow> bytes \<Rightarrow> nat \<Rightarrow> nat \<Rightarrow> panic + bytes \<times> nat \<times> nat \<times> b64_error option" where
  "Decode_loop32 bo enc src dst n si =
     (if si + 4 \<le> length src \<and> n + 4 \<le> length dst then
        (let d = (\<lambda>i. decodeMap enc ! unat (src ! (si + i))) in
         case assemble32 (d 0) (d 1) (d 2) (d 3) of
           (dn, ok) \<Rightarrow>
             if ok then
               (case put_at dst n (\<lambda>b. BEPutUint32 bo b dn) of
                  Inl e \<Rightarrow> Inl e
                | Inr dst \<Rightarrow> Decode_loop32 bo enc src dst (n + 3) (si + 4))
             else
               (case decodeQuantum_at enc dst n src si of
                  Inl e \<Rightarrow> Inl e
                | Inr (dst, si, n, Some err) \<Rightarrow> Inr (dst, si, n, Some err)
                | Inr (dst, si, n, None) \<Rightarrow> Decode_loop32 bo enc src dst n si))
      else Inr (dst, si, n, None))"
  by pat_completeness auto
termination
  by (relation "measure (\<lambda>(bo, enc, src, dst, n, si). length src - si)") (auto dest!: decodeQuantum_at_index)

declare Decode_loop32.simps [simp del]

function Decode_loop :: "Encoding \<Rightarrow> bytes \<Rightarrow> bytes \<Rightarrow> nat \<Rightarrow> nat \<Rightarrow> panic + bytes \<times> nat \<times> b64_error option" where
  "Decode_loop enc src dst n si =
     (if si < length src then
        (case decodeQuantum_at enc dst n src si of
           Inl e \<Rightarrow> Inl e
         | Inr (dst, si, n, Some err) \<Rightarrow> Inr (dst, n, Some err)
         | Inr (dst, si, n, None) \<Rightarrow> Decode_loop enc src dst n si)
      else Inr (dst, n, None))"
  by pat_completeness auto
termination
  by (relation "measure (\<lambda>(enc, src, dst, n, si). length src - si)") (auto dest!: decodeQuantum_at_index)

declare Decode_loop.simps [simp del]

text \<open>\<open>strconv.IntSize\<close> is 64: the first loop runs.\<close>

definition Decode :: "byteorder_pkg \<Rightarrow> Encoding \<Rightarrow> bytes \<Rightarrow> bytes \<Rightarrow> panic + bytes \<times> nat \<times> b64_error option" where
  "Decode bo enc dst src =
     (if length src = 0 then Inr (dst, 0, None)
      else case Decode_loop64 bo enc src dst 0 0 of
        Inl e \<Rightarrow> Inl e
      | Inr (dst, si, n, Some err) \<Rightarrow> Inr (dst, n, Some err)
      | Inr (dst, si, n, None) \<Rightarrow>
          (case Decode_loop32 bo enc src dst n si of
             Inl e \<Rightarrow> Inl e
           | Inr (dst, si, n, Some err) \<Rightarrow> Inr (dst, n, Some err)
           | Inr (dst, si, n, None) \<Rightarrow> Decode_loop enc src dst n si))"

definition decodedLen :: "int \<Rightarrow> rune \<Rightarrow> int" where
  "decodedLen n pad =
     (if pad = NoPadding then wrap64 (wrap64 (n sdiv 4 * 3) + n smod 4 * 6 sdiv 8)
      else wrap64 (n sdiv 4 * 3))"

definition DecodedLen :: "Encoding \<Rightarrow> int \<Rightarrow> int" where
  "DecodedLen enc n = decodedLen n (padChar enc)"

fun trim_padding :: "Encoding \<Rightarrow> bytes \<Rightarrow> nat \<Rightarrow> nat" where
  "trim_padding enc src 0 = 0"
| "trim_padding enc src (Suc n) = (if ucast (src ! n) = padChar enc then trim_padding enc src n else Suc n)"

definition AppendDecode :: "byteorder_pkg \<Rightarrow> Encoding \<Rightarrow> bytes \<Rightarrow> bytes \<Rightarrow> bytes \<Rightarrow> panic + bytes \<times> b64_error option" where
  "AppendDecode bo enc dst spare src =
     (let n = decodedLen (int (trim_padding enc src (length src))) NoPadding in
      case slices_Grow spare n of
        Inl e \<Rightarrow> Inl e
      | Inr spare \<Rightarrow>
          (case Decode bo enc (take (nat n) spare) src of
             Inl e \<Rightarrow> Inl e
           | Inr (buf, n, err) \<Rightarrow> Inr (dst @ take n buf, err)))"

definition DecodeString :: "byteorder_pkg \<Rightarrow> Encoding \<Rightarrow> bytes \<Rightarrow> panic + bytes \<times> b64_error option" where
  "DecodeString bo enc s =
     (case make_bytes (DecodedLen enc (int (length s))) of
        Inl e \<Rightarrow> Inl e
      | Inr dbuf \<Rightarrow>
          (case Decode bo enc dbuf s of
             Inl e \<Rightarrow> Inl e
           | Inr (dbuf, n, err) \<Rightarrow> Inr (take n dbuf, err)))"

end
