(* ===== verification/Base64_Encode.thy ===== *)
theory Base64_Encode
  imports Base64
begin

text \<open>
  The alphabets and the encoder of \<open>encoding/base64\<close>. \<open>alphabet_ok\<close> and \<open>padding_ok\<close> are the type invariants of
  an \<open>Encoding\<close>; \<open>b64_enc\<close> is the encoding as a function on lists, and \<open>Encode\<close> writes exactly it.
\<close>

section \<open>Alphabets\<close>

definition alphabet_ok :: "Encoding \<Rightarrow> bool" where
  "alphabet_ok enc \<longleftrightarrow>
     length (encode enc) = 64 \<and> length (decodeMap enc) = 256 \<and>
     (\<forall>i<64. decodeMap enc ! unat (encode enc ! i) = of_nat i) \<and>
     (\<forall>k<256. decodeMap enc ! k \<noteq> 0xff \<longrightarrow>
        unat (decodeMap enc ! k) < 64 \<and> encode enc ! unat (decodeMap enc ! k) = of_nat k) \<and>
     \<not> list_ex newline (encode enc)"

definition padding_ok :: "Encoding \<Rightarrow> bool" where
  "padding_ok enc \<longleftrightarrow> padChar enc = NoPadding \<or>
     unat (padChar enc) \<le> 0xff \<and> \<not> newline (ucast (padChar enc)) \<and> decodeMap enc ! unat (padChar enc) = 0xff"

definition map_prefix :: "bytes \<Rightarrow> nat \<Rightarrow> bytes \<Rightarrow> bool" where
  "map_prefix encoder i dm \<longleftrightarrow> length dm = 256 \<and>
     (\<forall>k<i. dm ! unat (encoder ! k) = of_nat k \<and> \<not> newline (encoder ! k)) \<and>
     (\<forall>c. dm ! unat (c :: u8) \<noteq> 0xff \<longrightarrow> (\<exists>k<i. encoder ! k = c))"

lemma unat_u8_less: "unat (c :: u8) < 256"
  using unat_lt2p [of c] by simp

lemma map_prefix_step:
  assumes "map_prefix encoder i dm" "i < 64" "\<not> newline (encoder ! i)" "dm ! unat (encoder ! i) = 0xff"
  shows "map_prefix encoder (Suc i) (dm[unat (encoder ! i) := of_nat i])"
proof -
  have "\<forall>k<i. encoder ! k \<noteq> encoder ! i"
  proof (intro allI impI notI)
    fix k
    assume that: "k < i" and "encoder ! k = encoder ! i"
    then have "(of_nat k :: u8) = 0xff" using assms(1,4) that by (auto simp: map_prefix_def)
    then have "unat (of_nat k :: u8) = 255" by simp
    then show False using that assms(2) by (simp add: unat_of_nat)
  qed
  then show ?thesis using assms
    by (auto simp: map_prefix_def nth_list_update unat_u8_less less_Suc_eq simp flip: word_unat_eq_iff)
qed

lemma map_prefix_distinct:
  assumes "map_prefix encoder i dm" "i \<le> 64" "length encoder = 64"
  shows "distinct (take i encoder)" "\<not> list_ex newline (take i encoder)"
proof -
  have "(of_nat k :: u8) = of_nat l \<longleftrightarrow> k = l" if "k < 64" "l < 64" for k l
    using that by (simp add: word_unat_eq_iff unat_of_nat)
  then show "distinct (take i encoder)" using assms
    by (auto simp: map_prefix_def distinct_conv_nth) (metis (no_types, lifting) order.strict_trans2)
  show "\<not> list_ex newline (take i encoder)" using assms
    by (auto simp: map_prefix_def list_ex_length)
qed

lemma NewEncoding_loop_spec:
  assumes "map_prefix encoder i dm" "length encoder = 64" "i \<le> 64"
  shows "case NewEncoding_loop encoder i dm of
      Inr dm' \<Rightarrow> map_prefix encoder 64 dm'
    | Inl e \<Rightarrow> (\<exists>k<64. \<not> list_ex newline (take k encoder) \<and> distinct (take k encoder) \<and>
        (if newline (encoder ! k) then e = PanicMsg ''encoding alphabet contains newline character''
         else encoder ! k \<in> set (take k encoder) \<and> e = PanicMsg ''encoding alphabet includes duplicate symbols''))"
  using assms
proof (induction encoder i dm rule: NewEncoding_loop.induct)
  case (1 encoder i dm)
  note d = map_prefix_distinct [OF "1.prems"(1,3,2)]
  consider "i = 64" | "i < 64" "newline (encoder ! i)" | "i < 64" "\<not> newline (encoder ! i)" "dm ! unat (encoder ! i) \<noteq> 0xff"
    | "i < 64" "\<not> newline (encoder ! i)" "dm ! unat (encoder ! i) = 0xff" using "1.prems"(3) by fastforce
  then show ?case
  proof cases
    case 3
    then obtain k where "k < i" "encoder ! k = encoder ! i" using "1.prems"(1) by (auto simp: map_prefix_def)
    then have "encoder ! i \<in> set (take i encoder)" using 3 "1.prems"(2) by (auto simp: in_set_conv_nth)
    then show ?thesis using 3 d "1.prems"(2)
      by (subst NewEncoding_loop.simps) (auto simp: newline_def invalidIndex_def Let_def intro!: exI [of _ i])
  next
    case 4
    then show ?thesis using "1.IH" [OF _ refl] "1.prems" map_prefix_step [OF "1.prems"(1) 4]
      by (subst NewEncoding_loop.simps) (auto simp: newline_def invalidIndex_def Let_def)
  qed (use "1.prems" d in \<open>subst NewEncoding_loop.simps, auto simp: newline_def Let_def intro!: exI [of _ i]\<close>)+
qed

lemma map_prefix_init: "map_prefix encoder 0 decodeMapInitialize"
  by (simp add: map_prefix_def decodeMapInitialize_def unat_u8_less)

lemma NewEncoding_Inr:
  assumes "NewEncoding a = Inr enc"
  shows "alphabet_ok enc" "encode enc = a" "padChar enc = StdPadding" "\<not> strict enc" 
    "length a = 64" "distinct a" "\<not> list_ex newline a"
proof -
  obtain dm where l: "length a = 64" and dm: "NewEncoding_loop a 0 decodeMapInitialize = Inr dm"
    and enc: "enc = \<lparr>encode = a, decodeMap = dm, padChar = StdPadding, strict = False\<rparr>"
    using assms by (auto simp: NewEncoding_def split: if_splits sum.splits)
  have m: "map_prefix a 64 dm" using NewEncoding_loop_spec [OF map_prefix_init l] dm by simp
  show "distinct a" "\<not> list_ex newline a" using map_prefix_distinct [OF m _ l] l by simp_all
  have "unat (dm ! k) < 64 \<and> a ! unat (dm ! k) = of_nat k" if k: "k < 256" "dm ! k \<noteq> 0xff" for k
  proof -
    have u: "unat (of_nat k :: u8) = k" using k by (simp add: unat_of_nat)
    obtain i where "i < 64" "a ! i = of_nat k" using m k u unfolding map_prefix_def by metis
    then show ?thesis using m u by (auto simp: map_prefix_def unat_of_nat)
  qed
  then show "alphabet_ok enc" using m enc l
    by (auto simp: alphabet_ok_def map_prefix_def list_ex_length)
qed (use assms in \<open>auto simp: NewEncoding_def split: if_splits sum.splits\<close>)

lemma decodeMap_alphabet:
  assumes "alphabet_ok enc"
  shows "decodeMap enc ! unat c \<noteq> 0xff \<longleftrightarrow> c \<in> set (encode enc)"
proof
  have k: "unat c < 256" by (rule unat_u8_less)
  { assume "decodeMap enc ! unat c \<noteq> 0xff"
    then show "c \<in> set (encode enc)" using assms k by (force simp: alphabet_ok_def in_set_conv_nth) }
  { assume "c \<in> set (encode enc)"
    then obtain i where i: "i < 64" "encode enc ! i = c" using assms by (auto simp: alphabet_ok_def in_set_conv_nth)
    then have "decodeMap enc ! unat c = of_nat i" using assms by (auto simp: alphabet_ok_def)
    moreover have "unat (of_nat i :: u8) \<noteq> unat (0xff :: u8)" using i by (simp add: unat_of_nat)
    ultimately show "decodeMap enc ! unat c \<noteq> 0xff" by metis }
qed

lemma WithPadding_spec:
  assumes "alphabet_ok enc"
  shows "WithPadding enc p =
     (if p = NoPadding \<or> unat p \<le> 0xff \<and> \<not> newline (ucast p) \<and> ucast p \<notin> set (encode enc)
      then Inr (enc\<lparr>padChar := p\<rparr>)
      else if unat p \<le> 0xff \<and> \<not> newline (ucast p) then Inl (PanicMsg ''padding contained in alphabet'')
      else Inl (PanicMsg ''invalid padding''))"
proof -
  have "sint p < sint NoPadding \<or> p = 0x0D \<or> p = 0x0A \<or> sint p > 0xff \<longleftrightarrow> 
    p \<noteq> NoPadding \<and> \<not> (unat p \<le> 0xff \<and> \<not> newline (ucast p))"
  proof -
    obtain u where u: "unat p = u" by blast
    have "u < 4294967296" using unat_lt2p [of p] u by simp
    moreover have n: "unat NoPadding = 4294967295"
      by (simp add: NoPadding_def unsigned_minus_1_eq_mask mask_eq_exp_minus_1)
    moreover have "sint NoPadding = - 1" using sint_unat [of NoPadding] unfolding n by simp
    moreover have "sint p = (if u < 2147483648 then int u else int u - 4294967296)" using sint_unat [of p] unfolding u by simp
    moreover have "newline (ucast p) \<longleftrightarrow> u mod 256 = 10 \<or> u mod 256 = 13"
      by (simp add: newline_def word_unat_eq_iff unat_ucast u)
    ultimately show ?thesis unfolding word_unat_eq_iff [of p] u by (auto split: if_splits)
  qed
  then show ?thesis using decodeMap_alphabet [OF assms] by (auto simp: WithPadding_def invalidIndex_def)
qed

section \<open>Encoding\<close>

definition pack3 :: "u8 \<Rightarrow> u8 \<Rightarrow> u8 \<Rightarrow> u64" where
  "pack3 a b c = push_bit 16 (ucast a) OR push_bit 8 (ucast b) OR ucast c"

definition pads :: "Encoding \<Rightarrow> nat \<Rightarrow> bytes" where
  "pads enc k = (if padChar enc = NoPadding then [] else replicate k (ucast (padChar enc)))"

definition quad :: "Encoding \<Rightarrow> u8 \<Rightarrow> u8 \<Rightarrow> u8 \<Rightarrow> bytes" where
  "quad enc a b c = [symbol enc (drop_bit 18 (pack3 a b c)), symbol enc (drop_bit 12 (pack3 a b c)),
     symbol enc (drop_bit 6 (pack3 a b c)), symbol enc (pack3 a b c)]"

fun b64_enc :: "Encoding \<Rightarrow> bytes \<Rightarrow> bytes" where
  "b64_enc enc [] = []"
| "b64_enc enc [a] = take 2 (quad enc a 0 0) @ pads enc 2"
| "b64_enc enc [a, b] = take 3 (quad enc a b 0) @ pads enc 1"
| "b64_enc enc (a # b # c # r) = quad enc a b c @ b64_enc enc r"

lemma length_quad [simp]: "length (quad enc a b c) = 4"
  by (simp add: quad_def)

lemma length_pads: "length (pads enc k) = (if padChar enc = NoPadding then 0 else k)"
  by (simp add: pads_def)

lemma b64_enc_append: "length xs mod 3 = 0 \<Longrightarrow> b64_enc enc (xs @ ys) = b64_enc enc xs @ b64_enc enc ys"
  by (induction enc xs rule: b64_enc.induct) (simp_all add: mod_Suc split: if_splits)

lemma div3_step: "(3 + m) div 3 = Suc (m div 3)" "(5 + m) div 3 = Suc (Suc (Suc m) div 3)" for m :: nat
  by presburger+

lemma length_b64_enc:
  "length (b64_enc enc xs) =
     (if padChar enc = NoPadding then length xs div 3 * 4 + (length xs mod 3 * 8 + 5) div 6 else (length xs + 2) div 3 * 4)"
  by (induction enc xs rule: b64_enc.induct) (simp_all add: length_pads div3_step)

lemma Encode_loop_step:
  "Encode_loop enc src n dst di si =
     (if si < n then
        (case slice_puts dst di (quad enc (src ! si) (src ! (si + 1)) (src ! (si + 2))) of
           Inl e \<Rightarrow> Inl e
         | Inr dst \<Rightarrow> Encode_loop enc src n dst (di + 4) (si + 3))
      else Inr (dst, di, si))"
  by (subst Encode_loop.simps) (simp only: Let_def quad_def pack3_def)

lemma take3: "take (3 + m) (a # b # c # r) = a # b # c # take m r"
  by (simp add: numeral_3_eq_3)

lemma Encode_loop_spec:
  "Encode_loop enc (pre @ src) (length pre + length src div 3 * 3) (out @ d) (length out) (length pre) =
     (let full = b64_enc enc (take (length src div 3 * 3) src) in
      if length full \<le> length d
      then Inr (out @ full @ drop (length full) d, length out + length full, length pre + length src div 3 * 3)
      else Inl IndexOutOfRange)"
proof (induction enc src arbitrary: pre out d rule: b64_enc.induct)
  case (4 enc a b c r)
  have p: "pre @ a # b # c # r = (pre @ [a, b, c]) @ r" "out @ quad enc a b c @ drop 4 d = (out @ quad enc a b c) @ drop 4 d"
    by simp_all
  have q: "slice_puts (out @ d) (length out) (quad enc a b c) =
     (if 4 \<le> length d then Inr ((out @ quad enc a b c) @ drop 4 d) else Inl IndexOutOfRange)"
    using slice_puts_append [of out d "quad enc a b c"] by simp
  have n: "(pre @ a # b # c # r) ! length pre = a" "(pre @ a # b # c # r) ! (length pre + 1) = b" "(pre @ a # b # c # r) ! (length pre + 2) = c"
    by (simp_all add: nth_append)
  have t: "take (length (a # b # c # r) div 3 * 3) (a # b # c # r) = a # b # c # take (length r div 3 * 3) r"
    using take3 [of "length r div 3 * 3"] by (simp add: div3_step)
  have m: "length pre + length (a # b # c # r) div 3 * 3 = length (pre @ [a, b, c]) + length r div 3 * 3"
    "length out + 4 = length (out @ quad enc a b c)" "length pre + 3 = length (pre @ [a, b, c])"
    by (simp_all add: div3_step)
  note IH = "4.IH" [of "pre @ [a, b, c]" "out @ quad enc a b c" "drop 4 d"]
  have "length pre < length pre + length (a # b # c # r) div 3 * 3" by (simp add: div3_step)
  then show ?case
    unfolding Encode_loop_step [of _ _ _ _ "length out"] n q t
    by (cases "4 \<le> length d") (simp_all only: if_True sum.case p(1) m IH if_False, auto simp: Let_def add.commute)
qed (subst Encode_loop.simps, simp)+

lemma EncodedLen_eq:
  assumes "length xs < 2 ^ 62"
  shows "EncodedLen enc (int (length xs)) = int (length (b64_enc enc xs))"
proof -
  define n where "n = length xs"
  have n: "int n < 2 ^ 62" using assms unfolding n_def by (metis of_nat_less_iff of_nat_numeral of_nat_power)
  have d: "int n sdiv 3 = int n div 3" "int n smod 3 = int n mod 3" "(int n mod 3 * 8 + 5) sdiv 6 = (int n mod 3 * 8 + 5) div 6"
     "(int n + 2) sdiv 3 = (int n + 2) div 3" 
    by (simp_all add: signed_divide_int_def signed_modulo_int_def sgn_if)
  have m: "0 \<le> int n mod 3" "int n mod 3 < 3" by simp_all
  have w: "wrap64 (int n div 3 * 4) = int n div 3 * 4" 
    "wrap64 (int n div 3 * 4 + (int n mod 3 * 8 + 5) div 6) = int n div 3 * 4 + (int n mod 3 * 8 + 5) div 6"
    "wrap64 (int n + 2) = int n + 2" "wrap64 ((int n + 2) div 3 * 4) = (int n + 2) div 3 * 4"
    by (rule wrap64_small; use n m in simp)+
  show ?thesis unfolding EncodedLen_def length_b64_enc n_def [symmetric] 
    by (auto simp: w d zdiv_int zmod_int)
qed

lemma Encode_tail_spec:
  assumes "length (drop si src) < 3" "si \<le> length src"
  shows "Encode_tail enc src dst di si = slice_puts dst di (b64_enc enc (drop si src))"
proof -
  define rest where "rest = drop si src"
  have nth: "src ! si = rest ! 0" "src ! (si + 1) = rest ! 1" and l: "length src - si = length rest"
    using assms by (simp_all add: rest_def)
  have q: "[symbol enc (drop_bit 18 (pack3 a b c)), symbol enc (drop_bit 12 (pack3 a b c))] = take 2 (quad enc a b c)" for a b c
    by (simp add: quad_def)
  consider "rest = []" | a where "rest = [a]" | a b where "rest = [a, b]"
    using assms(1) unfolding rest_def [symmetric] by (cases rest; cases "tl rest"; cases "tl (tl rest)"; auto)
  then show ?thesis
  proof cases
    case 1
    then show ?thesis by (simp add: Encode_tail_def l rest_def)
  next
    case 2
    have v: "push_bit 16 (ucast a) = pack3 a 0 0" by (simp add: pack3_def)
    show ?thesis using 2
      unfolding Encode_tail_def l nth Let_def rest_def [symmetric]
      by (auto simp: v q pads_def slice_puts_bind slice_put_puts numeral_2_eq_2 simp del: slice_puts.simps(2) split: sum.split)
  next
    case 3
    have v: "push_bit 16 (ucast a) OR push_bit 8 (ucast b) = pack3 a b 0" by (simp add: pack3_def)
    have t: "take 3 (quad enc a b 0) = take 2 (quad enc a b 0) @ [symbol enc (drop_bit 6 (pack3 a b 0))]" by (simp add: quad_def)
    show ?thesis using 3
      unfolding Encode_tail_def l nth Let_def rest_def [symmetric]
      by (auto simp: v q t pads_def slice_puts_bind slice_puts_two slice_put_puts numeral_3_eq_3 [THEN arg_cong [of _ _ "(+) di"]]
          simp del: slice_puts.simps(2) split: sum.split)
  qed
qed

lemma Encode_spec:
  "Encode enc dst src =
     (if length (b64_enc enc src) \<le> length dst then Inr (b64_enc enc src @ drop (length (b64_enc enc src)) dst)
      else Inl IndexOutOfRange)"
proof -
  define k where "k = length src div 3 * 3"
  define full where "full = b64_enc enc (take k src)"
  have k: "k \<le> length src" "k mod 3 = 0" "length src - k < 3" unfolding k_def by presburger+
  have enc: "b64_enc enc src = full @ b64_enc enc (drop k src)"
    using b64_enc_append [of "take k src" enc "drop k src"] k by (simp add: full_def)
  have loop: "Encode_loop enc src k dst 0 0 =
     (if length full \<le> length dst then Inr (full @ drop (length full) dst, length full, k) else Inl IndexOutOfRange)"
    using Encode_loop_spec [of enc "[]" src "[]" dst] by (simp add: k_def full_def Let_def)
  show ?thesis 
    using k slice_puts_append [of full "drop (length full) dst" "b64_enc enc (drop k src)"] 
    by (cases "src = []") (auto simp: Encode_def k_def [symmetric] loop Encode_tail_spec enc add.commute)
qed

end
