(* ===== verification/Base64_Decode.thy ===== *)
theory Base64_Decode
  imports Base64_Encode
begin

text \<open>
  The decoder of \<open>encoding/base64\<close> against a reference: \<open>b64_run\<close> decodes one quantum after the other into a
  list. The fast paths of \<open>Decode\<close> compute the same, and the bytes written fit into the buffers the
  callers provide.
\<close>

section \<open>Decoding quantum by quantum\<close>

definition pack4 :: "u8 \<Rightarrow> u8 \<Rightarrow> u8 \<Rightarrow> u8 \<Rightarrow> u64" where
  "pack4 a b c d = push_bit 18 (ucast a) OR push_bit 12 (ucast b) OR push_bit 6 (ucast c) OR ucast d"

definition unpack3 :: "u64 \<Rightarrow> bytes" where
  "unpack3 v = [ucast (drop_bit 16 v), ucast (drop_bit 8 v), ucast v]"

definition quantum_bytes :: "bytes \<Rightarrow> bytes" where
  "quantum_bytes dbuf = unpack3 (pack4 (dbuf ! 0) (dbuf ! 1) (dbuf ! 2) (dbuf ! 3))"

text \<open>What a quantum consumes, writes and returns, apart from the slice it writes to.\<close>

definition digits_result :: "Encoding \<Rightarrow> bytes \<Rightarrow> nat \<Rightarrow> nat \<Rightarrow> b64_error option \<Rightarrow> nat \<times> nat \<times> bytes \<times> b64_error option" where
  "digits_result enc dbuf dlen si err =
     (let bs = take (dlen - 1) (quantum_bytes dbuf); spill = drop (dlen - 1) (quantum_bytes dbuf) in
      if strict enc \<and> list_ex (\<lambda>b. b \<noteq> 0) spill
      then (si, dlen - 1, [], Some (CorruptInputError (int si - int (length spill))))
      else (si, dlen - 1, bs, err))"

definition quantum :: "Encoding \<Rightarrow> bytes \<Rightarrow> nat \<Rightarrow> nat \<times> nat \<times> bytes \<times> b64_error option" where
  "quantum enc src si =
     (case decodeQuantum_loop enc src si 0 [0, 0, 0, 0] of
        Inl _ \<Rightarrow> (si, 0, [], None)
      | Inr (Quantum_return si err) \<Rightarrow> (si, 0, [], err)
      | Inr (Quantum_digits dbuf dlen si err) \<Rightarrow> digits_result enc dbuf dlen si err)"

lemma decodeQuantum_loop_dlen:
  "decodeQuantum_loop enc src si j dbuf = Inr (Quantum_digits dbuf' dlen si' err) \<Longrightarrow> j \<le> 4 \<Longrightarrow>
   dlen = 2 \<or> dlen = 3 \<or> dlen = 4"
proof (induction enc src si j dbuf rule: decodeQuantum_loop.induct)
  case (1 enc src si j dbuf)
  note IH = "1.IH" [OF _ _ _ refl refl refl]
  show ?case using "1.prems" IH
    by (subst (asm) decodeQuantum_loop.simps) (auto simp: Let_def split: if_splits)
qed

lemma list_puts_prefix: "3 \<le> length dst \<Longrightarrow> dst[2 := c, 1 := b, 0 := a] = [a, b, c] @ drop 3 dst"
  "2 \<le> length dst \<Longrightarrow> dst[1 := b, 0 := a] = [a, b] @ drop 2 dst"
  "1 \<le> length dst \<Longrightarrow> dst[0 := a] = [a] @ drop 1 dst"
  for a b c :: 'a
  by (cases dst; cases "tl dst"; cases "tl (tl dst)"; auto simp: numeral_2_eq_2 numeral_3_eq_3)+

lemma store_digits_eq:
  assumes l: "dlen = 2 \<or> dlen = 3 \<or> dlen = 4" and "dlen - 1 \<le> length dst"
    and bs: "quantum_bytes dbuf = [a, b, c]"
    and res: "digits_result enc dbuf dlen si err = (si', w, out, err')"
  shows "\<exists>dst'. store_digits enc dst a b c dlen si err = Inr (dst', si', length out, err') \<and> length dst' = length dst \<and>
     take (length out) dst' = out \<and> length out \<le> w \<and> w = dlen - 1"
proof -
  consider "dlen = 4" "3 \<le> length dst" | "dlen = 3" "2 \<le> length dst" | "dlen = 2" "1 \<le> length dst" using assms by auto
  then show ?thesis
  proof cases
    case 1
    then show ?thesis using res list_puts_prefix(1) [of dst c b a]
      by (auto simp: store_digits_def slice_put_def digits_result_def bs)
  next
    case 2
    then show ?thesis using res list_puts_prefix(2) [of dst b a]
      by (auto simp: store_digits_def slice_put_def digits_result_def bs numeral_2_eq_2 split: if_splits)
  next
    case 3
    then show ?thesis using res list_puts_prefix(3) [of dst a]
      by (auto simp: store_digits_def slice_put_def digits_result_def bs split: if_splits)
  qed
qed

lemma decodeQuantum_eq:
  assumes "si \<le> length src" "quantum enc src si = (si', w, out, err)" "w \<le> length dst"
  shows "\<exists>dst'. decodeQuantum enc dst src si = Inr (dst', si', length out, err) \<and> length dst' = length dst \<and>
     take (length out) dst' = out \<and> length out \<le> w"
proof -
  obtain q where q: "decodeQuantum_loop enc src si 0 [0, 0, 0, 0] = Inr q"
    using decodeQuantum_loop_index [OF assms(1)] by blast
  show ?thesis
  proof (cases q)
    case (Quantum_return s e)
    then show ?thesis using q assms by (auto simp: quantum_def decodeQuantum_def)
  next
    case (Quantum_digits dbuf dlen s e)
    then have l: "dlen = 2 \<or> dlen = 3 \<or> dlen = 4" using decodeQuantum_loop_dlen q by blast
    have res: "digits_result enc dbuf dlen s e = (si', w, out, err)" using assms q Quantum_digits by (simp add: quantum_def)
    then have w: "dlen - 1 \<le> length dst" using assms(3) by (auto simp: digits_result_def Let_def split: if_splits)
    note st = store_digits_eq [OF l w quantum_bytes_def [of dbuf, unfolded unpack3_def pack4_def] res]
    then show ?thesis by (auto simp: decodeQuantum_def q Quantum_digits Let_def)
  qed
qed

lemma digit_range:
  assumes "alphabet_ok enc" "decodeMap enc ! unat c \<noteq> 0xff"
  shows "unat (decodeMap enc ! unat c) < 64" "encode enc ! unat (decodeMap enc ! unat c) = c"
  using assms unat_u8_less [of c] by (auto simp: alphabet_ok_def)

definition six_bits :: "u8 \<Rightarrow> bool" where
  "six_bits d \<longleftrightarrow> unat d < 64"

lemma six_bits_take: "six_bits d \<longleftrightarrow> take_bit 6 d = d"
  using unat_take_bit [of 6 d] by (auto simp: six_bits_def word_unat_eq_iff)

lemma six_bits_bit: "six_bits d \<Longrightarrow> 6 \<le> i \<Longrightarrow> \<not> bit d i"
  unfolding six_bits_take by (metis bit_take_bit_iff leD)

lemma six_bits_or: "six_bits a \<Longrightarrow> six_bits b \<Longrightarrow> six_bits (a OR b)"
  by (simp add: six_bits_take take_bit_or)

lemma six_bits_not_ff: "six_bits d \<Longrightarrow> d \<noteq> 0xff"
  by (auto simp: six_bits_def)

lemma or_ff: "0xff OR d = (0xff :: u8)" "d OR 0xff = (0xff :: u8)"
proof -
  have e: "(0xff :: u8) = - 1" by simp
  show "0xff OR d = (0xff :: u8)" "d OR 0xff = (0xff :: u8)" unfolding e by simp_all
qed

lemma BE_bytes32:
  assumes "six_bits a" "six_bits b" "six_bits c" "six_bits d"
  shows "BE_AppendUint32 [] (push_bit 26 (ucast a) OR push_bit 20 (ucast b) OR push_bit 14 (ucast c) OR push_bit 8 (ucast d))
     = unpack3 (pack4 a b c d) @ [0]"
proof -
  note n = assms [THEN six_bits_bit]
  show ?thesis
    by (auto simp: BE_AppendUint32_def unpack3_def pack4_def bit_simps n intro!: bit_word_eqI)
qed

lemma BE_bytes64:
  assumes "six_bits a" "six_bits b" "six_bits c" "six_bits d" "six_bits e" "six_bits f" "six_bits g" "six_bits h"
  shows "BE_AppendUint64 [] (push_bit 58 (ucast a) OR push_bit 52 (ucast b) OR push_bit 46 (ucast c) OR push_bit 40 (ucast d) OR
       push_bit 34 (ucast e) OR push_bit 28 (ucast f) OR push_bit 22 (ucast g) OR push_bit 16 (ucast h))
     = unpack3 (pack4 a b c d) @ unpack3 (pack4 e f g h) @ [0, 0]"
proof -
  note n = assms [THEN six_bits_bit]
  show ?thesis
    by (auto simp: BE_AppendUint64_def unpack3_def pack4_def bit_simps n intro!: bit_word_eqI)
qed

definition digit_at :: "Encoding \<Rightarrow> bytes \<Rightarrow> nat \<Rightarrow> u8" where
  "digit_at enc src i = decodeMap enc ! unat (src ! i)"

text \<open>A digit of the decode map has six bits or is \<open>0xff\<close>; such values are recognised in a disjunction.\<close>

definition map_digit :: "u8 \<Rightarrow> bool" where
  "map_digit d \<longleftrightarrow> d = 0xff \<or> six_bits d"

lemma map_digit_or:
  assumes "map_digit a" "map_digit b"
  shows "map_digit (a OR b)" "a OR b = 0xff \<longleftrightarrow> a = 0xff \<or> b = 0xff"
  using assms six_bits_or [of a b] six_bits_not_ff [of "a OR b"] by (auto simp: map_digit_def or_ff)

lemma digit_at_map:
  assumes "alphabet_ok enc"
  shows "map_digit (digit_at enc src i)"
  using digit_range(1) [OF assms, of "src ! i"] by (auto simp: digit_at_def map_digit_def six_bits_def)

lemma map_digit_six: "map_digit d \<Longrightarrow> d \<noteq> 0xff \<Longrightarrow> six_bits d"
  by (auto simp: map_digit_def)

lemma assemble32_ok:
  assumes "map_digit a" "map_digit b" "map_digit c" "map_digit d"
  shows "case assemble32 a b c d of (dn, ok) \<Rightarrow>
     ok = list_all (\<lambda>x. x \<noteq> 0xff) [a, b, c, d] \<and> (if ok then BE_AppendUint32 [] dn = unpack3 (pack4 a b c d) @ [0] else True)"
  using assms by (auto simp: assemble32_def map_digit_or map_digit_six BE_bytes32)

lemma assemble64_ok:
  assumes "map_digit a" "map_digit b" "map_digit c" "map_digit d" "map_digit e" "map_digit f" "map_digit g" "map_digit h"
  shows "case assemble64 a b c d e f g h of (dn, ok) \<Rightarrow>
     ok = list_all (\<lambda>x. x \<noteq> 0xff) [a, b, c, d, e, f, g, h] \<and>
     (if ok then BE_AppendUint64 [] dn = unpack3 (pack4 a b c d) @ unpack3 (pack4 e f g h) @ [0, 0] else True)"
  using assms by (auto simp: assemble64_def map_digit_or map_digit_six BE_bytes64)

lemma decodeQuantum_loop_digit:
  assumes "j < 4" "si < length src" "digit_at enc src si \<noteq> 0xff"
  shows "decodeQuantum_loop enc src si j dbuf = decodeQuantum_loop enc src (Suc si) (Suc j) (dbuf[j := digit_at enc src si])"
  using assms by (subst decodeQuantum_loop.simps) (simp add: digit_at_def Let_def)

lemma quantum_four:
  assumes "si + 4 \<le> length src" "list_all (\<lambda>i. digit_at enc src (si + i) \<noteq> 0xff) [0, 1, 2, 3]"
  shows "quantum enc src si =
     (si + 4, 3, unpack3 (pack4 (digit_at enc src si) (digit_at enc src (si + 1)) (digit_at enc src (si + 2)) (digit_at enc src (si + 3))), None)"
proof -
  have i: "si + 1 = Suc si" "si + 2 = Suc (Suc si)" "si + 3 = Suc (Suc (Suc si))" "si + 4 = Suc (Suc (Suc (Suc si)))" by simp_all
  have "decodeQuantum_loop enc src si 0 [0, 0, 0, 0] =
     decodeQuantum_loop enc src (si + 4) 4 [digit_at enc src si, digit_at enc src (si + 1), digit_at enc src (si + 2), digit_at enc src (si + 3)]"
    using assms unfolding i by (simp add: decodeQuantum_loop_digit i numeral_3_eq_3 eval_nat_numeral(2))
  then show ?thesis
    by (simp add: quantum_def decodeQuantum_loop.simps [of _ _ _ 4] digits_result_def quantum_bytes_def unpack3_def)
qed

lemma quantum_index:
  assumes "quantum enc src si = (si', w, out, err)" "si \<le> length src"
  shows "si' \<le> length src" "si < length src \<Longrightarrow> si < si'" "length out \<le> w" "err = None \<Longrightarrow> length out = w"
proof -
  obtain q where q: "decodeQuantum_loop enc src si 0 [0, 0, 0, 0] = Inr q" "exit_index q \<le> length src"
     "si < length src \<longrightarrow> si < exit_index q"
    using decodeQuantum_loop_index [OF assms(2), of enc 0] by auto
  have "length (quantum_bytes dbuf) = 3" for dbuf by (simp add: quantum_bytes_def unpack3_def)
  then show "si' \<le> length src" "si < length src \<Longrightarrow> si < si'" "length out \<le> w" "err = None \<Longrightarrow> length out = w"
    using assms(1) q decodeQuantum_loop_dlen [of enc src si 0 "[0, 0, 0, 0]"]
    by (cases q; force simp: quantum_def digits_result_def Let_def split: if_splits)+
qed

text \<open>
  The reference decoder: one quantum after the other, with the output as a list. The second component
  is the number of bytes of the destination that are written to.
\<close>

function b64_run :: "Encoding \<Rightarrow> bytes \<Rightarrow> nat \<Rightarrow> bytes \<times> nat \<times> b64_error option" where
  "b64_run enc src si =
     (if si < length src then
        (case quantum enc src si of
           (si', w, out, Some err) \<Rightarrow> (out, w, Some err)
         | (si', w, out, None) \<Rightarrow> (case b64_run enc src si' of (out', w', err) \<Rightarrow> (out @ out', w + w', err)))
      else ([], 0, None))"
  by pat_completeness auto
termination
  by (relation "measure (\<lambda>(enc, src, si). length src - si)") (auto dest!: quantum_index(2) [OF sym])

declare b64_run.simps [simp del]

text \<open>What a decoding loop that starts at \<open>si\<close> with \<open>n\<close> bytes written returns.\<close>

definition run_result :: "Encoding \<Rightarrow> bytes \<Rightarrow> bytes \<Rightarrow> nat \<Rightarrow> nat \<Rightarrow> panic + bytes \<times> nat \<times> b64_error option \<Rightarrow> bool" where
  "run_result enc src dst n si r \<longleftrightarrow>
     (case b64_run enc src si of (out, w, err) \<Rightarrow>
        \<exists>dst'. r = Inr (dst', n + length out, err) \<and> length dst' = length dst \<and> take (n + length out) dst' = take n dst @ out)"

abbreviation run_fits :: "Encoding \<Rightarrow> bytes \<Rightarrow> bytes \<Rightarrow> nat \<Rightarrow> nat \<Rightarrow> bool" where
  "run_fits enc src dst n si \<equiv> si \<le> length src \<and> n + fst (snd (b64_run enc src si)) \<le> length dst"

lemma decodeQuantum_at_eq:
  assumes "si \<le> length src" "quantum enc src si = (si', w, out, err)" "n + w \<le> length dst"
  shows "\<exists>dst'. decodeQuantum_at enc dst n src si = Inr (dst', si', n + length out, err) \<and> length dst' = length dst \<and>
     take (n + length out) dst' = take n dst @ out"
proof -
  have "w \<le> length (drop n dst)" using assms(3) by simp
  from decodeQuantum_eq [OF assms(1,2) this] obtain d where
    "decodeQuantum enc (drop n dst) src si = Inr (d, si', length out, err)" "length d = length (drop n dst)" "take (length out) d = out"
    by blast
  then show ?thesis using assms(3) by (auto simp: decodeQuantum_at_def)
qed

text \<open>One quantum of any of the loops.\<close>

lemma run_step:
  assumes "run_fits enc src dst n si" "si < length src"
  obtains dst' si' n' where "decodeQuantum_at enc dst n src si = Inr (dst', si', n', None)"
      "run_fits enc src dst' n' si'" "length dst' = length dst"
      "\<And>r. run_result enc src dst' n' si' r \<Longrightarrow> run_result enc src dst n si r"
  | dst' si' n' err where "decodeQuantum_at enc dst n src si = Inr (dst', si', n', Some err)"
      "run_result enc src dst n si (Inr (dst', n', Some err))"
proof -
  obtain si' w out err where q: "quantum enc src si = (si', w, out, err)" by (metis prod_cases4)
  note i = quantum_index [OF q]
  obtain out' w' err' where r: "b64_run enc src si' = (out', w', err')" by (metis prod_cases3)
  have run: "b64_run enc src si = (if err = None then (out @ out', w + w', err') else (out, w, err))"
    using assms(2) by (subst b64_run.simps) (auto simp: q r split: option.split)
  then have w: "n + w \<le> length dst" using assms(1) by (auto split: if_splits)
  obtain dst' where d: "decodeQuantum_at enc dst n src si = Inr (dst', si', n + length out, err)" "length dst' = length dst"
     "take (n + length out) dst' = take n dst @ out"
    using decodeQuantum_at_eq [OF _ q w] assms by auto
  show thesis
  proof (cases err)
    case None
    have "run_result enc src dst n si r" if "run_result enc src dst' (n + length out) si' r" for r
      using that d(2,3) r run None by (auto simp: run_result_def add.assoc)
    then show thesis using that(1) d assms i r run None by auto
  next
    case (Some e)
    then show thesis using that(2) d run by (simp add: run_result_def)
  qed
qed

lemma run_end: "length src \<le> si \<Longrightarrow> run_result enc src dst n si (Inr (dst, n, None))"
  by (simp add: run_result_def b64_run.simps)

lemma Decode_loop_run: "run_fits enc src dst n si \<Longrightarrow> run_result enc src dst n si (Decode_loop enc src dst n si)"
proof (induction enc src dst n si rule: Decode_loop.induct)
  case (1 enc src dst n si)
  show ?case
  proof (cases "si < length src")
    case True
    from "1.prems" True show ?thesis
    proof (cases rule: run_step)
      case (1 dst' si' n')
      then show ?thesis using "1.IH" [OF True 1(1) refl refl refl refl] True
        by (subst Decode_loop.simps) auto
    next
      case (2 dst' si' n' err)
      then show ?thesis using True by (subst Decode_loop.simps) auto
    qed
  next
    case False
    then show ?thesis using run_end [of src si] by (subst Decode_loop.simps) auto
  qed
qed

section \<open>The fast paths\<close>

lemma run_four:
  assumes "si + 4 \<le> length src" "list_all (\<lambda>i. digit_at enc src (si + i) \<noteq> 0xff) [0, 1, 2, 3]"
  shows "b64_run enc src si = (case b64_run enc src (si + 4) of (out, w, err) \<Rightarrow>
    (unpack3 (pack4 (digit_at enc src si) (digit_at enc src (si + 1)) (digit_at enc src (si + 2)) (digit_at enc src (si + 3))) @ out, 3 + w, err))"
  using assms(1) quantum_four [OF assms] by (subst b64_run.simps) simp

text \<open>A word of \<open>k\<close> decoded bytes and filler is written at once.\<close>

lemma run_put:
  assumes run: "b64_run enc src si = (case b64_run enc src si' of (out, w, err) \<Rightarrow> (bs @ out, length bs + w, err))"
    and put: "f (drop n dst) = Inr (bs @ fill @ drop (length bs + length fill) (drop n dst))"
    and fits: "run_fits enc src dst n si" "n + length bs + length fill \<le> length dst" "si' \<le> length src"
  shows "\<exists>dst'. put_at dst n f = Inr dst' \<and> run_fits enc src dst' (n + length bs) si' \<and>
    (\<forall>r. run_result enc src dst' (n + length bs) si' r \<longrightarrow> run_result enc src dst n si r)"
proof -
  obtain out w err where r: "b64_run enc src si' = (out, w, err)" by (metis prod_cases3)
  define dst' where "dst' = take n dst @ bs @ fill @ drop (length bs + length fill) (drop n dst)"
  have l: "length dst' = length dst" "take (n + length bs) dst' = take n dst @ bs" using fits by (simp_all add: dst'_def)
  have "put_at dst n f = Inr dst'" using put fits by (simp add: put_at_def dst'_def)
  moreover have "run_result enc src dst n si r'" if "run_result enc src dst' (n + length bs) si' r'" for r'
    using that l run r by (auto simp: run_result_def add.assoc)
  ultimately show ?thesis using fits run r l by (intro exI [of _ dst']) simp
qed

text \<open>What a loop that may leave the rest to the next one returns.\<close>

definition run_until ::
  "Encoding \<Rightarrow> bytes \<Rightarrow> bytes \<Rightarrow> nat \<Rightarrow> nat \<Rightarrow> panic + bytes \<times> nat \<times> nat \<times> b64_error option \<Rightarrow> bool" where
  "run_until enc src dst n si r \<longleftrightarrow>
     (case r of
        Inl e \<Rightarrow> False
      | Inr (dst', si', n', Some err) \<Rightarrow> run_result enc src dst n si (Inr (dst', n', Some err))
      | Inr (dst', si', n', None) \<Rightarrow> run_fits enc src dst' n' si' \<and>
          (\<forall>r. run_result enc src dst' n' si' r \<longrightarrow> run_result enc src dst n si r))"

lemma run_untilE:
  assumes "run_until enc src dst n si r"
  obtains dst' si' n' err where "r = Inr (dst', si', n', Some err)" "run_result enc src dst n si (Inr (dst', n', Some err))"
  | dst' si' n' where "r = Inr (dst', si', n', None)" "run_fits enc src dst' n' si'"
      "\<And>r. run_result enc src dst' n' si' r \<Longrightarrow> run_result enc src dst n si r"
proof (cases r)
  case (Inr x)
  obtain dst' si' n' e where "x = (dst', si', n', e)" by (metis prod_cases4)
  then show thesis using assms Inr that by (cases e) (auto simp: run_until_def)
qed (use assms in \<open>simp add: run_until_def\<close>)

lemma run_until_trans:
  "run_until enc src dst' n' si' r \<Longrightarrow>
   (\<And>r. run_result enc src dst' n' si' r \<Longrightarrow> run_result enc src dst n si r) \<Longrightarrow> run_until enc src dst n si r"
  by (auto simp: run_until_def split: sum.splits option.splits)

lemma run_until_stop: "run_fits enc src dst n si \<Longrightarrow> run_until enc src dst n si (Inr (dst, si, n, None))"
  by (simp add: run_until_def)

text \<open>The slow branch of a fast loop \<open>L\<close>.\<close>

lemma run_until_quantum:
  assumes "run_fits enc src dst n si" "si < length src"
    and L: "\<And>dst' n' si'. si < si' \<Longrightarrow> run_fits enc src dst' n' si' \<Longrightarrow> run_until enc src dst' n' si' (L dst' n' si')"
  shows "run_until enc src dst n si
     (case decodeQuantum_at enc dst n src si of
        Inl e \<Rightarrow> Inl e
      | Inr (dst, si, n, Some err) \<Rightarrow> Inr (dst, si, n, Some err)
      | Inr (dst, si, n, None) \<Rightarrow> L dst n si)"
  using assms(1,2)
proof (cases rule: run_step)
  case (1 dst' si' n')
  then show ?thesis using run_until_trans [OF L] decodeQuantum_at_index [OF 1(1) assms(2)] by auto
next
  case (2 dst' si' n' err)
  then show ?thesis by (simp add: run_until_def)
qed

text \<open>What \<open>Decode\<close> relies on of \<open>internal/byteorder\<close>: the big-endian bytes of the word are stored.\<close>

locale byteorder =
  fixes bo :: byteorder_pkg
  assumes put32: "4 \<le> length b \<Longrightarrow> BEPutUint32 bo b v = Inr (BE_AppendUint32 [] v @ drop 4 b)"
    and put64: "8 \<le> length b \<Longrightarrow> BEPutUint64 bo b w = Inr (BE_AppendUint64 [] w @ drop 8 b)"
begin

lemma Decode_loop32_run:
  assumes "alphabet_ok enc" "run_fits enc src dst n si"
  shows "run_until enc src dst n si (Decode_loop32 bo enc src dst n si)"
  using assms(2)
proof (induction "length src - si" arbitrary: dst n si rule: less_induct)
  case less
  have IH: "run_until enc src dst' n' si' (Decode_loop32 bo enc src dst' n' si')"
    if "si < si'" "run_fits enc src dst' n' si'" "si < length src" for dst' n' si'
    using less.hyps that by (simp add: diff_less_mono2)
  show ?case
  proof (cases "si + 4 \<le> length src \<and> n + 4 \<le> length dst")
    case fast: True
    let ?d = "\<lambda>i. digit_at enc src (si + i)"
    let ?bs = "unpack3 (pack4 (?d 0) (?d 1) (?d 2) (?d 3))"
    obtain dn ok where a: "assemble32 (?d 0) (?d 1) (?d 2) (?d 3) = (dn, ok)" by fastforce
    then have dn: "ok = list_all (\<lambda>i. ?d i \<noteq> 0xff) [0, 1, 2, 3]" "ok \<Longrightarrow> BE_AppendUint32 [] dn = ?bs @ [0]"
      using assemble32_ok [of "?d 0" "?d 1" "?d 2" "?d 3"] digit_at_map [OF assms(1)] by auto
    have l: "length ?bs = 3" by (simp add: unpack3_def)
    show ?thesis
    proof (cases ok)
      case True
      obtain dst' where "put_at dst n (\<lambda>b. BEPutUint32 bo b dn) = Inr dst'" "run_fits enc src dst' (n + 3) (si + 4)"
        "\<And>r. run_result enc src dst' (n + 3) (si + 4) r \<Longrightarrow> run_result enc src dst n si r"
        using run_put [where enc = enc and src = src and si = si and si' = "si + 4" and bs = ?bs and f = "\<lambda>b. BEPutUint32 bo b dn" and n = n and dst = dst and fill = "[0]"] run_four [of si src enc]
          fast less.prems dn True put32 [of "drop n dst" dn] l by auto
      then show ?thesis using fast a True run_until_trans [OF IH [where si' = "si + 4" and dst' = dst' and n' = "n + 3"]]
        by (subst Decode_loop32.simps) (simp add: digit_at_def Let_def)
    next
      case False
      show ?thesis using fast a False run_until_quantum [OF less.prems _ IH]
        by (subst Decode_loop32.simps) (simp add: digit_at_def Let_def)
    qed
  next
    case False
    then show ?thesis using run_until_stop [OF less.prems] by (subst Decode_loop32.simps) auto
  qed
qed

lemma Decode_loop64_run:
  assumes "alphabet_ok enc" "run_fits enc src dst n si"
  shows "run_until enc src dst n si (Decode_loop64 bo enc src dst n si)"
  using assms(2)
proof (induction "length src - si" arbitrary: dst n si rule: less_induct)
  case less
  have IH: "run_until enc src dst' n' si' (Decode_loop64 bo enc src dst' n' si')"
    if "si < si'" "run_fits enc src dst' n' si'" "si < length src" for dst' n' si'
    using less.hyps that by (simp add: diff_less_mono2)
  show ?case
  proof (cases "si + 8 \<le> length src \<and> n + 8 \<le> length dst")
    case fast: True
    let ?d = "\<lambda>i. digit_at enc src (si + i)"
    let ?bs = "unpack3 (pack4 (?d 0) (?d 1) (?d 2) (?d 3)) @ unpack3 (pack4 (?d 4) (?d 5) (?d 6) (?d 7))"
    obtain dn ok where a: "assemble64 (?d 0) (?d 1) (?d 2) (?d 3) (?d 4) (?d 5) (?d 6) (?d 7) = (dn, ok)" by fastforce
    then have dn: "ok = list_all (\<lambda>i. ?d i \<noteq> 0xff) [0, 1, 2, 3, 4, 5, 6, 7]" "ok \<Longrightarrow> BE_AppendUint64 [] dn = ?bs @ [0, 0]"
      using assemble64_ok [of "?d 0" "?d 1" "?d 2" "?d 3" "?d 4" "?d 5" "?d 6" "?d 7"] digit_at_map [OF assms(1)] by auto
    have l: "length ?bs = 6" by (simp add: unpack3_def)
    show ?thesis
    proof (cases ok)
      case True
      have "b64_run enc src si = (case b64_run enc src (si + 8) of (out, w, err) \<Rightarrow> (?bs @ out, length ?bs + w, err))"
        using run_four [of si src enc] run_four [of "si + 4" src enc] dn True fast l
        by (cases "b64_run enc src (si + 8)") (simp add: ac_simps)
      then obtain dst' where "put_at dst n (\<lambda>b. BEPutUint64 bo b dn) = Inr dst'" "run_fits enc src dst' (n + 6) (si + 8)"
        "\<And>r. run_result enc src dst' (n + 6) (si + 8) r \<Longrightarrow> run_result enc src dst n si r"
        using run_put [where enc = enc and src = src and si = si and si' = "si + 8" and bs = ?bs and f = "\<lambda>b. BEPutUint64 bo b dn" and n = n and dst = dst and fill = "[0, 0]"]
          fast less.prems dn True put64 [of "drop n dst" dn] l by auto
      then show ?thesis using fast a True run_until_trans [OF IH [where si' = "si + 8" and dst' = dst' and n' = "n + 6"]]
        by (subst Decode_loop64.simps) (simp add: digit_at_def Let_def)
    next
      case False
      show ?thesis using fast a False run_until_quantum [OF less.prems _ IH]
        by (subst Decode_loop64.simps) (simp add: digit_at_def Let_def)
    qed
  next
    case False
    then show ?thesis using run_until_stop [OF less.prems] by (subst Decode_loop64.simps) auto
  qed
qed

lemma Decode_run:
  assumes "alphabet_ok enc" "fst (snd (b64_run enc src 0)) \<le> length dst"
  shows "run_result enc src dst 0 0 (Decode bo enc dst src)"
proof (cases "src = []")
  case True
  then show ?thesis using run_end [where src = src and si = 0] by (simp add: Decode_def)
next
  case False
  have f: "run_fits enc src dst 0 0" using assms(2) by simp
  from Decode_loop64_run [OF assms(1) f] show ?thesis
  proof (cases rule: run_untilE)
    case (1 dst' si' n' err)
    then show ?thesis using False by (simp add: Decode_def)
  next
    case (2 dst' si' n')
    from Decode_loop32_run [OF assms(1) 2(2)] show ?thesis
    proof (cases rule: run_untilE)
      case (1 dst'' si'' n'' err)
      then show ?thesis using False 2 by (simp add: Decode_def)
    next
      case l32: (2 dst'' si'' n'')
      then show ?thesis using False 2(1) 2(3) [OF l32(3) [OF Decode_loop_run [OF l32(2)]]] by (simp add: Decode_def)
    qed
  qed
qed

end

lemma decodeQuantum_loop_newline:
  assumes "j < 4" "si < length src" "digit_at enc src si = 0xff" "newline (src ! si)"
  shows "decodeQuantum_loop enc src si j dbuf = decodeQuantum_loop enc src (Suc si) j dbuf"
  using assms by (subst decodeQuantum_loop.simps) (simp add: digit_at_def Let_def)

section \<open>Room for the output\<close>

text \<open>\<open>digits_below m\<close>: behind position \<open>m\<close> there is no digit of the alphabet.\<close>

definition digits_below :: "Encoding \<Rightarrow> bytes \<Rightarrow> nat \<Rightarrow> bool" where
  "digits_below enc src m \<longleftrightarrow> (\<forall>i<length src. digit_at enc src i \<noteq> 0xff \<longrightarrow> i < m)"

definition positions :: "Encoding \<Rightarrow> bytes \<Rightarrow> nat \<Rightarrow> nat \<Rightarrow> nat \<Rightarrow> nat \<Rightarrow> nat \<Rightarrow> b64_error option \<Rightarrow> bool" where
  "positions enc src m si j dlen si' err \<longleftrightarrow>
     j \<le> dlen \<and> (j < dlen \<longrightarrow> si + (dlen - j) \<le> m) \<and> (j < 4 \<longrightarrow> dlen = 4 \<longrightarrow> si' \<le> m) \<and>
     (dlen < 4 \<longrightarrow> err = None \<longrightarrow> si' = length src) \<and> (dlen = 4 \<or> padChar enc \<noteq> NoPadding \<longrightarrow> si + (4 - j) \<le> si')"

lemma positions_digit:
  "positions enc src m (Suc si) (Suc j) dlen si' err \<Longrightarrow> si < m \<Longrightarrow> j < 4 \<Longrightarrow> (j = 3 \<longrightarrow> si' = Suc si) \<Longrightarrow>
   positions enc src m si j dlen si' err"
  unfolding positions_def by (intro conjI impI; linarith?; simp)

lemma positions_newline: "positions enc src m (Suc si) j dlen si' err \<Longrightarrow> positions enc src m si j dlen si' err"
  unfolding positions_def by (intro conjI impI; linarith?; simp)

lemma decodeQuantum_loop_four:
  "decodeQuantum_loop enc src si 4 dbuf = Inr (Quantum_digits dbuf 4 si None)"
  by (subst decodeQuantum_loop.simps) simp

lemma decodeQuantum_loop_positions:
  assumes "digits_below enc src m"
  shows "decodeQuantum_loop enc src si j dbuf = Inr (Quantum_digits dbuf' dlen si' err) \<Longrightarrow> j \<le> 4 \<Longrightarrow> si \<le> length src \<Longrightarrow>
     positions enc src m si j dlen si' err"
proof (induction "length src - si" arbitrary: si j dbuf rule: less_induct)
  case less
  note loop = less.prems(1)
  consider "j = 4" | "j < 4" "si = length src" | "j < 4" "si < length src" using less.prems(2,3) by linarith
  then show ?case
  proof cases
    case 1
    then show ?thesis using loop by (auto simp: decodeQuantum_loop_four positions_def)
  next
    case 2
    then show ?thesis using loop
      by (subst (asm) decodeQuantum_loop.simps) (auto simp: positions_def split: if_splits)
  next
    case 3
    have IH: "positions enc src m (Suc si) j' dlen si' err"
      if "decodeQuantum_loop enc src (Suc si) j' d = Inr (Quantum_digits dbuf' dlen si' err)" "j' \<le> 4" for j' d
      using less.hyps [of "Suc si" j' d] that 3 by simp
    have k: "k \<le> skip_newlines src k" "skip_newlines src k \<le> length src" if "k \<le> length src" for k
      using skip_newlines_bounds [OF that] by auto
    consider "digit_at enc src si \<noteq> 0xff" | "digit_at enc src si = 0xff" "newline (src ! si)" 
      | "digit_at enc src si = 0xff" "\<not> newline (src ! si)" by blast
    then show ?thesis
    proof cases
      case 1
      then have "si < m" using assms 3 by (simp add: digits_below_def)
      moreover note l = loop [unfolded decodeQuantum_loop_digit [OF 3 1]]
      moreover have "si' = Suc si" if "j = 3" using l that by (simp add: decodeQuantum_loop_four)
      ultimately show ?thesis using positions_digit [OF IH] 3 by simp
    next
      case 2
      show ?thesis using positions_newline [OF IH] loop [unfolded decodeQuantum_loop_newline [OF 3 2]] 3 by simp
    next
      case other: 3
      then show ?thesis using loop 3 k [of "Suc si"] k [of "Suc (skip_newlines src (Suc si))"]
        by (subst (asm) decodeQuantum_loop.simps) (auto simp: positions_def Let_def digit_at_def split: if_splits)
    qed
  qed
qed

definition room :: "nat \<Rightarrow> nat" where
  "room m = m div 4 * 3 + m mod 4 * 6 div 8"

lemma room_add: "room (m + 4) = room m + 3"
  using div_add_self2 [of 4 m] by (simp add: room_def)

lemma room_values: "room 0 = 0" "room 1 = 0" "room 2 = 1" "room 3 = 2"
  by (simp_all add: room_def)

lemma room_mono: "m \<le> k \<Longrightarrow> room m \<le> room k"
proof -
  have "room m \<le> room (Suc m)" for m
  proof -
    have "m mod 4 = 0 \<or> m mod 4 = 1 \<or> m mod 4 = 2 \<or> m mod 4 = 3" by linarith
    then show ?thesis by (elim disjE) (simp_all add: room_def div_Suc mod_Suc)
  qed
  then show "m \<le> k \<Longrightarrow> room m \<le> room k" by (rule lift_Suc_mono_le)
qed
lemma quantum_room:
  assumes "digits_below enc src m" "si \<le> length src" "quantum enc src si = (si', w, out, err)"
  shows "w = 0 \<or> (w \<le> 3 \<and> si + w + 1 \<le> m \<and> (w = 3 \<longrightarrow> si' \<le> m) \<and> (w < 3 \<longrightarrow> err = None \<longrightarrow> si' = length src) \<and>
     (w = 3 \<or> padChar enc \<noteq> NoPadding \<longrightarrow> si + 4 \<le> si'))"
proof -
  obtain q where q: "decodeQuantum_loop enc src si 0 [0, 0, 0, 0] = Inr q"
    using decodeQuantum_loop_index [OF assms(2)] by blast
  show ?thesis
  proof (cases q)
    case (Quantum_return s e)
    then show ?thesis using assms q by (simp add: quantum_def)
  next
    case (Quantum_digits dbuf dlen s e)
    note l = q [unfolded Quantum_digits]
    have "positions enc src m si 0 dlen s e" using decodeQuantum_loop_positions [OF assms(1) l] assms(2) by simp
    moreover have "dlen = 2 \<or> dlen = 3 \<or> dlen = 4" using decodeQuantum_loop_dlen [OF l] by simp
    moreover have "si' = s" "w = dlen - 1" "err = None \<longrightarrow> e = None"
      using assms(3) l by (auto simp: quantum_def digits_result_def Let_def split: if_splits)
    ultimately show ?thesis by (auto simp: positions_def)
  qed
qed

lemma run_room:
  assumes "digits_below enc src m"
  shows "si \<le> length src \<Longrightarrow> fst (snd (b64_run enc src si)) \<le> room (m - si)"
proof (induction "length src - si" arbitrary: si rule: less_induct)
  case less
  obtain si' w out err where q: "quantum enc src si = (si', w, out, err)" by (metis prod_cases4)
  obtain o' w' e' where r: "b64_run enc src si' = (o', w', e')" by (metis prod_cases3)
  note i = quantum_index [OF q less.prems] and p = quantum_room [OF assms less.prems q]
  have run: "fst (snd (b64_run enc src si)) = (if length src \<le> si then 0 else if err = None then w + w' else w)"
    by (subst b64_run.simps) (auto simp: q r split: option.split)
  have IH: "w' \<le> room (m - si')" if "si < length src" using less.hyps [of si'] that i r by simp
  have end_w: "w' = 0" if "si' = length src" using that r by (simp add: b64_run.simps)
  consider "length src \<le> si" | "si < length src" "w = 0" | "si < length src" "w = 3" | "si < length src" "0 < w" "w < 3"
    using p by linarith
  then show ?case
  proof cases
    case 2
    then have "room (m - si') \<le> room (m - si)" using i by (intro room_mono) simp
    then show ?thesis using run IH 2 by auto
  next
    case 3
    then have "room (m - si' + 4) \<le> room (m - si)" using p by (intro room_mono) (simp, arith)
    then show ?thesis using run IH 3 by (auto simp: room_add)
  next
    case 4
    then have "room (w + 1) \<le> room (m - si)" using p by (intro room_mono) (simp, arith)
    moreover have "w = 1 \<or> w = 2" using 4 by linarith
    ultimately have "w \<le> room (m - si)" using room_values by (auto simp: numeral_2_eq_2 numeral_3_eq_3)
    then show ?thesis using run end_w p 4 by auto
  qed (simp add: run)
qed

lemma run_room_padded:
  assumes "padChar enc \<noteq> NoPadding"
  shows "si \<le> length src \<Longrightarrow> fst (snd (b64_run enc src si)) \<le> (length src - si) div 4 * 3"
proof (induction "length src - si" arbitrary: si rule: less_induct)
  case less
  obtain si' w out err where q: "quantum enc src si = (si', w, out, err)" by (metis prod_cases4)
  obtain o' w' e' where r: "b64_run enc src si' = (o', w', e')" by (metis prod_cases3)
  have "digits_below enc src (length src)" by (simp add: digits_below_def)
  note i = quantum_index [OF q less.prems] and p = quantum_room [OF this less.prems q]
  have run: "fst (snd (b64_run enc src si)) = (if length src \<le> si then 0 else if err = None then w + w' else w)"
    by (subst b64_run.simps) (auto simp: q r split: option.split)
  have IH: "w' \<le> (length src - si') div 4 * 3" if "si < length src" using less.hyps [of si'] that i r by simp
  consider "length src \<le> si" | "si < length src" "w = 0" | "si < length src" "w \<le> 3" "si + 4 \<le> si'"
    using p assms by fastforce
  then show ?case
  proof cases
    case 2
    then have "(length src - si') div 4 \<le> (length src - si) div 4" using i by (intro div_le_mono) simp
    then show ?thesis using run IH 2 by auto
  next
    case 3
    then have "(length src - si' + 4) div 4 \<le> (length src - si) div 4" using i by (intro div_le_mono) simp
    then show ?thesis using run IH 3 by (auto simp: div_add_self2)
  qed (simp add: run)
qed

lemma decodedLen_eq:
  assumes "n < 2 ^ 62"
  shows "decodedLen (int n) pad = (if pad = NoPadding then int (room n) else int (n div 4 * 3))"
proof -
  have n: "int n < 2 ^ 62" using assms by (metis of_nat_less_iff of_nat_numeral of_nat_power)
  have d: "int n sdiv 4 = int n div 4" "int n smod 4 = int n mod 4" "(int n mod 4 * 6) sdiv 8 = (int n mod 4 * 6) div 8"
    by (simp_all add: signed_divide_int_def signed_modulo_int_def sgn_if)
  have m: "0 \<le> int n mod 4" "int n mod 4 < 4" by simp_all
  have w: "wrap64 (int n div 4 * 3) = int n div 4 * 3"
    "wrap64 (int n div 4 * 3 + (int n mod 4 * 6) div 8) = int n div 4 * 3 + (int n mod 4 * 6) div 8"
    by (rule wrap64_small; use n m in simp)+
  show ?thesis unfolding decodedLen_def d w by (simp add: room_def zdiv_int zmod_int)
qed

lemma unat_rune: "unat (ucast (c :: u8) :: rune) = unat c"
  using unat_u8_less [of c] by (simp add: unat_ucast)

lemma unat_NoPadding: "unat NoPadding = 4294967295"
  by (simp add: NoPadding_def unsigned_minus_1_eq_mask mask_eq_exp_minus_1)

lemma ucast_not_NoPadding: "ucast (c :: u8) \<noteq> NoPadding"
  using unat_rune [of c] unat_u8_less [of c] unat_NoPadding by auto

lemma trim_padding_bound:
  assumes "alphabet_ok enc" "padding_ok enc" "n \<le> length src" "\<forall>i<length src. digit_at enc src i \<noteq> 0xff \<longrightarrow> i < n"
  shows "digits_below enc src (trim_padding enc src n) \<and> trim_padding enc src n \<le> n"
  using assms(3,4)
proof (induction n)
  case 0
  then show ?case by (simp add: digits_below_def)
next
  case (Suc n)
  show ?case
  proof (cases "ucast (src ! n) = padChar enc")
    case True
    then have "padChar enc \<noteq> NoPadding" "unat (padChar enc) = unat (src ! n)"
      using ucast_not_NoPadding [of "src ! n"] unat_rune [of "src ! n"] by auto
    then have "digit_at enc src n = 0xff" using assms(2) by (auto simp: padding_ok_def digit_at_def)
    then have "\<forall>i<length src. digit_at enc src i \<noteq> 0xff \<longrightarrow> i < n" using Suc.prems(2) by (metis less_SucE)
    then show ?thesis using Suc True by simp
  next
    case False
    then show ?thesis using Suc.prems by (simp add: digits_below_def)
  qed
qed

end
