(* ===== verification/Base64_Spec.thy ===== *)
theory Base64_Spec
  imports Base64_Decode
begin

text \<open>
  What \<open>encoding/base64\<close> promises: decoding ignores newlines and is described by \<open>b64_dec\<close> on the other
  characters, it inverts the encoding, and a strict decoder accepts the canonical encodings only.
\<close>

section \<open>Decoding as RFC 4648 describes it\<close>

definition without_newlines :: "bytes \<Rightarrow> bytes" where
  "without_newlines = filter (\<lambda>c. \<not> newline c)"

definition is_digit :: "Encoding \<Rightarrow> u8 \<Rightarrow> bool" where
  "is_digit enc c \<longleftrightarrow> decodeMap enc ! unat c \<noteq> 0xff"

definition is_pad :: "Encoding \<Rightarrow> u8 \<Rightarrow> bool" where
  "is_pad enc c \<longleftrightarrow> ucast c = padChar enc"

text \<open>The bytes of a group of digits \<open>ds\<close>; a strict decoder wants the bits that are left over to be zero.\<close>

definition group_bytes :: "Encoding \<Rightarrow> bytes \<Rightarrow> bytes" where
  "group_bytes enc cs = quantum_bytes (map (\<lambda>c. decodeMap enc ! unat c) cs @ replicate (4 - length cs) 0)"

definition last_group :: "Encoding \<Rightarrow> bytes \<Rightarrow> bool \<Rightarrow> bytes \<times> bool" where
  "last_group enc cs ok =
     (if strict enc \<and> list_ex (\<lambda>b. b \<noteq> 0) (drop (length cs - 1) (group_bytes enc cs)) then ([], False)
      else (take (length cs - 1) (group_bytes enc cs), ok))"

fun b64_dec :: "Encoding \<Rightarrow> bytes \<Rightarrow> bytes \<times> bool" where
  "b64_dec enc [] = ([], True)"
| "b64_dec enc [a] = ([], False)"
| "b64_dec enc [a, b] =
     (if list_all (is_digit enc) [a, b] \<and> padChar enc = NoPadding then last_group enc [a, b] True else ([], False))"
| "b64_dec enc [a, b, c] =
     (if list_all (is_digit enc) [a, b, c] \<and> padChar enc = NoPadding then last_group enc [a, b, c] True else ([], False))"
| "b64_dec enc (a # b # c # d # r) =
     (if list_all (is_digit enc) [a, b, c, d]
      then case b64_dec enc r of (out, ok) \<Rightarrow> (group_bytes enc [a, b, c, d] @ out, ok)
      else if list_all (is_digit enc) [a, b, c] \<and> is_pad enc d then last_group enc [a, b, c] (r = [])
      else if list_all (is_digit enc) [a, b] \<and> is_pad enc c \<and> is_pad enc d then last_group enc [a, b] (r = [])
      else ([], False))"

lemma digit_not_newline:
  assumes "alphabet_ok enc" "is_digit enc c"
  shows "\<not> newline c"
proof -
  have "c \<in> set (encode enc)" using decodeMap_alphabet [OF assms(1)] assms(2) by (simp add: is_digit_def)
  then show ?thesis using assms(1) by (auto simp: alphabet_ok_def list_ex_iff)
qed

lemma without_newlines_simps [simp]:
  "without_newlines [] = []"
  "without_newlines (c # cs) = (if newline c then without_newlines cs else c # without_newlines cs)"
  by (simp_all add: without_newlines_def)

lemma drop_nth: "si < length src \<Longrightarrow> drop si src = src ! si # drop (Suc si) src"
  by (simp add: Cons_nth_drop_Suc)

lemma skip_newlines_rest:
  "without_newlines (drop (skip_newlines src si) src) = without_newlines (drop si src)"
  "skip_newlines src si < length src \<Longrightarrow> \<not> newline (src ! skip_newlines src si)"
proof (induction src si rule: skip_newlines.induct)
  case (1 src si)
  { case 1
    show ?case using "1.IH"(1) by (subst skip_newlines.simps) (auto simp: drop_nth)
  next
    case 2
    then show ?case using "1.IH"(2) skip_newlines.simps [of src si] by (auto split: if_splits) }
qed

text \<open>The loop of a quantum, on the characters that are not newlines.\<close>

datatype quantum_spec = QErr | QEnd | QDigits bytes nat bool bytes

fun quantum_on :: "Encoding \<Rightarrow> bytes \<Rightarrow> nat \<Rightarrow> bytes \<Rightarrow> quantum_spec" where
  "quantum_on enc [] j dbuf =
     (if 4 \<le> j then QDigits dbuf 4 True [] else if j = 0 then QEnd
      else if j = 1 \<or> padChar enc \<noteq> NoPadding then QErr else QDigits dbuf j True [])"
| "quantum_on enc (c # cs) j dbuf =
     (if 4 \<le> j then QDigits dbuf 4 True (c # cs)
      else if is_digit enc c then quantum_on enc cs (j + 1) (dbuf[j := decodeMap enc ! unat c])
      else if \<not> is_pad enc c \<or> j < 2 then QErr
      else if j = 2 then (case cs of [] \<Rightarrow> QErr | d # cs \<Rightarrow> if is_pad enc d then QDigits dbuf 2 (cs = []) cs else QErr)
      else QDigits dbuf j (cs = []) cs)"

fun exit_matches :: "bytes \<Rightarrow> quantum_exit \<Rightarrow> quantum_spec \<Rightarrow> bool" where
  "exit_matches src (Quantum_return si err) QErr \<longleftrightarrow> err \<noteq> None"
| "exit_matches src (Quantum_return si err) QEnd \<longleftrightarrow> err = None \<and> si = length src"
| "exit_matches src (Quantum_digits dbuf dlen si err) (QDigits dbuf' dlen' ok rest) \<longleftrightarrow>
     dbuf' = dbuf \<and> dlen' = dlen \<and> rest = without_newlines (drop si src) \<and> ok = (err = None)"
| "exit_matches src _ _ \<longleftrightarrow> False"

lemma skip_rest_empty:
  "si \<le> length src \<Longrightarrow> skip_newlines src si < length src \<longleftrightarrow> without_newlines (drop si src) \<noteq> []"
  using skip_newlines_rest [of src si] skip_newlines_bounds [of si src]
  by (cases "skip_newlines src si < length src") (auto simp: drop_nth)

lemma quantum_loop_on:
  assumes "alphabet_ok enc"
  shows "si \<le> length src \<Longrightarrow> decodeQuantum_loop enc src si j dbuf = Inr q \<Longrightarrow>
     exit_matches src q (quantum_on enc (without_newlines (drop si src)) j dbuf)"
proof (induction "length src - si" arbitrary: si j dbuf rule: less_induct)
  case less
  note loop = less.prems(2)
  consider "4 \<le> j" | "j < 4" "si = length src" | "j < 4" "si < length src" using less.prems(1) by linarith
  then show ?case
  proof cases
    case 1
    then show ?thesis using loop
      by (subst (asm) decodeQuantum_loop.simps) (cases "without_newlines (drop si src)"; auto)
  next
    case 2
    then show ?thesis using loop
      by (subst (asm) decodeQuantum_loop.simps) (auto split: if_splits)
  next
    case 3
    have IH: "exit_matches src q (quantum_on enc (without_newlines (drop (Suc si) src)) j' d)"
      if "decodeQuantum_loop enc src (Suc si) j' d = Inr q" for j' d
      using less.hyps [of "Suc si" j' d] that 3 by simp
    consider "digit_at enc src si \<noteq> 0xff" | "digit_at enc src si = 0xff" "newline (src ! si)" 
      | "digit_at enc src si = 0xff" "\<not> newline (src ! si)" by blast
    then show ?thesis
    proof cases
      case 1
      then have "is_digit enc (src ! si)" by (simp add: is_digit_def digit_at_def)
      then show ?thesis using IH loop decodeQuantum_loop_digit [OF 3 1] digit_not_newline [OF assms] 3
        by (auto simp: drop_nth digit_at_def)
    next
      case 2
      show ?thesis using IH loop decodeQuantum_loop_newline [OF 3 2] 2 3 by (simp add: drop_nth)
    next
      case other: 3
      let ?t = "skip_newlines src (Suc si)"
      have t: "?t \<le> length src" using skip_newlines_bounds [of "Suc si" src] 3 by simp
      have r: "without_newlines (drop (Suc si) src) = without_newlines (drop ?t src)" by (simp add: skip_newlines_rest)
      show ?thesis
        using loop other 3 t skip_newlines_rest(2) [of src "Suc si"] skip_newlines_rest(1) [of src "Suc si"] 
          skip_rest_empty [of "Suc si" src] skip_rest_empty [of "Suc ?t" src] skip_newlines_rest(1) [of src "Suc ?t"]
        by (subst (asm) decodeQuantum_loop.simps)
          (auto simp: Let_def digit_at_def is_digit_def is_pad_def drop_nth split: if_splits list.splits)
    qed
  qed
qed

definition spec_step :: "Encoding \<Rightarrow> quantum_spec \<Rightarrow> bytes \<times> bool \<times> bytes" where
  "spec_step enc q =
     (case q of
        QErr \<Rightarrow> ([], False, [])
      | QEnd \<Rightarrow> ([], True, [])
      | QDigits dbuf dlen ok rest \<Rightarrow>
          (if strict enc \<and> list_ex (\<lambda>b. b \<noteq> 0) (drop (dlen - 1) (quantum_bytes dbuf)) then ([], False, [])
           else (take (dlen - 1) (quantum_bytes dbuf), ok, rest)))"

lemma spec_step_dec:
  "b64_dec enc cs =
     (case spec_step enc (quantum_on enc cs 0 [0, 0, 0, 0]) of
        (bs, ok, rest) \<Rightarrow> if ok then (case b64_dec enc rest of (out, ok) \<Rightarrow> (bs @ out, ok)) else (bs, False))"
proof -
  have l: "length (quantum_bytes d) = 3" for d by (simp add: quantum_bytes_def unpack3_def)
  show ?thesis
  proof (cases "(enc, cs)" rule: b64_dec.cases)
    case (2 e a)
    then show ?thesis by (simp add: spec_step_def)
  next
    case (3 e a b)
    then show ?thesis by (simp add: spec_step_def last_group_def group_bytes_def numeral_2_eq_2)
  next
    case (4 e a b c)
    then show ?thesis by (auto simp: spec_step_def last_group_def group_bytes_def split: if_splits)
  next
    case (5 e a b c d r)
    then show ?thesis 
      by (cases r; cases "is_digit e a"; cases "is_digit e b"; cases "is_digit e c"; cases "is_digit e d")
        (auto simp: spec_step_def last_group_def group_bytes_def l numeral_2_eq_2 split: prod.splits)
  qed (simp add: spec_step_def)
qed

lemma quantum_spec_step:
  assumes "alphabet_ok enc" "si \<le> length src" "quantum enc src si = (si', w, out, err)"
    "spec_step enc (quantum_on enc (without_newlines (drop si src)) 0 [0, 0, 0, 0]) = (out', ok, rest)"
  shows "out' = out" "ok = (err = None)" "err = None \<Longrightarrow> rest = without_newlines (drop si' src)"
proof -
  obtain q where q: "decodeQuantum_loop enc src si 0 [0, 0, 0, 0] = Inr q"
    using decodeQuantum_loop_index [OF assms(2)] by blast
  note m = quantum_loop_on [OF assms(1,2) q]
  have "out' = out \<and> ok = (err = None) \<and> (err = None \<longrightarrow> rest = without_newlines (drop si' src))"
    using m assms(3,4) q
    by (cases "quantum_on enc (without_newlines (drop si src)) 0 [0, 0, 0, 0]"; cases q)
      (auto simp: quantum_def spec_step_def digits_result_def Let_def split: if_splits)
  then show "out' = out" "ok = (err = None)" "err = None \<Longrightarrow> rest = without_newlines (drop si' src)" by simp_all
qed

lemma b64_run_dec:
  assumes "alphabet_ok enc"
  shows "si \<le> length src \<Longrightarrow>
    (case b64_run enc src si of (out, w, err) \<Rightarrow> b64_dec enc (without_newlines (drop si src)) = (out, err = None))"
proof (induction "length src - si" arbitrary: si rule: less_induct)
  case less
  obtain si' w out err where q: "quantum enc src si = (si', w, out, err)" by (metis prod_cases4)
  obtain out' w' err' where r: "b64_run enc src si' = (out', w', err')" by (metis prod_cases3)
  obtain bs ok rest where s: "spec_step enc (quantum_on enc (without_newlines (drop si src)) 0 [0, 0, 0, 0]) = (bs, ok, rest)"
    by (metis prod_cases3)
  note st = quantum_spec_step [OF assms less.prems q s] and i = quantum_index [OF q less.prems]
  show ?case
  proof (cases "si < length src")
    case True
    have "b64_dec enc (without_newlines (drop si' src)) = (out', err' = None)"
      using less.hyps [of si'] True i r by simp
    then show ?thesis using True st q r
      by (subst b64_run.simps, subst spec_step_dec) (auto simp: s split: option.splits)
  next
    case False
    then show ?thesis by (subst b64_run.simps) simp
  qed
qed

section \<open>Round trips\<close>

lemma six_bits_sextet: "six_bits (ucast (v AND 0x3F :: u64))"
proof -
  have "v AND 0x3F = take_bit 6 v" by (simp add: take_bit_eq_mask mask_eq_exp_minus_1)
  then show ?thesis by (simp add: six_bits_def unat_ucast unat_take_bit)
qed

lemma and_3f: "w AND 0x3F = take_bit 6 (w :: u64)"
  by (simp add: take_bit_eq_mask mask_eq_exp_minus_1)

lemma pack4_sextets:
  "pack4 (ucast (drop_bit 18 v AND 0x3F)) (ucast (drop_bit 12 v AND 0x3F)) (ucast (drop_bit 6 v AND 0x3F)) (ucast (v AND 0x3F)) =
     take_bit 24 (v :: u64)"
  unfolding and_3f pack4_def
proof (rule bit_word_eqI, goal_cases)
  case (1 n)
  then show ?case by (cases "n < 6"; cases "n < 12"; cases "n < 18"; cases "n < 24") (auto simp: bit_simps)
qed

lemma bit_u8_ge: "8 \<le> n \<Longrightarrow> \<not> bit (a :: u8) n"
  using bit_imp_le_length [of a n] by auto

lemma unpack3_pack3: "unpack3 (pack3 a b c) = [a, b, c]"
  unfolding unpack3_def pack3_def by (auto intro!: bit_word_eqI simp: bit_simps bit_u8_ge)

lemma pack3_24: "take_bit 24 (pack3 a b c) = pack3 a b c"
  unfolding pack3_def by (rule bit_word_eqI) (auto simp: bit_simps bit_u8_ge)

lemma pack3_unpack3: "pack3 (ucast (drop_bit 16 v)) (ucast (drop_bit 8 v)) (ucast v) = take_bit 24 (v :: u64)"
  unfolding pack3_def
proof (rule bit_word_eqI, goal_cases)
  case (1 n)
  then show ?case by (cases "n < 8"; cases "n < 16"; cases "n < 24") (auto simp: bit_simps)
qed

lemma pack4_24:
  assumes "six_bits a" "six_bits b" "six_bits c" "six_bits d"
  shows "take_bit 24 (pack4 a b c d) = pack4 a b c d"
  unfolding pack4_def by (rule bit_word_eqI) (auto simp: bit_simps assms [THEN six_bits_bit])

lemma sextets_pack4:
  assumes "six_bits a" "six_bits b" "six_bits c" "six_bits d"
  shows "drop_bit 18 (pack4 a b c d) AND 0x3F = ucast a" "drop_bit 12 (pack4 a b c d) AND 0x3F = ucast b"
    "drop_bit 6 (pack4 a b c d) AND 0x3F = ucast c" "pack4 a b c d AND 0x3F = ucast d"
proof -
  note n = assms [THEN six_bits_bit]
  have lt: "bit a i \<Longrightarrow> i < 6" "bit b i \<Longrightarrow> i < 6" "bit c i \<Longrightarrow> i < 6" "bit d i \<Longrightarrow> i < 6" for i
    using n by (metis not_le)+
  show "drop_bit 18 (pack4 a b c d) AND 0x3F = ucast a" "drop_bit 12 (pack4 a b c d) AND 0x3F = ucast b"
    unfolding and_3f pack4_def by (auto intro!: bit_word_eqI simp: bit_simps n lt) (use lt(1) in \<open>force dest: less_trans\<close>)
  show "drop_bit 6 (pack4 a b c d) AND 0x3F = ucast c" "pack4 a b c d AND 0x3F = ucast d"
    unfolding and_3f pack4_def by (auto intro!: bit_word_eqI simp: bit_simps n dest: lt)
qed
lemma symbol_digit:
  assumes "alphabet_ok enc"
  shows "decodeMap enc ! unat (symbol enc v) = ucast (v AND 0x3F)" "is_digit enc (symbol enc v)"
proof -
  have "unat (v AND 0x3F) < 64" by (simp add: and_3f unat_take_bit)
  then show d: "decodeMap enc ! unat (symbol enc v) = ucast (v AND 0x3F)"
    using assms by (simp add: alphabet_ok_def symbol_def)
  show "is_digit enc (symbol enc v)" unfolding is_digit_def d by (rule six_bits_not_ff [OF six_bits_sextet])
qed

lemma symbol_of_digit:
  assumes "alphabet_ok enc" "is_digit enc c" "v AND 0x3F = ucast (decodeMap enc ! unat c)"
  shows "symbol enc v = c"
proof -
  note r = digit_range [OF assms(1), of c]
  have "unat (ucast (decodeMap enc ! unat c) :: u64) = unat (decodeMap enc ! unat c)"
    using unat_u8_less [of "decodeMap enc ! unat c"] by (simp add: unat_ucast)
  then show ?thesis using r assms(2,3) by (simp add: symbol_def is_digit_def)
qed

lemma group_bytes_quad:
  assumes "alphabet_ok enc"
  shows "group_bytes enc (quad enc a b c) = [a, b, c]"
    "group_bytes enc (take 3 (quad enc a b 0)) = [a, b, 0]"
    "group_bytes enc (take 2 (quad enc a 0 0)) = [a, 0, 0]"
proof -
  have z: "pack3 a b 0 AND 0x3F = 0" "drop_bit 6 (pack3 a 0 0) AND 0x3F = 0" for a b
    unfolding and_3f pack3_def by (auto intro!: bit_word_eqI simp: bit_simps)
  note s = symbol_digit(1) [OF assms] and p = pack4_sextets unpack3_pack3 pack3_24
  have e: "(0 :: u8) = ucast (0 :: u64)" by simp
  show "group_bytes enc (quad enc a b c) = [a, b, c]"
    by (simp add: group_bytes_def quad_def quantum_bytes_def s p)
  have "pack4 (ucast (drop_bit 18 v AND 0x3F)) (ucast (drop_bit 12 v AND 0x3F)) (ucast (drop_bit 6 v AND 0x3F)) 0 = take_bit 24 v"
     if "v AND 0x3F = 0" for v using pack4_sextets [of v] that by simp
  then show "group_bytes enc (take 3 (quad enc a b 0)) = [a, b, 0]"
    using z(1) [of a b] by (simp add: group_bytes_def quad_def quantum_bytes_def s p)
  have "pack4 (ucast (drop_bit 18 v AND 0x3F)) (ucast (drop_bit 12 v AND 0x3F)) 0 0 = take_bit 24 v"
     if "v AND 0x3F = 0" "drop_bit 6 v AND 0x3F = 0" for v using pack4_sextets [of v] that by simp
  then show "group_bytes enc (take 2 (quad enc a 0 0)) = [a, 0, 0]"
    using z(1) [of a 0] z(2) [of a] by (simp add: group_bytes_def quad_def quantum_bytes_def s p numeral_2_eq_2)
qed

lemma quad_group_bytes:
  assumes "alphabet_ok enc" "list_all (is_digit enc) cs" "cs = [c0, c1] \<or> cs = [c0, c1, c2] \<or> cs = [c0, c1, c2, c3]"
    "group_bytes enc cs = [x, y, z]"
  shows "take (length cs) (quad enc x y z) = cs"
proof -
  define ds where "ds = map (\<lambda>c. decodeMap enc ! unat c) cs @ replicate (4 - length cs) 0"
  obtain d0 d1 d2 d3 where d: "ds = [d0, d1, d2, d3]" using assms(3) by (auto simp: ds_def numeral_2_eq_2)
  have six: "six_bits d" if "d \<in> set ds" for d
    using that assms(2) digit_range(1) [OF assms(1)]
    by (auto simp: ds_def six_bits_def is_digit_def list_all_iff split: if_splits)
  have "pack3 x y z = take_bit 24 (pack4 d0 d1 d2 d3)"
    using assms(4) pack3_unpack3 [of "pack4 d0 d1 d2 d3"] d
    by (auto simp: group_bytes_def ds_def [symmetric] quantum_bytes_def unpack3_def)
  then have v: "pack3 x y z = pack4 d0 d1 d2 d3" using six d by (simp add: pack4_24)
  have "symbol enc w = c" if "is_digit enc c" "w AND 0x3F = ucast (decodeMap enc ! unat c)" for w c
    using symbol_of_digit [OF assms(1)] that by blast
  then show ?thesis using assms(2,3) sextets_pack4 [of d0 d1 d2 d3] six d
    unfolding quad_def v by (auto simp: ds_def numeral_2_eq_2)
qed

lemma pad_byte:
  assumes "padding_ok enc" "padChar enc \<noteq> NoPadding"
  shows "is_pad enc (ucast (padChar enc))" "\<not> is_digit enc (ucast (padChar enc))" "\<not> newline (ucast (padChar enc))"
proof -
  have u: "unat (ucast (padChar enc) :: u8) = unat (padChar enc)" using assms by (auto simp: padding_ok_def unat_ucast)
  show "is_pad enc (ucast (padChar enc))"
    using u by (simp add: is_pad_def word_unat_eq_iff [of _ "padChar enc"] unat_rune)
  show "\<not> is_digit enc (ucast (padChar enc))" "\<not> newline (ucast (padChar enc))"
    using assms u by (auto simp: padding_ok_def is_digit_def)
qed

lemma is_pad_eq: "is_pad enc c \<Longrightarrow> c = ucast (padChar enc) \<and> padChar enc \<noteq> NoPadding"
  using ucast_not_NoPadding [of c] unat_rune [of c] unat_u8_less [of c]
  by (auto simp: is_pad_def word_unat_eq_iff unat_ucast dest: sym)

lemma quad_digits:
  assumes "alphabet_ok enc"
  shows "list_all (is_digit enc) (quad enc a b c)"
  using symbol_digit(2) [OF assms] by (simp add: quad_def)

lemma quad_cases:
  obtains c0 c1 c2 c3 where "quad enc a b c = [c0, c1, c2, c3]"
  by (simp add: quad_def)

lemma b64_dec_enc:
  "alphabet_ok enc \<Longrightarrow> padding_ok enc \<Longrightarrow> b64_dec enc (b64_enc enc xs) = (xs, True)"
proof (induction enc xs rule: b64_enc.induct)
  case (2 enc a)
  obtain c0 c1 c2 c3 where q: "quad enc a 0 0 = [c0, c1, c2, c3]" by (rule quad_cases)
  have "last_group enc [c0, c1] True = ([a], True)"
    using group_bytes_quad(3) [OF 2(1), of a] by (simp add: last_group_def q)
  then show ?case using quad_digits [OF 2(1), of a 0 0] pad_byte [OF 2(2)]
    by (auto simp: q pads_def numeral_2_eq_2)
next
  case (3 enc a b)
  obtain c0 c1 c2 c3 where q: "quad enc a b 0 = [c0, c1, c2, c3]" by (rule quad_cases)
  have "last_group enc [c0, c1, c2] True = ([a, b], True)"
    using group_bytes_quad(2) [OF 3(1), of a b] by (simp add: last_group_def q)
  then show ?case using quad_digits [OF 3(1), of a b 0] pad_byte [OF 3(2)]
    by (auto simp: q pads_def)
next
  case (4 enc a b c r)
  obtain c0 c1 c2 c3 where q: "quad enc a b c = [c0, c1, c2, c3]" by (rule quad_cases)
  then show ?case using 4 quad_digits [OF 4(2), of a b c] group_bytes_quad(1) [OF 4(2), of a b c] by simp
qed simp

lemma group_bytes_length: "length (group_bytes enc cs) = 3"
  by (simp add: group_bytes_def quantum_bytes_def unpack3_def)

lemma last_group_strict:
  assumes "alphabet_ok enc" "strict enc" "list_all (is_digit enc) cs" "last_group enc cs ok = (x, True)"
    "cs = [c0, c1] \<or> cs = [c0, c1, c2]"
  shows "cs @ pads enc (4 - length cs) = b64_enc enc x \<and> ok"
proof -
  obtain u v w where g: "group_bytes enc cs = [u, v, w]"
    using group_bytes_length [of enc cs] by (auto simp: numeral_3_eq_3 length_Suc_conv)
  have "take (length cs) (quad enc u v w) = cs" 
    using quad_group_bytes [OF assms(1,3) _ g] assms(5) by blast
  then show ?thesis using assms(2,4,5) g by (auto simp: last_group_def numeral_2_eq_2 numeral_3_eq_3 split: if_splits)
qed

lemma b64_enc_dec:
  "alphabet_ok enc \<Longrightarrow> strict enc \<Longrightarrow> b64_dec enc cs = (x, True) \<Longrightarrow> cs = b64_enc enc x"
proof (induction enc cs arbitrary: x rule: b64_dec.induct)
  case (3 enc a b)
  then show ?case using last_group_strict [of enc "[a, b]" True x a b] by (auto simp: pads_def split: if_splits)
next
  case (4 enc a b c)
  then show ?case using last_group_strict [of enc "[a, b, c]" True x a b c] by (auto simp: pads_def split: if_splits)
next
  case (5 enc a b c d r)
  consider "list_all (is_digit enc) [a, b, c, d]" | "\<not> list_all (is_digit enc) [a, b, c, d]" "list_all (is_digit enc) [a, b, c]" "is_pad enc d"
    | "\<not> list_all (is_digit enc) [a, b, c]" "list_all (is_digit enc) [a, b]" "is_pad enc c" "is_pad enc d" 
    using 5(4) by (auto split: if_splits)
  then show ?case
  proof cases
    case 1
    obtain out where o: "b64_dec enc r = (out, True)" "x = group_bytes enc [a, b, c, d] @ out"
      using 5(4) 1 by (auto split: prod.splits)
    obtain u v w where g: "group_bytes enc [a, b, c, d] = [u, v, w]"
      using group_bytes_length [of enc "[a, b, c, d]"] by (auto simp: numeral_3_eq_3 length_Suc_conv)
    have "take (length [a, b, c, d]) (quad enc u v w) = [a, b, c, d]" 
      using quad_group_bytes [OF 5(2) 1 _ g] by blast
    then show ?thesis using 5(1) [OF 1 5(2,3) o(1)] o(2) g by simp
  next
    case 2
    have "last_group enc [a, b, c] (r = []) = (x, True)" using 5(4) 2 by auto
    then show ?thesis using last_group_strict [OF 5(2,3) 2(2)] is_pad_eq [OF 2(3)] by (auto simp: pads_def)
  next
    case 3
    have "last_group enc [a, b] (r = []) = (x, True)" using 5(4) 3 by auto
    then show ?thesis using last_group_strict [OF 5(2,3) 3(2)] is_pad_eq [OF 3(3)] is_pad_eq [OF 3(4)] 
      by (auto simp: pads_def numeral_2_eq_2)
  qed
qed simp_all

lemma b64_enc_no_newlines:
  "alphabet_ok enc \<Longrightarrow> padding_ok enc \<Longrightarrow> without_newlines (b64_enc enc xs) = b64_enc enc xs"
proof (induction enc xs rule: b64_enc.induct)
  case (2 enc a)
  then show ?case using pad_byte [OF 2(2)] digit_not_newline [OF 2(1) symbol_digit(2) [OF 2(1)]]
    by (auto simp: quad_def pads_def numeral_2_eq_2)
next
  case (3 enc a b)
  then show ?case using pad_byte [OF 3(2)] digit_not_newline [OF 3(1) symbol_digit(2) [OF 3(1)]]
    by (auto simp: quad_def pads_def numeral_3_eq_3)
next
  case (4 enc a b c r)
  then show ?case using digit_not_newline [OF 4(2) symbol_digit(2) [OF 4(2)]]
    by (auto simp: quad_def)
qed simp

lemma EncodeToString_eq:
  assumes "length src < 2 ^ 62"
  shows "EncodeToString enc src = Inr (b64_enc enc src)"
  using EncodedLen_eq [OF assms, of enc] by (simp add: EncodeToString_def make_bytes_def Encode_spec)

lemma slices_Grow_room: "\<exists>spare'. slices_Grow spare (int n) = Inr spare' \<and> n \<le> length spare'"
  by (auto simp: slices_Grow_def nat_diff_distrib)

lemma AppendEncode_eq:
  assumes "length src < 2 ^ 62"
  shows "AppendEncode enc dst spare src = Inr (dst @ b64_enc enc src)"
  using EncodedLen_eq [OF assms, of enc] slices_Grow_room [of spare "length (b64_enc enc src)"]
  by (auto simp: AppendEncode_def Let_def Encode_spec)

lemma b64_run_length: "length (fst (b64_run enc src si)) \<le> fst (snd (b64_run enc src si))"
proof (induction enc src si rule: b64_run.induct)
  case (1 enc src si)
  obtain si' w out err where q: "quantum enc src si = (si', w, out, err)" by (metis prod_cases4)
  show ?case
  proof (cases "si < length src")
    case True
    have "length (fst (b64_run enc src si')) \<le> fst (snd (b64_run enc src si'))" if "err = None"
      using 1 [OF True] q that by simp
    then show ?thesis using True quantum_index(3) [OF q]
      by (subst (1 2) b64_run.simps) (cases "b64_run enc src si'"; auto simp: q split: option.splits)
  next
    case False
    then show ?thesis by (subst (1 2) b64_run.simps) simp
  qed
qed

text \<open>The bytes written fit into the buffers that \<open>DecodedLen\<close> and \<open>AppendDecode\<close> provide.\<close>

lemma run_fits_DecodedLen:
  assumes "length src < 2 ^ 62"
  shows "int (fst (snd (b64_run enc src 0))) \<le> DecodedLen enc (int (length src))"
  using decodedLen_eq [OF assms] run_room [of enc src "length src" 0] run_room_padded [of enc 0 src]
  by (auto simp: DecodedLen_def digits_below_def)

lemma run_fits_trimmed:
  assumes "alphabet_ok enc" "padding_ok enc" "length src < 2 ^ 62"
  shows "\<exists>n. decodedLen (int (trim_padding enc src (length src))) NoPadding = int n \<and> fst (snd (b64_run enc src 0)) \<le> n"
proof -
  define m where "m = trim_padding enc src (length src)"
  have m: "digits_below enc src m" "m \<le> length src"
    using trim_padding_bound [OF assms(1,2), of "length src" src] by (simp_all add: m_def)
  then show ?thesis using decodedLen_eq [of m NoPadding] run_room [OF m(1), of 0] assms(3)
    by (auto simp: m_def [symmetric])
qed

context byteorder
begin

lemma Decode_fits:
  assumes "alphabet_ok enc" "b64_run enc src 0 = (out, w, err)" "w \<le> length dst"
  shows "\<exists>dst'. Decode bo enc dst src = Inr (dst', length out, err) \<and> length dst' = length dst \<and> take (length out) dst' = out \<and>
    length out \<le> w \<and> b64_dec enc (without_newlines src) = (out, err = None)"
  using Decode_run [OF assms(1), of src dst] assms b64_run_length [of enc src 0] b64_run_dec [OF assms(1), of 0 src]
  by (auto simp: run_result_def)

lemma DecodeString_eq:
  assumes "alphabet_ok enc" "length s < 2 ^ 62" "b64_run enc s 0 = (out, w, err)"
  shows "DecodeString bo enc s = Inr (out, err)"
proof -
  have w: "int w \<le> DecodedLen enc (int (length s))" using run_fits_DecodedLen [OF assms(2), of enc] assms(3) by simp
  then have "w \<le> length (replicate (nat (DecodedLen enc (int (length s)))) (0 :: u8))" by simp
  from Decode_fits [OF assms(1,3) this] w show ?thesis by (auto simp: DecodeString_def make_bytes_def)
qed

lemma AppendDecode_eq:
  assumes "alphabet_ok enc" "padding_ok enc" "length s < 2 ^ 62" "b64_run enc s 0 = (out, w, err)"
  shows "AppendDecode bo enc dst spare s = Inr (dst @ out, err)"
proof -
  obtain n where n: "decodedLen (int (trim_padding enc s (length s))) NoPadding = int n" "w \<le> n"
    using run_fits_trimmed [OF assms(1-3)] assms(4) by auto
  obtain spare' where "slices_Grow spare (int n) = Inr spare'" "n \<le> length spare'" using slices_Grow_room by blast
  then show ?thesis using Decode_fits [OF assms(1,4), of "take n spare'"] n by (auto simp: AppendDecode_def)
qed

end

interpretation binary_order: byteorder "\<lparr>BEPutUint32 = BE_PutUint32, BEPutUint64 = BE_PutUint64\<rparr>"
  by unfold_locales (simp_all add: PutUint_eq)

section \<open>The promises of the package\<close>

text \<open>
  C22: Strict decoding accepts exactly the canonical encodings. For every alphabet and padding the package accepts:
  a string that, apart from newlines, is the encoding of \<open>x\<close> decodes to \<open>x\<close> without error; a strict decoder
  returns \<open>x\<close> without error only for such strings; and the encoding has \<open>EncodedLen\<close> bytes and no newline.
\<close>

theorem base64_strict_inverse:
  assumes "byteorder bo" "alphabet_ok enc" "padding_ok enc" "length s < 2 ^ 62" "length x < 2 ^ 62"
  shows "(EncodeToString enc x = Inr (without_newlines s) \<longrightarrow> DecodeString bo enc s = Inr (x, None)) \<and>
    (DecodeString bo (Strict enc) s = Inr (x, None) \<longleftrightarrow> EncodeToString enc x = Inr (without_newlines s)) \<and>
    (\<exists>t. EncodeToString enc x = Inr t \<and> without_newlines t = t \<and> int (length t) = EncodedLen enc (int (length x)))"
proof -
  have st: "alphabet_ok (Strict enc)" "padding_ok (Strict enc)" "strict (Strict enc)"
    using assms(2,3) by (simp_all add: Strict_def alphabet_ok_def padding_ok_def)
  have es: "b64_enc (Strict enc) ys = b64_enc enc ys" for ys
    by (induction enc ys rule: b64_enc.induct) (simp_all add: Strict_def quad_def symbol_def pads_def)
  obtain out w err where r: "b64_run enc s 0 = (out, w, err)" by (metis prod_cases3)
  obtain out' w' err' where r': "b64_run (Strict enc) s 0 = (out', w', err')" by (metis prod_cases3)
  note d = byteorder.DecodeString_eq [OF assms(1,2,4) r] and d' = byteorder.DecodeString_eq [OF assms(1) st(1) assms(4) r']
  have m: "b64_dec enc (without_newlines s) = (out, err = None)" "b64_dec (Strict enc) (without_newlines s) = (out', err' = None)"
    using b64_run_dec [OF assms(2), of 0 s] b64_run_dec [OF st(1), of 0 s] r r' by simp_all
  note e = EncodeToString_eq [OF assms(5), of enc]
  have "EncodeToString enc x = Inr (without_newlines s) \<longrightarrow> DecodeString bo enc s = Inr (x, None)"
    using d m(1) e b64_dec_enc [OF assms(2,3), of x] by auto
  moreover have "DecodeString bo (Strict enc) s = Inr (x, None) \<longleftrightarrow> EncodeToString enc x = Inr (without_newlines s)"
    using d' m(2) e b64_dec_enc [OF st(1,2), of x] b64_enc_dec [OF st(1,3), of "without_newlines s" x] es by auto
  moreover have "\<exists>t. EncodeToString enc x = Inr t \<and> without_newlines t = t \<and> int (length t) = EncodedLen enc (int (length x))"
    using e b64_enc_no_newlines [OF assms(2,3)] EncodedLen_eq [OF assms(5)] by simp
  ultimately show ?thesis by blast
qed

abbreviation binary_bo :: byteorder_pkg where
  "binary_bo \<equiv> \<lparr>BEPutUint32 = BE_PutUint32, BEPutUint64 = BE_PutUint64\<rparr>"

lemma StdEncoding_ok: "alphabet_ok (projr StdEncoding)" "padding_ok (projr StdEncoding)"
proof -
  have "case StdEncoding of Inl e \<Rightarrow> False | Inr enc \<Rightarrow> padding_ok enc" by code_simp
  then obtain enc where enc: "StdEncoding = Inr enc" "padding_ok enc" by (auto split: sum.splits)
  then show "alphabet_ok (projr StdEncoding)" "padding_ok (projr StdEncoding)"
    using NewEncoding_Inr(1) by (auto simp: StdEncoding_def)
qed

theorem base64_strict_inverse_witness:
  "DecodeString binary_bo (projr StdEncoding) (bytes_of ''TW8'' @ [0x0A] @ bytes_of ''='') = Inr ([77, 111], None) \<and>
   DecodeString binary_bo (Strict (projr StdEncoding)) (bytes_of ''TW9='') \<noteq> Inr ([77, 111], None)"
proof -
  note b = binary_order.byteorder_axioms
  have e: "EncodeToString (projr StdEncoding) [77, 111] = Inr (bytes_of ''TW8='')" by code_simp
  have w: "without_newlines (bytes_of ''TW8'' @ [0x0A] @ bytes_of ''='') = bytes_of ''TW8=''"
    "without_newlines (bytes_of ''TW9='') = bytes_of ''TW9=''" "bytes_of ''TW8='' \<noteq> bytes_of ''TW9=''" by code_simp+
  show ?thesis
    using base64_strict_inverse [OF b StdEncoding_ok, of "bytes_of ''TW8'' @ [0x0A] @ bytes_of ''=''" "[77, 111]"]
      base64_strict_inverse [OF b StdEncoding_ok, of "bytes_of ''TW9=''" "[77, 111]"]
    unfolding e w using w(3) by (simp add: bytes_of_def)
qed

text \<open>
  C23: \<open>Decode\<close> never panics when \<open>dst\<close> has \<open>DecodedLen\<close> bytes: its eight- and four-character fast paths, which
  write beyond the decoded bytes, and its slow path stay inside \<open>dst\<close> on every input. The bytes and the success
  it reports are those of the reference decoder, which ignores newlines; \<open>AppendDecode\<close>, whose buffer leaves out
  the trailing padding, returns the same as \<open>DecodeString\<close>.
\<close>

theorem Decode_safe:
  assumes "byteorder bo" "alphabet_ok enc" "length src < 2 ^ 62" "DecodedLen enc (int (length src)) \<le> int (length dst)"
  shows "\<exists>dst' n err. Decode bo enc dst src = Inr (dst', n, err) \<and> length dst' = length dst \<and>
     int n \<le> DecodedLen enc (int (length src)) \<and> b64_dec enc (without_newlines src) = (take n dst', err = None) \<and>
     DecodeString bo enc src = Inr (take n dst', err) \<and>
     (padding_ok enc \<longrightarrow> AppendDecode bo enc pre spare src = Inr (pre @ take n dst', err))"
proof -
  obtain out w err where r: "b64_run enc src 0 = (out, w, err)" by (metis prod_cases3)
  have w: "int w \<le> DecodedLen enc (int (length src))" using run_fits_DecodedLen [OF assms(3), of enc] r by simp
  then obtain dst' where "Decode bo enc dst src = Inr (dst', length out, err)" "length dst' = length dst" "take (length out) dst' = out"
     "length out \<le> w" "b64_dec enc (without_newlines src) = (out, err = None)"
    using byteorder.Decode_fits [OF assms(1,2) r, of dst] assms(4) by auto
  then show ?thesis
    using w byteorder.DecodeString_eq [OF assms(1,2,3) r] byteorder.AppendDecode_eq [OF assms(1,2) _ assms(3) r, of pre spare] by auto
qed

theorem Decode_safe_witness:
  "\<exists>dst' n err. Decode binary_bo (projr StdEncoding) (replicate 6 0) (bytes_of ''TWFu*WFu'') = Inr (dst', n, err) \<and>
     int n \<le> 6 \<and> b64_dec (projr StdEncoding) (bytes_of ''TWFu*WFu'') = (take n dst', err = None) \<and>
     AppendDecode binary_bo (projr StdEncoding) [1] [] (bytes_of ''TWFu*WFu'') = Inr ([1] @ take n dst', err)"
proof -
  have l: "DecodedLen (projr StdEncoding) 8 = 6" "length (bytes_of ''TWFu*WFu'') = 8"
     "without_newlines (bytes_of ''TWFu*WFu'') = bytes_of ''TWFu*WFu''" by code_simp+
  show ?thesis
    using Decode_safe [OF binary_order.byteorder_axioms StdEncoding_ok(1), of "bytes_of ''TWFu*WFu''" "replicate 6 0" "[1]" "[]"] StdEncoding_ok(2)
    unfolding l by (simp add: l(1)) blast
qed

text \<open>
  C24: \<open>NewEncoding\<close> succeeds exactly on 64 distinct bytes without newline, and its result maps every symbol to its
  index and back; otherwise it panics with the message for the length or for the first offending symbol. It does not look for the
  padding character. \<open>WithPadding\<close> accepts exactly \<open>NoPadding\<close> and the single bytes that are neither a newline nor in the alphabet, and its
  result satisfies both invariants.
\<close>

theorem NewEncoding_WithPadding_types:
  "(case NewEncoding a of
      Inr enc \<Rightarrow> length a = 64 \<and> distinct a \<and> \<not> list_ex newline a \<and> encode enc = a \<and> alphabet_ok enc \<and> padChar enc = StdPadding \<and>
        \<not> strict enc \<and> (padding_ok enc \<longleftrightarrow> 0x3D \<notin> set a) \<and>
        WithPadding enc p =
          (if p = NoPadding \<or> unat p \<le> 0xff \<and> \<not> newline (ucast p) \<and> ucast p \<notin> set a then Inr (enc\<lparr>padChar := p\<rparr>)
           else if unat p \<le> 0xff \<and> \<not> newline (ucast p) then Inl (PanicMsg ''padding contained in alphabet'')
           else Inl (PanicMsg ''invalid padding'')) \<and>
        (case WithPadding enc p of Inl e \<Rightarrow> True | Inr enc' \<Rightarrow> alphabet_ok enc' \<and> padding_ok enc')
    | Inl e \<Rightarrow>
        if length a \<noteq> 64 then e = PanicMsg ''encoding alphabet is not 64-bytes long''
        else \<exists>k<64. \<not> list_ex newline (take k a) \<and> distinct (take k a) \<and>
          (if newline (a ! k) then e = PanicMsg ''encoding alphabet contains newline character''
           else a ! k \<in> set (take k a) \<and> e = PanicMsg ''encoding alphabet includes duplicate symbols''))"
proof (cases "NewEncoding a")
  case (Inl e)
  show ?thesis
  proof (cases "length a = 64")
    case True
    then have "NewEncoding_loop a 0 decodeMapInitialize = Inl e" using Inl by (auto simp: NewEncoding_def split: sum.splits)
    then show ?thesis using NewEncoding_loop_spec [OF map_prefix_init True] True Inl by simp
  next
    case False
    then show ?thesis using Inl by (simp add: NewEncoding_def)
  qed
next
  case (Inr enc)
  note n = NewEncoding_Inr [OF Inr] and d = decodeMap_alphabet [OF NewEncoding_Inr(1) [OF Inr]]
  have p: "padding_ok (enc\<lparr>padChar := q\<rparr>) \<longleftrightarrow> q = NoPadding \<or> unat q \<le> 0xff \<and> \<not> newline (ucast q) \<and> ucast q \<notin> set a" for q
  proof (cases "unat q \<le> 0xff")
    case True
    then have "unat (ucast q :: u8) = unat q" by (simp add: unat_ucast)
    then show ?thesis using d [of "ucast q"] n(2) by (auto simp: padding_ok_def)
  qed (simp add: padding_ok_def)
  have "padding_ok enc \<longleftrightarrow> 0x3D \<notin> set a"
  proof -
    have "enc\<lparr>padChar := StdPadding\<rparr> = enc" using n(3) by simp
    moreover have "StdPadding \<noteq> NoPadding" by (simp add: word_unat_eq_iff unat_NoPadding StdPadding_def)
    ultimately show ?thesis using p [of StdPadding] by (simp add: StdPadding_def newline_def)
  qed
  moreover have "alphabet_ok (enc\<lparr>padChar := q\<rparr>)" for q using n(1) by (simp add: alphabet_ok_def)
  ultimately show ?thesis using Inr n WithPadding_spec [OF n(1), of p] p by auto
qed

text \<open>
  C25: \<open>Encode\<close> writes exactly \<open>EncodedLen\<close> bytes and leaves the rest of \<open>dst\<close> alone; it panics exactly when \<open>dst\<close> is shorter.
  \<open>AppendEncode\<close> and \<open>EncodeToString\<close> give the same bytes.
\<close>

theorem Encode_exact:
  assumes "length src < 2 ^ 62"
  shows "\<exists>t. EncodedLen enc (int (length src)) = int (length t) \<and>
     Encode enc dst src = (if length t \<le> length dst then Inr (t @ drop (length t) dst) else Inl IndexOutOfRange) \<and>
     AppendEncode enc dst spare src = Inr (dst @ t) \<and> EncodeToString enc src = Inr t"
  using EncodedLen_eq [OF assms] Encode_spec [of enc dst src] AppendEncode_eq [OF assms] EncodeToString_eq [OF assms] by blast

theorem Encode_exact_witness:
  "EncodeToString (projr StdEncoding) [0] = Inr (bytes_of ''AA=='') \<and>
   Encode (projr StdEncoding) [1, 2, 3] [0] = Inl IndexOutOfRange \<and>
   AppendEncode (projr StdEncoding) [1, 2, 3] [] [0] = Inr ([1, 2, 3] @ bytes_of ''AA=='')"
proof -
  have e: "EncodeToString (projr StdEncoding) [0] = Inr (bytes_of ''AA=='')" by code_simp
  then show ?thesis using Encode_exact [of "[0]" "projr StdEncoding" "[1, 2, 3]" "[]"] by (auto simp: bytes_of_def)
qed

end
