(* ===== verification/Strings_Builder.thy ===== *)
theory Strings_Builder
  imports Binary Utf8_Correct
begin

text \<open>
  \<open>strings.Builder\<close> (\<open>src/strings/builder.go\<close>). A builder is its \<open>addr\<close> field and its buffer with the
  capacity of that buffer; every method takes the address \<open>self\<close> of the receiver, which \<open>copyCheck\<close> compares
  with \<open>addr\<close>. The allocator is the Go run time, which is not part of this source tree: the record \<open>allocator\<close>
  holds the capacity that \<open>append\<close> gives a slice it moves and what \<open>bytealg.MakeNoZero\<close> returns.
\<close>

record Builder =
  b_addr :: "nat option"
  b_buf :: bytes
  b_cap :: nat

record allocator =
  append_cap :: "nat \<Rightarrow> nat \<Rightarrow> nat"
  MakeNoZero :: "int \<Rightarrow> panic + nat"

definition zero_Builder :: Builder where
  "zero_Builder = \<lparr>b_addr = None, b_buf = [], b_cap = 0\<rparr>"

definition copyCheck :: "nat \<Rightarrow> Builder \<Rightarrow> panic + Builder" where
  "copyCheck self b =
     (case b_addr b of
        None \<Rightarrow> Inr (b\<lparr>b_addr := Some self\<rparr>)
      | Some a \<Rightarrow>
          if a \<noteq> self then Inl (PanicMsg ''strings: illegal use of non-zero Builder copied by value'') else Inr b)"

definition Builder_String :: "Builder \<Rightarrow> bytes" where
  "Builder_String b = b_buf b"

definition Builder_Len :: "Builder \<Rightarrow> nat" where
  "Builder_Len b = length (b_buf b)"

definition Builder_Cap :: "Builder \<Rightarrow> nat" where
  "Builder_Cap b = b_cap b"

definition Builder_Reset :: "Builder \<Rightarrow> Builder" where
  "Builder_Reset b = b\<lparr>b_addr := None, b_buf := [], b_cap := 0\<rparr>"

definition Builder_grow :: "allocator \<Rightarrow> Builder \<Rightarrow> int \<Rightarrow> panic + Builder" where
  "Builder_grow al b n =
     (case MakeNoZero al (wrap64 (wrap64 (2 * int (b_cap b)) + n)) of
        Inl e \<Rightarrow> Inl e
      | Inr c \<Rightarrow> if c < length (b_buf b) then Inl SliceBounds else Inr (b\<lparr>b_cap := c\<rparr>))"

definition Builder_Grow :: "allocator \<Rightarrow> nat \<Rightarrow> Builder \<Rightarrow> int \<Rightarrow> panic + Builder" where
  "Builder_Grow al self b n =
     (case copyCheck self b of
        Inl e \<Rightarrow> Inl e
      | Inr b \<Rightarrow>
          if n < 0 then Inl (PanicMsg ''strings.Builder.Grow: negative count'')
          else if int (b_cap b) - int (length (b_buf b)) < n then Builder_grow al b n
          else Inr b)"

text \<open>\<open>b.buf = append(b.buf, p...)\<close>.\<close>

definition append_buf :: "allocator \<Rightarrow> Builder \<Rightarrow> bytes \<Rightarrow> Builder" where
  "append_buf al b p =
     (let n = length (b_buf b) + length p in
      b\<lparr>b_buf := b_buf b @ p, b_cap := (if n \<le> b_cap b then b_cap b else append_cap al (b_cap b) n)\<rparr>)"

definition Builder_Write :: "allocator \<Rightarrow> nat \<Rightarrow> Builder \<Rightarrow> bytes \<Rightarrow> panic + Builder \<times> int \<times> io_error option" where
  "Builder_Write al self b p =
     (case copyCheck self b of Inl e \<Rightarrow> Inl e | Inr b \<Rightarrow> Inr (append_buf al b p, int (length p), None))"

definition Builder_WriteByte :: "allocator \<Rightarrow> nat \<Rightarrow> Builder \<Rightarrow> u8 \<Rightarrow> panic + Builder \<times> io_error option" where
  "Builder_WriteByte al self b c =
     (case copyCheck self b of Inl e \<Rightarrow> Inl e | Inr b \<Rightarrow> Inr (append_buf al b [c], None))"

text \<open>\<open>utf8.AppendRune\<close> appends the bytes of the rune to the buffer it is given.\<close>

definition Builder_WriteRune :: "allocator \<Rightarrow> nat \<Rightarrow> Builder \<Rightarrow> rune \<Rightarrow> panic + Builder \<times> int \<times> io_error option" where
  "Builder_WriteRune al self b r =
     (case copyCheck self b of
        Inl e \<Rightarrow> Inl e
      | Inr b \<Rightarrow>
          (let n = length (b_buf b);
               b = append_buf al b (drop n (AppendRune (b_buf b) r))
           in Inr (b, int (length (b_buf b)) - int n, None)))"

definition Builder_WriteString :: "allocator \<Rightarrow> nat \<Rightarrow> Builder \<Rightarrow> bytes \<Rightarrow> panic + Builder \<times> int \<times> io_error option" where
  "Builder_WriteString al self b s =
     (case copyCheck self b of Inl e \<Rightarrow> Inl e | Inr b \<Rightarrow> Inr (append_buf al b s, int (length s), None))"

section \<open>Sequences of calls\<close>

datatype builder_op =
    Op_Write bytes
  | Op_WriteByte u8
  | Op_WriteRune rune
  | Op_WriteString bytes
  | Op_Grow int
  | Op_Reset

definition builder_exec :: "allocator \<Rightarrow> nat \<Rightarrow> Builder \<Rightarrow> builder_op \<Rightarrow> panic + Builder" where
  "builder_exec al self b op =
     (case op of
        Op_Write p \<Rightarrow> map_sum id fst (Builder_Write al self b p)
      | Op_WriteByte c \<Rightarrow> map_sum id fst (Builder_WriteByte al self b c)
      | Op_WriteRune r \<Rightarrow> map_sum id fst (Builder_WriteRune al self b r)
      | Op_WriteString p \<Rightarrow> map_sum id fst (Builder_WriteString al self b p)
      | Op_Grow n \<Rightarrow> Builder_Grow al self b n
      | Op_Reset \<Rightarrow> Inr (Builder_Reset b))"

fun builder_run :: "allocator \<Rightarrow> nat \<Rightarrow> Builder \<Rightarrow> builder_op list \<Rightarrow> panic + Builder" where
  "builder_run al self b [] = Inr b"
| "builder_run al self b (op # ops) =
     (case builder_exec al self b op of Inl e \<Rightarrow> Inl e | Inr b \<Rightarrow> builder_run al self b ops)"

text \<open>The accumulated string, and the bytes each call adds to it.\<close>

fun op_bytes :: "builder_op \<Rightarrow> bytes" where
  "op_bytes (Op_Write p) = p"
| "op_bytes (Op_WriteByte c) = [c]"
| "op_bytes (Op_WriteRune r) = AppendRune [] r"
| "op_bytes (Op_WriteString p) = p"
| "op_bytes _ = []"

definition op_string :: "bytes \<Rightarrow> builder_op \<Rightarrow> bytes" where
  "op_string s op = (if op = Op_Reset then [] else s @ op_bytes op)"

definition is_grow :: "builder_op \<Rightarrow> bool" where
  "is_grow op = (case op of Op_Grow _ \<Rightarrow> True | _ \<Rightarrow> False)"

definition allocator_ok :: "allocator \<Rightarrow> bool" where
  "allocator_ok al \<longleftrightarrow> (\<forall>c n. n \<le> append_cap al c n) \<and> (\<forall>n c. MakeNoZero al n = Inr c \<longrightarrow> n \<le> int c)"

definition builder_ok :: "nat \<Rightarrow> Builder \<Rightarrow> bool" where
  "builder_ok self b \<longleftrightarrow> (b_addr b = None \<or> b_addr b = Some self) \<and> length (b_buf b) \<le> b_cap b"

lemma AppendRune_added: "drop (length p) (AppendRune p r) = AppendRune [] r"
  by (simp add: AppendRune_def appendRuneNonASCII_def)

lemma copyCheck_ok: "builder_ok self b \<Longrightarrow> copyCheck self b = Inr (b\<lparr>b_addr := Some self\<rparr>)"
  by (auto simp: builder_ok_def copyCheck_def)

lemma append_buf_ok:
  assumes "allocator_ok al" "builder_ok self b"
  shows "builder_ok self (append_buf al (b\<lparr>b_addr := Some self\<rparr>) p)"
    "b_buf (append_buf al (b\<lparr>b_addr := Some self\<rparr>) p) = b_buf b @ p"
    "length (b_buf b) + length p \<le> b_cap b \<Longrightarrow> b_cap (append_buf al (b\<lparr>b_addr := Some self\<rparr>) p) = b_cap b"
  using assms by (auto simp: builder_ok_def append_buf_def allocator_ok_def Let_def)

lemma builder_exec_ok:
  assumes "allocator_ok al" "builder_ok self b"
  shows "case builder_exec al self b op of
      Inl e \<Rightarrow> is_grow op
    | Inr b' \<Rightarrow> builder_ok self b' \<and> b_buf b' = op_string (b_buf b) op \<and>
        (\<not> is_grow op \<and> op \<noteq> Op_Reset \<and> length (b_buf b) + length (op_bytes op) \<le> b_cap b \<longrightarrow> b_cap b' = b_cap b)"
proof (cases op)
  case (Op_Grow n)
  then show ?thesis using assms copyCheck_ok [OF assms(2)]
    by (auto simp: builder_exec_def Builder_Grow_def Builder_grow_def is_grow_def op_string_def builder_ok_def split: sum.splits)
next
  case Op_Reset
  then show ?thesis by (simp add: builder_exec_def Builder_Reset_def op_string_def builder_ok_def)
qed (use append_buf_ok [OF assms] copyCheck_ok [OF assms(2)] in \<open>auto simp: builder_exec_def Builder_Write_def Builder_WriteByte_def
      Builder_WriteRune_def Builder_WriteString_def AppendRune_added op_string_def is_grow_def Let_def\<close>)

lemma builder_run_ok:
  "allocator_ok al \<Longrightarrow> builder_ok self b \<Longrightarrow>
   (case builder_run al self b ops of
      Inl e \<Rightarrow> list_ex is_grow ops
    | Inr b' \<Rightarrow> builder_ok self b' \<and> b_buf b' = foldl op_string (b_buf b) ops \<and>
        (\<not> list_ex (\<lambda>op. is_grow op \<or> op = Op_Reset) ops \<and> length (b_buf b) + length (concat (map op_bytes ops)) \<le> b_cap b \<longrightarrow>
           b_cap b' = b_cap b))"
proof (induction ops arbitrary: b)
  case (Cons op ops)
  note e = builder_exec_ok [OF Cons.prems, of op]
  show ?case
  proof (cases "builder_exec al self b op")
    case (Inl e)
    then show ?thesis using e by simp
  next
    case (Inr b')
    have "op \<noteq> Op_Reset \<Longrightarrow> op_string (b_buf b) op = b_buf b @ op_bytes op" by (simp add: op_string_def)
    then show ?thesis using e Inr Cons.IH [OF Cons.prems(1), of b'] by (auto split: sum.splits)
  qed
qed simp

lemma Builder_Grow_room:
  assumes "allocator_ok al" "builder_ok self b" "2 * int (b_cap b) + n < 2 ^ 63" "Builder_Grow al self b n = Inr b'"
  shows "n \<le> int (b_cap b') - int (length (b_buf b')) \<and> b_buf b' = b_buf b"
proof -
  have n: "0 \<le> n" using assms(4) copyCheck_ok [OF assms(2)] by (auto simp: Builder_Grow_def split: if_splits)
  have "wrap64 (wrap64 (2 * int (b_cap b)) + n) = 2 * int (b_cap b) + n" using n assms(3) by (simp add: wrap64_small)
  then show ?thesis using assms copyCheck_ok [OF assms(2)]
    by (force simp: Builder_Grow_def Builder_grow_def allocator_ok_def builder_ok_def split: if_splits sum.splits)
qed

section \<open>Builders as writers\<close>

text \<open>What a client relies on of an \<open>io.Writer\<close> that accepts everything: the bytes are appended and no error is reported.\<close>

locale appending_writer =
  fixes wr :: "'w writer" and written :: "'w \<Rightarrow> bytes" and usable :: "'w \<Rightarrow> bool"
  assumes write_appends: "usable w \<Longrightarrow> \<exists>w'. wr w b = Inr (w', int (length b), None) \<and> usable w' \<and> written w' = written w @ b"

text \<open>A \<open>strings.Builder\<close> that is not used at another address is such a writer, with its \<open>Write\<close> and its \<open>WriteString\<close> method.\<close>

interpretation builder_writer: appending_writer "Builder_Write al self" Builder_String "\<lambda>b. b_addr b = None \<or> b_addr b = Some self"
  for al self
  by unfold_locales (auto simp: Builder_Write_def copyCheck_def append_buf_def Builder_String_def Let_def)

interpretation builder_string_writer: appending_writer "Builder_WriteString al self" Builder_String "\<lambda>b. b_addr b = None \<or> b_addr b = Some self"
  for al self
  by unfold_locales (auto simp: Builder_WriteString_def copyCheck_def append_buf_def Builder_String_def Let_def)

text \<open>
  C27: A builder that is used at one address holds exactly the bytes written since the last \<open>Reset\<close>, whatever
  the sequence of \<open>Write\<close>, \<open>WriteByte\<close>, \<open>WriteRune\<close>, \<open>WriteString\<close>, \<open>Grow\<close> and \<open>Reset\<close>; its length never exceeds its
  capacity; only \<open>Grow\<close> can panic. After a successful \<open>Grow(n)\<close> there is room for \<open>n\<close> bytes, and as long as the
  writes fit no reallocation happens. Every write to a builder copied to another address panics.
\<close>

theorem Builder_accumulates:
  assumes "allocator_ok al" "builder_ok self b"
  shows "(case builder_run al self b ops of
      Inl e \<Rightarrow> list_ex is_grow ops
    | Inr b' \<Rightarrow> builder_ok self b' \<and> Builder_String b' = foldl op_string (Builder_String b) ops \<and>
        Builder_Len b' \<le> Builder_Cap b' \<and>
        (\<not> list_ex (\<lambda>op. is_grow op \<or> op = Op_Reset) ops \<and> Builder_Len b + length (concat (map op_bytes ops)) \<le> Builder_Cap b \<longrightarrow>
           Builder_Cap b' = Builder_Cap b)) \<and>
    (2 * int (Builder_Cap b) + n < 2 ^ 63 \<and> Builder_Grow al self b n = Inr g \<longrightarrow>
        n \<le> int (Builder_Cap g) - int (Builder_Len g) \<and> Builder_String g = Builder_String b) \<and>
    (b_addr b \<noteq> None \<and> other \<noteq> self \<and> op \<noteq> Op_Reset \<longrightarrow>
        builder_exec al other b op = Inl (PanicMsg ''strings: illegal use of non-zero Builder copied by value''))"
proof (intro conjI impI)
  show "case builder_run al self b ops of
      Inl e \<Rightarrow> list_ex is_grow ops
    | Inr b' \<Rightarrow> builder_ok self b' \<and> Builder_String b' = foldl op_string (Builder_String b) ops \<and>
        Builder_Len b' \<le> Builder_Cap b' \<and>
        (\<not> list_ex (\<lambda>op. is_grow op \<or> op = Op_Reset) ops \<and> Builder_Len b + length (concat (map op_bytes ops)) \<le> Builder_Cap b \<longrightarrow>
           Builder_Cap b' = Builder_Cap b)"
    using builder_run_ok [OF assms, of ops]
    by (auto simp: Builder_String_def Builder_Len_def Builder_Cap_def builder_ok_def split: sum.splits)
next
  assume "2 * int (Builder_Cap b) + n < 2 ^ 63 \<and> Builder_Grow al self b n = Inr g"
  then show "n \<le> int (Builder_Cap g) - int (Builder_Len g)" "Builder_String g = Builder_String b"
    using Builder_Grow_room [OF assms, of n g] unfolding Builder_String_def Builder_Len_def Builder_Cap_def by blast+
next
  assume "b_addr b \<noteq> None \<and> other \<noteq> self \<and> op \<noteq> Op_Reset"
  then show "builder_exec al other b op = Inl (PanicMsg ''strings: illegal use of non-zero Builder copied by value'')"
    using assms(2) by (cases op) (auto simp: builder_ok_def builder_exec_def Builder_Write_def Builder_WriteByte_def
      Builder_WriteRune_def Builder_WriteString_def Builder_Grow_def copyCheck_def)
qed

definition exact_allocator :: allocator where
  "exact_allocator = \<lparr>append_cap = (\<lambda>c n. max n (2 * c)),
     MakeNoZero = (\<lambda>n. if n < 0 then Inl (PanicMsg ''makeslice: len out of range'') else Inr (nat n))\<rparr>"

lemma exact_allocator_ok: "allocator_ok exact_allocator"
  by (auto simp: allocator_ok_def exact_allocator_def)

lemma zero_Builder_ok: "builder_ok self zero_Builder"
  by (simp add: builder_ok_def zero_Builder_def)

theorem Builder_accumulates_witness:
  "\<exists>b. builder_run exact_allocator 7 zero_Builder [Op_Grow 5, Op_WriteString (bytes_of ''ab''), Op_WriteByte 33] = Inr b \<and>
     Builder_String b = bytes_of ''ab!'' \<and> Builder_Cap b = 5 \<and> builder_exec exact_allocator 8 b (Op_WriteByte 33) =
       Inl (PanicMsg ''strings: illegal use of non-zero Builder copied by value'')"
proof -
  have run: "case builder_run exact_allocator 7 zero_Builder [Op_Grow 5, Op_WriteString (bytes_of ''ab''), Op_WriteByte 33] of
     Inl e \<Rightarrow> False | Inr b \<Rightarrow> Builder_Cap b = 5 \<and> Builder_String b = bytes_of ''ab!'' \<and> b_addr b = Some 7"
    by code_simp
  then obtain b where b: "builder_run exact_allocator 7 zero_Builder [Op_Grow 5, Op_WriteString (bytes_of ''ab''), Op_WriteByte 33] = Inr b"
    "Builder_Cap b = 5" "b_addr b = Some 7" by (auto split: sum.splits)
  note acc = Builder_accumulates [OF exact_allocator_ok zero_Builder_ok [of 7],
      of "[Op_Grow 5, Op_WriteString (bytes_of ''ab''), Op_WriteByte 33]"]
  have ok: "builder_ok 7 b" using acc b(1) by simp
  show ?thesis using b run Builder_accumulates [OF exact_allocator_ok ok, of "[]" 0 b 8 "Op_WriteByte 33"] by simp
qed

end
