(* ===== verification/Base64_Stream.thy ===== *)
theory Base64_Stream
  imports Base64_Spec Strings_Builder
begin

text \<open>
  The stream encoder of \<open>encoding/base64\<close>. The locale \<open>appending_writer\<close> of theory \<open>Strings_Builder\<close> is what it needs of its
  \<open>io.Writer\<close>; the encoder is proved correct over it, and \<open>strings.Builder\<close> is an instance.
\<close>

section \<open>The stream encoder\<close>

fun encoder_writes :: "'w writer \<Rightarrow> 'w encoder \<Rightarrow> bytes list \<Rightarrow> panic + 'w encoder \<times> (nat \<times> io_error option) list" where
  "encoder_writes wr e [] = Inr (e, [])"
| "encoder_writes wr e (p # ps) =
     (case encoder_Write wr e p of
        Inl x \<Rightarrow> Inl x
      | Inr (e, n, err) \<Rightarrow> (case encoder_writes wr e ps of Inl x \<Rightarrow> Inl x | Inr (e, rs) \<Rightarrow> Inr (e, (n, err) # rs)))"

lemma encoder_fill_spec:
  assumes "length buf = 3" "nbuf \<le> 3" "i \<le> length p"
  shows "\<exists>buf' t. encoder_fill p i buf nbuf = (buf', nbuf + t, i + t) \<and> t = min (3 - nbuf) (length p - i) \<and>
     length buf' = 3 \<and> take (nbuf + t) buf' = take nbuf buf @ take t (drop i p)"
  using assms
proof (induction p i buf nbuf rule: encoder_fill.induct)
  case (1 p i buf nbuf)
  show ?case
  proof (cases "i < length p \<and> nbuf < 3")
    case True
    then obtain buf' t where IH: "encoder_fill p (Suc i) (buf[nbuf := p ! i]) (Suc nbuf) = (buf', Suc nbuf + t, Suc i + t)"
      "t = min (3 - Suc nbuf) (length p - Suc i)" "length buf' = 3"
      "take (Suc nbuf + t) buf' = take (Suc nbuf) (buf[nbuf := p ! i]) @ take t (drop (Suc i) p)"
      using "1.IH" "1.prems" by auto
    have "take (Suc nbuf) (buf[nbuf := p ! i]) = take nbuf buf @ [p ! i]"
      using True "1.prems"(1) by (simp add: take_Suc_conv_app_nth)
    moreover have "take (Suc t) (drop i p) = p ! i # take t (drop (Suc i) p)" using True by (simp add: drop_nth)
    ultimately show ?thesis using IH True
      by (subst encoder_fill.simps) (auto intro!: exI [of _ "Suc t"])
  next
    case False
    then show ?thesis using "1.prems" by (subst encoder_fill.simps) auto
  qed
qed

context appending_writer
begin

definition ready :: "Encoding \<Rightarrow> 'w encoder \<Rightarrow> bool" where
  "ready enc e \<longleftrightarrow> e_err e = None \<and> e_enc e = enc \<and> usable (e_w e) \<and> length (e_buf e) = 3 \<and> length (e_out e) = 1024"

lemma encoder_flush_spec:
  assumes "ready enc e" "length (b64_enc enc src) \<le> 1024"
  shows "\<exists>e'. encoder_flush wr e src (length (b64_enc enc src)) = Inr e' \<and> ready enc e' \<and>
     written (e_w e') = written (e_w e) @ b64_enc enc src \<and> e_buf e' = e_buf e \<and> e_nbuf e' = e_nbuf e"
  using assms write_appends [of "e_w e" "b64_enc enc src"]
  by (auto simp: encoder_flush_def ready_def Encode_spec)

lemma b64_enc_length3: "length xs mod 3 = 0 \<Longrightarrow> length (b64_enc enc xs) = length xs div 3 * 4"
  by (auto simp: length_b64_enc)

lemma encoder_chunks_spec:
  "ready enc e \<Longrightarrow> \<exists>e'. encoder_chunks wr e p n = Inr (e', n + length p div 3 * 3, Inr (drop (length p div 3 * 3) p)) \<and>
     ready enc e' \<and> written (e_w e') = written (e_w e) @ b64_enc enc (take (length p div 3 * 3) p)"
proof (induction "length p" arbitrary: e p n rule: less_induct)
  case less
  show ?case
  proof (cases "3 \<le> length p")
    case True
    define nn where "nn = (if 768 > length p then length p - length p mod 3 else 768)"
    have nn: "nn \<le> length p" "nn mod 3 = 0" "0 < nn" "nn \<le> 768"
      using True by (auto simp: nn_def)
    have "length (take nn p) = nn" using nn by simp
    then have l: "length (b64_enc enc (take nn p)) = nn div 3 * 4" using b64_enc_length3 [of "take nn p"] nn by simp
    obtain e' where e': "encoder_flush wr e (take nn p) (nn div 3 * 4) = Inr e'" "ready enc e'"
      "written (e_w e') = written (e_w e) @ b64_enc enc (take nn p)"
      using encoder_flush_spec [OF less.prems, of "take nn p"] div_le_mono [OF nn(4), of 3] unfolding l by auto
    obtain e'' where e'': "encoder_chunks wr e' (drop nn p) (n + nn) =
         Inr (e'', n + nn + length (drop nn p) div 3 * 3, Inr (drop (length (drop nn p) div 3 * 3) (drop nn p)))" "ready enc e''"
       "written (e_w e'') = written (e_w e') @ b64_enc enc (take (length (drop nn p) div 3 * 3) (drop nn p))"
      using less.hyps [OF _ e'(2), of "drop nn p" "n + nn"] nn by fastforce
    obtain q where q: "nn = 3 * q" using nn(2) by (auto elim: dvdE)
    have ql: "q \<le> length p div 3" using div_le_mono [OF nn(1), of 3] q by simp
    have "length (drop nn p) = length p mod 3 + (length p div 3 - q) * 3"
      using ql q div_mult_mod_eq [of "length p" 3] by (simp add: diff_mult_distrib)
    then have "length (drop nn p) div 3 = length p div 3 - q" by (simp only: div_mult_self1 [of 3])
    then have d: "length (drop nn p) div 3 * 3 = length p div 3 * 3 - nn" "nn \<le> length p div 3 * 3"
      using q ql by (simp_all only: diff_mult_distrib)
    have t: "take (length p div 3 * 3) p = take nn p @ take (length p div 3 * 3 - nn) (drop nn p)"
      using d(2) take_add [of nn "length p div 3 * 3 - nn" p] by simp
    have "b64_enc enc (take (length p div 3 * 3) p) = b64_enc enc (take nn p) @ b64_enc enc (take (length p div 3 * 3 - nn) (drop nn p))"
      unfolding t by (rule b64_enc_append) (use nn in simp)
    moreover have "encoder_chunks wr e p n = encoder_chunks wr e' (drop nn p) (n + nn)"
      using True e' by (subst encoder_chunks.simps) (simp add: nn_def [symmetric] ready_def)
    ultimately show ?thesis using e'(3) e'' d by (auto simp: d(1))
  next
    case False
    then show ?thesis using less.prems by (subst encoder_chunks.simps) simp
  qed
qed

text \<open>
  After the bytes \<open>data\<close> the complete groups of three are encoded and written behind \<open>base\<close>, the rest
  waits in \<open>buf\<close>.
\<close>

definition streamed :: "Encoding \<Rightarrow> bytes \<Rightarrow> bytes \<Rightarrow> 'w encoder \<Rightarrow> bool" where
  "streamed enc base data e \<longleftrightarrow> ready enc e \<and>
     (\<exists>full part. data = full @ part \<and> length full mod 3 = 0 \<and> length part < 3 \<and>
        e_nbuf e = length part \<and> take (length part) (e_buf e) = part \<and> written (e_w e) = base @ b64_enc enc full)"

lemma encoder_rest_streamed:
  assumes "ready enc e" "written (e_w e) = base @ b64_enc enc full" "length full mod 3 = 0"
  shows "\<exists>e'. encoder_rest wr e p n = Inr (e', n + length p, None) \<and> streamed enc base (full @ p) e'"
proof -
  define k where "k = length p div 3 * 3"
  have k: "k \<le> length p" "k mod 3 = 0" "length p - k < 3" unfolding k_def by presburger+
  obtain e' where e': "encoder_chunks wr e p n = Inr (e', n + k, Inr (drop k p))" "ready enc e'"
     "written (e_w e') = base @ b64_enc enc full @ b64_enc enc (take k p)"
    using encoder_chunks_spec [OF assms(1), of p n] assms(2) by (auto simp: k_def)
  have "b64_enc enc (full @ take k p) = b64_enc enc full @ b64_enc enc (take k p)"
    using assms(3) by (rule b64_enc_append)
  moreover have "length (full @ take k p) mod 3 = 0" using assms(3) k by (simp add: mod_add_eq [symmetric])
  ultimately have "streamed enc base (full @ p) (e'\<lparr>e_buf := go_copy (e_buf e') (drop k p), e_nbuf := length (drop k p)\<rparr>)"
    using e'(2,3) k unfolding streamed_def
    by (intro conjI exI [of _ "full @ take k p"] exI [of _ "drop k p"]) (auto simp: ready_def go_copy_def)
  then show ?thesis using e'(1) k by (auto simp: encoder_rest_def)
qed

lemma encoder_Write_streamed:
  assumes "streamed enc base data e"
  shows "\<exists>e'. encoder_Write wr e p = Inr (e', length p, None) \<and> streamed enc base (data @ p) e'"
proof -
  obtain full part where e: "ready enc e" "data = full @ part" "length full mod 3 = 0" "length part < 3"
    "e_nbuf e = length part" "take (length part) (e_buf e) = part" "written (e_w e) = base @ b64_enc enc full"
    using assms by (auto simp: streamed_def)
  have none: "e_err e = None" and buf: "length (e_buf e) = 3" using e(1) by (simp_all add: ready_def)
  show ?thesis
  proof (cases "part = []")
    case True
    then show ?thesis using encoder_rest_streamed [OF e(1,7,3), of p 0] e(2,5) none by (simp add: encoder_Write_def)
  next
    case False
    obtain buf t where f: "encoder_fill p 0 (e_buf e) (e_nbuf e) = (buf, length part + t, t)" "t = min (3 - length part) (length p)"
       "length buf = 3" "take (length part + t) buf = part @ take t p"
      using encoder_fill_spec [OF buf, of "length part" 0 p] e(4,5,6) by auto
    let ?e = "e\<lparr>e_buf := buf, e_nbuf := length part + t\<rparr>"
    have r: "ready enc ?e" using e(1) f(3) by (simp add: ready_def)
    show ?thesis
    proof (cases "length part + t < 3")
      case True
      then have "t = length p" using f(2) by simp
      then have "streamed enc base (data @ p) ?e" unfolding streamed_def using r True f e
        by (intro conjI exI [of _ full] exI [of _ "part @ p"]) auto
      then show ?thesis using True f(1) none False e(5) \<open>t = length p\<close> by (auto simp: encoder_Write_def)
    next
      case full: False
      then have b: "buf = part @ take t p" "length buf mod 3 = 0" using f by auto
      have "length (b64_enc enc buf) = 4" using b64_enc_length3 [OF b(2)] f(3) by simp
      then obtain e' where e': "encoder_flush wr ?e buf 4 = Inr e'" "ready enc e'"
          "written (e_w e') = base @ b64_enc enc full @ b64_enc enc buf"
        using encoder_flush_spec [OF r, of buf] e(7) by auto
      then have w: "written (e_w (e'\<lparr>e_nbuf := 0\<rparr>)) = base @ b64_enc enc (full @ buf)" using b64_enc_append [OF e(3)] by simp
      have m: "length (full @ buf) mod 3 = 0" using e(3) b(2) by (simp add: mod_add_eq [symmetric])
      have "ready enc (e'\<lparr>e_nbuf := 0\<rparr>)" using e'(2) by (simp add: ready_def)
      from encoder_rest_streamed [OF this w m, of "drop t p" t]
      obtain e'' where "encoder_rest wr (e'\<lparr>e_nbuf := 0\<rparr>) (drop t p) t = Inr (e'', t + length (drop t p), None)"
         "streamed enc base ((full @ buf) @ drop t p) e''" by blast
      moreover have "(full @ buf) @ drop t p = data @ p" "t + length (drop t p) = length p" using b e(2) f(2) by simp_all
      moreover have "e_err e' = None" using e'(2) by (simp add: ready_def)
      ultimately show ?thesis using full f(1) none False e(5) e'(1) by (simp add: encoder_Write_def)
    qed
  qed
qed

lemma encoder_Close_streamed:
  assumes "streamed enc base data e"
  shows "\<exists>e'. encoder_Close wr e = Inr (e', None) \<and> written (e_w e') = base @ b64_enc enc data \<and> e_nbuf e' = 0 \<and> ready enc e'"
proof -
  obtain full part where e: "ready enc e" "data = full @ part" "length full mod 3 = 0" "length part < 3"
    "e_nbuf e = length part" "take (length part) (e_buf e) = part" "written (e_w e) = base @ b64_enc enc full"
    using assms by (auto simp: streamed_def)
  have none: "e_err e = None" "e_enc e = enc" using e(1) by (simp_all add: ready_def)
  have t: "b64_enc enc data = b64_enc enc full @ b64_enc enc part" unfolding e(2) by (rule b64_enc_append [OF e(3)])
  have "length (b64_enc enc part) \<le> 4" 
    using e(4) by (cases "(enc, part)" rule: b64_enc.cases) (simp_all add: length_pads)
  then obtain e' where e': "encoder_flush wr e part (length (b64_enc enc part)) = Inr e'" "ready enc e'"
      "written (e_w e') = base @ b64_enc enc data"
    using encoder_flush_spec [OF e(1), of part] e(7) t by auto
  have "EncodedLen enc (int (length part)) = int (length (b64_enc enc part))" using EncodedLen_eq [of part] e(4) by simp
  then show ?thesis using e e' t none by (auto simp: encoder_Close_def ready_def)
qed

lemma NewEncoder_streamed: "usable w \<Longrightarrow> streamed enc (written w) [] (NewEncoder enc w)"
  by (simp add: streamed_def ready_def NewEncoder_def)

text \<open>Any sequence of writes.\<close>

lemma encoder_writes_streamed:
  "streamed enc base data e \<Longrightarrow>
   \<exists>e'. encoder_writes wr e ps = Inr (e', map (\<lambda>p. (length p, None)) ps) \<and> streamed enc base (data @ concat ps) e'"
proof (induction ps arbitrary: data e)
  case (Cons p ps)
  obtain e1 where e1: "encoder_Write wr e p = Inr (e1, length p, None)" "streamed enc base (data @ p) e1"
    using encoder_Write_streamed [OF Cons.prems] by blast
  from Cons.IH [OF e1(2)] show ?case using e1(1) by auto
qed simp

lemma stream_is_one_shot:
  assumes "usable w" "length (concat ps) < 2 ^ 62"
  shows "\<exists>e e' t. encoder_writes wr (NewEncoder enc w) ps = Inr (e, map (\<lambda>p. (length p, None)) ps) \<and>
     encoder_Close wr e = Inr (e', None) \<and> EncodeToString enc (concat ps) = Inr t \<and> written (e_w e') = written w @ t"
proof -
  obtain e where e: "encoder_writes wr (NewEncoder enc w) ps = Inr (e, map (\<lambda>p. (length p, None)) ps)"
    "streamed enc (written w) (concat ps) e"
    using encoder_writes_streamed [OF NewEncoder_streamed [OF assms(1)], of enc ps] by auto
  then show ?thesis using encoder_Close_streamed [OF e(2)] EncodeToString_eq [OF assms(2), of enc] by auto
qed

end

text \<open>
  C26: However the input is cut into writes, a stream encoder over a \<open>strings.Builder\<close> accepts every byte, reports no
  error, and after \<open>Close\<close> the builder has got exactly the one-shot encoding of the whole input.
\<close>

theorem base64_stream_equals_one_shot:
  assumes "b_addr b = None \<or> b_addr b = Some self" "length (concat ps) < 2 ^ 62"
  shows "\<exists>e e' t. encoder_writes (Builder_Write al self) (NewEncoder enc b) ps = Inr (e, map (\<lambda>p. (length p, None)) ps) \<and>
     encoder_Close (Builder_Write al self) e = Inr (e', None) \<and>
     EncodeToString enc (concat ps) = Inr t \<and> Builder_String (e_w e') = Builder_String b @ t"
  using assms by (rule builder_writer.stream_is_one_shot)

theorem base64_stream_equals_one_shot_witness:
  "\<exists>e e'. encoder_writes (Builder_Write exact_allocator 1) (NewEncoder (projr StdEncoding) zero_Builder) [[77], [], [97, 110, 121]] =
       Inr (e, [(1, None), (0, None), (3, None)]) \<and>
     encoder_Close (Builder_Write exact_allocator 1) e = Inr (e', None) \<and> Builder_String (e_w e') = bytes_of ''TWFueQ==''"
proof -
  have "EncodeToString (projr StdEncoding) [77, 97, 110, 121] = Inr (bytes_of ''TWFueQ=='')" by code_simp
  then show ?thesis
    using base64_stream_equals_one_shot [of zero_Builder 1 "[[77], [], [97, 110, 121]]" exact_allocator "projr StdEncoding"]
    by (auto simp: zero_Builder_def Builder_String_def)
qed

end
