(* ===== verification/Strings_Reader.thy ===== *)
theory Strings_Reader
  imports Strings_Builder
begin

text \<open>
  \<open>strings.Reader\<close> (\<open>src/strings/reader.go\<close>) and the functions of \<open>src/io/io.go\<close> it uses. The index is an \<open>int64\<close>: the
  sum of \<open>Seek\<close> wraps around. A slice expression out of range is a panic. A slice that a method fills is an argument,
  and its contents after the call are a result.
\<close>

section \<open>The reader\<close>

record Reader =
  rd_s :: bytes
  rd_i :: int
  rd_prevRune :: int

definition SeekStart :: int where "SeekStart = 0"

definition SeekCurrent :: int where "SeekCurrent = 1"

definition SeekEnd :: int where "SeekEnd = 2"

definition ErrShortWrite :: io_error where "ErrShortWrite = OtherError ''short write''"

text \<open>\<open>io.WriteString\<close>: \<open>sw\<close> is the \<open>WriteString\<close> method of a writer that has one, \<open>wr\<close> its \<open>Write\<close> method.\<close>

definition io_WriteString :: "'w writer option \<Rightarrow> 'w writer \<Rightarrow> 'w writer" where
  "io_WriteString sw wr w s = (case sw of Some ws \<Rightarrow> ws w s | None \<Rightarrow> wr w s)"

definition NewReader :: "bytes \<Rightarrow> Reader" where
  "NewReader s = \<lparr>rd_s = s, rd_i = 0, rd_prevRune = - 1\<rparr>"

definition Reader_Reset :: "Reader \<Rightarrow> bytes \<Rightarrow> Reader" where
  "Reader_Reset r s = \<lparr>rd_s = s, rd_i = 0, rd_prevRune = - 1\<rparr>"

definition Reader_Len :: "Reader \<Rightarrow> int" where
  "Reader_Len r = (if rd_i r \<ge> int (length (rd_s r)) then 0 else int (length (rd_s r)) - rd_i r)"

definition Reader_Size :: "Reader \<Rightarrow> int" where
  "Reader_Size r = int (length (rd_s r))"

text \<open>The slice expression \<open>s[i:]\<close>.\<close>

definition slice_from :: "bytes \<Rightarrow> int \<Rightarrow> panic + bytes" where
  "slice_from s i = (if 0 \<le> i \<and> i \<le> int (length s) then Inr (drop (nat i) s) else Inl SliceBounds)"

definition Reader_Read :: "Reader \<Rightarrow> bytes \<Rightarrow> panic + Reader \<times> bytes \<times> nat \<times> io_error option" where
  "Reader_Read r b =
     (if rd_i r \<ge> int (length (rd_s r)) then Inr (r, b, 0, Some EOF)
      else
        (case slice_from (rd_s r) (rd_i r) of Inl e \<Rightarrow> Inl e
         | Inr t \<Rightarrow>
             (let n = min (length b) (length t)
              in Inr (r\<lparr>rd_i := rd_i r + int n, rd_prevRune := - 1\<rparr>, go_copy b t, n, None))))"

definition Reader_ReadAt :: "Reader \<Rightarrow> bytes \<Rightarrow> int \<Rightarrow> panic + bytes \<times> nat \<times> io_error option" where
  "Reader_ReadAt r b off =
     (if off < 0 then Inr (b, 0, Some (OtherError ''strings.Reader.ReadAt: negative offset''))
      else if off \<ge> int (length (rd_s r)) then Inr (b, 0, Some EOF)
      else
        (case slice_from (rd_s r) off of Inl e \<Rightarrow> Inl e
         | Inr t \<Rightarrow>
             (let n = min (length b) (length t) in Inr (go_copy b t, n, if n < length b then Some EOF else None))))"

definition Reader_ReadByte :: "Reader \<Rightarrow> panic + Reader \<times> u8 \<times> io_error option" where
  "Reader_ReadByte r =
     (let r = r\<lparr>rd_prevRune := - 1\<rparr>
      in if rd_i r \<ge> int (length (rd_s r)) then Inr (r, 0, Some EOF)
         else if rd_i r < 0 then Inl IndexOutOfRange
         else Inr (r\<lparr>rd_i := rd_i r + 1\<rparr>, rd_s r ! nat (rd_i r), None))"

definition Reader_UnreadByte :: "Reader \<Rightarrow> Reader \<times> io_error option" where
  "Reader_UnreadByte r =
     (if rd_i r \<le> 0 then (r, Some (OtherError ''strings.Reader.UnreadByte: at beginning of string''))
      else (r\<lparr>rd_prevRune := - 1, rd_i := rd_i r - 1\<rparr>, None))"

definition Reader_ReadRune :: "Reader \<Rightarrow> panic + Reader \<times> rune \<times> nat \<times> io_error option" where
  "Reader_ReadRune r =
     (if rd_i r \<ge> int (length (rd_s r)) then Inr (r\<lparr>rd_prevRune := - 1\<rparr>, 0, 0, Some EOF)
      else
        (case slice_from (rd_s r) (rd_i r) of Inl e \<Rightarrow> Inl e
         | Inr t \<Rightarrow>
             (case DecodeRuneInString t of (ch, n) \<Rightarrow>
                Inr (r\<lparr>rd_prevRune := rd_i r, rd_i := rd_i r + int n\<rparr>, ch, n, None))))"

definition Reader_UnreadRune :: "Reader \<Rightarrow> Reader \<times> io_error option" where
  "Reader_UnreadRune r =
     (if rd_i r \<le> 0 then (r, Some (OtherError ''strings.Reader.UnreadRune: at beginning of string''))
      else if rd_prevRune r < 0 then (r, Some (OtherError ''strings.Reader.UnreadRune: previous operation was not ReadRune''))
      else (r\<lparr>rd_i := rd_prevRune r, rd_prevRune := - 1\<rparr>, None))"

definition Reader_Seek :: "Reader \<Rightarrow> int \<Rightarrow> int \<Rightarrow> Reader \<times> int \<times> io_error option" where
  "Reader_Seek r offset whence =
     (let r = r\<lparr>rd_prevRune := - 1\<rparr>;
          target = (if whence = SeekStart then Some offset
                 else if whence = SeekCurrent then Some (wrap64 (rd_i r + offset))
                 else if whence = SeekEnd then Some (wrap64 (int (length (rd_s r)) + offset))
                 else None)
      in case target of
           None \<Rightarrow> (r, 0, Some (OtherError ''strings.Reader.Seek: invalid whence''))
         | Some pos \<Rightarrow>
             if pos < 0 then (r, 0, Some (OtherError ''strings.Reader.Seek: negative position''))
             else (r\<lparr>rd_i := pos\<rparr>, pos, None))"

definition Reader_WriteTo :: "'w writer option \<Rightarrow> 'w writer \<Rightarrow> Reader \<Rightarrow> 'w \<Rightarrow> panic + Reader \<times> 'w \<times> int \<times> io_error option" where
  "Reader_WriteTo sw wr r w =
     (let r = r\<lparr>rd_prevRune := - 1\<rparr>
      in if rd_i r \<ge> int (length (rd_s r)) then Inr (r, w, 0, None)
         else
           (case slice_from (rd_s r) (rd_i r) of Inl e \<Rightarrow> Inl e
            | Inr s \<Rightarrow>
                (case io_WriteString sw wr w s of Inl e \<Rightarrow> Inl e
                 | Inr (w, m, err) \<Rightarrow>
                     if m > int (length s) then Inl (PanicMsg ''strings.Reader.WriteTo: invalid WriteString count'')
                     else Inr (r\<lparr>rd_i := wrap64 (rd_i r + m)\<rparr>, w, m,
                               if m \<noteq> int (length s) \<and> err = None then Some ErrShortWrite else err))))"

section \<open>Sequences of calls\<close>

text \<open>
  The calls that change a reader. The slice of \<open>Read\<close> is given by its contents, the writer of \<open>WriteTo\<close> by what its \<open>Write\<close> method
  returns for the bytes it is given.
\<close>

datatype reader_op =
    Rd_Read bytes | Rd_ReadByte | Rd_UnreadByte | Rd_ReadRune | Rd_UnreadRune | Rd_Seek int int | Rd_Reset bytes
  | Rd_WriteTo "bytes \<Rightarrow> int \<times> io_error option"

definition answering :: "(bytes \<Rightarrow> int \<times> io_error option) \<Rightarrow> unit writer" where
  "answering f w t = Inr (w, f t)"

definition reader_exec :: "Reader \<Rightarrow> reader_op \<Rightarrow> panic + Reader" where
  "reader_exec r op =
     (case op of
        Rd_Read b \<Rightarrow> (case Reader_Read r b of Inl e \<Rightarrow> Inl e | Inr (r, _) \<Rightarrow> Inr r)
      | Rd_ReadByte \<Rightarrow> (case Reader_ReadByte r of Inl e \<Rightarrow> Inl e | Inr (r, _) \<Rightarrow> Inr r)
      | Rd_UnreadByte \<Rightarrow> Inr (fst (Reader_UnreadByte r))
      | Rd_ReadRune \<Rightarrow> (case Reader_ReadRune r of Inl e \<Rightarrow> Inl e | Inr (r, _) \<Rightarrow> Inr r)
      | Rd_UnreadRune \<Rightarrow> Inr (fst (Reader_UnreadRune r))
      | Rd_Seek offset whence \<Rightarrow> Inr (fst (Reader_Seek r offset whence))
      | Rd_Reset s \<Rightarrow> Inr (Reader_Reset r s)
      | Rd_WriteTo f \<Rightarrow> (case Reader_WriteTo None (answering f) r () of Inl e \<Rightarrow> Inl e | Inr (r, _) \<Rightarrow> Inr r))"

text \<open>The length of a string is an \<open>int\<close>, and the contract of \<open>io.Writer\<close>: the count is one of the bytes given.\<close>

definition reader_op_ok :: "reader_op \<Rightarrow> bool" where
  "reader_op_ok op \<longleftrightarrow>
     (case op of
        Rd_Reset s \<Rightarrow> int (length s) < 2 ^ 63
      | Rd_WriteTo f \<Rightarrow> (\<forall>t. 0 \<le> fst (f t) \<and> fst (f t) \<le> int (length t))
      | _ \<Rightarrow> True)"

fun reader_run :: "Reader \<Rightarrow> reader_op list \<Rightarrow> panic + Reader" where
  "reader_run r [] = Inr r"
| "reader_run r (op # ops) = (case reader_exec r op of Inl e \<Rightarrow> Inl e | Inr r \<Rightarrow> reader_run r ops)"

text \<open>The invariant of a reader, and the bytes it has not read yet.\<close>

definition reader_ok :: "Reader \<Rightarrow> bool" where
  "reader_ok r \<longleftrightarrow> 0 \<le> rd_i r \<and> (0 \<le> rd_prevRune r \<longrightarrow> rd_prevRune r < rd_i r \<and> rd_i r \<le> int (length (rd_s r)))"

definition unread :: "Reader \<Rightarrow> bytes" where
  "unread r = drop (nat (rd_i r)) (rd_s r)"

definition reader_fits :: "Reader \<Rightarrow> bool" where
  "reader_fits r \<longleftrightarrow> int (length (rd_s r)) < 2 ^ 63"

lemma unread_empty: "reader_ok r \<Longrightarrow> unread r = [] \<longleftrightarrow> int (length (rd_s r)) \<le> rd_i r"
  by (auto simp: unread_def reader_ok_def)

lemma length_unread: "reader_ok r \<Longrightarrow> unread r \<noteq> [] \<Longrightarrow> int (length (unread r)) = int (length (rd_s r)) - rd_i r"
  by (auto simp: unread_def reader_ok_def)

lemma slice_from_unread: "reader_ok r \<Longrightarrow> unread r \<noteq> [] \<Longrightarrow> slice_from (rd_s r) (rd_i r) = Inr (unread r)"
  by (auto simp: unread_def reader_ok_def slice_from_def)

lemma unread_advance: "reader_ok r \<Longrightarrow> unread (r\<lparr>rd_i := rd_i r + int n, rd_prevRune := k\<rparr>) = drop n (unread r)"
  by (simp add: unread_def reader_ok_def nat_add_distrib add.commute)

lemma unread_i: "rd_i r' = rd_i r \<Longrightarrow> rd_s r' = rd_s r \<Longrightarrow> unread r' = unread r"
  by (simp add: unread_def)

section \<open>What the methods do\<close>

lemma Reader_Read_eq:
  assumes "reader_ok r"
  shows "Reader_Read r b =
    (if unread r = [] then Inr (r, b, 0, Some EOF)
     else (let n = min (length b) (length (unread r))
           in Inr (r\<lparr>rd_i := rd_i r + int n, rd_prevRune := - 1\<rparr>, take n (unread r) @ drop n b, n, None)))"
  using unread_empty [OF assms] slice_from_unread [OF assms]
  by (auto simp: Reader_Read_def Let_def go_copy_def min_def)

lemma Reader_ReadRune_eq:
  assumes "reader_ok r"
  shows "Reader_ReadRune r =
    (if unread r = [] then Inr (r\<lparr>rd_prevRune := - 1\<rparr>, 0, 0, Some EOF)
     else (case DecodeRuneInString (unread r) of (ch, n) \<Rightarrow>
             Inr (r\<lparr>rd_prevRune := rd_i r, rd_i := rd_i r + int n\<rparr>, ch, n, None)))"
  using unread_empty [OF assms] slice_from_unread [OF assms] by (auto simp: Reader_ReadRune_def)

lemma Reader_ReadByte_eq:
  assumes "reader_ok r"
  shows "Reader_ReadByte r =
    (if unread r = [] then Inr (r\<lparr>rd_prevRune := - 1\<rparr>, 0, Some EOF)
     else Inr (r\<lparr>rd_prevRune := - 1, rd_i := rd_i r + 1\<rparr>, hd (unread r), None))"
proof -
  have "rd_s r ! nat (rd_i r) = hd (unread r)" if "unread r \<noteq> []"
    using that by (auto simp: unread_def hd_drop_conv_nth not_le)
  then show ?thesis using unread_empty [OF assms] assms by (auto simp: Reader_ReadByte_def Let_def reader_ok_def)
qed

lemma Reader_WriteTo_eq:
  assumes "reader_ok r" "reader_fits r" "unread r \<noteq> []" "f (unread r) = (m, err)"
  shows "m > int (length (unread r)) \<Longrightarrow>
      Reader_WriteTo None (answering f) r () = Inl (PanicMsg ''strings.Reader.WriteTo: invalid WriteString count'')"
    "0 \<le> m \<Longrightarrow> m \<le> int (length (unread r)) \<Longrightarrow>
      Reader_WriteTo None (answering f) r () =
        Inr (r\<lparr>rd_i := rd_i r + m, rd_prevRune := - 1\<rparr>, (), m, if m \<noteq> int (length (unread r)) \<and> err = None then Some ErrShortWrite else err)"
proof -
  have s: "slice_from (rd_s r) (rd_i r) = Inr (unread r)" "rd_i r < int (length (rd_s r))"
    using slice_from_unread [OF assms(1,3)] unread_empty [OF assms(1)] assms(3) by auto
  then show "m > int (length (unread r)) \<Longrightarrow>
      Reader_WriteTo None (answering f) r () = Inl (PanicMsg ''strings.Reader.WriteTo: invalid WriteString count'')"
    using assms(4) by (simp add: Reader_WriteTo_def io_WriteString_def answering_def)
  assume m: "0 \<le> m" "m \<le> int (length (unread r))"
  then have "wrap64 (rd_i r + m) = rd_i r + m"
    using assms(1,2) length_unread [OF assms(1,3)] by (intro wrap64_small) (auto simp: reader_ok_def reader_fits_def)
  then show "Reader_WriteTo None (answering f) r () =
        Inr (r\<lparr>rd_i := rd_i r + m, rd_prevRune := - 1\<rparr>, (), m, if m \<noteq> int (length (unread r)) \<and> err = None then Some ErrShortWrite else err)"
    using s m assms(4) by (simp add: Reader_WriteTo_def io_WriteString_def answering_def)
qed

lemma Reader_WriteTo_empty: "reader_ok r \<Longrightarrow> unread r = [] \<Longrightarrow> Reader_WriteTo sw wr r w = Inr (r\<lparr>rd_prevRune := - 1\<rparr>, w, 0, None)"
  using unread_empty by (auto simp: Reader_WriteTo_def)

lemma reader_exec_ok:
  "reader_ok r \<Longrightarrow> reader_fits r \<Longrightarrow> reader_op_ok op \<Longrightarrow> \<exists>r'. reader_exec r op = Inr r' \<and> reader_ok r' \<and> reader_fits r'"
proof (cases op)
  case Rd_ReadRune
  assume r: "reader_ok r" "reader_fits r"
  obtain ch n where d: "DecodeRuneInString (unread r) = (ch, n)" by fastforce
  have "1 \<le> n \<and> n \<le> length (unread r)" if "unread r \<noteq> []" using DecodeRune_bounds [OF that d] .
  then show ?thesis using r Rd_ReadRune d length_unread [OF r(1)]
    by (auto simp: reader_exec_def Reader_ReadRune_eq reader_ok_def reader_fits_def)
next
  case (Rd_WriteTo f)
  assume r: "reader_ok r" "reader_fits r" "reader_op_ok op"
  obtain m err where f: "f (unread r) = (m, err)" by fastforce
  have m: "0 \<le> m" "m \<le> int (length (unread r))" using r(3) Rd_WriteTo f by (auto simp: reader_op_ok_def dest: spec [of _ "unread r"])
  obtain r' x where "Reader_WriteTo None (answering f) r () = Inr (r', x)" "rd_s r' = rd_s r" "rd_prevRune r' = - 1" "0 \<le> rd_i r'"
  proof (cases "unread r = []")
    case True
    then show thesis using that Reader_WriteTo_empty [OF r(1) True, of None "answering f" "()"] r(1) by (simp add: reader_ok_def)
  next
    case False
    then show thesis using that Reader_WriteTo_eq(2) [of r f m err] f m r(1,2) by (simp add: reader_ok_def)
  qed
  then show ?thesis using r(2) Rd_WriteTo by (simp add: reader_exec_def reader_ok_def reader_fits_def)
qed (auto simp: reader_exec_def Reader_Read_eq Reader_ReadByte_eq Reader_UnreadByte_def Reader_UnreadRune_def Reader_Seek_def
    Reader_Reset_def reader_ok_def reader_fits_def reader_op_ok_def Let_def split: option.split)

lemma reader_run_ok:
  "reader_ok r \<Longrightarrow> reader_fits r \<Longrightarrow> list_all reader_op_ok ops \<Longrightarrow> \<exists>r'. reader_run r ops = Inr r' \<and> reader_ok r' \<and> reader_fits r'"
proof (induction ops arbitrary: r)
  case (Cons op ops)
  then show ?case using reader_exec_ok [of r op] by fastforce
qed simp

lemma reader_ok_New [simp]: "reader_ok (NewReader s)"
  by (simp add: reader_ok_def NewReader_def)

lemma ReadRune_Unread:
  assumes "reader_ok r" "unread r \<noteq> []" "DecodeRuneInString (unread r) = (ch, n)"
  shows "\<exists>r'. Reader_ReadRune r = Inr (r', ch, n, None) \<and> unread r' = drop n (unread r) \<and>
    Reader_UnreadRune r' = (r\<lparr>rd_prevRune := - 1\<rparr>, None)"
  using assms DecodeRune_bounds [OF assms(2,3)] unread_advance [OF assms(1), of "rd_i r" n]
  by (auto simp: Reader_ReadRune_eq Reader_UnreadRune_def reader_ok_def unread_def)

lemma ReadByte_Unread:
  assumes "reader_ok r" "unread r \<noteq> []"
  shows "\<exists>r' c. Reader_ReadByte r = Inr (r', c, None) \<and> unread r = c # unread r' \<and>
    Reader_UnreadByte r' = (r\<lparr>rd_prevRune := - 1\<rparr>, None) \<and> snd (Reader_UnreadRune r') \<noteq> None"
proof -
  let ?r = "r\<lparr>rd_prevRune := - 1, rd_i := rd_i r + 1\<rparr>"
  have "unread ?r = drop 1 (unread r)" using assms(1) by (simp add: unread_def reader_ok_def nat_add_distrib)
  then have "unread r = hd (unread r) # unread ?r" using assms(2) by (simp add: drop_Suc)
  moreover have "Reader_UnreadByte ?r = (r\<lparr>rd_prevRune := - 1\<rparr>, None)" "snd (Reader_UnreadRune ?r) \<noteq> None"
    using assms(1) by (auto simp: Reader_UnreadByte_def Reader_UnreadRune_def reader_ok_def)
  ultimately show ?thesis using assms by (auto simp: Reader_ReadByte_eq)
qed

lemma ReadAt_eq:
  "0 \<le> off \<Longrightarrow> Reader_ReadAt r b off =
    (let t = drop (nat off) (rd_s r); n = min (length b) (length t)
     in Inr (take n t @ drop n b, n, if t = [] \<or> n < length b then Some EOF else None))"
  by (auto simp: Reader_ReadAt_def slice_from_def go_copy_def Let_def min_def)

context appending_writer
begin

lemma WriteTo_all:
  assumes "reader_ok r" "usable w" "reader_fits r"
  shows "\<exists>r' w'. Reader_WriteTo (Some wr) ww r w = Inr (r', w', int (length (unread r)), None) \<and>
    written w' = written w @ unread r \<and> unread r' = [] \<and> usable w'"
proof (cases "unread r = []")
  case True
  then show ?thesis using assms unread_empty [OF assms(1)] by (auto simp: Reader_WriteTo_def unread_def)
next
  case False
  obtain w' where w': "wr w (unread r) = Inr (w', int (length (unread r)), None)" "usable w'" "written w' = written w @ unread r"
    using write_appends [OF assms(2)] by blast
  have s: "slice_from (rd_s r) (rd_i r) = Inr (unread r)" "rd_i r < int (length (rd_s r))"
    using slice_from_unread [OF assms(1) False] unread_empty [OF assms(1)] False by auto
  have i: "rd_i r + int (length (unread r)) = int (length (rd_s r))" using length_unread [OF assms(1) False] by simp
  have "wrap64 (rd_i r + int (length (unread r))) = int (length (rd_s r))" unfolding i using assms(3) by (intro wrap64_small) (simp_all add: reader_fits_def)
  then show ?thesis using s w' by (simp add: Reader_WriteTo_def io_WriteString_def Let_def unread_def)
qed

end

section \<open>Readers as sources\<close>

text \<open>
  What a client relies on of an \<open>io.Reader\<close> over a finite text: a call with a non-empty slice fills the start of it with
  the next bytes of the text and reports no error, after which the reader has come closer to its end, or it reports
  \<open>EOF\<close>, after which there are no more bytes. A call may return less than there is room for, nothing at all, or the
  last bytes together with \<open>EOF\<close>.
\<close>

type_synonym 'r reader = "'r \<Rightarrow> bytes \<Rightarrow> panic + 'r \<times> bytes \<times> nat \<times> io_error option"

locale finite_reader =
  fixes rd :: "'r reader" and pending :: "'r \<Rightarrow> bytes" and rank :: "'r \<Rightarrow> nat" and alive :: "'r \<Rightarrow> bool"
  assumes read_next: "alive r \<Longrightarrow> p \<noteq> [] \<Longrightarrow>
    \<exists>r' p' n err. rd r p = Inr (r', p', n, err) \<and> alive r' \<and> length p' = length p \<and> n \<le> length p \<and>
      pending r = take n p' @ pending r' \<and>
      (err = None \<and> rank r' < rank r \<or> err = Some EOF \<and> pending r' = [] \<and> rank r' \<le> rank r)"

interpretation string_reader: finite_reader Reader_Read unread "\<lambda>r. length (unread r)" reader_ok
proof
  fix r p assume r: "reader_ok r" and p: "p \<noteq> ([] :: bytes)"
  define n where "n = min (length p) (length (unread r))"
  show "\<exists>r' p' n err. Reader_Read r p = Inr (r', p', n, err) \<and> reader_ok r' \<and> length p' = length p \<and> n \<le> length p \<and>
      unread r = take n p' @ unread r' \<and>
      (err = None \<and> length (unread r') < length (unread r) \<or> err = Some EOF \<and> unread r' = [] \<and> length (unread r') \<le> length (unread r))"
  proof (cases "unread r = []")
    case False
    let ?r = "r\<lparr>rd_i := rd_i r + int n, rd_prevRune := - 1\<rparr>"
    have "0 < n" "n \<le> length p" "n \<le> length (unread r)" using False p by (auto simp: n_def)
    moreover have "Reader_Read r p = Inr (?r, take n (unread r) @ drop n p, n, None)"
      using False by (simp add: Reader_Read_eq [OF r] n_def Let_def)
    moreover have "reader_ok ?r" using r by (auto simp: reader_ok_def)
    ultimately show ?thesis using unread_advance [OF r, of "- 1" n] by auto
  qed (use r in \<open>simp add: Reader_Read_eq\<close>)
qed

text \<open>A single call of \<open>ReadByte\<close>, \<open>ReadRune\<close> or \<open>WriteTo\<close>.\<close>

lemma Reader_one_call:
  assumes "reader_ok r" "reader_fits r"
  shows "if unread r = [] then Reader_ReadByte r = Inr (r\<lparr>rd_prevRune := - 1\<rparr>, 0, Some EOF) \<and>
       Reader_ReadRune r = Inr (r\<lparr>rd_prevRune := - 1\<rparr>, 0, 0, Some EOF) \<and>
       Reader_WriteTo None (answering f) r () = Inr (r\<lparr>rd_prevRune := - 1\<rparr>, (), 0, None)
     else (\<exists>r' c. Reader_ReadByte r = Inr (r', c, None) \<and> unread r = c # unread r' \<and>
             Reader_UnreadByte r' = (r\<lparr>rd_prevRune := - 1\<rparr>, None) \<and> snd (Reader_UnreadRune r') \<noteq> None) \<and>
       (\<exists>r' ch n. Reader_ReadRune r = Inr (r', ch, n, None) \<and> DecodeRuneInString (unread r) = (ch, n) \<and>
             unread r' = drop n (unread r) \<and> Reader_UnreadRune r' = (r\<lparr>rd_prevRune := - 1\<rparr>, None)) \<and>
       (\<exists>m err. f (unread r) = (m, err) \<and>
          (m > int (length (unread r)) \<longrightarrow>
             Reader_WriteTo None (answering f) r () = Inl (PanicMsg ''strings.Reader.WriteTo: invalid WriteString count'')) \<and>
          (0 \<le> m \<and> m \<le> int (length (unread r)) \<longrightarrow>
             (\<exists>r'. Reader_WriteTo None (answering f) r () =
                Inr (r', (), m, if m \<noteq> int (length (unread r)) \<and> err = None then Some ErrShortWrite else err) \<and>
                unread r' = drop (nat m) (unread r))))"
proof (cases "unread r = []")
  case True
  then show ?thesis using assms(1) by (simp add: Reader_ReadByte_eq Reader_ReadRune_eq Reader_WriteTo_empty)
next
  case False
  obtain ch n m err where d: "DecodeRuneInString (unread r) = (ch, n)" and f: "f (unread r) = (m, err)" by fastforce
  have "unread (r\<lparr>rd_i := rd_i r + m, rd_prevRune := - 1\<rparr>) = drop (nat m) (unread r)" if "0 \<le> m"
    using unread_advance [OF assms(1), of "- 1" "nat m"] that by simp
  then show ?thesis
    using ReadByte_Unread [OF assms(1) False] ReadRune_Unread [OF assms(1) False d] Reader_WriteTo_eq [of r f m err] assms False d f by simp
qed

section \<open>Properties\<close>



end
