(* ===== verification/Base64_Reader.thy ===== *)
theory Base64_Reader
  imports Base64_Spec Strings_Reader
begin

text \<open>
  The stream decoder of \<open>encoding/base64\<close>. It reads from an \<open>io.Reader\<close>, a parameter \<open>rd\<close>, through the reader that
  removes newlines. Both of its loops call a method of unknown code until that returns something: they are partial
  functions, with \<open>None\<close> for a call that never returns, and over a \<open>finite_reader\<close> they are proved to return. A reader
  returns at most as many bytes as its slice is long, as \<open>io.Reader\<close> documents.
\<close>

section \<open>The reader without newlines\<close>

text \<open>The loop over \<open>p[:n]\<close>: the slice with the other bytes moved to its start, and their number.\<close>

function strip_newlines :: "bytes \<Rightarrow> nat \<Rightarrow> nat \<Rightarrow> nat \<Rightarrow> bytes \<times> nat" where
  "strip_newlines p n i offset =
     (if i < n then
        (let b = p ! i in
         if b \<noteq> 0x0D \<and> b \<noteq> 0x0A then strip_newlines (if i \<noteq> offset then p[offset := b] else p) n (i + 1) (offset + 1)
         else strip_newlines p n (i + 1) offset)
      else (p, offset))"
  by auto
termination by (relation "measure (\<lambda>(p, n, i, offset). n - i)") auto

declare strip_newlines.simps [simp del]

partial_function (option) newlines_loop ::
    "'r reader \<Rightarrow> 'r \<Rightarrow> bytes \<Rightarrow> nat \<Rightarrow> io_error option \<Rightarrow> (panic + 'r \<times> bytes \<times> nat \<times> io_error option) option" where
  "newlines_loop rd r p n err =
     (if n > 0 then
        if n > length p then Some (Inl SliceBounds)
        else
          (case strip_newlines p n 0 0 of (p, offset) \<Rightarrow>
             if offset > 0 then Some (Inr (r, p, offset, err))
             else (case rd r p of Inl e \<Rightarrow> Some (Inl e) | Inr (r, p, n, err) \<Rightarrow> newlines_loop rd r p n err))
      else Some (Inr (r, p, n, err)))"

definition newlineFilteringReader_Read :: "'r reader \<Rightarrow> 'r \<Rightarrow> bytes \<Rightarrow> (panic + 'r \<times> bytes \<times> nat \<times> io_error option) option" where
  "newlineFilteringReader_Read rd r p =
     (case rd r p of Inl e \<Rightarrow> Some (Inl e) | Inr (r, p, n, err) \<Rightarrow> newlines_loop rd r p n err)"

section \<open>The decoder\<close>

datatype decoder_error = Decoder_Corrupt b64_error | Decoder_IO io_error

text \<open>
  \<open>d_out\<close> is what is left of the decoded bytes; in the code it is a slice of \<open>outbuf\<close>, which is not written before that
  slice is empty. The wrapped reader of \<open>d.r\<close> is \<open>d_r\<close>.
\<close>

record 'r decoder =
  d_err :: "decoder_error option"
  d_readErr :: "io_error option"
  d_enc :: Encoding
  d_r :: 'r
  d_buf :: bytes
  d_nbuf :: nat
  d_out :: bytes
  d_outbuf :: bytes

definition NewDecoder :: "Encoding \<Rightarrow> 'r \<Rightarrow> 'r decoder" where
  "NewDecoder enc r = \<lparr>d_err = None, d_readErr = None, d_enc = enc, d_r = r, d_buf = replicate 1024 0, d_nbuf = 0,
     d_out = [], d_outbuf = replicate (1024 div 4 * 3) 0\<rparr>"

text \<open>How far a call of the reader may fill \<open>d.buf\<close> when \<open>Read\<close> is given a slice of \<open>m\<close> bytes.\<close>

definition refill_end :: "nat \<Rightarrow> nat \<Rightarrow> nat" where
  "refill_end m size_buf =
     (let nn = wrap64 (int m div 3 * 4);
          nn = (if nn < 4 then 4 else nn);
          nn = (if nn > int size_buf then int size_buf else nn)
      in nat nn)"

partial_function (option) refill :: "'r reader \<Rightarrow> nat \<Rightarrow> 'r decoder \<Rightarrow> (panic + 'r decoder) option" where
  "refill rd m d =
     (if d_nbuf d < 4 \<and> d_readErr d = None then
        (let nn = refill_end m (length (d_buf d)) in
         if nn < d_nbuf d then Some (Inl SliceBounds)
         else
           Option.bind (newlineFilteringReader_Read rd (d_r d) (take (nn - d_nbuf d) (drop (d_nbuf d) (d_buf d))))
             (\<lambda>res. case res of Inl e \<Rightarrow> Some (Inl e)
                | Inr (r, p, n, err) \<Rightarrow>
                    refill rd m (d\<lparr>d_r := r, d_buf := take (d_nbuf d) (d_buf d) @ p @ drop nn (d_buf d),
                      d_readErr := err, d_nbuf := d_nbuf d + n\<rparr>)))
      else Some (Inr d))"

declare newlines_loop.simps [code] refill.simps [code]

text \<open>\<open>n = copy(p, d.out); d.out = d.out[n:]\<close>: \<open>p\<close> and the decoder afterwards, and \<open>n\<close>.\<close>

definition copy_out :: "'r decoder \<Rightarrow> bytes \<Rightarrow> 'r decoder \<times> bytes \<times> nat" where
  "copy_out d p =
     (let n = min (length p) (length (d_out d)) in (d\<lparr>d_out := drop n (d_out d)\<rparr>, go_copy p (d_out d), n))"

text \<open>\<open>nw, d.err = d.enc.Decode(d.outbuf[:], src); d.out = d.outbuf[:nw]\<close>.\<close>

definition decode_out :: "byteorder_pkg \<Rightarrow> 'r decoder \<Rightarrow> bytes \<Rightarrow> panic + 'r decoder" where
  "decode_out bo d src =
     (case Decode bo (d_enc d) (d_outbuf d) src of Inl e \<Rightarrow> Inl e
      | Inr (outbuf, nw, err) \<Rightarrow>
          if nw \<le> length outbuf then
            Inr (d\<lparr>d_outbuf := outbuf, d_err := map_option Decoder_Corrupt err, d_out := take nw outbuf\<rparr>)
          else Inl SliceBounds)"

text \<open>The end of the input: \<open>d.err = d.readErr\<close> and what follows.\<close>

definition input_end :: "'r decoder \<Rightarrow> bytes \<Rightarrow> panic + 'r decoder \<times> bytes \<times> nat \<times> decoder_error option" where
  "input_end d p =
     (let err = map_option Decoder_IO (d_readErr d);
          err = (if err = Some (Decoder_IO EOF) \<and> d_nbuf d > 0 then Some (Decoder_IO ErrUnexpectedEOF) else err)
      in Inr (d\<lparr>d_err := err\<rparr>, p, 0, err))"

text \<open>The branch for fewer than four characters.\<close>

definition last_fragment :: "byteorder_pkg \<Rightarrow> 'r decoder \<Rightarrow> bytes \<Rightarrow> panic + 'r decoder \<times> bytes \<times> nat \<times> decoder_error option" where
  "last_fragment bo d p =
     (if padChar (d_enc d) = NoPadding \<and> d_nbuf d > 0 then
        (case decode_out bo d (take (d_nbuf d) (d_buf d)) of Inl e \<Rightarrow> Inl e
         | Inr d \<Rightarrow>
             (case copy_out (d\<lparr>d_nbuf := 0\<rparr>) p of (d, p, n) \<Rightarrow>
                if n > 0 \<or> length p = 0 \<and> length (d_out d) > 0 then Inr (d, p, n, None)
                else if d_err d \<noteq> None then Inr (d, p, 0, d_err d)
                else input_end d p))
      else input_end d p)"

text \<open>The branch for at least four characters.\<close>

definition decode_chunk :: "byteorder_pkg \<Rightarrow> 'r decoder \<Rightarrow> bytes \<Rightarrow> panic + 'r decoder \<times> bytes \<times> nat \<times> decoder_error option" where
  "decode_chunk bo d p =
     (let nr = d_nbuf d div 4 * 4; nw = d_nbuf d div 4 * 3; src = take nr (d_buf d)
      in case (if nw > length p then
                 (case decode_out bo d src of Inl e \<Rightarrow> Inl e | Inr d \<Rightarrow> Inr (copy_out d p))
               else
                 (case Decode bo (d_enc d) p src of Inl e \<Rightarrow> Inl e
                  | Inr (p, n, err) \<Rightarrow> Inr (d\<lparr>d_err := map_option Decoder_Corrupt err\<rparr>, p, n))) of
           Inl e \<Rightarrow> Inl e
         | Inr (d, p, n) \<Rightarrow>
             (let nbuf = d_nbuf d - nr
              in Inr (d\<lparr>d_nbuf := nbuf, d_buf := take nbuf (drop nr (d_buf d)) @ drop nbuf (d_buf d)\<rparr>, p, n, d_err d)))"

definition decoder_Read ::
    "byteorder_pkg \<Rightarrow> 'r reader \<Rightarrow> 'r decoder \<Rightarrow> bytes \<Rightarrow> (panic + 'r decoder \<times> bytes \<times> nat \<times> decoder_error option) option" where
  "decoder_Read bo rd d p =
     (if length (d_out d) > 0 then (case copy_out d p of (d, p, n) \<Rightarrow> Some (Inr (d, p, n, None)))
      else if d_err d \<noteq> None then Some (Inr (d, p, 0, d_err d))
      else
        Option.bind (refill rd (length p) d)
          (\<lambda>res. case res of Inl e \<Rightarrow> Some (Inl e)
             | Inr d \<Rightarrow> Some (if d_nbuf d < 4 then last_fragment bo d p else decode_chunk bo d p)))"

text \<open>Calls of \<open>Read\<close>, one for each slice: the bytes that each of them returns, and its error.\<close>

fun decoder_reads :: "byteorder_pkg \<Rightarrow> 'r reader \<Rightarrow> 'r decoder \<Rightarrow> bytes list \<Rightarrow> (panic + 'r decoder \<times> (bytes \<times> decoder_error option) list) option" where
  "decoder_reads bo rd d [] = Some (Inr (d, []))"
| "decoder_reads bo rd d (p # ps) =
     (case decoder_Read bo rd d p of
        None \<Rightarrow> None
      | Some (Inl e) \<Rightarrow> Some (Inl e)
      | Some (Inr (d, p, n, err)) \<Rightarrow>
          (case decoder_reads bo rd d ps of
             None \<Rightarrow> None
           | Some (Inl e) \<Rightarrow> Some (Inl e)
           | Some (Inr (d, rs)) \<Rightarrow> Some (Inr (d, (take n p, err) # rs))))"

section \<open>The reader over a finite text\<close>

lemma strip_newlines_spec:
  assumes "offset \<le> i" "i \<le> n" "n \<le> length p" "strip_newlines p n i offset = (p', k)"
  shows "length p' = length p \<and> take k p' = take offset p @ without_newlines (take (n - i) (drop i p)) \<and>
    k = offset + length (without_newlines (take (n - i) (drop i p)))"
  using assms
proof (induction "n - i" arbitrary: p i offset)
  case 0
  then show ?case by (simp add: strip_newlines.simps [of p] without_newlines_def)
next
  case (Suc m)
  have i: "i < n" using Suc.hyps(2) by simp
  define q where "q = (if i \<noteq> offset then p[offset := p ! i] else p)"
  have d: "take (n - i) (drop i p) = p ! i # take (n - Suc i) (drop (Suc i) p)"
    using i Suc.prems by (simp add: drop_nth take_Cons' Suc_diff_Suc [symmetric])
  show ?case
  proof (cases "newline (p ! i)")
    case True
    then have "strip_newlines p n (Suc i) offset = (p', k)"
      using Suc.prems(4) i unfolding strip_newlines.simps [of p n i] by (auto simp: newline_def)
    from Suc.hyps(1) [OF _ le_SucI [OF Suc.prems(1)] Suc_leI [OF i] Suc.prems(3) this] have "length p' = length p \<and> take k p' = take offset p @ without_newlines (take (n - Suc i) (drop (Suc i) p)) \<and>
        k = offset + length (without_newlines (take (n - Suc i) (drop (Suc i) p)))"
      using Suc.hyps(2) by (metis Suc_diff_Suc Suc_inject i)
    moreover have "without_newlines (take (n - i) (drop i p)) = without_newlines (take (n - Suc i) (drop (Suc i) p))"
      using True by (simp add: d without_newlines_def)
    ultimately show ?thesis by auto
  next
    case False
    then have "strip_newlines q n (Suc i) (Suc offset) = (p', k)"
      using Suc.prems(4) i unfolding strip_newlines.simps [of p n i] by (auto simp: newline_def q_def)
    note IH = Suc.hyps(1) [OF _ Suc_le_mono [THEN iffD2, OF Suc.prems(1)] Suc_leI [OF i] _ this]
    have "m = n - Suc i" "n \<le> length q" using Suc.hyps(2) Suc.prems(3) by (auto simp: q_def)
    from IH [OF this] have "length p' = length q"
      "take k p' = take (Suc offset) q @ without_newlines (take (n - Suc i) (drop (Suc i) q))"
      "k = Suc offset + length (without_newlines (take (n - Suc i) (drop (Suc i) q)))"
      by blast+
    moreover have "drop (Suc i) q = drop (Suc i) p" "length q = length p" using Suc.prems by (auto simp: q_def)
    moreover have "take (Suc offset) q = take offset p @ [p ! i]"
      using Suc.prems i by (auto simp: q_def take_Suc_conv_app_nth)
    ultimately show ?thesis using False by (simp add: d without_newlines_def)
  qed
qed

lemma strip_newlines_all:
  assumes "n \<le> length p" "strip_newlines p n 0 0 = (p', k)"
  shows "length p' = length p" "take k p' = without_newlines (take n p)" "k \<le> n"
proof -
  have "length p' = length p \<and> take k p' = without_newlines (take n p) \<and> k = length (without_newlines (take n p))"
    using strip_newlines_spec [OF _ _ assms] by auto
  moreover have "length (without_newlines (take n p)) \<le> n"
    using length_filter_le [of "\<lambda>c. \<not> newline c" "take n p"] by (simp add: without_newlines_def)
  ultimately show "length p' = length p" "take k p' = without_newlines (take n p)" "k \<le> n" by blast+
qed

context finite_reader
begin

text \<open>What a call of the filtered reader returns: the contract of a reader, for the text without its newlines.\<close>

definition filtered :: "'r \<Rightarrow> bytes \<Rightarrow> (panic + 'r \<times> bytes \<times> nat \<times> io_error option) option \<Rightarrow> bool" where
  "filtered r p res \<longleftrightarrow> (\<exists>r' p' n err. res = Some (Inr (r', p', n, err)) \<and> alive r' \<and> length p' = length p \<and> n \<le> length p \<and>
     without_newlines (pending r) = take n p' @ without_newlines (pending r') \<and> list_all (\<lambda>c. \<not> newline c) (take n p') \<and>
     (err = None \<and> rank r' < rank r \<or> err = Some EOF \<and> pending r' = [] \<and> rank r' \<le> rank r))"

lemma newlines_loop_filtered:
  assumes "alive r" "n \<le> length p" "p \<noteq> []" "pending r0 = take n p @ pending r" "length p = length p0"
    "err = None \<and> rank r < rank r0 \<or> err = Some EOF \<and> pending r = [] \<and> rank r \<le> rank r0"
  shows "filtered r0 p0 (newlines_loop rd r p n err)"
  using assms
proof (induction "length (pending r0)" arbitrary: r0 r p n err rule: less_induct)
  case less
  show ?case
  proof (cases "0 < n")
    case False
    then show ?thesis using less.prems by (subst newlines_loop.simps) (simp add: filtered_def)
  next
    case True
    obtain q k where s: "strip_newlines p n 0 0 = (q, k)" by fastforce
    note q = strip_newlines_all [OF less.prems(2) s]
    have w: "without_newlines (pending r0) = take k q @ without_newlines (pending r)"
      unfolding q(2) less.prems(4) by (simp add: without_newlines_def)
    show ?thesis
    proof (cases "0 < k")
      case k: True
      have "list_all (\<lambda>c. \<not> newline c) (take k q)" unfolding q(2) by (simp add: without_newlines_def list_all_iff)
      then show ?thesis using True k s less.prems q w by (subst newlines_loop.simps) (auto simp: filtered_def not_le)
    next
      case k: False
      have "q \<noteq> []" using q(1) less.prems(3) by auto
      from read_next [OF less.prems(1) this] obtain r' p' n' err' where
        rd: "rd r q = Inr (r', p', n', err')" "alive r'" "length p' = length q" "n' \<le> length q"
          "pending r = take n' p' @ pending r'"
          "err' = None \<and> rank r' < rank r \<or> err' = Some EOF \<and> pending r' = [] \<and> rank r' \<le> rank r" by blast
      have "length (pending r) < length (pending r0)" using True less.prems(2,3) unfolding less.prems(4) by simp
      then have "filtered r p0 (newlines_loop rd r' p' n' err')"
        using less.hyps [of r r' n' p' err'] rd q(1) less.prems(3,5) by (metis length_0_conv)
      moreover have "newlines_loop rd r p n err = newlines_loop rd r' p' n' err'"
        using True k s rd(1) less.prems(2) by (subst newlines_loop.simps) simp
      moreover have "rank r \<le> rank r0" using less.prems(6) by auto
      ultimately show ?thesis using w k unfolding filtered_def by fastforce
    qed
  qed
qed

lemma newlineFilteringReader_filtered: "alive r \<Longrightarrow> p \<noteq> [] \<Longrightarrow> filtered r p (newlineFilteringReader_Read rd r p)"
proof -
  assume r: "alive r" and p: "p \<noteq> []"
  from read_next [OF this] obtain r' p' n err where
    rd: "rd r p = Inr (r', p', n, err)" "alive r'" "length p' = length p" "n \<le> length p" "pending r = take n p' @ pending r'"
      "err = None \<and> rank r' < rank r \<or> err = Some EOF \<and> pending r' = [] \<and> rank r' \<le> rank r" by blast
  then have "filtered r p (newlines_loop rd r' p' n err)" using p by (intro newlines_loop_filtered) auto
  then show ?thesis using rd(1) by (simp add: newlineFilteringReader_Read_def)
qed

end

section \<open>The buffer of characters\<close>

lemma refill_end_range: "4 \<le> refill_end m 1024 \<and> refill_end m 1024 \<le> 1024"
  by (auto simp: refill_end_def Let_def le_nat_iff)

locale decoder_source = finite_reader rd pending rank alive + byteorder bo
  for rd :: "'r reader" and pending rank alive bo
begin

text \<open>The characters that are not decoded yet, and the invariant of a decoder.\<close>

definition undecoded :: "'r decoder \<Rightarrow> bytes" where
  "undecoded d = take (d_nbuf d) (d_buf d) @ without_newlines (pending (d_r d))"

definition decoder_ok :: "Encoding \<Rightarrow> 'r decoder \<Rightarrow> bool" where
  "decoder_ok enc d \<longleftrightarrow> d_enc d = enc \<and> alive (d_r d) \<and> length (d_buf d) = 1024 \<and> length (d_outbuf d) = 768 \<and>
     d_nbuf d \<le> 1024 \<and> list_all (\<lambda>c. \<not> newline c) (take (d_nbuf d) (d_buf d)) \<and>
     (d_readErr d = None \<or> d_readErr d = Some EOF \<and> pending (d_r d) = [])"

lemma refill_step:
  assumes "decoder_ok enc d" "d_nbuf d < 4" "d_readErr d = None"
  shows "\<exists>d'. refill rd m d = refill rd m d' \<and> decoder_ok enc d' \<and> undecoded d' = undecoded d \<and>
    d_out d' = d_out d \<and> d_err d' = d_err d \<and> (rank (d_r d') < rank (d_r d) \<or> d_readErr d' = Some EOF)"
proof -
  define nn where "nn = refill_end m (length (d_buf d))"
  have l: "length (d_buf d) = 1024" using assms(1) by (simp add: decoder_ok_def)
  have nn: "d_nbuf d < nn" "nn \<le> 1024" using refill_end_range [of m] assms(2) by (auto simp: nn_def l)
  define p where "p = take (nn - d_nbuf d) (drop (d_nbuf d) (d_buf d))"
  have p: "p \<noteq> []" "length p = nn - d_nbuf d" using nn l by (auto simp: p_def)
  from newlineFilteringReader_filtered [OF _ p(1), of "d_r d"] assms(1) obtain r p' n err where
    f: "newlineFilteringReader_Read rd (d_r d) p = Some (Inr (r, p', n, err))" "alive r" "length p' = length p" "n \<le> length p"
      "without_newlines (pending (d_r d)) = take n p' @ without_newlines (pending r)" "list_all (\<lambda>c. \<not> newline c) (take n p')"
      "err = None \<and> rank r < rank (d_r d) \<or> err = Some EOF \<and> pending r = [] \<and> rank r \<le> rank (d_r d)"
    unfolding filtered_def decoder_ok_def by blast
  define d' where "d' = d\<lparr>d_r := r, d_buf := take (d_nbuf d) (d_buf d) @ p' @ drop nn (d_buf d), d_readErr := err, d_nbuf := d_nbuf d + n\<rparr>"
  have "refill rd m d = refill rd m d'"
    using assms(2,3) f(1) nn(1) by (subst refill.simps) (simp add: Let_def d'_def nn_def [symmetric] p_def [symmetric])
  moreover have t: "take (d_nbuf d') (d_buf d') = take (d_nbuf d) (d_buf d) @ take n p'"
    using f(3,4) p(2) nn l by (simp add: d'_def)
  moreover have "decoder_ok enc d'"
    using assms f(2-4,6,7) p(2) nn l t by (auto simp: decoder_ok_def d'_def)
  moreover have "undecoded d' = undecoded d" unfolding undecoded_def t using f(5) by (simp add: d'_def)
  ultimately show ?thesis using f(7) by (intro exI [of _ d']) (auto simp: d'_def)
qed

lemma refill_ok:
  "decoder_ok enc d \<Longrightarrow> \<exists>d'. refill rd m d = Some (Inr d') \<and> decoder_ok enc d' \<and> undecoded d' = undecoded d \<and>
    d_out d' = d_out d \<and> d_err d' = d_err d \<and> (4 \<le> d_nbuf d' \<or> d_readErr d' = Some EOF)"
proof (induction "rank (d_r d)" arbitrary: d rule: less_induct)
  case less
  have fin: "refill rd m d = Some (Inr d)" if "\<not> (d_nbuf d < 4 \<and> d_readErr d = None)" for d
    using that by (subst refill.simps) auto
  show ?case
  proof (cases "d_nbuf d < 4 \<and> d_readErr d = None")
    case True
    then obtain d' where d': "refill rd m d = refill rd m d'" "decoder_ok enc d'" "undecoded d' = undecoded d"
      "d_out d' = d_out d" "d_err d' = d_err d" "rank (d_r d') < rank (d_r d) \<or> d_readErr d' = Some EOF"
      using refill_step [OF less.prems] by blast
    then show ?thesis using less.hyps [OF _ d'(2)] fin [of d'] by (cases "d_readErr d' = Some EOF") auto
  next
    case False
    then show ?thesis using fin [of d] less.prems by (auto simp: decoder_ok_def not_less)
  qed
qed

end

section \<open>Decoding in parts\<close>

lemma group_bytes_nonempty [simp]: "group_bytes enc cs \<noteq> []"
  using group_bytes_length [of enc cs] by auto

lemma last_group_nonempty: "last_group enc cs ok = (v, True) \<Longrightarrow> 2 \<le> length cs \<Longrightarrow> v \<noteq> []"
  by (auto simp: last_group_def split: if_splits)

lemma last_group_True: "last_group enc cs ok = (v, True) \<Longrightarrow> ok"
  by (auto simp: last_group_def split: if_splits)

lemma b64_dec_nonempty: "b64_dec enc c = (v, True) \<Longrightarrow> c \<noteq> [] \<Longrightarrow> v \<noteq> []"
  by (cases "(enc, c)" rule: b64_dec.cases)
    (auto split: if_splits prod.splits dest!: last_group_nonempty)

lemma b64_dec_append:
  "b64_dec enc (c @ u) = (x, True) \<Longrightarrow> length c mod 4 = 0 \<or> u = [] \<Longrightarrow>
   \<exists>v w. b64_dec enc c = (v, True) \<and> b64_dec enc u = (w, True) \<and> x = v @ w"
proof (induction enc c arbitrary: x rule: b64_dec.induct)
  case (5 enc a b c d r)
  show ?case
  proof (cases "list_all (is_digit enc) [a, b, c, d]")
    case True
    then obtain y where y: "b64_dec enc (r @ u) = (y, True)" "x = group_bytes enc [a, b, c, d] @ y"
      using 5 by (auto split: prod.splits)
    have "length r mod 4 = 0 \<or> u = []" using "5.prems"(2) by simp
    from "5.IH" [OF True y(1) this] show ?thesis using True y(2) by auto
  next
    case False
    then have "r = [] \<and> u = []" using "5.prems"(1) by (auto split: if_splits dest!: last_group_True)
    then show ?thesis using "5.prems" by simp
  qed
qed (auto simp: mod_eq_self_iff_div_eq_0)

lemma b64_dec_short: "b64_dec enc u = (v, True) \<Longrightarrow> length u < 4 \<Longrightarrow> u \<noteq> [] \<Longrightarrow> padChar enc = NoPadding"
  by (cases "(enc, u)" rule: b64_dec.cases) (auto split: if_splits)

lemma without_newlines_id: "list_all (\<lambda>c. \<not> newline c) s \<Longrightarrow> without_newlines s = s"
  by (auto simp: without_newlines_def list_all_iff intro: filter_True)

context byteorder
begin

lemma Decode_dec:
  assumes "alphabet_ok enc" "list_all (\<lambda>c. \<not> newline c) src" "length src < 2 ^ 62"
    "DecodedLen enc (int (length src)) \<le> int (length dst)" "b64_dec enc src = (v, ok)"
  shows "\<exists>dst' err. Decode bo enc dst src = Inr (dst', length v, err) \<and> length dst' = length dst \<and> take (length v) dst' = v \<and>
    (err = None \<longleftrightarrow> ok) \<and> length v \<le> length dst"
proof -
  obtain out w err where r: "b64_run enc src 0 = (out, w, err)" by (metis prod_cases3)
  then have "w \<le> length dst" using run_fits_DecodedLen [OF assms(3), of enc] assms(4) by simp
  from Decode_fits [OF assms(1) r this] this show ?thesis using assms(5) by (auto simp: without_newlines_id [OF assms(2)])
qed

end

lemma DecodedLen_four:
  "k < 2 ^ 60 \<Longrightarrow> DecodedLen enc (int (4 * k)) = int (3 * k)" "n < 4 \<Longrightarrow> DecodedLen enc (int n) \<le> 2"
  using decodedLen_eq [of "4 * k"] decodedLen_eq [of n] by (auto simp: DecodedLen_def room_def)

section \<open>One call\<close>

context decoder_source
begin

lemma decode_out_ok:
  assumes "decoder_ok enc d" "alphabet_ok enc" "list_all (\<lambda>c. \<not> newline c) src" "length src < 2 ^ 62"
    "DecodedLen enc (int (length src)) \<le> 768" "b64_dec enc src = (v, ok)"
  shows "\<exists>outbuf err. decode_out bo d src = Inr (d\<lparr>d_outbuf := outbuf, d_err := map_option Decoder_Corrupt err, d_out := v\<rparr>) \<and>
    length outbuf = 768 \<and> (err = None \<longleftrightarrow> ok)"
proof -
  have "d_enc d = enc" "length (d_outbuf d) = 768" using assms(1) by (auto simp: decoder_ok_def)
  moreover obtain dst' err where "Decode bo enc (d_outbuf d) src = Inr (dst', length v, err)" "length dst' = length (d_outbuf d)"
    "take (length v) dst' = v" "err = None \<longleftrightarrow> ok" "length v \<le> length (d_outbuf d)"
    using Decode_dec [OF assms(2-4) _ assms(6), of "d_outbuf d"] assms(5) calculation by auto
  ultimately show ?thesis by - (rule exI [of _ dst'], rule exI [of _ err], simp add: decode_out_def)
qed

lemma copy_out_eq:
  "copy_out d p = (d', p', n) \<Longrightarrow> d' = d\<lparr>d_out := drop n (d_out d)\<rparr> \<and> n = min (length p) (length (d_out d)) \<and>
     take n p' = take n (d_out d) \<and> length p' = length p"
  by (auto simp: copy_out_def Let_def go_copy_def)

text \<open>
  One part \<open>c\<close> of the characters decoded by a call with the slice \<open>p\<close>: what \<open>c\<close> decodes to is returned, as far as \<open>p\<close> has
  room for it, and kept otherwise.
\<close>

definition decoded :: "Encoding \<Rightarrow> bytes \<Rightarrow> bytes \<Rightarrow> 'r decoder \<Rightarrow> bytes \<Rightarrow> nat \<Rightarrow> bool" where
  "decoded enc c p d' p' n \<longleftrightarrow> length p' = length p \<and> n \<le> length p \<and> b64_dec enc c = (take n p' @ d_out d', d_err d' = None) \<and>
     (d_out d' \<noteq> [] \<longrightarrow> n = length p) \<and> (d_err d' = None \<or> (\<exists>e. d_err d' = Some (Decoder_Corrupt e)))"

lemma decode_chunk_ok:
  assumes "decoder_ok enc d" "alphabet_ok enc" "4 \<le> d_nbuf d" "d_out d = []"
  shows "\<exists>d' p' n c. decode_chunk bo d p = Inr (d', p', n, d_err d') \<and> decoder_ok enc d' \<and> undecoded d = c @ undecoded d' \<and>
    c \<noteq> [] \<and> length c mod 4 = 0 \<and> decoded enc c p d' p' n"
proof -
  define k where "k = d_nbuf d div 4"
  define src where "src = take (k * 4) (d_buf d)"
  have d: "length (d_buf d) = 1024" "d_nbuf d \<le> 1024" "d_enc d = enc" "list_all (\<lambda>c. \<not> newline c) (take (d_nbuf d) (d_buf d))"
    using assms(1) by (auto simp: decoder_ok_def)
  have k: "0 < k" "k \<le> 256" "k * 4 \<le> d_nbuf d" using assms(3) d(2) by (auto simp: k_def)
  have src: "length src = 4 * k" "src \<noteq> []" "take (d_nbuf d) (d_buf d) = src @ drop (k * 4) (take (d_nbuf d) (d_buf d))"
    using k d append_take_drop_id [of "k * 4" "take (d_nbuf d) (d_buf d)"] by (auto simp: src_def min_def)
  then have nl: "list_all (\<lambda>c. \<not> newline c) src" "list_all (\<lambda>c. \<not> newline c) (drop (k * 4) (take (d_nbuf d) (d_buf d)))"
    using d(4) by (metis list_all_append)+
  have len: "length src < 2 ^ 62" "DecodedLen enc (int (length src)) = int (3 * k)"
    using DecodedLen_four(1) [of k enc] k(2) by (simp_all add: src(1))
  obtain v ok where v: "b64_dec enc src = (v, ok)" by fastforce
  define r where "r = (if k * 3 > length p then (case decode_out bo d src of Inl e \<Rightarrow> Inl e | Inr d \<Rightarrow> Inr (copy_out d p))
     else (case Decode bo (d_enc d) p src of Inl e \<Rightarrow> Inl e | Inr (p, n, err) \<Rightarrow> Inr (d\<lparr>d_err := map_option Decoder_Corrupt err\<rparr>, p, n)))"
  have "\<exists>outbuf err out p' n. r = Inr (d\<lparr>d_outbuf := outbuf, d_err := map_option Decoder_Corrupt err, d_out := out\<rparr>, p', n) \<and>
      length outbuf = 768 \<and> (err = None \<longleftrightarrow> ok) \<and> v = take n p' @ out \<and> length p' = length p \<and> n \<le> length p \<and> (out \<noteq> [] \<longrightarrow> n = length p)"
  proof (cases "k * 3 > length p")
    case True
    obtain outbuf err where o: "decode_out bo d src = Inr (d\<lparr>d_outbuf := outbuf, d_err := map_option Decoder_Corrupt err, d_out := v\<rparr>)"
      "length outbuf = 768" "err = None \<longleftrightarrow> ok"
      using decode_out_ok [OF assms(1,2) nl(1) len(1) _ v] len(2) k(2) by auto
    obtain d' p' n where c: "copy_out (d\<lparr>d_outbuf := outbuf, d_err := map_option Decoder_Corrupt err, d_out := v\<rparr>) p = (d', p', n)"
      by (metis prod_cases3)
    show ?thesis using True o c copy_out_eq [OF c]
      by - (rule exI [of _ outbuf], rule exI [of _ err], rule exI [of _ "drop n v"], rule exI [of _ p'], rule exI [of _ n], auto simp: r_def)
  next
    case False
    have "d\<lparr>d_err := e\<rparr> = d\<lparr>d_outbuf := d_outbuf d, d_err := e, d_out := []\<rparr>" for e using assms(4) by simp
    moreover have "length (d_outbuf d) = 768" using assms(1) by (simp add: decoder_ok_def)
    moreover obtain p' err where "Decode bo enc p src = Inr (p', length v, err)" "length p' = length p" "take (length v) p' = v"
      "err = None \<longleftrightarrow> ok" "length v \<le> length p"
      using Decode_dec [OF assms(2) nl(1) len(1) _ v, of p] False len(2) by auto
    ultimately show ?thesis using False
      by - (rule exI [of _ "d_outbuf d"], rule exI [of _ err], rule exI [of _ "[]"], rule exI [of _ p'], rule exI [of _ "length v"], simp add: r_def d(3))
  qed
  then obtain outbuf err out p' n where r: "r = Inr (d\<lparr>d_outbuf := outbuf, d_err := map_option Decoder_Corrupt err, d_out := out\<rparr>, p', n)"
    "length outbuf = 768" "err = None \<longleftrightarrow> ok" "v = take n p' @ out" "length p' = length p" "n \<le> length p" "out \<noteq> [] \<longrightarrow> n = length p" by blast
  define j where "j = d_nbuf d - k * 4"
  define d' where "d' = d\<lparr>d_outbuf := outbuf, d_err := map_option Decoder_Corrupt err, d_out := out, d_nbuf := j,
     d_buf := take j (drop (k * 4) (d_buf d)) @ drop j (d_buf d)\<rparr>"
  have t: "take j (d_buf d') = drop (k * 4) (take (d_nbuf d) (d_buf d))"
    using k d by (simp add: d'_def j_def drop_take)
  have "decode_chunk bo d p = Inr (d', p', n, d_err d')"
    using r(1) by (simp add: decode_chunk_def Let_def r_def [unfolded k_def src_def] k_def d'_def j_def)
  moreover have "decoder_ok enc d'" using assms(1) nl(2) r(2) k d t by (auto simp: decoder_ok_def d'_def j_def)
  moreover have "undecoded d = src @ undecoded d'"
    using src(3) t unfolding undecoded_def by (simp add: d'_def j_def)
  moreover have "decoded enc src p d' p' n" using r v by (auto simp: decoded_def d'_def)
  ultimately show ?thesis using src by - (rule exI [of _ d'], rule exI [of _ p'], rule exI [of _ n], rule exI [of _ src], simp)
qed


lemma input_end_ok:
  assumes "decoder_ok enc d" "d_readErr d = Some EOF" "d_nbuf d < 4"
  shows "\<exists>d'. input_end d p = Inr (d', p, 0, d_err d') \<and> decoder_ok enc d' \<and> undecoded d' = undecoded d \<and> d_out d' = d_out d \<and>
    d_err d' = Some (Decoder_IO (if undecoded d = [] then EOF else ErrUnexpectedEOF))"
proof -
  have "undecoded d = [] \<longleftrightarrow> d_nbuf d = 0" using assms by (auto simp: undecoded_def decoder_ok_def without_newlines_def)
  then show ?thesis using assms by (auto simp: input_end_def Let_def decoder_ok_def undecoded_def)
qed

lemma last_fragment_ok:
  assumes "decoder_ok enc d" "alphabet_ok enc" "d_nbuf d < 4" "d_readErr d = Some EOF" "d_out d = []"
    "padChar enc = NoPadding" "undecoded d \<noteq> []"
  shows "\<exists>d' p' n. last_fragment bo d p = Inr (d', p', n, if n > 0 \<or> d_out d' \<noteq> [] then None else d_err d') \<and>
    decoder_ok enc d' \<and> undecoded d' = [] \<and> decoded enc (undecoded d) p d' p' n"
proof -
  have d: "d_enc d = enc" "length (d_buf d) = 1024" "pending (d_r d) = []" "list_all (\<lambda>c. \<not> newline c) (take (d_nbuf d) (d_buf d))"
    using assms(1,4) by (auto simp: decoder_ok_def)
  then have u: "undecoded d = take (d_nbuf d) (d_buf d)" by (simp add: undecoded_def without_newlines_def)
  then have nb: "0 < d_nbuf d" "length (undecoded d) = d_nbuf d" using assms(3,7) d(2) by auto
  obtain v ok where v: "b64_dec enc (undecoded d) = (v, ok)" by fastforce
  obtain outbuf err where o: "decode_out bo d (undecoded d) = Inr (d\<lparr>d_outbuf := outbuf, d_err := map_option Decoder_Corrupt err, d_out := v\<rparr>)"
      "length outbuf = 768" "err = None \<longleftrightarrow> ok"
    using decode_out_ok [OF assms(1,2) _ _ _ v] d(4) nb(2) assms(3) DecodedLen_four(2) [of "d_nbuf d" enc] by (auto simp: u)
  obtain d' p' n where c: "copy_out (d\<lparr>d_outbuf := outbuf, d_err := map_option Decoder_Corrupt err, d_out := v, d_nbuf := 0\<rparr>) p = (d', p', n)"
    by (metis prod_cases3)
  then have d': "d' = d\<lparr>d_outbuf := outbuf, d_err := map_option Decoder_Corrupt err, d_out := drop n v, d_nbuf := 0\<rparr>"
    and n: "n = min (length p) (length v)" "take n p' = take n v" "length p' = length p"
    using copy_out_eq [OF c] by auto
  have ok: "decoder_ok enc d'" "undecoded d' = []"
    using assms(1) o(2) d(3) by (auto simp: decoder_ok_def d' undecoded_def without_newlines_def)
  have dec: "decoded enc (undecoded d) p d' p' n" using v o(3) n by (auto simp: decoded_def d')
  have e: "d_err d' \<noteq> None" if "\<not> (n > 0 \<or> d_out d' \<noteq> [])"
  proof -
    have "v = []" using that n(1) by (auto simp: d')
    then have "\<not> ok" using b64_dec_nonempty [of enc "undecoded d" v] v assms(7) by auto
    then show ?thesis using o(3) by (auto simp: d')
  qed
  have "(n > 0 \<or> length p' = 0 \<and> length (d_out d') > 0) = (n > 0 \<or> d_out d' \<noteq> [])" using n by (auto simp: d')
  then have "last_fragment bo d p = Inr (d', p', n, if n > 0 \<or> d_out d' \<noteq> [] then None else d_err d')"
    using assms(6) nb(1) o(1) c e by (auto simp: last_fragment_def d(1) u)
  then show ?thesis using ok dec by blast
qed

text \<open>A call when there is neither decoded output left nor an error.\<close>

lemma decoder_Read_next:
  assumes "decoder_ok enc d" "alphabet_ok enc" "d_out d = []" "d_err d = None"
  obtains (part) d' p' n err c where "decoder_Read bo rd d p = Some (Inr (d', p', n, err))" "decoder_ok enc d'"
      "undecoded d = c @ undecoded d'" "c \<noteq> []" "length c mod 4 = 0 \<or> undecoded d' = []" "decoded enc c p d' p' n"
      "err = d_err d' \<or> err = None \<and> (n > 0 \<or> d_out d' \<noteq> [])"
    | (ending) d' where "decoder_Read bo rd d p = Some (Inr (d', p, 0, d_err d'))" "decoder_ok enc d'" "d_out d' = []"
      "undecoded d' = undecoded d" "length (undecoded d) < 4" "undecoded d = [] \<or> padChar enc \<noteq> NoPadding"
      "d_err d' = Some (Decoder_IO (if undecoded d = [] then EOF else ErrUnexpectedEOF))"
proof -
  obtain d1 where d1: "refill rd (length p) d = Some (Inr d1)" "decoder_ok enc d1" "undecoded d1 = undecoded d"
    "d_out d1 = []" "d_err d1 = None" "4 \<le> d_nbuf d1 \<or> d_readErr d1 = Some EOF"
    using refill_ok [OF assms(1), of "length p"] assms(3,4) by auto
  have r: "decoder_Read bo rd d p = Some (if d_nbuf d1 < 4 then last_fragment bo d1 p else decode_chunk bo d1 p)"
    using assms(3,4) d1(1) by (simp add: decoder_Read_def)
  show ?thesis
  proof (cases "4 \<le> d_nbuf d1")
    case True
    from decode_chunk_ok [OF d1(2) assms(2) True d1(4), of p] obtain d' p' n c where
      "decode_chunk bo d1 p = Inr (d', p', n, d_err d')" "decoder_ok enc d'" "undecoded d1 = c @ undecoded d'"
      "c \<noteq> []" "length c mod 4 = 0" "decoded enc c p d' p' n" by (elim exE conjE)
    then show ?thesis using r True d1(3) by (intro part [of d' p' n "d_err d'" c]) auto
  next
    case False
    then have e: "d_readErr d1 = Some EOF" "d_nbuf d1 < 4" using d1(6) by auto
    have l: "length (undecoded d1) < 4" using d1(2) e by (auto simp: decoder_ok_def undecoded_def without_newlines_def)
    show ?thesis
    proof (cases "undecoded d = [] \<or> padChar enc \<noteq> NoPadding")
      case True
      then have "last_fragment bo d1 p = input_end d1 p"
        using d1(2,3) e by (auto simp: last_fragment_def decoder_ok_def undecoded_def)
      moreover obtain d' where "input_end d1 p = Inr (d', p, 0, d_err d')" "decoder_ok enc d'" "undecoded d' = undecoded d"
        "d_out d' = []" "d_err d' = Some (Decoder_IO (if undecoded d = [] then EOF else ErrUnexpectedEOF))"
        using input_end_ok [OF d1(2) e, of p] d1(3,4) by auto
      ultimately show ?thesis using True d1(3) l e(2) r by (intro ending [of d']) simp_all
    next
      case False
      then obtain d' p' n where "last_fragment bo d1 p = Inr (d', p', n, if n > 0 \<or> d_out d' \<noteq> [] then None else d_err d')"
        "decoder_ok enc d'" "undecoded d' = []" "decoded enc (undecoded d) p d' p' n"
        using last_fragment_ok [OF d1(2) assms(2) e(2,1) d1(4), of p] d1(3) by auto
      then show ?thesis using r e(2) False
        by (intro part [of d' p' n "if n > 0 \<or> d_out d' \<noteq> [] then None else d_err d'" "undecoded d"]) auto
    qed
  qed
qed

end

section \<open>Sequences of calls\<close>

context decoder_source
begin

lemma decoder_Read_left:
  assumes "d_out d \<noteq> []" "decoder_ok enc d"
  shows "\<exists>d' p' n. decoder_Read bo rd d p = Some (Inr (d', p', n, None)) \<and> decoder_ok enc d' \<and> n \<le> length p \<and> length p' = length p \<and>
    d_out d = take n p' @ d_out d' \<and> undecoded d' = undecoded d \<and> d_err d' = d_err d \<and> (p \<noteq> [] \<longrightarrow> 0 < n)"
proof -
  obtain d' p' n where c: "copy_out d p = (d', p', n)" by (metis prod_cases3)
  then show ?thesis using copy_out_eq [OF c] assms
    by - (rule exI [of _ d'], rule exI [of _ p'], rule exI [of _ n], auto simp: decoder_Read_def decoder_ok_def undecoded_def)
qed

lemma decoder_Read_failed:
  "d_out d = [] \<Longrightarrow> d_err d \<noteq> None \<Longrightarrow> decoder_Read bo rd d p = Some (Inr (d, p, 0, d_err d))"
  by (simp add: decoder_Read_def)

text \<open>\<open>rest\<close> is what is left to return of a text that decodes without error.\<close>

definition valid :: "Encoding \<Rightarrow> 'r decoder \<Rightarrow> bytes \<Rightarrow> bool" where
  "valid enc d rest \<longleftrightarrow> decoder_ok enc d \<and>
     (d_err d = None \<and> (\<exists>v. b64_dec enc (undecoded d) = (v, True) \<and> rest = d_out d @ v) \<or>
      d_err d = Some (Decoder_IO EOF) \<and> d_out d = [] \<and> rest = [])"

lemma valid_part:
  assumes "valid enc d rest" "d_out d = []" "d_err d = None" "undecoded d = c @ undecoded d'" "c \<noteq> []"
    "length c mod 4 = 0 \<or> undecoded d' = []" "decoded enc c p d' p' n" "decoder_ok enc d'"
  shows "\<exists>rest'. rest = take n p' @ rest' \<and> valid enc d' rest' \<and> d_err d' = None \<and> rest \<noteq> [] \<and> (p \<noteq> [] \<longrightarrow> 0 < n)"
proof -
  obtain x where x: "b64_dec enc (c @ undecoded d') = (x, True)" "rest = x" using assms(1-4) by (auto simp: valid_def)
  obtain v w where v: "b64_dec enc c = (v, True)" "b64_dec enc (undecoded d') = (w, True)" "x = v @ w"
    using b64_dec_append [OF x(1) assms(6)] by auto
  have "v \<noteq> []" using b64_dec_nonempty [OF v(1) assms(5)] .
  moreover have "v = take n p' @ d_out d'" "d_err d' = None" "d_out d' \<noteq> [] \<longrightarrow> n = length p" using assms(7) v(1) by (auto simp: decoded_def)
  ultimately show ?thesis using v x(2) assms(8) by (intro exI [of _ "d_out d' @ w"]) (auto simp: valid_def)
qed

lemma decoder_Read_valid:
  assumes "valid enc d rest" "alphabet_ok enc"
  shows "\<exists>d' p' n err rest'. decoder_Read bo rd d p = Some (Inr (d', p', n, err)) \<and> rest = take n p' @ rest' \<and> valid enc d' rest' \<and>
    n \<le> length p \<and> length p' = length p \<and>
    (p \<noteq> [] \<longrightarrow> (if rest = [] then err = Some (Decoder_IO EOF) \<and> n = 0 else err = None \<and> 0 < n))"
proof -
  have ok: "decoder_ok enc d" using assms(1) by (simp add: valid_def)
  consider "d_out d \<noteq> []" | "d_out d = []" "d_err d \<noteq> None" | "d_out d = []" "d_err d = None" by blast
  then show ?thesis
  proof cases
    case 1
    obtain d' p' n where r: "decoder_Read bo rd d p = Some (Inr (d', p', n, None))" "decoder_ok enc d'" "n \<le> length p" "length p' = length p"
      "d_out d = take n p' @ d_out d'" "undecoded d' = undecoded d" "d_err d' = d_err d" "p \<noteq> [] \<longrightarrow> 0 < n"
      using decoder_Read_left [OF 1 ok, of p] by (elim exE conjE)
    obtain v where v: "b64_dec enc (undecoded d) = (v, True)" "rest = d_out d @ v" "d_err d = None" using assms(1) 1 by (auto simp: valid_def)
    then have "valid enc d' (d_out d' @ v)" using r by (simp add: valid_def)
    then show ?thesis using r v 1 by - (rule exI [of _ d'], rule exI [of _ p'], rule exI [of _ n], rule exI [of _ None], rule exI [of _ "d_out d' @ v"], auto)
  next
    case 2
    then have "d_err d = Some (Decoder_IO EOF)" "rest = []" using assms(1) by (auto simp: valid_def)
    then show ?thesis using decoder_Read_failed [OF 2, of p] assms(1)
      by - (rule exI [of _ d], rule exI [of _ p], rule exI [of _ 0], rule exI [of _ "d_err d"], rule exI [of _ "[]"], simp)
  next
    case 3
    show ?thesis
    proof (cases rule: decoder_Read_next [OF ok assms(2) 3, of p, case_names part ending])
      case (part d' p' n err c)
      then obtain rest' where v: "rest = take n p' @ rest'" "valid enc d' rest'" "d_err d' = None" "rest \<noteq> []" "p \<noteq> [] \<longrightarrow> 0 < n"
        using valid_part [OF assms(1) 3 part(3-6,2)] by (elim exE conjE)
      then have "err = None" using part(7) by auto
      then show ?thesis using part v
        by - (rule exI [of _ d'], rule exI [of _ p'], rule exI [of _ n], rule exI [of _ None], rule exI [of _ rest'], auto simp: decoded_def)
    next
      case (ending d')
      then have u: "undecoded d = []" using assms(1) 3 b64_dec_short [of enc "undecoded d"] by (auto simp: valid_def)
      then have "rest = []" "valid enc d' []" using assms(1) ending 3 by (auto simp: valid_def)
      then show ?thesis using ending u
        by - (rule exI [of _ d'], rule exI [of _ p], rule exI [of _ 0], rule exI [of _ "d_err d'"], rule exI [of _ "[]"], simp)
    qed
  qed
qed

lemma decoder_reads_valid:
  assumes "alphabet_ok enc"
  shows "valid enc d rest \<Longrightarrow> [] \<notin> set ps \<Longrightarrow>
    \<exists>d' rs rest'. decoder_reads bo rd d ps = Some (Inr (d', rs)) \<and> rest = concat (map fst rs) @ rest' \<and> valid enc d' rest' \<and>
      (\<forall>x\<in>set rs. x = ([], Some (Decoder_IO EOF)) \<or> fst x \<noteq> [] \<and> snd x = None) \<and>
      (length rest < length ps \<longrightarrow> rest' = [] \<and> last rs = ([], Some (Decoder_IO EOF)))"
proof (induction ps arbitrary: d rest)
  case (Cons p ps)
  obtain d1 p1 n err rest1 where r: "decoder_Read bo rd d p = Some (Inr (d1, p1, n, err))" "rest = take n p1 @ rest1" "valid enc d1 rest1"
    "n \<le> length p" "length p1 = length p" "p \<noteq> [] \<longrightarrow> (if rest = [] then err = Some (Decoder_IO EOF) \<and> n = 0 else err = None \<and> 0 < n)"
    using decoder_Read_valid [OF Cons.prems(1) assms, of p] by (elim exE conjE)
  have e: "if rest = [] then err = Some (Decoder_IO EOF) \<and> n = 0 else err = None \<and> 0 < n" using r(6) Cons.prems(2) by auto
  have ps: "[] \<notin> set ps" using Cons.prems(2) by simp
  obtain d' rs rest' where IH: "decoder_reads bo rd d1 ps = Some (Inr (d', rs))" "rest1 = concat (map fst rs) @ rest'" "valid enc d' rest'"
    "\<forall>x\<in>set rs. x = ([], Some (Decoder_IO EOF)) \<or> fst x \<noteq> [] \<and> snd x = None"
    "length rest1 < length ps \<longrightarrow> rest' = [] \<and> last rs = ([], Some (Decoder_IO EOF))"
    using Cons.IH [OF r(3) ps] by (elim exE conjE)
  have first: "(take n p1, err) = ([], Some (Decoder_IO EOF)) \<or> take n p1 \<noteq> [] \<and> err = None"
    using r(4,5) e Cons.prems(2) by (auto split: if_splits)
  have "rest' = [] \<and> last ((take n p1, err) # rs) = ([], Some (Decoder_IO EOF))" if "length rest < length (p # ps)"
  proof (cases "ps = []")
    case True
    then have rs: "rs = []" and rest: "rest = []" using IH(1) that by auto
    from r(2) have "rest1 = []" unfolding rest by simp
    with IH(2) have "rest' = []" by simp
    moreover from e have "err = Some (Decoder_IO EOF) \<and> n = 0" unfolding rest by simp
    ultimately show ?thesis by (simp add: rs)
  next
    case False
    have l: "length rest = n + length rest1" unfolding r(2) using r(4,5) by simp
    have "length rest1 < length ps"
    proof (cases "rest = []")
      case True
      with l have "rest1 = []" by simp
      then show ?thesis using False by simp
    next
      case nonempty: False
      with e have "0 < n" by simp
      then show ?thesis using that l by simp
    qed
    moreover have "rs \<noteq> []" using IH(1) False by (cases ps) (auto split: option.splits sum.splits prod.splits)
    ultimately show ?thesis using IH(5) by simp
  qed
  then show ?case using r(1,2) IH(1-4) first
    by - (rule exI [of _ d'], rule exI [of _ "(take n p1, err) # rs"], rule exI [of _ rest'], simp)
qed (auto simp: valid_def)


text \<open>
  Whatever the text \<open>s\<close>: the parts \<open>cs\<close> of it have been decoded, one after the other, to \<open>out\<close>, which has been returned,
  and to what is left in \<open>d_out\<close>. All of them decode without error unless an error has been found.
\<close>

definition tracked :: "Encoding \<Rightarrow> bytes \<Rightarrow> 'r decoder \<Rightarrow> bytes \<Rightarrow> bool" where
  "tracked enc s d out \<longleftrightarrow> decoder_ok enc d \<and>
     (\<exists>cs. s = concat cs @ undecoded d \<and> out @ d_out d = concat (map (\<lambda>c. fst (b64_dec enc c)) cs) \<and>
        (d_err d = None \<or> d_err d = Some (Decoder_IO EOF) \<longrightarrow> (\<forall>c\<in>set cs. snd (b64_dec enc c)))) \<and>
     (d_err d = Some (Decoder_IO EOF) \<longrightarrow> undecoded d = [] \<and> d_out d = [])"

lemma tracked_part:
  assumes "tracked enc s d out" "d_out d = []" "d_err d = None" "undecoded d = c @ undecoded d'" "decoded enc c p d' p' n" "decoder_ok enc d'"
  shows "tracked enc s d' (out @ take n p')"
proof -
  obtain cs where cs: "s = concat cs @ undecoded d" "out = concat (map (\<lambda>c. fst (b64_dec enc c)) cs)" "\<forall>c\<in>set cs. snd (b64_dec enc c)"
    using assms(1-3) by (auto simp: tracked_def)
  have c: "b64_dec enc c = (take n p' @ d_out d', d_err d' = None)" "d_err d' \<noteq> Some (Decoder_IO EOF)"
    using assms(5) by (auto simp: decoded_def)
  have "s = concat (cs @ [c]) @ undecoded d'" using cs(1) assms(4) by simp
  moreover have "(out @ take n p') @ d_out d' = concat (map (\<lambda>c. fst (b64_dec enc c)) (cs @ [c]))" using cs(2) c(1) by simp
  moreover have "d_err d' = None \<longrightarrow> (\<forall>c\<in>set (cs @ [c]). snd (b64_dec enc c))" using cs(3) c(1) by simp
  ultimately show ?thesis using assms(6) c(2) unfolding tracked_def
    by - (rule conjI, assumption, rule conjI, rule exI [of _ "cs @ [c]"], simp_all)
qed

lemma decoder_Read_tracked:
  assumes "tracked enc s d out" "alphabet_ok enc"
  shows "\<exists>d' p' n err. decoder_Read bo rd d p = Some (Inr (d', p', n, err)) \<and> tracked enc s d' (out @ take n p') \<and>
    (err = Some (Decoder_IO EOF) \<longrightarrow> d_err d' = Some (Decoder_IO EOF))"
proof -
  have ok: "decoder_ok enc d" using assms(1) by (simp add: tracked_def)
  consider "d_out d \<noteq> []" | "d_out d = []" "d_err d \<noteq> None" | "d_out d = []" "d_err d = None" by blast
  then show ?thesis
  proof cases
    case 1
    obtain d' p' n where r: "decoder_Read bo rd d p = Some (Inr (d', p', n, None))" "decoder_ok enc d'"
      "d_out d = take n p' @ d_out d'" "undecoded d' = undecoded d" "d_err d' = d_err d"
      using decoder_Read_left [OF 1 ok, of p] by (elim exE conjE)
    have "tracked enc s d' (out @ take n p')" using assms(1) r(2-5) 1 by (simp add: tracked_def)
    then show ?thesis using r(1) by blast
  next
    case 2
    then show ?thesis using decoder_Read_failed [OF 2, of p] assms(1) by auto
  next
    case 3
    show ?thesis
    proof (cases rule: decoder_Read_next [OF ok assms(2) 3, of p, case_names part ending])
      case (part d' p' n err c)
      then have "tracked enc s d' (out @ take n p')" using tracked_part [OF assms(1) 3] by blast
      then show ?thesis using part(1,7) by auto
    next
      case (ending d')
      have "tracked enc s d' out" using assms(1) ending(2-4,7) 3 by (auto simp: tracked_def split: if_splits)
      then show ?thesis using ending(1) by auto
    qed
  qed
qed

lemma decoder_reads_tracked:
  assumes "alphabet_ok enc"
  shows "tracked enc s d out \<Longrightarrow> \<exists>d' rs. decoder_reads bo rd d ps = Some (Inr (d', rs)) \<and> tracked enc s d' (out @ concat (map fst rs)) \<and>
    length rs = length ps \<and> (rs \<noteq> [] \<and> snd (last rs) = Some (Decoder_IO EOF) \<longrightarrow> d_err d' = Some (Decoder_IO EOF))"
proof (induction ps arbitrary: d out)
  case (Cons p ps)
  obtain d1 p1 n err where r: "decoder_Read bo rd d p = Some (Inr (d1, p1, n, err))" "tracked enc s d1 (out @ take n p1)"
    "err = Some (Decoder_IO EOF) \<longrightarrow> d_err d1 = Some (Decoder_IO EOF)"
    using decoder_Read_tracked [OF Cons.prems assms, of p] by (elim exE conjE)
  obtain d' rs where IH: "decoder_reads bo rd d1 ps = Some (Inr (d', rs))" "tracked enc s d' ((out @ take n p1) @ concat (map fst rs))"
    "length rs = length ps" "rs \<noteq> [] \<and> snd (last rs) = Some (Decoder_IO EOF) \<longrightarrow> d_err d' = Some (Decoder_IO EOF)"
    using Cons.IH [OF r(2)] by (elim exE conjE)
  moreover have "d' = d1" if "rs = []" using IH that by simp
  ultimately show ?case using r by (cases "rs = []") auto
qed (simp add: tracked_def)

lemma NewDecoder_start:
  assumes "alive r"
  shows "decoder_ok enc (NewDecoder enc r)" "undecoded (NewDecoder enc r) = without_newlines (pending r)"
  using assms by (simp_all add: NewDecoder_def decoder_ok_def undecoded_def)

lemma stream_decodes:
  assumes "alive r" "alphabet_ok enc"
  shows "\<exists>d rs. decoder_reads bo rd (NewDecoder enc r) ps = Some (Inr (d, rs)) \<and> length rs = length ps \<and>
    (rs \<noteq> [] \<and> snd (last rs) = Some (Decoder_IO EOF) \<longrightarrow>
       (\<exists>cs. without_newlines (pending r) = concat cs \<and> (\<forall>c\<in>set cs. snd (b64_dec enc c)) \<and>
          concat (map fst rs) = concat (map (\<lambda>c. fst (b64_dec enc c)) cs))) \<and>
    (b64_dec enc (without_newlines (pending r)) = (data, True) \<and> [] \<notin> set ps \<longrightarrow>
       prefix (concat (map fst rs)) data \<and> (\<forall>x\<in>set rs. x = ([], Some (Decoder_IO EOF)) \<or> fst x \<noteq> [] \<and> snd x = None) \<and>
       (length data < length ps \<longrightarrow> concat (map fst rs) = data \<and> last rs = ([], Some (Decoder_IO EOF))))"
proof -
  note new = NewDecoder_start [OF assms(1), of enc]
  have e: "d_err (NewDecoder enc r) = None" "d_out (NewDecoder enc r) = []" by (simp_all add: NewDecoder_def)
  have "tracked enc (without_newlines (pending r)) (NewDecoder enc r) []"
    unfolding tracked_def using new e by (intro conjI exI [of _ "[]"]) simp_all
  from decoder_reads_tracked [OF assms(2) this, of ps] obtain d rs where t: "decoder_reads bo rd (NewDecoder enc r) ps = Some (Inr (d, rs))"
    "tracked enc (without_newlines (pending r)) d (concat (map fst rs))" "length rs = length ps"
    "rs \<noteq> [] \<and> snd (last rs) = Some (Decoder_IO EOF) \<longrightarrow> d_err d = Some (Decoder_IO EOF)"
    by (elim exE conjE) simp
  have "\<exists>cs. without_newlines (pending r) = concat cs \<and> (\<forall>c\<in>set cs. snd (b64_dec enc c)) \<and>
          concat (map fst rs) = concat (map (\<lambda>c. fst (b64_dec enc c)) cs)" if "rs \<noteq> [] \<and> snd (last rs) = Some (Decoder_IO EOF)"
    using t(2,4) that by (auto simp: tracked_def)
  moreover have "prefix (concat (map fst rs)) data \<and> (\<forall>x\<in>set rs. x = ([], Some (Decoder_IO EOF)) \<or> fst x \<noteq> [] \<and> snd x = None) \<and>
       (length data < length ps \<longrightarrow> concat (map fst rs) = data \<and> last rs = ([], Some (Decoder_IO EOF)))"
    if v: "b64_dec enc (without_newlines (pending r)) = (data, True) \<and> [] \<notin> set ps"
  proof -
    have "valid enc (NewDecoder enc r) data" using v new e by (simp add: valid_def)
    from decoder_reads_valid [OF assms(2) this, of ps] v t(1) show ?thesis by (auto simp: prefix_def)
  qed
  ultimately show ?thesis using t(1,3) by blast
qed

end

interpretation string_source: decoder_source Reader_Read unread "\<lambda>r. length (unread r)" reader_ok "\<lparr>BEPutUint32 = BE_PutUint32, BEPutUint64 = BE_PutUint64\<rparr>" ..

section \<open>Properties\<close>

text \<open>
  C31: the stream decoder over a \<open>strings.Reader\<close>. For every text, every alphabet and padding the package accepts and any sequence of slices, each
  call of \<open>Read\<close> returns, without a panic. When the last of them reports \<open>EOF\<close>, the text without its newlines is made of
  consecutive parts that decode without error, and the calls have returned what these parts decode to. When the
  text decodes without error as a whole, the calls with non-empty slices return the decoded data in order: each of them at least one byte without
  error, then \<open>EOF\<close> and nothing; with more calls than bytes of data all of the data is returned and \<open>EOF\<close> reached. The
  parts are decoded separately: of two padded encodings in a row, which \<open>DecodeString\<close> rejects, the stream decoder
  returns the data of both and reports no error when it is read one byte at a time, and an error when it is read with a
  larger slice.
\<close>

theorem base64_stream_decodes:
  assumes "byteorder bo" "alphabet_ok enc"
  shows "\<exists>d rs. decoder_reads bo Reader_Read (NewDecoder enc (NewReader s)) ps = Some (Inr (d, rs)) \<and> length rs = length ps \<and>
    (rs \<noteq> [] \<and> snd (last rs) = Some (Decoder_IO EOF) \<longrightarrow>
       (\<exists>cs. without_newlines s = concat cs \<and> (\<forall>c\<in>set cs. snd (b64_dec enc c)) \<and>
          concat (map fst rs) = concat (map (\<lambda>c. fst (b64_dec enc c)) cs))) \<and>
    (b64_dec enc (without_newlines s) = (data, True) \<and> [] \<notin> set ps \<longrightarrow>
       prefix (concat (map fst rs)) data \<and> (\<forall>x\<in>set rs. x = ([], Some (Decoder_IO EOF)) \<or> fst x \<noteq> [] \<and> snd x = None) \<and>
       (length data < length ps \<longrightarrow> concat (map fst rs) = data \<and> last rs = ([], Some (Decoder_IO EOF)))) \<and>
    map_option (map_sum id snd) (decoder_reads binary_bo Reader_Read
       (NewDecoder (projr StdEncoding) (NewReader (bytes_of ''QQ==QQ==''))) [[0], [0], [0]]) =
      Some (Inr [([0x41], None), ([0x41], None), ([], Some (Decoder_IO EOF))]) \<and>
    DecodeString binary_bo (projr StdEncoding) (bytes_of ''QQ==QQ=='') = Inr ([0x41], Some (CorruptInputError 4)) \<and>
    map_option (map_sum id snd) (decoder_reads binary_bo Reader_Read
       (NewDecoder (projr StdEncoding) (NewReader (bytes_of ''QQ==QQ==''))) [replicate 8 0]) =
      Some (Inr [([0x41], Some (Decoder_Corrupt (CorruptInputError 4)))])"
proof -
  have u: "unread (NewReader s) = s" by (simp add: unread_def NewReader_def)
  have "map_option (map_sum id snd) (decoder_reads binary_bo Reader_Read
       (NewDecoder (projr StdEncoding) (NewReader (bytes_of ''QQ==QQ==''))) [[0], [0], [0]]) =
      Some (Inr [([0x41], None), ([0x41], None), ([], Some (Decoder_IO EOF))])"
    "DecodeString binary_bo (projr StdEncoding) (bytes_of ''QQ==QQ=='') = Inr ([0x41], Some (CorruptInputError 4))"
    "map_option (map_sum id snd) (decoder_reads binary_bo Reader_Read
       (NewDecoder (projr StdEncoding) (NewReader (bytes_of ''QQ==QQ==''))) [replicate 8 0]) =
      Some (Inr [([0x41], Some (Decoder_Corrupt (CorruptInputError 4)))])" by code_simp+
  then show ?thesis
    using decoder_source.stream_decodes [OF decoder_source.intro [OF string_reader.finite_reader_axioms assms(1)] reader_ok_New assms(2), of s ps data]
    unfolding u by simp
qed

theorem base64_stream_decodes_witness:
  "\<exists>rs. map_option (map_sum id snd) (decoder_reads binary_bo Reader_Read (NewDecoder (projr StdEncoding)
        (NewReader (bytes_of ''QU'' @ [0x0A] @ bytes_of ''JD''))) [[0, 0], [0, 0], [0], [0]]) = Some (Inr rs) \<and>
     concat (map fst rs) = bytes_of ''ABC'' \<and> last rs = ([], Some (Decoder_IO EOF))"
proof -
  have "b64_dec (projr StdEncoding) (without_newlines (bytes_of ''QU'' @ [0x0A] @ bytes_of ''JD'')) = (bytes_of ''ABC'', True)" by code_simp
  moreover have "length (bytes_of ''ABC'') < length [[0, 0], [0, 0], [0], [0 :: u8]]" by (simp add: bytes_of_def)
  ultimately show ?thesis
    using base64_stream_decodes [OF binary_order.byteorder_axioms StdEncoding_ok(1), of "bytes_of ''QU'' @ [0x0A] @ bytes_of ''JD''" "[[0, 0], [0, 0], [0], [0]]"
      "bytes_of ''ABC''"] by (elim exE conjE) simp
qed

end
