(* ===== verification/Json_Scanner.thy ===== *)
theory Json_Scanner
  imports Go_Prelude
begin

text \<open>
  The scanner of \<open>encoding/json\<close> (\<open>src/encoding/json/scanner.go\<close>), a state machine that reads JSON text byte by
  byte. The field \<open>step\<close> of the Go structure holds one of the state functions; here it holds a name of that
  function, and \<open>scan_step\<close> is the call \<open>s.step(s, c)\<close>. A state function returns the scanner it leaves behind and
  its opcode. Error values keep the offending byte, the context and the offset; the formatting of the
  message by \<open>quoteChar\<close> is not modelled. Bytes are written as numbers: \<open>0x22\<close> is the quote, \<open>0x5B\<close> and \<open>0x5D\<close> the
  square brackets, \<open>0x7B\<close> and \<open>0x7D\<close> the braces, \<open>0x2C\<close> the comma, \<open>0x3A\<close> the colon.
\<close>

section \<open>The scanner\<close>

datatype scan_fn =
    F_BeginValueOrEmpty | F_BeginValue | F_BeginStringOrEmpty | F_BeginString | F_EndValue | F_EndTop
  | F_InString | F_InStringEsc | F_InStringEscU | F_InStringEscU1 | F_InStringEscU12 | F_InStringEscU123
  | F_Neg | F_1 | F_0 | F_Dot | F_Dot0 | F_E | F_ESign | F_E0
  | F_T | F_Tr | F_Tru | F_F | F_Fa | F_Fal | F_Fals | F_N | F_Nu | F_Nul | F_Error

datatype parse_state = parseObjectKey | parseObjectValue | parseArrayValue

datatype scan_code =
    scanContinue | scanBeginLiteral | scanBeginObject | scanObjectKey | scanObjectValue | scanEndObject
  | scanBeginArray | scanArrayValue | scanEndArray | scanSkipSpace | scanEnd | scanError

datatype syntax_msg = Invalid_character u8 string | Unexpected_end

datatype SyntaxError = SyntaxError syntax_msg int

record scanner =
  sc_step :: scan_fn
  sc_endTop :: bool
  sc_parseState :: "parse_state list"
  sc_err :: "SyntaxError option"
  sc_bytes :: int

definition maxNestingDepth :: nat where "maxNestingDepth = 10000"

definition scan_reset :: "scanner \<Rightarrow> scanner" where
  "scan_reset s = s\<lparr>sc_step := F_BeginValue, sc_parseState := [], sc_err := None, sc_endTop := False\<rparr>"

definition scan_error :: "scanner \<Rightarrow> u8 \<Rightarrow> string \<Rightarrow> scanner \<times> scan_code" where
  "scan_error s c ctx =
     (s\<lparr>sc_step := F_Error, sc_err := Some (SyntaxError (Invalid_character c ctx) (sc_bytes s))\<rparr>, scanError)"

definition pushParseState :: "scanner \<Rightarrow> u8 \<Rightarrow> parse_state \<Rightarrow> scan_code \<Rightarrow> scanner \<times> scan_code" where
  "pushParseState s c newParseState successState =
     (let s = s\<lparr>sc_parseState := sc_parseState s @ [newParseState]\<rparr> in
      if length (sc_parseState s) \<le> maxNestingDepth then (s, successState)
      else scan_error s c ''exceeded max depth'')"

text \<open>\<open>popParseState\<close> is called on a stack that is not empty.\<close>

definition popParseState :: "scanner \<Rightarrow> scanner" where
  "popParseState s =
     (let n = length (sc_parseState s) - 1;
          s = s\<lparr>sc_parseState := take n (sc_parseState s)\<rparr>
      in if n = 0 then s\<lparr>sc_step := F_EndTop, sc_endTop := True\<rparr> else s\<lparr>sc_step := F_EndValue\<rparr>)"

definition isSpace :: "u8 \<Rightarrow> bool" where
  "isSpace c \<longleftrightarrow> c \<le> 0x20 \<and> (c = 0x20 \<or> c = 0x09 \<or> c = 0x0D \<or> c = 0x0A)"

definition is_0_9 :: "u8 \<Rightarrow> bool" where
  "is_0_9 c \<longleftrightarrow> 0x30 \<le> c \<and> c \<le> 0x39"

definition is_1_9 :: "u8 \<Rightarrow> bool" where
  "is_1_9 c \<longleftrightarrow> 0x31 \<le> c \<and> c \<le> 0x39"

definition is_hex :: "u8 \<Rightarrow> bool" where
  "is_hex c \<longleftrightarrow> 0x30 \<le> c \<and> c \<le> 0x39 \<or> 0x61 \<le> c \<and> c \<le> 0x66 \<or> 0x41 \<le> c \<and> c \<le> 0x46"

abbreviation scan_goto :: "scanner \<Rightarrow> scan_fn \<Rightarrow> scan_code \<Rightarrow> scanner \<times> scan_code" where
  "scan_goto s f code \<equiv> (s\<lparr>sc_step := f\<rparr>, code)"

section \<open>The state functions\<close>

definition stateEndTop :: "scanner \<Rightarrow> u8 \<Rightarrow> scanner \<times> scan_code" where
  "stateEndTop s c =
     (if \<not> isSpace c then (fst (scan_error s c ''after top-level value''), scanEnd) else (s, scanEnd))"

definition stateEndValue :: "scanner \<Rightarrow> u8 \<Rightarrow> scanner \<times> scan_code" where
  "stateEndValue s c =
     (let n = length (sc_parseState s) in
      if n = 0 then stateEndTop (s\<lparr>sc_step := F_EndTop, sc_endTop := True\<rparr>) c
      else if isSpace c then scan_goto s F_EndValue scanSkipSpace
      else case sc_parseState s ! (n - 1) of
        parseObjectKey \<Rightarrow>
          (if c = 0x3A
           then scan_goto (s\<lparr>sc_parseState := (sc_parseState s)[n - 1 := parseObjectValue]\<rparr>) F_BeginValue scanObjectKey
           else scan_error s c ''after object key'')
      | parseObjectValue \<Rightarrow>
          (if c = 0x2C
           then scan_goto (s\<lparr>sc_parseState := (sc_parseState s)[n - 1 := parseObjectKey]\<rparr>) F_BeginString scanObjectValue
           else if c = 0x7D then (popParseState s, scanEndObject)
           else scan_error s c ''after object key:value pair'')
      | parseArrayValue \<Rightarrow>
          (if c = 0x2C then scan_goto s F_BeginValue scanArrayValue
           else if c = 0x5D then (popParseState s, scanEndArray)
           else scan_error s c ''after array element''))"

definition stateBeginValue :: "scanner \<Rightarrow> u8 \<Rightarrow> scanner \<times> scan_code" where
  "stateBeginValue s c =
     (if isSpace c then (s, scanSkipSpace)
      else if c = 0x7B then pushParseState (s\<lparr>sc_step := F_BeginStringOrEmpty\<rparr>) c parseObjectKey scanBeginObject
      else if c = 0x5B then pushParseState (s\<lparr>sc_step := F_BeginValueOrEmpty\<rparr>) c parseArrayValue scanBeginArray
      else if c = 0x22 then scan_goto s F_InString scanBeginLiteral
      else if c = 0x2D then scan_goto s F_Neg scanBeginLiteral
      else if c = 0x30 then scan_goto s F_0 scanBeginLiteral
      else if c = 0x74 then scan_goto s F_T scanBeginLiteral
      else if c = 0x66 then scan_goto s F_F scanBeginLiteral
      else if c = 0x6E then scan_goto s F_N scanBeginLiteral
      else if is_1_9 c then scan_goto s F_1 scanBeginLiteral
      else scan_error s c ''looking for beginning of value'')"

definition stateBeginValueOrEmpty :: "scanner \<Rightarrow> u8 \<Rightarrow> scanner \<times> scan_code" where
  "stateBeginValueOrEmpty s c =
     (if isSpace c then (s, scanSkipSpace)
      else if c = 0x5D then stateEndValue s c
      else stateBeginValue s c)"

definition stateBeginString :: "scanner \<Rightarrow> u8 \<Rightarrow> scanner \<times> scan_code" where
  "stateBeginString s c =
     (if isSpace c then (s, scanSkipSpace)
      else if c = 0x22 then scan_goto s F_InString scanBeginLiteral
      else scan_error s c ''looking for beginning of object key string'')"

text \<open>The assignment \<open>s.parseState[n-1] = parseObjectValue\<close> panics on an empty stack.\<close>

definition stateBeginStringOrEmpty :: "scanner \<Rightarrow> u8 \<Rightarrow> panic + scanner \<times> scan_code" where
  "stateBeginStringOrEmpty s c =
     (if isSpace c then Inr (s, scanSkipSpace)
      else if c = 0x7D then
        (let n = length (sc_parseState s) in
         if n = 0 then Inl IndexOutOfRange
         else Inr (stateEndValue (s\<lparr>sc_parseState := (sc_parseState s)[n - 1 := parseObjectValue]\<rparr>) c))
      else Inr (stateBeginString s c))"

definition stateInString :: "scanner \<Rightarrow> u8 \<Rightarrow> scanner \<times> scan_code" where
  "stateInString s c =
     (if c = 0x22 then scan_goto s F_EndValue scanContinue
      else if c = 0x5C then scan_goto s F_InStringEsc scanContinue
      else if c < 0x20 then scan_error s c ''in string literal''
      else (s, scanContinue))"

definition hex_context :: string where
  "hex_context = ''in '' @ [CHR 0x5C] @ ''u hexadecimal character escape''"

definition literal_context :: "string \<Rightarrow> char \<Rightarrow> string" where
  "literal_context w c = ''in literal '' @ w @ '' (expecting '' @ [CHR 0x27, c, CHR 0x27] @ '')''"

definition is_escape :: "u8 \<Rightarrow> bool" where
  "is_escape c \<longleftrightarrow> c = 0x62 \<or> c = 0x66 \<or> c = 0x6E \<or> c = 0x72 \<or> c = 0x74 \<or> c = 0x5C \<or> c = 0x2F \<or> c = 0x22"

definition stateInStringEsc :: "scanner \<Rightarrow> u8 \<Rightarrow> scanner \<times> scan_code" where
  "stateInStringEsc s c =
     (if is_escape c then scan_goto s F_InString scanContinue
      else if c = 0x75 then scan_goto s F_InStringEscU scanContinue
      else scan_error s c ''in string escape code'')"

definition stateInStringEscU :: "scanner \<Rightarrow> u8 \<Rightarrow> scanner \<times> scan_code" where
  "stateInStringEscU s c =
     (if is_hex c then scan_goto s F_InStringEscU1 scanContinue
      else scan_error s c hex_context)"

definition stateInStringEscU1 :: "scanner \<Rightarrow> u8 \<Rightarrow> scanner \<times> scan_code" where
  "stateInStringEscU1 s c =
     (if is_hex c then scan_goto s F_InStringEscU12 scanContinue
      else scan_error s c hex_context)"

definition stateInStringEscU12 :: "scanner \<Rightarrow> u8 \<Rightarrow> scanner \<times> scan_code" where
  "stateInStringEscU12 s c =
     (if is_hex c then scan_goto s F_InStringEscU123 scanContinue
      else scan_error s c hex_context)"

definition stateInStringEscU123 :: "scanner \<Rightarrow> u8 \<Rightarrow> scanner \<times> scan_code" where
  "stateInStringEscU123 s c =
     (if is_hex c then scan_goto s F_InString scanContinue
      else scan_error s c hex_context)"

definition state0 :: "scanner \<Rightarrow> u8 \<Rightarrow> scanner \<times> scan_code" where
  "state0 s c =
     (if c = 0x2E then scan_goto s F_Dot scanContinue
      else if c = 0x65 \<or> c = 0x45 then scan_goto s F_E scanContinue
      else stateEndValue s c)"

definition state1 :: "scanner \<Rightarrow> u8 \<Rightarrow> scanner \<times> scan_code" where
  "state1 s c = (if is_0_9 c then scan_goto s F_1 scanContinue else state0 s c)"

definition stateNeg :: "scanner \<Rightarrow> u8 \<Rightarrow> scanner \<times> scan_code" where
  "stateNeg s c =
     (if c = 0x30 then scan_goto s F_0 scanContinue
      else if is_1_9 c then scan_goto s F_1 scanContinue
      else scan_error s c ''in numeric literal'')"

definition stateDot :: "scanner \<Rightarrow> u8 \<Rightarrow> scanner \<times> scan_code" where
  "stateDot s c =
     (if is_0_9 c then scan_goto s F_Dot0 scanContinue
      else scan_error s c ''after decimal point in numeric literal'')"

definition stateDot0 :: "scanner \<Rightarrow> u8 \<Rightarrow> scanner \<times> scan_code" where
  "stateDot0 s c =
     (if is_0_9 c then (s, scanContinue)
      else if c = 0x65 \<or> c = 0x45 then scan_goto s F_E scanContinue
      else stateEndValue s c)"

definition stateESign :: "scanner \<Rightarrow> u8 \<Rightarrow> scanner \<times> scan_code" where
  "stateESign s c =
     (if is_0_9 c then scan_goto s F_E0 scanContinue
      else scan_error s c ''in exponent of numeric literal'')"

definition stateE :: "scanner \<Rightarrow> u8 \<Rightarrow> scanner \<times> scan_code" where
  "stateE s c = (if c = 0x2B \<or> c = 0x2D then scan_goto s F_ESign scanContinue else stateESign s c)"

definition stateE0 :: "scanner \<Rightarrow> u8 \<Rightarrow> scanner \<times> scan_code" where
  "stateE0 s c = (if is_0_9 c then (s, scanContinue) else stateEndValue s c)"

definition stateT :: "scanner \<Rightarrow> u8 \<Rightarrow> scanner \<times> scan_code" where
  "stateT s c =
     (if c = 0x72 then scan_goto s F_Tr scanContinue
      else scan_error s c (literal_context ''true'' CHR ''r''))"

definition stateTr :: "scanner \<Rightarrow> u8 \<Rightarrow> scanner \<times> scan_code" where
  "stateTr s c =
     (if c = 0x75 then scan_goto s F_Tru scanContinue
      else scan_error s c (literal_context ''true'' CHR ''u''))"

definition stateTru :: "scanner \<Rightarrow> u8 \<Rightarrow> scanner \<times> scan_code" where
  "stateTru s c =
     (if c = 0x65 then scan_goto s F_EndValue scanContinue
      else scan_error s c (literal_context ''true'' CHR ''e''))"

definition stateF :: "scanner \<Rightarrow> u8 \<Rightarrow> scanner \<times> scan_code" where
  "stateF s c =
     (if c = 0x61 then scan_goto s F_Fa scanContinue
      else scan_error s c (literal_context ''false'' CHR ''a''))"

definition stateFa :: "scanner \<Rightarrow> u8 \<Rightarrow> scanner \<times> scan_code" where
  "stateFa s c =
     (if c = 0x6C then scan_goto s F_Fal scanContinue
      else scan_error s c (literal_context ''false'' CHR ''l''))"

definition stateFal :: "scanner \<Rightarrow> u8 \<Rightarrow> scanner \<times> scan_code" where
  "stateFal s c =
     (if c = 0x73 then scan_goto s F_Fals scanContinue
      else scan_error s c (literal_context ''false'' CHR ''s''))"

definition stateFals :: "scanner \<Rightarrow> u8 \<Rightarrow> scanner \<times> scan_code" where
  "stateFals s c =
     (if c = 0x65 then scan_goto s F_EndValue scanContinue
      else scan_error s c (literal_context ''false'' CHR ''e''))"

definition stateN :: "scanner \<Rightarrow> u8 \<Rightarrow> scanner \<times> scan_code" where
  "stateN s c =
     (if c = 0x75 then scan_goto s F_Nu scanContinue
      else scan_error s c (literal_context ''null'' CHR ''u''))"

definition stateNu :: "scanner \<Rightarrow> u8 \<Rightarrow> scanner \<times> scan_code" where
  "stateNu s c =
     (if c = 0x6C then scan_goto s F_Nul scanContinue
      else scan_error s c (literal_context ''null'' CHR ''l''))"

definition stateNul :: "scanner \<Rightarrow> u8 \<Rightarrow> scanner \<times> scan_code" where
  "stateNul s c =
     (if c = 0x6C then scan_goto s F_EndValue scanContinue
      else scan_error s c (literal_context ''null'' CHR ''l''))"

definition stateError :: "scanner \<Rightarrow> u8 \<Rightarrow> scanner \<times> scan_code" where
  "stateError s c = (s, scanError)"

text \<open>The call \<open>s.step(s, c)\<close>.\<close>

definition scan_step :: "scanner \<Rightarrow> u8 \<Rightarrow> panic + scanner \<times> scan_code" where
  "scan_step s c =
     (case sc_step s of
        F_BeginStringOrEmpty \<Rightarrow> stateBeginStringOrEmpty s c
      | F_BeginValueOrEmpty \<Rightarrow> Inr (stateBeginValueOrEmpty s c)
      | F_BeginValue \<Rightarrow> Inr (stateBeginValue s c)
      | F_BeginString \<Rightarrow> Inr (stateBeginString s c)
      | F_EndValue \<Rightarrow> Inr (stateEndValue s c)
      | F_EndTop \<Rightarrow> Inr (stateEndTop s c)
      | F_InString \<Rightarrow> Inr (stateInString s c)
      | F_InStringEsc \<Rightarrow> Inr (stateInStringEsc s c)
      | F_InStringEscU \<Rightarrow> Inr (stateInStringEscU s c)
      | F_InStringEscU1 \<Rightarrow> Inr (stateInStringEscU1 s c)
      | F_InStringEscU12 \<Rightarrow> Inr (stateInStringEscU12 s c)
      | F_InStringEscU123 \<Rightarrow> Inr (stateInStringEscU123 s c)
      | F_Neg \<Rightarrow> Inr (stateNeg s c)
      | F_1 \<Rightarrow> Inr (state1 s c)
      | F_0 \<Rightarrow> Inr (state0 s c)
      | F_Dot \<Rightarrow> Inr (stateDot s c)
      | F_Dot0 \<Rightarrow> Inr (stateDot0 s c)
      | F_E \<Rightarrow> Inr (stateE s c)
      | F_ESign \<Rightarrow> Inr (stateESign s c)
      | F_E0 \<Rightarrow> Inr (stateE0 s c)
      | F_T \<Rightarrow> Inr (stateT s c)
      | F_Tr \<Rightarrow> Inr (stateTr s c)
      | F_Tru \<Rightarrow> Inr (stateTru s c)
      | F_F \<Rightarrow> Inr (stateF s c)
      | F_Fa \<Rightarrow> Inr (stateFa s c)
      | F_Fal \<Rightarrow> Inr (stateFal s c)
      | F_Fals \<Rightarrow> Inr (stateFals s c)
      | F_N \<Rightarrow> Inr (stateN s c)
      | F_Nu \<Rightarrow> Inr (stateNu s c)
      | F_Nul \<Rightarrow> Inr (stateNul s c)
      | F_Error \<Rightarrow> Inr (stateError s c))"

section \<open>Validation\<close>

definition scan_eof :: "scanner \<Rightarrow> panic + scanner \<times> scan_code" where
  "scan_eof s =
     (if sc_err s \<noteq> None then Inr (s, scanError)
      else if sc_endTop s then Inr (s, scanEnd)
      else case scan_step s 0x20 of
        Inl e \<Rightarrow> Inl e
      | Inr (s, _) \<Rightarrow>
          if sc_endTop s then Inr (s, scanEnd)
          else if sc_err s = None
          then Inr (s\<lparr>sc_err := Some (SyntaxError Unexpected_end (sc_bytes s))\<rparr>, scanError)
          else Inr (s, scanError))"

fun checkValid_loop :: "bytes \<Rightarrow> scanner \<Rightarrow> panic + scanner \<times> SyntaxError option" where
  "checkValid_loop [] s =
     (case scan_eof s of
        Inl e \<Rightarrow> Inl e
      | Inr (s, code) \<Rightarrow> if code = scanError then Inr (s, sc_err s) else Inr (s, None))"
| "checkValid_loop (c # cs) s =
     (let s = s\<lparr>sc_bytes := wrap64 (sc_bytes s + 1)\<rparr> in
      case scan_step s c of
        Inl e \<Rightarrow> Inl e
      | Inr (s, code) \<Rightarrow> if code = scanError then Inr (s, sc_err s) else checkValid_loop cs s)"

definition checkValid :: "bytes \<Rightarrow> scanner \<Rightarrow> panic + scanner \<times> SyntaxError option" where
  "checkValid data scan = checkValid_loop data (scan_reset scan)"

text \<open>\<open>newScanner\<close> takes a scanner out of the pool, in whatever state it was put back.\<close>

definition newScanner :: "scanner \<Rightarrow> scanner" where
  "newScanner pooled = scan_reset (pooled\<lparr>sc_bytes := 0\<rparr>)"

definition freeScanner :: "scanner \<Rightarrow> scanner" where
  "freeScanner scan = (if length (sc_parseState scan) > 1024 then scan\<lparr>sc_parseState := []\<rparr> else scan)"

text \<open>The result, and the scanner that goes back to the pool.\<close>

definition json_Valid :: "scanner \<Rightarrow> bytes \<Rightarrow> panic + bool \<times> scanner" where
  "json_Valid pooled data =
     (case checkValid data (newScanner pooled) of
        Inl e \<Rightarrow> Inl e
      | Inr (scan, err) \<Rightarrow> Inr (err = None, freeScanner scan))"

end
