(* ===== verification/Json_Machine.thy ===== *)
theory Json_Machine
  imports Json_Scanner
begin

text \<open>
  The scanner as a state machine: one step as a function of the state and the stack, the invariant of
  the scanners reachable from \<open>reset\<close>, and acceptance of a text state by state.
\<close>

section \<open>Acceptance\<close>

text \<open>The scanner in state \<open>q\<close> with the stack \<open>ps\<close> and no error so far.\<close>

definition scan_at :: "scan_fn \<Rightarrow> parse_state list \<Rightarrow> scanner \<Rightarrow> bool" where
  "scan_at q ps s \<longleftrightarrow> sc_step s = q \<and> sc_parseState s = ps \<and> sc_err s = None \<and> (sc_endTop s \<longleftrightarrow> q = F_EndTop)"

definition scan_accepts :: "scanner \<Rightarrow> bytes \<Rightarrow> bool" where
  "scan_accepts s w = (case checkValid_loop w s of Inl e \<Rightarrow> False | Inr (s', err) \<Rightarrow> err = None)"

lemmas state_defs = stateBeginValueOrEmpty_def stateBeginValue_def stateBeginStringOrEmpty_def stateBeginString_def stateEndValue_def
  stateEndTop_def stateInString_def stateInStringEsc_def stateInStringEscU_def stateInStringEscU1_def stateInStringEscU12_def
  stateInStringEscU123_def stateNeg_def state1_def state0_def stateDot_def stateDot0_def stateE_def stateESign_def stateE0_def
  stateT_def stateTr_def stateTru_def stateF_def stateFa_def stateFal_def stateFals_def stateN_def stateNu_def stateNul_def
  stateError_def

text \<open>One byte, as a function of the state and the stack alone.\<close>

definition scan_machine :: "scan_fn \<Rightarrow> parse_state list \<Rightarrow> scanner" where
  "scan_machine q ps = \<lparr>sc_step = q, sc_endTop = (q = F_EndTop), sc_parseState = ps, sc_err = None, sc_bytes = 0\<rparr>"

definition next_state :: "scan_fn \<Rightarrow> parse_state list \<Rightarrow> u8 \<Rightarrow> (scan_fn \<times> parse_state list) option" where
  "next_state q ps c =
     (case scan_step (scan_machine q ps) c of
        Inl e \<Rightarrow> None
      | Inr (s, code) \<Rightarrow> if sc_err s = None then Some (sc_step s, sc_parseState s) else None)"

lemma scan_at_machine: "scan_at q ps s \<longleftrightarrow> (\<exists>n. s = (scan_machine q ps)\<lparr>sc_bytes := n\<rparr>)"
  by (cases s) (auto simp: scan_at_def scan_machine_def)

text \<open>The stack is empty at the end of the top-level value and holds a key after an opening brace.\<close>

definition wf_state :: "scan_fn \<Rightarrow> parse_state list \<Rightarrow> bool" where
  "wf_state q ps \<longleftrightarrow> q \<noteq> F_Error \<and> (q = F_EndTop \<longrightarrow> ps = []) \<and> (q = F_BeginStringOrEmpty \<longrightarrow> ps \<noteq> [])"

lemma wf_step:
  assumes "wf_state q ps"
  shows "case scan_step ((scan_machine q ps)\<lparr>sc_bytes := n\<rparr>) c of
      Inl e \<Rightarrow> False
    | Inr (s, code) \<Rightarrow>
        (case next_state q ps c of
           None \<Rightarrow> sc_err s \<noteq> None \<and> sc_step s = F_Error
         | Some (q', ps') \<Rightarrow> scan_at q' ps' s \<and> code \<noteq> scanError \<and> wf_state q' ps')"
  using assms
  by (cases q) (simp_all add: wf_state_def scan_step_def next_state_def scan_machine_def scan_at_def scan_error_def state_defs Let_def pushParseState_def popParseState_def split: parse_state.split)

lemma error_rejects: "sc_err s \<noteq> None \<Longrightarrow> sc_step s = F_Error \<Longrightarrow> \<not> scan_accepts s w"
  by (cases w) (auto simp: scan_accepts_def scan_eof_def scan_step_def stateError_def Let_def)

lemma accepts_step:
  "scan_accepts s (c # w) \<longleftrightarrow>
     (case scan_step (s\<lparr>sc_bytes := wrap64 (sc_bytes s + 1)\<rparr>) c of
        Inl e \<Rightarrow> False
      | Inr (s', code) \<Rightarrow> if code = scanError then sc_err s' = None else scan_accepts s' w)"
  by (auto simp: scan_accepts_def Let_def split: sum.splits)

definition scan_acc :: "scan_fn \<Rightarrow> parse_state list \<Rightarrow> bytes \<Rightarrow> bool" where
  "scan_acc q ps w = scan_accepts (scan_machine q ps) w"

lemma accepts_at: "scan_at q ps s \<Longrightarrow> wf_state q ps \<Longrightarrow> scan_accepts s w \<longleftrightarrow> scan_acc q ps w"
proof (induction w arbitrary: q ps s)
  case Nil
  then obtain n where s: "s = (scan_machine q ps)\<lparr>sc_bytes := n\<rparr>" by (auto simp: scan_at_machine)
  show ?case using Nil.prems(2) unfolding s scan_acc_def
    by (cases q) (simp_all add: wf_state_def scan_accepts_def scan_eof_def scan_step_def scan_machine_def scan_error_def state_defs Let_def
        pushParseState_def popParseState_def isSpace_def split: parse_state.split)
next
  case (Cons c w)
  have m: "scan_at q ps (scan_machine q ps)" by (simp add: scan_at_def scan_machine_def)
  have step: "scan_accepts t (c # w) \<longleftrightarrow> (case next_state q ps c of None \<Rightarrow> False | Some (q', ps') \<Rightarrow> scan_acc q' ps' w)" if at: "scan_at q ps t" for t
  proof -
    obtain n where t: "t\<lparr>sc_bytes := wrap64 (sc_bytes t + 1)\<rparr> = (scan_machine q ps)\<lparr>sc_bytes := n\<rparr>"
      using at by (auto simp: scan_at_machine)
    show ?thesis using wf_step [OF Cons.prems(2), where n = n and c = c] Cons.IH error_rejects
      unfolding accepts_step t by (auto split: sum.splits prod.splits option.splits if_splits)
  qed
  show ?case using step [OF Cons.prems(1)] step [OF m] by (simp add: scan_acc_def)
qed

lemma acc_Nil: "wf_state q ps \<Longrightarrow> scan_acc q ps [] \<longleftrightarrow> ps = [] \<and> (q = F_EndTop \<or> q = F_EndValue \<or> q = F_0 \<or> q = F_1 \<or> q = F_Dot0 \<or> q = F_E0)"
  by (cases q) (simp_all add: scan_acc_def wf_state_def scan_accepts_def scan_eof_def scan_step_def scan_machine_def scan_error_def state_defs Let_def
        pushParseState_def popParseState_def isSpace_def is_0_9_def is_1_9_def is_hex_def is_escape_def split: parse_state.split)

lemma acc_Cons:
  assumes "wf_state q ps"
  shows "scan_acc q ps (c # w) \<longleftrightarrow> (case next_state q ps c of None \<Rightarrow> False | Some (q', ps') \<Rightarrow> scan_acc q' ps' w)"
proof -
  obtain n where n: "(scan_machine q ps)\<lparr>sc_bytes := wrap64 (sc_bytes (scan_machine q ps) + 1)\<rparr> = (scan_machine q ps)\<lparr>sc_bytes := n\<rparr>" by blast
  show ?thesis using wf_step [OF assms, where n = n and c = c] accepts_at error_rejects
    unfolding scan_acc_def [of q ps] accepts_step n by (auto split: sum.splits prod.splits option.splits if_splits)
qed

lemmas machine_simps = next_state_def scan_step_def scan_machine_def scan_error_def state_defs Let_def pushParseState_def popParseState_def

lemma acc_BeginValue:
  "scan_acc F_BeginValue ps (c # w) \<longleftrightarrow>
     (if isSpace c then scan_acc F_BeginValue ps w
      else if c = 0x7B then length ps < maxNestingDepth \<and> scan_acc F_BeginStringOrEmpty (ps @ [parseObjectKey]) w
      else if c = 0x5B then length ps < maxNestingDepth \<and> scan_acc F_BeginValueOrEmpty (ps @ [parseArrayValue]) w
      else if c = 0x22 then scan_acc F_InString ps w
      else if c = 0x2D then scan_acc F_Neg ps w
      else if c = 0x30 then scan_acc F_0 ps w
      else if c = 0x74 then scan_acc F_T ps w
      else if c = 0x66 then scan_acc F_F ps w
      else if c = 0x6E then scan_acc F_N ps w
      else is_1_9 c \<and> scan_acc F_1 ps w)"
  by (subst acc_Cons) (auto simp: wf_state_def machine_simps)

lemma acc_EndTop: "scan_acc F_EndTop [] w \<longleftrightarrow> list_all isSpace w"
  by (induction w) (auto simp: acc_Nil acc_Cons wf_state_def machine_simps)

lemma acc_EndValue_empty: "scan_acc F_EndValue [] w \<longleftrightarrow> list_all isSpace w"
  by (cases w) (auto simp: acc_Nil acc_Cons wf_state_def machine_simps acc_EndTop)

definition popped :: "parse_state list \<Rightarrow> scan_fn" where
  "popped ps = (if ps = [] then F_EndTop else F_EndValue)"

lemma acc_popped: "scan_acc (popped ps) ps w \<longleftrightarrow> scan_acc F_EndValue ps w"
  by (simp add: popped_def acc_EndTop acc_EndValue_empty)

lemma acc_EndValue_Nil: "scan_acc F_EndValue (ps @ [p]) [] \<longleftrightarrow> False"
  by (simp add: acc_Nil wf_state_def)

lemma next_EndValue:
  "next_state F_EndValue (ps @ [p]) c =
     (if isSpace c then Some (F_EndValue, ps @ [p])
      else case p of
        parseObjectKey \<Rightarrow> if c = 0x3A then Some (F_BeginValue, ps @ [parseObjectValue]) else None
      | parseObjectValue \<Rightarrow> if c = 0x2C then Some (F_BeginString, ps @ [parseObjectKey]) else if c = 0x7D then Some (popped ps, ps) else None
      | parseArrayValue \<Rightarrow> if c = 0x2C then Some (F_BeginValue, ps @ [parseArrayValue]) else if c = 0x5D then Some (popped ps, ps) else None)"
  by (cases p) (simp_all add: machine_simps popped_def)

lemma acc_EndValue_Cons:
  "scan_acc F_EndValue (ps @ [p]) (c # w) \<longleftrightarrow>
     (if isSpace c then scan_acc F_EndValue (ps @ [p]) w
      else case p of
        parseObjectKey \<Rightarrow> c = 0x3A \<and> scan_acc F_BeginValue (ps @ [parseObjectValue]) w
      | parseObjectValue \<Rightarrow> (c = 0x2C \<and> scan_acc F_BeginString (ps @ [parseObjectKey]) w) \<or> (c = 0x7D \<and> scan_acc F_EndValue ps w)
      | parseArrayValue \<Rightarrow> (c = 0x2C \<and> scan_acc F_BeginValue (ps @ [parseArrayValue]) w) \<or> (c = 0x5D \<and> scan_acc F_EndValue ps w))"
  by (cases p) (simp_all add: acc_Cons wf_state_def next_EndValue acc_popped)

lemma next_OrEmpty:
  "next_state F_BeginStringOrEmpty (ps @ [parseObjectKey]) c =
     (if isSpace c then Some (F_BeginStringOrEmpty, ps @ [parseObjectKey]) else if c = 0x7D then Some (popped ps, ps)
      else next_state F_BeginString (ps @ [parseObjectKey]) c)"
  "next_state F_BeginValueOrEmpty (ps @ [parseArrayValue]) c =
     (if isSpace c then Some (F_BeginValueOrEmpty, ps @ [parseArrayValue]) else if c = 0x5D then Some (popped ps, ps)
      else next_state F_BeginValue (ps @ [parseArrayValue]) c)"
  by (auto simp: machine_simps popped_def isSpace_def)

lemma acc_BeginStringOrEmpty:
  "scan_acc F_BeginStringOrEmpty (ps @ [parseObjectKey]) (c # w) \<longleftrightarrow>
     (if isSpace c then scan_acc F_BeginStringOrEmpty (ps @ [parseObjectKey]) w
      else if c = 0x7D then scan_acc F_EndValue ps w
      else scan_acc F_BeginString (ps @ [parseObjectKey]) (c # w))"
  by (simp add: acc_Cons wf_state_def next_OrEmpty acc_popped)

lemma acc_BeginValueOrEmpty:
  "scan_acc F_BeginValueOrEmpty (ps @ [parseArrayValue]) (c # w) \<longleftrightarrow>
     (if isSpace c then scan_acc F_BeginValueOrEmpty (ps @ [parseArrayValue]) w
      else if c = 0x5D then scan_acc F_EndValue ps w
      else scan_acc F_BeginValue (ps @ [parseArrayValue]) (c # w))"
  by (simp add: acc_Cons wf_state_def next_OrEmpty acc_popped)

lemma acc_BeginString:
  "scan_acc F_BeginString ps (c # w) \<longleftrightarrow> (if isSpace c then scan_acc F_BeginString ps w else c = 0x22 \<and> scan_acc F_InString ps w)"
  by (subst acc_Cons) (auto simp: wf_state_def machine_simps)

lemma acc_InString:
  "scan_acc F_InString ps (c # w) \<longleftrightarrow>
     (if c = 0x22 then scan_acc F_EndValue ps w else if c = 0x5C then scan_acc F_InStringEsc ps w else 0x20 \<le> c \<and> scan_acc F_InString ps w)"
  by (subst acc_Cons) (auto simp: wf_state_def machine_simps not_less)

lemma acc_InStringEsc:
  "scan_acc F_InStringEsc ps (c # w) \<longleftrightarrow> (if is_escape c then scan_acc F_InString ps w else c = 0x75 \<and> scan_acc F_InStringEscU ps w)"
  by (subst acc_Cons) (auto simp: wf_state_def machine_simps)

lemma acc_hex:
  "scan_acc F_InStringEscU ps (c # w) \<longleftrightarrow> is_hex c \<and> scan_acc F_InStringEscU1 ps w"
  "scan_acc F_InStringEscU1 ps (c # w) \<longleftrightarrow> is_hex c \<and> scan_acc F_InStringEscU12 ps w"
  "scan_acc F_InStringEscU12 ps (c # w) \<longleftrightarrow> is_hex c \<and> scan_acc F_InStringEscU123 ps w"
  "scan_acc F_InStringEscU123 ps (c # w) \<longleftrightarrow> is_hex c \<and> scan_acc F_InString ps w"
  by (simp_all add: acc_Cons wf_state_def machine_simps)

lemma acc_number:
  "scan_acc F_Neg ps (c # w) \<longleftrightarrow> (if c = 0x30 then scan_acc F_0 ps w else is_1_9 c \<and> scan_acc F_1 ps w)"
  "scan_acc F_1 ps (c # w) \<longleftrightarrow> (if is_0_9 c then scan_acc F_1 ps w else scan_acc F_0 ps (c # w))"
  "scan_acc F_0 ps (c # w) \<longleftrightarrow> (if c = 0x2E then scan_acc F_Dot ps w else if c = 0x65 \<or> c = 0x45 then scan_acc F_E ps w else scan_acc F_EndValue ps (c # w))"
  "scan_acc F_Dot ps (c # w) \<longleftrightarrow> is_0_9 c \<and> scan_acc F_Dot0 ps w"
  "scan_acc F_Dot0 ps (c # w) \<longleftrightarrow> (if is_0_9 c then scan_acc F_Dot0 ps w else if c = 0x65 \<or> c = 0x45 then scan_acc F_E ps w else scan_acc F_EndValue ps (c # w))"
  "scan_acc F_E ps (c # w) \<longleftrightarrow> (if c = 0x2B \<or> c = 0x2D then scan_acc F_ESign ps w else scan_acc F_ESign ps (c # w))"
  "scan_acc F_ESign ps (c # w) \<longleftrightarrow> is_0_9 c \<and> scan_acc F_E0 ps w"
  "scan_acc F_E0 ps (c # w) \<longleftrightarrow> (if is_0_9 c then scan_acc F_E0 ps w else scan_acc F_EndValue ps (c # w))"
  by (simp add: acc_Cons wf_state_def; simp add: machine_simps split: parse_state.split)+

lemma acc_literal:
  "scan_acc F_T ps (c # w) \<longleftrightarrow> c = 0x72 \<and> scan_acc F_Tr ps w" "scan_acc F_Tr ps (c # w) \<longleftrightarrow> c = 0x75 \<and> scan_acc F_Tru ps w"
  "scan_acc F_Tru ps (c # w) \<longleftrightarrow> c = 0x65 \<and> scan_acc F_EndValue ps w"
  "scan_acc F_F ps (c # w) \<longleftrightarrow> c = 0x61 \<and> scan_acc F_Fa ps w" "scan_acc F_Fa ps (c # w) \<longleftrightarrow> c = 0x6C \<and> scan_acc F_Fal ps w"
  "scan_acc F_Fal ps (c # w) \<longleftrightarrow> c = 0x73 \<and> scan_acc F_Fals ps w" "scan_acc F_Fals ps (c # w) \<longleftrightarrow> c = 0x65 \<and> scan_acc F_EndValue ps w"
  "scan_acc F_N ps (c # w) \<longleftrightarrow> c = 0x75 \<and> scan_acc F_Nu ps w" "scan_acc F_Nu ps (c # w) \<longleftrightarrow> c = 0x6C \<and> scan_acc F_Nul ps w"
  "scan_acc F_Nul ps (c # w) \<longleftrightarrow> c = 0x6C \<and> scan_acc F_EndValue ps w"
  by (simp_all add: acc_Cons wf_state_def machine_simps)

section \<open>Safety of the state scan_machine\<close>

text \<open>
  The scanners that arise from \<open>reset\<close> by steps; the callers may set the byte count at any time. A call of \<open>eof\<close> ends the use of a scanner: it can
  record an error without switching to the error state, and the callers make no step after it before the next \<open>reset\<close>.
\<close>

inductive scan_reachable :: "scanner \<Rightarrow> bool" where
  reach_reset: "scan_reachable (scan_reset s)"
| reach_bytes: "scan_reachable s \<Longrightarrow> scan_reachable (s\<lparr>sc_bytes := n\<rparr>)"
| reach_step: "scan_reachable s \<Longrightarrow> scan_step s c = Inr (s', code) \<Longrightarrow> scan_reachable s'"

definition scan_inv :: "scanner \<Rightarrow> bool" where
  "scan_inv s \<longleftrightarrow>
     (if sc_err s = None
      then scan_at (sc_step s) (sc_parseState s) s \<and> wf_state (sc_step s) (sc_parseState s) \<and> length (sc_parseState s) \<le> maxNestingDepth
      else sc_step s = F_Error \<and> length (sc_parseState s) \<le> Suc maxNestingDepth)"

lemma scan_inv_bytes: "scan_inv (s\<lparr>sc_bytes := n\<rparr>) \<longleftrightarrow> scan_inv s"
  by (auto simp: scan_inv_def scan_at_def)

lemma step_depth:
  assumes "wf_state q ps" "length ps \<le> maxNestingDepth"
  shows "case scan_step ((scan_machine q ps)\<lparr>sc_bytes := n\<rparr>) c of
      Inl e \<Rightarrow> True
    | Inr (s, code) \<Rightarrow> length (sc_parseState s) \<le> Suc maxNestingDepth \<and> (sc_err s = None \<longrightarrow> length (sc_parseState s) \<le> maxNestingDepth)"
proof -
  have "length ps - Suc 0 \<le> maxNestingDepth" "length ps - Suc 0 \<le> Suc maxNestingDepth" using assms(2) by simp_all
  with assms show ?thesis
    by (cases q) (simp_all add: wf_state_def scan_machine_def scan_step_def scan_error_def state_defs Let_def pushParseState_def popParseState_def
        split: parse_state.split)
qed

lemma scan_inv_step:
  assumes "scan_inv s"
  obtains s' code where "scan_step s c = Inr (s', code)" "scan_inv s'"
    "sc_err s \<noteq> None \<Longrightarrow> s' = s \<and> code = scanError" "code = scanError \<Longrightarrow> sc_err s' \<noteq> None"
proof (cases "sc_err s")
  case None
  define q ps where "q = sc_step s" and "ps = sc_parseState s"
  have i: "scan_at q ps s" "wf_state q ps" "length ps \<le> maxNestingDepth" using assms None by (auto simp: scan_inv_def q_def ps_def)
  obtain n where s: "s = (scan_machine q ps)\<lparr>sc_bytes := n\<rparr>" using i(1) by (auto simp: scan_at_machine)
  obtain s' code where r: "scan_step s c = Inr (s', code)" using wf_step [OF i(2), where n = n and c = c] by (auto simp: s split: sum.splits)
  have "(if sc_err s' = None then scan_at (sc_step s') (sc_parseState s') s' \<and> wf_state (sc_step s') (sc_parseState s') \<and> code \<noteq> scanError
     else sc_step s' = F_Error)"
    using wf_step [OF i(2), where n = n and c = c] r unfolding s [symmetric] by (auto simp: scan_at_def split: option.splits)
  then show thesis using that [OF r] step_depth [OF i(2,3), where n = n and c = c] r None unfolding s [symmetric] by (auto simp: scan_inv_def split: if_splits)
next
  case (Some e)
  then have "scan_step s c = Inr (s, scanError)" using assms by (simp add: scan_inv_def scan_step_def stateError_def)
  then show thesis using that assms Some by auto
qed

lemma scan_inv_reachable: "scan_reachable s \<Longrightarrow> scan_inv s"
proof (induction rule: scan_reachable.induct)
  case (reach_reset s)
  then show ?case by (simp add: scan_inv_def scan_reset_def scan_at_def wf_state_def)
next
  case (reach_bytes s n)
  then show ?case by (simp add: scan_inv_bytes)
next
  case (reach_step s c s' code)
  then show ?case by (metis scan_inv_step Inr_inject Pair_inject)
qed

lemma checkValid_loop_total: "scan_inv s \<Longrightarrow> \<exists>r. checkValid_loop w s = Inr r"
proof (induction w arbitrary: s)
  case Nil
  obtain s' code where "scan_step s 0x20 = Inr (s', code)" using scan_inv_step [OF Nil] by metis
  then show ?case by (auto simp: scan_eof_def)
next
  case (Cons c w)
  have "scan_inv (s\<lparr>sc_bytes := wrap64 (sc_bytes s + 1)\<rparr>)" using Cons.prems by (simp add: scan_inv_bytes)
  then obtain s' code where "scan_step (s\<lparr>sc_bytes := wrap64 (sc_bytes s + 1)\<rparr>) c = Inr (s', code)" "scan_inv s'"
    using scan_inv_step by metis
  then show ?case using Cons.IH by (auto simp: Let_def)
qed

text \<open>
  C29: No sequence of bytes makes the scanner panic: from every state that can be reached after \<open>reset\<close>, a step
  returns. The stack never holds more than \<open>maxNestingDepth\<close> entries without an error, one more with the error that says so.
  A step that returns \<open>scanError\<close> has recorded an error, and once an error is recorded every later step
  returns \<open>scanError\<close> and changes nothing.
\<close>

theorem json_scanner_safe:
  assumes "scan_reachable s"
  shows "\<exists>s' code. scan_step s c = Inr (s', code) \<and> length (sc_parseState s') \<le> Suc maxNestingDepth \<and>
     (sc_err s' = None \<longrightarrow> length (sc_parseState s') \<le> maxNestingDepth) \<and>
     (code = scanError \<longrightarrow> sc_err s' \<noteq> None) \<and> (sc_err s \<noteq> None \<longrightarrow> s' = s \<and> code = scanError)"
  using scan_inv_step [OF scan_inv_reachable [OF assms], of c] unfolding scan_inv_def
  by (metis le_SucI)

theorem json_scanner_safe_witness:
  "\<exists>s' code. scan_step (scan_reset (scan_machine F_EndTop [])) 0x7D = Inr (s', code) \<and>
     length (sc_parseState s') \<le> Suc maxNestingDepth \<and> (code = scanError \<longrightarrow> sc_err s' \<noteq> None)"
  using json_scanner_safe [OF reach_reset [of "scan_machine F_EndTop []"], of "0x7D"] by blast

end
