(* ===== verification/Json_Grammar.thy ===== *)
theory Json_Grammar
  imports Json_Machine
begin

text \<open>
  The grammar of JSON texts and its equivalence with the scanner: \<open>json_complete\<close> runs the scanner over the
  derivations of the grammar, \<open>json_sound\<close> reads a derivation off an accepting run.
\<close>

section \<open>The grammar of RFC 8259\<close>

definition json_ws :: "bytes \<Rightarrow> bool" where
  "json_ws w \<longleftrightarrow> list_all isSpace w"

definition json_digits :: "bytes \<Rightarrow> bool" where
  "json_digits w \<longleftrightarrow> list_all is_0_9 w"

text \<open>The characters of a string after the opening quote, up to the closing one.\<close>

inductive json_chars :: "bytes \<Rightarrow> bool" where
  chars_end: "json_chars [0x22]"
| chars_plain: "0x20 \<le> c \<Longrightarrow> c \<noteq> 0x22 \<Longrightarrow> c \<noteq> 0x5C \<Longrightarrow> json_chars w \<Longrightarrow> json_chars (c # w)"
| chars_escape: "is_escape c \<Longrightarrow> json_chars w \<Longrightarrow> json_chars (0x5C # c # w)"
| chars_unicode: "is_hex a \<Longrightarrow> is_hex b \<Longrightarrow> is_hex c \<Longrightarrow> is_hex d \<Longrightarrow> json_chars w \<Longrightarrow>
    json_chars (0x5C # 0x75 # a # b # c # d # w)"

definition json_int :: "bytes \<Rightarrow> bool" where
  "json_int w \<longleftrightarrow> w = [0x30] \<or> (\<exists>d ds. w = d # ds \<and> is_1_9 d \<and> json_digits ds)"

definition json_frac :: "bytes \<Rightarrow> bool" where
  "json_frac w \<longleftrightarrow> w = [] \<or> (\<exists>ds. w = 0x2E # ds \<and> ds \<noteq> [] \<and> json_digits ds)"

definition json_exp :: "bytes \<Rightarrow> bool" where
  "json_exp w \<longleftrightarrow> w = [] \<or> (\<exists>e sg ds. w = e # sg @ ds \<and> (e = 0x65 \<or> e = 0x45) \<and> (sg = [] \<or> sg = [0x2B] \<or> sg = [0x2D]) \<and>
     ds \<noteq> [] \<and> json_digits ds)"

definition json_number :: "bytes \<Rightarrow> bool" where
  "json_number w \<longleftrightarrow> (\<exists>sg i f e. w = sg @ i @ f @ e \<and> (sg = [] \<or> sg = [0x2D]) \<and> json_int i \<and> json_frac f \<and> json_exp e)"

text \<open>Values, the elements of arrays and the members of objects, with the depth of nesting.\<close>

inductive json_value :: "nat \<Rightarrow> bytes \<Rightarrow> bool"
  and json_elements :: "nat \<Rightarrow> bytes \<Rightarrow> bool"
  and json_members :: "nat \<Rightarrow> bytes \<Rightarrow> bool"
where
  value_true: "json_value 0 [0x74, 0x72, 0x75, 0x65]"
| value_false: "json_value 0 [0x66, 0x61, 0x6C, 0x73, 0x65]"
| value_null: "json_value 0 [0x6E, 0x75, 0x6C, 0x6C]"
| value_number: "json_number w \<Longrightarrow> json_value 0 w"
| value_string: "json_chars w \<Longrightarrow> json_value 0 (0x22 # w)"
| value_array0: "json_ws w \<Longrightarrow> json_value 1 (0x5B # w @ [0x5D])"
| value_array: "json_elements d w \<Longrightarrow> json_value (Suc d) (0x5B # w @ [0x5D])"
| value_object0: "json_ws w \<Longrightarrow> json_value 1 (0x7B # w @ [0x7D])"
| value_object: "json_members d w \<Longrightarrow> json_value (Suc d) (0x7B # w @ [0x7D])"
| elements_one: "json_ws u \<Longrightarrow> json_value d v \<Longrightarrow> json_ws w \<Longrightarrow> json_elements d (u @ v @ w)"
| elements_more: "json_ws u \<Longrightarrow> json_value d v \<Longrightarrow> json_ws w \<Longrightarrow> json_elements e es \<Longrightarrow>
    json_elements (max d e) (u @ v @ w @ 0x2C # es)"
| members_one: "json_ws u \<Longrightarrow> json_chars k \<Longrightarrow> json_ws u1 \<Longrightarrow> json_ws u2 \<Longrightarrow> json_value d v \<Longrightarrow> json_ws w \<Longrightarrow>
    json_members d (u @ 0x22 # k @ u1 @ 0x3A # u2 @ v @ w)"
| members_more: "json_ws u \<Longrightarrow> json_chars k \<Longrightarrow> json_ws u1 \<Longrightarrow> json_ws u2 \<Longrightarrow> json_value d v \<Longrightarrow> json_ws w \<Longrightarrow> json_members e ms \<Longrightarrow>
    json_members (max d e) (u @ 0x22 # k @ u1 @ 0x3A # u2 @ v @ w @ 0x2C # ms)"

section \<open>Every JSON text is accepted\<close>

lemma acc_space:
  "json_ws u \<Longrightarrow> scan_acc F_BeginValue ps (u @ w) \<longleftrightarrow> scan_acc F_BeginValue ps w"
  "json_ws u \<Longrightarrow> scan_acc F_BeginString ps (u @ w) \<longleftrightarrow> scan_acc F_BeginString ps w"
  "json_ws u \<Longrightarrow> scan_acc F_EndValue (ps @ [p]) (u @ w) \<longleftrightarrow> scan_acc F_EndValue (ps @ [p]) w"
  "json_ws u \<Longrightarrow> scan_acc F_BeginStringOrEmpty (ps @ [parseObjectKey]) (u @ w) \<longleftrightarrow> scan_acc F_BeginStringOrEmpty (ps @ [parseObjectKey]) w"
  "json_ws u \<Longrightarrow> scan_acc F_BeginValueOrEmpty (ps @ [parseArrayValue]) (u @ w) \<longleftrightarrow> scan_acc F_BeginValueOrEmpty (ps @ [parseArrayValue]) w"
  by (induction u) (simp_all add: json_ws_def acc_BeginValue acc_BeginString acc_EndValue_Cons acc_BeginStringOrEmpty acc_BeginValueOrEmpty)

text \<open>What may follow a value is not part of a number.\<close>

lemma acc_EndValue_follow:
  assumes "scan_acc F_EndValue ps (c # w)"
  shows "\<not> is_0_9 c \<and> c \<noteq> 0x2E \<and> c \<noteq> 0x65 \<and> c \<noteq> 0x45"
proof (cases ps rule: rev_cases)
  case Nil
  then show ?thesis using assms by (auto simp: acc_EndValue_empty isSpace_def is_0_9_def)
next
  case (snoc ps' p)
  then show ?thesis using assms by (cases p) (auto simp: acc_EndValue_Cons isSpace_def is_0_9_def split: if_splits)
qed

lemma acc_number_end: "scan_acc F_EndValue ps w \<Longrightarrow> scan_acc F_0 ps w \<and> scan_acc F_1 ps w \<and> scan_acc F_Dot0 ps w \<and> scan_acc F_E0 ps w"
proof (cases w)
  case Nil
  then show "scan_acc F_EndValue ps w \<Longrightarrow> ?thesis" by (simp add: acc_Nil wf_state_def)
next
  case (Cons c w')
  then show "scan_acc F_EndValue ps w \<Longrightarrow> ?thesis" using acc_EndValue_follow [of ps c w'] by (simp add: acc_number)
qed

lemma acc_chars: "json_chars k \<Longrightarrow> scan_acc F_InString ps (k @ w) \<longleftrightarrow> scan_acc F_EndValue ps w"
  by (induction k rule: json_chars.induct) (auto simp: acc_InString acc_InStringEsc acc_hex is_escape_def)

lemma acc_digits:
  "json_digits ds \<Longrightarrow> scan_acc F_E0 ps (ds @ w) \<longleftrightarrow> scan_acc F_E0 ps w"
  "json_digits ds \<Longrightarrow> scan_acc F_Dot0 ps (ds @ w) \<longleftrightarrow> scan_acc F_Dot0 ps w"
  "json_digits ds \<Longrightarrow> scan_acc F_1 ps (ds @ w) \<longleftrightarrow> scan_acc F_1 ps w"
  by (induction ds) (simp_all add: json_digits_def acc_number)

lemma acc_exp:
  assumes "json_exp e" "scan_acc F_EndValue ps w"
  shows "scan_acc F_0 ps (e @ w) \<and> scan_acc F_Dot0 ps (e @ w) \<and> scan_acc F_1 ps (e @ w)"
proof (cases "e = []")
  case True
  then show ?thesis using acc_number_end [OF assms(2)] by simp
next
  case False
  then obtain x sg dds where x: "e = x # sg @ dds" "x = 0x65 \<or> x = 0x45" "sg = [] \<or> sg = [0x2B] \<or> sg = [0x2D]"
     "dds \<noteq> []" "json_digits dds"
    using assms(1) unfolding json_exp_def by blast
  then obtain d ds where e: "e = x # sg @ d # ds" "x = 0x65 \<or> x = 0x45" "sg = [] \<or> sg = [0x2B] \<or> sg = [0x2D]"
     "is_0_9 d" "json_digits ds"
    by (cases dds) (auto simp: json_digits_def)
  have d: "scan_acc F_ESign ps (d # ds @ w)" using e acc_digits(1) acc_number_end [OF assms(2)] by (simp add: acc_number)
  then have "scan_acc F_E ps (sg @ d # ds @ w)" using e(3,4) by (auto simp: acc_number is_0_9_def)
  then show ?thesis using e(1,2) by (auto simp: acc_number is_0_9_def)
qed

lemma acc_frac:
  assumes "json_frac f" "json_exp e" "scan_acc F_EndValue ps w"
  shows "scan_acc F_0 ps (f @ e @ w) \<and> scan_acc F_1 ps (f @ e @ w)"
proof (cases "f = []")
  case True
  then show ?thesis using acc_exp [OF assms(2,3)] by simp
next
  case False
  then obtain d ds where f: "f = 0x2E # d # ds" "is_0_9 d" "json_digits ds"
    using assms(1) by (auto simp: json_frac_def json_digits_def neq_Nil_conv)
  then show ?thesis using acc_exp [OF assms(2,3)] acc_digits(2) by (simp add: acc_number is_0_9_def)
qed

lemma digit_first: "is_1_9 c \<Longrightarrow> \<not> isSpace c \<and> c \<notin> {0x7B, 0x5B, 0x22, 0x2D, 0x30, 0x74, 0x66, 0x6E}"
  by (auto simp: is_1_9_def isSpace_def)

lemma acc_json_number:
  assumes "json_number n" "scan_acc F_EndValue ps w"
  shows "scan_acc F_BeginValue ps (n @ w)"
proof -
  obtain sg i f e where n: "n = sg @ i @ f @ e" "sg = [] \<or> sg = [0x2D]" "json_int i" "json_frac f" "json_exp e"
    using assms(1) by (auto simp: json_number_def)
  note r = acc_frac [OF n(4,5) assms(2)]
  have "scan_acc F_BeginValue ps (i @ f @ e @ w) \<and> scan_acc F_Neg ps (i @ f @ e @ w)"
    using n(3) unfolding json_int_def
  proof (elim disjE exE conjE)
    fix d ds
    assume "i = d # ds" "is_1_9 d" "json_digits ds"
    then show ?thesis using digit_first [of d] r acc_digits(3) [of ds ps "f @ e @ w"] by (simp add: acc_BeginValue acc_number)
  qed (use r in \<open>simp add: acc_BeginValue acc_number isSpace_def\<close>)
  then show ?thesis using n(1,2) by (auto simp: acc_BeginValue isSpace_def)
qed

lemma first_char:
  "json_value d v \<Longrightarrow> v \<noteq> [] \<and> \<not> isSpace (hd v) \<and> hd v \<noteq> 0x5D"
  "json_elements d es \<Longrightarrow> True" "json_members d ms \<Longrightarrow> True"
proof (induction rule: json_value_json_elements_json_members.inducts)
  case (value_number w)
  then show ?case using digit_first by (auto simp: json_number_def json_int_def isSpace_def is_1_9_def)
qed (simp_all add: isSpace_def)

lemma acc_OrEmpty_value:
  assumes "json_value d v" "json_ws u"
  shows "scan_acc F_BeginValueOrEmpty (ps @ [parseArrayValue]) (u @ v @ w) \<longleftrightarrow> scan_acc F_BeginValue (ps @ [parseArrayValue]) (u @ v @ w)"
  using first_char(1) [OF assms(1)] assms(2) by (cases v) (simp_all add: acc_space acc_BeginValueOrEmpty)

lemma acc_OrEmpty_string:
  assumes "json_ws u"
  shows "scan_acc F_BeginStringOrEmpty (ps @ [parseObjectKey]) (u @ 0x22 # w) \<longleftrightarrow> scan_acc F_BeginString (ps @ [parseObjectKey]) (u @ 0x22 # w)"
  using assms by (simp add: acc_space acc_BeginStringOrEmpty isSpace_def)

lemma json_complete:
  "json_value d v \<Longrightarrow> (\<And>ps w. length ps + d \<le> maxNestingDepth \<Longrightarrow> scan_acc F_EndValue ps w \<Longrightarrow> scan_acc F_BeginValue ps (v @ w))"
  "json_elements d es \<Longrightarrow> (\<And>ps w. length ps + Suc d \<le> maxNestingDepth \<Longrightarrow> scan_acc F_EndValue ps w \<Longrightarrow>
     scan_acc F_BeginValueOrEmpty (ps @ [parseArrayValue]) (es @ 0x5D # w) \<and> scan_acc F_BeginValue (ps @ [parseArrayValue]) (es @ 0x5D # w))"
  "json_members d ms \<Longrightarrow> (\<And>ps w. length ps + Suc d \<le> maxNestingDepth \<Longrightarrow> scan_acc F_EndValue ps w \<Longrightarrow>
     scan_acc F_BeginStringOrEmpty (ps @ [parseObjectKey]) (ms @ 0x7D # w) \<and> scan_acc F_BeginString (ps @ [parseObjectKey]) (ms @ 0x7D # w))"
proof (induction rule: json_value_json_elements_json_members.inducts)
  case (value_number n)
  then show ?case by (simp add: acc_json_number)
next
  case (elements_one u d v w')
  have "scan_acc F_EndValue (ps @ [parseArrayValue]) (w' @ 0x5D # w)"
    using elements_one by (simp add: acc_space acc_EndValue_Cons isSpace_def)
  then have "scan_acc F_BeginValue (ps @ [parseArrayValue]) (u @ v @ w' @ 0x5D # w)" using elements_one by (simp add: acc_space)
  then show ?case using acc_OrEmpty_value [OF elements_one(2,1)] by simp
next
  case (elements_more u d v w' e es)
  have "scan_acc F_EndValue (ps @ [parseArrayValue]) (w' @ 0x2C # es @ 0x5D # w)"
    using elements_more by (simp add: acc_space acc_EndValue_Cons isSpace_def)
  then have "scan_acc F_BeginValue (ps @ [parseArrayValue]) (u @ v @ w' @ 0x2C # es @ 0x5D # w)" using elements_more by (simp add: acc_space)
  then show ?case using acc_OrEmpty_value [OF elements_more(2,1)] by simp
next
  case (members_one u k u1 u2 d v w')
  have "scan_acc F_EndValue (ps @ [parseObjectValue]) (w' @ 0x7D # w)"
    using members_one by (simp add: acc_space acc_EndValue_Cons isSpace_def)
  then have "scan_acc F_BeginString (ps @ [parseObjectKey]) (u @ 0x22 # k @ u1 @ 0x3A # u2 @ v @ w' @ 0x7D # w)"
    using members_one by (simp add: acc_space acc_BeginString acc_chars acc_EndValue_Cons isSpace_def)
  then show ?case using acc_OrEmpty_string [OF members_one(1)] by simp
next
  case (members_more u k u1 u2 d v w' e ms)
  have "scan_acc F_EndValue (ps @ [parseObjectValue]) (w' @ 0x2C # ms @ 0x7D # w)"
    using members_more by (simp add: acc_space acc_EndValue_Cons isSpace_def)
  then have "scan_acc F_BeginString (ps @ [parseObjectKey]) (u @ 0x22 # k @ u1 @ 0x3A # u2 @ v @ w' @ 0x2C # ms @ 0x7D # w)"
    using members_more by (simp add: acc_space acc_BeginString acc_chars acc_EndValue_Cons isSpace_def)
  then show ?case using acc_OrEmpty_string [OF members_more(1)] by simp
qed (simp_all add: acc_BeginValue acc_literal acc_chars acc_space acc_BeginValueOrEmpty acc_BeginStringOrEmpty isSpace_def)

section \<open>Every accepted text is JSON\<close>

lemma acc_not_Nil: "scan_acc q ps [] \<Longrightarrow> wf_state q ps \<Longrightarrow> q = F_EndTop \<or> q = F_EndValue \<or> q = F_0 \<or> q = F_1 \<or> q = F_Dot0 \<or> q = F_E0"
  by (simp add: acc_Nil)

lemma chars_sound: "scan_acc F_InString ps x \<Longrightarrow> \<exists>k w. x = k @ w \<and> json_chars k \<and> scan_acc F_EndValue ps w"
proof (induction "length x" arbitrary: x rule: less_induct)
  case less
  obtain c y where x: "x = c # y" using less.prems acc_not_Nil [of F_InString ps] by (cases x) (auto simp: wf_state_def)
  consider "c = 0x22" | "c = 0x5C" | "c \<noteq> 0x22" "c \<noteq> 0x5C" "0x20 \<le> c" "scan_acc F_InString ps y"
    using less.prems by (auto simp: x acc_InString split: if_splits)
  then show ?case
  proof cases
    case 1
    then show ?thesis using less.prems chars_end by (intro exI [of _ "[c]"] exI [of _ y]) (simp add: x acc_InString)
  next
    case 2
    then have e: "scan_acc F_InStringEsc ps y" using less.prems by (simp add: x acc_InString)
    then obtain d z where y: "y = d # z" using acc_not_Nil [of F_InStringEsc ps] by (cases y) (auto simp: wf_state_def)
    show ?thesis
    proof (cases "is_escape d")
      case True
      then have "scan_acc F_InString ps z" using e by (simp add: y acc_InStringEsc)
      then obtain k w where "z = k @ w" "json_chars k" "scan_acc F_EndValue ps w" using less.hyps [of z] x y by auto
      then show ?thesis using 2 True chars_escape [of d k] by (intro exI [of _ "c # d # k"] exI [of _ w]) (simp add: x y)
    next
      case False
      then have u: "d = 0x75" "scan_acc F_InStringEscU ps z" using e by (auto simp: y acc_InStringEsc)
      then obtain a b c' d' t where z: "z = a # b # c' # d' # t" "is_hex a" "is_hex b" "is_hex c'" "is_hex d'" "scan_acc F_InString ps t"
        using acc_not_Nil [of F_InStringEscU ps] acc_not_Nil [of F_InStringEscU1 ps] acc_not_Nil [of F_InStringEscU12 ps]
          acc_not_Nil [of F_InStringEscU123 ps]
        by (cases z; cases "tl z"; cases "tl (tl z)"; cases "tl (tl (tl z))") (auto simp: wf_state_def acc_hex)
      then obtain k w where "t = k @ w" "json_chars k" "scan_acc F_EndValue ps w" using less.hyps [of t] x y by auto
      then show ?thesis using 2 u(1) z chars_unicode [of a b c' d' k]
        by (intro exI [of _ "c # d # a # b # c' # d' # k"] exI [of _ w]) (simp add: x y)
    qed
  next
    case 3
    then obtain k w where "y = k @ w" "json_chars k" "scan_acc F_EndValue ps w" using less.hyps [of y] x by auto
    then show ?thesis using 3 chars_plain [of c k] by (intro exI [of _ "c # k"] exI [of _ w]) (simp add: x)
  qed
qed

lemma digits_sound:
  "scan_acc F_E0 ps x \<Longrightarrow> \<exists>ds w. x = ds @ w \<and> json_digits ds \<and> scan_acc F_EndValue ps w"
proof (induction x)
  case Nil
  then show ?case by (intro exI [of _ "[]"]) (simp add: acc_Nil wf_state_def json_digits_def)
next
  case (Cons c x)
  show ?case
  proof (cases "is_0_9 c")
    case True
    then obtain ds w where "x = ds @ w" "json_digits ds" "scan_acc F_EndValue ps w" using Cons by (auto simp: acc_number)
    then show ?thesis using True by (intro exI [of _ "c # ds"] exI [of _ w]) (simp add: json_digits_def)
  next
    case False
    then show ?thesis using Cons.prems by (intro exI [of _ "[]"] exI [of _ "c # x"]) (simp add: acc_number json_digits_def)
  qed
qed

lemma exp_sound:
  assumes "scan_acc F_E ps x" "e = 0x65 \<or> e = 0x45"
  shows "\<exists>ex w. e # x = ex @ w \<and> json_exp ex \<and> scan_acc F_EndValue ps w"
proof -
  have s: "\<exists>ds w. y = ds @ w \<and> ds \<noteq> [] \<and> json_digits ds \<and> scan_acc F_EndValue ps w" if y: "scan_acc F_ESign ps y" for y
  proof -
    obtain c z where c: "y = c # z" "is_0_9 c" "scan_acc F_E0 ps z"
      using y acc_not_Nil [of F_ESign ps] by (cases y) (auto simp: wf_state_def acc_number)
    obtain ds w where "z = ds @ w" "json_digits ds" "scan_acc F_EndValue ps w" using digits_sound [OF c(3)] by blast
    then show ?thesis using c by (intro exI [of _ "c # ds"] exI [of _ w]) (simp add: json_digits_def)
  qed
  obtain sg y where x: "x = sg @ y" "sg = [] \<or> sg = [0x2B] \<or> sg = [0x2D]" "scan_acc F_ESign ps y"
  proof -
    obtain c y where x: "x = c # y" using assms(1) acc_not_Nil [of F_E ps] by (cases x) (auto simp: wf_state_def)
    show thesis
    proof (cases "c = 0x2B \<or> c = 0x2D")
      case True
      then show ?thesis using that [of "[c]" y] assms(1) x by (auto simp: acc_number(6))
    next
      case False
      then show ?thesis using that [of "[]" x] assms(1) x by (simp add: acc_number(6))
    qed
  qed
  obtain ds w where "y = ds @ w" "ds \<noteq> []" "json_digits ds" "scan_acc F_EndValue ps w" using s [OF x(3)] by blast
  then show ?thesis using x assms(2) by (intro exI [of _ "e # sg @ ds"] exI [of _ w]) (auto simp: json_exp_def)
qed

lemma dot0_sound: "scan_acc F_Dot0 ps x \<Longrightarrow> \<exists>ds e w. x = ds @ e @ w \<and> json_digits ds \<and> json_exp e \<and> scan_acc F_EndValue ps w"
proof (induction x)
  case Nil
  then show ?case by (intro exI [of _ "[]"]) (simp add: acc_Nil wf_state_def json_digits_def json_exp_def)
next
  case (Cons c x)
  consider "is_0_9 c" | "\<not> is_0_9 c" "c = 0x65 \<or> c = 0x45" | "\<not> is_0_9 c" "c \<noteq> 0x65" "c \<noteq> 0x45" by blast
  then show ?case
  proof cases
    case 1
    then obtain ds e w where "x = ds @ e @ w" "json_digits ds" "json_exp e" "scan_acc F_EndValue ps w" using Cons by (auto simp: acc_number)
    then show ?thesis using 1 by (intro exI [of _ "c # ds"] exI [of _ e] exI [of _ w]) (simp add: json_digits_def)
  next
    case 2
    then have "scan_acc F_E ps x" using Cons.prems by (simp add: acc_number)
    from exp_sound [OF this 2(2)] obtain e w where "c # x = e @ w" "json_exp e" "scan_acc F_EndValue ps w" by blast
    then show ?thesis by (intro exI [of _ "[]"] exI [of _ e] exI [of _ w]) (simp add: json_digits_def)
  next
    case 3
    then show ?thesis using Cons.prems by (intro exI [of _ "[]"] exI [of _ "c # x"]) (simp add: acc_number json_digits_def json_exp_def)
  qed
qed

lemma zero_sound: "scan_acc F_0 ps x \<Longrightarrow> \<exists>f e w. x = f @ e @ w \<and> json_frac f \<and> json_exp e \<and> scan_acc F_EndValue ps w"
proof (cases x)
  case Nil
  then show "scan_acc F_0 ps x \<Longrightarrow> ?thesis" by (intro exI [of _ "[]"]) (simp add: acc_Nil wf_state_def json_frac_def json_exp_def)
next
  case (Cons c y)
  assume a: "scan_acc F_0 ps x"
  consider "c = 0x2E" | "c = 0x65 \<or> c = 0x45" | "c \<noteq> 0x2E" "c \<noteq> 0x65" "c \<noteq> 0x45" by blast
  then show ?thesis
  proof cases
    case 1
    then have "scan_acc F_Dot ps y" using a Cons by (simp add: acc_number)
    then obtain d z where y: "y = d # z" "is_0_9 d" "scan_acc F_Dot0 ps z"
      using acc_not_Nil [of F_Dot ps] by (cases y) (auto simp: wf_state_def acc_number)
    obtain ds e w where "z = ds @ e @ w" "json_digits ds" "json_exp e" "scan_acc F_EndValue ps w" using dot0_sound [OF y(3)] by blast
    then show ?thesis using 1 y Cons by (intro exI [of _ "c # d # ds"] exI [of _ e] exI [of _ w]) (simp add: json_frac_def json_digits_def)
  next
    case 2
    then have "scan_acc F_E ps y" using a Cons by (auto simp: acc_number)
    from exp_sound [OF this 2] obtain e w where "c # y = e @ w" "json_exp e" "scan_acc F_EndValue ps w" by blast
    then show ?thesis using Cons by (intro exI [of _ "[]"] exI [of _ e] exI [of _ w]) (simp add: json_frac_def)
  next
    case 3
    then show ?thesis using a Cons by (intro exI [of _ "[]"] exI [of _ x]) (simp add: acc_number json_frac_def json_exp_def)
  qed
qed

lemma one_sound: "scan_acc F_1 ps x \<Longrightarrow> \<exists>ds f e w. x = ds @ f @ e @ w \<and> json_digits ds \<and> json_frac f \<and> json_exp e \<and> scan_acc F_EndValue ps w"
proof (induction x)
  case Nil
  then show ?case by (intro exI [of _ "[]"]) (simp add: acc_Nil wf_state_def json_digits_def json_frac_def json_exp_def)
next
  case (Cons c x)
  show ?case
  proof (cases "is_0_9 c")
    case True
    then obtain ds f e w where "x = ds @ f @ e @ w" "json_digits ds" "json_frac f" "json_exp e" "scan_acc F_EndValue ps w"
      using Cons by (auto simp: acc_number)
    then show ?thesis using True by (intro exI [of _ "c # ds"] exI [of _ f] exI [of _ e] exI [of _ w]) (simp add: json_digits_def)
  next
    case False
    then have "scan_acc F_0 ps (c # x)" using Cons.prems by (simp add: acc_number(2))
    from zero_sound [OF this] obtain f e w where "c # x = f @ e @ w" "json_frac f" "json_exp e" "scan_acc F_EndValue ps w" by blast
    then show ?thesis by (intro exI [of _ "[]"] exI [of _ f] exI [of _ e] exI [of _ w]) (simp add: json_digits_def)
  qed
qed

lemma ws_Cons: "isSpace c \<Longrightarrow> json_ws u \<Longrightarrow> json_ws (c # u)"
  by (simp add: json_ws_def)

lemma ws_Nil: "json_ws []"
  by (simp add: json_ws_def)

text \<open>Leading space can be taken off in every state that skips it.\<close>

lemma split_space:
  obtains u c w where "x = u @ c # w" "json_ws u" "\<not> isSpace c" | "json_ws x"
proof -
  define u where "u = takeWhile isSpace x"
  have u: "json_ws u" "x = u @ dropWhile isSpace x"
    by (simp_all add: u_def json_ws_def list_all_iff) (meson set_takeWhileD)
  show thesis
  proof (cases "dropWhile isSpace x")
    case Nil
    then show thesis using that(2) u by (metis append_Nil2)
  next
    case (Cons c w)
    then have "\<not> isSpace c" by (metis dropWhile_eq_Cons_conv)
    then show thesis using that(1) u Cons by metis
  qed
qed

lemma acc_ws_only:
  assumes "json_ws x"
  shows "\<not> scan_acc F_BeginValue ps x" "\<not> scan_acc F_BeginString ps x" "\<not> scan_acc F_EndValue (ps @ [p]) x"
    "\<not> scan_acc F_BeginStringOrEmpty (ps @ [parseObjectKey]) x" "\<not> scan_acc F_BeginValueOrEmpty (ps @ [parseArrayValue]) x"
  using acc_space [OF assms, where w = "[]"] acc_not_Nil [of F_BeginValue ps] acc_not_Nil [of F_BeginString ps]
    acc_not_Nil [of F_BeginStringOrEmpty "ps @ [parseObjectKey]"] acc_not_Nil [of F_BeginValueOrEmpty "ps @ [parseArrayValue]"] acc_EndValue_Nil
  by (auto simp: wf_state_def)

lemma EndValue_split:
  assumes "scan_acc F_EndValue (ps @ [p]) x"
  obtains u c w where "x = u @ c # w" "json_ws u" "\<not> isSpace c" "scan_acc F_EndValue (ps @ [p]) (c # w)"
  using split_space [of x] assms acc_ws_only(3) acc_space(3) by metis

lemma literal_sound:
  assumes "scan_acc F_BeginValue ps (c # y)" "\<not> isSpace c" "c \<noteq> 0x7B" "c \<noteq> 0x5B"
  shows "\<exists>v w. c # y = v @ w \<and> json_value 0 v \<and> scan_acc F_EndValue ps w"
proof -
  have num: "\<exists>v w. c # y = v @ w \<and> json_value 0 v \<and> scan_acc F_EndValue ps w"
    if "c # y = sg @ i @ f @ e @ w" "sg = [] \<or> sg = [0x2D]" "json_int i" "json_frac f" "json_exp e" "scan_acc F_EndValue ps w" for sg i f e w
    using that value_number [of "sg @ i @ f @ e"] by (intro exI [of _ "sg @ i @ f @ e"] exI [of _ w]) (auto simp: json_number_def)
  consider "c = 0x22" "scan_acc F_InString ps y" | "c = 0x2D" "scan_acc F_Neg ps y" | "c = 0x30" "scan_acc F_0 ps y" | "c = 0x74" "scan_acc F_T ps y"
    | "c = 0x66" "scan_acc F_F ps y" | "c = 0x6E" "scan_acc F_N ps y" | "is_1_9 c" "scan_acc F_1 ps y"
    using assms by (auto simp: acc_BeginValue split: if_splits)
  then show ?thesis
  proof cases
    case 1
    from chars_sound [OF 1(2)] obtain k w where "y = k @ w" "json_chars k" "scan_acc F_EndValue ps w" by blast
    then show ?thesis using 1 value_string [of k] by (intro exI [of _ "c # k"] exI [of _ w]) simp
  next
    case 2
    then obtain d z where y: "y = d # z" using acc_not_Nil [of F_Neg ps] by (cases y) (auto simp: wf_state_def)
    show ?thesis
    proof (cases "d = 0x30")
      case True
      then obtain f e w where "z = f @ e @ w" "json_frac f" "json_exp e" "scan_acc F_EndValue ps w"
        using zero_sound [of ps z] 2 y by (auto simp: acc_number)
      then show ?thesis using num [of "[c]" "[d]" f e w] 2 y True by (simp add: json_int_def)
    next
      case False
      then obtain ds f e w where "is_1_9 d" "z = ds @ f @ e @ w" "json_digits ds" "json_frac f" "json_exp e" "scan_acc F_EndValue ps w"
        using one_sound [of ps z] 2 y by (auto simp: acc_number)
      then show ?thesis using num [of "[c]" "d # ds" f e w] 2 y by (simp add: json_int_def)
    qed
  next
    case 3
    from zero_sound [OF 3(2)] obtain f e w where "y = f @ e @ w" "json_frac f" "json_exp e" "scan_acc F_EndValue ps w" by blast
    then show ?thesis using num [of "[]" "[c]" f e w] 3 by (simp add: json_int_def)
  next
    case 4
    then obtain w where "y = 0x72 # 0x75 # 0x65 # w" "scan_acc F_EndValue ps w"
      using acc_not_Nil [of F_T ps] acc_not_Nil [of F_Tr ps] acc_not_Nil [of F_Tru ps]
      by (cases y; cases "tl y"; cases "tl (tl y)") (auto simp: wf_state_def acc_literal)
    then show ?thesis using 4 value_true by (intro exI [of _ "[0x74, 0x72, 0x75, 0x65]"] exI [of _ w]) simp
  next
    case 5
    then obtain w where "y = 0x61 # 0x6C # 0x73 # 0x65 # w" "scan_acc F_EndValue ps w"
      using acc_not_Nil [of F_F ps] acc_not_Nil [of F_Fa ps] acc_not_Nil [of F_Fal ps] acc_not_Nil [of F_Fals ps]
      by (cases y; cases "tl y"; cases "tl (tl y)"; cases "tl (tl (tl y))") (auto simp: wf_state_def acc_literal)
    then show ?thesis using 5 value_false by (intro exI [of _ "[0x66, 0x61, 0x6C, 0x73, 0x65]"] exI [of _ w]) simp
  next
    case 6
    then obtain w where "y = 0x75 # 0x6C # 0x6C # w" "scan_acc F_EndValue ps w"
      using acc_not_Nil [of F_N ps] acc_not_Nil [of F_Nu ps] acc_not_Nil [of F_Nul ps]
      by (cases y; cases "tl y"; cases "tl (tl y)") (auto simp: wf_state_def acc_literal)
    then show ?thesis using 6 value_null by (intro exI [of _ "[0x6E, 0x75, 0x6C, 0x6C]"] exI [of _ w]) simp
  next
    case 7
    from one_sound [OF 7(2)] obtain ds f e w where "y = ds @ f @ e @ w" "json_digits ds" "json_frac f" "json_exp e" "scan_acc F_EndValue ps w" by blast
    then show ?thesis using num [of "[]" "c # ds" f e w] 7 by (simp add: json_int_def)
  qed
qed

definition value_split :: "parse_state list \<Rightarrow> bytes \<Rightarrow> bool" where
  "value_split ps x \<longleftrightarrow> (\<exists>u v w d. x = u @ v @ w \<and> json_ws u \<and> json_value d v \<and> length ps + d \<le> maxNestingDepth \<and> scan_acc F_EndValue ps w)"

definition elements_split :: "parse_state list \<Rightarrow> bytes \<Rightarrow> bool" where
  "elements_split ps x \<longleftrightarrow> (\<exists>es w d. x = es @ 0x5D # w \<and> json_elements d es \<and> length ps + Suc d \<le> maxNestingDepth \<and> scan_acc F_EndValue ps w)"

definition members_split :: "parse_state list \<Rightarrow> bytes \<Rightarrow> bool" where
  "members_split ps x \<longleftrightarrow> (\<exists>ms w d. x = ms @ 0x7D # w \<and> json_members d ms \<and> length ps + Suc d \<le> maxNestingDepth \<and> scan_acc F_EndValue ps w)"

lemma elements_sound:
  assumes "value_split (ps @ [parseArrayValue]) x"
    and IH: "\<And>y. length y < length x \<Longrightarrow> scan_acc F_BeginValue (ps @ [parseArrayValue]) y \<Longrightarrow> elements_split ps y"
  shows "elements_split ps x"
proof -
  obtain u v w d where x: "x = u @ v @ w" "json_ws u" "json_value d v" "length ps + Suc d \<le> maxNestingDepth"
     "scan_acc F_EndValue (ps @ [parseArrayValue]) w" using assms(1) by (auto simp: value_split_def)
  obtain u' c y where w: "w = u' @ c # y" "json_ws u'" "\<not> isSpace c" "scan_acc F_EndValue (ps @ [parseArrayValue]) (c # y)"
    using EndValue_split [OF x(5)] by blast
  consider "c = 0x2C" "scan_acc F_BeginValue (ps @ [parseArrayValue]) y" | "c = 0x5D" "scan_acc F_EndValue ps y"
    using w(3,4) by (auto simp: acc_EndValue_Cons)
  then show ?thesis
  proof cases
    case 1
    obtain es r e where "y = es @ 0x5D # r" "json_elements e es" "length ps + Suc e \<le> maxNestingDepth" "scan_acc F_EndValue ps r"
      using IH [OF _ 1(2)] x(1) w(1) by (auto simp: elements_split_def)
    then show ?thesis unfolding elements_split_def using 1 x w elements_more [OF x(2,3) w(2)]
      by (intro exI [of _ "u @ v @ u' @ c # es"] exI [of _ r] exI [of _ "max d e"]) auto
  next
    case 2
    then show ?thesis unfolding elements_split_def using x w elements_one [OF x(2,3) w(2)]
      by (intro exI [of _ "u @ v @ u'"] exI [of _ y] exI [of _ d]) auto
  qed
qed

lemma members_sound:
  assumes "scan_acc F_BeginString (ps @ [parseObjectKey]) x"
    and V: "\<And>y. length y < length x \<Longrightarrow> scan_acc F_BeginValue (ps @ [parseObjectValue]) y \<Longrightarrow> value_split (ps @ [parseObjectValue]) y"
    and IH: "\<And>y. length y < length x \<Longrightarrow> scan_acc F_BeginString (ps @ [parseObjectKey]) y \<Longrightarrow> members_split ps y"
  shows "members_split ps x"
proof -
  obtain u c y where x: "x = u @ c # y" "json_ws u" "\<not> isSpace c"
    using split_space [of x] assms(1) acc_ws_only(2) by metis
  have c: "c = 0x22" "scan_acc F_InString (ps @ [parseObjectKey]) y" using assms(1) x by (simp_all add: acc_space acc_BeginString)
  obtain k w where k: "y = k @ w" "json_chars k" "scan_acc F_EndValue (ps @ [parseObjectKey]) w" using chars_sound [OF c(2)] by blast
  obtain u1 c1 w1 where w: "w = u1 @ c1 # w1" "json_ws u1" "\<not> isSpace c1" "scan_acc F_EndValue (ps @ [parseObjectKey]) (c1 # w1)"
    using EndValue_split [OF k(3)] by blast
  have c1: "c1 = 0x3A" "scan_acc F_BeginValue (ps @ [parseObjectValue]) w1" using w(3,4) by (simp_all add: acc_EndValue_Cons)
  obtain u2 v r d where v: "w1 = u2 @ v @ r" "json_ws u2" "json_value d v" "length ps + Suc d \<le> maxNestingDepth"
     "scan_acc F_EndValue (ps @ [parseObjectValue]) r"
    using V [OF _ c1(2)] x k w by (auto simp: value_split_def)
  obtain u3 c3 r3 where r: "r = u3 @ c3 # r3" "json_ws u3" "\<not> isSpace c3" "scan_acc F_EndValue (ps @ [parseObjectValue]) (c3 # r3)"
    using EndValue_split [OF v(5)] by blast
  note eqs = x(1) k(1) w(1) v(1) r(1) c(1) c1(1)
  consider "c3 = 0x2C" "scan_acc F_BeginString (ps @ [parseObjectKey]) r3" | "c3 = 0x7D" "scan_acc F_EndValue ps r3"
    using r(3,4) by (auto simp: acc_EndValue_Cons)
  then show ?thesis
  proof cases
    case 1
    obtain ms q e where "r3 = ms @ 0x7D # q" "json_members e ms" "length ps + Suc e \<le> maxNestingDepth" "scan_acc F_EndValue ps q"
      using IH [OF _ 1(2)] eqs by (auto simp: members_split_def)
    then show ?thesis unfolding members_split_def using 1 eqs v(4) members_more [OF x(2) k(2) w(2) v(2,3) r(2)]
      by (intro exI [of _ "u @ 0x22 # k @ u1 @ 0x3A # u2 @ v @ u3 @ 0x2C # ms"] exI [of _ q] exI [of _ "max d e"]) auto
  next
    case 2
    then show ?thesis unfolding members_split_def using eqs v(4) members_one [OF x(2) k(2) w(2) v(2,3) r(2)]
      by (intro exI [of _ "u @ 0x22 # k @ u1 @ 0x3A # u2 @ v @ u3"] exI [of _ r3] exI [of _ d]) auto
  qed
qed

lemma value_of_split:
  assumes "elements_split ps y"
  shows "\<exists>v w d. 0x5B # y = v @ w \<and> json_value d v \<and> length ps + d \<le> maxNestingDepth \<and> scan_acc F_EndValue ps w"
  using assms value_array unfolding elements_split_def by (metis append_Cons append_assoc append_Nil)

lemma value_of_members:
  assumes "members_split ps y"
  shows "\<exists>v w d. 0x7B # y = v @ w \<and> json_value d v \<and> length ps + d \<le> maxNestingDepth \<and> scan_acc F_EndValue ps w"
  using assms value_object unfolding members_split_def by (metis append_Cons append_assoc append_Nil)

lemma BeginValue_sound:
  assumes "scan_acc F_BeginValue ps x" "length ps \<le> maxNestingDepth"
    and E: "\<And>y. length y < length x \<Longrightarrow> length ps < maxNestingDepth \<Longrightarrow> scan_acc F_BeginValue (ps @ [parseArrayValue]) y \<Longrightarrow> elements_split ps y"
    and M: "\<And>y. length y < length x \<Longrightarrow> length ps < maxNestingDepth \<Longrightarrow> scan_acc F_BeginString (ps @ [parseObjectKey]) y \<Longrightarrow> members_split ps y"
  shows "value_split ps x"
proof -
  obtain u c y where x: "x = u @ c # y" "json_ws u" "\<not> isSpace c"
    using split_space [of x] assms(1) acc_ws_only(1) by metis
  have a: "scan_acc F_BeginValue ps (c # y)" using assms(1) x by (simp add: acc_space)
  have "\<exists>v w d. c # y = v @ w \<and> json_value d v \<and> length ps + d \<le> maxNestingDepth \<and> scan_acc F_EndValue ps w"
  proof -
    consider "c = 0x5B" | "c = 0x7B" | "c \<noteq> 0x7B" "c \<noteq> 0x5B" by blast
    then show ?thesis
    proof cases
      case 1
      then have b: "length ps < maxNestingDepth" "scan_acc F_BeginValueOrEmpty (ps @ [parseArrayValue]) y"
        using a x(3) by (simp_all add: acc_BeginValue)
      obtain u' c' z where y: "y = u' @ c' # z" "json_ws u'" "\<not> isSpace c'"
        using split_space [of y] b(2) acc_ws_only(5) by metis
      show ?thesis
      proof (cases "c' = 0x5D")
        case True
        then have "scan_acc F_EndValue ps z" using b y by (simp add: acc_space acc_BeginValueOrEmpty)
        then show ?thesis using 1 True b y value_array0 [OF y(2)]
          by (intro exI [of _ "c # u' @ [c']"] exI [of _ z] exI [of _ 1]) simp
      next
        case False
        then have "scan_acc F_BeginValue (ps @ [parseArrayValue]) y" using b y by (simp add: acc_space acc_BeginValueOrEmpty)
        then show ?thesis using value_of_split E [OF _ b(1)] 1 x(1) by simp
      qed
    next
      case 2
      then have b: "length ps < maxNestingDepth" "scan_acc F_BeginStringOrEmpty (ps @ [parseObjectKey]) y"
        using a x(3) by (simp_all add: acc_BeginValue)
      obtain u' c' z where y: "y = u' @ c' # z" "json_ws u'" "\<not> isSpace c'"
        using split_space [of y] b(2) acc_ws_only(4) by metis
      show ?thesis
      proof (cases "c' = 0x7D")
        case True
        then have "scan_acc F_EndValue ps z" using b y by (simp add: acc_space acc_BeginStringOrEmpty)
        then show ?thesis using 2 True b y value_object0 [OF y(2)]
          by (intro exI [of _ "c # u' @ [c']"] exI [of _ z] exI [of _ 1]) simp
      next
        case False
        then have "scan_acc F_BeginString (ps @ [parseObjectKey]) y" using b y by (simp add: acc_space acc_BeginStringOrEmpty)
        then show ?thesis using value_of_members M [OF _ b(1)] 2 x(1) by simp
      qed
    next
      case 3
      from literal_sound [OF a x(3) 3] assms(2) show ?thesis by (metis add_0_right)
    qed
  qed
  then show ?thesis using x unfolding value_split_def by metis
qed

lemma json_sound:
  "(length ps \<le> maxNestingDepth \<longrightarrow> scan_acc F_BeginValue ps x \<longrightarrow> value_split ps x) \<and>
   (length ps < maxNestingDepth \<longrightarrow> scan_acc F_BeginValue (ps @ [parseArrayValue]) x \<longrightarrow> elements_split ps x) \<and>
   (length ps < maxNestingDepth \<longrightarrow> scan_acc F_BeginString (ps @ [parseObjectKey]) x \<longrightarrow> members_split ps x)"
proof (induction "length x" arbitrary: x ps rule: less_induct)
  case less
  have V: "value_split qs x" if "length qs \<le> maxNestingDepth" "scan_acc F_BeginValue qs x" for qs
    using BeginValue_sound [OF that(2,1)] less by blast
  have E: "elements_split ps x" if "length ps < maxNestingDepth" "scan_acc F_BeginValue (ps @ [parseArrayValue]) x"
    using elements_sound [OF V [OF _ that(2)]] less that(1) by auto
  have M: "members_split ps x" if "length ps < maxNestingDepth" "scan_acc F_BeginString (ps @ [parseObjectKey]) x"
    using members_sound [OF that(2)] less [of _ "ps @ [parseObjectValue]"] less [of _ ps] that(1) by auto
  show ?case using V E M by blast
qed

lemma Valid_accepts: "\<exists>s. json_Valid pooled data = Inr (scan_acc F_BeginValue [] data, s)"
proof -
  let ?s = "scan_reset (newScanner pooled)"
  have a: "scan_at F_BeginValue [] ?s" "wf_state F_BeginValue []" by (simp_all add: scan_at_def scan_reset_def wf_state_def)
  have "scan_inv ?s" by (simp add: scan_inv_def scan_reset_def scan_at_def wf_state_def)
  then obtain s err where r: "checkValid_loop data ?s = Inr (s, err)" using checkValid_loop_total by (metis surj_pair)
  then have "scan_acc F_BeginValue [] data \<longleftrightarrow> err = None" using accepts_at [OF a, of data] by (simp add: scan_accepts_def)
  then show ?thesis using r by (simp add: json_Valid_def checkValid_def)
qed

text \<open>
  C28: \<open>Valid\<close> decides the JSON grammar: whatever scanner the pool provides, it returns, and reports true exactly for a
  value of the grammar, nested at most \<open>maxNestingDepth\<close> deep, with white space around it.
\<close>

theorem json_Valid_iff_grammar:
  "\<exists>scan. json_Valid pooled data =
     Inr (\<exists>u v w d. data = u @ v @ w \<and> json_ws u \<and> json_value d v \<and> json_ws w \<and> d \<le> maxNestingDepth, scan)"
proof -
  have "scan_acc F_BeginValue [] data \<longleftrightarrow> (\<exists>u v w d. data = u @ v @ w \<and> json_ws u \<and> json_value d v \<and> json_ws w \<and> d \<le> maxNestingDepth)"
  proof
    assume "scan_acc F_BeginValue [] data"
    then have "value_split [] data" using json_sound [of "[]" data] by simp
    then show "\<exists>u v w d. data = u @ v @ w \<and> json_ws u \<and> json_value d v \<and> json_ws w \<and> d \<le> maxNestingDepth"
      by (auto simp: value_split_def acc_EndValue_empty json_ws_def)
  next
    assume "\<exists>u v w d. data = u @ v @ w \<and> json_ws u \<and> json_value d v \<and> json_ws w \<and> d \<le> maxNestingDepth"
    then obtain u v w d where "data = u @ v @ w" "json_ws u" "json_value d v" "json_ws w" "d \<le> maxNestingDepth" by blast
    then show "scan_acc F_BeginValue [] data"
      using json_complete(1) [of d v "[]" w] by (simp add: acc_space acc_EndValue_empty json_ws_def)
  qed
  then show ?thesis using Valid_accepts [of pooled data] by simp
qed

end
