(* ===== verification/Path.thy ===== *)
theory Path
  imports Go_Prelude
begin

text \<open>
  Package \<open>path\<close>, \<open>src/path/path.go\<close>. A path is its bytes. \<open>Clean\<close> writes into a \<open>lazybuf\<close>, which keeps the input
  string until the output diverges from it. Every index and slice expression is bounds-checked, and the conditions that guard
  them are evaluated from left to right, so that a read out of range is a panic of the model.
  \<open>bytealg.LastIndexByteString\<close> is not part of this source tree: it is a parameter, and the locale
  \<open>last_index_byte\<close> states what is documented of it.
\<close>

section \<open>The package\<close>

definition path_slash :: u8 where "path_slash = 0x2f"

definition path_dot :: u8 where "path_dot = 0x2e"

text \<open>Index and slice expressions of a string, and the operators \<open>!\<close>, \<open>&&\<close> and \<open>||\<close> on conditions that may panic.\<close>

definition str_at :: "bytes \<Rightarrow> int \<Rightarrow> panic + u8" where
  "str_at s i = (if 0 \<le> i \<and> i < int (length s) then Inr (s ! nat i) else Inl IndexOutOfRange)"

definition str_slice :: "bytes \<Rightarrow> int \<Rightarrow> int \<Rightarrow> panic + bytes" where
  "str_slice s lo hi =
     (if 0 \<le> lo \<and> lo \<le> hi \<and> hi \<le> int (length s) then Inr (take (nat (hi - lo)) (drop (nat lo) s)) else Inl SliceBounds)"

definition byte_is :: "bytes \<Rightarrow> int \<Rightarrow> u8 \<Rightarrow> panic + bool" where
  "byte_is s i c = (case str_at s i of Inl e \<Rightarrow> Inl e | Inr b \<Rightarrow> Inr (b = c))"

fun go_not :: "panic + bool \<Rightarrow> panic + bool" where
  "go_not (Inl e) = Inl e"
| "go_not (Inr b) = Inr (\<not> b)"

fun go_and :: "panic + bool \<Rightarrow> panic + bool \<Rightarrow> panic + bool" where
  "go_and (Inl e) b = Inl e"
| "go_and (Inr a) b = (if a then b else Inr False)"

fun go_or :: "panic + bool \<Rightarrow> panic + bool \<Rightarrow> panic + bool" where
  "go_or (Inl e) b = Inl e"
| "go_or (Inr a) b = (if a then Inr True else b)"

lemma str_at_nat: "str_at s (int i) = (if i < length s then Inr (s ! i) else Inl IndexOutOfRange)"
  by (simp add: str_at_def)

lemma byte_is_nat: "byte_is s (int i) c = (if i < length s then Inr (s ! i = c) else Inl IndexOutOfRange)"
  by (simp add: byte_is_def str_at_nat)

record lazybuf =
  lb_s :: bytes
  lb_buf :: "bytes option"
  lb_w :: nat

definition lazybuf_index :: "lazybuf \<Rightarrow> nat \<Rightarrow> panic + u8" where
  "lazybuf_index b i =
     (let a = (case lb_buf b of Some buf \<Rightarrow> buf | None \<Rightarrow> lb_s b)
      in if i < length a then Inr (a ! i) else Inl IndexOutOfRange)"

definition lazybuf_write :: "lazybuf \<Rightarrow> bytes \<Rightarrow> u8 \<Rightarrow> panic + lazybuf" where
  "lazybuf_write b buf c =
     (case slice_put buf (lb_w b) c of Inl e \<Rightarrow> Inl e
      | Inr buf \<Rightarrow> Inr (b\<lparr>lb_buf := Some buf, lb_w := lb_w b + 1\<rparr>))"

definition lazybuf_append :: "lazybuf \<Rightarrow> u8 \<Rightarrow> panic + lazybuf" where
  "lazybuf_append b c =
     (case lb_buf b of
        None \<Rightarrow>
          (case go_and (Inr (lb_w b < length (lb_s b))) (byte_is (lb_s b) (int (lb_w b)) c) of Inl e \<Rightarrow> Inl e
           | Inr same \<Rightarrow>
               if same then Inr (b\<lparr>lb_w := lb_w b + 1\<rparr>)
               else
                 (case str_slice (lb_s b) 0 (int (lb_w b)) of Inl e \<Rightarrow> Inl e
                  | Inr written \<Rightarrow> lazybuf_write b (go_copy (replicate (length (lb_s b)) 0) written) c))
      | Some buf \<Rightarrow> lazybuf_write b buf c)"

definition lazybuf_string :: "lazybuf \<Rightarrow> panic + bytes" where
  "lazybuf_string b =
     (let a = (case lb_buf b of None \<Rightarrow> lb_s b | Some buf \<Rightarrow> buf)
      in if lb_w b \<le> length a then Inr (take (lb_w b) a) else Inl SliceBounds)"

text \<open>\<open>for out.w > dotdot && out.index(out.w) != '/' { out.w-- }\<close>\<close>

function Clean_backtrack :: "lazybuf \<Rightarrow> nat \<Rightarrow> panic + lazybuf" where
  "Clean_backtrack out dotdot =
     (if lb_w out > dotdot then
        (case lazybuf_index out (lb_w out) of Inl e \<Rightarrow> Inl e
         | Inr c \<Rightarrow> if c \<noteq> path_slash then Clean_backtrack (out\<lparr>lb_w := lb_w out - 1\<rparr>) dotdot else Inr out)
      else Inr out)"
  by auto
termination by (relation "measure (\<lambda>(out, d). lb_w out)") simp_all

declare Clean_backtrack.simps [simp del]

text \<open>\<open>for ; r < n && path[r] != '/'; r++ { out.append(path[r]) }\<close>\<close>

function Clean_copy :: "bytes \<Rightarrow> lazybuf \<Rightarrow> nat \<Rightarrow> panic + lazybuf \<times> nat" where
  "Clean_copy path out r =
     (case go_and (Inr (r < length path)) (go_not (byte_is path (int r) path_slash)) of Inl e \<Rightarrow> Inl e
      | Inr again \<Rightarrow>
          if again then
            (case str_at path (int r) of Inl e \<Rightarrow> Inl e
             | Inr c \<Rightarrow>
                 (case lazybuf_append out c of Inl e \<Rightarrow> Inl e | Inr out \<Rightarrow> Clean_copy path out (r + 1)))
          else Inr (out, r))"
  by auto
termination
  by (relation "measure (\<lambda>(path, out, r). length path - r)") (auto simp: byte_is_nat split: if_splits)

declare Clean_copy.simps [simp del]

lemma Clean_copy_eq:
  "Clean_copy path out r =
     (if r < length path \<and> path ! r \<noteq> path_slash then
        (case lazybuf_append out (path ! r) of Inl e \<Rightarrow> Inl e | Inr out \<Rightarrow> Clean_copy path out (r + 1))
      else Inr (out, r))"
  by (subst Clean_copy.simps) (simp add: byte_is_nat str_at_nat)

lemma Clean_copy_advances: "Clean_copy path out r = Inr (out', r') \<Longrightarrow> r \<le> r'"
proof (induction "length path - r" arbitrary: out r)
  case (Suc n)
  have "Clean_copy path out r = (if path ! r \<noteq> path_slash then
      (case lazybuf_append out (path ! r) of Inl e \<Rightarrow> Inl e | Inr out \<Rightarrow> Clean_copy path out (r + 1)) else Inr (out, r))"
    using Suc.hyps(2) by (subst Clean_copy_eq) (cases "r < length path"; simp)
  moreover have "n = length path - (r + 1)" using Suc.hyps(2) by simp
  ultimately show ?case using Suc.hyps(1) [of "r + 1"] Suc.prems by (fastforce split: if_splits sum.splits)
qed (simp add: Clean_copy_eq)

lemma Clean_copy_progress:
  "r < length path \<Longrightarrow> path ! r \<noteq> path_slash \<Longrightarrow> Clean_copy path out r = Inr (out', r') \<Longrightarrow> r < r'"
  by (subst (asm) Clean_copy_eq) (auto split: sum.splits dest: Clean_copy_advances)

text \<open>The case of a \<open>..\<close> element: the buffer and \<open>dotdot\<close>.\<close>

definition Clean_dotdot :: "bool \<Rightarrow> lazybuf \<Rightarrow> nat \<Rightarrow> panic + lazybuf \<times> nat" where
  "Clean_dotdot rooted out dotdot =
     (if lb_w out > dotdot then
        (case Clean_backtrack (out\<lparr>lb_w := lb_w out - 1\<rparr>) dotdot of Inl e \<Rightarrow> Inl e | Inr out \<Rightarrow> Inr (out, dotdot))
      else if \<not> rooted then
        (case (if lb_w out > 0 then lazybuf_append out path_slash else Inr out) of Inl e \<Rightarrow> Inl e
         | Inr out \<Rightarrow>
             (case lazybuf_append out path_dot of Inl e \<Rightarrow> Inl e
              | Inr out \<Rightarrow>
                  (case lazybuf_append out path_dot of Inl e \<Rightarrow> Inl e
                   | Inr out \<Rightarrow> Inr (out, lb_w out))))
      else Inr (out, dotdot))"

definition Clean_slash :: "bool \<Rightarrow> lazybuf \<Rightarrow> panic + lazybuf" where
  "Clean_slash rooted out =
     (if rooted \<and> lb_w out \<noteq> 1 \<or> \<not> rooted \<and> lb_w out \<noteq> 0 then lazybuf_append out path_slash else Inr out)"

definition Clean_is_dot :: "bytes \<Rightarrow> nat \<Rightarrow> panic + bool" where
  "Clean_is_dot path r =
     go_and (byte_is path (int r) path_dot)
       (go_or (Inr (r + 1 = length path)) (byte_is path (int (r + 1)) path_slash))"

definition Clean_is_dotdot :: "bytes \<Rightarrow> nat \<Rightarrow> panic + bool" where
  "Clean_is_dotdot path r =
     go_and (byte_is path (int r) path_dot)
       (go_and (byte_is path (int (r + 1)) path_dot)
         (go_or (Inr (r + 2 = length path)) (byte_is path (int (r + 2)) path_slash)))"

function Clean_loop :: "bytes \<Rightarrow> bool \<Rightarrow> lazybuf \<Rightarrow> nat \<Rightarrow> nat \<Rightarrow> panic + lazybuf" where
  "Clean_loop path rooted out r dotdot =
     (let n = length path in
      if r < n then
        (case byte_is path (int r) path_slash of Inl e \<Rightarrow> Inl e
         | Inr slash \<Rightarrow>
             if slash then Clean_loop path rooted out (r + 1) dotdot
             else
               (case Clean_is_dot path r of Inl e \<Rightarrow> Inl e
                | Inr dot \<Rightarrow>
                    if dot then Clean_loop path rooted out (r + 1) dotdot
                    else
                      (case Clean_is_dotdot path r of Inl e \<Rightarrow> Inl e
                       | Inr dots \<Rightarrow>
                           if dots then
                             (case Clean_dotdot rooted out dotdot of Inl e \<Rightarrow> Inl e
                              | Inr (out, dotdot) \<Rightarrow> Clean_loop path rooted out (r + 2) dotdot)
                           else
                             (case Clean_slash rooted out of Inl e \<Rightarrow> Inl e
                              | Inr out \<Rightarrow>
                                  (case Clean_copy path out r of Inl e \<Rightarrow> Inl e
                                   | Inr (out, r) \<Rightarrow> Clean_loop path rooted out r dotdot)))))
      else Inr out)"
  by auto
termination
  by (relation "measure (\<lambda>(path, rooted, out, r, d). length path - r)")
    (auto simp: byte_is_nat intro!: diff_less_mono2 intro: Clean_copy_progress)

declare Clean_loop.simps [simp del]

definition Clean :: "bytes \<Rightarrow> panic + bytes" where
  "Clean path =
     (if path = [] then Inr [path_dot]
      else
        (case byte_is path 0 path_slash of Inl e \<Rightarrow> Inl e
         | Inr rooted \<Rightarrow>
             (let out = \<lparr>lb_s = path, lb_buf = None, lb_w = 0\<rparr>
              in case (if rooted then lazybuf_append out path_slash else Inr out) of Inl e \<Rightarrow> Inl e
                 | Inr out \<Rightarrow>
                     (let r = (if rooted then 1 else 0); dotdot = (if rooted then 1 else 0)
                      in case Clean_loop path rooted out r dotdot of Inl e \<Rightarrow> Inl e
                         | Inr out \<Rightarrow> if lb_w out = 0 then Inr [path_dot] else lazybuf_string out))))"

type_synonym last_index = "bytes \<Rightarrow> u8 \<Rightarrow> int"

definition path_Split :: "last_index \<Rightarrow> bytes \<Rightarrow> panic + bytes \<times> bytes" where
  "path_Split li path =
     (let i = li path path_slash
      in case str_slice path 0 (i + 1) of Inl e \<Rightarrow> Inl e
         | Inr dir \<Rightarrow>
             (case str_slice path (i + 1) (int (length path)) of Inl e \<Rightarrow> Inl e
              | Inr file \<Rightarrow> Inr (dir, file)))"

definition Join_buf :: "bytes list \<Rightarrow> bytes" where
  "Join_buf elem = foldl (\<lambda>buf e. if buf \<noteq> [] \<or> e \<noteq> [] then (if buf \<noteq> [] then buf @ [path_slash] else buf) @ e else buf) [] elem"

definition path_Join :: "bytes list \<Rightarrow> panic + bytes" where
  "path_Join elem = (if sum_list (map length elem) = 0 then Inr [] else Clean (Join_buf elem))"

function Ext_loop :: "bytes \<Rightarrow> int \<Rightarrow> panic + bytes" where
  "Ext_loop path i =
     (case go_and (Inr (i \<ge> 0)) (go_not (byte_is path i path_slash)) of Inl e \<Rightarrow> Inl e
      | Inr again \<Rightarrow>
          if again then
            (case byte_is path i path_dot of Inl e \<Rightarrow> Inl e
             | Inr dot \<Rightarrow> if dot then str_slice path i (int (length path)) else Ext_loop path (i - 1))
          else Inr [])"
  by auto
termination by (relation "measure (\<lambda>(path, i). nat (i + 1))") (auto split: if_splits)

declare Ext_loop.simps [simp del]

definition path_Ext :: "bytes \<Rightarrow> panic + bytes" where
  "path_Ext path = Ext_loop path (int (length path) - 1)"

lemma str_slice_shorter: "str_slice path 0 (int (length path) - 1) = Inr s \<Longrightarrow> length s < length path"
  by (cases path) (auto simp: str_slice_def split: if_splits)

function Base_strip :: "bytes \<Rightarrow> panic + bytes" where
  "Base_strip path =
     (case go_and (Inr (length path > 0)) (byte_is path (int (length path) - 1) path_slash) of Inl e \<Rightarrow> Inl e
      | Inr slash \<Rightarrow>
          if slash then
            (case str_slice path 0 (int (length path) - 1) of Inl e \<Rightarrow> Inl e | Inr path \<Rightarrow> Base_strip path)
          else Inr path)"
  by auto
termination by (relation "measure length") (auto dest: str_slice_shorter)

declare Base_strip.simps [simp del]

definition path_Base :: "last_index \<Rightarrow> bytes \<Rightarrow> panic + bytes" where
  "path_Base li path =
     (if path = [] then Inr [path_dot]
      else
        (case Base_strip path of Inl e \<Rightarrow> Inl e
         | Inr path \<Rightarrow>
             (let i = li path path_slash
              in case (if i \<ge> 0 then str_slice path (i + 1) (int (length path)) else Inr path) of Inl e \<Rightarrow> Inl e
                 | Inr path \<Rightarrow> if path = [] then Inr [path_slash] else Inr path)))"

definition path_IsAbs :: "bytes \<Rightarrow> panic + bool" where
  "path_IsAbs path = go_and (Inr (length path > 0)) (byte_is path 0 path_slash)"

definition path_Dir :: "last_index \<Rightarrow> bytes \<Rightarrow> panic + bytes" where
  "path_Dir li path = (case path_Split li path of Inl e \<Rightarrow> Inl e | Inr (dir, _) \<Rightarrow> Clean dir)"

section \<open>The buffer\<close>

text \<open>The bytes behind a buffer, and what has been written.\<close>

definition lb_raw :: "lazybuf \<Rightarrow> bytes" where
  "lb_raw b = (case lb_buf b of Some buf \<Rightarrow> buf | None \<Rightarrow> lb_s b)"

definition lb_text :: "lazybuf \<Rightarrow> bytes" where
  "lb_text b = take (lb_w b) (lb_raw b)"

definition lb_ok :: "bytes \<Rightarrow> lazybuf \<Rightarrow> bool" where
  "lb_ok path b \<longleftrightarrow> lb_s b = path \<and> length (lb_raw b) = length path \<and> lb_w b \<le> length path"

lemma lb_raw_w [simp]: "lb_raw (b\<lparr>lb_w := w\<rparr>) = lb_raw b"
  by (cases "lb_buf b") (simp_all add: lb_raw_def)

lemma lb_text_length: "lb_ok path b \<Longrightarrow> length (lb_text b) = lb_w b"
  by (simp add: lb_ok_def lb_text_def)

lemma lazybuf_append_ok:
  assumes "lb_ok path b" "lb_w b < length path"
  shows "\<exists>b'. lazybuf_append b c = Inr b' \<and> lb_ok path b' \<and> lb_text b' = lb_text b @ [c] \<and> lb_w b' = lb_w b + 1"
proof (cases "lb_buf b = None \<and> lb_s b ! lb_w b = c")
  case True
  then show ?thesis using assms
    by (auto simp: lazybuf_append_def byte_is_nat lb_ok_def lb_text_def lb_raw_def take_Suc_conv_app_nth)
next
  case False
  define buf where "buf = (case lb_buf b of Some buf \<Rightarrow> buf | None \<Rightarrow> go_copy (replicate (length (lb_s b)) 0) (take (lb_w b) (lb_s b)))"
  have buf: "length buf = length path" "take (lb_w b) buf = lb_text b"
    using assms by (auto simp: buf_def lb_ok_def lb_text_def lb_raw_def go_copy_def min_def split: option.split)
  have "lazybuf_append b c = Inr (b\<lparr>lb_buf := Some (buf[lb_w b := c]), lb_w := lb_w b + 1\<rparr>)"
    using False assms buf(1)
    by (auto simp: lazybuf_append_def lazybuf_write_def byte_is_nat str_slice_def lb_ok_def slice_put_def buf_def split: option.splits)
  moreover have "take (Suc (lb_w b)) (buf[lb_w b := c]) = lb_text b @ [c]"
    using assms(2) buf by (simp add: take_Suc_conv_app_nth)
  ultimately show ?thesis using assms buf by (auto simp: lb_ok_def lb_text_def lb_raw_def)
qed

text \<open>
  Backtracking over the last element: the written bytes end in \<open>y\<close>, without a slash, after a position where
  backtracking stops, and the position where \<open>y\<close> was is left.
\<close>

lemma Clean_backtrack_ok:
  assumes "lb_ok path b" "length x \<le> lb_w b" "lb_w b < length path"
    and "take (Suc (lb_w b)) (lb_raw b) = x @ y" "y \<noteq> []" "path_slash \<notin> set (tl y)" "dotdot \<le> length x"
    and "length x = dotdot \<or> hd y = path_slash"
  shows "Clean_backtrack b dotdot = Inr (b\<lparr>lb_w := length x\<rparr>)"
  using assms
proof (induction "lb_w b" arbitrary: b y)
  case 0
  then show ?case by (subst Clean_backtrack.simps) simp
next
  case (Suc w)
  have l: "length (x @ y) = Suc (Suc w)" using Suc.prems(1,3,4) Suc.hyps(2) by (auto simp: lb_ok_def dest: arg_cong [of _ _ length])
  have i: "lazybuf_index b (lb_w b) = Inr ((x @ y) ! Suc w)"
  proof -
    have "(x @ y) ! Suc w = lb_raw b ! Suc w" using Suc.prems(4) Suc.hyps(2) by (metis lessI nth_take)
    then show ?thesis using Suc.prems(1,3) Suc.hyps(2) by (simp add: lazybuf_index_def lb_ok_def lb_raw_def split: option.splits)
  qed
  show ?case
  proof (cases "length y = 1")
    case True
    then obtain a where y: "y = [a]" by (cases y) auto
    have x: "length x = Suc w" using l True by simp
    have "b\<lparr>lb_w := Suc w\<rparr> = b" using Suc.hyps(2) by simp
    moreover have "(x @ y) ! Suc w = a" using x y by (simp add: nth_append)
    ultimately show ?thesis using Suc.prems(8) i x y Suc.hyps(2)
      by (subst Clean_backtrack.simps) auto
  next
    case False
    then obtain z a where y: "y = z @ [a]" "z \<noteq> []" using Suc.prems(5) by (cases y rule: rev_cases) auto
    have w: "length x + length z = Suc w" "length x \<le> w" using l y by (simp_all, cases z, simp_all)
    have nl: "(x @ y) ! Suc w = a" unfolding y using w(1) nth_append_length [of "x @ z" a "[]"] by simp
    have "a \<noteq> path_slash" using Suc.prems(6) y by (cases z) auto
    then have step: "Clean_backtrack b dotdot = Clean_backtrack (b\<lparr>lb_w := w\<rparr>) dotdot"
      using i nl w(2) Suc.prems(7) by (subst Clean_backtrack.simps) (simp add: Suc.hyps(2) [symmetric])
    have "take (Suc w) (take (Suc (lb_w b)) (lb_raw b)) = x @ z" using w(1) unfolding Suc.prems(4) y by simp
    then have t: "take (Suc w) (lb_raw (b\<lparr>lb_w := w\<rparr>)) = x @ z" using Suc.hyps(2) by simp
    have "Clean_backtrack (b\<lparr>lb_w := w\<rparr>) dotdot = Inr (b\<lparr>lb_w := w\<rparr>\<lparr>lb_w := length x\<rparr>)"
    proof (rule Suc.hyps(1))
      show "path_slash \<notin> set (tl z)" "length x = dotdot \<or> hd z = path_slash" using Suc.prems(6,8) y by (cases z; simp)+
      show "lb_ok path (b\<lparr>lb_w := w\<rparr>)" "lb_w (b\<lparr>lb_w := w\<rparr>) < length path"
        using Suc.prems(1,3) Suc.hyps(2) by (simp_all add: lb_ok_def)
    qed (use Suc.prems(7) y w t in simp_all)
    then show ?thesis using step by simp
  qed
qed

lemma Clean_copy_ok:
  assumes "lb_ok path out" "lb_w out \<le> r" "r \<le> length path" "e = takeWhile (\<lambda>c. c \<noteq> path_slash) (drop r path)"
  shows "\<exists>out'. Clean_copy path out r = Inr (out', r + length e) \<and> lb_ok path out' \<and> lb_text out' = lb_text out @ e \<and>
    lb_w out' = lb_w out + length e"
  using assms
proof (induction "length path - r" arbitrary: out r e)
  case 0
  then show ?case by (subst Clean_copy_eq) simp
next
  case (Suc k)
  then have d: "drop r path = path ! r # drop (Suc r) path" by (simp add: Cons_nth_drop_Suc)
  show ?case
  proof (cases "path ! r = path_slash")
    case True
    then show ?thesis using Suc.prems d by (subst Clean_copy_eq) simp
  next
    case False
    have "lb_w out < length path" using Suc.hyps(2) Suc.prems(2) by simp
    then obtain out' where o: "lazybuf_append out (path ! r) = Inr out'" "lb_ok path out'" "lb_text out' = lb_text out @ [path ! r]"
      "lb_w out' = lb_w out + 1" using lazybuf_append_ok [OF Suc.prems(1)] by blast
    have "k = length path - Suc r" "lb_w out' \<le> Suc r" "Suc r \<le> length path" using Suc.hyps(2) Suc.prems(2) o(4) by simp_all
    from Suc.hyps(1) [OF this(1) o(2) this(2,3) refl] show ?thesis
      using False Suc.hyps(2) Suc.prems(4) o by (subst Clean_copy_eq) (auto simp: d)
  qed
qed

section \<open>The lexical specification\<close>

text \<open>A path that starts with a slash.\<close>

definition is_rooted :: "bytes \<Rightarrow> bool" where
  "is_rooted path \<longleftrightarrow> path \<noteq> [] \<and> hd path = path_slash"

text \<open>The non-empty elements between slashes.\<close>

function path_elems :: "bytes \<Rightarrow> bytes list" where
  "path_elems [] = []"
| "path_elems (c # cs) =
     (if c = path_slash then path_elems cs
      else takeWhile (\<lambda>c. c \<noteq> path_slash) (c # cs) # path_elems (dropWhile (\<lambda>c. c \<noteq> path_slash) (c # cs)))"
  by pat_completeness auto
termination
  by (relation "measure length") (auto simp: less_Suc_eq_le length_dropWhile_le)

declare path_elems.simps(2) [simp del]

definition dd :: bytes where "dd = [path_dot, path_dot]"

text \<open>The rules for one element, on the elements kept so far.\<close>

definition clean_elem :: "bool \<Rightarrow> bytes list \<Rightarrow> bytes \<Rightarrow> bytes list" where
  "clean_elem rooted xs e =
     (if e = [path_dot] then xs
      else if e = dd then
        (if xs \<noteq> [] \<and> last xs \<noteq> dd then butlast xs else if rooted then xs else xs @ [dd])
      else xs @ [e])"

fun join_elems :: "bytes list \<Rightarrow> bytes" where
  "join_elems [] = []"
| "join_elems [x] = x"
| "join_elems (x # y # xs) = x @ path_slash # join_elems (y # xs)"

definition render_path :: "bool \<Rightarrow> bytes list \<Rightarrow> bytes" where
  "render_path rooted xs = (if rooted then [path_slash] else []) @ join_elems xs"

definition clean_path :: "bytes \<Rightarrow> bytes" where
  "clean_path path =
     (let t = render_path (is_rooted path) (foldl (clean_elem (is_rooted path)) [] (path_elems path))
      in if t = [] then [path_dot] else t)"

text \<open>What \<open>Clean\<close> keeps: proper elements, after \<open>..\<close> elements in a relative path only.\<close>

definition clean_elems :: "bool \<Rightarrow> bytes list \<Rightarrow> bool" where
  "clean_elems rooted xs \<longleftrightarrow>
     (\<forall>x\<in>set xs. x \<noteq> [] \<and> path_slash \<notin> set x \<and> x \<noteq> [path_dot]) \<and>
     dd \<notin> set (dropWhile (\<lambda>x. x = dd) xs) \<and> (rooted \<longrightarrow> dd \<notin> set xs)"

lemma join_elems_snoc: "join_elems (xs @ [e]) = join_elems xs @ (if xs = [] then [] else [path_slash]) @ e"
  by (induction xs rule: join_elems.induct) auto

lemma render_path_snoc: "render_path rooted (xs @ [e]) = render_path rooted xs @ (if xs = [] then [] else [path_slash]) @ e"
  by (simp add: render_path_def join_elems_snoc)

lemma join_elems_append: "length (join_elems xs) \<le> length (join_elems (xs @ ys))"
  by (induction ys rule: rev_induct) (simp, simp only: append.assoc [symmetric] join_elems_snoc, simp)

lemma dropWhile_snoc: "dropWhile P (xs @ [e]) = (if \<forall>x\<in>set xs. P x then dropWhile P [e] else dropWhile P xs @ [e])"
  by (induction xs) auto

lemma clean_elems_snoc:
  "clean_elems rooted (xs @ [e]) \<longleftrightarrow>
     clean_elems rooted xs \<and> e \<noteq> [] \<and> path_slash \<notin> set e \<and> e \<noteq> [path_dot] \<and>
     (e = dd \<longrightarrow> \<not> rooted \<and> set xs \<subseteq> {dd})"
proof (cases "\<forall>x\<in>set xs. x = dd")
  case True
  then have d: "dropWhile (\<lambda>x. x = dd) xs = []" and s: "set xs \<subseteq> {dd}" by auto
  have "dropWhile (\<lambda>x. x = dd) (xs @ [e]) = (if e = dd then [] else [e])" using True by (simp add: dropWhile_snoc)
  then show ?thesis using s by (auto simp: clean_elems_def d)
next
  case False
  then have "\<not> set xs \<subseteq> {dd}" "dropWhile (\<lambda>x. x = dd) (xs @ [e]) = dropWhile (\<lambda>x. x = dd) xs @ [e]"
    by (auto simp: dropWhile_snoc)
  then show ?thesis by (auto simp: clean_elems_def)
qed

text \<open>Where backtracking must stop: after the leading slash or the leading \<open>..\<close> elements.\<close>

definition stop_at :: "bool \<Rightarrow> bytes list \<Rightarrow> nat" where
  "stop_at rooted xs = length (render_path rooted (takeWhile (\<lambda>x. x = dd) xs))"

lemma stop_at_le: "stop_at rooted xs \<le> length (render_path rooted xs)"
  using join_elems_append [of "takeWhile (\<lambda>x. x = dd) xs" "dropWhile (\<lambda>x. x = dd) xs"]
  by (simp add: stop_at_def render_path_def)

lemma clean_elems_last:
  assumes "clean_elems rooted xs"
  shows "xs \<noteq> [] \<and> last xs \<noteq> dd \<longleftrightarrow> stop_at rooted xs < length (render_path rooted xs)"
proof (cases xs rule: rev_cases)
  case Nil
  then show ?thesis by (simp add: stop_at_def)
next
  case (snoc zs e)
  show ?thesis
  proof (cases "e = dd")
    case True
    then have "\<forall>x\<in>set zs. x = dd" using assms snoc by (auto simp: clean_elems_snoc)
    then have "takeWhile (\<lambda>x. x = dd) xs = xs" using snoc True by (simp add: takeWhile_eq_all_conv)
    then show ?thesis using snoc True by (simp add: stop_at_def)
  next
    case False
    then have "takeWhile (\<lambda>x. x = dd) (zs @ [e]) = takeWhile (\<lambda>x. x = dd) zs" by (induction zs) auto
    then show ?thesis
      using False snoc assms stop_at_le [of rooted zs] by (auto simp: stop_at_def render_path_snoc clean_elems_snoc)
  qed
qed

section \<open>The loop\<close>

definition clean_inv :: "bytes \<Rightarrow> bool \<Rightarrow> bytes list \<Rightarrow> lazybuf \<Rightarrow> nat \<Rightarrow> nat \<Rightarrow> bool" where
  "clean_inv path rooted xs out r dotdot \<longleftrightarrow>
     lb_ok path out \<and> lb_text out = render_path rooted xs \<and> clean_elems rooted xs \<and> dotdot = stop_at rooted xs \<and>
     lb_w out \<le> r \<and> r \<le> length path \<and> (r < length path \<and> path ! r \<noteq> path_slash \<and> xs \<noteq> [] \<longrightarrow> lb_w out < r)"

lemma clean_inv_w: "clean_inv path rooted xs out r dotdot \<Longrightarrow> lb_w out = length (render_path rooted xs)"
  by (auto simp: clean_inv_def dest: lb_text_length)

lemma render_path_length_0:
  "clean_elems rooted xs \<Longrightarrow> length (render_path rooted xs) = (if rooted then 1 else 0) \<longleftrightarrow> xs = []"
  by (cases xs rule: rev_cases) (auto simp: render_path_snoc clean_elems_snoc, auto simp: render_path_def)

lemma Clean_slash_ok:
  assumes "clean_inv path rooted xs out r dotdot" "r < length path" "path ! r \<noteq> path_slash"
  shows "\<exists>out'. Clean_slash rooted out = Inr out' \<and> lb_ok path out' \<and>
    lb_text out' = render_path rooted xs @ (if xs = [] then [] else [path_slash]) \<and> lb_w out' \<le> r"
proof (cases "xs = []")
  case True
  then show ?thesis using assms clean_inv_w [OF assms(1)]
    by (auto simp: Clean_slash_def clean_inv_def render_path_def)
next
  case False
  then have w: "lb_w out \<noteq> (if rooted then 1 else 0)" "lb_w out < r" "lb_w out < length path" "lb_ok path out" "lb_text out = render_path rooted xs"
    using assms clean_inv_w [OF assms(1)] render_path_length_0 [of rooted xs] by (auto simp: clean_inv_def)
  then show ?thesis using lazybuf_append_ok [OF w(4,3), of path_slash] False by (auto simp: Clean_slash_def split: if_splits)
qed

lemma Clean_dotdot_pop:
  assumes "clean_inv path rooted (zs @ [e]) out r dotdot" "r < length path" "e \<noteq> dd"
  shows "\<exists>out'. Clean_dotdot rooted out dotdot = Inr (out', stop_at rooted zs) \<and> lb_ok path out' \<and> lb_text out' = render_path rooted zs \<and>
    lb_w out' \<le> r"
proof -
  define x y where "x = render_path rooted zs" and "y = (if zs = [] then [] else [path_slash]) @ e"
  have i: "lb_ok path out" "lb_text out = x @ y" "clean_elems rooted (zs @ [e])" "dotdot = stop_at rooted (zs @ [e])" "lb_w out \<le> r"
    using assms(1) by (simp_all add: clean_inv_def x_def y_def render_path_snoc)
  have e: "e \<noteq> []" "path_slash \<notin> set e" using i(3) by (simp_all add: clean_elems_snoc)
  have st: "stop_at rooted (zs @ [e]) = stop_at rooted zs"
  proof -
    have "takeWhile (\<lambda>x. x = dd) (zs @ [e]) = takeWhile (\<lambda>x. x = dd) zs" using assms(3) by (induction zs) auto
    then show ?thesis by (simp add: stop_at_def)
  qed
  have w: "lb_w out = length x + length y" using lb_text_length [OF i(1)] i(2) by simp
  have y: "y \<noteq> []" "path_slash \<notin> set (tl y)" using e by (cases e; simp add: y_def)+
  have d: "dotdot \<le> length x" using stop_at_le [of rooted zs] i(4) st by (simp add: x_def)
  have "Clean_backtrack (out\<lparr>lb_w := lb_w out - 1\<rparr>) dotdot = Inr (out\<lparr>lb_w := lb_w out - 1\<rparr>\<lparr>lb_w := length x\<rparr>)"
  proof (rule Clean_backtrack_ok)
    show "take (Suc (lb_w (out\<lparr>lb_w := lb_w out - 1\<rparr>))) (lb_raw (out\<lparr>lb_w := lb_w out - 1\<rparr>)) = x @ y"
      using i(2) w y(1) by (simp add: lb_text_def)
    show "length x = dotdot \<or> hd y = path_slash"
      using i(4) st by (cases "zs = []") (simp_all add: y_def x_def stop_at_def)
    show "length x \<le> lb_w (out\<lparr>lb_w := lb_w out - 1\<rparr>)" using w y(1) by (cases y) simp_all
    show "lb_w (out\<lparr>lb_w := lb_w out - 1\<rparr>) < length path" using i(1,5) w y(1) assms(2) by simp
    show "lb_ok path (out\<lparr>lb_w := lb_w out - 1\<rparr>)" using i(1) by (auto simp: lb_ok_def)
  qed (use y d in simp_all)
  moreover have "lb_w out > dotdot" using w y(1) d by (cases y) simp_all
  ultimately have b: "Clean_dotdot rooted out dotdot = Inr (out\<lparr>lb_w := length x\<rparr>, dotdot)"
    by (simp add: Clean_dotdot_def)
  have t: "lb_text (out\<lparr>lb_w := length x\<rparr>) = x"
  proof -
    have "take (length x) (lb_text out) = x" by (simp add: i(2))
    then show ?thesis using w by (simp add: lb_text_def)
  qed
  show ?thesis using b t i(1,4,5) st w by (auto simp: lb_ok_def x_def)
qed

lemma Clean_dotdot_push:
  assumes "clean_inv path False xs out r dotdot" "r + 1 < length path" "path ! r \<noteq> path_slash" "\<not> (xs \<noteq> [] \<and> last xs \<noteq> dd)"
  shows "\<exists>out'. Clean_dotdot False out dotdot = Inr (out', stop_at False (xs @ [dd])) \<and> lb_ok path out' \<and>
    lb_text out' = render_path False (xs @ [dd]) \<and> lb_w out' \<le> r + 2 \<and> clean_elems False (xs @ [dd])"
proof -
  have i: "clean_elems False xs" "dotdot = stop_at False xs" "lb_ok path out" using assms(1) by (simp_all add: clean_inv_def)
  have n: "\<not> lb_w out > dotdot" using clean_elems_last [OF i(1)] assms(4) clean_inv_w [OF assms(1)] i(2) by simp
  have "set xs \<subseteq> {dd}"
  proof (cases xs rule: rev_cases)
    case (snoc ys y)
    then show ?thesis using assms(4) i(1) by (simp add: clean_elems_snoc)
  qed simp
  moreover have "path_slash \<notin> set dd" "dd \<noteq> [] \<and> dd \<noteq> [path_dot]" by (simp_all add: dd_def path_slash_def path_dot_def)
  ultimately have c: "clean_elems False (xs @ [dd])" "takeWhile (\<lambda>x. x = dd) (xs @ [dd]) = xs @ [dd]"
    using i(1) by (auto simp: clean_elems_snoc takeWhile_eq_all_conv)
  obtain o1 where o1: "(if lb_w out > 0 then lazybuf_append out path_slash else Inr out) = Inr o1" "lb_ok path o1"
    "lb_text o1 = render_path False xs @ (if xs = [] then [] else [path_slash])" "lb_w o1 \<le> r"
    using Clean_slash_ok [OF assms(1) _ assms(3)] assms(2) by (auto simp: Clean_slash_def)
  obtain o2 where o2: "lazybuf_append o1 path_dot = Inr o2" "lb_ok path o2" "lb_text o2 = lb_text o1 @ [path_dot]" "lb_w o2 = lb_w o1 + 1"
    using lazybuf_append_ok [OF o1(2), of path_dot] o1(4) assms(2) by auto
  obtain o3 where o3: "lazybuf_append o2 path_dot = Inr o3" "lb_ok path o3" "lb_text o3 = lb_text o2 @ [path_dot]" "lb_w o3 = lb_w o2 + 1"
    using lazybuf_append_ok [OF o2(2), of path_dot] o2(4) o1(4) assms(2) by auto
  have t: "lb_text o3 = render_path False (xs @ [dd])" using o1(3) o2(3) o3(3) by (simp add: render_path_snoc dd_def)
  then have "lb_w o3 = stop_at False (xs @ [dd])" using lb_text_length [OF o3(2)] c(2) by (simp add: stop_at_def)
  then show ?thesis using n o1 o2 o3 t c(1) by (auto simp: Clean_dotdot_def)
qed

text \<open>The elements of the rest of the path, as the loop tells them apart.\<close>

lemma takeWhile_drop:
  "takeWhile P (drop r xs) = (if r < length xs \<and> P (xs ! r) then xs ! r # takeWhile P (drop (Suc r) xs) else [])"
  by (cases "r < length xs") (simp_all flip: Cons_nth_drop_Suc)

lemma path_elems_drop:
  assumes "r < length path"
  shows "path ! r = path_slash \<Longrightarrow> path_elems (drop r path) = path_elems (drop (r + 1) path)"
    "path ! r \<noteq> path_slash \<Longrightarrow> e = takeWhile (\<lambda>c. c \<noteq> path_slash) (drop r path) \<Longrightarrow>
       path_elems (drop r path) = e # path_elems (drop (r + length e) path)"
proof -
  have d: "drop r path = path ! r # drop (Suc r) path" using assms by (simp add: Cons_nth_drop_Suc)
  then show "path ! r = path_slash \<Longrightarrow> path_elems (drop r path) = path_elems (drop (r + 1) path)"
    by (simp add: path_elems.simps(2))
  assume "path ! r \<noteq> path_slash" and e: "e = takeWhile (\<lambda>c. c \<noteq> path_slash) (drop r path)"
  then have "path_elems (drop r path) = e # path_elems (dropWhile (\<lambda>c. c \<noteq> path_slash) (drop r path))"
    unfolding e d by (simp add: path_elems.simps(2))
  then show "path_elems (drop r path) = e # path_elems (drop (r + length e) path)"
    by (simp add: e dropWhile_eq_drop add.commute)
qed

lemma element_dots:
  assumes "r < length path" "path ! r \<noteq> path_slash" "e = takeWhile (\<lambda>c. c \<noteq> path_slash) (drop r path)"
  shows "e = [path_dot] \<longleftrightarrow> path ! r = path_dot \<and> (r + 1 = length path \<or> path ! (r + 1) = path_slash)"
    "e = dd \<longleftrightarrow> path ! r = path_dot \<and> r + 1 < length path \<and> path ! (r + 1) = path_dot \<and> (r + 2 = length path \<or> path ! (r + 2) = path_slash)"
proof -
  have e: "e = path ! r # takeWhile (\<lambda>c. c \<noteq> path_slash) (drop (Suc r) path)" using assms takeWhile_drop [of _ r path] by simp
  have n: "path_dot \<noteq> path_slash" by (simp add: path_dot_def path_slash_def)
  show "e = [path_dot] \<longleftrightarrow> path ! r = path_dot \<and> (r + 1 = length path \<or> path ! (r + 1) = path_slash)"
    using assms(1) unfolding e takeWhile_drop [of _ "Suc r" path] by auto
  show "e = dd \<longleftrightarrow> path ! r = path_dot \<and> r + 1 < length path \<and> path ! (r + 1) = path_dot \<and> (r + 2 = length path \<or> path ! (r + 2) = path_slash)"
    using assms(1) n unfolding e takeWhile_drop [of _ "Suc r" path] takeWhile_drop [of _ "Suc (Suc r)" path] dd_def by auto
qed

lemma Clean_tests:
  assumes "r < length path" "path ! r \<noteq> path_slash" "e = takeWhile (\<lambda>c. c \<noteq> path_slash) (drop r path)"
  shows "Clean_is_dot path r = Inr (e = [path_dot])" "e \<noteq> [path_dot] \<Longrightarrow> Clean_is_dotdot path r = Inr (e = dd)"
proof -
  note dots = element_dots [OF assms]
  show "Clean_is_dot path r = Inr (e = [path_dot])" using assms(1) by (auto simp: Clean_is_dot_def byte_is_nat dots simp del: of_nat_add of_nat_Suc)
  assume "e \<noteq> [path_dot]"
  then have "path ! r = path_dot \<Longrightarrow> r + 1 < length path" using assms(1) dots(1) by auto
  then show "Clean_is_dotdot path r = Inr (e = dd)" using assms(1) by (auto simp: Clean_is_dotdot_def byte_is_nat dots(2) simp del: of_nat_add of_nat_Suc)
qed

lemma Clean_loop_steps:
  assumes "r < length path" "path ! r \<noteq> path_slash" "e = takeWhile (\<lambda>c. c \<noteq> path_slash) (drop r path)"
  shows "e = [path_dot] \<Longrightarrow> Clean_loop path rooted out r d = Clean_loop path rooted out (r + length e) d"
    "e = dd \<Longrightarrow> Clean_dotdot rooted out d = Inr (out', d') \<Longrightarrow>
       Clean_loop path rooted out r d = Clean_loop path rooted out' (r + length e) d'"
    "e \<noteq> [path_dot] \<Longrightarrow> e \<noteq> dd \<Longrightarrow> Clean_slash rooted out = Inr o1 \<Longrightarrow> Clean_copy path o1 r = Inr (out', r + length e) \<Longrightarrow>
       Clean_loop path rooted out r d = Clean_loop path rooted out' (r + length e) d"
proof -
  note tests = Clean_tests [OF assms]
  have n: "dd \<noteq> [path_dot]" by (simp add: dd_def)
  show "Clean_loop path rooted out r d = Clean_loop path rooted out (r + length e) d" if "e = [path_dot]"
    using that tests(1) assms(1,2) by (subst Clean_loop.simps) (simp add: byte_is_nat)
  show "Clean_loop path rooted out r d = Clean_loop path rooted out' (r + length e) d'"
    if "e = dd" "Clean_dotdot rooted out d = Inr (out', d')"
  proof -
    have "length e = 2" using that(1) by (simp add: dd_def)
    then show ?thesis using that tests assms(1,2) n by (subst Clean_loop.simps) (simp add: byte_is_nat)
  qed
  show "Clean_loop path rooted out r d = Clean_loop path rooted out' (r + length e) d"
    if "e \<noteq> [path_dot]" "e \<noteq> dd" "Clean_slash rooted out = Inr o1" "Clean_copy path o1 r = Inr (out', r + length e)"
    using that tests assms(1,2) by (subst Clean_loop.simps) (simp add: byte_is_nat)
qed

lemma Clean_loop_ok:
  assumes "clean_inv path rooted xs out r dotdot"
  shows "\<exists>out'. Clean_loop path rooted out r dotdot = Inr out' \<and> lb_ok path out' \<and>
    lb_text out' = render_path rooted (foldl (clean_elem rooted) xs (path_elems (drop r path))) \<and>
    clean_elems rooted (foldl (clean_elem rooted) xs (path_elems (drop r path)))"
  using assms
proof (induction "length path - r" arbitrary: xs out r dotdot rule: less_induct)
  case less
  note inv = less.prems
  have i: "lb_ok path out" "lb_text out = render_path rooted xs" "clean_elems rooted xs" "dotdot = stop_at rooted xs" "lb_w out \<le> r" "r \<le> length path"
    using inv by (simp_all add: clean_inv_def)
  note loop = Clean_loop.simps [of path rooted out r dotdot, unfolded Let_def]
  consider "r = length path" | "r < length path" "path ! r = path_slash" | "r < length path" "path ! r \<noteq> path_slash" using i(6) by fastforce
  then show ?case
  proof cases
    case 1
    then have "Clean_loop path rooted out r dotdot = Inr out" unfolding loop by simp
    then show ?thesis using i 1 by auto
  next
    case 2
    have "clean_inv path rooted xs out (r + 1) dotdot" using inv 2 by (auto simp: clean_inv_def)
    then show ?thesis using less.hyps [of "r + 1" xs out dotdot] 2 path_elems_drop(1) [OF 2] by (simp add: loop byte_is_nat)
  next
    case 3
    define e where "e = takeWhile (\<lambda>c. c \<noteq> path_slash) (drop r path)"
    note dots = element_dots(2) [OF 3 e_def] and step = Clean_loop_steps [OF 3 e_def]
    have el: "path_elems (drop r path) = e # path_elems (drop (r + length e) path)" by (rule path_elems_drop(2) [OF 3 e_def])
    have e: "e \<noteq> []" "path_slash \<notin> set e" "r + length e \<le> length path" "r + length e < length path \<Longrightarrow> path ! (r + length e) = path_slash"
    proof -
      show "e \<noteq> []" using 3 takeWhile_drop [of _ r path] by (simp add: e_def)
      show "path_slash \<notin> set e" by (auto simp: e_def dest: set_takeWhileD)
      have "length e \<le> length (drop r path)" unfolding e_def by (rule length_takeWhile_le)
      then show "r + length e \<le> length path" using i(6) by simp
      show "path ! (r + length e) = path_slash" if "r + length e < length path"
        using that nth_length_takeWhile [of "\<lambda>c. c \<noteq> path_slash" "drop r path"] by (simp add: e_def)
    qed
    have lt: "length path - (r + length e) < length path - r" using e(1) 3(1) by (cases e) simp_all
    have next_ok: ?thesis
      if "clean_inv path rooted (clean_elem rooted xs e) out' (r + length e) dotdot'"
        "Clean_loop path rooted out r dotdot = Clean_loop path rooted out' (r + length e) dotdot'" for out' dotdot'
      using less.hyps [OF lt that(1)] that(2) by (simp add: el)
    consider "e = [path_dot]" | "e = dd" "e \<noteq> [path_dot]" "xs \<noteq> [] \<and> last xs \<noteq> dd"
      | "e = dd" "e \<noteq> [path_dot]" "\<not> (xs \<noteq> [] \<and> last xs \<noteq> dd)" rooted
      | "e = dd" "e \<noteq> [path_dot]" "\<not> (xs \<noteq> [] \<and> last xs \<noteq> dd)" "\<not> rooted" | "e \<noteq> dd" "e \<noteq> [path_dot]" by blast
    then show ?thesis
    proof cases
      case 1
      then show ?thesis using i e by (intro next_ok [OF _ step(1)]) (auto simp: clean_inv_def clean_elem_def)
    next
      case 2
      then obtain zs z where z: "xs = zs @ [z]" "z \<noteq> dd" by (cases xs rule: rev_cases) auto
      obtain out' where o: "Clean_dotdot rooted out dotdot = Inr (out', stop_at rooted zs)" "lb_ok path out'" "lb_text out' = render_path rooted zs" "lb_w out' \<le> r"
        using Clean_dotdot_pop [of path rooted zs z out r dotdot] inv z 3(1) by blast
      have "clean_inv path rooted (clean_elem rooted xs e) out' (r + length e) (stop_at rooted zs)"
        using 2 z o e i(3) by (auto simp: clean_inv_def clean_elem_def clean_elems_snoc)
      then show ?thesis by (rule next_ok [OF _ step(2) [OF 2(1) o(1)]])
    next
      case 3
      have "Clean_dotdot rooted out dotdot = Inr (out, dotdot)"
        using clean_elems_last [OF i(3)] 3 clean_inv_w [OF inv] i(4) by (auto simp: Clean_dotdot_def)
      then show ?thesis using 3 i e
        by (intro next_ok [OF _ step(2)]) (auto simp: clean_inv_def clean_elem_def)
    next
      case 4
      obtain out' where o: "Clean_dotdot False out dotdot = Inr (out', stop_at False (xs @ [dd]))" "lb_ok path out'"
        "lb_text out' = render_path False (xs @ [dd])" "lb_w out' \<le> r + 2" "clean_elems False (xs @ [dd])"
        using Clean_dotdot_push [of path xs out r dotdot] inv 4 dots \<open>path ! r \<noteq> path_slash\<close> by auto
      have "length e = 2" using 4 by (simp add: dd_def)
      then have "clean_inv path rooted (clean_elem rooted xs e) out' (r + length e) (stop_at False (xs @ [dd]))"
        using 4 o e by (auto simp: clean_inv_def clean_elem_def)
      then show ?thesis using 4 o(1) by (intro next_ok [OF _ step(2)]) simp_all
    next
      case 5
      obtain o1 where o1: "Clean_slash rooted out = Inr o1" "lb_ok path o1"
        "lb_text o1 = render_path rooted xs @ (if xs = [] then [] else [path_slash])" "lb_w o1 \<le> r"
        using Clean_slash_ok [OF inv] 3 by blast
      obtain o2 where o2: "Clean_copy path o1 r = Inr (o2, r + length e)" "lb_ok path o2" "lb_text o2 = lb_text o1 @ e" "lb_w o2 = lb_w o1 + length e"
        using Clean_copy_ok [OF o1(2,4) i(6) e_def] by blast
      have c: "clean_elems rooted (xs @ [e])" using 5 e i(3) by (simp add: clean_elems_snoc)
      have "takeWhile (\<lambda>x. x = dd) (xs @ [e]) = takeWhile (\<lambda>x. x = dd) xs" using 5(1) by (induction xs) auto
      then have "clean_inv path rooted (clean_elem rooted xs e) o2 (r + length e) dotdot"
        using 5 o1 o2 e c i(4) by (auto simp: clean_inv_def clean_elem_def render_path_snoc stop_at_def)
      then show ?thesis by (rule next_ok [OF _ step(3) [OF 5(2,1) o1(1) o2(1)]])
    qed
  qed
qed

section \<open>Properties of the cleaned path\<close>

lemma Clean_ok: "Clean path = Inr (clean_path path) \<and> (path \<noteq> [] \<longrightarrow> length (clean_path path) \<le> length path)"
proof (cases "path = []")
  case True
  then show ?thesis by (simp add: Clean_def clean_path_def is_rooted_def render_path_def)
next
  case False
  define rooted where "rooted = (path ! 0 = path_slash)"
  define r where "r = (if rooted then 1 else 0 :: nat)"
  have abs: "is_rooted path = rooted" using False by (simp add: is_rooted_def rooted_def hd_conv_nth)
  have el: "path_elems (drop r path) = path_elems path"
    using False path_elems_drop(1) [of 0 path] by (simp add: r_def rooted_def)
  obtain out where o: "(if rooted then lazybuf_append \<lparr>lb_s = path, lb_buf = None, lb_w = 0\<rparr> path_slash else Inr \<lparr>lb_s = path, lb_buf = None, lb_w = 0\<rparr>) = Inr out"
    "out = \<lparr>lb_s = path, lb_buf = None, lb_w = r\<rparr>"
    using False by (auto simp: lazybuf_append_def rooted_def r_def byte_is_def str_at_def)
  have "take 1 path = [path_slash]" if rooted using that False by (cases path) (simp_all add: rooted_def)
  then have "clean_inv path rooted [] out r r"
    using False by (auto simp: clean_inv_def o(2) lb_ok_def lb_raw_def lb_text_def render_path_def clean_elems_def stop_at_def r_def Suc_le_eq)
  then obtain out' where l: "Clean_loop path rooted out r r = Inr out'" "lb_ok path out'"
    "lb_text out' = render_path rooted (foldl (clean_elem rooted) [] (path_elems path))"
    using Clean_loop_ok [of path rooted "[]" out r r] by (auto simp: el)
  have "lb_w out' = 0 \<longleftrightarrow> lb_text out' = []" using lb_text_length [OF l(2)] by auto
  moreover have "lazybuf_string out' = Inr (lb_text out')" using l(2) by (auto simp: lazybuf_string_def lb_ok_def lb_text_def lb_raw_def split: option.split)
  moreover have "length (lb_text out') \<le> length path" "1 \<le> length path"
    using l(2) False by (simp_all add: lb_text_def lb_ok_def Suc_le_eq)
  moreover have "byte_is path 0 path_slash = Inr rooted" using False by (simp add: byte_is_def str_at_def rooted_def)
  ultimately show ?thesis
    using False o(1) l(1,3) unfolding Clean_def Let_def clean_path_def abs by (auto simp: r_def)
qed

lemmas Clean_eq = Clean_ok [THEN conjunct1]

lemmas clean_path_length = Clean_ok [THEN conjunct2, rule_format]

lemma clean_elem_keeps:
  assumes "clean_elems rooted xs" "e \<noteq> []" "path_slash \<notin> set e"
  shows "clean_elems rooted (clean_elem rooted xs e)"
proof -
  have "clean_elems rooted (butlast xs)" using assms(1) by (cases xs rule: rev_cases) (simp_all add: clean_elems_snoc)
  moreover have "set xs \<subseteq> {dd}" if "\<not> (xs \<noteq> [] \<and> last xs \<noteq> dd)"
    using that assms(1) by (cases xs rule: rev_cases) (simp_all add: clean_elems_snoc)
  ultimately show ?thesis using assms clean_elems_snoc [of rooted xs e] by (auto simp: clean_elem_def dd_def)
qed

lemma path_elems_proper: "e \<in> set (path_elems path) \<Longrightarrow> e \<noteq> [] \<and> path_slash \<notin> set e"
  by (induction path rule: path_elems.induct)
    (auto simp: path_elems.simps(2) split: if_splits dest: set_takeWhileD)

lemma clean_elems_foldl:
  "clean_elems rooted xs \<Longrightarrow> \<forall>e\<in>set es. e \<noteq> [] \<and> path_slash \<notin> set e \<Longrightarrow> clean_elems rooted (foldl (clean_elem rooted) xs es)"
  by (induction es arbitrary: xs) (simp_all add: clean_elem_keeps)

lemma clean_path_form:
  "\<exists>xs. clean_elems (is_rooted path) xs \<and> foldl (clean_elem (is_rooted path)) [] (path_elems path) = xs \<and>
    clean_path path = (if render_path (is_rooted path) xs = [] then [path_dot] else render_path (is_rooted path) xs)"
  using clean_elems_foldl [of "is_rooted path" "[]" "path_elems path"] path_elems_proper
  by (auto simp: clean_path_def Let_def clean_elems_def)

text \<open>A clean path is read back as the elements it was made of.\<close>

lemma path_elems_slash: "path_elems (a @ path_slash # b) = path_elems a @ path_elems b"
proof (induction a rule: path_elems.induct)
  case 1
  then show ?case by (simp add: path_elems.simps(2))
next
  case (2 c cs)
  have "c \<noteq> path_slash \<Longrightarrow> takeWhile (\<lambda>c. c \<noteq> path_slash) (c # cs @ path_slash # b) = takeWhile (\<lambda>c. c \<noteq> path_slash) (c # cs)"
    "c \<noteq> path_slash \<Longrightarrow> dropWhile (\<lambda>c. c \<noteq> path_slash) (c # cs @ path_slash # b) = dropWhile (\<lambda>c. c \<noteq> path_slash) (c # cs) @ path_slash # b"
    by (induction cs) auto
  then show ?case using 2 by (simp add: path_elems.simps(2))
qed

lemma path_elems_single: "x \<noteq> [] \<Longrightarrow> path_slash \<notin> set x \<Longrightarrow> path_elems x = [x]"
proof (cases x)
  case (Cons c cs)
  assume "path_slash \<notin> set x"
  then have "path_slash \<notin> set cs" "c \<noteq> path_slash" using Cons by auto
  then have t: "takeWhile (\<lambda>c. c \<noteq> path_slash) cs = cs" and d: "dropWhile (\<lambda>c. c \<noteq> path_slash) cs = []" by (auto simp: takeWhile_eq_all_conv)
  show ?thesis using \<open>c \<noteq> path_slash\<close> unfolding Cons path_elems.simps(2) takeWhile.simps dropWhile.simps t d by simp
qed simp

lemma path_elems_join: "path_elems (join_elems ys) = concat (map path_elems ys)"
  by (induction ys rule: join_elems.induct) (simp_all add: path_elems_slash)

lemma path_elems_render:
  assumes "\<forall>x\<in>set xs. x \<noteq> [] \<and> path_slash \<notin> set x"
  shows "path_elems (render_path rooted xs) = xs"
proof -
  have "concat (map path_elems xs) = xs" using assms by (induction xs) (simp_all add: path_elems_single)
  then show ?thesis using path_elems_slash [of "[]"] by (simp add: render_path_def path_elems_join)
qed

lemma IsAbs_render: "\<forall>x\<in>set xs. x \<noteq> [] \<and> path_slash \<notin> set x \<Longrightarrow> is_rooted (render_path rooted xs) = rooted"
proof -
  assume a: "\<forall>x\<in>set xs. x \<noteq> [] \<and> path_slash \<notin> set x"
  have "\<not> is_rooted (join_elems xs)"
  proof (cases xs rule: join_elems.cases)
    case (2 x)
    then show ?thesis using a by (cases x) (auto simp: is_rooted_def)
  next
    case (3 x y zs)
    then show ?thesis using a by (cases x) (auto simp: is_rooted_def)
  qed (simp add: is_rooted_def)
  then show ?thesis by (simp add: render_path_def is_rooted_def)
qed

lemma clean_elems_fixed: "clean_elems rooted xs \<Longrightarrow> foldl (clean_elem rooted) [] xs = xs"
proof (induction xs rule: rev_induct)
  case (snoc e xs)
  then have c: "clean_elems rooted xs" "e \<noteq> [path_dot]" "e = dd \<longrightarrow> \<not> rooted \<and> set xs \<subseteq> {dd}" by (simp_all add: clean_elems_snoc)
  have "last xs = dd" if "e = dd" "xs \<noteq> []" using c(3) that last_in_set [OF that(2)] by blast
  then have "clean_elem rooted xs e = xs @ [e]" using c by (auto simp: clean_elem_def)
  then show ?case using snoc.IH c(1) by simp
qed simp

lemma clean_path_idem: "clean_path (clean_path path) = clean_path path"
proof -
  obtain xs where x: "clean_elems (is_rooted path) xs"
    "clean_path path = (if render_path (is_rooted path) xs = [] then [path_dot] else render_path (is_rooted path) xs)"
    using clean_path_form by blast
  have p: "\<forall>x\<in>set xs. x \<noteq> [] \<and> path_slash \<notin> set x" using x(1) by (simp add: clean_elems_def)
  show ?thesis
  proof (cases "render_path (is_rooted path) xs = []")
    case True
    have "clean_path [path_dot] = [path_dot]"
      by (simp add: clean_path_def path_elems.simps clean_elem_def is_rooted_def render_path_def path_dot_def path_slash_def)
    then show ?thesis using x(2) True by simp
  next
    case False
    then show ?thesis using x
      by (simp add: clean_path_def path_elems_render [OF p] IsAbs_render [OF p] clean_elems_fixed)
  qed
qed

section \<open>Join\<close>

text \<open>A cleaned path depends on the elements of the path and on its leading slash only.\<close>

lemma clean_path_cong: "path_elems p = path_elems q \<Longrightarrow> is_rooted p = is_rooted q \<Longrightarrow> clean_path p = clean_path q"
  by (simp add: clean_path_def)

lemma Join_buf_ok:
  "path_elems (Join_buf elem) = concat (map path_elems elem) \<and>
   is_rooted (Join_buf elem) = is_rooted (join_elems (filter (\<lambda>e. e \<noteq> []) elem)) \<and> (Join_buf elem = [] \<longleftrightarrow> (\<forall>e\<in>set elem. e = []))"
proof (induction elem rule: rev_induct)
  case Nil
  then show ?case by (simp add: Join_buf_def)
next
  case (snoc e elem)
  have j: "Join_buf (elem @ [e]) = (if Join_buf elem \<noteq> [] then Join_buf elem @ [path_slash] @ e else e)"
    by (auto simp: Join_buf_def)
  have f: "filter (\<lambda>e. e \<noteq> []) elem = [] \<longleftrightarrow> (\<forall>e\<in>set elem. e = [])" by (auto simp: filter_empty_conv)
  have a: "b \<noteq> [] \<Longrightarrow> is_rooted (b @ c) = is_rooted b" for b c by (cases b) (simp_all add: is_rooted_def)
  have n: "ys \<noteq> [] \<Longrightarrow> \<forall>y\<in>set ys. y \<noteq> [] \<Longrightarrow> join_elems ys \<noteq> []" for ys by (cases ys rule: join_elems.cases) auto
  show ?case
  proof (cases "Join_buf elem = []")
    case True
    then have "\<forall>x\<in>set elem. x = []" "filter (\<lambda>e. e \<noteq> []) elem = []" using snoc f by blast+
    moreover have "concat (map path_elems elem) = []" using calculation(1) by (induction elem) auto
    ultimately show ?thesis using j True by simp
  next
    case False
    then have "filter (\<lambda>e. e \<noteq> []) elem \<noteq> []" using snoc f by blast
    then have "join_elems (filter (\<lambda>e. e \<noteq> []) elem) \<noteq> []" by (intro n) auto
    then show ?thesis using snoc j False
      by (auto simp: path_elems_slash a join_elems_snoc)
  qed
qed

lemma Join_eq:
  "path_Join elem = Inr (if \<forall>e\<in>set elem. e = [] then [] else clean_path (join_elems (filter (\<lambda>e. e \<noteq> []) elem)))"
proof -
  have "concat (map path_elems (filter (\<lambda>e. e \<noteq> []) elem)) = concat (map path_elems elem)" by (induction elem) auto
  then have "clean_path (Join_buf elem) = clean_path (join_elems (filter (\<lambda>e. e \<noteq> []) elem))"
    using Join_buf_ok [of elem] by (intro clean_path_cong) (simp_all add: path_elems_join)
  moreover have "sum_list (map length elem) = 0 \<longleftrightarrow> (\<forall>e\<in>set elem. e = [])" by (induction elem) auto
  ultimately show ?thesis by (simp add: path_Join_def Clean_eq)
qed

section \<open>The parts of a path\<close>

lemma str_slice_whole: "str_slice (s @ u) 0 (int (length s)) = Inr s" "str_slice (s @ u) (int (length s)) (int (length (s @ u))) = Inr u"
  by (simp_all add: str_slice_def)

lemma Base_strip_snoc: "Base_strip (path @ [c]) = (if c = path_slash then Base_strip path else Inr (path @ [c]))"
proof -
  have i: "int (length (path @ [c])) - 1 = int (length path)" by simp
  show ?thesis by (subst Base_strip.simps, unfold i byte_is_nat str_slice_whole) simp
qed

lemma Base_strip_ok: "\<exists>s. Base_strip path = Inr s \<and> path_elems s = path_elems path \<and> (s = [] \<or> last s \<noteq> path_slash)"
proof (induction path rule: rev_induct)
  case (snoc c path)
  then show ?case using path_elems_slash [of path "[]"] by (cases "c = path_slash") (simp_all add: Base_strip_snoc)
qed (simp add: Base_strip.simps)

lemma Ext_scan:
  assumes "path = d @ a @ b" "d = [] \<or> last d = path_slash" "path_slash \<notin> set (a @ b)" "path_dot \<notin> set b"
  shows "path_dot \<notin> set a \<and> Ext_loop path (int (length (d @ a)) - 1) = Inr [] \<or>
    (\<exists>g x. a @ b = g @ path_dot # x \<and> path_dot \<notin> set x \<and> Ext_loop path (int (length (d @ a)) - 1) = Inr (path_dot # x))"
  using assms
proof (induction a arbitrary: b rule: rev_induct)
  case Nil
  have "Ext_loop path (int (length d) - 1) = Inr []"
  proof (cases d rule: rev_cases)
    case (snoc d' c)
    then have "int (length d) - 1 = int (length d')" "path ! length d' = path_slash" "length d' < length path"
      using Nil.prems(1,2) by simp_all
    then show ?thesis by (subst Ext_loop.simps) (simp add: byte_is_nat)
  qed (simp add: Ext_loop.simps)
  then show ?case by simp
next
  case (snoc c a)
  have n: "path ! length (d @ a) = c" "length (d @ a) < length path" using snoc.prems(1) by (simp_all add: nth_append)
  have s: "str_slice path (int (length (d @ a))) (int (length path)) = Inr (c # b)"
    using str_slice_whole(2) [of "d @ a" "c # b"] snoc.prems(1) by simp
  have i: "int (length (d @ a @ [c])) - 1 = int (length (d @ a))" by simp
  have ns: "c \<noteq> path_slash" using snoc.prems(3) by auto
  have step: "Ext_loop path (int (length (d @ a @ [c])) - 1) = (if c = path_dot then Inr (c # b) else Ext_loop path (int (length (d @ a)) - 1))"
    unfolding i by (subst Ext_loop.simps, unfold byte_is_nat s n(1)) (use n(2) ns in simp)
  show ?case
  proof (cases "c = path_dot")
    case True
    then show ?thesis using step snoc.prems(4) by auto
  next
    case False
    then have "path_dot \<notin> set (c # b)" "path = d @ a @ c # b" "path_slash \<notin> set (a @ c # b)" using snoc.prems by auto
    then show ?thesis using snoc.IH [of "c # b"] snoc.prems(2) False step by auto
  qed
qed

locale last_index_byte =
  fixes li :: last_index
  assumes absent: "c \<notin> set s \<Longrightarrow> li s c = - 1"
    and present: "c \<in> set s \<Longrightarrow> \<exists>a b. s = a @ c # b \<and> c \<notin> set b \<and> li s c = int (length a)"
begin

lemma Split_ok:
  "\<exists>dir file. path_Split li path = Inr (dir, file) \<and> dir @ file = path \<and> path_slash \<notin> set file \<and> (dir = [] \<or> last dir = path_slash)"
proof (cases "path_slash \<in> set path")
  case True
  then obtain a b where p: "path = a @ path_slash # b" "path_slash \<notin> set b" "li path path_slash = int (length a)" using present by blast
  have "path_Split li path = Inr (a @ [path_slash], b)"
    using str_slice_whole [of "a @ [path_slash]" b] p by (simp add: path_Split_def add.commute)
  then show ?thesis using p by simp
next
  case False
  then show ?thesis by (simp add: path_Split_def absent str_slice_def)
qed

lemma Base_ok:
  "path_Base li path = Inr (if path = [] then [path_dot] else if path_elems path = [] then [path_slash] else last (path_elems path))"
proof -
  obtain s where s: "Base_strip path = Inr s" "path_elems path = path_elems s" "s = [] \<or> last s \<noteq> path_slash" using Base_strip_ok by metis
  show ?thesis
  proof (cases "path_slash \<in> set s")
    case True
    then obtain a b where p: "s = a @ path_slash # b" "path_slash \<notin> set b" "li s path_slash = int (length a)" using present by blast
    then have b: "b \<noteq> []" using s(3) by auto
    have "path \<noteq> []" using s(2) p(1) b path_elems_slash [of a b] path_elems_single [OF b p(2)] by auto
    moreover have "path_elems path = path_elems a @ [b]" using s(2) p path_elems_slash [of a b] path_elems_single [OF b p(2)] by simp
    moreover have "str_slice s (int (length a) + 1) (int (length s)) = Inr b"
      using str_slice_whole(2) [of "a @ [path_slash]" b] p(1) by (simp add: add.commute)
    ultimately show ?thesis using p(3) b s(1) by (simp add: path_Base_def Let_def)
  next
    case False
    have "path_elems path = (if s = [] then [] else [s])" using s(2) path_elems_single [OF _ False] by auto
    then show ?thesis using False s(1) by (simp add: path_Base_def absent Let_def)
  qed
qed

lemma parts:
  "\<exists>dir file. path_Split li path = Inr (dir, file) \<and> dir @ file = path \<and> path_slash \<notin> set file \<and> (dir = [] \<or> last dir = path_slash) \<and>
     (path_dot \<notin> set file \<and> path_Ext path = Inr [] \<or>
      (\<exists>g x. file = g @ path_dot # x \<and> path_dot \<notin> set x \<and> path_Ext path = Inr (path_dot # x))) \<and>
     path_Dir li path = Inr (clean_path dir)"
proof -
  obtain dir base where s: "path_Split li path = Inr (dir, base)" "dir @ base = path" "path_slash \<notin> set base" "dir = [] \<or> last dir = path_slash"
    using Split_ok by blast
  then show ?thesis using Ext_scan [of path dir base "[]"] by (simp add: path_Ext_def path_Dir_def Clean_eq)
qed

end

text \<open>A loop from the end, as an instance.\<close>

fun last_index_of :: last_index where
  "last_index_of s c = (if s = [] then - 1 else if last s = c then int (length s) - 1 else last_index_of (butlast s) c)"

declare last_index_of.simps [simp del]

lemma last_index_of_snoc: "last_index_of (s @ [x]) c = (if x = c then int (length s) else last_index_of s c)"
  by (subst last_index_of.simps) simp

interpretation last_loop: last_index_byte last_index_of
proof
  fix c s
  show "c \<notin> set s \<Longrightarrow> last_index_of s c = - 1"
    by (induction s rule: rev_induct) (auto simp: last_index_of_snoc last_index_of.simps [of "[]"])
  show "c \<in> set s \<Longrightarrow> \<exists>a b. s = a @ c # b \<and> c \<notin> set b \<and> last_index_of s c = int (length a)"
  proof (induction s rule: rev_induct)
    case (snoc x s)
    show ?case
    proof (cases "x = c")
      case True
      then show ?thesis by (intro exI [of _ s] exI [of _ "[]"]) (simp add: last_index_of_snoc)
    next
      case False
      then obtain a b where s: "s = a @ c # b" "c \<notin> set b" "last_index_of s c = int (length a)" using snoc by auto
      moreover have "last_index_of (s @ [x]) c = int (length a)" using s(3) False by (simp only: last_index_of_snoc if_False)
      ultimately show ?thesis using False by (intro exI [of _ a] exI [of _ "b @ [x]"]) auto
    qed
  qed simp
qed

section \<open>Properties\<close>

text \<open>The parts of a path, with a search for the last slash that works as documented.\<close>

definition parts_ok :: "last_index \<Rightarrow> bytes \<Rightarrow> bool" where
  "parts_ok li path \<longleftrightarrow>
     (\<exists>dir file. path_Split li path = Inr (dir, file) \<and> dir @ file = path \<and> path_slash \<notin> set file \<and> (dir = [] \<or> last dir = path_slash) \<and>
        (path_dot \<notin> set file \<and> path_Ext path = Inr [] \<or>
         (\<exists>g x. file = g @ path_dot # x \<and> path_dot \<notin> set x \<and> path_Ext path = Inr (path_dot # x))) \<and>
        path_Dir li path = Inr (clean_path dir)) \<and>
     path_Base li path =
       Inr (if path = [] then [path_dot] else if path_elems path = [] then [path_slash] else last (path_elems path))"

lemma parts_ok: "last_index_byte li \<Longrightarrow> parts_ok li path"
  unfolding parts_ok_def by (intro conjI last_index_byte.parts last_index_byte.Base_ok)

lemma IsAbs_eq: "path_IsAbs path = Inr (is_rooted path)"
  by (cases path) (simp_all add: path_IsAbs_def byte_is_def str_at_def is_rooted_def)

lemma render_path_last:
  assumes "\<forall>x\<in>set xs. x \<noteq> [] \<and> path_slash \<notin> set x" "render_path rooted xs \<noteq> []" "last (render_path rooted xs) = path_slash"
  shows "render_path rooted xs = [path_slash]"
proof (cases xs rule: rev_cases)
  case Nil
  then show ?thesis using assms(2) by (simp add: render_path_def split: if_splits)
next
  case (snoc ys y)
  then have "y \<noteq> []" "path_slash \<notin> set y" using assms(1) by simp_all
  moreover from this have "last (render_path rooted xs) = last y" by (simp add: snoc render_path_snoc)
  ultimately show ?thesis using assms(3) last_in_set [of y] by simp
qed

text \<open>The cleaned path is rooted if the path is, and ends in a slash only if it is the root.\<close>

lemma clean_path_ends: "is_rooted (clean_path path) = is_rooted path \<and> (last (clean_path path) = path_slash \<longrightarrow> clean_path path = [path_slash])"
proof -
  obtain xs where x: "clean_elems (is_rooted path) xs"
    "clean_path path = (if render_path (is_rooted path) xs = [] then [path_dot] else render_path (is_rooted path) xs)"
    using clean_path_form by blast
  have p: "\<forall>y\<in>set xs. y \<noteq> [] \<and> path_slash \<notin> set y" using x(1) by (simp add: clean_elems_def)
  have "render_path (is_rooted path) xs = [] \<Longrightarrow> \<not> is_rooted path" by (simp add: render_path_def split: if_splits)
  moreover have "\<not> is_rooted [path_dot]" "path_dot \<noteq> path_slash" by (simp_all add: is_rooted_def path_dot_def path_slash_def)
  ultimately show ?thesis using x(2) IsAbs_render [OF p, of "is_rooted path"] render_path_last [OF p, of "is_rooted path"] by auto
qed

text \<open>\<open>Dir("/a/../b")\<close> ends in a slash.\<close>

lemma Dir_up_to_root:
  assumes "last_index_byte li"
  shows "path_Dir li (bytes_of ''/a/../b'') = Inr [path_slash]"
proof -
  let ?p = "bytes_of ''/a/../b''"
  have p: "?p = bytes_of ''/a/../'' @ bytes_of ''b''" "path_slash \<notin> set (bytes_of ''b'')" "last (bytes_of ''/a/../'') = path_slash"
    "clean_path (bytes_of ''/a/../'') = [path_slash]" by code_simp+
  obtain dir base where d: "dir @ base = ?p" "path_slash \<notin> set base" "dir = [] \<or> last dir = path_slash" "path_Dir li ?p = Inr (clean_path dir)"
    using last_index_byte.parts [OF assms, of ?p] by blast
  have "base = bytes_of ''b''"
  proof (cases dir rule: rev_cases)
    case Nil
    then have "path_slash \<notin> set ?p" using d by simp
    then show ?thesis by (simp add: bytes_of_def path_slash_def)
  next
    case (snoc d' c)
    have "rev (takeWhile (\<lambda>c. c \<noteq> path_slash) (rev (dir @ base))) = base"
      using d(2,3) snoc by (simp add: takeWhile_append takeWhile_eq_all_conv [THEN iffD2])
    moreover have "rev (takeWhile (\<lambda>c. c \<noteq> path_slash) (rev ?p)) = bytes_of ''b''" by code_simp
    ultimately show ?thesis unfolding d(1) by simp
  qed
  then show ?thesis using d(1,4) p(1,4) by simp
qed

text \<open>
  C37: the functions of \<open>path\<close>. For every path \<open>Clean\<close> returns without an index out of range, although it looks two bytes ahead and its output
  buffer has only the length of the input, and the result is the one of the four lexical rules applied to the elements of the
  path. It is in normal form: proper elements, after \<open>..\<close> elements at the start of a relative path only; it ends in a slash only
  if it is the root \<open>/\<close>. Cleaning again
  changes nothing, and no other non-empty path that is cleaned to the same result is shorter. \<open>IsAbs\<close> says whether a path starts with a slash, and
  it is the same for the cleaned path. \<open>Join\<close> cleans the non-empty
  elements separated by slashes. \<open>Split\<close> cuts after the last slash; \<open>Base\<close> is the last element, a slash for a path of
  slashes and \<open>.\<close> for the empty path; \<open>Ext\<close> is the suffix of the part after the last slash that starts at its last dot, if
  it has one; \<open>Dir\<close> is the cleaned directory part. That part can be cleaned to the root although the path is not made of slashes followed by
  other bytes: \<open>Dir("/a/../b")\<close> is \<open>/\<close>, where the comment on \<open>Dir\<close> says that in any other case the result does not end in a slash.
\<close>

theorem path_lexical:
  "Clean path = Inr (clean_path path) \<and> Clean (clean_path path) = Inr (clean_path path) \<and>
   (\<exists>xs. clean_elems (is_rooted path) xs \<and> foldl (clean_elem (is_rooted path)) [] (path_elems path) = xs \<and>
      clean_path path = (if render_path (is_rooted path) xs = [] then [path_dot] else render_path (is_rooted path) xs)) \<and>
   (last (clean_path path) = path_slash \<longrightarrow> clean_path path = [path_slash]) \<and>
   (q \<noteq> [] \<and> Clean q = Clean path \<longrightarrow> length (clean_path path) \<le> length q) \<and>
   path_IsAbs path = Inr (\<exists>rest. path = path_slash # rest) \<and> path_IsAbs (clean_path path) = path_IsAbs path \<and>
   path_Join elem = Inr (if \<forall>e\<in>set elem. e = [] then [] else clean_path (join_elems (filter (\<lambda>e. e \<noteq> []) elem))) \<and>
   (last_index_byte li \<longrightarrow> parts_ok li path \<and> path_Dir li (bytes_of ''/a/../b'') = Inr [path_slash])"
proof (intro conjI)
  show "q \<noteq> [] \<and> Clean q = Clean path \<longrightarrow> length (clean_path path) \<le> length q"
    using clean_path_length [of q] by (auto simp: Clean_eq)
  show "Clean (clean_path path) = Inr (clean_path path)" by (simp add: Clean_eq clean_path_idem)
  show "path_IsAbs path = Inr (\<exists>rest. path = path_slash # rest)" by (cases path) (simp_all add: IsAbs_eq is_rooted_def)
  show "path_IsAbs (clean_path path) = path_IsAbs path" "last (clean_path path) = path_slash \<longrightarrow> clean_path path = [path_slash]"
    using clean_path_ends [of path] by (simp_all add: IsAbs_eq)
  show "last_index_byte li \<longrightarrow> parts_ok li path \<and> path_Dir li (bytes_of ''/a/../b'') = Inr [path_slash]"
    using parts_ok Dir_up_to_root by blast
qed (rule Clean_eq clean_path_form Join_eq)+

theorem path_lexical_witness:
  "Clean [0x61, 0x2f, 0x2e, 0x2e] = Inr [0x2e] \<and> length [0x2e :: u8] \<le> length [0x2e :: u8, 0x2f] \<and>
   last_index_byte last_index_of \<and> path_Base last_index_of [0x61, 0x2f, 0x2e, 0x2e] = Inr [0x2e, 0x2e] \<and>
   path_Dir last_index_of (bytes_of ''/a/../b'') = Inr [path_slash]"
proof -
  have "clean_path [0x61, 0x2f, 0x2e, 0x2e] = [0x2e]" "clean_path [0x2e, 0x2f] = [0x2e]"
    "path_elems [0x61, 0x2f, 0x2e, 0x2e] = [[0x61], [0x2e, 0x2e]]" by code_simp+
  then show ?thesis
    using path_lexical [of "[0x61, 0x2f, 0x2e, 0x2e]" "[0x2e, 0x2f]" "[]" last_index_of] last_loop.last_index_byte_axioms
    by (simp add: Clean_eq parts_ok_def)
qed

end
