(* ===== verification/Path_Match.thy ===== *)
theory Path_Match
  imports Path Utf8_Correct
begin

text \<open>
  \<open>path.Match\<close>, \<open>src/path/match.go\<close>. \<open>bytealg.IndexByteString\<close> is a parameter, with the contract \<open>index_byte\<close> of theory
  \<open>Go_Prelude\<close>. Patterns and names are decoded by \<open>utf8.DecodeRuneInString\<close> as modelled in theory \<open>Utf8\<close>. The first bytes of
  chunks and names are read with a bounds check.

  The specification is the grammar of the comment on \<open>Match\<close>, as inductive predicates that relate a pattern to its terms
  without the scanner of the program, and two semantics of a list of terms: \<open>doc_match\<close>, where a star covers a sequence of
  characters as the comment says, and \<open>byte_match\<close>, where it covers a sequence of bytes.
\<close>

section \<open>The package\<close>

datatype pat_err = ErrBadPattern

definition getEsc :: "bytes \<Rightarrow> panic + rune \<times> bytes \<times> pat_err option" where
  "getEsc chunk =
     (case go_or (Inr (length chunk = 0)) (go_or (byte_is chunk 0 0x2d) (byte_is chunk 0 0x5d)) of Inl e \<Rightarrow> Inl e
      | Inr bad \<Rightarrow>
          if bad then Inr (0, [], Some ErrBadPattern)
          else
            (case byte_is chunk 0 0x5c of Inl e \<Rightarrow> Inl e
             | Inr esc \<Rightarrow>
                 (let chunk' = (if esc then drop 1 chunk else chunk)
                  in if esc \<and> length chunk' = 0 then Inr (0, [], Some ErrBadPattern)
                     else
                       (case DecodeRuneInString chunk' of (r, n) \<Rightarrow>
                          (let nchunk = drop n chunk'
                           in Inr (r, nchunk, if r = RuneError \<and> n = 1 \<or> length nchunk = 0 then Some ErrBadPattern else None))))))"

text \<open>The same without the checks, which never fail.\<close>

definition esc_char :: "bytes \<Rightarrow> rune \<times> bytes \<times> pat_err option" where
  "esc_char chunk =
     (if length chunk = 0 \<or> chunk ! 0 = 0x2d \<or> chunk ! 0 = 0x5d then (0, [], Some ErrBadPattern)
      else
        (let chunk' = (if chunk ! 0 = 0x5c then drop 1 chunk else chunk)
         in if length chunk' = 0 then (0, [], Some ErrBadPattern)
            else
              (case DecodeRuneInString chunk' of (r, n) \<Rightarrow>
                 (let nchunk = drop n chunk'
                  in (r, nchunk, if r = RuneError \<and> n = 1 \<or> length nchunk = 0 then Some ErrBadPattern else None)))))"

lemma esc_char_shorter: "esc_char chunk = (r, nchunk, None) \<Longrightarrow> nchunk \<noteq> [] \<and> length nchunk < length chunk"
proof -
  assume g: "esc_char chunk = (r, nchunk, None)"
  define c where "c = (if chunk ! 0 = 0x5c then drop 1 chunk else chunk)"
  have c: "c \<noteq> []" "length c \<le> length chunk" using g by (auto simp: esc_char_def c_def Let_def split: if_splits prod.splits)
  obtain r' n where d: "DecodeRuneInString c = (r', n)" by fastforce
  then have "nchunk = drop n c" "nchunk \<noteq> []" using g c by (auto simp: esc_char_def Let_def d simp flip: c_def split: if_splits)
  then show ?thesis using DecodeRune_bounds [OF c(1) d] c by auto
qed

lemma byte_is_0: "byte_is s 0 c = (if s = [] then Inl IndexOutOfRange else Inr (s ! 0 = c))"
  using byte_is_nat [of s 0 c] by simp

lemma getEsc_eq: "getEsc chunk = Inr (esc_char chunk)"
  by (auto simp: getEsc_def esc_char_def byte_is_0 Let_def split: prod.split)

text \<open>The loop over the ranges of a class: an error, or whether \<open>r\<close> is in one of them and the rest of the chunk.\<close>

function match_ranges :: "rune \<Rightarrow> bytes \<Rightarrow> bool \<Rightarrow> nat \<Rightarrow> panic + pat_err + bool \<times> bytes" where
  "match_ranges r chunk m nrange =
     (case go_and (Inr (length chunk > 0)) (go_and (byte_is chunk 0 0x5d) (Inr (nrange > 0))) of Inl e \<Rightarrow> Inl e
      | Inr closed \<Rightarrow>
          if closed then Inr (Inr (m, drop 1 chunk))
          else
            (case getEsc chunk of Inl e \<Rightarrow> Inl e
             | Inr (lo, chunk1, Some e) \<Rightarrow> Inr (Inl e)
             | Inr (lo, chunk1, None) \<Rightarrow>
                 (case byte_is chunk1 0 0x2d of Inl e \<Rightarrow> Inl e
                  | Inr dash \<Rightarrow>
                      (case (if dash then getEsc (drop 1 chunk1) else Inr (lo, chunk1, None)) of Inl e \<Rightarrow> Inl e
                       | Inr (hi, chunk2, Some e) \<Rightarrow> Inr (Inl e)
                       | Inr (hi, chunk2, None) \<Rightarrow>
                           match_ranges r chunk2 (m \<or> sint lo \<le> sint r \<and> sint r \<le> sint hi) (nrange + 1)))))"
  by auto
termination
proof (relation "measure (\<lambda>(r, chunk, m, n). length chunk)", goal_cases)
  case (2 r chunk m nrange closed p1 lo x chunk1 y dash p2 hi z chunk2 w)
  have "esc_char chunk = (lo, chunk1, None)" using 2(3-6) by (simp add: getEsc_eq)
  moreover have "(if dash then esc_char (drop 1 chunk1) else (lo, chunk1, None)) = (hi, chunk2, None)"
    using 2(8-11) by (simp add: getEsc_eq split: if_splits)
  ultimately have "length chunk2 < length chunk" by (auto dest!: esc_char_shorter split: if_splits)
  then show ?case by simp
qed simp

declare match_ranges.simps [simp del]

lemma match_ranges_eq:
  "match_ranges r chunk m nrange =
     (if length chunk > 0 \<and> chunk ! 0 = 0x5d \<and> nrange > 0 then Inr (Inr (m, drop 1 chunk))
      else
        (case esc_char chunk of
           (lo, chunk1, Some e) \<Rightarrow> Inr (Inl e)
         | (lo, chunk1, None) \<Rightarrow>
             if length chunk1 = 0 then Inl IndexOutOfRange
             else
               (case (if chunk1 ! 0 = 0x2d then esc_char (drop 1 chunk1) else (lo, chunk1, None)) of
                  (hi, chunk2, Some e) \<Rightarrow> Inr (Inl e)
                | (hi, chunk2, None) \<Rightarrow>
                    match_ranges r chunk2 (m \<or> sint lo \<le> sint r \<and> sint r \<le> sint hi) (nrange + 1))))"
proof (cases "length chunk > 0 \<and> chunk ! 0 = 0x5d \<and> nrange > 0")
  case True
  then show ?thesis by (subst match_ranges.simps) (simp add: byte_is_0)
next
  case False
  then have c: "go_and (Inr (length chunk > 0)) (go_and (byte_is chunk 0 0x5d) (Inr (nrange > 0))) = Inr False"
    by (cases "chunk = []") (auto simp: byte_is_0)
  obtain lo chunk1 e where g: "esc_char chunk = (lo, chunk1, e)" using prod_cases3 by blast
  obtain hi chunk2 e' where g': "(if chunk1 ! 0 = 0x2d then esc_char (drop 1 chunk1) else (lo, chunk1, None)) = (hi, chunk2, e')"
    using prod_cases3 by blast
  then have "(if chunk1 ! 0 = 0x2d then getEsc (drop 1 chunk1) else Inr (lo, chunk1, None)) = Inr (hi, chunk2, e')" by (simp add: getEsc_eq split: if_splits)
  then show ?thesis using c g g' unfolding if_not_P [OF False]
    by (subst match_ranges.simps) (cases e; cases e'; simp add: getEsc_eq [of chunk] byte_is_0 [of chunk1])
qed

lemma match_ranges_shorter: "match_ranges r chunk m n = Inr (Inr (b, rest)) \<Longrightarrow> length rest < length chunk"
proof (induction "length chunk" arbitrary: chunk m n rule: less_induct)
  case less
  show ?case
  proof (cases "length chunk > 0 \<and> chunk ! 0 = 0x5d \<and> n > 0")
    case True
    then show ?thesis using less.prems by (simp add: match_ranges_eq [of r chunk]) auto
  next
    case False
    obtain lo chunk1 hi chunk2 where g: "esc_char chunk = (lo, chunk1, None)" "chunk1 \<noteq> []"
      "(if chunk1 ! 0 = 0x2d then esc_char (drop 1 chunk1) else (lo, chunk1, None)) = (hi, chunk2, None)"
      "match_ranges r chunk2 (m \<or> sint lo \<le> sint r \<and> sint r \<le> sint hi) (n + 1) = Inr (Inr (b, rest))"
      using less.prems False unfolding match_ranges_eq [of r chunk] by (auto split: if_splits prod.splits option.splits)
    have "length chunk2 < length chunk" using g(1-3) by (auto dest!: esc_char_shorter split: if_splits)
    then show ?thesis using less.hyps g(4) by fastforce
  qed
qed

text \<open>\<open>matchChunk\<close> from the current chunk, name and \<open>failed\<close> on: the rest of the name, whether it matched, the error.\<close>

function matchChunk_loop :: "bytes \<Rightarrow> bytes \<Rightarrow> bool \<Rightarrow> panic + bytes \<times> bool \<times> pat_err option" where
  "matchChunk_loop chunk s failed =
     (if length chunk > 0 then
        (let failed = (failed \<or> length s = 0) in
         if chunk ! 0 = 0x5b then
           (case (if \<not> failed then (case DecodeRuneInString s of (r, n) \<Rightarrow> (r, drop n s)) else (0, s)) of (r, s) \<Rightarrow>
              (let chunk1 = drop 1 chunk;
                   negated = (length chunk1 > 0 \<and> chunk1 ! 0 = 0x5e);
                   chunk2 = (if negated then drop 1 chunk1 else chunk1)
               in case match_ranges r chunk2 False 0 of
                    Inl e \<Rightarrow> Inl e
                  | Inr (Inl e) \<Rightarrow> Inr ([], False, Some e)
                  | Inr (Inr (m, chunk3)) \<Rightarrow> matchChunk_loop chunk3 s (failed \<or> m = negated)))
         else if chunk ! 0 = 0x3f then
           (if \<not> failed then
              (case byte_is s 0 path_slash of Inl e \<Rightarrow> Inl e
               | Inr failed \<Rightarrow> matchChunk_loop (drop 1 chunk) (drop (snd (DecodeRuneInString s)) s) failed)
            else matchChunk_loop (drop 1 chunk) s failed)
         else
           (let chunk1 = (if chunk ! 0 = 0x5c then drop 1 chunk else chunk)
            in if length chunk1 = 0 then Inr ([], False, Some ErrBadPattern)
               else if \<not> failed then
                 (case str_at s 0 of Inl e \<Rightarrow> Inl e | Inr b \<Rightarrow> matchChunk_loop (drop 1 chunk1) (drop 1 s) (chunk1 ! 0 \<noteq> b))
               else matchChunk_loop (drop 1 chunk1) s failed))
      else if failed then Inr ([], False, None)
      else Inr (s, True, None))"
  by auto
termination
  by (relation "measure (\<lambda>(chunk, s, f). length chunk)") (auto dest!: match_ranges_shorter split: if_splits)

declare matchChunk_loop.simps [simp del]

definition matchChunk :: "bytes \<Rightarrow> bytes \<Rightarrow> panic + bytes \<times> bool \<times> pat_err option" where
  "matchChunk chunk s = matchChunk_loop chunk s False"

text \<open>The scan for the next star outside a class: its index.\<close>

function scan_loop :: "bytes \<Rightarrow> nat \<Rightarrow> bool \<Rightarrow> nat" where
  "scan_loop pattern i inrange =
     (if i < length pattern then
        if pattern ! i = 0x5c then scan_loop pattern (if i + 1 < length pattern then i + 2 else i + 1) inrange
        else if pattern ! i = 0x5b then scan_loop pattern (i + 1) True
        else if pattern ! i = 0x5d then scan_loop pattern (i + 1) False
        else if pattern ! i = 0x2a \<and> \<not> inrange then i
        else scan_loop pattern (i + 1) inrange
      else length pattern)"
  by auto
termination by (relation "measure (\<lambda>(pattern, i, b). length pattern - i)") auto

declare scan_loop.simps [simp del]

definition scanChunk :: "bytes \<Rightarrow> bool \<times> bytes \<times> bytes" where
  "scanChunk pattern =
     (let p = dropWhile (\<lambda>c. c = 0x2a) pattern;
          star = (length pattern > 0 \<and> pattern ! 0 = 0x2a);
          i = scan_loop p 0 False
      in (star, take i p, drop i p))"

lemma scan_loop_ge: "i \<le> length pattern \<Longrightarrow> i \<le> scan_loop pattern i b \<and> scan_loop pattern i b \<le> length pattern"
proof (induction "length pattern - i" arbitrary: i b rule: less_induct)
  case less
  show ?case
  proof (cases "i < length pattern \<and> \<not> (pattern ! i = 0x2a \<and> \<not> b)")
    case False
    then show ?thesis using less.prems by (subst (1 2) scan_loop.simps) auto
  next
    case True
    define j where "j = (if pattern ! i = 0x5c \<and> i + 1 < length pattern then i + 2 else i + 1)"
    define b' where "b' = (if pattern ! i = 0x5c then b else if pattern ! i = 0x5b then True else if pattern ! i = 0x5d then False else b)"
    have "scan_loop pattern i b = scan_loop pattern j b'" using True by (subst scan_loop.simps) (auto simp: j_def b'_def)
    moreover have j: "i < j" "j \<le> length pattern" using True by (auto simp: j_def)
    moreover have "length pattern - j < length pattern - i" using j by simp
    note less.hyps [OF this j(2), of b']
    ultimately show ?thesis by simp
  qed
qed

lemma scan_loop_pos: "p \<noteq> [] \<Longrightarrow> p ! 0 \<noteq> 0x2a \<Longrightarrow> 0 < scan_loop p 0 b"
proof -
  assume p: "p \<noteq> []" "p ! 0 \<noteq> 0x2a"
  have "1 \<le> scan_loop p 1 b'" "1 < length p \<Longrightarrow> 2 \<le> scan_loop p 2 b'" for b' using scan_loop_ge [of 1 p b'] scan_loop_ge [of 2 p b'] p(1) by (auto simp: Suc_le_eq)
  then show ?thesis using p by (subst scan_loop.simps) (auto simp: Suc_le_eq numeral_2_eq_2 split: if_splits intro: Suc_lessD)
qed

lemma scanChunk_shorter: "pattern \<noteq> [] \<Longrightarrow> scanChunk pattern = (star, chunk, rest) \<Longrightarrow> length rest < length pattern"
proof -
  assume p: "pattern \<noteq> []" "scanChunk pattern = (star, chunk, rest)"
  define q where "q = dropWhile (\<lambda>c. c = 0x2a) pattern"
  have q: "rest = drop (scan_loop q 0 False) q" "length q \<le> length pattern"
    using p(2) length_dropWhile_le [of _ pattern] by (auto simp: scanChunk_def Let_def q_def)
  show ?thesis
  proof (cases "q = []")
    case True
    then show ?thesis using p(1) q(1) by simp
  next
    case False
    then have "q ! 0 \<noteq> 0x2a" using hd_dropWhile [of "\<lambda>c. c = 0x2a" pattern] by (simp add: q_def hd_conv_nth)
    then have "length rest < length q" using scan_loop_pos [OF False] q(1) False by simp
    then show ?thesis using q(2) by simp
  qed
qed

text \<open>The search behind a star: the rest of the name after the first match that can be used.\<close>

function Match_star :: "bytes \<Rightarrow> bytes \<Rightarrow> bytes \<Rightarrow> nat \<Rightarrow> panic + pat_err + bytes option" where
  "Match_star chunk pattern name i =
     (case go_and (Inr (i < length name)) (go_not (byte_is name (int i) path_slash)) of Inl e \<Rightarrow> Inl e
      | Inr again \<Rightarrow>
          if again then
            (case matchChunk chunk (drop (i + 1) name) of
               Inl e \<Rightarrow> Inl e
             | Inr (t, ok, err) \<Rightarrow>
                 if ok then
                   if length pattern = 0 \<and> length t > 0 then Match_star chunk pattern name (i + 1)
                   else Inr (Inr (Some t))
                 else (case err of Some e \<Rightarrow> Inr (Inl e) | None \<Rightarrow> Match_star chunk pattern name (i + 1)))
          else Inr (Inr None))"
  by auto
termination by (relation "measure (\<lambda>(chunk, pattern, name, i). length name - i)") (auto simp: byte_is_nat split: if_splits)

declare Match_star.simps [simp del]

lemma Match_star_eq:
  "Match_star chunk pattern name i =
     (if i < length name \<and> name ! i \<noteq> path_slash then
        (case matchChunk chunk (drop (i + 1) name) of
           Inl e \<Rightarrow> Inl e
         | Inr (t, ok, err) \<Rightarrow>
             if ok then
               if length pattern = 0 \<and> length t > 0 then Match_star chunk pattern name (i + 1)
               else Inr (Inr (Some t))
             else (case err of Some e \<Rightarrow> Inr (Inl e) | None \<Rightarrow> Match_star chunk pattern name (i + 1)))
      else Inr (Inr None))"
  by (subst Match_star.simps) (simp add: byte_is_nat)

text \<open>The check of the rest of the pattern.\<close>

function Match_check :: "bytes \<Rightarrow> panic + bool \<times> pat_err option" where
  "Match_check pattern =
     (if length pattern > 0 then
        (case scanChunk pattern of (star, chunk, rest) \<Rightarrow>
           (case matchChunk chunk [] of
              Inl e \<Rightarrow> Inl e
            | Inr (t, ok, err) \<Rightarrow> (case err of Some e \<Rightarrow> Inr (False, Some e) | None \<Rightarrow> Match_check rest)))
      else Inr (False, None))"
  by auto
termination by (relation "measure length") (auto intro: scanChunk_shorter [OF _ sym])

declare Match_check.simps [simp del]

function Match :: "index_fun \<Rightarrow> bytes \<Rightarrow> bytes \<Rightarrow> panic + bool \<times> pat_err option" where
  "Match ix pattern name =
     (if length pattern > 0 then
        (case scanChunk pattern of (star, chunk, rest) \<Rightarrow>
           if star \<and> chunk = [] then Inr (ix name path_slash < 0, None)
           else
             (case matchChunk chunk name of
                Inl e \<Rightarrow> Inl e
              | Inr (t, ok, err) \<Rightarrow>
                  if ok \<and> (length t = 0 \<or> length rest > 0) then Match ix rest t
                  else
                    (case err of Some e \<Rightarrow> Inr (False, Some e)
                     | None \<Rightarrow>
                         (case (if star then Match_star chunk rest name 0 else Inr (Inr None)) of
                            Inl e \<Rightarrow> Inl e
                          | Inr (Inl e) \<Rightarrow> Inr (False, Some e)
                          | Inr (Inr (Some t)) \<Rightarrow> Match ix rest t
                          | Inr (Inr None) \<Rightarrow> Match_check rest))))
      else Inr (length name = 0, None))"
  by auto
termination by (relation "measure (\<lambda>(ix, pattern, name). length pattern)") (auto intro: scanChunk_shorter [OF _ sym])

declare Match.simps [simp del]

section \<open>Patterns as data\<close>

datatype glob_item = GLit u8 | GAny | GClass bool "(rune \<times> rune) list"

text \<open>The ranges of a class and the rest of the chunk; \<open>None\<close> for a malformed class.\<close>

function parse_ranges :: "bytes \<Rightarrow> bool \<Rightarrow> ((rune \<times> rune) list \<times> bytes) option" where
  "parse_ranges chunk seen =
     (if chunk \<noteq> [] \<and> hd chunk = 0x5d \<and> seen then Some ([], tl chunk)
      else
        (case esc_char chunk of
           (lo, chunk1, Some e) \<Rightarrow> None
         | (lo, chunk1, None) \<Rightarrow>
             (case (if hd chunk1 = 0x2d then esc_char (tl chunk1) else (lo, chunk1, None)) of
                (hi, chunk2, Some e) \<Rightarrow> None
              | (hi, chunk2, None) \<Rightarrow> map_option (\<lambda>(rs, rest). ((lo, hi) # rs, rest)) (parse_ranges chunk2 True))))"
  by auto
termination
  by (relation "measure (\<lambda>(chunk, m). length chunk)") (auto dest!: esc_char_shorter sym [of "(_, _, _)"] split: if_splits)

declare parse_ranges.simps [simp del]

definition in_ranges :: "rune \<Rightarrow> (rune \<times> rune) list \<Rightarrow> bool" where
  "in_ranges r rs \<longleftrightarrow> (\<exists>(lo, hi)\<in>set rs. sint lo \<le> sint r \<and> sint r \<le> sint hi)"

lemma match_ranges_parse:
  "match_ranges r chunk m n =
     Inr (case parse_ranges chunk (n > 0) of None \<Rightarrow> Inl ErrBadPattern | Some (rs, rest) \<Rightarrow> Inr (m \<or> in_ranges r rs, rest))"
proof (induction "length chunk" arbitrary: chunk m n rule: less_induct)
  case less
  have e: "(e :: pat_err) = ErrBadPattern" for e by (cases e) simp
  show ?case
  proof (cases "chunk \<noteq> [] \<and> hd chunk = 0x5d \<and> n > 0")
    case True
    then show ?thesis unfolding match_ranges_eq [of r chunk] parse_ranges.simps [of chunk]
      by (cases chunk) (simp_all add: in_ranges_def)
  next
    case F: False
    have F': "\<not> (length chunk > 0 \<and> chunk ! 0 = 0x5d \<and> n > 0)" using F by (cases chunk) auto
    obtain lo chunk1 e1 where g1: "esc_char chunk = (lo, chunk1, e1)" using prod_cases3 by blast
    show ?thesis
    proof (cases e1)
      case (Some x)
      then show ?thesis unfolding match_ranges_eq [of r chunk] parse_ranges.simps [of chunk] if_not_P [OF F'] if_not_P [OF F]
        using g1 e [of x] by simp
    next
      case None
      then have c1: "chunk1 \<noteq> []" "length chunk1 < length chunk" using esc_char_shorter g1 by auto
      obtain hi chunk2 e2 where g2: "(if chunk1 ! 0 = 0x2d then esc_char (drop 1 chunk1) else (lo, chunk1, None)) = (hi, chunk2, e2)"
        using prod_cases3 by blast
      then have g2': "(if hd chunk1 = 0x2d then esc_char (tl chunk1) else (lo, chunk1, None)) = (hi, chunk2, e2)"
        using c1(1) by (cases chunk1) (auto split: if_splits)
      show ?thesis
      proof (cases e2)
        case (Some x)
        then show ?thesis unfolding match_ranges_eq [of r chunk] parse_ranges.simps [of chunk] if_not_P [OF F'] if_not_P [OF F]
          using g1 None g2 g2' c1(1) e [of x] by simp
      next
        case N2: None
        have "length chunk2 < length chunk" using g2 c1 N2 by (auto dest!: esc_char_shorter split: if_splits)
        note IH = less.hyps [OF this, of "m \<or> sint lo \<le> sint r \<and> sint r \<le> sint hi" "n + 1"]
        have "match_ranges r chunk m n = match_ranges r chunk2 (m \<or> sint lo \<le> sint r \<and> sint r \<le> sint hi) (n + 1)"
          unfolding match_ranges_eq [of r chunk] if_not_P [OF F'] using g1 None g2 N2 c1(1) by simp
        moreover have "parse_ranges chunk (n > 0) = map_option (\<lambda>(rs, rest). ((lo, hi) # rs, rest)) (parse_ranges chunk2 True)"
          unfolding parse_ranges.simps [of chunk] if_not_P [OF F] using g1 None g2' N2 by simp
        ultimately show ?thesis using IH by (auto simp: in_ranges_def split: option.split)
      qed
    qed
  qed
qed

lemma parse_ranges_shorter: "parse_ranges chunk seen = Some (rs, rest) \<Longrightarrow> length rest < length chunk"
  using match_ranges_parse [of 0 chunk False "of_bool seen"] match_ranges_shorter [of 0 chunk False "of_bool seen"] by auto

function parse_chunk :: "bytes \<Rightarrow> glob_item list option" where
  "parse_chunk chunk =
     (if chunk = [] then Some []
      else if hd chunk = 0x5b then
        (let negated = (tl chunk \<noteq> [] \<and> hd (tl chunk) = 0x5e)
         in case parse_ranges (if negated then tl (tl chunk) else tl chunk) False of
              None \<Rightarrow> None
            | Some (rs, rest) \<Rightarrow> map_option ((#) (GClass negated rs)) (parse_chunk rest))
      else if hd chunk = 0x3f then map_option ((#) GAny) (parse_chunk (tl chunk))
      else
        (let c = (if hd chunk = 0x5c then tl chunk else chunk)
         in if c = [] then None else map_option ((#) (GLit (hd c))) (parse_chunk (tl c))))"
  by auto
termination
  by (relation "measure length") (auto dest!: parse_ranges_shorter split: if_splits simp: Let_def)

declare parse_chunk.simps [simp del]

text \<open>One item at the front of a name: the rest of the name.\<close>

definition item_step :: "glob_item \<Rightarrow> bytes \<Rightarrow> bytes option" where
  "item_step it s =
     (if s = [] then None
      else case it of
        GLit b \<Rightarrow> if hd s = b then Some (tl s) else None
      | GAny \<Rightarrow> if hd s \<noteq> path_slash then Some (drop (snd (DecodeRuneInString s)) s) else None
      | GClass negated rs \<Rightarrow>
          if in_ranges (fst (DecodeRuneInString s)) rs \<noteq> negated then Some (drop (snd (DecodeRuneInString s)) s) else None)"

fun run_items :: "glob_item list \<Rightarrow> bytes \<Rightarrow> bytes option" where
  "run_items [] s = Some s"
| "run_items (it # its) s = (case item_step it s of None \<Rightarrow> None | Some t \<Rightarrow> run_items its t)"

definition chunk_result :: "glob_item list option \<Rightarrow> bytes \<Rightarrow> bool \<Rightarrow> bytes \<times> bool \<times> pat_err option" where
  "chunk_result p s failed =
     (case p of
        None \<Rightarrow> ([], False, Some ErrBadPattern)
      | Some its \<Rightarrow> (case (if failed then None else run_items its s) of None \<Rightarrow> ([], False, None) | Some t \<Rightarrow> (t, True, None)))"

lemma chunk_result_cons:
  "item_step it s = Some t \<Longrightarrow> \<not> failed \<Longrightarrow> chunk_result (map_option ((#) it) p) s failed = chunk_result p t False"
  "failed \<or> item_step it s = None \<Longrightarrow> chunk_result (map_option ((#) it) p) s failed = chunk_result p t True"
  by (auto simp: chunk_result_def split: option.split)

lemma matchChunk_loop_parse: "matchChunk_loop chunk s failed = Inr (chunk_result (parse_chunk chunk) s failed)"
proof (induction "length chunk" arbitrary: chunk s failed rule: less_induct)
  case less
  note IH = less.hyps and loop = matchChunk_loop.simps [of chunk s failed, unfolded Let_def] and parse = parse_chunk.simps [of chunk, unfolded Let_def]
  define f where "f \<longleftrightarrow> failed \<or> s = []"
  have fs: "(failed \<or> length s = 0) = f" by (auto simp: f_def)
  have st: "f \<Longrightarrow> failed \<or> item_step it s = None" "\<not> f \<Longrightarrow> \<not> failed \<and> s \<noteq> []" for it by (auto simp: f_def item_step_def)
  show ?case
  proof (cases chunk)
    case Nil
    then show ?thesis by (simp add: matchChunk_loop.simps [of "[]"] parse_chunk.simps [of "[]"] chunk_result_def)
  next
    case (Cons c cs)
    consider "c = 0x5b" | "c = 0x3f" | "c \<noteq> 0x5b" "c \<noteq> 0x3f" by blast
    then show ?thesis
    proof cases
      case 1
      define neg where "neg \<longleftrightarrow> cs \<noteq> [] \<and> hd cs = 0x5e"
      define cs' where "cs' = (if neg then tl cs else cs)"
      have n: "(length (drop 1 chunk) > 0 \<and> drop 1 chunk ! 0 = 0x5e) = neg" "(if neg then drop 1 (drop 1 chunk) else drop 1 chunk) = cs'"
        using Cons by (auto simp: neg_def cs'_def hd_conv_nth drop_Suc)
      define r t where "r = (if \<not> f then fst (DecodeRuneInString s) else 0)" and "t = (if \<not> f then drop (snd (DecodeRuneInString s)) s else s)"
      have d: "(if \<not> f then (case DecodeRuneInString s of (r, n) \<Rightarrow> (r, drop n s)) else (0, s)) = (r, t)"
        by (simp add: r_def t_def split: prod.split)
      have l: "matchChunk_loop chunk s failed =
          (case match_ranges r cs' False 0 of Inl e \<Rightarrow> Inl e | Inr (Inl e) \<Rightarrow> Inr ([], False, Some e)
           | Inr (Inr (m, c3)) \<Rightarrow> matchChunk_loop c3 t (f \<or> m = neg))"
        unfolding loop fs d n using Cons 1 by simp
      have p: "parse_chunk chunk = (case parse_ranges cs' False of None \<Rightarrow> None | Some (rs, rest) \<Rightarrow> map_option ((#) (GClass neg rs)) (parse_chunk rest))"
      proof -
        have t: "hd chunk = 0x5b" "tl chunk = cs" "chunk \<noteq> []" using Cons 1 by simp_all
        then show ?thesis unfolding parse t neg_def cs'_def by simp
      qed
      show ?thesis
      proof (cases "parse_ranges cs' False")
        case None
        then show ?thesis by (simp add: l p match_ranges_parse chunk_result_def)
      next
        case (Some x)
        obtain rs rest where x: "x = (rs, rest)" by fastforce
        have "length rest < length chunk" using parse_ranges_shorter [of cs' False rs rest] Some x Cons by (simp add: cs'_def split: if_splits)
        then have "matchChunk_loop chunk s failed = Inr (chunk_result (parse_chunk rest) t (f \<or> in_ranges r rs = neg))"
          using IH Some x by (simp add: l match_ranges_parse)
        moreover have "chunk_result (parse_chunk chunk) s failed = chunk_result (parse_chunk rest) t (f \<or> in_ranges r rs = neg)"
        proof (cases "f \<or> in_ranges r rs = neg")
          case True
          then have "failed \<or> item_step (GClass neg rs) s = None" by (auto simp: item_step_def r_def f_def split: if_splits)
          then show ?thesis using True Some x p chunk_result_cons(2) by simp
        next
          case False
          then have "item_step (GClass neg rs) s = Some t" using st(2) by (auto simp: item_step_def r_def t_def)
          then show ?thesis using False st(2) Some x p by (simp add: chunk_result_cons(1))
        qed
        ultimately show ?thesis by simp
      qed
    next
      case 2
      have p: "parse_chunk chunk = map_option ((#) GAny) (parse_chunk cs)" unfolding parse using Cons 2 by simp
      show ?thesis
      proof (cases f)
        case True
        then have "matchChunk_loop chunk s failed = matchChunk_loop cs s True" unfolding loop fs using Cons 2 by simp
        moreover have "chunk_result (parse_chunk chunk) s failed = chunk_result (parse_chunk cs) s True"
          unfolding p by (rule chunk_result_cons(2) [OF st(1) [OF True]])
        ultimately show ?thesis using IH [of cs s True] Cons by simp
      next
        case False
        then have l: "matchChunk_loop chunk s failed = matchChunk_loop cs (drop (snd (DecodeRuneInString s)) s) (hd s = path_slash)"
          unfolding loop fs using Cons 2 st(2) by (simp add: hd_conv_nth byte_is_0)
        show ?thesis
        proof (cases "hd s = path_slash")
          case True
          then have "failed \<or> item_step GAny s = None" by (simp add: item_step_def)
          then show ?thesis using IH [of cs] Cons l p True chunk_result_cons(2) by simp
        next
          case F2: False
          then have "item_step GAny s = Some (drop (snd (DecodeRuneInString s)) s)" using st(2) False by (simp add: item_step_def)
          then show ?thesis using IH [of cs] Cons l p F2 st(2) [OF False] by (simp add: chunk_result_cons(1))
        qed
      qed
    next
      case 3
      define c' where "c' = (if c = 0x5c then cs else chunk)"
      have c': "(if chunk ! 0 = 0x5c then drop 1 chunk else chunk) = c'" using Cons by (simp add: c'_def)
      show ?thesis
      proof (cases c')
        case Nil
        have "matchChunk_loop chunk s failed = Inr ([], False, Some ErrBadPattern)" unfolding loop fs c' using Cons 3 Nil by simp
        moreover have "parse_chunk chunk = None" unfolding parse using Cons 3 Nil by (simp add: c'_def split: if_splits)
        ultimately show ?thesis by (simp add: chunk_result_def)
      next
        case d: (Cons b ds)
        have p: "parse_chunk chunk = map_option ((#) (GLit b)) (parse_chunk ds)" unfolding parse using Cons 3 d by (simp add: c'_def split: if_splits)
        have ln: "length ds < length chunk" using Cons d by (auto simp: c'_def split: if_splits)
        show ?thesis
        proof (cases f)
          case True
          then have "matchChunk_loop chunk s failed = matchChunk_loop ds s True" unfolding loop fs c' using Cons 3 d by simp
          moreover have "chunk_result (parse_chunk chunk) s failed = chunk_result (parse_chunk ds) s True"
            unfolding p by (rule chunk_result_cons(2) [OF st(1) [OF True]])
          ultimately show ?thesis using IH [OF ln, of s True] by simp
        next
          case False
          then have l: "matchChunk_loop chunk s failed = matchChunk_loop ds (tl s) (b \<noteq> hd s)"
            unfolding loop fs c' using Cons 3 d st(2) by (simp add: hd_conv_nth drop_Suc str_at_def)
          show ?thesis
          proof (cases "b = hd s")
            case True
            then have "item_step (GLit b) s = Some (tl s)" using st(2) False by (simp add: item_step_def)
            then show ?thesis using IH [OF ln] l p True st(2) [OF False] by (simp add: chunk_result_cons(1))
          next
            case F2: False
            then have "failed \<or> item_step (GLit b) s = None" by (simp add: item_step_def)
            then show ?thesis using IH [OF ln] l p F2 chunk_result_cons(2) by simp
          qed
        qed
      qed
    qed
  qed
qed

section \<open>The greedy matcher\<close>

text \<open>The chunks of a pattern with their stars; \<open>None\<close> for a malformed one.\<close>

function parse_pattern :: "bytes \<Rightarrow> (bool \<times> glob_item list) list option" where
  "parse_pattern pattern =
     (if pattern = [] then Some []
      else
        (case scanChunk pattern of (star, chunk, rest) \<Rightarrow>
           (case parse_chunk chunk of None \<Rightarrow> None
            | Some its \<Rightarrow> map_option ((#) (star, its)) (parse_pattern rest))))"
  by auto
termination by (relation "measure length") (auto intro: scanChunk_shorter [OF _ sym])

declare parse_pattern.simps [simp del]

text \<open>Which starts of a chunk can be used: behind \<open>k\<close> bytes that the star covers.\<close>

definition usable :: "bool \<Rightarrow> glob_item list \<Rightarrow> bool \<Rightarrow> bytes \<Rightarrow> nat \<Rightarrow> bool" where
  "usable star its final s k \<longleftrightarrow>
     k \<le> length s \<and> (star \<or> k = 0) \<and> path_slash \<notin> set (take k s) \<and>
     (case run_items its (drop k s) of None \<Rightarrow> False | Some t \<Rightarrow> final \<longrightarrow> t = [])"

lemma usable_iff:
  "usable star its final s k \<longleftrightarrow>
     k \<le> length s \<and> (star \<or> k = 0) \<and> path_slash \<notin> set (take k s) \<and>
     (\<exists>t. run_items its (drop k s) = Some t \<and> (final \<longrightarrow> t = []))"
  by (simp add: usable_def split: option.split)

fun greedy :: "(bool \<times> glob_item list) list \<Rightarrow> bytes \<Rightarrow> bool" where
  "greedy [] s = (s = [])"
| "greedy ((star, its) # ps) s =
     (case List.find (usable star its (ps = []) s) [0..<Suc (length s)] of
        None \<Rightarrow> False
      | Some k \<Rightarrow> greedy ps (the (run_items its (drop k s))))"

lemma matchChunk_parse: "matchChunk chunk s = Inr (chunk_result (parse_chunk chunk) s False)"
  by (simp add: matchChunk_def matchChunk_loop_parse)

lemma Match_check_parse:
  "Match_check pattern = Inr (False, if parse_pattern pattern = None then Some ErrBadPattern else None)"
proof (induction "length pattern" arbitrary: pattern rule: less_induct)
  case less
  show ?case
  proof (cases "pattern = []")
    case True
    then show ?thesis by (simp add: Match_check.simps parse_pattern.simps)
  next
    case False
    obtain star chunk rest where sc: "scanChunk pattern = (star, chunk, rest)" using prod_cases3 by blast
    note IH = less.hyps [OF scanChunk_shorter [OF False sc]]
    show ?thesis unfolding Match_check.simps [of pattern] parse_pattern.simps [of pattern]
      using False sc IH by (auto simp: matchChunk_parse chunk_result_def split: option.split)
  qed
qed

lemma run_items_suffix_ok: "run_items its s = Some t \<Longrightarrow> \<exists>u. s = u @ t"
proof (induction its arbitrary: s)
  case (Cons it its)
  obtain s' where s': "item_step it s = Some s'" "run_items its s' = Some t" using Cons.prems by (auto split: option.splits)
  have "s' = drop 1 s \<or> s' = drop (snd (DecodeRuneInString s)) s"
    using s'(1) by (auto simp: item_step_def drop_Suc split: if_splits glob_item.splits)
  then show ?case using Cons.IH [OF s'(2)] by (metis append_take_drop_id append.assoc)
qed simp

text \<open>The loop behind a star finds the first usable start.\<close>

lemma Match_star_find:
  assumes "parse_chunk chunk = Some its" "i \<le> length name" "path_slash \<notin> set (take i name)"
  shows "Match_star chunk rest name i =
     Inr (Inr (map_option (\<lambda>k. the (run_items its (drop k name))) (List.find (usable True its (rest = []) name) [Suc i..<Suc (length name)])))"
  using assms(2,3)
proof (induction "length name - i" arbitrary: i rule: less_induct)
  case less
  show ?case
  proof (cases "i < length name \<and> name ! i \<noteq> path_slash")
    case False
    have "List.find (usable True its (rest = []) name) [Suc i..<Suc (length name)] = None"
    proof (cases "i < length name")
      case True
      then have s: "name ! i = path_slash" using False by simp
      have "\<not> usable True its (rest = []) name k" if "k \<in> set [Suc i..<Suc (length name)]" for k
      proof -
        have "path_slash \<in> set (take k name)" using s that True by (auto simp: in_set_conv_nth intro!: exI [of _ i])
        then show ?thesis by (simp add: usable_iff)
      qed
      then show ?thesis by (auto simp: find_None_iff)
    next
      case False
      then show ?thesis using less.prems by simp
    qed
    then show ?thesis using False by (subst Match_star_eq) auto
  next
    case True
    have up: "[Suc i..<Suc (length name)] = Suc i # [Suc (Suc i)..<Suc (length name)]" using True by (simp add: upt_conv_Cons)
    have ns: "path_slash \<notin> set (take (Suc i) name)" using True less.prems by (auto simp: take_Suc_conv_app_nth)
    have u: "usable True its (rest = []) name (Suc i) \<longleftrightarrow> (\<exists>t. run_items its (drop (Suc i) name) = Some t \<and> (rest = [] \<longrightarrow> t = []))"
      using True ns by (simp add: usable_iff)
    have IH: "Match_star chunk rest name (Suc i) = Inr (Inr (map_option (\<lambda>k. the (run_items its (drop k name))) (List.find (usable True its (rest = []) name) [Suc (Suc i)..<Suc (length name)])))"
      using less.hyps [of "Suc i"] True ns by simp
    show ?thesis using True assms(1) IH u unfolding up
      by (subst Match_star_eq) (auto simp: matchChunk_parse chunk_result_def split: option.split)
  qed
qed

lemma scanChunk_empty: "pattern \<noteq> [] \<Longrightarrow> scanChunk pattern = (star, [], rest) \<Longrightarrow> rest = []"
proof -
  assume p: "pattern \<noteq> []" "scanChunk pattern = (star, [], rest)"
  define q where "q = dropWhile (\<lambda>c. c = 0x2a) pattern"
  have q: "rest = drop (scan_loop q 0 False) q" "take (scan_loop q 0 False) q = []"
    using p(2) by (auto simp: scanChunk_def Let_def q_def)
  have "q = [] \<or> q ! 0 \<noteq> 0x2a" using hd_dropWhile [of "\<lambda>c. c = 0x2a" pattern] unfolding q_def [symmetric] by (metis hd_conv_nth)
  then show ?thesis using scan_loop_pos [of q False] q by (cases "q = []") simp_all
qed

lemma parse_pattern_Nil: "parse_pattern pattern = Some ps \<Longrightarrow> ps = [] \<longleftrightarrow> pattern = []"
  by (subst (asm) parse_pattern.simps) (auto split: if_splits prod.splits option.splits)

lemma find_upt_0: "List.find P [0..<Suc n] = (if P 0 then Some 0 else List.find P [1..<Suc n])"
  by (subst upt_conv_Cons) (simp_all del: upt_Suc)

lemma greedy_star: "greedy [(True, [])] s \<longleftrightarrow> path_slash \<notin> set s"
proof -
  have u: "usable True [] True s k \<longleftrightarrow> k = length s \<and> path_slash \<notin> set s" for k by (auto simp: usable_iff)
  show ?thesis
  proof (cases "List.find (usable True [] True s) [0..<Suc (length s)]")
    case None
    then have "\<not> usable True [] True s (length s)" by (auto simp: find_None_iff)
    then show ?thesis using None u by simp
  next
    case (Some k)
    then have "usable True [] True s k" by (auto simp: find_Some_iff)
    then show ?thesis using Some u by simp
  qed
qed

lemma Match_greedy:
  assumes "index_byte ix"
  shows "Match ix pattern name =
     Inr (case parse_pattern pattern of None \<Rightarrow> (False, Some ErrBadPattern) | Some ps \<Rightarrow> (greedy ps name, None))"
proof (induction "length pattern" arbitrary: pattern name rule: less_induct)
  case less
  show ?case
  proof (cases "pattern = []")
    case True
    then show ?thesis by (simp add: Match.simps [of _ "[]"] parse_pattern.simps [of "[]"])
  next
    case False
    obtain star chunk rest where sc: "scanChunk pattern = (star, chunk, rest)" using prod_cases3 by blast
    note IH = less.hyps [OF scanChunk_shorter [OF False sc]]
    have parse: "parse_pattern pattern = (case parse_chunk chunk of None \<Rightarrow> None | Some its \<Rightarrow> map_option ((#) (star, its)) (parse_pattern rest))"
      using False sc by (simp add: parse_pattern.simps [of pattern])
    have match: "Match ix pattern name =
       (if star \<and> chunk = [] then Inr (path_slash \<notin> set name, None)
        else case chunk_result (parse_chunk chunk) name False of (t, ok, err) \<Rightarrow>
          if ok \<and> (length t = 0 \<or> length rest > 0) then Match ix rest t
          else (case err of Some e \<Rightarrow> Inr (False, Some e)
             | None \<Rightarrow> (case (if star then Match_star chunk rest name 0 else Inr (Inr None)) of
                  Inl e \<Rightarrow> Inl e | Inr (Inl e) \<Rightarrow> Inr (False, Some e)
                | Inr (Inr (Some t)) \<Rightarrow> Match ix rest t | Inr (Inr None) \<Rightarrow> Match_check rest)))"
      using False sc index_byte.index_first [OF assms, of name path_slash] by (simp add: Match.simps [of ix pattern] matchChunk_parse)
    show ?thesis
    proof (cases "star \<and> chunk = []")
      case True
      then have "rest = []" using scanChunk_empty [OF False] sc by simp
      then have "parse_pattern pattern = Some [(True, [])]"
        using True by (simp add: parse parse_chunk.simps [of "[]"] parse_pattern.simps [of "[]"])
      then show ?thesis using True greedy_star [of name] unfolding match by simp
    next
      case F: False
      show ?thesis
      proof (cases "parse_chunk chunk")
        case None
        then show ?thesis unfolding match parse if_not_P [OF F] by (simp add: chunk_result_def)
      next
        case (Some its)
        define P where "P = usable star its (rest = []) name"
        define res where "res = map_option (\<lambda>k. the (run_items its (drop k name))) (List.find P [0..<Suc (length name)])"
        have "Match ix pattern name = (case res of Some t \<Rightarrow> Match ix rest t | None \<Rightarrow> Match_check rest)"
        proof (cases "P 0")
          case True
          then show ?thesis using Some unfolding match if_not_P [OF F] res_def find_upt_0
            by (auto simp: P_def usable_iff chunk_result_def split: option.split)
        next
          case nP: False
          have "Match ix pattern name = (case (if star then Match_star chunk rest name 0 else Inr (Inr None)) of
                  Inl e \<Rightarrow> Inl e | Inr (Inl e) \<Rightarrow> Inr (False, Some e)
                | Inr (Inr (Some t)) \<Rightarrow> Match ix rest t | Inr (Inr None) \<Rightarrow> Match_check rest)"
            using nP Some unfolding match if_not_P [OF F]
            by (auto simp: P_def usable_iff chunk_result_def split: option.split)
          moreover have "(if star then Match_star chunk rest name 0 else Inr (Inr None)) = Inr (Inr res)"
          proof (cases star)
            case True
            then show ?thesis using Match_star_find [OF Some, of 0 name rest] nP by (simp add: res_def P_def find_upt_0 del: upt_Suc)
          next
            case ns: False
            then have "\<not> P k" for k using nP by (auto simp: P_def usable_iff)
            then show ?thesis using ns by (simp add: res_def find_None_iff)
          qed
          ultimately show ?thesis by (simp split: option.split)
        qed
        moreover have "greedy ((star, its) # ps) name = (case res of None \<Rightarrow> False | Some t \<Rightarrow> greedy ps t)" if "parse_pattern rest = Some ps" for ps
          using parse_pattern_Nil [OF that] by (simp add: res_def P_def split: option.split)
        ultimately show ?thesis using Some IH Match_check_parse [of rest]
          by (auto simp: parse split: option.split)
      qed
    qed
  qed
qed

section \<open>The matches of a list of chunks\<close>

text \<open>A star covers bytes other than slashes, and the chunks follow one another up to the end of the name.\<close>

fun glob :: "(bool \<times> glob_item list) list \<Rightarrow> bytes \<Rightarrow> bool" where
  "glob [] s \<longleftrightarrow> s = []"
| "glob ((star, its) # ps) s \<longleftrightarrow>
     (\<exists>u v t. s = u @ v \<and> (if star then path_slash \<notin> set u else u = []) \<and> run_items its v = Some t \<and> glob ps t)"

lemma glob_starI: "s = u @ v \<Longrightarrow> path_slash \<notin> set u \<Longrightarrow> run_items its v = Some t \<Longrightarrow> glob ps t \<Longrightarrow> glob ((True, its) # ps) s"
  by auto

lemma greedy_sound: "greedy ps s \<Longrightarrow> glob ps s"
proof (induction ps arbitrary: s)
  case (Cons p ps)
  obtain star its where p: "p = (star, its)" by fastforce
  obtain k where k: "List.find (usable star its (ps = []) s) [0..<Suc (length s)] = Some k" "greedy ps (the (run_items its (drop k s)))"
    using Cons.prems p by (auto split: option.splits)
  then have "usable star its (ps = []) s k" by (auto simp: find_Some_iff)
  then obtain t where "run_items its (drop k s) = Some t" "star \<or> k = 0" "path_slash \<notin> set (take k s)" by (auto simp: usable_iff)
  then show ?case using Cons.IH k(2) unfolding p glob.simps
    by (intro exI [of _ "take k s"] exI [of _ "drop k s"] exI [of _ t] conjI) auto
qed simp

section \<open>Completeness\<close>

text \<open>
  On an ASCII name every item takes one byte. An item is strict about slashes when it matches a slash only if it is a
  literal slash; a class can fail this, for instance a negated one.
\<close>

definition ascii_name :: "bytes \<Rightarrow> bool" where
  "ascii_name s \<longleftrightarrow> (\<forall>c\<in>set s. c < RuneSelf)"

definition item_ok :: "glob_item \<Rightarrow> u8 \<Rightarrow> bool" where
  "item_ok it c = (case it of GLit b \<Rightarrow> c = b | GAny \<Rightarrow> c \<noteq> path_slash | GClass negated rs \<Rightarrow> in_ranges (ucast c) rs \<noteq> negated)"

definition slash_strict :: "glob_item \<Rightarrow> bool" where
  "slash_strict it \<longleftrightarrow> (case it of GClass negated rs \<Rightarrow> in_ranges (ucast path_slash) rs = negated | _ \<Rightarrow> True)"

lemma slash_strict_item: "slash_strict it \<Longrightarrow> item_ok it c \<Longrightarrow> item_ok it d \<Longrightarrow> c = path_slash \<longleftrightarrow> d = path_slash"
  by (cases it) (auto simp: slash_strict_def item_ok_def)

lemma DecodeRune_ascii: "c < RuneSelf \<Longrightarrow> DecodeRuneInString (c # s) = (ucast c, 1)"
  by (simp add: DecodeRuneInString_def)

lemma item_step_ascii: "c < RuneSelf \<Longrightarrow> item_step it (c # s) = (if item_ok it c then Some s else None)"
  by (cases it) (simp_all add: item_step_def item_ok_def DecodeRune_ascii)

lemma run_items_ascii:
  "ascii_name s \<Longrightarrow> run_items its s = (if length its \<le> length s \<and> list_all2 item_ok its (take (length its) s) then Some (drop (length its) s) else None)"
proof (induction its arbitrary: s)
  case (Cons it its)
  show ?case
  proof (cases s)
    case Nil
    then show ?thesis by (simp add: item_step_def)
  next
    case (Cons c cs)
    then show ?thesis using Cons.IH [of cs] Cons.prems by (simp add: ascii_name_def item_step_ascii)
  qed
qed (simp add: ascii_name_def)

text \<open>If a chunk matches at two places with only covered bytes between them, it matches no slash at the second.\<close>

lemma shifted_no_slash:
  assumes "w \<noteq> []" "path_slash \<notin> set w" "\<forall>it\<in>set its. slash_strict it"
    and "list_all2 item_ok its (take (length its) (w @ v))" "list_all2 item_ok its (take (length its) v)" "length its \<le> length v"
  shows "path_slash \<notin> set (take (length its) v)"
proof -
  have "v ! k \<noteq> path_slash" if "k < length its" for k
    using that
  proof (induction k rule: less_induct)
    case (less k)
    have k: "item_ok (its ! k) ((w @ v) ! k)" "item_ok (its ! k) (v ! k)" "slash_strict (its ! k)"
      using less.prems assms(3,6) list_all2_nthD [OF assms(4) less.prems] list_all2_nthD [OF assms(5) less.prems]
      by (simp_all del: take_append)
    have "(w @ v) ! k \<noteq> path_slash"
    proof (cases "k < length w")
      case True
      then show ?thesis using assms(2) by (metis nth_append nth_mem)
    next
      case False
      then have "k - length w < k" using assms(1) by (cases w) auto
      then show ?thesis using False less.IH [of "k - length w"] less.prems by (simp add: nth_append)
    qed
    then show ?case using slash_strict_item [OF k(3,1,2)] by simp
  qed
  then show ?thesis using assms(6) by (auto simp: in_set_conv_nth)
qed

lemma glob_covered: "path_slash \<notin> set g \<Longrightarrow> glob ((True, its) # ps) t \<Longrightarrow> glob ((True, its) # ps) (g @ t)"
proof -
  assume g: "path_slash \<notin> set g" "glob ((True, its) # ps) t"
  then obtain u v t' where "t = u @ v" "path_slash \<notin> set u" "run_items its v = Some t'" "glob ps t'" by auto
  then show ?thesis using g(1) by (intro glob_starI [of _ "g @ u" v _ t']) auto
qed

lemma find_upt_first: "P j \<Longrightarrow> j < n \<Longrightarrow> \<exists>k\<le>j. List.find P [0..<n] = Some k \<and> P k"
proof -
  assume j: "P j" "j < n"
  then obtain k where k: "List.find P [0..<n] = Some k" by (cases "List.find P [0..<n]") (auto simp: find_None_iff)
  then obtain i where i: "i < n" "P i" "k = i" "\<forall>j<i. \<not> P ([0..<n] ! j)" by (auto simp: find_Some_iff)
  have "\<not> j < i" using i j by auto
  then show ?thesis using k i by auto
qed

lemma greedy_complete:
  assumes "\<forall>(star, its)\<in>set ps. \<forall>it\<in>set its. slash_strict it" "\<forall>(star, its)\<in>set (tl ps). star" "ascii_name s" "glob ps s"
  shows "greedy ps s"
  using assms
proof (induction ps arbitrary: s)
  case (Cons p ps)
  obtain star its where p: "p = (star, its)" by fastforce
  define n where "n = length its"
  obtain u v t where g: "s = u @ v" "if star then path_slash \<notin> set u else u = []" "run_items its v = Some t" "glob ps t"
    using Cons.prems(4) p by auto
  have av: "ascii_name v" using Cons.prems(3) g(1) by (simp add: ascii_name_def)
  have vt: "t = drop n v" "list_all2 item_ok its (take n v)" "n \<le> length v"
    using g(3) run_items_ascii [OF av, of its] by (auto simp: n_def split: if_splits)
  have us: "path_slash \<notin> set u" "star \<or> u = []" using g(2) by (auto split: if_splits)
  have "usable star its (ps = []) s (length u)" using g us by (auto simp: usable_iff)
  then obtain k where k: "List.find (usable star its (ps = []) s) [0..<Suc (length s)] = Some k" "k \<le> length u" "usable star its (ps = []) s k"
    using find_upt_first [of _ "length u" "Suc (length s)"] g(1) by (auto simp del: upt_Suc)
  define w where "w = drop k u"
  obtain t1 where t1: "run_items its (drop k s) = Some t1" "ps = [] \<longrightarrow> t1 = []" using k(3) by (auto simp: usable_iff)
  have d: "drop k s = w @ v" using g(1) k(2) by (simp add: w_def)
  have aw: "ascii_name (w @ v)" using Cons.prems(3) by (simp add: d [symmetric] ascii_name_def) (meson in_set_dropD)
  have w: "t1 = drop n (w @ v)" "list_all2 item_ok its (take n (w @ v))"
    using t1(1) run_items_ascii [OF aw, of its] by (auto simp: n_def d split: if_splits)
  have "path_slash \<notin> set w" using us(1) by (auto simp: w_def dest: in_set_dropD)
  have "glob ps t1"
  proof (cases "ps = []")
    case True
    then show ?thesis using t1(2) by simp
  next
    case False
    then obtain its' ps' where ps: "ps = (True, its') # ps'" using Cons.prems(2) by (cases ps) auto
    define g' where "g' = take (length w) (drop n (w @ v))"
    have "drop (length w) (drop n (w @ v)) = t" using vt(1) by (simp only: drop_drop) simp
    then have "t1 = g' @ t" unfolding w(1) g'_def by (metis append_take_drop_id)
    moreover have "(w @ v) ! (n + j) \<noteq> path_slash" if "j < length w" "n + j < length (w @ v)" for j
    proof (cases "n + j < length w")
      case True
      then show ?thesis using \<open>path_slash \<notin> set w\<close> by (metis nth_append nth_mem)
    next
      case False
      then have i: "n + j - length w < n" and "w \<noteq> []" using that(1) by auto
      have "path_slash \<notin> set (take n v)"
        using \<open>w \<noteq> []\<close> \<open>path_slash \<notin> set w\<close> Cons.prems(1) p w(2) vt(2,3) unfolding n_def by (intro shifted_no_slash [of w]) auto
      then have "v ! (n + j - length w) \<noteq> path_slash" using i vt(3) by (metis in_set_conv_nth length_take min_absorb2 nth_take)
      then show ?thesis using False by (simp add: nth_append)
    qed
    then have "path_slash \<notin> set g'" by (auto simp: g'_def in_set_conv_nth simp del: drop_append take_append)
    ultimately show ?thesis using g(4) ps glob_covered [of g' its' ps' t] by simp
  qed
  moreover have "ascii_name t1" using aw w(1) by (auto simp: ascii_name_def dest: in_set_dropD)
  moreover have "\<forall>(star, its)\<in>set (tl ps). star" using Cons.prems(2) by (cases ps) auto
  ultimately have "greedy ps t1" using Cons.IH [of t1] Cons.prems(1) by auto
  then show ?case using k(1) t1(1) p by simp
qed simp

text \<open>Every chunk but the first follows a star.\<close>

lemma scan_loop_stop: "scan_loop p i b < length p \<Longrightarrow> p ! scan_loop p i b = 0x2a"
proof (induction "length p - i" arbitrary: i b rule: less_induct)
  case less
  show ?case
  proof (cases "i < length p \<and> \<not> (p ! i = 0x2a \<and> \<not> b)")
    case False
    then have "scan_loop p i b = (if i < length p then i else length p)" by (subst scan_loop.simps) auto
    then show ?thesis using False less.prems by auto
  next
    case True
    define j where "j = (if p ! i = 0x5c \<and> i + 1 < length p then i + 2 else i + 1)"
    define b' where "b' = (if p ! i = 0x5c then b else if p ! i = 0x5b then True else if p ! i = 0x5d then False else b)"
    have e: "scan_loop p i b = scan_loop p j b'" using True by (subst scan_loop.simps) (auto simp: j_def b'_def)
    have "length p - j < length p - i" using True by (auto simp: j_def)
    then show ?thesis using less e by simp
  qed
qed

lemma parse_pattern_stars:
  "parse_pattern p = Some ps \<Longrightarrow> (p = [] \<or> p ! 0 = 0x2a \<longrightarrow> (\<forall>x\<in>set ps. fst x)) \<and> (\<forall>x\<in>set (tl ps). fst x)"
proof (induction "length p" arbitrary: p ps rule: less_induct)
  case less
  show ?case
  proof (cases "p = []")
    case True
    then show ?thesis using less.prems by (simp add: parse_pattern.simps)
  next
    case False
    obtain star chunk rest where sc: "scanChunk p = (star, chunk, rest)" using prod_cases3 by blast
    then obtain its ps' where ps: "ps = (star, its) # ps'" "parse_pattern rest = Some ps'"
      using less.prems False by (subst (asm) parse_pattern.simps) (auto split: option.splits)
    define q where "q = dropWhile (\<lambda>c. c = 0x2a) p"
    have "rest = drop (scan_loop q 0 False) q" "star \<longleftrightarrow> p ! 0 = 0x2a" using sc False by (auto simp: scanChunk_def q_def Let_def)
    moreover have "rest = [] \<or> rest ! 0 = 0x2a" unfolding calculation(1) using scan_loop_stop [of q 0 False] by (cases "scan_loop q 0 False < length q") auto
    ultimately show ?thesis using less.hyps [OF scanChunk_shorter [OF False sc] ps(2)] ps(1) False by auto
  qed
qed

section \<open>The documented grammar\<close>

text \<open>
  The characters and the ranges of a class. A character is a Unicode code point in its UTF-8 encoding.
\<close>

datatype glob_term = TStar | TItem glob_item

inductive class_char :: "bytes \<Rightarrow> rune \<Rightarrow> bool" where
  plain: "ValidRune r \<Longrightarrow> r \<notin> {0x5c, 0x2d, 0x5d} \<Longrightarrow> class_char (rune_enc r) r"
| escaped: "ValidRune r \<Longrightarrow> class_char (0x5c # rune_enc r) r"

inductive char_range :: "bytes \<Rightarrow> rune \<times> rune \<Rightarrow> bool" where
  single: "class_char w r \<Longrightarrow> char_range w (r, r)"
| from_to: "class_char w lo \<Longrightarrow> class_char v hi \<Longrightarrow> char_range (w @ 0x2d # v) (lo, hi)"

inductive char_ranges :: "bytes \<Rightarrow> (rune \<times> rune) list \<Rightarrow> bool" where
  none: "char_ranges [] []"
| one: "char_range w x \<Longrightarrow> char_ranges v rs \<Longrightarrow> char_ranges (w @ v) (x # rs)"

text \<open>
  The terms. Outside a class a byte stands for itself, so that a character of several bytes is as many terms. The grammar leaves open
  whether a circumflex behind the bracket is the negation or the first character of the class; here, as in the program, it is the negation.
\<close>

inductive pat_term :: "bytes \<Rightarrow> glob_term \<Rightarrow> bool" where
  star: "pat_term [0x2a] TStar"
| any: "pat_term [0x3f] (TItem GAny)"
| cls: "char_ranges w rs \<Longrightarrow> rs \<noteq> [] \<Longrightarrow> hd w \<noteq> 0x5e \<Longrightarrow> pat_term (0x5b # w @ [0x5d]) (TItem (GClass False rs))"
| ncls: "char_ranges w rs \<Longrightarrow> rs \<noteq> [] \<Longrightarrow> pat_term (0x5b # 0x5e # w @ [0x5d]) (TItem (GClass True rs))"
| lit: "c \<notin> {0x2a, 0x3f, 0x5c, 0x5b} \<Longrightarrow> pat_term [c] (TItem (GLit c))"
| esc: "pat_term [0x5c, c] (TItem (GLit c))"

inductive pattern_terms :: "bytes \<Rightarrow> glob_term list \<Rightarrow> bool" where
  no_terms: "pattern_terms [] []"
| more_terms: "pat_term w x \<Longrightarrow> pattern_terms p ts \<Longrightarrow> pattern_terms (w @ p) (x # ts)"

inductive_cases pat_term_starE: "pat_term w TStar"

text \<open>The first byte of an encoding tells whether it is the only one, and the others are not ASCII.\<close>

lemma enc_first:
  assumes "ValidRune r" "rune_enc r = c # z"
  shows "c < RuneSelf \<Longrightarrow> r = ucast c \<and> z = []" "x \<in> set z \<Longrightarrow> \<not> x < RuneSelf"
proof -
  show "r = ucast c \<and> z = []" if "c < RuneSelf"
    using DecodeRune_enc [OF assms(1), of "[]"] DecodeRune_ascii [OF that, of z] assms(2) by (simp add: DecodeRuneInString_eq)
  assume "x \<in> set z"
  then obtain i where i: "i < length z" "z ! i = x" by (auto simp: in_set_conv_nth)
  then have "\<not> RuneStart (rune_enc r ! Suc i)" using rune_enc_start [OF assms(1), of "Suc i"] assms(2) by simp
  then show "\<not> x < RuneSelf" using i assms(2) by (auto simp: RuneStart_nat utf8_cont_def RuneSelf_def word_less_nat_alt)
qed

lemma class_char_hd: "class_char w r \<Longrightarrow> \<exists>c z. w = c # z \<and> c \<noteq> 0x5d \<and> c \<noteq> 0x2d"
proof (induction rule: class_char.induct)
  case (plain r)
  obtain c z where e: "rune_enc r = c # z" using rune_enc_ne by (cases "rune_enc r") blast+
  have "c \<noteq> 0x5d" "c \<noteq> 0x2d" using enc_first(1) [OF plain(1) e] plain(2) by (auto simp: RuneSelf_def)
  then show ?case using e by blast
qed simp

lemma esc_char_class: "class_char w r \<Longrightarrow> rest \<noteq> [] \<Longrightarrow> esc_char (w @ rest) = (r, rest, None)"
proof (induction rule: class_char.induct)
  case (plain r)
  obtain c z where e: "rune_enc r = c # z" using rune_enc_ne by (cases "rune_enc r") blast+
  have c: "c \<noteq> 0x5d" "c \<noteq> 0x2d" "c \<noteq> 0x5c" using enc_first(1) [OF plain(1) e] plain(2) by (auto simp: RuneSelf_def)
  have "DecodeRuneInString (c # z @ rest) = (r, Suc (length z))" using DecodeRune_enc [OF plain(1), of rest] e by (simp add: DecodeRuneInString_eq)
  moreover have "\<not> (r = RuneError \<and> z = [])"
    using e enc_nat_bytes [OF plain(1)] by (auto simp: RuneError_def enc_nat_def)
  ultimately show ?case using c plain(3) by (auto simp: esc_char_def e)
next
  case (escaped r)
  obtain c z where e: "rune_enc r = c # z" using rune_enc_ne by (cases "rune_enc r") blast+
  have "DecodeRuneInString (c # z @ rest) = (r, Suc (length z))" using DecodeRune_enc [OF escaped(1), of rest] e by (simp add: DecodeRuneInString_eq)
  moreover have "\<not> (r = RuneError \<and> z = [])"
    using e enc_nat_bytes [OF escaped(1)] by (auto simp: RuneError_def enc_nat_def)
  ultimately show ?case using escaped(2) by (auto simp: esc_char_def e)
qed

lemma esc_char_inv: "esc_char chunk = (r, rest, None) \<Longrightarrow> \<exists>w. chunk = w @ rest \<and> class_char w r"
proof -
  assume g: "esc_char chunk = (r, rest, None)"
  define c where "c = (if chunk ! 0 = 0x5c then drop 1 chunk else chunk)"
  have h: "chunk \<noteq> []" "chunk ! 0 \<noteq> 0x2d" "chunk ! 0 \<noteq> 0x5d" "c \<noteq> []"
    using g by (auto simp: esc_char_def c_def Let_def split: if_splits prod.splits)
  obtain n where d: "DecodeRuneInString c = (r, n)" "\<not> (r = RuneError \<and> n = 1)" "rest = drop n c"
    using g h by (cases "DecodeRuneInString c") (auto simp: esc_char_def Let_def simp flip: c_def split: if_splits)
  have v: "ValidRune r" "c = rune_enc r @ rest"
  proof -
    have "ValidRune r \<and> prefix (rune_enc r) c \<and> n = length (rune_enc r)"
      using d(1,2) DecodeRune_iff [of c r n] h(4) by (auto simp: DecodeRuneInString_eq split: if_splits)
    then show "ValidRune r" "c = rune_enc r @ rest" using d(3) by (auto simp: prefix_def)
  qed
  show ?thesis
  proof (cases "chunk ! 0 = 0x5c")
    case True
    then have "chunk = 0x5c # c" using h(1) by (cases chunk) (simp_all add: c_def)
    then show ?thesis using v by (intro exI [of _ "0x5c # rune_enc r"]) (simp add: class_char.escaped)
  next
    case False
    then have e: "chunk = rune_enc r @ rest" using v by (simp add: c_def)
    have "r \<notin> {0x5c, 0x2d, 0x5d}"
      using e h False rune_enc_ascii [of "0x5c"] rune_enc_ascii [of "0x2d"] rune_enc_ascii [of "0x5d"] by (auto simp: RuneSelf_def)
    then show ?thesis using v e by (intro exI [of _ "rune_enc r"]) (simp add: class_char.plain)
  qed
qed

section \<open>The parser reads the grammar\<close>

lemma parse_ranges_complete:
  "char_ranges w rs \<Longrightarrow> rs \<noteq> [] \<or> seen \<Longrightarrow> parse_ranges (w @ 0x5d # rest) seen = Some (rs, rest)"
proof (induction arbitrary: seen rule: char_ranges.induct)
  case none
  then show ?case by (simp add: parse_ranges.simps)
next
  case (one w x v rs)
  note IH = one.IH [of True, simplified]
  have v: "hd (v @ 0x5d # rest) \<noteq> 0x2d"
    using one(2)
  proof cases
    case (one w' x' v' rs')
    from one(3) show ?thesis unfolding one(1) by cases (auto dest!: class_char_hd)
  qed simp
  from one(1) show ?case
  proof cases
    case (single r)
    obtain c z where c: "w = c # z" "c \<noteq> 0x5d" using class_char_hd [OF single(2)] by blast
    have "esc_char (w @ v @ 0x5d # rest) = (r, v @ 0x5d # rest, None)" by (rule esc_char_class [OF single(2)]) simp
    then show ?thesis using v c IH single(1) by (subst parse_ranges.simps) simp
  next
    case (from_to u lo u' hi)
    obtain c z where c: "u = c # z" "c \<noteq> 0x5d" using class_char_hd [OF from_to(3)] by blast
    have "esc_char (u @ 0x2d # u' @ v @ 0x5d # rest) = (lo, 0x2d # u' @ v @ 0x5d # rest, None)"
      "esc_char (u' @ v @ 0x5d # rest) = (hi, v @ 0x5d # rest, None)"
      by (rule esc_char_class [OF from_to(3)] esc_char_class [OF from_to(4)], simp)+
    then show ?thesis using c IH from_to(1,2) by (subst parse_ranges.simps) simp
  qed
qed

lemma parse_ranges_sound:
  "parse_ranges chunk seen = Some (rs, rest) \<Longrightarrow> \<exists>w. char_ranges w rs \<and> chunk = w @ 0x5d # rest \<and> (rs \<noteq> [] \<or> seen)"
proof (induction "length chunk" arbitrary: chunk seen rs rule: less_induct)
  case less
  show ?case
  proof (cases "chunk \<noteq> [] \<and> hd chunk = 0x5d \<and> seen")
    case True
    then have "rs = []" "chunk = 0x5d # rest" using less.prems by (cases chunk; auto simp: parse_ranges.simps [of "_ # _"])+
    then show ?thesis using True char_ranges.none by auto
  next
    case False
    obtain lo chunk1 hi chunk2 rs' where g: "esc_char chunk = (lo, chunk1, None)"
      "(if hd chunk1 = 0x2d then esc_char (tl chunk1) else (lo, chunk1, None)) = (hi, chunk2, None)"
      "parse_ranges chunk2 True = Some (rs', rest)" "rs = (lo, hi) # rs'"
      using less.prems False unfolding parse_ranges.simps [of chunk] by (auto split: if_splits prod.splits option.splits)
    have c1: "chunk1 \<noteq> []" using esc_char_shorter [OF g(1)] by simp
    have "length chunk2 < length chunk" using g(1,2) by (auto dest!: esc_char_shorter split: if_splits)
    then obtain v where v: "char_ranges v rs'" "chunk2 = v @ 0x5d # rest" using less.hyps g(3) by blast
    obtain w where w: "chunk = w @ chunk1" "class_char w lo" using esc_char_inv [OF g(1)] by blast
    have "\<exists>u. chunk = u @ chunk2 \<and> char_range u (lo, hi)"
    proof (cases "hd chunk1 = 0x2d")
      case True
      then obtain u where u: "tl chunk1 = u @ chunk2" "class_char u hi" using g(2) esc_char_inv [of "tl chunk1"] by auto
      have "chunk1 = 0x2d # tl chunk1" using True c1 by (cases chunk1) simp_all
      then have "chunk = (w @ 0x2d # u) @ chunk2" using w(1) u(1) by simp
      then show ?thesis using char_range.from_to [OF w(2) u(2)] by blast
    next
      case False
      then show ?thesis using g(2) w char_range.single [OF w(2)] by auto
    qed
    then show ?thesis using v g(4) char_ranges.one by fastforce
  qed
qed

lemma char_ranges_hd: "char_ranges w rs \<Longrightarrow> rs \<noteq> [] \<Longrightarrow> w \<noteq> []"
  by (induction rule: char_ranges.induct) (auto elim!: char_range.cases dest: class_char_hd)

lemma parse_chunk_term: "pat_term w (TItem it) \<Longrightarrow> parse_chunk (w @ z) = map_option ((#) it) (parse_chunk z)"
proof (induction w "TItem it" rule: pat_term.induct)
  case (cls v rs)
  then have "v \<noteq> []" using char_ranges_hd by blast
  then show ?case using cls parse_ranges_complete [of v rs False z] by (subst parse_chunk.simps) simp
next
  case (ncls v rs)
  then show ?case using parse_ranges_complete [of v rs False z] by (subst parse_chunk.simps) simp
qed (simp_all add: parse_chunk.simps [of "_ # _"])

lemma parse_chunk_first:
  assumes "parse_chunk chunk = Some its" "chunk \<noteq> []" "hd chunk \<noteq> 0x2a"
  shows "\<exists>w z it its'. chunk = w @ z \<and> pat_term w (TItem it) \<and> its = it # its' \<and> parse_chunk z = Some its'"
proof -
  obtain c cs where c: "chunk = c # cs" using assms(2) by (cases chunk) auto
  consider "c = 0x5b" "cs \<noteq> []" "hd cs = 0x5e" | "c = 0x5b" "\<not> (cs \<noteq> [] \<and> hd cs = 0x5e)" | "c = 0x3f" | "c = 0x5c" | "c \<notin> {0x2a, 0x3f, 0x5c, 0x5b}"
    using assms(3) c by auto
  then show ?thesis
  proof cases
    case 1
    then obtain rs rest its' where p: "parse_ranges (tl cs) False = Some (rs, rest)" "its = GClass True rs # its'" "parse_chunk rest = Some its'"
      using assms(1) c by (auto simp: parse_chunk.simps [of "_ # _"] split: option.splits)
    obtain w where w: "char_ranges w rs" "tl cs = w @ 0x5d # rest" "rs \<noteq> []" using parse_ranges_sound [OF p(1)] by auto
    have "cs = 0x5e # tl cs" using 1 by (cases cs) simp_all
    then have "chunk = (0x5b # 0x5e # w @ [0x5d]) @ rest" using c 1 w(2) by simp
    then show ?thesis using pat_term.ncls [OF w(1,3)] p by blast
  next
    case 2
    then obtain rs rest its' where p: "parse_ranges cs False = Some (rs, rest)" "its = GClass False rs # its'" "parse_chunk rest = Some its'"
      using assms(1) c by (auto simp: parse_chunk.simps [of "_ # _"] split: option.splits)
    obtain w where w: "char_ranges w rs" "cs = w @ 0x5d # rest" "rs \<noteq> []" using parse_ranges_sound [OF p(1)] by auto
    have "w \<noteq> []" using char_ranges_hd w by blast
    then have "hd w \<noteq> 0x5e" using 2 w(2) by (cases w) auto
    moreover have "chunk = (0x5b # w @ [0x5d]) @ rest" using c 2 w(2) by simp
    ultimately show ?thesis using pat_term.cls [OF w(1,3)] p by blast
  next
    case 3
    then have "chunk = [0x3f] @ cs" "\<exists>its'. its = GAny # its' \<and> parse_chunk cs = Some its'"
      using assms(1) c by (auto simp: parse_chunk.simps [of "_ # _"])
    then show ?thesis using pat_term.any by blast
  next
    case 4
    then obtain d ds where d: "cs = d # ds" "\<exists>its'. its = GLit d # its' \<and> parse_chunk ds = Some its'"
      using assms(1) c by (cases cs) (auto simp: parse_chunk.simps [of "_ # _"])
    moreover have "chunk = [0x5c, d] @ ds" using c 4 d(1) by simp
    ultimately show ?thesis using pat_term.esc by blast
  next
    case 5
    then have "chunk = [c] @ cs" "\<exists>its'. its = GLit c # its' \<and> parse_chunk cs = Some its'"
      using assms(1) c by (auto simp: parse_chunk.simps [of "_ # _"])
    then show ?thesis using pat_term.lit [OF 5] by blast
  qed
qed

section \<open>The scanner finds the stars of the grammar\<close>

lemma scan_loop_shift: "scan_loop (x @ z) (length x + i) b = length x + scan_loop z i b"
proof (induction "length z - i" arbitrary: i b rule: less_induct)
  case less
  show ?case
  proof (cases "i < length z")
    case True
    have "(x @ z) ! (length x + i) = z ! i" by simp
    then show ?thesis
      using True less.hyps [of "i + 1"] less.hyps [of "i + 2"]
      by (subst (1 2) scan_loop.simps) (simp add: nth_append add.assoc)
  next
    case False
    then show ?thesis by (subst (1 2) scan_loop.simps) simp
  qed
qed

lemma scan_loop_Cons:
  "scan_loop (c # z) 0 b =
     (if c = 0x5c then (case z of [] \<Rightarrow> 1 | _ # z' \<Rightarrow> 2 + scan_loop z' 0 b)
      else if c = 0x2a \<and> \<not> b then 0
      else 1 + scan_loop z 0 (if c = 0x5b then True else if c = 0x5d then False else b))"
proof -
  have s: "scan_loop (c # z) 1 b' = 1 + scan_loop z 0 b'" "scan_loop (a # d # z') (Suc (Suc 0)) b' = Suc (Suc (scan_loop z' 0 b'))" for a b' d z'
    using scan_loop_shift [of "[c]" z 0 b'] scan_loop_shift [of "[a, d]" z' 0 b'] by simp_all
  have e: "scan_loop [a] (Suc 0) b' = Suc 0" for a b' by (subst scan_loop.simps) simp
  have i: "scan_loop (c # z) 0 b =
     (if c = 0x5c then scan_loop (c # z) (if z = [] then 1 else Suc (Suc 0)) b
      else if c = 0x2a \<and> \<not> b then 0
      else scan_loop (c # z) 1 (if c = 0x5b then True else if c = 0x5d then False else b))"
    by (subst scan_loop.simps) simp
  show ?thesis
  proof (cases z)
    case Nil
    then show ?thesis unfolding i s(1) by (simp add: e)
  next
    case (Cons d z')
    then show ?thesis unfolding i s(1) by (simp add: s(2))
  qed
qed

lemma scan_loop_bytes: "(\<And>c. c \<in> set x \<Longrightarrow> \<not> c < RuneSelf) \<Longrightarrow> scan_loop (x @ z) 0 b = length x + scan_loop z 0 b"
proof (induction x)
  case (Cons c x)
  then have "\<not> c < RuneSelf" by simp
  then have "c \<noteq> 0x5c" "c \<noteq> 0x2a" "c \<noteq> 0x5b" "c \<noteq> 0x5d" by (auto simp: RuneSelf_def)
  then show ?case using Cons by (simp add: scan_loop_Cons)
qed simp

lemma scan_class_char: "class_char w r \<Longrightarrow> scan_loop (w @ z) 0 True = length w + scan_loop z 0 True"
proof (induction rule: class_char.induct)
  case (plain r)
  obtain c x where e: "rune_enc r = c # x" using rune_enc_ne by (cases "rune_enc r") blast+
  note first = enc_first [OF plain(1) e]
  have c: "c \<noteq> 0x5c" "c \<noteq> 0x5d" using first(1) plain(2) by (auto simp: RuneSelf_def)
  then show ?case using scan_loop_bytes [of x z True] first(2) by (simp add: e scan_loop_Cons)
next
  case (escaped r)
  obtain c x where e: "rune_enc r = c # x" using rune_enc_ne by (cases "rune_enc r") blast+
  then show ?case using scan_loop_bytes [of x z True] enc_first(2) [OF escaped e] by (simp add: scan_loop_Cons)
qed

lemma scan_char_ranges: "char_ranges w rs \<Longrightarrow> scan_loop (w @ z) 0 True = length w + scan_loop z 0 True"
proof (induction arbitrary: z rule: char_ranges.induct)
  case (one w x v rs)
  from one(1) have "scan_loop (w @ v @ z) 0 True = length w + scan_loop (v @ z) 0 True"
  proof cases
    case (from_to u lo u' hi)
    then show ?thesis using scan_class_char [OF from_to(3), of "0x2d # u' @ v @ z"] scan_class_char [OF from_to(4), of "v @ z"]
      by (simp add: scan_loop_Cons)
  qed (simp add: scan_class_char)
  then show ?case using one.IH by simp
qed simp

lemma scan_term: "pat_term w (TItem it) \<Longrightarrow> scan_loop (w @ z) 0 False = length w + scan_loop z 0 False"
proof (induction w "TItem it" rule: pat_term.induct)
  case (cls w rs)
  then show ?case using scan_char_ranges [of w rs "0x5d # z"] by (simp add: scan_loop_Cons)
next
  case (ncls w rs)
  then show ?case using scan_char_ranges [of w rs "0x5d # z"] by (simp add: scan_loop_Cons)
qed (simp_all add: scan_loop_Cons)

lemma scan_loop_take: "i \<le> length p \<Longrightarrow> scan_loop (take (scan_loop p i b) p) i b = scan_loop p i b"
proof (induction "length p - i" arbitrary: i b rule: less_induct)
  case less
  define k where "k = scan_loop p i b"
  show ?case
  proof (cases "i < length p \<and> \<not> (p ! i = 0x2a \<and> \<not> b)")
    case False
    then have "k = i" unfolding k_def using less.prems by (subst scan_loop.simps) auto
    moreover have "scan_loop (take i p) i b = i" using less.prems by (subst scan_loop.simps) simp
    ultimately show ?thesis by (simp flip: k_def)
  next
    case True
    define j where "j = (if p ! i = 0x5c \<and> i + 1 < length p then i + 2 else i + 1)"
    define b' where "b' = (if p ! i = 0x5c then b else if p ! i = 0x5b then True else if p ! i = 0x5d then False else b)"
    have k: "k = scan_loop p j b'" unfolding k_def using True by (subst scan_loop.simps) (auto simp: j_def b'_def)
    have j: "i < j" "j \<le> length p" "j \<le> k" using True k scan_loop_ge [of j p b'] by (auto simp: j_def)
    have n: "i < length (take k p)" "take k p ! i = p ! i" using j by simp_all
    have "p ! i = 0x5c \<Longrightarrow> i + 1 < length (take k p) \<longleftrightarrow> i + 1 < length p" using j by (auto simp: j_def split: if_splits)
    then have "scan_loop (take k p) i b = scan_loop (take k p) j b'"
      unfolding scan_loop.simps [of "take k p" i b] n(2) using True n(1) by (cases "p ! i = 0x5c"; cases "p ! i = 0x2a") (simp_all add: j_def b'_def)
    then show ?thesis using less.hyps [OF _ j(2), of b'] j True by (simp flip: k_def k)
  qed
qed

section \<open>Patterns and the lists of their terms\<close>

fun term_item :: "glob_term \<Rightarrow> glob_item" where
  "term_item (TItem it) = it"
| "term_item TStar = GAny"

text \<open>The chunks of a list of terms.\<close>

function chunk_terms :: "glob_term list \<Rightarrow> (bool \<times> glob_item list) list" where
  "chunk_terms ts =
     (if ts = [] then []
      else
        (let qs = dropWhile (\<lambda>x. x = TStar) ts
         in (hd ts = TStar, map term_item (takeWhile (\<lambda>x. x \<noteq> TStar) qs)) # chunk_terms (dropWhile (\<lambda>x. x \<noteq> TStar) qs)))"
  by auto
termination
proof (relation "measure length", goal_cases)
  case (2 ts qs)
  show ?case
  proof (cases "hd ts = TStar")
    case True
    then have "length qs < length ts" using 2 by (cases ts) (simp_all add: length_dropWhile_le less_Suc_eq_le)
    then show ?thesis using length_dropWhile_le [of "\<lambda>x. x \<noteq> TStar" qs] by simp
  next
    case False
    then have "qs = ts" using 2 by (cases ts) simp_all
    then show ?thesis using 2 False by (cases ts) (simp_all add: length_dropWhile_le less_Suc_eq_le)
  qed
qed simp

declare chunk_terms.simps [simp del]

lemma pat_term_hd: "pat_term w (TItem it) \<Longrightarrow> \<exists>c z. w = c # z \<and> c \<noteq> 0x2a"
  by (induction w "TItem it" rule: pat_term.induct) auto

lemma pattern_terms_stars:
  "pattern_terms p ts \<Longrightarrow> pattern_terms (dropWhile (\<lambda>c. c = 0x2a) p) (dropWhile (\<lambda>x. x = TStar) ts) \<and>
     (p = [] \<longleftrightarrow> ts = []) \<and> (p \<noteq> [] \<longrightarrow> (p ! 0 = 0x2a \<longleftrightarrow> hd ts = TStar))"
proof (induction rule: pattern_terms.induct)
  case (more_terms w x p ts)
  show ?case
  proof (cases x)
    case TStar
    then show ?thesis using more_terms by (auto elim: pat_term_starE)
  next
    case (TItem it)
    then obtain c z where "w = c # z" "c \<noteq> 0x2a" using more_terms(1) pat_term_hd by blast
    then show ?thesis using TItem more_terms(1,2) pattern_terms.more_terms [OF more_terms(1,2)] by simp
  qed
qed (simp add: pattern_terms.no_terms)

lemma pattern_terms_items:
  "pattern_terms p ts \<Longrightarrow> k = scan_loop p 0 False \<Longrightarrow>
     parse_chunk (take k p) = Some (map term_item (takeWhile (\<lambda>x. x \<noteq> TStar) ts)) \<and> pattern_terms (drop k p) (dropWhile (\<lambda>x. x \<noteq> TStar) ts)"
proof (induction arbitrary: k rule: pattern_terms.induct)
  case no_terms
  then show ?case by (simp add: scan_loop.simps parse_chunk.simps pattern_terms.no_terms)
next
  case (more_terms w x p ts)
  show ?case
  proof (cases x)
    case TStar
    then have "w = [0x2a]" using more_terms(1) by (auto elim: pat_term_starE)
    then show ?thesis using TStar more_terms(4) pattern_terms.more_terms [OF more_terms(1,2)]
      by (simp add: scan_loop_Cons parse_chunk.simps)
  next
    case (TItem it)
    then have "k = length w + scan_loop p 0 False" using scan_term more_terms(1,4) by simp
    then show ?thesis using TItem more_terms(1) more_terms.IH by (simp add: parse_chunk_term)
  qed
qed

lemma parse_pattern_complete: "pattern_terms p ts \<Longrightarrow> parse_pattern p = Some (chunk_terms ts)"
proof (induction "length p" arbitrary: p ts rule: less_induct)
  case less
  note stars = pattern_terms_stars [OF less.prems]
  show ?case
  proof (cases "p = []")
    case True
    then show ?thesis using stars by (simp add: parse_pattern.simps [of "[]"] chunk_terms.simps [of "[]"])
  next
    case False
    define q qs where "q = dropWhile (\<lambda>c. c = 0x2a) p" and "qs = dropWhile (\<lambda>x. x = TStar) ts"
    define k where "k = scan_loop q 0 False"
    have sc: "scanChunk p = (hd ts = TStar, take k q, drop k q)" using stars False by (simp add: scanChunk_def q_def k_def Let_def)
    have "pattern_terms q qs" using stars by (simp add: q_def qs_def)
    note items = pattern_terms_items [OF this k_def]
    have "parse_pattern (drop k q) = Some (chunk_terms (dropWhile (\<lambda>x. x \<noteq> TStar) qs))"
      using less.hyps [OF scanChunk_shorter [OF False sc]] items by blast
    then show ?thesis using False stars sc items
      by (simp add: parse_pattern.simps [of p] chunk_terms.simps [of ts] flip: qs_def)
  qed
qed

lemma pattern_terms_append: "pattern_terms p ts \<Longrightarrow> pattern_terms q us \<Longrightarrow> pattern_terms (p @ q) (ts @ us)"
  by (induction rule: pattern_terms.induct) (auto intro: pattern_terms.more_terms)

lemma pattern_terms_replicate: "pattern_terms (replicate n 0x2a) (replicate n TStar)"
  by (induction n) (use pattern_terms.no_terms pattern_terms.more_terms [OF pat_term.star] in auto)

lemma parse_chunk_sound:
  "parse_chunk chunk = Some its \<Longrightarrow> scan_loop chunk 0 False = length chunk \<Longrightarrow> pattern_terms chunk (map TItem its)"
proof (induction "length chunk" arbitrary: chunk its rule: less_induct)
  case less
  show ?case
  proof (cases chunk)
    case Nil
    then show ?thesis using less.prems(1) by (simp add: parse_chunk.simps pattern_terms.no_terms)
  next
    case (Cons c cs)
    then have "hd chunk \<noteq> 0x2a" using less.prems(2) by (auto simp: scan_loop_Cons)
    then obtain w z it its' where f: "chunk = w @ z" "pat_term w (TItem it)" "its = it # its'" "parse_chunk z = Some its'"
      using parse_chunk_first [OF less.prems(1)] Cons by auto
    have "length z < length chunk" using f(1) pat_term_hd [OF f(2)] by auto
    moreover have "scan_loop z 0 False = length z" using scan_term [OF f(2), of z] less.prems(2) f(1) by simp
    ultimately show ?thesis using less.hyps f pattern_terms.more_terms [OF f(2)] by simp
  qed
qed

lemma takeWhile_replicate: "\<exists>n. takeWhile (\<lambda>c. c = a) p = replicate n a"
proof (induction p)
  case (Cons c p)
  then obtain n where "takeWhile (\<lambda>c. c = a) p = replicate n a" by blast
  then show ?case by (cases "c = a") (auto intro: exI [of _ "Suc n"] exI [of _ 0])
qed simp

lemma parse_pattern_sound: "parse_pattern p = Some ps \<Longrightarrow> \<exists>ts. pattern_terms p ts"
proof (induction "length p" arbitrary: p ps rule: less_induct)
  case less
  show ?case
  proof (cases "p = []")
    case True
    then show ?thesis using pattern_terms.no_terms by blast
  next
    case False
    obtain star chunk rest where sc: "scanChunk p = (star, chunk, rest)" using prod_cases3 by blast
    then obtain its ps' where ps: "parse_chunk chunk = Some its" "parse_pattern rest = Some ps'"
      using less.prems False by (subst (asm) parse_pattern.simps) (auto split: option.splits)
    obtain us where us: "pattern_terms rest us" using less.hyps [OF scanChunk_shorter [OF False sc] ps(2)] by blast
    define q where "q = dropWhile (\<lambda>c. c = 0x2a) p"
    define k where "k = scan_loop q 0 False"
    have q: "chunk = take k q" "rest = drop k q" using sc by (auto simp: scanChunk_def q_def k_def Let_def)
    have "scan_loop chunk 0 False = length chunk" using scan_loop_take [of 0 q False] scan_loop_ge [of 0 q False] by (simp add: q flip: k_def)
    then have "pattern_terms chunk (map TItem its)" by (rule parse_chunk_sound [OF ps(1)])
    moreover obtain n where "takeWhile (\<lambda>c. c = 0x2a) p = replicate n 0x2a" using takeWhile_replicate [of "0x2a" p] by blast
    then have "p = replicate n 0x2a @ chunk @ rest" using q by (metis append_take_drop_id q_def takeWhile_dropWhile_id)
    ultimately show ?thesis using us pattern_terms_append pattern_terms_replicate by metis
  qed
qed

section \<open>The matches of a list of terms\<close>

text \<open>
  The documented semantics: \<open>?\<close> matches one character other than a slash, a star any number of them, and the terms follow one another up to
  the end of the name. A character of a name is what \<open>DecodeRuneInString\<close> returns, one byte where there is no encoding.
\<close>

fun doc_match :: "glob_term list \<Rightarrow> bytes \<Rightarrow> bool" where
  "doc_match [] s \<longleftrightarrow> s = []"
| "doc_match (TItem it # ts) s \<longleftrightarrow> (case item_step it s of None \<Rightarrow> False | Some t \<Rightarrow> doc_match ts t)"
| "doc_match (TStar # ts) s \<longleftrightarrow>
     (\<exists>n\<in>{0..length s}. case run_items (replicate n GAny) s of None \<Rightarrow> False | Some t \<Rightarrow> doc_match ts t)"

lemma doc_match_star: "doc_match (TStar # ts) s \<longleftrightarrow> (\<exists>n t. n \<le> length s \<and> run_items (replicate n GAny) s = Some t \<and> doc_match ts t)"
  by (fastforce split: option.splits)

text \<open>The semantics where a star covers any bytes other than slashes.\<close>

fun byte_match :: "glob_term list \<Rightarrow> bytes \<Rightarrow> bool" where
  "byte_match [] s \<longleftrightarrow> s = []"
| "byte_match (TItem it # ts) s \<longleftrightarrow> (case item_step it s of None \<Rightarrow> False | Some t \<Rightarrow> byte_match ts t)"
| "byte_match (TStar # ts) s \<longleftrightarrow> (\<exists>n\<in>{0..length s}. path_slash \<notin> set (take n s) \<and> byte_match ts (drop n s))"

text \<open>A character other than the slash has no slash among its bytes, so that the documented matches are among the others.\<close>

lemma char_no_slash: "s \<noteq> [] \<Longrightarrow> hd s \<noteq> path_slash \<Longrightarrow> path_slash \<notin> set (take (snd (DecodeRuneInString s)) s)"
proof (cases s rule: rune_cases)
  case (rune r q)
  assume "hd s \<noteq> path_slash"
  obtain c z where e: "rune_enc r = c # z" using rune_enc_ne by (cases "rune_enc r") blast+
  have "path_slash < RuneSelf" by (simp add: path_slash_def RuneSelf_def)
  then show ?thesis using \<open>hd s \<noteq> path_slash\<close> rune(2,3) e enc_first(2) [OF rune(1) e] by (auto simp: DecodeRuneInString_eq)
next
  case invalid
  assume "hd s \<noteq> path_slash"
  then show ?thesis using invalid(1,3) by (cases s) (simp_all add: DecodeRuneInString_eq)
qed simp

lemma skip_chars: "run_items (replicate n GAny) s = Some t \<Longrightarrow> \<exists>k\<le>length s. t = drop k s \<and> path_slash \<notin> set (take k s)"
proof (induction n arbitrary: s)
  case 0
  then show ?case by (intro exI [of _ 0]) simp
next
  case (Suc n)
  define m where "m = snd (DecodeRuneInString s)"
  have s: "s \<noteq> []" "hd s \<noteq> path_slash" "run_items (replicate n GAny) (drop m s) = Some t"
    using Suc.prems by (auto simp: item_step_def m_def split: if_splits)
  have m: "m \<le> length s" using DecodeRune_bounds [OF s(1)] by (cases "DecodeRuneInString s") (simp add: m_def)
  obtain k where k: "k \<le> length (drop m s)" "t = drop k (drop m s)" "path_slash \<notin> set (take k (drop m s))" using Suc.IH [OF s(3)] by blast
  have "take (m + k) s = take m s @ take k (drop m s)" by (rule take_add)
  then show ?case using k m char_no_slash [OF s(1,2)] by (intro exI [of _ "m + k"]) (auto simp: m_def add.commute)
qed

lemma doc_match_byte_match: "doc_match ts s \<Longrightarrow> byte_match ts s"
proof (induction ts s rule: doc_match.induct)
  case (3 ts s)
  then obtain n t where n: "n \<le> length s" "run_items (replicate n GAny) s = Some t" "doc_match ts t" by (auto split: option.splits)
  obtain k where "k \<le> length s" "t = drop k s" "path_slash \<notin> set (take k s)" using skip_chars [OF n(2)] by blast
  moreover have "byte_match ts t" using "3.IH" [of n t] n by simp
  ultimately show ?case by auto
qed (auto split: option.splits)

text \<open>On ASCII names the two agree.\<close>

lemma skip_ascii_chars:
  "ascii_name s \<Longrightarrow> n \<le> length s \<Longrightarrow> path_slash \<notin> set (take n s) \<Longrightarrow> run_items (replicate n GAny) s = Some (drop n s)"
proof (induction n arbitrary: s)
  case (Suc n)
  then obtain c cs where s: "s = c # cs" by (cases s) auto
  then have "c < RuneSelf" "ascii_name cs" "c \<noteq> path_slash" using Suc.prems by (auto simp: ascii_name_def)
  then show ?case using Suc s by (simp add: item_step_ascii item_ok_def)
qed simp

lemma item_step_ascii_rest: "ascii_name s \<Longrightarrow> item_step it s = Some t \<Longrightarrow> ascii_name t"
  by (cases s) (auto simp: ascii_name_def item_step_ascii item_step_def [of _ "[]"] split: if_splits)

lemma byte_match_ascii: "ascii_name s \<Longrightarrow> byte_match ts s \<Longrightarrow> doc_match ts s"
proof (induction ts s rule: byte_match.induct)
  case (2 it ts s)
  then show ?case using item_step_ascii_rest by (auto split: option.splits)
next
  case (3 ts s)
  then obtain n where n: "n \<le> length s" "path_slash \<notin> set (take n s)" "byte_match ts (drop n s)" by auto
  have "ascii_name (drop n s)" using 3(2) by (auto simp: ascii_name_def dest: in_set_dropD)
  then have "doc_match ts (drop n s)" using "3.IH" [of n] n by simp
  then show ?case using n(1) skip_ascii_chars [OF 3(2) n(1,2)] by (auto intro!: bexI [of _ n])
qed simp

lemma byte_match_doc_ascii: "ascii_name s \<Longrightarrow> byte_match ts s \<longleftrightarrow> doc_match ts s"
  using byte_match_ascii doc_match_byte_match by blast

text \<open>Terms and chunks.\<close>

lemma byte_match_items: "byte_match (map TItem its @ ts) s \<longleftrightarrow> (\<exists>t. run_items its s = Some t \<and> byte_match ts t)"
  by (induction its arbitrary: s) (auto split: option.splits)

lemma byte_match_stars: "byte_match (TStar # TStar # ts) s \<longleftrightarrow> byte_match (TStar # ts) s"
proof
  assume "byte_match (TStar # TStar # ts) s"
  then obtain n k where n: "n \<le> length s" "path_slash \<notin> set (take n s)" "k \<le> length (drop n s)" "path_slash \<notin> set (take k (drop n s))" "byte_match ts (drop k (drop n s))"
    by auto
  have "take (n + k) s = take n s @ take k (drop n s)" by (rule take_add)
  then show "byte_match (TStar # ts) s" using n by (auto intro!: bexI [of _ "n + k"] simp: add.commute)
next
  assume "byte_match (TStar # ts) s"
  then have "0 \<in> {0..length s} \<and> path_slash \<notin> set (take 0 s) \<and> byte_match (TStar # ts) (drop 0 s)" by (simp del: byte_match.simps)
  then show "byte_match (TStar # TStar # ts) s" unfolding byte_match.simps(3) [of "TStar # ts"] by blast
qed

lemma byte_match_drop_stars: "byte_match (TStar # dropWhile (\<lambda>x. x = TStar) ts) s \<longleftrightarrow> byte_match (TStar # ts) s"
proof (induction ts)
  case (Cons x ts)
  then show ?case using byte_match_stars [of ts s] by (cases x) (simp_all del: byte_match.simps)
qed simp

lemma takeWhile_items: "takeWhile (\<lambda>x. x \<noteq> TStar) ts = map TItem (map term_item (takeWhile (\<lambda>x. x \<noteq> TStar) ts))"
proof (induction ts)
  case (Cons x ts)
  then show ?case by (cases x) simp_all
qed simp

lemma glob_star_iff: "glob ((star, its) # ps) s \<longleftrightarrow>
    (\<exists>n\<in>{0..length s}. (star \<or> n = 0) \<and> path_slash \<notin> set (take n s) \<and> (\<exists>t. run_items its (drop n s) = Some t \<and> glob ps t))"
proof
  assume "glob ((star, its) # ps) s"
  then obtain u v t where "s = u @ v" "if star then path_slash \<notin> set u else u = []" "run_items its v = Some t" "glob ps t" by auto
  then show "\<exists>n\<in>{0..length s}. (star \<or> n = 0) \<and> path_slash \<notin> set (take n s) \<and> (\<exists>t. run_items its (drop n s) = Some t \<and> glob ps t)"
    by (intro bexI [of _ "length u"]) (auto split: if_splits)
next
  assume "\<exists>n\<in>{0..length s}. (star \<or> n = 0) \<and> path_slash \<notin> set (take n s) \<and> (\<exists>t. run_items its (drop n s) = Some t \<and> glob ps t)"
  then obtain n t where n: "star \<or> n = 0" "path_slash \<notin> set (take n s)" "run_items its (drop n s) = Some t" "glob ps t" by blast
  then show "glob ((star, its) # ps) s"
    unfolding glob.simps by - (rule exI [of _ "take n s"], rule exI [of _ "drop n s"], auto)
qed

lemma glob_chunk_terms: "glob (chunk_terms ts) s \<longleftrightarrow> byte_match ts s"
proof (induction ts arbitrary: s rule: chunk_terms.induct)
  case (1 ts)
  show ?case
  proof (cases "ts = []")
    case True
    then show ?thesis by (simp add: chunk_terms.simps [of "[]"])
  next
    case False
    define qs where "qs = dropWhile (\<lambda>x. x = TStar) ts"
    define its where "its = map term_item (takeWhile (\<lambda>x. x \<noteq> TStar) qs)"
    define us where "us = dropWhile (\<lambda>x. x \<noteq> TStar) qs"
    have c: "chunk_terms ts = (hd ts = TStar, its) # chunk_terms us" using False by (subst chunk_terms.simps) (simp add: qs_def its_def us_def Let_def)
    have qs: "qs = map TItem its @ us" using takeWhile_items [of qs] takeWhile_dropWhile_id [of "\<lambda>x. x \<noteq> TStar" qs] by (simp add: its_def us_def)
    have IH: "glob (chunk_terms us) t \<longleftrightarrow> byte_match us t" for t using "1.IH" [OF False qs_def] by (simp add: us_def)
    have m: "(\<exists>t. run_items its v = Some t \<and> glob (chunk_terms us) t) \<longleftrightarrow> byte_match qs v" for v
      unfolding qs byte_match_items IH by simp
    show ?thesis
    proof (cases "hd ts = TStar")
      case True
      then have "ts = TStar # tl ts" using False by (cases ts) simp_all
      then have "byte_match ts s \<longleftrightarrow> byte_match (TStar # qs) s"
        using byte_match_drop_stars [of "tl ts" s] True by (metis (mono_tags) dropWhile.simps(2) qs_def)
      then show ?thesis unfolding c glob_star_iff m using True by simp
    next
      case False
      then have "qs = ts" using \<open>ts \<noteq> []\<close> by (cases ts) (simp_all add: qs_def)
      then show ?thesis unfolding c glob_star_iff m using False by auto
    qed
  qed
qed

lemma chunk_terms_items: "(star, its) \<in> set (chunk_terms ts) \<Longrightarrow> it \<in> set its \<Longrightarrow> TItem it \<in> set ts"
proof (induction ts rule: chunk_terms.induct)
  case (1 ts)
  show ?case
  proof (cases "ts = []")
    case True
    then show ?thesis using "1.prems"(1) by (simp add: chunk_terms.simps [of "[]"])
  next
    case False
    define qs where "qs = dropWhile (\<lambda>x. x = TStar) ts"
    have sub: "set (dropWhile (\<lambda>x. x \<noteq> TStar) qs) \<subseteq> set ts" "set (takeWhile (\<lambda>x. x \<noteq> TStar) qs) \<subseteq> set ts"
      by (auto simp: qs_def dest!: set_dropWhileD set_takeWhileD)
    consider "its = map term_item (takeWhile (\<lambda>x. x \<noteq> TStar) qs)" | "(star, its) \<in> set (chunk_terms (dropWhile (\<lambda>x. x \<noteq> TStar) qs))"
      using "1.prems"(1) False by (subst (asm) chunk_terms.simps) (auto simp: qs_def Let_def)
    then show ?thesis
    proof cases
      case 1
      have "map TItem its = takeWhile (\<lambda>x. x \<noteq> TStar) qs" using takeWhile_items [of qs] 1 by metis
      moreover have "TItem it \<in> set (map TItem its)" using \<open>it \<in> set its\<close> by simp
      ultimately show ?thesis using sub(2) by auto
    next
      case 2
      then show ?thesis using "1.IH" [OF False qs_def 2 "1.prems"(2)] sub(1) by blast
    qed
  qed
qed

section \<open>Properties\<close>

text \<open>The result of \<open>Match\<close> on a pattern of the grammar, and on another one.\<close>

lemma Match_terms:
  assumes "index_byte ix" "pattern_terms pattern ts"
  shows "\<exists>b. Match ix pattern name = Inr (b, None) \<and> (b \<longrightarrow> byte_match ts name) \<and>
    (ascii_name name \<and> (\<forall>it. TItem it \<in> set ts \<longrightarrow> slash_strict it) \<longrightarrow> (b \<longleftrightarrow> doc_match ts name))"
proof -
  note p = parse_pattern_complete [OF assms(2)]
  let ?b = "greedy (chunk_terms ts) name"
  have m: "Match ix pattern name = Inr (?b, None)" using p by (simp add: Match_greedy [OF assms(1)])
  have s: "?b \<Longrightarrow> byte_match ts name" using greedy_sound [of "chunk_terms ts" name] by (simp add: glob_chunk_terms)
  have "?b" if "ascii_name name" "\<forall>it. TItem it \<in> set ts \<longrightarrow> slash_strict it" "doc_match ts name"
  proof (rule greedy_complete)
    show "\<forall>(star, its)\<in>set (chunk_terms ts). \<forall>it\<in>set its. slash_strict it" using that(2) chunk_terms_items by blast
    show "\<forall>(star, its)\<in>set (tl (chunk_terms ts)). star" using parse_pattern_stars [OF p] by auto
    show "glob (chunk_terms ts) name" using doc_match_byte_match [OF that(3)] by (simp add: glob_chunk_terms)
  qed (rule that(1))
  then show ?thesis using m s byte_match_doc_ascii [of name ts] by blast
qed

lemma Match_malformed:
  assumes "index_byte ix" "\<nexists>ts. pattern_terms pattern ts"
  shows "Match ix pattern name = Inr (False, Some ErrBadPattern)"
  using parse_pattern_sound [of pattern] assms(2) by (cases "parse_pattern pattern") (auto simp: Match_greedy [OF assms(1)])

text \<open>Two patterns whose matches are not the documented ones.\<close>

lemma slash_class_terms: "pattern_terms (bytes_of ''*[^x]*c'') [TStar, TItem (GClass True [(0x78, 0x78)]), TStar, TItem (GLit 0x63)]"
proof -
  have x: "rune_enc 0x78 = [0x78]" "ValidRune 0x78" "bytes_of ''*[^x]*c'' = [0x2a] @ (0x5b # 0x5e # [0x78] @ [0x5d]) @ [0x2a] @ [0x63] @ []" by code_simp+
  have "class_char [0x78] 0x78" using class_char.plain [of "0x78"] x by simp
  then have "char_ranges [0x78] [(0x78, 0x78)]" using char_ranges.one [OF char_range.single char_ranges.none] by fastforce
  then have "pat_term (0x5b # 0x5e # [0x78] @ [0x5d]) (TItem (GClass True [(0x78, 0x78)]))" by (rule pat_term.ncls) simp
  moreover have "pat_term [0x63] (TItem (GLit 0x63))" by (rule pat_term.lit) simp
  ultimately show ?thesis unfolding x(3) by (intro pattern_terms.more_terms pat_term.star pattern_terms.no_terms)
qed

lemma question_marks_terms: "pattern_terms (bytes_of ''*??'') [TStar, TItem GAny, TItem GAny]"
proof -
  have "bytes_of ''*??'' = [0x2a] @ [0x3f] @ [0x3f] @ []" by code_simp
  moreover have "pattern_terms ([0x2a] @ [0x3f] @ [0x3f] @ []) [TStar, TItem GAny, TItem GAny]"
    by (intro pattern_terms.more_terms pat_term.star pat_term.any pattern_terms.no_terms)
  ultimately show ?thesis by simp
qed

lemma Match_deviations:
  assumes "index_byte ix"
  shows "doc_match [TStar, TItem (GClass True [(0x78, 0x78)]), TStar, TItem (GLit 0x63)] (bytes_of ''a/c'') \<and>
      Match ix (bytes_of ''*[^x]*c'') (bytes_of ''a/c'') = Inr (False, None)"
    "\<not> doc_match [TStar, TItem GAny, TItem GAny] [0xe2, 0x82, 0xac] \<and> Match ix (bytes_of ''*??'') [0xe2, 0x82, 0xac] = Inr (True, None)"
proof -
  have g1: "\<not> greedy [(True, [GClass True [(0x78, 0x78)]]), (True, [GLit 0x63])] (bytes_of ''a/c'')" by code_simp
  have p1: "parse_pattern (bytes_of ''*[^x]*c'') = Some [(True, [GClass True [(0x78, 0x78)]]), (True, [GLit 0x63])]" by code_simp
  have "run_items (replicate 1 GAny) (bytes_of ''a/c'') = Some (bytes_of ''/c'')"
    "item_step (GClass True [(0x78, 0x78)]) (bytes_of ''/c'') = Some (bytes_of ''c'')"
    "doc_match [TStar, TItem (GLit 0x63)] (bytes_of ''c'')" "1 \<in> {0..length (bytes_of ''a/c'')}" by code_simp+
  then have d1: "doc_match [TStar, TItem (GClass True [(0x78, 0x78)]), TStar, TItem (GLit 0x63)] (bytes_of ''a/c'')"
    unfolding doc_match_star [of "TItem (GClass True [(0x78, 0x78)]) # _"] by (intro exI [of _ 1] exI [of _ "bytes_of ''/c''"]) (simp del: doc_match.simps(3))
  show "doc_match [TStar, TItem (GClass True [(0x78, 0x78)]), TStar, TItem (GLit 0x63)] (bytes_of ''a/c'') \<and>
      Match ix (bytes_of ''*[^x]*c'') (bytes_of ''a/c'') = Inr (False, None)" using g1 p1 d1 by (simp add: Match_greedy [OF assms])
  have g2: "greedy [(True, [GAny, GAny])] [0xe2, 0x82, 0xac]" by code_simp
  have p2: "parse_pattern (bytes_of ''*??'') = Some [(True, [GAny, GAny])]" by code_simp
  have s: "item_step GAny [0xe2, 0x82, 0xac] = Some []" "item_step GAny [] = None" by code_simp+
  have d2: "\<not> doc_match [TStar, TItem GAny, TItem GAny] [0xe2, 0x82, 0xac]"
  proof
    assume "doc_match [TStar, TItem GAny, TItem GAny] [0xe2, 0x82, 0xac]"
    then obtain n t where n: "run_items (replicate n GAny) [0xe2, 0x82, 0xac] = Some t" "doc_match [TItem GAny, TItem GAny] t"
      unfolding doc_match_star by blast
    show False
    proof (cases n)
      case 0
      then show ?thesis using n s by simp
    next
      case (Suc m)
      then show ?thesis using n s by (cases m) auto
    qed
  qed
  show "\<not> doc_match [TStar, TItem GAny, TItem GAny] [0xe2, 0x82, 0xac] \<and> Match ix (bytes_of ''*??'') [0xe2, 0x82, 0xac] = Inr (True, None)"
    using g2 p2 d2 by (simp add: Match_greedy [OF assms])
qed

text \<open>
  C38: \<open>path.Match\<close>, with a search for a byte that works as documented. It always returns, without an index out of range, and with an error
  exactly for a pattern that is not of the grammar of its comment, whatever the name. For a pattern of the grammar, when it reports a match, the
  name is made of what the terms of the pattern match, where a star covers any bytes other than slashes; every match that the comment describes,
  where a star covers characters, is one of these. On an ASCII name, with a pattern none of whose classes matches a slash, the
  matches reported are exactly the ones the comment describes. In general they are not, in two ways. The search keeps the leftmost match of each
  part and never revisits it, so \<open>*[^x]*c\<close> does not match \<open>a/c\<close>, although the class can match the slash between \<open>a\<close> and \<open>c\<close>. And a star skips bytes, so that
  it can split a character: \<open>*??\<close> matches the euro sign, a single character of three bytes, although the two question marks stand for two characters.
\<close>

theorem Match_glob:
  assumes "index_byte ix"
  shows "((\<nexists>ts. pattern_terms pattern ts) \<longrightarrow> Match ix pattern name = Inr (False, Some ErrBadPattern)) \<and>
   (pattern_terms pattern ts \<longrightarrow>
     (\<exists>b. Match ix pattern name = Inr (b, None) \<and> (b \<longrightarrow> byte_match ts name) \<and> (doc_match ts name \<longrightarrow> byte_match ts name) \<and>
       (ascii_name name \<and> (\<forall>it. TItem it \<in> set ts \<longrightarrow> slash_strict it) \<longrightarrow> (b \<longleftrightarrow> doc_match ts name)))) \<and>
   (\<exists>qs. pattern_terms (bytes_of ''*[^x]*c'') qs \<and> doc_match qs (bytes_of ''a/c'') \<and>
      Match ix (bytes_of ''*[^x]*c'') (bytes_of ''a/c'') = Inr (False, None)) \<and>
   (\<exists>qs. pattern_terms (bytes_of ''*??'') qs \<and> \<not> doc_match qs (rune_enc 0x20ac) \<and>
      Match ix (bytes_of ''*??'') (rune_enc 0x20ac) = Inr (True, None))"
proof (intro conjI impI)
  assume "pattern_terms pattern ts"
  then show "\<exists>b. Match ix pattern name = Inr (b, None) \<and> (b \<longrightarrow> byte_match ts name) \<and> (doc_match ts name \<longrightarrow> byte_match ts name) \<and>
       (ascii_name name \<and> (\<forall>it. TItem it \<in> set ts \<longrightarrow> slash_strict it) \<longrightarrow> (b \<longleftrightarrow> doc_match ts name))"
    using Match_terms [OF assms] doc_match_byte_match by blast
next
  have "rune_enc 0x20ac = [0xe2, 0x82, 0xac]" by code_simp
  then show "\<exists>qs. pattern_terms (bytes_of ''*??'') qs \<and> \<not> doc_match qs (rune_enc 0x20ac) \<and>
      Match ix (bytes_of ''*??'') (rune_enc 0x20ac) = Inr (True, None)"
    using question_marks_terms Match_deviations(2) [OF assms] by metis
qed (use Match_malformed [OF assms] slash_class_terms Match_deviations(1) [OF assms] in blast)+

theorem Match_glob_witness:
  "index_byte index_of \<and> pattern_terms [0x61, 0x2a] [TItem (GLit 0x61), TStar] \<and> Match index_of [0x61, 0x2a] [0x61, 0x62] = Inr (True, None) \<and>
   (\<nexists>ts. pattern_terms [0x5b] ts) \<and> Match index_of [0x5b] [] = Inr (False, Some ErrBadPattern)"
proof -
  note ix = index_loop.index_byte_axioms
  have "pattern_terms ([0x61] @ [0x2a] @ []) [TItem (GLit 0x61), TStar]"
    by (intro pattern_terms.more_terms pat_term.lit pat_term.star pattern_terms.no_terms) simp
  then have p: "pattern_terms [0x61, 0x2a] [TItem (GLit 0x61), TStar]" by simp
  have n: "\<nexists>ts. pattern_terms [0x5b] ts"
  proof
    assume "\<exists>ts. pattern_terms [0x5b] ts"
    then obtain ts where "parse_pattern [0x5b] = Some (chunk_terms ts)" using parse_pattern_complete by blast
    moreover have "parse_pattern [0x5b] = None" by code_simp
    ultimately show False by simp
  qed
  have "ascii_name [0x61, 0x62]" by (simp add: ascii_name_def RuneSelf_def)
  moreover have "doc_match [TItem (GLit 0x61), TStar] [0x61, 0x62]" by code_simp
  ultimately show ?thesis
    using ix p n Match_glob [OF ix, of "[0x61, 0x2a]" "[0x61, 0x62]" "[TItem (GLit 0x61), TStar]"] Match_glob [OF ix, of "[0x5b]" "[]" "[]"]
    by (auto simp: slash_strict_def)
qed

end
