(* ===== verification/Bytes_Buffer.thy ===== *)
theory Bytes_Buffer
  imports Strings_Reader
begin

text \<open>
  \<open>bytes.Buffer\<close> (\<open>src/bytes/buffer.go\<close>). The field \<open>buf\<close> is kept with its backing array: \<open>bf_arr\<close> is the array from the first
  byte of the slice up to its capacity, \<open>bf_len\<close> the length of the slice, so that reslicing uncovers what the array holds;
  \<open>bf_nil\<close> says whether the slice is nil. Slice expressions out of range are panics. What is not part of this source tree is a parameter: \<open>ga\<close> gives the
  capacity of a fresh slice of so many bytes, \<open>None\<close> when the allocation panics, and \<open>ix\<close> is \<open>bytealg.IndexByte\<close>.
\<close>

section \<open>The buffer\<close>

record Buffer =
  bf_arr :: bytes
  bf_len :: nat
  bf_nil :: bool
  bf_off :: int
  bf_lastRead :: int

type_synonym grow_alloc = "int \<Rightarrow> nat option"

definition smallBufferSize :: int where "smallBufferSize = 64"

definition opRead :: int where "opRead = - 1"

definition opInvalid :: int where "opInvalid = 0"

definition opReadRune1 :: int where "opReadRune1 = 1"

definition ErrTooLarge :: panic where "ErrTooLarge = PanicMsg ''bytes.Buffer: too large''"

definition errNegativeRead :: panic where
  "errNegativeRead = PanicMsg ''bytes.Buffer: reader returned negative count from Read''"

definition buffer_maxInt :: int where "buffer_maxInt = 2 ^ 63 - 1"

definition MinRead :: int where "MinRead = 512"

text \<open>The slice \<open>b.buf\<close>, the reslicing \<open>b.buf = b.buf[:k]\<close>, and the slice expression \<open>b.buf[i:j]\<close>.\<close>

definition buffer_slice :: "Buffer \<Rightarrow> bytes" where
  "buffer_slice b = take (bf_len b) (bf_arr b)"

definition reslice :: "Buffer \<Rightarrow> int \<Rightarrow> panic + Buffer" where
  "reslice b k = (if 0 \<le> k \<and> k \<le> int (length (bf_arr b)) then Inr (b\<lparr>bf_len := nat k\<rparr>) else Inl SliceBounds)"

definition slice_range :: "Buffer \<Rightarrow> int \<Rightarrow> int \<Rightarrow> panic + bytes" where
  "slice_range b i j =
     (if 0 \<le> i \<and> i \<le> j \<and> j \<le> int (length (bf_arr b)) then Inr (take (nat (j - i)) (drop (nat i) (bf_arr b))) else Inl SliceBounds)"

definition zero_Buffer :: Buffer where
  "zero_Buffer = \<lparr>bf_arr = [], bf_len = 0, bf_nil = True, bf_off = 0, bf_lastRead = opInvalid\<rparr>"

definition NewBuffer :: "bytes \<Rightarrow> nat \<Rightarrow> bool \<Rightarrow> Buffer" where
  "NewBuffer arr n isnil = \<lparr>bf_arr = arr, bf_len = n, bf_nil = isnil, bf_off = 0, bf_lastRead = opInvalid\<rparr>"

text \<open>\<open>spare\<close> is the room that the conversion \<open>[]byte(s)\<close> leaves behind the bytes of \<open>s\<close>.\<close>

definition NewBufferString :: "bytes \<Rightarrow> bytes \<Rightarrow> Buffer" where
  "NewBufferString s spare = \<lparr>bf_arr = s @ spare, bf_len = length s, bf_nil = False, bf_off = 0, bf_lastRead = opInvalid\<rparr>"

definition Buffer_Bytes :: "Buffer \<Rightarrow> panic + bytes" where
  "Buffer_Bytes b = slice_from (buffer_slice b) (bf_off b)"

definition Buffer_AvailableBuffer :: "Buffer \<Rightarrow> bytes" where
  "Buffer_AvailableBuffer b = drop (bf_len b) (buffer_slice b)"

definition Buffer_String :: "Buffer option \<Rightarrow> panic + bytes" where
  "Buffer_String p = (case p of None \<Rightarrow> Inr (bytes_of ''<nil>'') | Some b \<Rightarrow> slice_from (buffer_slice b) (bf_off b))"

definition Buffer_Len :: "Buffer \<Rightarrow> int" where
  "Buffer_Len b = int (bf_len b) - bf_off b"

definition Buffer_Peek :: "Buffer \<Rightarrow> int \<Rightarrow> panic + bytes \<times> io_error option" where
  "Buffer_Peek b n =
     (if Buffer_Len b < n then (case slice_from (buffer_slice b) (bf_off b) of Inl e \<Rightarrow> Inl e | Inr t \<Rightarrow> Inr (t, Some EOF))
      else (case slice_range b (bf_off b) (bf_off b + n) of Inl e \<Rightarrow> Inl e | Inr t \<Rightarrow> Inr (t, None)))"

definition Buffer_empty :: "Buffer \<Rightarrow> bool" where
  "Buffer_empty b \<longleftrightarrow> int (bf_len b) \<le> bf_off b"

definition Buffer_Cap :: "Buffer \<Rightarrow> int" where
  "Buffer_Cap b = int (length (bf_arr b))"

definition Buffer_Available :: "Buffer \<Rightarrow> int" where
  "Buffer_Available b = int (length (bf_arr b)) - int (bf_len b)"

definition Buffer_Reset :: "Buffer \<Rightarrow> Buffer" where
  "Buffer_Reset b = b\<lparr>bf_len := 0, bf_off := 0, bf_lastRead := opInvalid\<rparr>"

definition Buffer_Truncate :: "Buffer \<Rightarrow> int \<Rightarrow> panic + Buffer" where
  "Buffer_Truncate b n =
     (if n = 0 then Inr (Buffer_Reset b)
      else
        (let b = b\<lparr>bf_lastRead := opInvalid\<rparr>
         in if n < 0 \<or> n > Buffer_Len b then Inl (PanicMsg ''bytes.Buffer: truncation out of range'')
            else reslice b (bf_off b + n)))"

section \<open>Growing\<close>

definition tryGrowByReslice :: "Buffer \<Rightarrow> int \<Rightarrow> panic + Buffer \<times> int \<times> bool" where
  "tryGrowByReslice b n =
     (let l = int (bf_len b)
      in if n \<le> int (length (bf_arr b)) - l then (case reslice b (l + n) of Inl e \<Rightarrow> Inl e | Inr b \<Rightarrow> Inr (b, l, True))
         else Inr (b, 0, False))"

text \<open>\<open>growSlice(b, n)\<close> for a slice with the bytes \<open>s\<close> and the capacity \<open>k\<close>: the new array and the length of the slice.\<close>

definition growSlice :: "grow_alloc \<Rightarrow> bytes \<Rightarrow> int \<Rightarrow> int \<Rightarrow> panic + bytes \<times> nat" where
  "growSlice ga s k n =
     (let c = wrap64 (int (length s) + n);
          c = (if c < wrap64 (2 * k) then wrap64 (2 * k) else c)
      in case ga c of None \<Rightarrow> Inl ErrTooLarge
         | Some m \<Rightarrow> (let i = min (nat c) (length s) in Inr (take i s @ replicate (m - i) 0, i)))"

text \<open>The unread bytes are slid down, or copied to a new slice: the part of \<open>grow\<close> from \<open>c := cap(b.buf)\<close> on.\<close>

definition grow_move :: "grow_alloc \<Rightarrow> Buffer \<Rightarrow> int \<Rightarrow> int \<Rightarrow> panic + Buffer" where
  "grow_move ga b m n =
     (let c = int (length (bf_arr b))
      in case slice_from (buffer_slice b) (bf_off b) of
           Inl e \<Rightarrow> Inl e
         | Inr s \<Rightarrow>
             if n \<le> c div 2 - m then Inr (b\<lparr>bf_arr := go_copy (buffer_slice b) s @ drop (bf_len b) (bf_arr b)\<rparr>)
             else if c > buffer_maxInt - c - n then Inl ErrTooLarge
             else
               (case growSlice ga s (c - bf_off b) (wrap64 (bf_off b + n)) of
                  Inl e \<Rightarrow> Inl e
                | Inr (arr, l) \<Rightarrow> Inr (b\<lparr>bf_arr := arr, bf_len := l, bf_nil := False\<rparr>)))"

definition Buffer_grow :: "grow_alloc \<Rightarrow> Buffer \<Rightarrow> int \<Rightarrow> panic + Buffer \<times> int" where
  "Buffer_grow ga b n =
     (let m = Buffer_Len b;
          b = (if m = 0 \<and> bf_off b \<noteq> 0 then Buffer_Reset b else b)
      in case tryGrowByReslice b n of
           Inl e \<Rightarrow> Inl e
         | Inr (b, i, True) \<Rightarrow> Inr (b, i)
         | Inr (b, _, False) \<Rightarrow>
             if bf_nil b \<and> n \<le> smallBufferSize then
               Inr (b\<lparr>bf_arr := replicate (nat smallBufferSize) 0, bf_len := nat n, bf_nil := False\<rparr>, 0)
             else
               (case grow_move ga b m n of
                  Inl e \<Rightarrow> Inl e
                | Inr b \<Rightarrow> (case reslice (b\<lparr>bf_off := 0\<rparr>) (wrap64 (m + n)) of Inl e \<Rightarrow> Inl e | Inr b \<Rightarrow> Inr (b, m))))"

definition Buffer_Grow :: "grow_alloc \<Rightarrow> Buffer \<Rightarrow> int \<Rightarrow> panic + Buffer" where
  "Buffer_Grow ga b n =
     (if n < 0 then Inl (PanicMsg ''bytes.Buffer.Grow: negative count'')
      else (case Buffer_grow ga b n of Inl e \<Rightarrow> Inl e | Inr (b, m) \<Rightarrow> reslice b m))"

section \<open>Writing\<close>

text \<open>\<open>m, ok := b.tryGrowByReslice(n); if !ok { m = b.grow(n) }\<close>.\<close>

definition grow_for :: "grow_alloc \<Rightarrow> Buffer \<Rightarrow> int \<Rightarrow> panic + Buffer \<times> int" where
  "grow_for ga b n =
     (case tryGrowByReslice b n of
        Inl e \<Rightarrow> Inl e
      | Inr (b, m, True) \<Rightarrow> Inr (b, m)
      | Inr (b, m, False) \<Rightarrow> Buffer_grow ga b n)"

text \<open>\<open>copy(b.buf[m:], p)\<close>.\<close>

definition copy_at :: "Buffer \<Rightarrow> int \<Rightarrow> bytes \<Rightarrow> panic + Buffer \<times> nat" where
  "copy_at b m p =
     (case slice_from (buffer_slice b) m of
        Inl e \<Rightarrow> Inl e
      | Inr t \<Rightarrow> Inr (b\<lparr>bf_arr := take (nat m) (bf_arr b) @ go_copy t p @ drop (bf_len b) (bf_arr b)\<rparr>, min (length t) (length p)))"

definition Buffer_Write :: "grow_alloc \<Rightarrow> Buffer \<Rightarrow> bytes \<Rightarrow> panic + Buffer \<times> nat \<times> io_error option" where
  "Buffer_Write ga b p =
     (case grow_for ga (b\<lparr>bf_lastRead := opInvalid\<rparr>) (int (length p)) of
        Inl e \<Rightarrow> Inl e
      | Inr (b, m) \<Rightarrow> (case copy_at b m p of Inl e \<Rightarrow> Inl e | Inr (b, n) \<Rightarrow> Inr (b, n, None)))"

definition Buffer_WriteString :: "grow_alloc \<Rightarrow> Buffer \<Rightarrow> bytes \<Rightarrow> panic + Buffer \<times> nat \<times> io_error option" where
  "Buffer_WriteString ga b s =
     (case grow_for ga (b\<lparr>bf_lastRead := opInvalid\<rparr>) (int (length s)) of
        Inl e \<Rightarrow> Inl e
      | Inr (b, m) \<Rightarrow> (case copy_at b m s of Inl e \<Rightarrow> Inl e | Inr (b, n) \<Rightarrow> Inr (b, n, None)))"

definition Buffer_WriteByte :: "grow_alloc \<Rightarrow> Buffer \<Rightarrow> u8 \<Rightarrow> panic + Buffer \<times> io_error option" where
  "Buffer_WriteByte ga b c =
     (case grow_for ga (b\<lparr>bf_lastRead := opInvalid\<rparr>) 1 of
        Inl e \<Rightarrow> Inl e
      | Inr (b, m) \<Rightarrow>
          if 0 \<le> m \<and> m < int (bf_len b) then Inr (b\<lparr>bf_arr := (bf_arr b)[nat m := c]\<rparr>, None) else Inl IndexOutOfRange)"

text \<open>
  \<open>utf8.AppendRune\<close> writes behind \<open>b.buf[:m]\<close>, where there is room for the \<open>UTFMax\<close> bytes that were asked for.
\<close>

definition Buffer_WriteRune :: "grow_alloc \<Rightarrow> Buffer \<Rightarrow> rune \<Rightarrow> panic + Buffer \<times> int \<times> io_error option" where
  "Buffer_WriteRune ga b r =
     (if unat r < unat RuneSelf then
        (case Buffer_WriteByte ga b (ucast r) of Inl e \<Rightarrow> Inl e | Inr (b, _) \<Rightarrow> Inr (b, 1, None))
      else
        (case grow_for ga (b\<lparr>bf_lastRead := opInvalid\<rparr>) UTFMax of
           Inl e \<Rightarrow> Inl e
         | Inr (b, m) \<Rightarrow>
             (case slice_range b 0 m of
                Inl e \<Rightarrow> Inl e
              | Inr t \<Rightarrow>
                  (let t = AppendRune t r
                   in Inr (b\<lparr>bf_arr := t @ drop (length t) (bf_arr b), bf_len := length t\<rparr>, int (length t) - m, None)))))"

section \<open>Reading\<close>

definition Buffer_Read :: "Buffer \<Rightarrow> bytes \<Rightarrow> panic + Buffer \<times> bytes \<times> nat \<times> io_error option" where
  "Buffer_Read b p =
     (let b = b\<lparr>bf_lastRead := opInvalid\<rparr>
      in if Buffer_empty b then Inr (Buffer_Reset b, p, 0, if length p = 0 then None else Some EOF)
         else
           (case slice_from (buffer_slice b) (bf_off b) of
              Inl e \<Rightarrow> Inl e
            | Inr t \<Rightarrow>
                (let n = min (length p) (length t); b = b\<lparr>bf_off := bf_off b + int n\<rparr>
                 in Inr (if n > 0 then b\<lparr>bf_lastRead := opRead\<rparr> else b, go_copy p t, n, None))))"

definition Buffer_Next :: "Buffer \<Rightarrow> int \<Rightarrow> panic + Buffer \<times> bytes" where
  "Buffer_Next b n =
     (let b = b\<lparr>bf_lastRead := opInvalid\<rparr>;
          m = Buffer_Len b;
          n = (if n > m then m else n)
      in case slice_range b (bf_off b) (bf_off b + n) of
           Inl e \<Rightarrow> Inl e
         | Inr data \<Rightarrow>
             (let b = b\<lparr>bf_off := bf_off b + n\<rparr> in Inr (if n > 0 then b\<lparr>bf_lastRead := opRead\<rparr> else b, data)))"

definition Buffer_ReadByte :: "Buffer \<Rightarrow> panic + Buffer \<times> u8 \<times> io_error option" where
  "Buffer_ReadByte b =
     (if Buffer_empty b then Inr (Buffer_Reset b, 0, Some EOF)
      else if bf_off b < 0 then Inl IndexOutOfRange
      else Inr (b\<lparr>bf_off := bf_off b + 1, bf_lastRead := opRead\<rparr>, buffer_slice b ! nat (bf_off b), None))"

definition Buffer_ReadRune :: "Buffer \<Rightarrow> panic + Buffer \<times> rune \<times> nat \<times> io_error option" where
  "Buffer_ReadRune b =
     (if Buffer_empty b then Inr (Buffer_Reset b, 0, 0, Some EOF)
      else if bf_off b < 0 then Inl IndexOutOfRange
      else
        (let c = buffer_slice b ! nat (bf_off b)
         in if c < RuneSelf then Inr (b\<lparr>bf_off := bf_off b + 1, bf_lastRead := opReadRune1\<rparr>, ucast c, 1, None)
            else
              (case DecodeRune (drop (nat (bf_off b)) (buffer_slice b)) of (r, n) \<Rightarrow>
                 Inr (b\<lparr>bf_off := bf_off b + int n, bf_lastRead := int n\<rparr>, r, n, None))))"

definition Buffer_UnreadRune :: "Buffer \<Rightarrow> Buffer \<times> io_error option" where
  "Buffer_UnreadRune b =
     (if bf_lastRead b \<le> opInvalid
      then (b, Some (OtherError ''bytes.Buffer: UnreadRune: previous operation was not a successful ReadRune''))
      else ((if bf_off b \<ge> bf_lastRead b then b\<lparr>bf_off := bf_off b - bf_lastRead b\<rparr> else b)\<lparr>bf_lastRead := opInvalid\<rparr>, None))"

definition Buffer_UnreadByte :: "Buffer \<Rightarrow> Buffer \<times> io_error option" where
  "Buffer_UnreadByte b =
     (if bf_lastRead b = opInvalid
      then (b, Some (OtherError ''bytes.Buffer: UnreadByte: previous operation was not a successful read''))
      else
        (let b = b\<lparr>bf_lastRead := opInvalid\<rparr> in (if bf_off b > 0 then b\<lparr>bf_off := bf_off b - 1\<rparr> else b, None)))"

definition Buffer_readSlice :: "index_fun \<Rightarrow> Buffer \<Rightarrow> u8 \<Rightarrow> panic + Buffer \<times> bytes \<times> io_error option" where
  "Buffer_readSlice ix b delim =
     (case slice_from (buffer_slice b) (bf_off b) of
        Inl e \<Rightarrow> Inl e
      | Inr t \<Rightarrow>
          (let i = ix t delim;
               stop = (if i < 0 then int (bf_len b) else bf_off b + i + 1)
           in case slice_range b (bf_off b) stop of
                Inl e \<Rightarrow> Inl e
              | Inr line \<Rightarrow> Inr (b\<lparr>bf_off := stop, bf_lastRead := opRead\<rparr>, line, if i < 0 then Some EOF else None)))"

definition Buffer_ReadBytes :: "index_fun \<Rightarrow> Buffer \<Rightarrow> u8 \<Rightarrow> panic + Buffer \<times> bytes \<times> io_error option" where
  "Buffer_ReadBytes ix b delim =
     (case Buffer_readSlice ix b delim of Inl e \<Rightarrow> Inl e | Inr (b, sl, err) \<Rightarrow> Inr (b, [] @ sl, err))"

definition Buffer_ReadString :: "index_fun \<Rightarrow> Buffer \<Rightarrow> u8 \<Rightarrow> panic + Buffer \<times> bytes \<times> io_error option" where
  "Buffer_ReadString ix b delim =
     (case Buffer_readSlice ix b delim of Inl e \<Rightarrow> Inl e | Inr (b, sl, err) \<Rightarrow> Inr (b, sl, err))"

section \<open>Copying from readers and to writers\<close>

type_synonym 'r counting_reader = "'r \<Rightarrow> bytes \<Rightarrow> panic + 'r \<times> bytes \<times> int \<times> io_error option"

partial_function (option) ReadFrom_loop ::
    "grow_alloc \<Rightarrow> 'r counting_reader \<Rightarrow> Buffer \<Rightarrow> 'r \<Rightarrow> int \<Rightarrow> (panic + Buffer \<times> 'r \<times> int \<times> io_error option) option" where
  "ReadFrom_loop ga rd b r n =
     (case Buffer_grow ga b MinRead of
        Inl e \<Rightarrow> Some (Inl e)
      | Inr (b, i) \<Rightarrow>
          (case reslice b i of
             Inl e \<Rightarrow> Some (Inl e)
           | Inr b \<Rightarrow>
               (case slice_range b i (int (length (bf_arr b))) of
                  Inl e \<Rightarrow> Some (Inl e)
                | Inr p \<Rightarrow>
                    (case rd r p of
                       Inl e \<Rightarrow> Some (Inl e)
                     | Inr (r, p, m, err) \<Rightarrow>
                         if m < 0 then Some (Inl errNegativeRead)
                         else
                           (case reslice (b\<lparr>bf_arr := take (nat i) (bf_arr b) @ p\<rparr>) (i + m) of
                              Inl e \<Rightarrow> Some (Inl e)
                            | Inr b \<Rightarrow>
                                (if err = Some EOF then Some (Inr (b, r, wrap64 (n + m), None))
                                 else if err \<noteq> None then Some (Inr (b, r, wrap64 (n + m), err))
                                 else ReadFrom_loop ga rd b r (wrap64 (n + m))))))))"

declare ReadFrom_loop.simps [code]

definition Buffer_ReadFrom ::
    "grow_alloc \<Rightarrow> 'r counting_reader \<Rightarrow> Buffer \<Rightarrow> 'r \<Rightarrow> (panic + Buffer \<times> 'r \<times> int \<times> io_error option) option" where
  "Buffer_ReadFrom ga rd b r = ReadFrom_loop ga rd (b\<lparr>bf_lastRead := opInvalid\<rparr>) r 0"

definition Buffer_WriteTo :: "'w writer \<Rightarrow> Buffer \<Rightarrow> 'w \<Rightarrow> panic + Buffer \<times> 'w \<times> int \<times> io_error option" where
  "Buffer_WriteTo wr b w =
     (let b = b\<lparr>bf_lastRead := opInvalid\<rparr>;
          nBytes = Buffer_Len b
      in if nBytes > 0 then
           (case slice_from (buffer_slice b) (bf_off b) of
              Inl e \<Rightarrow> Inl e
            | Inr t \<Rightarrow>
                (case wr w t of
                   Inl e \<Rightarrow> Inl e
                 | Inr (w, m, err) \<Rightarrow>
                     if m > nBytes then Inl (PanicMsg ''bytes.Buffer.WriteTo: invalid Write count'')
                     else
                       (let b = b\<lparr>bf_off := wrap64 (bf_off b + m)\<rparr>
                        in if err \<noteq> None then Inr (b, w, m, err)
                           else if m \<noteq> nBytes then Inr (b, w, m, Some ErrShortWrite)
                           else Inr (Buffer_Reset b, w, m, None))))
         else Inr (Buffer_Reset b, w, 0, None))"

section \<open>The invariant and the contents\<close>

definition contents :: "Buffer \<Rightarrow> bytes" where
  "contents b = drop (nat (bf_off b)) (buffer_slice b)"

text \<open>A slice has a capacity that is an \<open>int\<close>. Nothing is said of \<open>lastRead\<close>: \<open>Grow\<close> moves the contents and leaves it as it is.\<close>

definition buffer_ok :: "Buffer \<Rightarrow> bool" where
  "buffer_ok b \<longleftrightarrow> 0 \<le> bf_off b \<and> bf_off b \<le> int (bf_len b) \<and> bf_len b \<le> length (bf_arr b) \<and> int (length (bf_arr b)) < 2 ^ 63 \<and>
     (bf_nil b \<longrightarrow> bf_arr b = [])"

text \<open>What is relied on of the allocation: a fresh slice has at least the length asked for.\<close>

definition alloc_ok :: "grow_alloc \<Rightarrow> bool" where
  "alloc_ok ga \<longleftrightarrow> (\<forall>c k. ga c = Some k \<longrightarrow> 0 \<le> c \<and> c \<le> int k \<and> int k < 2 ^ 63)"

text \<open>When room for \<open>n\<close> bytes may be refused: twice the capacity and \<open>n\<close> exceed an \<open>int\<close>, or the allocation fails for a length up to that.\<close>

definition too_large :: "grow_alloc \<Rightarrow> Buffer \<Rightarrow> int \<Rightarrow> bool" where
  "too_large ga b n \<longleftrightarrow> (\<exists>c. 0 \<le> c \<and> c \<le> 2 * Buffer_Cap b + n \<and> ga c = None) \<or> 2 * Buffer_Cap b + n > buffer_maxInt"

lemma length_contents: "buffer_ok b \<Longrightarrow> int (length (contents b)) = Buffer_Len b"
  by (auto simp: contents_def buffer_slice_def buffer_ok_def Buffer_Len_def)

lemma slice_from_contents: "buffer_ok b \<Longrightarrow> slice_from (buffer_slice b) (bf_off b) = Inr (contents b)"
  by (auto simp: slice_from_def contents_def buffer_slice_def buffer_ok_def)

lemma contents_empty: "buffer_ok b \<Longrightarrow> contents b = [] \<longleftrightarrow> Buffer_empty b"
proof -
  assume "buffer_ok b"
  then have "contents b = [] \<longleftrightarrow> Buffer_Len b = 0" "0 \<le> Buffer_Len b"
    using length_contents [of b] by (metis length_0_conv of_nat_eq_0_iff, simp add: Buffer_Len_def buffer_ok_def)
  then show ?thesis by (auto simp: Buffer_empty_def Buffer_Len_def)
qed

lemma reslice_ok: "0 \<le> k \<Longrightarrow> k \<le> int (length (bf_arr b)) \<Longrightarrow> reslice b k = Inr (b\<lparr>bf_len := nat k\<rparr>)"
  by (simp add: reslice_def)

text \<open>Room for \<open>n\<close> bytes has been made at the index \<open>m\<close>, behind the contents.\<close>

definition grown :: "Buffer \<Rightarrow> int \<Rightarrow> Buffer \<Rightarrow> int \<Rightarrow> bool" where
  "grown b n b' m \<longleftrightarrow> bf_off b' \<le> m \<and> int (bf_len b') = m + n \<and> buffer_ok b' \<and> contents (b'\<lparr>bf_len := nat m\<rparr>) = contents b \<and>
     (bf_lastRead b = opInvalid \<longrightarrow> bf_lastRead b' = opInvalid)"

lemma tryGrow_grown:
  assumes "buffer_ok b" "0 \<le> n"
  shows "tryGrowByReslice b n = (if n \<le> Buffer_Available b then Inr (b\<lparr>bf_len := bf_len b + nat n\<rparr>, int (bf_len b), True) else Inr (b, 0, False)) \<and>
    (n \<le> Buffer_Available b \<longrightarrow> grown b n (b\<lparr>bf_len := bf_len b + nat n\<rparr>) (int (bf_len b)))"
  using assms by (auto simp: tryGrowByReslice_def reslice_def Buffer_Available_def grown_def buffer_ok_def contents_def buffer_slice_def
      Let_def nat_add_distrib)

lemma growSlice_ok:
  assumes "alloc_ok ga" "0 \<le> n" "int (length s) \<le> k" "2 * k + n < 2 ^ 63"
  shows "growSlice ga s k n = Inl ErrTooLarge \<and> (\<exists>c. 0 \<le> c \<and> c \<le> 2 * k + n \<and> ga c = None) \<or>
    (\<exists>c. growSlice ga s k n = Inr (s @ replicate (c - length s) 0, length s) \<and> int (length s) + n \<le> int c \<and> int c < 2 ^ 63)"
proof -
  define c where "c = max (int (length s) + n) (2 * k)"
  have "wrap64 (int (length s) + n) = int (length s) + n" "wrap64 (2 * k) = 2 * k" using assms(2-4) by (auto intro!: wrap64_small)
  then have "(let c = wrap64 (int (length s) + n) in if c < wrap64 (2 * k) then wrap64 (2 * k) else c) = c"
    by (simp add: c_def max_def Let_def)
  then have g: "growSlice ga s k n = (case ga c of None \<Rightarrow> Inl ErrTooLarge
      | Some m \<Rightarrow> (let i = min (nat c) (length s) in Inr (take i s @ replicate (m - i) 0, i)))"
    unfolding growSlice_def Let_def by (simp only:)
  have m: "min (nat c) (length s) = length s" using assms(2) by (auto simp: c_def)
  have a: "int (length s) + n \<le> int m \<and> int m < 2 ^ 63" if "ga c = Some m" for m
  proof -
    have "c \<le> int m \<and> int m < 2 ^ 63" using assms(1) that unfolding alloc_ok_def by blast
    then show ?thesis by (simp add: c_def)
  qed
  show ?thesis
  proof (cases "ga c")
    case (Some m)
    show ?thesis unfolding g Some using m a [OF Some] by (intro disjI2 exI [of _ m]) (simp add: Let_def)
  next
    case None
    have "0 \<le> c" "c \<le> 2 * k + n" using assms(2,3) by (auto simp: c_def)
    then show ?thesis using None by (auto simp: g)
  qed
qed

lemma Buffer_Reset_ok: "buffer_ok b \<Longrightarrow> buffer_ok (Buffer_Reset b)" "contents (Buffer_Reset b) = []"
  by (auto simp: buffer_ok_def Buffer_Reset_def contents_def buffer_slice_def)

text \<open>Sliding down and moving to a new array: the contents are at the start of the array, and the length is \<open>m + n\<close>.\<close>

lemma moved_grown:
  assumes "buffer_ok b" "0 \<le> n" "Buffer_Len b + n \<le> int (length arr)" "int (length arr) < 2 ^ 63" "take (length (contents b)) arr = contents b"
    "bf_arr b' = arr" "bf_lastRead b' = bf_lastRead b" "bf_nil b' \<longrightarrow> arr = []"
  shows "\<exists>b''. reslice (b'\<lparr>bf_off := 0\<rparr>) (wrap64 (Buffer_Len b + n)) = Inr b'' \<and> grown b n b'' (Buffer_Len b)"
proof -
  have l: "0 \<le> Buffer_Len b" "nat (Buffer_Len b) = length (contents b)" using length_contents [OF assms(1)] by simp_all
  then have w: "wrap64 (Buffer_Len b + n) = Buffer_Len b + n" using assms(2-4) by (intro wrap64_small) simp_all
  have "reslice (b'\<lparr>bf_off := 0\<rparr>) (wrap64 (Buffer_Len b + n)) = Inr (b'\<lparr>bf_off := 0, bf_len := nat (Buffer_Len b + n)\<rparr>)"
    unfolding w using assms(2,3,6) l by (subst reslice_ok) simp_all
  moreover have "grown b n (b'\<lparr>bf_off := 0, bf_len := nat (Buffer_Len b + n)\<rparr>) (Buffer_Len b)"
    using assms l by (auto simp: grown_def buffer_ok_def contents_def buffer_slice_def nat_le_iff)
  ultimately show ?thesis by blast
qed

lemma grow_move_slides:
  assumes "buffer_ok b" "n \<le> int (length (bf_arr b)) div 2 - Buffer_Len b"
  shows "\<exists>b'. grow_move ga b (Buffer_Len b) n = Inr b' \<and> length (bf_arr b') = length (bf_arr b) \<and>
    take (length (contents b)) (bf_arr b') = contents b \<and> bf_lastRead b' = bf_lastRead b \<and> (bf_nil b' \<longrightarrow> bf_arr b' = [])"
proof -
  define arr where "arr = go_copy (buffer_slice b) (contents b) @ drop (bf_len b) (bf_arr b)"
  have "length (buffer_slice b) = bf_len b" "length (contents b) \<le> bf_len b"
    using assms(1) by (auto simp: buffer_slice_def contents_def buffer_ok_def)
  then have "length arr = length (bf_arr b)" "take (length (contents b)) arr = contents b"
    using assms(1) by (auto simp: arr_def go_copy_def buffer_ok_def)
  moreover have "bf_nil b \<longrightarrow> arr = []" using assms(1) calculation(1) by (auto simp: buffer_ok_def)
  moreover have "grow_move ga b (Buffer_Len b) n = Inr (b\<lparr>bf_arr := arr\<rparr>)"
    using assms(2) by (simp add: grow_move_def slice_from_contents [OF assms(1)] arr_def Let_def)
  ultimately show ?thesis by simp
qed

lemma grow_move_allocates:
  assumes "buffer_ok b" "alloc_ok ga" "0 \<le> n" "\<not> n \<le> int (length (bf_arr b)) div 2 - Buffer_Len b"
  shows "grow_move ga b (Buffer_Len b) n = Inl ErrTooLarge \<and> too_large ga b n \<or>
    (\<exists>b'. grow_move ga b (Buffer_Len b) n = Inr b' \<and> Buffer_Len b + n \<le> int (length (bf_arr b')) \<and> int (length (bf_arr b')) < 2 ^ 63 \<and>
      take (length (contents b)) (bf_arr b') = contents b \<and> bf_lastRead b' = bf_lastRead b \<and> (bf_nil b' \<longrightarrow> bf_arr b' = []))"
proof -
  define c where "c = int (length (bf_arr b))"
  have c: "int (bf_len b) \<le> c" "bf_off b \<le> int (bf_len b)" "0 \<le> bf_off b" using assms(1) by (auto simp: buffer_ok_def c_def)
  have l: "int (length (contents b)) = Buffer_Len b" "Buffer_Len b = int (bf_len b) - bf_off b"
    using length_contents [OF assms(1)] by (simp_all add: Buffer_Len_def)
  have g: "grow_move ga b (Buffer_Len b) n = (if c > buffer_maxInt - c - n then Inl ErrTooLarge
      else (case growSlice ga (contents b) (c - bf_off b) (wrap64 (bf_off b + n)) of
              Inl e \<Rightarrow> Inl e | Inr (arr, l) \<Rightarrow> Inr (b\<lparr>bf_arr := arr, bf_len := l, bf_nil := False\<rparr>)))"
    using assms(4) by (simp add: grow_move_def slice_from_contents [OF assms(1)] Let_def c_def)
  show ?thesis
  proof (cases "c > buffer_maxInt - c - n")
    case False
    then have f: "2 * c + n < 2 ^ 63" by (simp add: buffer_maxInt_def)
    then have w: "wrap64 (bf_off b + n) = bf_off b + n" using c assms(3) by (intro wrap64_small) simp_all
    have "growSlice ga (contents b) (c - bf_off b) (bf_off b + n) = Inl ErrTooLarge \<and> (\<exists>d. 0 \<le> d \<and> d \<le> 2 * (c - bf_off b) + (bf_off b + n) \<and> ga d = None) \<or>
      (\<exists>k. growSlice ga (contents b) (c - bf_off b) (bf_off b + n) = Inr (contents b @ replicate (k - length (contents b)) 0, length (contents b)) \<and>
         int (length (contents b)) + (bf_off b + n) \<le> int k \<and> int k < 2 ^ 63)"
      using c assms(3) f l by (intro growSlice_ok [OF assms(2)]) simp_all
    then show ?thesis
    proof (elim disjE exE conjE)
      fix k assume k: "growSlice ga (contents b) (c - bf_off b) (bf_off b + n) = Inr (contents b @ replicate (k - length (contents b)) 0, length (contents b))"
        "int (length (contents b)) + (bf_off b + n) \<le> int k" "int k < 2 ^ 63"
      then have "length (contents b) + (k - length (contents b)) = k" using c(3) assms(3) by simp
      then show ?thesis using False k c(3) l(1) unfolding g w by (intro disjI2) simp
    next
      fix d assume d: "growSlice ga (contents b) (c - bf_off b) (bf_off b + n) = Inl ErrTooLarge" "0 \<le> d"
        "d \<le> 2 * (c - bf_off b) + (bf_off b + n)" "ga d = None"
      then have "too_large ga b n" using c(3) unfolding too_large_def Buffer_Cap_def c_def by (intro disjI1 exI [of _ d]) simp
      then show ?thesis using False d(1) by (simp add: g w)
    qed
  qed (simp add: g too_large_def Buffer_Cap_def c_def)
qed

lemma Buffer_grow_ok:
  assumes "buffer_ok b" "alloc_ok ga" "0 \<le> n"
  shows "Buffer_grow ga b n = Inl ErrTooLarge \<and> too_large ga b n \<or> (\<exists>b' m. Buffer_grow ga b n = Inr (b', m) \<and> grown b n b' m)"
proof -
  define a where "a = (if Buffer_Len b = 0 \<and> bf_off b \<noteq> 0 then Buffer_Reset b else b)"
  have a: "buffer_ok a" "contents a = contents b" "Buffer_Len a = Buffer_Len b" "bf_lastRead b = opInvalid \<longrightarrow> bf_lastRead a = opInvalid"
    using assms(1) length_contents [OF assms(1)] Buffer_Reset_ok [of b]
    by (auto simp: a_def Buffer_Reset_def Buffer_Len_def)
  have t: "too_large ga a n = too_large ga b n" by (simp add: too_large_def a_def Buffer_Cap_def Buffer_Reset_def)
  have grown_a: "grown a n b' m \<Longrightarrow> grown b n b' m" for b' m using a(2,4) by (simp add: grown_def)
  have g: "Buffer_grow ga b n =
      (if n \<le> Buffer_Available a then Inr (a\<lparr>bf_len := bf_len a + nat n\<rparr>, int (bf_len a))
       else if bf_nil a \<and> n \<le> smallBufferSize then
         Inr (a\<lparr>bf_arr := replicate (nat smallBufferSize) 0, bf_len := nat n, bf_nil := False\<rparr>, 0)
       else (case grow_move ga a (Buffer_Len a) n of Inl e \<Rightarrow> Inl e
             | Inr b' \<Rightarrow> (case reslice (b'\<lparr>bf_off := 0\<rparr>) (wrap64 (Buffer_Len a + n)) of Inl e \<Rightarrow> Inl e | Inr b' \<Rightarrow> Inr (b', Buffer_Len a))))"
    unfolding Buffer_grow_def Let_def a_def [symmetric] tryGrow_grown [OF a(1) assms(3), THEN conjunct1] a(3) by simp
  consider (fits) "n \<le> Buffer_Available a" | (small) "\<not> n \<le> Buffer_Available a" "bf_nil a \<and> n \<le> smallBufferSize"
    | (move) "\<not> n \<le> Buffer_Available a" "\<not> (bf_nil a \<and> n \<le> smallBufferSize)" by blast
  then show ?thesis
  proof cases
    case fits
    then show ?thesis using tryGrow_grown [OF a(1) assms(3)] grown_a unfolding g by auto
  next
    case small
    then have "contents a = []" "bf_off a = 0" using a(1) by (auto simp: buffer_ok_def contents_def buffer_slice_def)
    then have "grown a n (a\<lparr>bf_arr := replicate (nat smallBufferSize) 0, bf_len := nat n, bf_nil := False\<rparr>) 0"
      using small assms(3) by (auto simp: grown_def buffer_ok_def contents_def buffer_slice_def smallBufferSize_def nat_le_iff)
    then show ?thesis unfolding g using small grown_a by auto
  next
    case move
    have "grow_move ga a (Buffer_Len a) n = Inl ErrTooLarge \<and> too_large ga b n \<or>
      (\<exists>b'. grow_move ga a (Buffer_Len a) n = Inr b' \<and> Buffer_Len a + n \<le> int (length (bf_arr b')) \<and> int (length (bf_arr b')) < 2 ^ 63 \<and>
        take (length (contents a)) (bf_arr b') = contents a \<and> bf_lastRead b' = bf_lastRead a \<and> (bf_nil b' \<longrightarrow> bf_arr b' = []))"
      using grow_move_slides [OF a(1), of n ga] grow_move_allocates [OF a(1) assms(2,3)] a(1)
      unfolding t by (cases "n \<le> int (length (bf_arr a)) div 2 - Buffer_Len a") (auto simp: buffer_ok_def)
    then show ?thesis
    proof (elim disjE exE conjE)
      fix b' assume b': "grow_move ga a (Buffer_Len a) n = Inr b'" "Buffer_Len a + n \<le> int (length (bf_arr b'))" "int (length (bf_arr b')) < 2 ^ 63"
        "take (length (contents a)) (bf_arr b') = contents a" "bf_lastRead b' = bf_lastRead a" "bf_nil b' \<longrightarrow> bf_arr b' = []"
      obtain b'' where "reslice (b'\<lparr>bf_off := 0\<rparr>) (wrap64 (Buffer_Len a + n)) = Inr b''" "grown a n b'' (Buffer_Len a)"
        using moved_grown [OF a(1) assms(3) b'(2-4) refl b'(5,6)] by blast
      then show ?thesis using move b'(1) grown_a unfolding g by auto
    qed (use move in \<open>auto simp: g\<close>)
  qed
qed

lemma grow_for_ok:
  assumes "buffer_ok b" "alloc_ok ga" "0 \<le> n"
  shows "grow_for ga b n = Inl ErrTooLarge \<and> too_large ga b n \<or> (\<exists>b' m. grow_for ga b n = Inr (b', m) \<and> grown b n b' m)"
  using tryGrow_grown [OF assms(1,3)] Buffer_grow_ok [OF assms] by (auto simp: grow_for_def)

text \<open>Bytes \<open>q\<close> written at the index where room was made for them.\<close>

lemma grown_write:
  assumes "grown b n b' m" "int (length q) \<le> n" "arr = take (nat m) (bf_arr b') @ q @ rest" "length arr = length (bf_arr b')"
  shows "buffer_ok (b'\<lparr>bf_arr := arr, bf_len := nat m + length q\<rparr>)" "contents (b'\<lparr>bf_arr := arr, bf_len := nat m + length q\<rparr>) = contents b @ q"
proof -
  have g: "0 \<le> bf_off b'" "bf_off b' \<le> m" "int (bf_len b') = m + n" "bf_len b' \<le> length (bf_arr b')" "int (length (bf_arr b')) < 2 ^ 63"
    "bf_nil b' \<longrightarrow> bf_arr b' = []" and c: "contents b = drop (nat (bf_off b')) (take (nat m) (bf_arr b'))"
    using assms(1) by (auto simp: grown_def buffer_ok_def contents_def buffer_slice_def)
  have m: "nat m \<le> length (bf_arr b')" "nat (bf_off b') \<le> nat m" using g assms(2) by auto
  have "nat m + length q \<le> length arr" using g assms(2,4) by linarith
  then show "buffer_ok (b'\<lparr>bf_arr := arr, bf_len := nat m + length q\<rparr>)" using g assms(4) by (auto simp: buffer_ok_def)
  have "take (nat m + length q) arr = take (nat m) (bf_arr b') @ q" using m(1) by (simp add: assms(3))
  then show "contents (b'\<lparr>bf_arr := arr, bf_len := nat m + length q\<rparr>) = contents b @ q"
    using m c by (simp add: contents_def buffer_slice_def)
qed

lemma copy_at_ok:
  assumes "grown b (int (length p)) b' m"
  shows "\<exists>b''. copy_at b' m p = Inr (b'', length p) \<and> buffer_ok b'' \<and> contents b'' = contents b @ p \<and> bf_lastRead b'' = bf_lastRead b'"
proof -
  have g: "0 \<le> m" "int (bf_len b') = m + int (length p)" "bf_len b' \<le> length (bf_arr b')"
    using assms by (auto simp: grown_def buffer_ok_def)
  have l: "bf_len b' = nat m + length p" using g by linarith
  define arr where "arr = take (nat m) (bf_arr b') @ p @ drop (bf_len b') (bf_arr b')"
  have "slice_from (buffer_slice b') m = Inr (drop (nat m) (buffer_slice b'))" "length (drop (nat m) (buffer_slice b')) = length p"
    using g(1,3) l by (simp_all add: slice_from_def buffer_slice_def min_def)
  then have "copy_at b' m p = Inr (b'\<lparr>bf_arr := arr\<rparr>, length p)" by (simp add: copy_at_def go_copy_def arr_def)
  moreover have "length arr = length (bf_arr b')" using g l by (simp add: arr_def)
  note grown_write [OF assms order.refl arr_def this]
  moreover have "b'\<lparr>bf_arr := arr, bf_len := nat m + length p\<rparr> = b'\<lparr>bf_arr := arr\<rparr>" by (simp add: l)
  ultimately show ?thesis by simp
qed

lemma too_large_simps [simp]: "too_large ga (b\<lparr>bf_lastRead := k\<rparr>) n = too_large ga b n"
  by (simp add: too_large_def Buffer_Cap_def)

lemma buffer_ok_lastRead [simp]: "buffer_ok (b\<lparr>bf_lastRead := k\<rparr>) = buffer_ok b" "contents (b\<lparr>bf_lastRead := k\<rparr>) = contents b"
  by (simp_all add: buffer_ok_def contents_def buffer_slice_def)

text \<open>What a write does: it may find that the buffer gets too large, otherwise the bytes are at the end of the contents.\<close>

definition wrote :: "grow_alloc \<Rightarrow> int \<Rightarrow> Buffer \<Rightarrow> bytes \<Rightarrow> panic + Buffer \<times> 'x \<Rightarrow> bool" where
  "wrote ga n b p res \<longleftrightarrow> res = Inl ErrTooLarge \<and> too_large ga b n \<or> (\<exists>b' x. res = Inr (b', x) \<and> buffer_ok b' \<and> contents b' = contents b @ p \<and> bf_lastRead b' = opInvalid)"

lemma Buffer_Write_ok:
  assumes "buffer_ok b" "alloc_ok ga"
  shows "wrote ga (int (length p)) b p (Buffer_Write ga b p)" "wrote ga (int (length p)) b p (Buffer_WriteString ga b p)"
proof -
  let ?b = "b\<lparr>bf_lastRead := opInvalid\<rparr>"
  have "buffer_ok ?b" using assms(1) by simp
  from grow_for_ok [OF this assms(2), of "int (length p)", OF of_nat_0_le_iff]
  have "wrote ga (int (length p)) b p (Buffer_Write ga b p)"
  proof (elim disjE exE conjE)
    fix b' m assume g: "grow_for ga ?b (int (length p)) = Inr (b', m)" "grown ?b (int (length p)) b' m"
    then have "bf_lastRead b' = opInvalid" by (simp add: grown_def)
    then show ?thesis using copy_at_ok [OF g(2)] g(1) by (auto simp: Buffer_Write_def wrote_def)
  qed (simp_all add: Buffer_Write_def wrote_def)
  then show "wrote ga (int (length p)) b p (Buffer_Write ga b p)" "wrote ga (int (length p)) b p (Buffer_WriteString ga b p)" by (simp_all add: Buffer_WriteString_def Buffer_Write_def)
qed

lemma Buffer_WriteByte_ok:
  assumes "buffer_ok b" "alloc_ok ga"
  shows "wrote ga 1 b [c] (Buffer_WriteByte ga b c)"
proof -
  let ?b = "b\<lparr>bf_lastRead := opInvalid\<rparr>"
  have "buffer_ok ?b" using assms(1) by simp
  from grow_for_ok [OF this assms(2) zero_le_one] show ?thesis
  proof (elim disjE exE conjE)
    fix b' m assume g: "grow_for ga ?b 1 = Inr (b', m)" "grown ?b 1 b' m"
    then have m: "0 \<le> m" "int (bf_len b') = m + 1" "bf_len b' \<le> length (bf_arr b')" "bf_lastRead b' = opInvalid"
      by (auto simp: grown_def buffer_ok_def)
    then have l: "nat m < length (bf_arr b')" "bf_len b' = nat m + 1" by linarith+
    then have "(bf_arr b')[nat m := c] = take (nat m) (bf_arr b') @ [c] @ drop (Suc (nat m)) (bf_arr b')" by (simp add: upd_conv_take_nth_drop)
    note w = grown_write [OF g(2) _ this]
    have e: "b'\<lparr>bf_arr := (bf_arr b')[nat m := c], bf_len := nat m + length [c]\<rparr> = b'\<lparr>bf_arr := (bf_arr b')[nat m := c]\<rparr>" by (simp add: l(2))
    have "Buffer_WriteByte ga b c = Inr (b'\<lparr>bf_arr := (bf_arr b')[nat m := c]\<rparr>, None)" using g(1) m by (simp add: Buffer_WriteByte_def)
    then show ?thesis using w [unfolded e] m(4) by (simp add: wrote_def)
  qed (simp_all add: Buffer_WriteByte_def wrote_def)
qed

lemma AppendRune_small: "unat r < unat RuneSelf \<Longrightarrow> AppendRune [] r = [ucast r]"
  by (simp add: AppendRune_def RuneSelf_def rune1Max_def word_le_nat_alt)

lemma Buffer_WriteRune_ok:
  assumes "buffer_ok b" "alloc_ok ga"
  shows "wrote ga UTFMax b (AppendRune [] r) (Buffer_WriteRune ga b r)"
proof (cases "unat r < unat RuneSelf")
  case True
  then show ?thesis using Buffer_WriteByte_ok [OF assms, of "ucast r"] by (auto simp: Buffer_WriteRune_def wrote_def AppendRune_small too_large_def UTFMax_def)
next
  case False
  let ?b = "b\<lparr>bf_lastRead := opInvalid\<rparr>"
  have "buffer_ok ?b" "0 \<le> UTFMax" using assms(1) by (simp_all add: UTFMax_def)
  from grow_for_ok [OF this(1) assms(2) this(2)] show ?thesis
  proof (elim disjE exE conjE)
    fix b' m assume g: "grow_for ga ?b UTFMax = Inr (b', m)" "grown ?b UTFMax b' m"
    then have m: "0 \<le> m" "int (bf_len b') = m + 4" "bf_len b' \<le> length (bf_arr b')" "bf_lastRead b' = opInvalid"
      by (auto simp: grown_def buffer_ok_def UTFMax_def)
    then have l: "nat m + 4 \<le> length (bf_arr b')" "m \<le> int (length (bf_arr b'))" by linarith+
    define t where "t = take (nat m) (bf_arr b') @ AppendRune [] r"
    have t: "length t = nat m + length (AppendRune [] r)" using l(1) by (simp add: t_def)
    then have n: "length t \<le> length (bf_arr b')" using l(1) length_rune_enc_pos(3) [of r] by linarith
    have arr: "t @ drop (length t) (bf_arr b') = take (nat m) (bf_arr b') @ AppendRune [] r @ drop (length t) (bf_arr b')" by (simp add: t_def)
    have "int (length (AppendRune [] r)) \<le> UTFMax" using length_rune_enc_pos(3) [of r] by (simp add: UTFMax_def)
    note w = grown_write [OF g(2) this arr]
    have "slice_range b' 0 m = Inr (take (nat m) (bf_arr b'))" using m(1) l(2) by (simp add: slice_range_def)
    then have "Buffer_WriteRune ga b r = Inr (b'\<lparr>bf_arr := t @ drop (length t) (bf_arr b'), bf_len := nat m + length (AppendRune [] r)\<rparr>, int (length t) - m, None)"
      using False g(1) by (simp add: Buffer_WriteRune_def Let_def AppendRune_split [of "take (nat m) (bf_arr b')"] t [symmetric] t_def [symmetric])
    then show ?thesis using w n m(4) by (auto simp: wrote_def)
  qed (use False in \<open>simp_all add: Buffer_WriteRune_def wrote_def\<close>)
qed

lemma DecodeRune_one_byte: "c < RuneSelf \<Longrightarrow> DecodeRune (c # p) = (ucast c, 1)"
  by (simp add: DecodeRune_def)

lemma advance_ok:
  assumes "buffer_ok b" "k \<le> length (contents b)"
  shows "buffer_ok (b\<lparr>bf_off := bf_off b + int k\<rparr>)" "contents (b\<lparr>bf_off := bf_off b + int k\<rparr>) = drop k (contents b)"
  using assms by (auto simp: buffer_ok_def contents_def buffer_slice_def nat_add_distrib add.commute)

text \<open>Reading \<open>k\<close> bytes: the bytes returned, and the buffer afterwards.\<close>

definition took :: "Buffer \<Rightarrow> nat \<Rightarrow> Buffer \<Rightarrow> bool" where
  "took b k b' \<longleftrightarrow> k \<le> length (contents b) \<and> buffer_ok b' \<and> contents b' = drop k (contents b) \<and>
     (0 < k \<longrightarrow> bf_off b' = bf_off b + int k \<and> bf_arr b' = bf_arr b \<and> bf_len b' = bf_len b)"

lemma took_Reset: "buffer_ok b \<Longrightarrow> contents b = [] \<Longrightarrow> took b 0 (Buffer_Reset b)"
  by (simp add: took_def Buffer_Reset_ok)

lemma Buffer_Read_ok:
  assumes "buffer_ok b"
  shows "\<exists>b' n. Buffer_Read b p = Inr (b', take n (contents b) @ drop n p, n, if contents b = [] \<and> p \<noteq> [] then Some EOF else None) \<and>
    n = min (length p) (length (contents b)) \<and> took b n b' \<and> (bf_lastRead b' = opInvalid \<longleftrightarrow> n = 0)"
proof (cases "contents b = []")
  case True
  let ?b = "b\<lparr>bf_lastRead := opInvalid\<rparr>"
  have "Buffer_empty ?b" using contents_empty [of ?b] assms True by simp
  moreover have "took b 0 (Buffer_Reset ?b)" using took_Reset [of ?b] assms True by (simp add: took_def)
  ultimately show ?thesis using True by (auto simp: Buffer_Read_def Let_def Buffer_Reset_def)
next
  case False
  let ?b = "b\<lparr>bf_lastRead := opInvalid\<rparr>"
  define n where "n = min (length p) (length (contents b))"
  have e: "\<not> Buffer_empty ?b" "slice_from (buffer_slice ?b) (bf_off ?b) = Inr (contents b)"
    using contents_empty [of ?b] slice_from_contents [of ?b] assms False by simp_all
  define b' where "b' = b\<lparr>bf_lastRead := (if n > 0 then opRead else opInvalid), bf_off := bf_off b + int n\<rparr>"
  have "buffer_ok b'" "contents b' = drop n (contents b)"
    using advance_ok [of "b\<lparr>bf_lastRead := (if n > 0 then opRead else opInvalid)\<rparr>" n] assms by (auto simp: b'_def n_def)
  then have "took b n b'" by (auto simp: took_def n_def b'_def)
  moreover have "Buffer_Read b p = Inr (b', take n (contents b) @ drop n p, n, None)"
    using e by (auto simp: Buffer_Read_def Let_def b'_def go_copy_def n_def [symmetric]) (auto simp: n_def min_def)
  ultimately show ?thesis using False by (intro exI [of _ b'] exI [of _ n]) (auto simp: n_def [symmetric] b'_def opRead_def opInvalid_def)
qed

lemma Buffer_ReadByte_ok:
  assumes "buffer_ok b"
  shows "if contents b = [] then Buffer_ReadByte b = Inr (Buffer_Reset b, 0, Some EOF)
    else \<exists>b'. Buffer_ReadByte b = Inr (b', hd (contents b), None) \<and> took b 1 b' \<and> bf_lastRead b' = opRead"
proof (cases "contents b = []")
  case True
  then show ?thesis using contents_empty [OF assms] by (simp add: Buffer_ReadByte_def)
next
  case False
  let ?b = "b\<lparr>bf_off := bf_off b + int 1, bf_lastRead := opRead\<rparr>"
  have "hd (contents b) = buffer_slice b ! nat (bf_off b)" using False by (simp add: contents_def hd_drop_conv_nth)
  moreover have "took b 1 ?b"
    using advance_ok [OF assms, of 1] False by (auto simp: took_def Suc_le_eq)
  ultimately show ?thesis using False contents_empty [OF assms] assms by (auto simp: Buffer_ReadByte_def buffer_ok_def)
qed

lemma Buffer_ReadRune_ok:
  assumes "buffer_ok b"
  shows "if contents b = [] then Buffer_ReadRune b = Inr (Buffer_Reset b, 0, 0, Some EOF)
    else \<exists>b' r n. Buffer_ReadRune b = Inr (b', r, n, None) \<and> DecodeRune (contents b) = (r, n) \<and> 0 < n \<and> took b n b' \<and> bf_lastRead b' = int n"
proof (cases "contents b = []")
  case True
  then show ?thesis using contents_empty [OF assms] by (simp add: Buffer_ReadRune_def)
next
  case False
  obtain r n where d: "DecodeRune (contents b) = (r, n)" by fastforce
  have n: "1 \<le> n" "n \<le> length (contents b)" using DecodeRune_bounds [OF False, of r n] d by (simp_all add: DecodeRuneInString_eq)
  define b' where "b' = b\<lparr>bf_off := bf_off b + int n, bf_lastRead := int n\<rparr>"
  have "took b n b'" using advance_ok [OF assms n(2)] n by (auto simp: took_def b'_def)
  moreover have "Buffer_ReadRune b = Inr (b', r, n, None)"
  proof -
    define c where "c = buffer_slice b ! nat (bf_off b)"
    have "contents b = c # tl (contents b)" using False by (simp add: contents_def c_def hd_drop_conv_nth flip: hd_Cons_tl) (metis hd_Cons_tl hd_drop_conv_nth not_le drop_eq_Nil)
    then have "c < RuneSelf \<Longrightarrow> r = ucast c \<and> n = 1" using DecodeRune_one_byte [of c "tl (contents b)"] d by simp
    then show ?thesis using False contents_empty [OF assms] assms d
      by (auto simp: Buffer_ReadRune_def Let_def c_def [symmetric] contents_def [symmetric] b'_def opReadRune1_def buffer_ok_def)
  qed
  ultimately show ?thesis using False d n by (auto simp: b'_def)
qed

lemma slice_range_contents:
  assumes "buffer_ok b" "k \<le> length (contents b)"
  shows "slice_range b (bf_off b) (bf_off b + int k) = Inr (take k (contents b))"
proof -
  have "bf_off b + int k \<le> int (bf_len b)" using assms length_contents [OF assms(1)] by (simp add: Buffer_Len_def)
  then show ?thesis using assms by (auto simp: slice_range_def buffer_ok_def contents_def buffer_slice_def drop_take min_def nat_le_iff)
qed

lemma Buffer_Next_ok:
  assumes "buffer_ok b" "0 \<le> n"
  shows "\<exists>b' k. Buffer_Next b n = Inr (b', take k (contents b)) \<and> k = min (nat n) (length (contents b)) \<and> took b k b'"
proof -
  define k where "k = min (nat n) (length (contents b))"
  let ?b = "b\<lparr>bf_lastRead := opInvalid\<rparr>"
  have l: "Buffer_Len ?b = int (length (contents b))" using length_contents [OF assms(1)] by (simp add: Buffer_Len_def)
  have n: "(if n > Buffer_Len ?b then Buffer_Len ?b else n) = int k" using assms(2) unfolding l k_def by auto
  have s: "slice_range ?b (bf_off ?b) (bf_off ?b + int k) = Inr (take k (contents b))"
    using slice_range_contents [of ?b k] assms(1) by (simp add: k_def)
  define b' where "b' = b\<lparr>bf_lastRead := (if k > 0 then opRead else opInvalid), bf_off := bf_off b + int k\<rparr>"
  have "Buffer_Next b n = Inr (b', take k (contents b))" unfolding Buffer_Next_def Let_def n s by (simp add: b'_def)
  moreover have "took b k b'"
    using advance_ok [of "b\<lparr>bf_lastRead := (if k > 0 then opRead else opInvalid)\<rparr>" k] assms(1) by (auto simp: took_def b'_def k_def)
  ultimately show ?thesis by (auto simp: k_def)
qed

lemma Buffer_readSlice_ok:
  fixes c :: u8
  assumes "buffer_ok b" "index_byte ix"
  defines "k \<equiv> length (takeWhile (\<lambda>x. x \<noteq> c) (contents b)) + 1"
  shows "\<exists>b'. Buffer_readSlice ix b c = Inr (b', take k (contents b), if c \<in> set (contents b) then None else Some EOF) \<and>
    took b (min k (length (contents b))) b' \<and> bf_lastRead b' = opRead"
proof -
  define j where "j = min k (length (contents b))"
  have j: "j \<le> length (contents b)" "take j (contents b) = take k (contents b)" by (auto simp: j_def min_def)
  have l: "int (bf_len b) = bf_off b + int (length (contents b))" using length_contents [OF assms(1)] by (simp add: Buffer_Len_def)
  have "k \<le> length (contents b)" if "c \<in> set (contents b)"
  proof -
    have "takeWhile (\<lambda>x. x \<noteq> c) (contents b) \<noteq> contents b" using that by (auto simp: takeWhile_eq_all_conv)
    then have "length (takeWhile (\<lambda>x. x \<noteq> c) (contents b)) \<noteq> length (contents b)"
      using takeWhile_eq_take [of "\<lambda>x. x \<noteq> c" "contents b"] by auto
    then show ?thesis using length_takeWhile_le [of "\<lambda>x. x \<noteq> c" "contents b"] by (simp add: k_def)
  qed
  moreover have "length (contents b) \<le> k" if "c \<notin> set (contents b)"
  proof -
    have "takeWhile (\<lambda>x. x \<noteq> c) (contents b) = contents b" using that by (auto simp: takeWhile_eq_all_conv)
    from arg_cong [OF this, of length] show ?thesis by (simp add: k_def)
  qed
  ultimately have stop: "(if ix (contents b) c < 0 then int (bf_len b) else bf_off b + ix (contents b) c + 1) = bf_off b + int j"
    unfolding l index_byte.index_first [OF assms(2)] j_def by (auto simp: k_def)
  have e: "ix (contents b) c < 0 \<longleftrightarrow> c \<notin> set (contents b)" by (simp add: index_byte.index_first [OF assms(2)])
  define b' where "b' = b\<lparr>bf_off := bf_off b + int j, bf_lastRead := opRead\<rparr>"
  have "Buffer_readSlice ix b c = Inr (b', take k (contents b), if c \<in> set (contents b) then None else Some EOF)"
    unfolding Buffer_readSlice_def slice_from_contents [OF assms(1)] Let_def sum.case stop slice_range_contents [OF assms(1) j(1)]
    by (simp add: b'_def e j(2))
  moreover have "took b j b'" using advance_ok [OF assms(1) j(1)] j(1) by (auto simp: took_def b'_def)
  ultimately show ?thesis unfolding j_def [symmetric] by (intro exI [of _ b']) (simp add: b'_def)
qed

lemma Buffer_Truncate_ok:
  assumes "buffer_ok b" "0 \<le> n" "n \<le> int (length (contents b))"
  shows "\<exists>b'. Buffer_Truncate b n = Inr b' \<and> buffer_ok b' \<and> contents b' = take (nat n) (contents b)"
proof (cases "n = 0")
  case True
  then show ?thesis using Buffer_Reset_ok [of b] assms(1) by (simp add: Buffer_Truncate_def)
next
  case False
  let ?b = "b\<lparr>bf_lastRead := opInvalid\<rparr>"
  have l: "int (bf_len b) = bf_off b + int (length (contents b))" using length_contents [OF assms(1)] by (simp add: Buffer_Len_def)
  have le: "bf_off b + n \<le> int (bf_len b)" using assms(3) l by simp
  have k: "0 \<le> bf_off b" "bf_len b \<le> length (bf_arr b)" using assms(1) by (auto simp: buffer_ok_def)
  define b' where "b' = ?b\<lparr>bf_len := nat (bf_off b + n)\<rparr>"
  have "Buffer_Truncate b n = Inr b'"
    using False assms(2,3) l le k by (simp add: Buffer_Truncate_def Let_def Buffer_Len_def reslice_def b'_def)
  moreover have "buffer_ok b'" using assms(1,2) le k by (auto simp: buffer_ok_def b'_def nat_le_iff)
  moreover have "contents b' = take (nat n) (contents b)"
    using k assms(2) le by (simp add: contents_def buffer_slice_def b'_def drop_take nat_add_distrib min_def) (simp add: nat_le_iff)
  ultimately show ?thesis by blast
qed

lemma Buffer_Grow_ok:
  assumes "buffer_ok b" "alloc_ok ga" "0 \<le> n"
  shows "Buffer_Grow ga b n = Inl ErrTooLarge \<and> too_large ga b n \<or>
    (\<exists>b'. Buffer_Grow ga b n = Inr b' \<and> buffer_ok b' \<and> contents b' = contents b \<and> n \<le> Buffer_Available b')"
  using Buffer_grow_ok [OF assms]
proof (elim disjE exE conjE)
  fix b' m assume g: "Buffer_grow ga b n = Inr (b', m)" "grown b n b' m"
  then have m: "0 \<le> m" "int (bf_len b') = m + n" "bf_len b' \<le> length (bf_arr b')" "m \<le> int (length (bf_arr b'))"
    using assms(3) by (auto simp: grown_def buffer_ok_def)
  have "Buffer_Grow ga b n = Inr (b'\<lparr>bf_len := nat m\<rparr>)" using g(1) m assms(3) by (simp add: Buffer_Grow_def reslice_def)
  moreover have "buffer_ok (b'\<lparr>bf_len := nat m\<rparr>)" "contents (b'\<lparr>bf_len := nat m\<rparr>) = contents b"
    using g(2) m by (auto simp: grown_def buffer_ok_def nat_le_iff)
  moreover have "n \<le> Buffer_Available (b'\<lparr>bf_len := nat m\<rparr>)" using m by (simp add: Buffer_Available_def)
  ultimately show ?thesis by blast
qed (use assms(3) in \<open>simp add: Buffer_Grow_def\<close>)

section \<open>Sequences of calls\<close>

datatype buffer_op =
    Bf_Write bytes | Bf_WriteString bytes | Bf_WriteByte u8 | Bf_WriteRune rune | Bf_Grow int
  | Bf_Read bytes | Bf_Next int | Bf_ReadByte | Bf_ReadRune | Bf_ReadBytes u8 | Bf_ReadString u8 | Bf_Truncate int | Bf_Reset

text \<open>One call: the buffer afterwards and the bytes it returns, for \<open>ReadRune\<close> the bytes of the rune.\<close>

definition buffer_exec :: "grow_alloc \<Rightarrow> index_fun \<Rightarrow> Buffer \<Rightarrow> buffer_op \<Rightarrow> panic + Buffer \<times> bytes" where
  "buffer_exec ga ix b op =
     (case op of
        Bf_Write p \<Rightarrow> map_sum id (\<lambda>(b, _). (b, [])) (Buffer_Write ga b p)
      | Bf_WriteString p \<Rightarrow> map_sum id (\<lambda>(b, _). (b, [])) (Buffer_WriteString ga b p)
      | Bf_WriteByte c \<Rightarrow> map_sum id (\<lambda>(b, _). (b, [])) (Buffer_WriteByte ga b c)
      | Bf_WriteRune r \<Rightarrow> map_sum id (\<lambda>(b, _). (b, [])) (Buffer_WriteRune ga b r)
      | Bf_Grow n \<Rightarrow> map_sum id (\<lambda>b. (b, [])) (Buffer_Grow ga b n)
      | Bf_Read p \<Rightarrow> map_sum id (\<lambda>(b, p, n, _). (b, take n p)) (Buffer_Read b p)
      | Bf_Next n \<Rightarrow> Buffer_Next b n
      | Bf_ReadByte \<Rightarrow> map_sum id (\<lambda>(b, c, err). (b, if err = None then [c] else [])) (Buffer_ReadByte b)
      | Bf_ReadRune \<Rightarrow> map_sum id (\<lambda>(b', r, n, _). (b', take n (contents b))) (Buffer_ReadRune b)
      | Bf_ReadBytes c \<Rightarrow> map_sum id (\<lambda>(b, line, _). (b, line)) (Buffer_ReadBytes ix b c)
      | Bf_ReadString c \<Rightarrow> map_sum id (\<lambda>(b, line, _). (b, line)) (Buffer_ReadString ix b c)
      | Bf_Truncate n \<Rightarrow> map_sum id (\<lambda>b. (b, [])) (Buffer_Truncate b n)
      | Bf_Reset \<Rightarrow> Inr (Buffer_Reset b, []))"

text \<open>The specification: a queue of bytes, to whose end is written and from whose start is read.\<close>

fun op_written :: "buffer_op \<Rightarrow> bytes" where
  "op_written (Bf_Write p) = p"
| "op_written (Bf_WriteString p) = p"
| "op_written (Bf_WriteByte c) = [c]"
| "op_written (Bf_WriteRune r) = AppendRune [] r"
| "op_written _ = []"

fun op_taken :: "bytes \<Rightarrow> buffer_op \<Rightarrow> nat" where
  "op_taken q (Bf_Read p) = length p"
| "op_taken q (Bf_Next n) = nat n"
| "op_taken q Bf_ReadByte = 1"
| "op_taken q Bf_ReadRune = snd (DecodeRune q)"
| "op_taken q (Bf_ReadBytes c) = length (takeWhile (\<lambda>x. x \<noteq> c) q) + 1"
| "op_taken q (Bf_ReadString c) = length (takeWhile (\<lambda>x. x \<noteq> c) q) + 1"
| "op_taken q _ = 0"

definition queue_step :: "bytes \<Rightarrow> buffer_op \<Rightarrow> bytes \<times> bytes" where
  "queue_step q op =
     (case op of Bf_Reset \<Rightarrow> ([], []) | Bf_Truncate n \<Rightarrow> (take (nat n) q, [])
      | _ \<Rightarrow> (drop (op_taken q op) q @ op_written op, take (op_taken q op) q))"

fun op_room :: "buffer_op \<Rightarrow> int" where
  "op_room (Bf_Grow n) = n"
| "op_room (Bf_WriteRune r) = UTFMax"
| "op_room op = int (length (op_written op))"

fun op_proper :: "bytes \<Rightarrow> buffer_op \<Rightarrow> bool" where
  "op_proper q (Bf_Grow n) = (0 \<le> n)"
| "op_proper q (Bf_Next n) = (0 \<le> n)"
| "op_proper q (Bf_Truncate n) = (0 \<le> n \<and> n \<le> int (length q))"
| "op_proper q _ = True"

lemma take_min_length: "take (min k (length q)) q = take k q"
  by (simp add: min_def)

lemma took_min: "took b (min k (length (contents b))) b' \<Longrightarrow> buffer_ok b' \<and> contents b' = drop k (contents b)"
  by (simp add: took_def min_def split: if_splits)

lemma buffer_exec_ok:
  assumes "buffer_ok b" "alloc_ok ga" "index_byte ix" "op_proper (contents b) op"
  shows "buffer_exec ga ix b op = Inl ErrTooLarge \<and> too_large ga b (op_room op) \<or>
    (\<exists>b'. buffer_exec ga ix b op = Inr (b', snd (queue_step (contents b) op)) \<and> buffer_ok b' \<and> contents b' = fst (queue_step (contents b) op))"
proof (cases op)
  case (Bf_Write p)
  then show ?thesis using Buffer_Write_ok(1) [OF assms(1,2), of p] by (auto simp: buffer_exec_def queue_step_def wrote_def)
next
  case (Bf_WriteString p)
  then show ?thesis using Buffer_Write_ok(2) [OF assms(1,2), of p] by (auto simp: buffer_exec_def queue_step_def wrote_def)
next
  case (Bf_WriteByte c)
  then show ?thesis using Buffer_WriteByte_ok [OF assms(1,2), of c] by (auto simp: buffer_exec_def queue_step_def wrote_def)
next
  case (Bf_WriteRune r)
  then show ?thesis using Buffer_WriteRune_ok [OF assms(1,2), of r] by (auto simp: buffer_exec_def queue_step_def wrote_def)
next
  case (Bf_Grow n)
  then show ?thesis using Buffer_Grow_ok [OF assms(1,2), of n] assms(4) by (auto simp: buffer_exec_def queue_step_def)
next
  case (Bf_Read p)
  then obtain b' n where r: "Buffer_Read b p = Inr (b', take n (contents b) @ drop n p, n, if contents b = [] \<and> p \<noteq> [] then Some EOF else None)"
    "n = min (length p) (length (contents b))" "took b n b'" using Buffer_Read_ok [OF assms(1), of p] by blast
  define out where "out = take n (contents b) @ drop n p"
  have "take n out = take (length p) (contents b)" unfolding out_def r(2) by (simp add: min_def)
  then show ?thesis using r(1) took_min [OF r(3) [unfolded r(2)]] Bf_Read by (simp add: buffer_exec_def queue_step_def flip: out_def)
next
  case (Bf_Next n)
  then have "0 \<le> n" using assms(4) by simp
  then obtain b' where n: "Buffer_Next b n = Inr (b', take (nat n) (contents b))" "took b (min (nat n) (length (contents b))) b'"
    using Buffer_Next_ok [OF assms(1), of n] take_min_length [of "nat n" "contents b"] by metis
  show ?thesis using n(1) took_min [OF n(2)] Bf_Next by (simp add: buffer_exec_def queue_step_def)
next
  case Bf_ReadByte
  then show ?thesis using Buffer_ReadByte_ok [OF assms(1)] Buffer_Reset_ok [of b] assms(1)
    by (cases "contents b") (auto simp: buffer_exec_def queue_step_def took_def)
next
  case Bf_ReadRune
  then show ?thesis using Buffer_ReadRune_ok [OF assms(1)] Buffer_Reset_ok [of b] assms(1)
    by (cases "contents b = []") (auto simp: buffer_exec_def queue_step_def took_def)
next
  case (Bf_ReadBytes c)
  then show ?thesis using Buffer_readSlice_ok [OF assms(1,3), of c]
    by (auto simp: buffer_exec_def queue_step_def Buffer_ReadBytes_def dest: took_min)
next
  case (Bf_ReadString c)
  then show ?thesis using Buffer_readSlice_ok [OF assms(1,3), of c]
    by (auto simp: buffer_exec_def queue_step_def Buffer_ReadString_def dest: took_min)
next
  case (Bf_Truncate n)
  then show ?thesis using Buffer_Truncate_ok [OF assms(1), of n] assms(4) by (auto simp: buffer_exec_def queue_step_def)
next
  case Bf_Reset
  then show ?thesis using Buffer_Reset_ok [of b] assms(1) by (simp add: buffer_exec_def queue_step_def)
qed

fun buffer_run :: "grow_alloc \<Rightarrow> index_fun \<Rightarrow> Buffer \<Rightarrow> buffer_op list \<Rightarrow> panic + Buffer \<times> bytes list" where
  "buffer_run ga ix b [] = Inr (b, [])"
| "buffer_run ga ix b (op # ops) =
     (case buffer_exec ga ix b op of
        Inl e \<Rightarrow> Inl e
      | Inr (b, out) \<Rightarrow> map_sum id (\<lambda>(b, outs). (b, out # outs)) (buffer_run ga ix b ops))"

fun queue_run :: "bytes \<Rightarrow> buffer_op list \<Rightarrow> bytes \<times> bytes list" where
  "queue_run q [] = (q, [])"
| "queue_run q (op # ops) = (case queue_step q op of (q, out) \<Rightarrow> (case queue_run q ops of (q, outs) \<Rightarrow> (q, out # outs)))"

fun ops_proper :: "bytes \<Rightarrow> buffer_op list \<Rightarrow> bool" where
  "ops_proper q [] = True"
| "ops_proper q (op # ops) = (op_proper q op \<and> ops_proper (fst (queue_step q op)) ops)"

lemma buffer_run_ok:
  assumes "buffer_ok b" "alloc_ok ga" "index_byte ix" "ops_proper (contents b) ops" "queue_run (contents b) ops = (q, outs)"
  shows "(buffer_run ga ix b ops = Inl ErrTooLarge \<and>
      (\<exists>k b' outs'. k < length ops \<and> buffer_run ga ix b (take k ops) = Inr (b', outs') \<and> too_large ga b' (op_room (ops ! k)))) \<or>
    (\<exists>b'. buffer_run ga ix b ops = Inr (b', outs) \<and> buffer_ok b' \<and> contents b' = q)"
  using assms(1,4,5)
proof (induction ops arbitrary: b outs)
  case (Cons op ops)
  obtain q1 out where s: "queue_step (contents b) op = (q1, out)" by fastforce
  obtain outs1 where o: "queue_run q1 ops = (q, outs1)" "outs = out # outs1" using Cons.prems(3) by (auto simp: s split: prod.splits)
  have "op_proper (contents b) op" "ops_proper q1 ops" using Cons.prems(2) by (simp_all add: s)
  then consider "buffer_exec ga ix b op = Inl ErrTooLarge" "too_large ga b (op_room op)"
    | b1 where "buffer_exec ga ix b op = Inr (b1, out)" "buffer_ok b1" "contents b1 = q1"
    using buffer_exec_ok [OF Cons.prems(1) assms(2,3), of op] unfolding s fst_conv snd_conv by blast
  then show ?case
  proof cases
    case 1
    then show ?thesis by (intro disjI1 conjI exI [of _ "0::nat"]) simp_all
  next
    case (2 b1)
    from Cons.IH [OF this(2), unfolded this(3), OF \<open>ops_proper q1 ops\<close> o(1)] show ?thesis
    proof (elim disjE exE conjE)
      fix k b' outs' assume "buffer_run ga ix b1 ops = Inl ErrTooLarge" "k < length ops" "buffer_run ga ix b1 (take k ops) = Inr (b', outs')"
        "too_large ga b' (op_room (ops ! k))"
      then show ?thesis using 2(1) by (intro disjI1 conjI exI [of _ "Suc k"]) simp_all
    qed (use 2(1) o(2) in simp)
  qed
qed simp

lemma NewBuffer_ok:
  assumes "n \<le> length arr" "int (length arr) < 2 ^ 63" "isnil \<longrightarrow> arr = []"
  shows "buffer_ok (NewBuffer arr n isnil)" "contents (NewBuffer arr n isnil) = take n arr"
  using assms by (simp_all add: buffer_ok_def contents_def buffer_slice_def NewBuffer_def)

lemma Buffer_views:
  assumes "buffer_ok b"
  shows "Buffer_Len b = int (length (contents b))" "Buffer_Bytes b = Inr (contents b)" "Buffer_String (Some b) = Inr (contents b)"
    "0 \<le> n \<Longrightarrow> Buffer_Peek b n = Inr (take (nat n) (contents b), if int (length (contents b)) < n then Some EOF else None)"
  using length_contents [OF assms] slice_from_contents [OF assms] slice_range_contents [OF assms, of "nat n"]
  by (auto simp: Buffer_Bytes_def Buffer_String_def Buffer_Peek_def nat_le_iff)

lemma UnreadByte_undoes:
  assumes "buffer_ok b" "contents b \<noteq> []"
  shows "\<exists>b' b''. Buffer_ReadByte b = Inr (b', hd (contents b), None) \<and> contents b' = tl (contents b) \<and> Buffer_UnreadByte b' = (b'', None) \<and>
    contents b'' = contents b \<and> snd (Buffer_UnreadRune b') \<noteq> None"
proof -
  obtain b' where b': "Buffer_ReadByte b = Inr (b', hd (contents b), None)" "took b 1 b'" "bf_lastRead b' = opRead"
    using Buffer_ReadByte_ok [OF assms(1)] assms(2) by auto
  then have "Buffer_UnreadByte b' = (b'\<lparr>bf_lastRead := opInvalid, bf_off := bf_off b\<rparr>, None)"
    "contents (b'\<lparr>bf_lastRead := opInvalid, bf_off := bf_off b\<rparr>) = contents b"
    using assms(1) by (auto simp: Buffer_UnreadByte_def opRead_def opInvalid_def took_def Let_def buffer_ok_def contents_def buffer_slice_def)
  moreover have "snd (Buffer_UnreadRune b') \<noteq> None" using b'(3) by (simp add: Buffer_UnreadRune_def opRead_def opInvalid_def)
  ultimately show ?thesis using b' by - (rule exI [of _ b'], simp add: took_def drop_Suc)
qed

lemma UnreadRune_undoes:
  assumes "buffer_ok b" "contents b \<noteq> []" "DecodeRune (contents b) = (r, n)"
  shows "\<exists>b' b''. Buffer_ReadRune b = Inr (b', r, n, None) \<and> contents b' = drop n (contents b) \<and> Buffer_UnreadRune b' = (b'', None) \<and>
    contents b'' = contents b"
proof -
  obtain b' where b': "Buffer_ReadRune b = Inr (b', r, n, None)" "0 < n" "took b n b'" "bf_lastRead b' = int n"
    using Buffer_ReadRune_ok [OF assms(1)] assms(2,3) by auto
  then have "Buffer_UnreadRune b' = (b'\<lparr>bf_off := bf_off b, bf_lastRead := opInvalid\<rparr>, None)"
    "contents (b'\<lparr>bf_off := bf_off b, bf_lastRead := opInvalid\<rparr>) = contents b"
    using assms(1) by (auto simp: Buffer_UnreadRune_def opInvalid_def took_def buffer_ok_def contents_def buffer_slice_def)
  then show ?thesis using b' by - (rule exI [of _ b'], simp add: took_def)
qed

lemma buffer_panics:
  assumes "n < 0"
  shows "Buffer_Grow ga b n = Inl (PanicMsg ''bytes.Buffer.Grow: negative count'')"
    "Buffer_Truncate b n = Inl (PanicMsg ''bytes.Buffer: truncation out of range'')"
    "buffer_ok b \<Longrightarrow> Buffer_Next b n = Inl SliceBounds"
    "buffer_ok b \<Longrightarrow> Buffer_Peek b n = Inl SliceBounds"
    "buffer_ok b \<Longrightarrow> int (length (contents b)) < k \<Longrightarrow> Buffer_Truncate b k = Inl (PanicMsg ''bytes.Buffer: truncation out of range'')"
  using assms length_contents [of b]
  by (auto simp: Buffer_Grow_def Buffer_Truncate_def Buffer_Next_def Buffer_Peek_def Let_def slice_range_def Buffer_Len_def buffer_ok_def)

context appending_writer
begin

lemma Buffer_WriteTo_all:
  assumes "buffer_ok b" "usable w"
  shows "\<exists>b' w'. Buffer_WriteTo wr b w = Inr (b', w', int (length (contents b)), None) \<and> written w' = written w @ contents b \<and>
    contents b' = [] \<and> buffer_ok b' \<and> usable w'"
proof (cases "contents b = []")
  case True
  then have "Buffer_Len b = 0" using length_contents [OF assms(1)] by simp
  then show ?thesis using True assms Buffer_Reset_ok [of "b\<lparr>bf_lastRead := opInvalid\<rparr>"]
    by (simp add: Buffer_WriteTo_def Let_def Buffer_Len_def)
next
  case False
  let ?b = "b\<lparr>bf_lastRead := opInvalid\<rparr>" and ?q = "contents b"
  obtain w' where w': "wr w ?q = Inr (w', int (length ?q), None)" "usable w'" "written w' = written w @ ?q" using write_appends [OF assms(2)] by blast
  have l: "Buffer_Len ?b = int (length ?q)" "slice_from (buffer_slice ?b) (bf_off ?b) = Inr ?q"
    using length_contents [of ?b] slice_from_contents [of ?b] assms(1) by simp_all
  have e: "Buffer_Reset (b\<lparr>bf_lastRead := opInvalid, bf_off := k\<rparr>) = Buffer_Reset ?b" for k by (simp add: Buffer_Reset_def)
  have "Buffer_WriteTo wr b w = Inr (Buffer_Reset ?b, w', int (length ?q), None)"
    unfolding Buffer_WriteTo_def Let_def l sum.case w'(1) prod.case using False by (simp add: e)
  then show ?thesis using w' Buffer_Reset_ok [of ?b] assms(1) by simp
qed

end

definition counted :: "'r reader \<Rightarrow> 'r counting_reader" where
  "counted rd r p = map_sum id (\<lambda>(r, p, n, err). (r, p, int n, err)) (rd r p)"

text \<open>All the room behind the contents is offered to the reader: \<open>b.buf[i:cap(b.buf)]\<close>.\<close>

lemma grown_full:
  assumes "grown b n b' m"
  shows "grown b (Buffer_Cap b' - m) (b'\<lparr>bf_len := length (bf_arr b')\<rparr>) m"
  using assms by (auto simp: grown_def buffer_ok_def Buffer_Cap_def contents_def buffer_slice_def)

lemma ReadFrom_step:
  assumes "buffer_ok b" "alloc_ok ga" "0 \<le> n" "n \<le> int (length (contents b))"
  shows "(ReadFrom_loop ga (counted rd) b r n = Some (Inl ErrTooLarge) \<and> too_large ga b MinRead) \<or>
    (\<exists>p. p \<noteq> [] \<and> (\<forall>r' p' k err. rd r p = Inr (r', p', k, err) \<and> length p' = length p \<and> k \<le> length p \<longrightarrow>
       (\<exists>b'. buffer_ok b' \<and> contents b' = contents b @ take k p' \<and>
          ReadFrom_loop ga (counted rd) b r n =
            (if err = Some EOF then Some (Inr (b', r', n + int k, None))
             else if err \<noteq> None then Some (Inr (b', r', n + int k, err))
             else ReadFrom_loop ga (counted rd) b' r' (n + int k)))))"
proof -
  have "0 \<le> MinRead" by (simp add: MinRead_def)
  from Buffer_grow_ok [OF assms(1,2) this] show ?thesis
  proof (elim disjE exE conjE)
    fix b1 i assume g: "Buffer_grow ga b MinRead = Inr (b1, i)" "grown b MinRead b1 i"
    have i: "0 \<le> i" "i < int (length (bf_arr b1))" "i \<le> int (length (bf_arr b1))" "nat i \<le> length (bf_arr b1)"
      using g(2) by (auto simp: grown_def buffer_ok_def MinRead_def)
    define p where "p = drop (nat i) (bf_arr b1)"
    have p: "slice_range (b1\<lparr>bf_len := nat i\<rparr>) i (int (length (bf_arr b1))) = Inr p" "p \<noteq> []" "length p = length (bf_arr b1) - nat i"
      using i by (auto simp: slice_range_def p_def)
    have "\<exists>b'. buffer_ok b' \<and> contents b' = contents b @ take k p' \<and>
          ReadFrom_loop ga (counted rd) b r n =
            (if err = Some EOF then Some (Inr (b', r', n + int k, None))
             else if err \<noteq> None then Some (Inr (b', r', n + int k, err))
             else ReadFrom_loop ga (counted rd) b' r' (n + int k))"
      if rd: "rd r p = Inr (r', p', k, err)" and k: "length p' = length p" "k \<le> length p" for r' p' k err
    proof -
      define arr where "arr = take (nat i) (bf_arr b1) @ p'"
      define b' where "b' = b1\<lparr>bf_arr := arr, bf_len := nat i + k\<rparr>"
      have a: "length arr = length (bf_arr b1)" using i k p(3) by (simp add: arr_def)
      have q: "arr = take (nat i) (bf_arr (b1\<lparr>bf_len := length (bf_arr b1)\<rparr>)) @ take k p' @ drop k p'" by (simp add: arr_def)
      have "int (length (take k p')) \<le> Buffer_Cap b1 - i" using k p(3) i by (simp add: Buffer_Cap_def)
      from grown_write [OF grown_full [OF g(2)] this q] have b': "buffer_ok b'" "contents b' = contents b @ take k p'"
        using a k by (simp_all add: b'_def)
      have "int (length (contents b')) < 2 ^ 63" using length_contents [OF b'(1)] b'(1) by (simp add: Buffer_Len_def buffer_ok_def)
      then have w: "wrap64 (n + int k) = n + int k" using assms(3,4) b'(2) k by (intro wrap64_small) simp_all
      have r1: "reslice b1 i = Inr (b1\<lparr>bf_len := nat i\<rparr>)" using i by (simp add: reslice_def)
      have "nat (i + int k) = nat i + k" "i + int k \<le> int (length arr)" using i k p(3) a by (auto simp: nat_add_distrib)
      then have r2: "reslice (b1\<lparr>bf_len := nat i, bf_arr := take (nat i) (bf_arr b1) @ p'\<rparr>) (i + int k) = Inr b'"
        using i by (simp add: reslice_def b'_def flip: arr_def)
      show ?thesis using b' r2 by (intro exI [of _ b']) (simp add: ReadFrom_loop.simps [of ga "counted rd" b r n] g(1) r1 p(1) counted_def rd w)
    qed
    then show ?thesis using p(2) by blast
  qed (simp add: ReadFrom_loop.simps [of ga "counted rd" b r n])
qed

context finite_reader
begin

lemma ReadFrom_loop_reads:
  assumes "alloc_ok ga" "buffer_ok b" "alive r" "0 \<le> n" "n \<le> int (length (contents b))"
  shows "(ReadFrom_loop ga (counted rd) b r n = Some (Inl ErrTooLarge) \<and>
      (\<exists>b' k. buffer_ok b' \<and> contents b' = contents b @ take k (pending r) \<and> too_large ga b' MinRead)) \<or>
    (\<exists>b' r'. ReadFrom_loop ga (counted rd) b r n = Some (Inr (b', r', n + int (length (pending r)), None)) \<and> buffer_ok b' \<and>
      contents b' = contents b @ pending r \<and> pending r' = [])"
  using assms(2-5)
proof (induction "rank r" arbitrary: b r n rule: less_induct)
  case less
  from ReadFrom_step [OF less.prems(1) assms(1) less.prems(3,4), of rd r] show ?case
  proof (elim disjE exE conjE)
    assume "ReadFrom_loop ga (counted rd) b r n = Some (Inl ErrTooLarge)" "too_large ga b MinRead"
    then show ?thesis using less.prems(1) by (intro disjI1 conjI exI [of _ b] exI [of _ "0::nat"]) simp_all
  next
    fix p assume p: "p \<noteq> []" and st: "\<forall>r' p' k err. rd r p = Inr (r', p', k, err) \<and> length p' = length p \<and> k \<le> length p \<longrightarrow>
       (\<exists>b'. buffer_ok b' \<and> contents b' = contents b @ take k p' \<and>
          ReadFrom_loop ga (counted rd) b r n =
            (if err = Some EOF then Some (Inr (b', r', n + int k, None))
             else if err \<noteq> None then Some (Inr (b', r', n + int k, err))
             else ReadFrom_loop ga (counted rd) b' r' (n + int k)))"
    obtain r' p' k err where r': "rd r p = Inr (r', p', k, err)" "alive r'" "length p' = length p" "k \<le> length p"
      "pending r = take k p' @ pending r'" "err = None \<and> rank r' < rank r \<or> err = Some EOF \<and> pending r' = []"
      using read_next [OF less.prems(2) p] by (elim exE conjE) blast
    obtain b' where b': "buffer_ok b'" "contents b' = contents b @ take k p'" and lp: "ReadFrom_loop ga (counted rd) b r n =
            (if err = Some EOF then Some (Inr (b', r', n + int k, None))
             else if err \<noteq> None then Some (Inr (b', r', n + int k, err))
             else ReadFrom_loop ga (counted rd) b' r' (n + int k))" using st r'(1,3,4) by blast
    have l: "length (take k p') = k" using r'(3,4) by simp
    show ?thesis
    proof (cases "err = Some EOF")
      case True
      then show ?thesis using r'(5,6) lp b' l by (intro disjI2) auto
    next
      case False
      then have e: "err = None" "rank r' < rank r" using r'(6) by auto
      have n: "0 \<le> n + int k" "n + int k \<le> int (length (contents b'))" using less.prems(3,4) l b'(2) by simp_all
      have lp: "ReadFrom_loop ga (counted rd) b r n = ReadFrom_loop ga (counted rd) b' r' (n + int k)" using lp e by simp
      from less.hyps [OF e(2) b'(1) r'(2) n] show ?thesis
      proof (elim disjE exE conjE)
        fix b'' j assume "ReadFrom_loop ga (counted rd) b' r' (n + int k) = Some (Inl ErrTooLarge)" "buffer_ok b''"
          "contents b'' = contents b' @ take j (pending r')" "too_large ga b'' MinRead"
        moreover from this(3) have "contents b'' = contents b @ take (k + j) (pending r)" using b'(2) l r'(5) by simp
        ultimately show ?thesis unfolding lp by blast
      next
        fix b'' r'' assume "ReadFrom_loop ga (counted rd) b' r' (n + int k) = Some (Inr (b'', r'', n + int k + int (length (pending r')), None))"
          "buffer_ok b''" "contents b'' = contents b' @ pending r'" "pending r'' = []"
        then show ?thesis using lp b'(2) l r'(5) by (intro disjI2) (simp add: add.assoc)
      qed
    qed
  qed
qed

end

interpretation buffer_reader: finite_reader Buffer_Read contents "\<lambda>b. length (contents b)" buffer_ok
proof
  fix b p assume b: "buffer_ok b" and p: "p \<noteq> ([] :: bytes)"
  obtain b' n where r: "Buffer_Read b p = Inr (b', take n (contents b) @ drop n p, n, if contents b = [] \<and> p \<noteq> [] then Some EOF else None)"
    "n = min (length p) (length (contents b))" "took b n b'" using Buffer_Read_ok [OF b, of p] by blast
  have n: "n \<le> length p" "n \<le> length (contents b)" using r(2) by simp_all
  define out where "out = take n (contents b) @ drop n p"
  have o: "length out = length p" "contents b = take n out @ contents b'" "buffer_ok b'" using n r(3) by (simp_all add: out_def took_def)
  have c: "contents b = [] \<Longrightarrow> contents b' = []" "contents b \<noteq> [] \<Longrightarrow> length (contents b') < length (contents b)"
    using r(2,3) p by (auto simp: took_def)
  show "\<exists>r' p' n err. Buffer_Read b p = Inr (r', p', n, err) \<and> buffer_ok r' \<and> length p' = length p \<and> n \<le> length p \<and>
      contents b = take n p' @ contents r' \<and>
      (err = None \<and> length (contents r') < length (contents b) \<or> err = Some EOF \<and> contents r' = [] \<and> length (contents r') \<le> length (contents b))"
  proof (rule exI [of _ b'], rule exI [of _ out], rule exI [of _ n], rule exI [of _ "if contents b = [] then Some EOF else None"], intro conjI)
    show "Buffer_Read b p = Inr (b', out, n, if contents b = [] then Some EOF else None)" using r(1) p by (simp add: out_def)
    show "(if contents b = [] then Some EOF else None) = None \<and> length (contents b') < length (contents b) \<or>
      (if contents b = [] then Some EOF else None) = Some EOF \<and> contents b' = [] \<and> length (contents b') \<le> length (contents b)"
      using c by (cases "contents b = []") simp_all
  qed (rule o n(1))+
qed

text \<open>\<open>Grow\<close> between a \<open>ReadByte\<close> and its \<open>UnreadByte\<close> may move the contents to the start of an array, where there is nothing to go back to.\<close>

lemma UnreadByte_after_Grow:
  "\<exists>b1 b2 b3. Buffer_ReadByte (NewBuffer [0x61, 0x62] 2 False) = Inr (b1, 0x61, None) \<and> Buffer_Grow (\<lambda>c. Some (nat c)) b1 100 = Inr b2 \<and>
     Buffer_UnreadByte b2 = (b3, None) \<and> contents b3 = [0x62]"
proof -
  have "case Buffer_ReadByte (NewBuffer [0x61, 0x62] 2 False) of
      Inl _ \<Rightarrow> False
    | Inr (b1, c, err) \<Rightarrow> c = 0x61 \<and> err = None \<and>
        (case Buffer_Grow (\<lambda>c. Some (nat c)) b1 100 of
           Inl _ \<Rightarrow> False
         | Inr b2 \<Rightarrow> (case Buffer_UnreadByte b2 of (b3, err) \<Rightarrow> err = None \<and> contents b3 = [0x62]))" by code_simp
  then show ?thesis by (auto split: sum.splits prod.splits)
qed

text \<open>One byte or rune is read, and unread.\<close>

lemma Buffer_one_read:
  assumes "index_byte ix" "buffer_ok b'" "contents b' = q"
  shows "if q = [] then Buffer_ReadByte b' = Inr (Buffer_Reset b', 0, Some EOF) \<and> Buffer_ReadRune b' = Inr (Buffer_Reset b', 0, 0, Some EOF) \<and>
          (\<exists>b1. Buffer_ReadBytes ix b' d = Inr (b1, [], Some EOF) \<and> Buffer_ReadString ix b' d = Inr (b1, [], Some EOF) \<and> snd (Buffer_UnreadByte b1) = None)
        else (\<exists>b1 b2. Buffer_ReadByte b' = Inr (b1, hd q, None) \<and> contents b1 = tl q \<and> Buffer_UnreadByte b1 = (b2, None) \<and> contents b2 = q \<and>
            snd (Buffer_UnreadRune b1) \<noteq> None) \<and>
          (\<exists>b1 b2 r m. Buffer_ReadRune b' = Inr (b1, r, m, None) \<and> DecodeRune q = (r, m) \<and> contents b1 = drop m q \<and>
            Buffer_UnreadRune b1 = (b2, None) \<and> contents b2 = q)"
proof (cases "q = []")
  case True
  then have c: "contents b' = []" using assms(3) by simp
  have "\<exists>b1. Buffer_readSlice ix b' d = Inr (b1, [], Some EOF) \<and> snd (Buffer_UnreadByte b1) = None"
  proof -
    obtain b1 where "Buffer_readSlice ix b' d = Inr (b1, [], Some EOF)" "bf_lastRead b1 = opRead"
      using Buffer_readSlice_ok [OF assms(2) assms(1), of d] c by auto
    then show ?thesis by - (rule exI [of _ b1], simp add: Buffer_UnreadByte_def opRead_def opInvalid_def Let_def)
  qed
  then show ?thesis using Buffer_ReadByte_ok [OF assms(2)] Buffer_ReadRune_ok [OF assms(2)] c True by (auto simp: Buffer_ReadBytes_def Buffer_ReadString_def)
next
  case False
  obtain r m where d: "DecodeRune q = (r, m)" by fastforce
  show ?thesis using UnreadByte_undoes [OF assms(2), unfolded assms(3), OF False] UnreadRune_undoes [OF assms(2), unfolded assms(3), OF False d] d False by auto
qed

section \<open>Properties\<close>

text \<open>
  C39: \<open>bytes.Buffer\<close> is a queue of bytes. Whatever sequence of writes, reads, \<open>Grow\<close>, \<open>Truncate\<close> and \<open>Reset\<close> is made on a buffer, each call within its
  documented range, the bytes the reads return and the contents at the end are those of a byte queue, written at its end and read from its
  start; the only panic is \<open>ErrTooLarge\<close>, when a call asks for room that would take more than the largest \<open>int\<close> or that the allocator refuses.
  \<open>Len\<close>, \<open>Bytes\<close>, \<open>String\<close> and \<open>Peek\<close> show that queue; \<open>UnreadByte\<close> undoes \<open>ReadByte\<close>, after which \<open>UnreadRune\<close> fails, and \<open>UnreadRune\<close> undoes \<open>ReadRune\<close>. Negative counts and
  a truncation beyond the length panic. \<open>UnreadByte\<close> also succeeds after a \<open>ReadBytes\<close> or \<open>ReadString\<close> that met the end and returned nothing, and after
  a \<open>Grow\<close> that moved the contents it succeeds without unreading anything.
\<close>

theorem bytes_Buffer_queue:
  assumes "buffer_ok b" "alloc_ok ga" "index_byte ix" "ops_proper (contents b) ops" "queue_run (contents b) ops = (q, outs)"
  shows "((buffer_run ga ix b ops = Inl ErrTooLarge \<and>
      (\<exists>k b' outs'. k < length ops \<and> buffer_run ga ix b (take k ops) = Inr (b', outs') \<and> too_large ga b' (op_room (ops ! k)))) \<or>
    (\<exists>b'. buffer_run ga ix b ops = Inr (b', outs) \<and> buffer_ok b' \<and> contents b' = q \<and>
       Buffer_Len b' = int (length q) \<and> Buffer_Bytes b' = Inr q \<and> Buffer_String (Some b') = Inr q \<and>
       (if 0 \<le> n then Buffer_Peek b' n = Inr (take (nat n) q, if int (length q) < n then Some EOF else None)
        else Buffer_Peek b' n = Inl SliceBounds \<and> Buffer_Next b' n = Inl SliceBounds \<and>
          Buffer_Grow ga b' n = Inl (PanicMsg ''bytes.Buffer.Grow: negative count'')) \<and>
       (n < 0 \<or> int (length q) < n \<longrightarrow> Buffer_Truncate b' n = Inl (PanicMsg ''bytes.Buffer: truncation out of range'')) \<and>
       (if q = [] then Buffer_ReadByte b' = Inr (Buffer_Reset b', 0, Some EOF) \<and> Buffer_ReadRune b' = Inr (Buffer_Reset b', 0, 0, Some EOF) \<and>
          (\<exists>b1. Buffer_ReadBytes ix b' d = Inr (b1, [], Some EOF) \<and> Buffer_ReadString ix b' d = Inr (b1, [], Some EOF) \<and> snd (Buffer_UnreadByte b1) = None)
        else (\<exists>b1 b2. Buffer_ReadByte b' = Inr (b1, hd q, None) \<and> contents b1 = tl q \<and> Buffer_UnreadByte b1 = (b2, None) \<and> contents b2 = q \<and>
            snd (Buffer_UnreadRune b1) \<noteq> None) \<and>
          (\<exists>b1 b2 r m. Buffer_ReadRune b' = Inr (b1, r, m, None) \<and> DecodeRune q = (r, m) \<and> contents b1 = drop m q \<and>
            Buffer_UnreadRune b1 = (b2, None) \<and> contents b2 = q)))) \<and>
    (\<exists>b1 b2 b3. Buffer_ReadByte (NewBuffer [0x61, 0x62] 2 False) = Inr (b1, 0x61, None) \<and> Buffer_Grow (\<lambda>c. Some (nat c)) b1 100 = Inr b2 \<and>
       Buffer_UnreadByte b2 = (b3, None) \<and> contents b3 = [0x62])"
  using buffer_run_ok [OF assms]
proof (elim disjE exE conjE)
  fix b' assume b': "buffer_run ga ix b ops = Inr (b', outs)" "buffer_ok b'" "contents b' = q"
  note views = Buffer_views [OF b'(2), unfolded b'(3)]
  have peek: "if 0 \<le> n then Buffer_Peek b' n = Inr (take (nat n) q, if int (length q) < n then Some EOF else None)
        else Buffer_Peek b' n = Inl SliceBounds \<and> Buffer_Next b' n = Inl SliceBounds \<and>
          Buffer_Grow ga b' n = Inl (PanicMsg ''bytes.Buffer.Grow: negative count'')"
    using views(4) [of n] buffer_panics [of n] b'(2) by (cases "0 \<le> n") simp_all
  have trunc: "n < 0 \<or> int (length q) < n \<longrightarrow> Buffer_Truncate b' n = Inl (PanicMsg ''bytes.Buffer: truncation out of range'')"
    using buffer_panics(2) [of n b'] buffer_panics(5) [of "- 1" b' n] b'(2,3) by auto
  show ?thesis by (rule conjI [OF disjI2 UnreadByte_after_Grow], rule exI [of _ b'], intro conjI b' views(1-3) peek trunc Buffer_one_read [OF assms(3) b'(2,3)])
qed (rule conjI [OF disjI1 UnreadByte_after_Grow], blast)

definition exact_alloc :: grow_alloc where
  "exact_alloc c = (if 0 \<le> c \<and> c < 2 ^ 63 then Some (nat c) else None)"

lemma exact_alloc_ok: "alloc_ok exact_alloc"
  by (auto simp: alloc_ok_def exact_alloc_def split: if_splits)

theorem bytes_Buffer_queue_witness:
  "\<exists>b'. buffer_run exact_alloc index_of zero_Buffer [Bf_WriteString [0x61, 0x62, 0x0a], Bf_WriteRune 0xe9, Bf_ReadByte, Bf_ReadBytes 0x0a] =
       Inr (b', [[], [], [0x61], [0x62, 0x0a]]) \<and> Buffer_String (Some b') = Inr [0xc3, 0xa9]"
proof -
  let ?ops = "[Bf_WriteString [0x61, 0x62, 0x0a], Bf_WriteRune 0xe9, Bf_ReadByte, Bf_ReadBytes 0x0a]"
  have z: "buffer_ok zero_Buffer" "contents zero_Buffer = []" by (simp_all add: buffer_ok_def contents_def buffer_slice_def zero_Buffer_def)
  have o: "ops_proper [] ?ops" "queue_run [] ?ops = ([0xc3, 0xa9], [[], [], [0x61], [0x62, 0x0a]])" by code_simp+
  have "case buffer_run exact_alloc index_of zero_Buffer ?ops of Inl e \<Rightarrow> False | Inr _ \<Rightarrow> True" by code_simp
  then have n: "buffer_run exact_alloc index_of zero_Buffer ?ops \<noteq> Inl ErrTooLarge" by (metis sum.case(1))
  from bytes_Buffer_queue [OF z(1) exact_alloc_ok index_loop.index_byte_axioms, unfolded z(2), OF o, of 0 0] n show ?thesis by (elim conjE disjE exE) blast+
qed

text \<open>
  C40: copying through a \<open>bytes.Buffer\<close> ends and moves every byte. \<open>WriteTo\<close> gives the contents to a \<open>strings.Builder\<close> and leaves the buffer empty;
  \<open>ReadFrom\<close> reads a \<open>strings.Reader\<close>, or another \<open>bytes.Buffer\<close>, to its end: the loop returns, the count is the number of bytes read, and the bytes
  are behind the contents in their order, unless the buffer with a part of the input in it could not be grown. \<open>String\<close> of a nil buffer is \<open><nil>\<close>.
\<close>

theorem bytes_Buffer_copies:
  assumes "buffer_ok b" "alloc_ok ga" "reader_ok r" "buffer_ok c" "b_addr w = None \<or> b_addr w = Some self"
  shows "(\<exists>b' w'. Buffer_WriteTo (Builder_Write al self) b w = Inr (b', w', Buffer_Len b, None) \<and>
      Builder_String w' = Builder_String w @ contents b \<and> contents b' = []) \<and>
    (Buffer_ReadFrom ga (counted Reader_Read) b r = Some (Inl ErrTooLarge) \<and>
       (\<exists>b' k. buffer_ok b' \<and> contents b' = contents b @ take k (unread r) \<and> too_large ga b' MinRead) \<or>
     (\<exists>b' r'. Buffer_ReadFrom ga (counted Reader_Read) b r = Some (Inr (b', r', Reader_Len r, None)) \<and>
       buffer_ok b' \<and> contents b' = contents b @ unread r \<and> unread r' = [])) \<and>
    (Buffer_ReadFrom ga (counted Buffer_Read) b c = Some (Inl ErrTooLarge) \<and>
       (\<exists>b' k. buffer_ok b' \<and> contents b' = contents b @ take k (contents c) \<and> too_large ga b' MinRead) \<or>
     (\<exists>b' c'. Buffer_ReadFrom ga (counted Buffer_Read) b c = Some (Inr (b', c', Buffer_Len c, None)) \<and>
       buffer_ok b' \<and> contents b' = contents b @ contents c \<and> contents c' = [])) \<and>
    Buffer_String None = Inr (bytes_of ''<nil>'')"
proof (intro conjI)
  have b: "buffer_ok (b\<lparr>bf_lastRead := opInvalid\<rparr>)" using assms(1) by simp
  have l: "Reader_Len r = int (length (unread r))" using assms(3) by (auto simp: Reader_Len_def unread_def reader_ok_def)
  show "\<exists>b' w'. Buffer_WriteTo (Builder_Write al self) b w = Inr (b', w', Buffer_Len b, None) \<and>
      Builder_String w' = Builder_String w @ contents b \<and> contents b' = []"
    using builder_writer.Buffer_WriteTo_all [OF assms(1,5), of al] Buffer_views(1) [OF assms(1)] by auto
  show "Buffer_ReadFrom ga (counted Reader_Read) b r = Some (Inl ErrTooLarge) \<and>
       (\<exists>b' k. buffer_ok b' \<and> contents b' = contents b @ take k (unread r) \<and> too_large ga b' MinRead) \<or>
     (\<exists>b' r'. Buffer_ReadFrom ga (counted Reader_Read) b r = Some (Inr (b', r', Reader_Len r, None)) \<and>
       buffer_ok b' \<and> contents b' = contents b @ unread r \<and> unread r' = [])"
    using string_reader.ReadFrom_loop_reads [OF assms(2) b assms(3), of 0] unfolding Buffer_ReadFrom_def l by simp
  show "Buffer_ReadFrom ga (counted Buffer_Read) b c = Some (Inl ErrTooLarge) \<and>
       (\<exists>b' k. buffer_ok b' \<and> contents b' = contents b @ take k (contents c) \<and> too_large ga b' MinRead) \<or>
     (\<exists>b' c'. Buffer_ReadFrom ga (counted Buffer_Read) b c = Some (Inr (b', c', Buffer_Len c, None)) \<and>
       buffer_ok b' \<and> contents b' = contents b @ contents c \<and> contents c' = [])"
    using buffer_reader.ReadFrom_loop_reads [OF assms(2) b assms(4), of 0] Buffer_views(1) [OF assms(4)] unfolding Buffer_ReadFrom_def by simp
  show "Buffer_String None = Inr (bytes_of ''<nil>'')" by (simp add: Buffer_String_def)
qed

theorem bytes_Buffer_copies_witness:
  "\<exists>b' r' w'. Buffer_ReadFrom exact_alloc (counted Reader_Read) (NewBuffer [0x78] 1 False) (NewReader [0x61, 0x62]) = Some (Inr (b', r', 2, None)) \<and>
     contents b' = [0x78, 0x61, 0x62] \<and>
     Buffer_WriteTo (Builder_Write exact_allocator 7) (NewBuffer [0x78] 1 False) zero_Builder = Inr (fst w', snd w', 1, None) \<and>
     Builder_String (snd w') = [0x78]"
proof -
  let ?b = "NewBuffer [0x78] 1 False"
  have n: "buffer_ok ?b" "contents ?b = [0x78]" "Buffer_Len ?b = 1" using NewBuffer_ok [of 1 "[0x78]" False] by (simp_all add: NewBuffer_def Buffer_Len_def)
  have z: "buffer_ok zero_Buffer" by (simp add: buffer_ok_def zero_Buffer_def)
  have r: "reader_ok (NewReader [0x61, 0x62])" "unread (NewReader [0x61, 0x62]) = [0x61, 0x62]" "Reader_Len (NewReader [0x61, 0x62]) = 2"
    by (simp_all add: reader_ok_def NewReader_def unread_def Reader_Len_def)
  have w: "b_addr zero_Builder = None \<or> b_addr zero_Builder = Some 7" "Builder_String zero_Builder = []"
    by (simp_all add: zero_Builder_def Builder_String_def)
  have "case Buffer_ReadFrom exact_alloc (counted Reader_Read) ?b (NewReader [0x61, 0x62]) of Some (Inl _) \<Rightarrow> False | _ \<Rightarrow> True" by code_simp
  then show ?thesis using bytes_Buffer_copies [OF n(1) exact_alloc_ok r(1) z w(1), of exact_allocator] unfolding n r w by auto
qed

end
