(* ===== verification/Hash_Order.thy ===== *)
theory Hash_Order
  imports Binary
begin

text \<open>
  What the hash packages share. The functions of \<open>internal/byteorder\<close> that they call are not part of this source
  tree: they are the record \<open>hash_order\<close>, an argument of the operations that use them, and the locale
  \<open>hash_byteorder\<close> states what is expected of them, interpreted on the byte orders of \<open>encoding/binary\<close>. The locale
  \<open>running_hash\<close> is the contract of \<open>hash.Hash\<close> on the division of a message into writes.
\<close>

section \<open>Byte order\<close>

record hash_order =
  BEAppendUint32 :: "bytes \<Rightarrow> u32 \<Rightarrow> bytes"
  BEAppendUint64 :: "bytes \<Rightarrow> u64 \<Rightarrow> bytes"
  BEUint32 :: "bytes \<Rightarrow> panic + u32"
  BEUint64 :: "bytes \<Rightarrow> panic + u64"
  LEUint32 :: "bytes \<Rightarrow> panic + u32"
  LEUint64 :: "bytes \<Rightarrow> panic + u64"

locale hash_byteorder =
  fixes ho :: hash_order
  assumes append32: "BEAppendUint32 ho b v = b @ BE_AppendUint32 [] v"
    and append64: "BEAppendUint64 ho b w = b @ BE_AppendUint64 [] w"
    and read32: "4 \<le> length b \<Longrightarrow> BEUint32 ho b = BE_Uint32 b"
    and read64: "8 \<le> length b \<Longrightarrow> BEUint64 ho b = BE_Uint64 b"
    and read32_le: "4 \<le> length b \<Longrightarrow> LEUint32 ho b = LE_Uint32 b"
    and read64_le: "8 \<le> length b \<Longrightarrow> LEUint64 ho b = LE_Uint64 b"
begin

lemma append_length [simp]:
  "length (BEAppendUint32 ho b v) = length b + 4" "length (BEAppendUint64 ho b w) = length b + 8"
  by (simp_all add: append32 append64 BE_Append_rev AppendUint_length)

text \<open>A value appended is read back, whatever follows it.\<close>

lemma read_append:
  "BEUint32 ho (BEAppendUint32 ho [] v @ r) = Inr v" "BEUint64 ho (BEAppendUint64 ho [] w @ r) = Inr w"
proof -
  have "BE_Uint32 (rev (LE_AppendUint32 [] v) @ r) = Inr v"
    by (simp add: Uint_le_word(4) AppendUint_length le_word_val le_val_bytes)
  then show "BEUint32 ho (BEAppendUint32 ho [] v @ r) = Inr v"
    by (simp add: append32 read32 BE_Append_rev AppendUint_length)
  have "BE_Uint64 (rev (LE_AppendUint64 [] w) @ r) = Inr w"
    by (simp add: Uint_le_word(6) AppendUint_length le_word_val le_val_bytes)
  then show "BEUint64 ho (BEAppendUint64 ho [] w @ r) = Inr w"
    by (simp add: append64 read64 BE_Append_rev AppendUint_length)
qed

lemma append_split:
  "BEAppendUint32 ho b v = b @ BEAppendUint32 ho [] v" "BEAppendUint64 ho b w = b @ BEAppendUint64 ho [] w"
  by (simp_all add: append32 [of b] append32 [of "[]"] append64 [of b] append64 [of "[]"])

lemma reads_total:
  "4 \<le> length b \<Longrightarrow> \<exists>v. BEUint32 ho b = Inr v" "8 \<le> length b \<Longrightarrow> \<exists>v. BEUint64 ho b = Inr v"
  by (simp_all add: read32 read64 Uint_le_word)

end

definition binary_hash_order :: hash_order where
  "binary_hash_order = \<lparr>BEAppendUint32 = BE_AppendUint32, BEAppendUint64 = BE_AppendUint64,
     BEUint32 = BE_Uint32, BEUint64 = BE_Uint64, LEUint32 = LE_Uint32, LEUint64 = LE_Uint64\<rparr>"

interpretation binary_hash: hash_byteorder binary_hash_order
  by unfold_locales (simp_all add: binary_hash_order_def BE_AppendUint32_def BE_AppendUint64_def)

section \<open>Running hashes\<close>

text \<open>
  The state after a write. A hash is a function of the bytes written since its creation: their division into
  writes does not matter.
\<close>

locale running_hash =
  fixes update :: "'d \<Rightarrow> bytes \<Rightarrow> 'd"
    and valid :: "'d \<Rightarrow> bool"
  assumes update_valid: "valid d \<Longrightarrow> valid (update d p)"
    and update_nil: "valid d \<Longrightarrow> update d [] = d"
    and update_append: "valid d \<Longrightarrow> update (update d p) q = update d (p @ q)"
begin

lemma update_chunks: "valid d \<Longrightarrow> foldl update d ps = update d (concat ps)"
  by (induction ps arbitrary: d) (simp_all add: update_nil update_append update_valid)

end

text \<open>
  A hash whose state can be marshalled. Unmarshalling never panics; it either restores the marshalled state or
  reports an error and keeps the state it had. A state is restored into a digest of the same kind: with \<open>resumes\<close>,
  the state of \<open>d'\<close> after some writes, restored into \<open>d\<close>, continues as \<open>d'\<close> would.
\<close>

definition resumes ::
  "('d \<Rightarrow> bytes \<Rightarrow> 'd) \<Rightarrow> ('d \<Rightarrow> panic + bytes \<times> string option) \<Rightarrow> ('d \<Rightarrow> bytes \<Rightarrow> panic + 'd \<times> string option) \<Rightarrow> 'd \<Rightarrow> 'd \<Rightarrow> bool" where
  "resumes update marshal unmarshal d d' \<longleftrightarrow>
     (\<forall>ps qs. \<exists>b e. marshal (foldl update d' ps) = Inr (b, None) \<and> unmarshal d b = Inr (e, None) \<and>
        foldl update e qs = update d' (concat (ps @ qs))) \<and>
     (\<forall>b. \<exists>e err. unmarshal d b = Inr (e, err) \<and> (err \<noteq> None \<longrightarrow> e = d))"

locale resumable_hash = running_hash update valid for update :: "'d \<Rightarrow> bytes \<Rightarrow> 'd" and valid +
  fixes same_kind :: "'d \<Rightarrow> 'd \<Rightarrow> bool"
    and marshal :: "'d \<Rightarrow> panic + bytes \<times> string option"
    and unmarshal :: "'d \<Rightarrow> bytes \<Rightarrow> panic + 'd \<times> string option"
  assumes update_kind: "valid e \<Longrightarrow> same_kind d e \<Longrightarrow> same_kind d (update e p)"
    and marshal_ok: "\<exists>b. marshal d = Inr (b, None)"
    and unmarshal_marshal: "same_kind d e \<Longrightarrow> marshal e = Inr (b, None) \<Longrightarrow> unmarshal d b = Inr (e, None)"
    and unmarshal_total: "\<exists>e err. unmarshal d b = Inr (e, err) \<and> (err \<noteq> None \<longrightarrow> e = d)"
begin

text \<open>A digest resumed from a marshalled state continues as the original does.\<close>

lemma resume:
  assumes "valid d'" "same_kind d d'"
  shows "\<exists>b e. marshal (foldl update d' ps) = Inr (b, None) \<and> unmarshal d b = Inr (e, None) \<and>
    foldl update e qs = update d' (concat (ps @ qs))"
proof -
  have k: "same_kind d (foldl update d' ps)" using assms by (simp add: update_chunks update_kind)
  obtain b where b: "marshal (foldl update d' ps) = Inr (b, None)" using marshal_ok by blast
  have "foldl update (foldl update d' ps) qs = update d' (concat (ps @ qs))"
    using assms(1) by (simp add: update_chunks update_append update_valid)
  then show ?thesis using b unmarshal_marshal [OF k b] by blast
qed

lemma resumes: "valid d' \<Longrightarrow> same_kind d d' \<Longrightarrow> resumes update marshal unmarshal d d'"
  unfolding resumes_def using resume unmarshal_total by blast

end

section \<open>Framed states\<close>

text \<open>
  The check that every \<open>UnmarshalBinary\<close> of these packages starts with: the identifier, then the size. The
  continuation reads the digest.
\<close>

definition check_state :: "bytes \<Rightarrow> nat \<Rightarrow> string \<Rightarrow> bytes \<Rightarrow> 'd \<Rightarrow> (panic + 'd \<times> string option) \<Rightarrow> panic + 'd \<times> string option" where
  "check_state magic sz pkg b d k =
     (if length b < length magic \<or> take (length magic) b \<noteq> magic
      then Inr (d, Some (pkg @ '': invalid hash state identifier''))
      else if length b \<noteq> sz then Inr (d, Some (pkg @ '': invalid hash state size''))
      else k)"

lemma check_state_ok: "sz = length magic + length r \<Longrightarrow> check_state magic sz pkg (magic @ r) d k = k"
  by (simp add: check_state_def)

lemma check_state_total:
  assumes "length b = sz \<Longrightarrow> take (length magic) b = magic \<Longrightarrow> \<exists>e err. k = Inr (e, err) \<and> (err \<noteq> None \<longrightarrow> e = d)"
  shows "\<exists>e err. check_state magic sz pkg b d k = Inr (e, err) \<and> (err \<noteq> None \<longrightarrow> e = d)"
  using assms by (auto simp: check_state_def)

text \<open>The states that consist of one 32-bit, one 64-bit or two 64-bit numbers.\<close>

definition read_state32 :: "hash_order \<Rightarrow> bytes \<Rightarrow> panic + u32 \<times> string option" where
  "read_state32 ho b = (case BEUint32 ho b of Inl e \<Rightarrow> Inl e | Inr v \<Rightarrow> Inr (v, None))"

definition read_state64 :: "hash_order \<Rightarrow> bytes \<Rightarrow> panic + u64 \<times> string option" where
  "read_state64 ho b = (case BEUint64 ho b of Inl e \<Rightarrow> Inl e | Inr v \<Rightarrow> Inr (v, None))"

definition read_state128 :: "hash_order \<Rightarrow> bytes \<Rightarrow> panic + (u64 \<times> u64) \<times> string option" where
  "read_state128 ho b =
     (case BEUint64 ho b of Inl e \<Rightarrow> Inl e
      | Inr v \<Rightarrow> (case BEUint64 ho (drop 8 b) of Inl e \<Rightarrow> Inl e | Inr w \<Rightarrow> Inr ((v, w), None)))"

context hash_byteorder
begin

lemma resumable_framed:
  assumes "running_hash upd (\<lambda>_. True)" "sz = length magic + n"
    and "\<And>d. length (enc d) = n" "\<And>d. rd (enc d) = Inr (d, None)" "\<And>b. length b = n \<Longrightarrow> \<exists>e. rd b = Inr (e, None)"
  shows "resumable_hash upd (\<lambda>_. True) (\<lambda>_ _. True) (\<lambda>d. Inr (magic @ enc d, None)) (\<lambda>d b. check_state magic sz pkg b d (rd (drop (length magic) b)))"
proof (intro resumable_hash.intro resumable_hash_axioms.intro assms(1))
  fix d b
  show "\<exists>e err. check_state magic sz pkg b d (rd (drop (length magic) b)) = Inr (e, err) \<and> (err \<noteq> None \<longrightarrow> e = d)"
  proof (rule check_state_total)
    assume "length b = sz"
    then show "\<exists>e err. rd (drop (length magic) b) = Inr (e, err) \<and> (err \<noteq> None \<longrightarrow> e = d)"
      using assms(5) [of "drop (length magic) b"] assms(2) by auto
  qed
qed (use assms in \<open>simp_all add: check_state_ok\<close>)

lemma resumable32:
  assumes "running_hash upd (\<lambda>_. True)" "sz = length magic + 4"
  shows "resumable_hash upd (\<lambda>_. True) (\<lambda>_ _. True) (\<lambda>d. Inr (BEAppendUint32 ho magic d, None))
    (\<lambda>d b. check_state magic sz pkg b d (read_state32 ho (drop (length magic) b)))"
  unfolding append_split(1) [of magic]
  using read_append(1) [of _ "[]"] by (intro resumable_framed [OF assms]) (simp_all add: read_state32_def read32 Uint_le_word)

lemma resumable64:
  assumes "running_hash upd (\<lambda>_. True)" "sz = length magic + 8"
  shows "resumable_hash upd (\<lambda>_. True) (\<lambda>_ _. True) (\<lambda>d. Inr (BEAppendUint64 ho magic d, None))
    (\<lambda>d b. check_state magic sz pkg b d (read_state64 ho (drop (length magic) b)))"
  unfolding append_split(2) [of magic]
  using read_append(2) [of _ "[]"] by (intro resumable_framed [OF assms]) (simp_all add: read_state64_def read64 Uint_le_word)

lemma resumable128:
  assumes "running_hash upd (\<lambda>_. True)" "sz = length magic + 16"
  shows "resumable_hash upd (\<lambda>_. True) (\<lambda>_ _. True) (\<lambda>d. Inr (BEAppendUint64 ho (BEAppendUint64 ho magic (fst d)) (snd d), None))
    (\<lambda>d b. check_state magic sz pkg b d (read_state128 ho (drop (length magic) b)))"
proof -
  define enc where "enc d = BEAppendUint64 ho [] (fst d) @ BEAppendUint64 ho [] (snd d)" for d
  have "BEAppendUint64 ho (BEAppendUint64 ho magic v) w = magic @ enc (v, w)" for v w
    using append_split(2) [of "BEAppendUint64 ho magic v" w] append_split(2) [of magic v] by (simp add: enc_def)
  moreover have "read_state128 ho (enc d) = Inr (d, None)" for d
  proof -
    have "drop 8 (enc d) = BEAppendUint64 ho [] (snd d)" by (simp add: enc_def)
    then show ?thesis using read_append(2) [of "snd d" "[]"] by (simp add: read_state128_def) (simp add: enc_def read_append)
  qed
  moreover have "\<exists>e. read_state128 ho b = Inr (e, None)" if "length b = 16" for b
    using reads_total(2) [of b] reads_total(2) [of "drop 8 b"] that by (auto simp: read_state128_def)
  ultimately show ?thesis
    using resumable_framed [OF assms, where enc = enc and rd = "read_state128 ho"] by (simp add: enc_def)
qed

end

end
