(* ===== verification/Hash_Adler32.thy ===== *)
theory Hash_Adler32
  imports Hash_Order
begin

text \<open>
  Package \<open>hash/adler32\<close> (\<open>src/hash/adler32/adler32.go\<close>). The sums run in 32-bit words and are reduced once per
  block of \<open>nmax\<close> bytes; \<open>nmax_bound\<close> shows that they do not wrap in between, and \<open>adler_update_spec\<close> gives
  them as sums over the natural numbers.
\<close>

section \<open>The checksum\<close>

definition adler_mod :: u32 where "adler_mod = 65521"

definition nmax :: nat where "nmax = 5552"

definition adler_Size :: nat where "adler_Size = 4"

definition adler_BlockSize :: nat where "adler_BlockSize = 4"

definition adler_Reset :: u32 where "adler_Reset = 1"

definition adler_New :: u32 where "adler_New = adler_Reset"

definition adler_magic :: bytes where "adler_magic = bytes_of ''adl'' @ [1]"

definition adler_marshaledSize :: nat where "adler_marshaledSize = length adler_magic + 4"

definition adler_AppendBinary :: "hash_order \<Rightarrow> u32 \<Rightarrow> bytes \<Rightarrow> bytes \<times> string option" where
  "adler_AppendBinary ho d b = (BEAppendUint32 ho (b @ adler_magic) d, None)"

definition adler_MarshalBinary :: "hash_order \<Rightarrow> u32 \<Rightarrow> bytes \<times> string option" where
  "adler_MarshalBinary ho d = adler_AppendBinary ho d []"

text \<open>The digest afterwards, and the error.\<close>

definition adler_UnmarshalBinary :: "hash_order \<Rightarrow> u32 \<Rightarrow> bytes \<Rightarrow> panic + u32 \<times> string option" where
  "adler_UnmarshalBinary ho d b =
     check_state adler_magic adler_marshaledSize ''hash/adler32'' b d
       (read_state32 ho (drop (length adler_magic) b))"

definition adler_Clone :: "u32 \<Rightarrow> u32 \<times> string option" where "adler_Clone d = (d, None)"

text \<open>\<open>s1 += uint32(x); s2 += s1\<close>.\<close>

definition adler_add :: "u32 \<times> u32 \<Rightarrow> u8 \<Rightarrow> u32 \<times> u32" where
  "adler_add s x = (let s1 = fst s + ucast x in (s1, snd s + s1))"

text \<open>One block: four bytes at a time, then the rest.\<close>

fun adler_block :: "u32 \<times> u32 \<Rightarrow> bytes \<Rightarrow> u32 \<times> u32" where
  "adler_block s (x0 # x1 # x2 # x3 # p) = adler_block (adler_add (adler_add (adler_add (adler_add s x0) x1) x2) x3) p"
| "adler_block s p = foldl adler_add s p"

function adler_loop :: "u32 \<times> u32 \<Rightarrow> bytes \<Rightarrow> u32 \<times> u32" where
  "adler_loop s p =
     (if length p > 0 then
        (case (if length p > nmax then (take nmax p, drop nmax p) else (p, [])) of
           (p, q) \<Rightarrow>
             (case adler_block s p of (s1, s2) \<Rightarrow> adler_loop (s1 mod adler_mod, s2 mod adler_mod) q))
      else s)"
  by auto
termination by (relation "measure (\<lambda>(s, p). length p)") (auto simp: nmax_def split: if_splits)

declare adler_loop.simps [simp del]

definition adler_update :: "u32 \<Rightarrow> bytes \<Rightarrow> u32" where
  "adler_update d p =
     (case adler_loop (d AND 0xffff, drop_bit 16 d) p of (s1, s2) \<Rightarrow> push_bit 16 s2 OR s1)"

definition adler_Write :: "u32 \<Rightarrow> bytes \<Rightarrow> u32 \<times> nat \<times> io_error option" where
  "adler_Write d p = (adler_update d p, length p, None)"

definition adler_Sum32 :: "u32 \<Rightarrow> u32" where "adler_Sum32 d = d"

definition adler_Sum :: "u32 \<Rightarrow> bytes \<Rightarrow> bytes" where
  "adler_Sum d b = b @ [ucast (drop_bit 24 d), ucast (drop_bit 16 d), ucast (drop_bit 8 d), ucast d]"

definition adler_Checksum :: "bytes \<Rightarrow> u32" where
  "adler_Checksum data = adler_update 1 data"

section \<open>The sums over the natural numbers\<close>

text \<open>The sum of the bytes, and the sum of the bytes weighted by their distance to the end (RFC 1950).\<close>

definition byte_sum :: "bytes \<Rightarrow> nat" where
  "byte_sum p = sum_list (map unat p)"

fun weighted_sum :: "bytes \<Rightarrow> nat" where
  "weighted_sum [] = 0"
| "weighted_sum (x # p) = unat x * (length p + 1) + weighted_sum p"

lemma byte_sum_simps [simp]: "byte_sum [] = 0" "byte_sum (x # p) = unat x + byte_sum p" "byte_sum (p @ q) = byte_sum p + byte_sum q"
  by (simp_all add: byte_sum_def)

lemma weighted_sum_append: "weighted_sum (p @ q) = weighted_sum p + byte_sum p * length q + weighted_sum q"
  by (induction p) (simp_all add: algebra_simps)

lemma sum_bounds: "byte_sum p \<le> 255 * length p" "2 * weighted_sum p \<le> 255 * (length p * (length p + 1))"
proof -
  show "byte_sum p \<le> 255 * length p"
  proof (induction p)
    case (Cons x p)
    then show ?case using unat_lt2p [of x] by simp
  qed simp
  show "2 * weighted_sum p \<le> 255 * (length p * (length p + 1))"
  proof (induction p)
    case (Cons x p)
    have "unat x * (length p + 1) \<le> 255 * (length p + 1)" using unat_lt2p [of x] by (intro mult_right_mono) simp_all
    then show ?case using Cons by (simp add: algebra_simps)
  qed simp
qed

lemma adler_block_foldl: "adler_block s p = foldl adler_add s p"
  by (induction s p rule: adler_block.induct) simp_all

text \<open>The bound that \<open>nmax\<close> stands for: within a block no sum exceeds 32 bits.\<close>

lemma nmax_bound:
  assumes "a < 65536" "b < 65536" "length p \<le> nmax"
  shows "b + a * length p + weighted_sum p < 2 ^ 32" "a + byte_sum p < 2 ^ 32"
proof -
  have n: "length p \<le> 5552" using assms(3) by (simp add: nmax_def)
  have "length p * (length p + 1) \<le> 5552 * 5553" using n by (intro mult_mono) simp_all
  then have "2 * weighted_sum p \<le> 255 * (5552 * 5553)" using sum_bounds(2) [of p] by linarith
  moreover have "a * length p \<le> 65535 * 5552" using assms(1) n by (intro mult_mono) simp_all
  ultimately show "b + a * length p + weighted_sum p < 2 ^ 32" using assms(2) by simp
  show "a + byte_sum p < 2 ^ 32" using sum_bounds(1) [of p] n assms(1) by simp
qed

lemma foldl_adler_add:
  "unat s2 + unat s1 * length p + weighted_sum p < 2 ^ 32 \<Longrightarrow> unat s1 + byte_sum p < 2 ^ 32 \<Longrightarrow>
   map_prod unat unat (foldl adler_add (s1, s2) p) = (unat s1 + byte_sum p, unat s2 + unat s1 * length p + weighted_sum p)"
proof (induction p arbitrary: s1 s2)
  case (Cons x p)
  have x: "unat (ucast x :: u32) = unat x" using unat_lt2p [of x] by (simp add: unat_ucast)
  have s1: "unat (s1 + ucast x) = unat s1 + unat x" using Cons.prems(2) by (simp add: unat_word_ariths x)
  have "unat s2 + unat (s1 + ucast x) < 2 ^ 32" using Cons.prems(1) unfolding s1 by (simp add: algebra_simps)
  then have s2: "unat (s2 + (s1 + ucast x)) = unat s2 + unat s1 + unat x"
    using s1 by (simp add: unat_word_ariths(1) [of s2])
  obtain t1 t2 where t: "t1 = s1 + ucast x" "t2 = s2 + (s1 + ucast x)" by blast
  have "foldl adler_add (s1, s2) (x # p) = foldl adler_add (t1, t2) p" by (simp add: adler_add_def t Let_def)
  moreover have "unat t1 = unat s1 + unat x" "unat t2 = unat s2 + unat s1 + unat x" using s1 s2 t by simp_all
  ultimately show ?case using Cons.IH [of t2 t1] Cons.prems by (simp add: algebra_simps)
qed simp

lemma adler_mod_nat: "unat (s mod adler_mod) = unat s mod 65521"
  by (simp add: adler_mod_def unat_mod)

lemma adler_loop_spec:
  assumes "unat s1 < 65536" "unat s2 < 65536"
  shows "map_prod unat unat (adler_loop (s1, s2) p) =
     (if p = [] then (unat s1, unat s2)
      else ((unat s1 + byte_sum p) mod 65521, (unat s2 + unat s1 * length p + weighted_sum p) mod 65521))"
  using assms
proof (induction "length p" arbitrary: s1 s2 p rule: less_induct)
  case less
  show ?case
  proof (cases "p = []")
    case True
    then show ?thesis by (simp add: adler_loop.simps)
  next
    case False
    define p1 p2 where "p1 = take nmax p" and "p2 = drop nmax p"
    have p: "p = p1 @ p2" "length p1 \<le> nmax" "length p2 < length p" "p1 \<noteq> []"
      using False by (simp_all add: p1_def p2_def nmax_def)
    have sp: "(if length p > nmax then (take nmax p, drop nmax p) else (p, [])) = (p1, p2)" by (auto simp: p1_def p2_def)
    obtain t1 t2 where t: "foldl adler_add (s1, s2) p1 = (t1, t2)" by fastforce
    have t': "unat t1 = unat s1 + byte_sum p1" "unat t2 = unat s2 + unat s1 * length p1 + weighted_sum p1"
      using foldl_adler_add [of s2 s1 p1] nmax_bound [OF less.prems p(2)] t by simp_all
    have step: "adler_loop (s1, s2) p = adler_loop (t1 mod adler_mod, t2 mod adler_mod) p2"
      using False by (subst adler_loop.simps) (simp add: sp adler_block_foldl t)
    have r: "unat (t1 mod adler_mod) < 65536" "unat (t2 mod adler_mod) < 65536"
      unfolding adler_mod_nat by (rule less_trans [OF mod_less_divisor]; simp)+
    note IH = less.hyps [OF p(3) r]
    show ?thesis
    proof (cases "p2 = []")
      case True
      then show ?thesis using IH step p by (simp add: adler_mod_nat t')
    next
      case False
      have "(unat s2 + unat s1 * length p + weighted_sum p) mod 65521 =
         (unat t2 mod 65521 + unat t1 mod 65521 * length p2 + weighted_sum p2) mod 65521"
      proof -
        have "(unat t2 mod 65521 + unat t1 mod 65521 * length p2 + weighted_sum p2) mod 65521 =
           (unat t2 + unat t1 * length p2 + weighted_sum p2) mod 65521"
          by (intro mod_add_cong refl) (simp_all add: mod_mult_left_eq)
        then show ?thesis by (simp add: t' p weighted_sum_append algebra_simps)
      qed
      then show ?thesis using IH step p False by (simp add: adler_mod_nat t' mod_simps add.assoc)
    qed
  qed
qed

text \<open>The digest keeps the first sum in its low and the second in its high half.\<close>

lemma adler_update_spec:
  "unat (adler_update d p) =
     (if p = [] then unat d
      else (unat d div 65536 + unat d mod 65536 * length p + weighted_sum p) mod 65521 * 65536 + (unat d mod 65536 + byte_sum p) mod 65521)"
proof -
  have m: "d AND 0xffff = d AND mask 16" by (simp add: mask_eq_exp_minus_1)
  have h: "unat (d AND 0xffff) = unat d mod 65536" "unat (drop_bit 16 d) = unat d div 65536"
    unfolding m by (simp_all add: unat_and_mask unat_drop_bit)
  have hl: "unat (d AND 0xffff) < 65536" "unat (drop_bit 16 d) < 65536"
    unfolding h using unat_lt2p [of d] by (simp_all add: less_mult_imp_div_less)
  obtain r1 r2 where r: "adler_loop (d AND 0xffff, drop_bit 16 d) p = (r1, r2)" by fastforce
  note sp = adler_loop_spec [OF hl, of p, unfolded r h]
  have "unat r1 < 65536" "unat r2 < 65536"
    using sp hl h by (auto split: if_splits intro: less_trans [OF mod_less_divisor])
  then have "unat (adler_update d p) = unat r2 * 65536 + unat r1"
    using unat_push_or [of r1 16 r2] by (simp add: adler_update_def r)
  then show ?thesis using sp by (auto split: if_splits)
qed

lemma adler_update_nil: "adler_update d [] = d"
  using adler_update_spec [of d "[]"] by (simp add: word_unat_eq_iff)

lemma adler_update_append: "adler_update (adler_update d p) q = adler_update d (p @ q)"
proof (cases "p = [] \<or> q = []")
  case True
  then show ?thesis by (auto simp: adler_update_nil)
next
  case False
  define a b where "a = unat d mod 65536" and "b = unat d div 65536"
  define a' b' where "a' = (a + byte_sum p) mod 65521" and "b' = (b + a * length p + weighted_sum p) mod 65521"
  have u: "unat (adler_update d p) = b' * 65536 + a'" using False by (simp add: adler_update_spec a_def b_def a'_def b'_def)
  have "a' < 65536" unfolding a'_def by (rule less_trans [OF mod_less_divisor]) simp_all
  then have h: "unat (adler_update d p) mod 65536 = a'" "unat (adler_update d p) div 65536 = b'" unfolding u by simp_all
  have "(b' + a' * length q + weighted_sum q) mod 65521 = (b + a * length (p @ q) + weighted_sum (p @ q)) mod 65521"
  proof -
    have "(b' + a' * length q + weighted_sum q) mod 65521 = (b + a * length p + weighted_sum p + (a + byte_sum p) * length q + weighted_sum q) mod 65521"
      unfolding a'_def b'_def by (intro mod_add_cong refl) (simp_all add: mod_mult_left_eq)
    then show ?thesis by (simp add: weighted_sum_append algebra_simps)
  qed
  moreover have "(a' + byte_sum q) mod 65521 = (a + byte_sum (p @ q)) mod 65521"
    unfolding a'_def by (simp add: mod_simps algebra_simps)
  ultimately show ?thesis
    unfolding word_unat_eq_iff adler_update_spec [of "adler_update d p"] adler_update_spec [of d "p @ q"] h
    using False by (simp add: a_def b_def)
qed

section \<open>Marshalling\<close>

lemma adler_running: "running_hash adler_update (\<lambda>_. True)"
  by unfold_locales (simp_all add: adler_update_nil adler_update_append)

sublocale hash_byteorder \<subseteq> adler: resumable_hash adler_update "\<lambda>_. True" "\<lambda>_ _. True" "\<lambda>d. Inr (adler_MarshalBinary ho d)" "adler_UnmarshalBinary ho"
  using resumable32 [OF adler_running, of adler_marshaledSize adler_magic]
  by (simp add: adler_marshaledSize_def adler_MarshalBinary_def [abs_def] adler_AppendBinary_def adler_UnmarshalBinary_def [abs_def])

context hash_byteorder
begin

lemmas adler_resumes = adler.resumes

end

section \<open>Properties\<close>

lemma nmax_largest: "255 * (n * (n + 1)) + 2 * ((n + 1) * 65520) \<le> 2 * (2 ^ 32 - 1) \<longleftrightarrow> n \<le> nmax" for n :: nat
proof
  assume "n \<le> nmax"
  then have "n * (n + 1) \<le> 5552 * 5553" by (intro mult_mono) (simp_all add: nmax_def)
  with \<open>n \<le> nmax\<close> show "255 * (n * (n + 1)) + 2 * ((n + 1) * 65520) \<le> 2 * (2 ^ 32 - 1)" by (simp add: nmax_def)
next
  assume l: "255 * (n * (n + 1)) + 2 * ((n + 1) * 65520) \<le> 2 * (2 ^ 32 - 1)"
  show "n \<le> nmax"
  proof (rule ccontr)
    assume "\<not> n \<le> nmax"
    then have n: "5553 \<le> n" by (simp add: nmax_def)
    then have "5553 * 5554 \<le> n * (n + 1)" by (intro mult_mono) simp_all
    with n l show False by simp
  qed
qed

text \<open>
  C34: Adler-32. The constant \<open>nmax\<close> is the largest number of bytes for which the stated bound holds. The checksum
  of any message is, as in RFC 1950, the sum of the bytes and the sum of the running sums, both modulo 65521: no
  intermediate sum wraps although they are reduced once per block only. Any division of a message into writes
  gives the checksum of the message, every write reporting its length, and \<open>Sum\<close> lays the checksum out most
  significant byte first.
\<close>

theorem adler32_spec:
  "(255 * (n * (n + 1)) + 2 * ((n + 1) * 65520) \<le> 2 * (2 ^ 32 - 1) \<longleftrightarrow> n \<le> nmax) \<and>
   unat (adler_Checksum p) = (length p + weighted_sum p) mod 65521 * 65536 + (1 + byte_sum p) mod 65521 \<and>
   adler_Sum32 (foldl (\<lambda>d q. fst (adler_Write d q)) adler_New ps) = adler_Checksum (concat ps) \<and>
   snd (adler_Write d p) = (length p, None) \<and>
   adler_Sum d b = b @ rev (LE_AppendUint32 [] d)"
proof (intro conjI)
  have "adler_update 1 [] = 1" by (rule adler_update_nil)
  then show "unat (adler_Checksum p) = (length p + weighted_sum p) mod 65521 * 65536 + (1 + byte_sum p) mod 65521"
    using adler_update_spec [of 1 p] by (cases "p = []") (simp_all add: adler_Checksum_def)
  show "adler_Sum32 (foldl (\<lambda>d q. fst (adler_Write d q)) adler_New ps) = adler_Checksum (concat ps)"
    by (simp add: adler_Sum32_def adler_Checksum_def adler_New_def adler_Reset_def adler_Write_def binary_hash.adler.update_chunks)
qed (rule nmax_largest, simp_all add: adler_Write_def adler_Sum_def LE_AppendUint32_def)

end
