(* ===== verification/Hash_Fnv.thy ===== *)
theory Hash_Fnv
  imports Hash_Order Bits_Arith
begin

text \<open>
  Package \<open>hash/fnv\<close> (\<open>src/hash/fnv/fnv.go\<close>): the FNV-1 and FNV-1a hashes of 32, 64 and 128 bits. A 128-bit state
  is the array \<open>[2]uint64\<close> of the code, most significant half first, as a pair; its multiplication by the 128-bit
  prime goes through \<open>bits.Mul64\<close>. Section \<open>128-bit arithmetic\<close> shows that it is the multiplication of 128-bit
  words.
\<close>

section \<open>The hashes\<close>

definition offset32 :: u32 where "offset32 = 2166136261"

definition prime32 :: u32 where "prime32 = 16777619"

definition offset64 :: u64 where "offset64 = 14695981039346656037"

definition offset128Lower :: u64 where "offset128Lower = 0x62b821756295c58d"

definition offset128Higher :: u64 where "offset128Higher = 0x6c62272e07bb0142"

definition prime64 :: u64 where "prime64 = 1099511628211"

definition prime128Lower :: u64 where "prime128Lower = 0x13b"

definition prime128Shift :: nat where "prime128Shift = 24"

definition fnv_New32 :: "u32" where "fnv_New32 = offset32"

definition fnv_New32a :: "u32" where "fnv_New32a = offset32"

definition fnv_New64 :: "u64" where "fnv_New64 = offset64"

definition fnv_New64a :: "u64" where "fnv_New64a = offset64"

definition fnv_New128 :: "u64 \<times> u64" where "fnv_New128 = (offset128Higher, offset128Lower)"

definition fnv_New128a :: "u64 \<times> u64" where "fnv_New128a = (offset128Higher, offset128Lower)"

definition sum32_Reset :: "u32" where "sum32_Reset = offset32"

definition sum32a_Reset :: "u32" where "sum32a_Reset = offset32"

definition sum64_Reset :: "u64" where "sum64_Reset = offset64"

definition sum64a_Reset :: "u64" where "sum64a_Reset = offset64"

definition sum128_Reset :: "u64 \<times> u64" where "sum128_Reset = (offset128Higher, offset128Lower)"

definition sum128a_Reset :: "u64 \<times> u64" where "sum128a_Reset = (offset128Higher, offset128Lower)"

definition sum32_Sum32 :: "u32 \<Rightarrow> u32" where "sum32_Sum32 s = s"

definition sum32a_Sum32 :: "u32 \<Rightarrow> u32" where "sum32a_Sum32 s = s"

definition sum64_Sum64 :: "u64 \<Rightarrow> u64" where "sum64_Sum64 s = s"

definition sum64a_Sum64 :: "u64 \<Rightarrow> u64" where "sum64a_Sum64 s = s"

definition sum32_Write :: "u32 \<Rightarrow> bytes \<Rightarrow> u32 \<times> nat \<times> io_error option" where
  "sum32_Write s data = (foldl (\<lambda>hash c. hash * prime32 XOR ucast c) s data, length data, None)"

definition sum32a_Write :: "u32 \<Rightarrow> bytes \<Rightarrow> u32 \<times> nat \<times> io_error option" where
  "sum32a_Write s data = (foldl (\<lambda>hash c. (hash XOR ucast c) * prime32) s data, length data, None)"

definition sum64_Write :: "u64 \<Rightarrow> bytes \<Rightarrow> u64 \<times> nat \<times> io_error option" where
  "sum64_Write s data = (foldl (\<lambda>hash c. hash * prime64 XOR ucast c) s data, length data, None)"

definition sum64a_Write :: "u64 \<Rightarrow> bytes \<Rightarrow> u64 \<times> nat \<times> io_error option" where
  "sum64a_Write s data = (foldl (\<lambda>hash c. (hash XOR ucast c) * prime64) s data, length data, None)"

text \<open>The multiplication of the state by the 128-bit prime, and the loop bodies.\<close>

definition fnv_mul128 :: "u64 \<times> u64 \<Rightarrow> u64 \<times> u64" where
  "fnv_mul128 s =
     (case Mul64 prime128Lower (snd s) of (s0, s1) \<Rightarrow>
        (s0 + (push_bit prime128Shift (snd s) + prime128Lower * fst s), s1))"

definition sum128_step :: "u64 \<times> u64 \<Rightarrow> u8 \<Rightarrow> u64 \<times> u64" where
  "sum128_step s c = (case fnv_mul128 s of (s0, s1) \<Rightarrow> (s0, s1 XOR ucast c))"

definition sum128a_step :: "u64 \<times> u64 \<Rightarrow> u8 \<Rightarrow> u64 \<times> u64" where
  "sum128a_step s c = fnv_mul128 (fst s, snd s XOR ucast c)"

definition sum128_Write :: "u64 \<times> u64 \<Rightarrow> bytes \<Rightarrow> (u64 \<times> u64) \<times> nat \<times> io_error option" where
  "sum128_Write s data = (foldl sum128_step s data, length data, None)"

definition sum128a_Write :: "u64 \<times> u64 \<Rightarrow> bytes \<Rightarrow> (u64 \<times> u64) \<times> nat \<times> io_error option" where
  "sum128a_Write s data = (foldl sum128a_step s data, length data, None)"

definition sum32_Size :: nat where "sum32_Size = 4"

definition sum32a_Size :: nat where "sum32a_Size = 4"

definition sum64_Size :: nat where "sum64_Size = 8"

definition sum64a_Size :: nat where "sum64a_Size = 8"

definition sum128_Size :: nat where "sum128_Size = 16"

definition sum128a_Size :: nat where "sum128a_Size = 16"

definition sum32_BlockSize :: nat where "sum32_BlockSize = 1"

definition sum32a_BlockSize :: nat where "sum32a_BlockSize = 1"

definition sum64_BlockSize :: nat where "sum64_BlockSize = 1"

definition sum64a_BlockSize :: nat where "sum64a_BlockSize = 1"

definition sum128_BlockSize :: nat where "sum128_BlockSize = 1"

definition sum128a_BlockSize :: nat where "sum128a_BlockSize = 1"

definition sum32_Sum :: "hash_order \<Rightarrow> u32 \<Rightarrow> bytes \<Rightarrow> bytes" where
  "sum32_Sum ho s b = BEAppendUint32 ho b s"

definition sum32a_Sum :: "hash_order \<Rightarrow> u32 \<Rightarrow> bytes \<Rightarrow> bytes" where
  "sum32a_Sum ho s b = BEAppendUint32 ho b s"

definition sum64_Sum :: "hash_order \<Rightarrow> u64 \<Rightarrow> bytes \<Rightarrow> bytes" where
  "sum64_Sum ho s b = BEAppendUint64 ho b s"

definition sum64a_Sum :: "hash_order \<Rightarrow> u64 \<Rightarrow> bytes \<Rightarrow> bytes" where
  "sum64a_Sum ho s b = BEAppendUint64 ho b s"

definition sum128_Sum :: "hash_order \<Rightarrow> u64 \<times> u64 \<Rightarrow> bytes \<Rightarrow> bytes" where
  "sum128_Sum ho s b = (let ret = BEAppendUint64 ho b (fst s) in BEAppendUint64 ho ret (snd s))"

definition sum128a_Sum :: "hash_order \<Rightarrow> u64 \<times> u64 \<Rightarrow> bytes \<Rightarrow> bytes" where
  "sum128a_Sum ho s b = (let ret = BEAppendUint64 ho b (fst s) in BEAppendUint64 ho ret (snd s))"

definition magic32 :: bytes where "magic32 = bytes_of ''fnv'' @ [1]"

definition magic32a :: bytes where "magic32a = bytes_of ''fnv'' @ [2]"

definition magic64 :: bytes where "magic64 = bytes_of ''fnv'' @ [3]"

definition magic64a :: bytes where "magic64a = bytes_of ''fnv'' @ [4]"

definition magic128 :: bytes where "magic128 = bytes_of ''fnv'' @ [5]"

definition magic128a :: bytes where "magic128a = bytes_of ''fnv'' @ [6]"

definition marshaledSize32 :: nat where "marshaledSize32 = length magic32 + 4"

definition marshaledSize64 :: nat where "marshaledSize64 = length magic64 + 8"

definition marshaledSize128 :: nat where "marshaledSize128 = length magic128 + 8 * 2"

definition sum32_AppendBinary :: "hash_order \<Rightarrow> u32 \<Rightarrow> bytes \<Rightarrow> bytes \<times> string option" where
  "sum32_AppendBinary ho s b = (BEAppendUint32 ho (b @ magic32) s, None)"

definition sum32_MarshalBinary :: "hash_order \<Rightarrow> u32 \<Rightarrow> bytes \<times> string option" where
  "sum32_MarshalBinary ho s = sum32_AppendBinary ho s []"

definition sum32a_AppendBinary :: "hash_order \<Rightarrow> u32 \<Rightarrow> bytes \<Rightarrow> bytes \<times> string option" where
  "sum32a_AppendBinary ho s b = (BEAppendUint32 ho (b @ magic32a) s, None)"

definition sum32a_MarshalBinary :: "hash_order \<Rightarrow> u32 \<Rightarrow> bytes \<times> string option" where
  "sum32a_MarshalBinary ho s = sum32a_AppendBinary ho s []"

definition sum64_AppendBinary :: "hash_order \<Rightarrow> u64 \<Rightarrow> bytes \<Rightarrow> bytes \<times> string option" where
  "sum64_AppendBinary ho s b = (BEAppendUint64 ho (b @ magic64) s, None)"

definition sum64_MarshalBinary :: "hash_order \<Rightarrow> u64 \<Rightarrow> bytes \<times> string option" where
  "sum64_MarshalBinary ho s = sum64_AppendBinary ho s []"

definition sum64a_AppendBinary :: "hash_order \<Rightarrow> u64 \<Rightarrow> bytes \<Rightarrow> bytes \<times> string option" where
  "sum64a_AppendBinary ho s b = (BEAppendUint64 ho (b @ magic64a) s, None)"

definition sum64a_MarshalBinary :: "hash_order \<Rightarrow> u64 \<Rightarrow> bytes \<times> string option" where
  "sum64a_MarshalBinary ho s = sum64a_AppendBinary ho s []"

definition sum128_AppendBinary :: "hash_order \<Rightarrow> u64 \<times> u64 \<Rightarrow> bytes \<Rightarrow> bytes \<times> string option" where
  "sum128_AppendBinary ho s b = (BEAppendUint64 ho (BEAppendUint64 ho (b @ magic128) (fst s)) (snd s), None)"

definition sum128_MarshalBinary :: "hash_order \<Rightarrow> u64 \<times> u64 \<Rightarrow> bytes \<times> string option" where
  "sum128_MarshalBinary ho s = sum128_AppendBinary ho s []"

definition sum128a_AppendBinary :: "hash_order \<Rightarrow> u64 \<times> u64 \<Rightarrow> bytes \<Rightarrow> bytes \<times> string option" where
  "sum128a_AppendBinary ho s b = (BEAppendUint64 ho (BEAppendUint64 ho (b @ magic128a) (fst s)) (snd s), None)"

definition sum128a_MarshalBinary :: "hash_order \<Rightarrow> u64 \<times> u64 \<Rightarrow> bytes \<times> string option" where
  "sum128a_MarshalBinary ho s = sum128a_AppendBinary ho s []"

definition sum32_UnmarshalBinary :: "hash_order \<Rightarrow> u32 \<Rightarrow> bytes \<Rightarrow> panic + u32 \<times> string option" where
  "sum32_UnmarshalBinary ho s b =
     check_state magic32 marshaledSize32 ''hash/fnv'' b s (read_state32 ho (drop 4 b))"

definition sum32a_UnmarshalBinary :: "hash_order \<Rightarrow> u32 \<Rightarrow> bytes \<Rightarrow> panic + u32 \<times> string option" where
  "sum32a_UnmarshalBinary ho s b =
     check_state magic32a marshaledSize32 ''hash/fnv'' b s (read_state32 ho (drop 4 b))"

definition sum64_UnmarshalBinary :: "hash_order \<Rightarrow> u64 \<Rightarrow> bytes \<Rightarrow> panic + u64 \<times> string option" where
  "sum64_UnmarshalBinary ho s b =
     check_state magic64 marshaledSize64 ''hash/fnv'' b s (read_state64 ho (drop 4 b))"

definition sum64a_UnmarshalBinary :: "hash_order \<Rightarrow> u64 \<Rightarrow> bytes \<Rightarrow> panic + u64 \<times> string option" where
  "sum64a_UnmarshalBinary ho s b =
     check_state magic64a marshaledSize64 ''hash/fnv'' b s (read_state64 ho (drop 4 b))"

definition sum128_UnmarshalBinary :: "hash_order \<Rightarrow> u64 \<times> u64 \<Rightarrow> bytes \<Rightarrow> panic + (u64 \<times> u64) \<times> string option" where
  "sum128_UnmarshalBinary ho s b =
     check_state magic128 marshaledSize128 ''hash/fnv'' b s (read_state128 ho (drop 4 b))"

definition sum128a_UnmarshalBinary :: "hash_order \<Rightarrow> u64 \<times> u64 \<Rightarrow> bytes \<Rightarrow> panic + (u64 \<times> u64) \<times> string option" where
  "sum128a_UnmarshalBinary ho s b =
     check_state magic128a marshaledSize128 ''hash/fnv'' b s (read_state128 ho (drop 4 b))"

definition sum32_Clone :: "u32 \<Rightarrow> u32 \<times> string option" where "sum32_Clone s = (s, None)"

definition sum32a_Clone :: "u32 \<Rightarrow> u32 \<times> string option" where "sum32a_Clone s = (s, None)"

definition sum64_Clone :: "u64 \<Rightarrow> u64 \<times> string option" where "sum64_Clone s = (s, None)"

definition sum64a_Clone :: "u64 \<Rightarrow> u64 \<times> string option" where "sum64a_Clone s = (s, None)"

definition sum128_Clone :: "u64 \<times> u64 \<Rightarrow> (u64 \<times> u64) \<times> string option" where "sum128_Clone s = (s, None)"

definition sum128a_Clone :: "u64 \<times> u64 \<Rightarrow> (u64 \<times> u64) \<times> string option" where "sum128a_Clone s = (s, None)"

section \<open>128-bit arithmetic\<close>

type_synonym u128 = "128 word"

definition word128 :: "u64 \<times> u64 \<Rightarrow> u128" where
  "word128 s = push_bit 64 (ucast (fst s)) OR ucast (snd s)"

text \<open>The 128-bit FNV prime.\<close>

definition fnv_prime128 :: u128 where "fnv_prime128 = 2 ^ 88 + 2 ^ 8 + 0x3b"

lemma unat_word128: "unat (word128 (a, b)) = unat a * 2 ^ 64 + unat b"
proof -
  have a: "unat (ucast a :: u128) = unat a" "unat (ucast b :: u128) = unat b"
    using unat_lt2p [of a] unat_lt2p [of b] by (simp_all add: unat_ucast)
  then show ?thesis using unat_lt2p [of a] unat_lt2p [of b]
    unfolding word128_def fst_conv snd_conv by (subst unat_push_or) (simp_all add: a)
qed

lemma word128_ring: "word128 s = of_nat (unat (fst s)) * 2 ^ 64 + of_nat (unat (snd s))"
proof -
  have "word128 s = of_nat (unat (word128 (fst s, snd s)))" by simp
  then show ?thesis unfolding unat_word128 by simp
qed

lemma of_nat_high: "of_nat (n mod 2 ^ 64) * (2 ^ 64 :: u128) = of_nat n * 2 ^ 64"
proof -
  have "(2 ^ 64 * 2 ^ 64 :: u128) = 0" by simp
  moreover have "(of_nat (2 ^ 64 * (n div 2 ^ 64)) :: u128) * 2 ^ 64 = of_nat (n div 2 ^ 64) * (2 ^ 64 * 2 ^ 64)"
    by (simp only: of_nat_mult of_nat_power of_nat_numeral mult_ac)
  ultimately have "(of_nat (2 ^ 64 * (n div 2 ^ 64)) :: u128) * 2 ^ 64 = 0" by (simp only: mult_zero_right)
  moreover have "of_nat n = (of_nat (n mod 2 ^ 64) + of_nat (2 ^ 64 * (n div 2 ^ 64)) :: u128)"
    by (metis mod_mult_div_eq of_nat_add)
  ultimately show ?thesis by (simp add: distrib_right)
qed

lemma word128_mul: "word128 (fnv_mul128 s) = word128 s * fnv_prime128"
proof -
  obtain a b where s: "s = (a, b)" by fastforce
  obtain hi lo where m: "Mul64 prime128Lower b = (hi, lo)" by fastforce
  have mul: "2 ^ 64 * unat hi + unat lo = 0x13b * unat b"
    using Mul64_full [of prime128Lower b] m by (simp add: prime128Lower_def)
  define x where "x = unat hi + unat b * 2 ^ 24 + 0x13b * unat a"
  have "hi + (push_bit prime128Shift b + prime128Lower * a) = of_nat x"
    by (simp add: x_def push_bit_eq_mult prime128Shift_def prime128Lower_def)
  then have "word128 (fnv_mul128 s) = of_nat (x mod 2 ^ 64) * 2 ^ 64 + of_nat (unat lo)"
    by (simp add: fnv_mul128_def s m word128_ring unat_of_nat)
  also have "\<dots> = of_nat (x * 2 ^ 64 + unat lo)" unfolding of_nat_high by simp
  also have "x * 2 ^ 64 + unat lo = unat b * (2 ^ 88 + 0x13b) + unat a * (0x13b * 2 ^ 64)"
    using mul by (simp add: x_def algebra_simps)
  also have "(of_nat \<dots> :: u128) = (of_nat (unat a) * 2 ^ 64 + of_nat (unat b)) * (2 ^ 88 + 0x13b)"
  proof -
    have "(2 ^ 64 * 2 ^ 88 :: u128) = 0" by simp
    then have "(of_nat (unat a) * 2 ^ 64 :: u128) * 2 ^ 88 = 0" by (simp only: mult.assoc mult_zero_right)
    then have "(of_nat (unat a) * 2 ^ 64 + of_nat (unat b)) * (2 ^ 88 + 0x13b :: u128) =
        of_nat (unat b) * (2 ^ 88 + 0x13b) + of_nat (unat a) * (0x13b * 2 ^ 64)"
      by (simp only: distrib_left distrib_right mult_ac add_ac add_0_left add_0_right)
    then show ?thesis by (simp only: of_nat_add of_nat_mult of_nat_power of_nat_numeral)
  qed
  finally show ?thesis by (simp add: word128_ring s fnv_prime128_def)
qed

lemma word128_xor: "word128 (a, b XOR ucast c) = word128 (a, b) XOR ucast (c :: u8)"
  by (rule bit_word_eqI) (auto simp: word128_def bit_simps dest: bit_imp_le_length)

lemma word128_step:
  "word128 (sum128_step s c) = word128 s * fnv_prime128 XOR ucast c"
  "word128 (sum128a_step s c) = (word128 s XOR ucast c) * fnv_prime128"
  using word128_mul [of s]
  by (cases "fnv_mul128 s", simp add: sum128_step_def word128_xor) (simp add: sum128a_step_def word128_mul word128_xor)

lemma word128_foldl:
  "word128 (foldl sum128_step s p) = foldl (\<lambda>h c. h * fnv_prime128 XOR ucast c) (word128 s) p"
  "word128 (foldl sum128a_step s p) = foldl (\<lambda>h c. (h XOR ucast c) * fnv_prime128) (word128 s) p"
  by (induction p arbitrary: s) (simp_all add: word128_step)

section \<open>Marshalling\<close>

lemma fnv_running:
  "running_hash (\<lambda>s p. fst (sum32_Write s p)) (\<lambda>_. True)" "running_hash (\<lambda>s p. fst (sum32a_Write s p)) (\<lambda>_. True)"
  "running_hash (\<lambda>s p. fst (sum64_Write s p)) (\<lambda>_. True)" "running_hash (\<lambda>s p. fst (sum64a_Write s p)) (\<lambda>_. True)"
  "running_hash (\<lambda>s p. fst (sum128_Write s p)) (\<lambda>_. True)" "running_hash (\<lambda>s p. fst (sum128a_Write s p)) (\<lambda>_. True)"
  by (unfold_locales; simp add: sum32_Write_def sum32a_Write_def sum64_Write_def sum64a_Write_def sum128_Write_def sum128a_Write_def)+

lemma fnv_frame:
  "length magic32 = 4" "length magic32a = 4" "length magic64 = 4" "length magic64a = 4" "length magic128 = 4" "length magic128a = 4"
  by (simp_all add: magic32_def magic32a_def magic64_def magic64a_def magic128_def magic128a_def bytes_of_def)


sublocale hash_byteorder \<subseteq> fnv32: resumable_hash "\<lambda>s p. fst (sum32_Write s p)" "\<lambda>_. True" "\<lambda>_ _. True" "\<lambda>s. Inr (sum32_MarshalBinary ho s)" "sum32_UnmarshalBinary ho"
  using resumable32 [OF fnv_running(1), of marshaledSize32 magic32]
  by (simp add: fnv_frame marshaledSize32_def sum32_MarshalBinary_def [abs_def] sum32_AppendBinary_def sum32_UnmarshalBinary_def [abs_def])

sublocale hash_byteorder \<subseteq> fnv32a: resumable_hash "\<lambda>s p. fst (sum32a_Write s p)" "\<lambda>_. True" "\<lambda>_ _. True" "\<lambda>s. Inr (sum32a_MarshalBinary ho s)" "sum32a_UnmarshalBinary ho"
  using resumable32 [OF fnv_running(2), of marshaledSize32 magic32a]
  by (simp add: fnv_frame marshaledSize32_def sum32a_MarshalBinary_def [abs_def] sum32a_AppendBinary_def sum32a_UnmarshalBinary_def [abs_def])

sublocale hash_byteorder \<subseteq> fnv64: resumable_hash "\<lambda>s p. fst (sum64_Write s p)" "\<lambda>_. True" "\<lambda>_ _. True" "\<lambda>s. Inr (sum64_MarshalBinary ho s)" "sum64_UnmarshalBinary ho"
  using resumable64 [OF fnv_running(3), of marshaledSize64 magic64]
  by (simp add: fnv_frame marshaledSize64_def sum64_MarshalBinary_def [abs_def] sum64_AppendBinary_def sum64_UnmarshalBinary_def [abs_def])

sublocale hash_byteorder \<subseteq> fnv64a: resumable_hash "\<lambda>s p. fst (sum64a_Write s p)" "\<lambda>_. True" "\<lambda>_ _. True" "\<lambda>s. Inr (sum64a_MarshalBinary ho s)" "sum64a_UnmarshalBinary ho"
  using resumable64 [OF fnv_running(4), of marshaledSize64 magic64a]
  by (simp add: fnv_frame marshaledSize64_def sum64a_MarshalBinary_def [abs_def] sum64a_AppendBinary_def sum64a_UnmarshalBinary_def [abs_def])

sublocale hash_byteorder \<subseteq> fnv128: resumable_hash "\<lambda>s p. fst (sum128_Write s p)" "\<lambda>_. True" "\<lambda>_ _. True" "\<lambda>s. Inr (sum128_MarshalBinary ho s)" "sum128_UnmarshalBinary ho"
  using resumable128 [OF fnv_running(5), of marshaledSize128 magic128]
  by (simp add: fnv_frame marshaledSize128_def sum128_MarshalBinary_def [abs_def] sum128_AppendBinary_def sum128_UnmarshalBinary_def [abs_def])

sublocale hash_byteorder \<subseteq> fnv128a: resumable_hash "\<lambda>s p. fst (sum128a_Write s p)" "\<lambda>_. True" "\<lambda>_ _. True" "\<lambda>s. Inr (sum128a_MarshalBinary ho s)" "sum128a_UnmarshalBinary ho"
  using resumable128 [OF fnv_running(6), of marshaledSize128 magic128a]
  by (simp add: fnv_frame marshaledSize128_def sum128a_MarshalBinary_def [abs_def] sum128a_AppendBinary_def sum128a_UnmarshalBinary_def [abs_def])

context hash_byteorder
begin

lemmas fnv32_resumes = fnv32.resumes

lemmas fnv32a_resumes = fnv32a.resumes

lemmas fnv64_resumes = fnv64.resumes

lemmas fnv64a_resumes = fnv64a.resumes

lemmas fnv128_resumes = fnv128.resumes

lemmas fnv128a_resumes = fnv128a.resumes

end

section \<open>Properties\<close>

lemma le_val_append: "le_val (xs @ ys) = le_val xs + 256 ^ length xs * le_val ys"
  by (induction xs) (simp_all add: algebra_simps)

text \<open>
  C35: FNV. The 128-bit hashes, whose state is a pair of 64-bit words multiplied through \<open>bits.Mul64\<close>, are the
  FNV-1 and FNV-1a recurrences over 128-bit words, for the 128-bit offset basis and prime of the specification;
  their \<open>Sum\<close> appends the sixteen bytes of that word, most significant first.
\<close>

theorem fnv128_refines_words:
  assumes "hash_byteorder ho"
  shows "word128 (fst (sum128_Write s p)) = foldl (\<lambda>h c. h * fnv_prime128 XOR ucast c) (word128 s) p \<and>
    word128 (fst (sum128a_Write s p)) = foldl (\<lambda>h c. (h XOR ucast c) * fnv_prime128) (word128 s) p \<and>
    unat (word128 fnv_New128) = 144066263297769815596495629667062367629 \<and>
    unat fnv_prime128 = 309485009821345068724781371 \<and>
    (\<exists>q. length q = sum128_Size \<and> sum128_Sum ho s b = b @ q \<and> sum128a_Sum ho s b = b @ q \<and> le_val (rev q) = unat (word128 s))"
proof (intro conjI)
  have be: "BEAppendUint64 ho c v = c @ rev (LE_AppendUint64 [] v)" for c v
    using hash_byteorder.append64 [OF assms] by (simp add: BE_Append_rev)
  show "\<exists>q. length q = sum128_Size \<and> sum128_Sum ho s b = b @ q \<and> sum128a_Sum ho s b = b @ q \<and> le_val (rev q) = unat (word128 s)"
    by (rule exI [of _ "rev (LE_AppendUint64 [] (fst s)) @ rev (LE_AppendUint64 [] (snd s))"])
      (simp add: sum128_Size_def sum128_Sum_def sum128a_Sum_def be AppendUint_length le_val_append le_val_bytes
        unat_word128 [of "fst s" "snd s", simplified])
  show "unat (word128 fnv_New128) = 144066263297769815596495629667062367629"
    by (simp add: fnv_New128_def unat_word128 offset128Higher_def offset128Lower_def)
qed (simp_all add: sum128_Write_def sum128a_Write_def word128_foldl fnv_prime128_def)

theorem fnv128_refines_words_witness:
  "hash_byteorder binary_hash_order \<and>
   word128 (fst (sum128a_Write fnv_New128a [0x61])) = (word128 fnv_New128a XOR 0x61) * fnv_prime128"
  using fnv128_refines_words [OF binary_hash.hash_byteorder_axioms, of fnv_New128a "[0x61]" "[]"] binary_hash.hash_byteorder_axioms
  by simp

end

