(* ===== verification/Hash_Crc.thy ===== *)
theory Hash_Crc
  imports Hash_Order
begin

text \<open>
  What the packages \<open>hash/crc32\<close> and \<open>hash/crc64\<close> share: the bit-serial shift register, its linearity, the tables
  of a polynomial and the slicing-by-8 tables, for words of any width. The register is the reference that the table
  driven loops of both packages are compared with, and the error detection of a CRC is proved of it.
\<close>

section \<open>The loops that build the tables\<close>

text \<open>The body of the inner loop of \<open>makeTable\<close> and \<open>simplePopulateTable\<close>.\<close>

definition crc_step :: "'a::len word \<Rightarrow> 'a word \<Rightarrow> 'a word" where
  "crc_step poly crc = (if crc AND 1 = 1 then drop_bit 1 crc XOR poly else drop_bit 1 crc)"

definition crc_table :: "'a::len word \<Rightarrow> 'a word list" where
  "crc_table poly = map (\<lambda>i. (crc_step poly ^^ 8) (of_nat i)) [0..<256]"

text \<open>One byte through a table: \<open>tab[byte(crc)^v] ^ (crc >> 8)\<close>.\<close>

definition crc_table_byte :: "'a::len word list \<Rightarrow> 'a word \<Rightarrow> u8 \<Rightarrow> 'a word" where
  "crc_table_byte tab crc v = tab ! unat (ucast crc XOR v) XOR drop_bit 8 crc"

text \<open>The loops of \<open>makeSlicingBy8Table\<close> and \<open>slicingMakeTable\<close> after their first row.\<close>

definition slicing_entry :: "'a::len word list \<Rightarrow> nat \<Rightarrow> nat \<Rightarrow> 'a word \<times> 'a word list list \<Rightarrow> 'a word \<times> 'a word list list" where
  "slicing_entry t i j s =
     (let crc = t ! unat (fst s AND 0xff) XOR drop_bit 8 (fst s) in (crc, (snd s)[j := (snd s ! j)[i := crc]]))"

definition slicing_column :: "'a::len word list \<Rightarrow> nat \<Rightarrow> 'a word list list \<Rightarrow> 'a word list list" where
  "slicing_column t i h = snd (fold (slicing_entry t i) [1..<8] (t ! i, h))"

definition slicing_tables :: "'a::len word list \<Rightarrow> 'a word list list" where
  "slicing_tables t = fold (slicing_column t) [0..<256] (t # replicate 7 (replicate 256 0))"

section \<open>The shift register\<close>

lemma and_one_bit: "(x :: 'a::len word) AND 1 = 1 \<longleftrightarrow> bit x 0"
  by (simp add: and_one_eq odd_iff_mod_2_eq_one bit_0)

lemma crc_step_alt: "crc_step poly c = drop_bit 1 c XOR (if bit c 0 then poly else 0)"
  by (simp add: crc_step_def and_one_bit)

lemma crc_step_xor: "crc_step poly (a XOR b) = crc_step poly a XOR crc_step poly b"
  by (rule bit_word_eqI) (auto simp: crc_step_alt bit_simps)

lemma crc_step_0 [simp]: "crc_step poly 0 = 0"
  by (simp add: crc_step_alt)

lemma crc_step_push:
  assumes "\<not> bit a (LENGTH('a) - 1)"
  shows "crc_step poly (push_bit 1 a) = (a :: 'a::len word)"
proof -
  have "Suc n < LENGTH('a)" if "bit a n" for n
    using that assms bit_imp_le_length [OF that] by (metis Suc_lessI diff_Suc_1)
  then show ?thesis by (intro bit_word_eqI) (auto simp: crc_step_alt bit_simps simp del: push_bit_Suc drop_bit_Suc)
qed

text \<open>\<open>n\<close> steps, in particular a whole byte.\<close>

definition crc_steps :: "nat \<Rightarrow> 'a::len word \<Rightarrow> 'a word \<Rightarrow> 'a word" where
  "crc_steps n poly = crc_step poly ^^ n"

lemma crc_steps_0 [simp]: "crc_steps 0 poly c = c" "crc_steps n poly 0 = 0"
  by (simp_all add: crc_steps_def, induction n) simp_all

lemma crc_steps_Suc: "crc_steps (Suc n) poly c = crc_step poly (crc_steps n poly c)"
  by (simp add: crc_steps_def)

lemma crc_steps_add: "crc_steps (m + n) poly c = crc_steps m poly (crc_steps n poly c)"
  by (simp add: crc_steps_def funpow_add)

lemma crc_steps_xor: "crc_steps n poly (a XOR b) = crc_steps n poly a XOR crc_steps n poly b"
  by (induction n) (simp_all add: crc_steps_Suc crc_step_xor)

lemma crc_steps_push:
  "(\<And>i. bit a i \<Longrightarrow> i + n < LENGTH('a)) \<Longrightarrow> crc_steps n poly (push_bit n a) = (a :: 'a::len word)"
proof (induction n arbitrary: a)
  case (Suc n)
  have "crc_steps n poly (push_bit n (push_bit 1 a)) = push_bit 1 a"
    using Suc.prems by (intro Suc.IH) (fastforce simp: bit_simps simp del: push_bit_Suc)
  moreover have "crc_step poly (push_bit 1 a) = a" using Suc.prems by (intro crc_step_push) force
  ultimately show ?case by (simp add: crc_steps_Suc push_bit_push_bit)
qed simp

section \<open>The reference: a message bit by bit\<close>

definition crc_bits :: "'a::len word \<Rightarrow> 'a word \<Rightarrow> bool list \<Rightarrow> 'a word" where
  "crc_bits poly = foldl (\<lambda>c b. crc_step poly (c XOR of_bool b))"

text \<open>The bits of a message, the least significant bit of each byte first.\<close>

definition message_bits :: "bytes \<Rightarrow> bool list" where
  "message_bits p = concat (map (\<lambda>v. map (bit v) [0..<8]) p)"

lemma crc_bits_append: "crc_bits poly c (xs @ ys) = crc_bits poly (crc_bits poly c xs) ys"
  by (simp add: crc_bits_def)

lemma message_bits_simps [simp]:
  "message_bits [] = []" "message_bits (v # p) = map (bit v) [0..<8] @ message_bits p"
  "message_bits (p @ q) = message_bits p @ message_bits q" "length (message_bits p) = 8 * length p"
  by (simp_all add: message_bits_def length_concat comp_def sum_list_triv)

lemma crc_bits_word:
  fixes v :: "'b::len word" and c :: "'a::len word"
  assumes "n \<le> LENGTH('a)"
  shows "crc_bits poly c (map (bit v) [0..<n]) = crc_steps n poly (c XOR ucast (take_bit n v))"
  using assms
proof (induction n)
  case (Suc n)
  let ?b = "of_bool (bit v n) :: 'a word"
  have t: "ucast (take_bit (Suc n) v) = ucast (take_bit n v) XOR push_bit n ?b"
    using Suc.prems by (intro bit_word_eqI) (auto simp: bit_simps less_Suc_eq bit_of_bool_iff dest: bit_imp_le_length)
  have "crc_steps n poly (push_bit n ?b) = ?b" using Suc.prems by (intro crc_steps_push) (auto simp: bit_of_bool_iff)
  then show ?case using Suc by (simp add: crc_bits_def crc_steps_Suc t crc_steps_xor crc_step_xor flip: xor.assoc)
qed (simp add: crc_bits_def)

text \<open>One byte.\<close>

definition crc_byte :: "'a::len word \<Rightarrow> 'a word \<Rightarrow> u8 \<Rightarrow> 'a word" where
  "crc_byte poly c v = crc_steps 8 poly (c XOR ucast v)"

lemma crc_bits_byte: "8 \<le> LENGTH('a) \<Longrightarrow> crc_bits poly (c :: 'a::len word) (map (bit v) [0..<8]) = crc_byte poly c v"
  using crc_bits_word [of 8 poly c v] by (simp add: crc_byte_def take_bit_word_eq_self)

lemma crc_bits_message: "8 \<le> LENGTH('a) \<Longrightarrow> crc_bits poly (c :: 'a::len word) (message_bits p) = foldl (crc_byte poly) c p"
  by (induction p arbitrary: c) (simp_all add: crc_bits_append crc_bits_byte del: upt_rec_numeral, simp add: crc_bits_def)

section \<open>Tables\<close>

lemma crc_table_length [simp]: "length (crc_table poly) = 256"
  by (simp add: crc_table_def)

lemma crc_table_nth: "crc_table poly ! unat (x :: u8) = crc_steps 8 poly (ucast x)"
  using unat_lt2p [of x] by (simp add: crc_table_def crc_steps_def of_nat_unat)

lemma word_split_byte: "(c :: 'a::len word) = ucast (ucast c :: u8) XOR push_bit 8 (drop_bit 8 c)"
  by (rule bit_word_eqI) (auto simp: bit_simps)

text \<open>A byte through the table is eight steps of the register.\<close>

lemma crc_table_byte: "8 \<le> LENGTH('a) \<Longrightarrow> crc_table_byte (crc_table poly) (c :: 'a::len word) v = crc_byte poly c v"
proof -
  assume l: "8 \<le> LENGTH('a)"
  have x: "ucast (ucast c XOR v :: u8) = (ucast (ucast c :: u8) XOR ucast v :: 'a word)"
    by (rule bit_word_eqI) (auto simp: bit_simps)
  have d: "crc_steps 8 poly (push_bit 8 (drop_bit 8 c)) = drop_bit 8 c"
    using l by (intro crc_steps_push) (auto simp: bit_simps dest: bit_imp_le_length)
  have "crc_byte poly c v = crc_steps 8 poly (ucast (ucast c :: u8) XOR push_bit 8 (drop_bit 8 c) XOR ucast v)"
    by (simp add: crc_byte_def word_split_byte [of c, symmetric] flip: xor.assoc)
  then show ?thesis
    unfolding crc_table_byte_def crc_table_nth x by (simp add: crc_steps_xor d xor.assoc xor.commute xor.left_commute)
qed

lemma unat_and_ff: "unat (c AND 0xff :: 'a::len word) = unat (ucast c :: u8)"
proof -
  have "c AND 0xff = (c AND mask 8)" by (simp add: mask_eq_exp_minus_1)
  then show ?thesis by (simp add: word_nat)
qed

text \<open>The rows of the slicing tables: row \<open>j\<close> holds the effect of \<open>j + 1\<close> bytes.\<close>

definition slicing_ok :: "'a::len word \<Rightarrow> 'a word list list \<Rightarrow> bool" where
  "slicing_ok poly h \<longleftrightarrow> length h = 8 \<and> (\<forall>j<8. \<forall>i<256. h ! j ! i = crc_steps (8 * Suc j) poly (of_nat i))"

lemma slicing_ok_row: "slicing_ok poly h \<Longrightarrow> j < 8 \<Longrightarrow> h ! j ! unat (x :: u8) = crc_steps (8 * Suc j) poly (ucast x)"
  using unat_lt2p [of x] by (simp add: slicing_ok_def of_nat_unat)

lemma slicing_column_spec:
  fixes h :: "'a::len word list list"
  assumes "8 \<le> LENGTH('a)" "i < 256" "length h = 8" "\<forall>j<8. length (h ! j) = 256"
  shows "length (slicing_column (crc_table poly) i h) = 8"
    "j < 8 \<Longrightarrow> slicing_column (crc_table poly) i h ! j = (if j = 0 then h ! 0 else (h ! j)[i := crc_steps (8 * Suc j) poly (of_nat i)])"
proof -
  have e: "crc_table poly ! unat (c AND 0xff) XOR drop_bit 8 c = crc_steps 8 poly c" for c
    using crc_table_byte [OF assms(1), of poly c 0] by (simp add: unat_and_ff crc_table_byte_def crc_byte_def)
  have f: "\<exists>h'. fold (slicing_entry (crc_table poly) i) [1..<Suc n] (crc_table poly ! i, h) = (crc_steps (8 * Suc n) poly (of_nat i), h') \<and> length h' = 8 \<and>
      (\<forall>j<8. h' ! j = (if j = 0 \<or> j > n then h ! j else (h ! j)[i := crc_steps (8 * Suc j) poly (of_nat i)]))" if "n < 8" for n
    using that
  proof (induction n)
    case 0
    then show ?case using assms by (simp add: crc_table_def crc_steps_def)
  next
    case (Suc n)
    then obtain h' where h: "fold (slicing_entry (crc_table poly) i) [1..<Suc n] (crc_table poly ! i, h) = (crc_steps (8 * Suc n) poly (of_nat i), h')"
      "length h' = 8" "\<forall>j<8. h' ! j = (if j = 0 \<or> j > n then h ! j else (h ! j)[i := crc_steps (8 * Suc j) poly (of_nat i)])" by force
    have "crc_steps 8 poly (crc_steps (8 * Suc n) poly (of_nat i)) = crc_steps (8 * Suc (Suc n)) poly (of_nat i)"
      by (simp flip: crc_steps_add)
    then have "fold (slicing_entry (crc_table poly) i) [1..<Suc (Suc n)] (crc_table poly ! i, h) =
        (crc_steps (8 * Suc (Suc n)) poly (of_nat i), h'[Suc n := (h' ! Suc n)[i := crc_steps (8 * Suc (Suc n)) poly (of_nat i)]])"
      using h(1) by (simp add: slicing_entry_def e Let_def)
    then show ?case using h(2,3) Suc.prems by (auto simp: nth_list_update)
  qed
  from f [of 7] show "length (slicing_column (crc_table poly) i h) = 8"
    "j < 8 \<Longrightarrow> slicing_column (crc_table poly) i h ! j = (if j = 0 then h ! 0 else (h ! j)[i := crc_steps (8 * Suc j) poly (of_nat i)])"
    by (auto simp: slicing_column_def)
qed

lemma slicing_tables_spec:
  assumes "8 \<le> LENGTH('a)"
  shows "slicing_ok poly (slicing_tables (crc_table poly :: 'a::len word list))"
    "slicing_tables (crc_table poly) ! 0 = crc_table poly"
proof -
  define h0 where "h0 = crc_table poly # replicate 7 (replicate 256 0)"
  have "length h' = 8 \<and> (\<forall>j<8. length (h' ! j) = 256 \<and> (\<forall>i<n. h' ! j ! i = crc_steps (8 * Suc j) poly (of_nat i))) \<and> h' ! 0 = crc_table poly"
    if "h' = fold (slicing_column (crc_table poly)) [0..<n] h0" "n \<le> 256" for h' n
    using that
  proof (induction n arbitrary: h')
    case 0
    then show ?case by (auto simp: h0_def nth_Cons')
  next
    case (Suc n)
    define h where "h = fold (slicing_column (crc_table poly)) [0..<n] h0"
    have h: "length h = 8" "\<forall>j<8. length (h ! j) = 256" "\<forall>j<8. \<forall>i<n. h ! j ! i = crc_steps (8 * Suc j) poly (of_nat i)" "h ! 0 = crc_table poly"
      using Suc.IH [OF h_def] Suc.prems by simp_all
    have "h' = slicing_column (crc_table poly) n h" using Suc.prems by (simp add: h_def)
    then show ?case
      using h slicing_column_spec [OF assms, of n h] Suc.prems
      by (auto simp: less_Suc_eq nth_list_update crc_table_def crc_steps_def)
  qed
  from this [of "slicing_tables (crc_table poly)" 256] show "slicing_ok poly (slicing_tables (crc_table poly))"
    "slicing_tables (crc_table poly) ! 0 = crc_table poly"
    by (auto simp: slicing_ok_def slicing_tables_def h0_def)
qed

section \<open>Several bytes at once\<close>

lemma le_word_bit: "bit (le_word xs :: 'a::len word) i \<Longrightarrow> i < 8 * length xs"
proof (induction xs arbitrary: i)
  case (Cons x xs)
  then show ?case using bit_imp_le_length [of x i] by (cases "i < 8") (force simp: bit_simps dest: bit_imp_le_length)+
qed simp

lemma le_word_Cons_xor: "le_word (x # xs) = ucast x XOR push_bit 8 (le_word xs)"
  by (rule bit_word_eqI) (auto simp: bit_simps dest: bit_imp_le_length)

lemma crc_steps_le_word:
  fixes poly :: "'a::len word"
  assumes "8 * length (x # xs) \<le> LENGTH('a)"
  shows "crc_steps (8 + n) poly (le_word (x # xs)) = crc_steps (8 + n) poly (ucast x) XOR crc_steps n poly (le_word xs)"
proof -
  have "crc_steps 8 poly (push_bit 8 (le_word xs)) = le_word xs"
    using assms by (intro crc_steps_push) (auto dest: le_word_bit)
  then show ?thesis
    unfolding le_word_Cons_xor add.commute [of 8] crc_steps_add by (simp add: crc_steps_xor)
qed

text \<open>As many bytes as fit into the register can be added before the steps.\<close>

lemma crc_bytes_le_word:
  "8 * length xs \<le> LENGTH('a) \<Longrightarrow> foldl (crc_byte poly) (c :: 'a::len word) xs = crc_steps (8 * length xs) poly (c XOR le_word xs)"
proof (induction xs arbitrary: c)
  case (Cons x xs)
  have "crc_steps (8 * length xs) poly (crc_byte poly c x) = crc_steps (8 * length xs + 8) poly (c XOR ucast x)"
    by (simp add: crc_byte_def crc_steps_add)
  then show ?case
    using Cons crc_steps_le_word [of x xs "8 * length xs" poly] by (simp add: crc_steps_xor add.commute xor.assoc)
qed simp

section \<open>Detection of burst errors\<close>

text \<open>With a polynomial of full degree the register step is injective.\<close>

lemma crc_step_zero_iff: "bit poly (LENGTH('a) - 1) \<Longrightarrow> crc_step poly c = 0 \<longleftrightarrow> c = (0 :: 'a::len word)"
proof
  assume p: "bit poly (LENGTH('a) - 1)" and z: "crc_step poly c = 0"
  have "\<not> bit (drop_bit 1 c) (LENGTH('a) - 1)" by (auto simp: bit_simps dest: bit_imp_le_length simp del: drop_bit_Suc)
  moreover have "\<not> bit (drop_bit 1 c XOR (if bit c 0 then poly else 0)) (LENGTH('a) - 1)"
    using z by (simp add: crc_step_alt)
  ultimately have c0: "\<not> bit c 0" using p by (auto simp: bit_simps split: if_splits)
  then have "drop_bit 1 c = 0" using z by (simp add: crc_step_alt)
  then have "\<not> bit (drop_bit 1 c) i" for i by (simp only: bit_0_eq bot_apply bot_bool_def not_False_eq_True)
  then have s: "\<not> bit c (Suc i)" for i by (simp add: bit_drop_bit_eq del: drop_bit_Suc)
  have "\<not> bit c i" for i using c0 s by (cases i) simp_all
  then show "c = 0" by (intro bit_word_eqI) simp
qed simp

lemma crc_steps_zero_iff: "bit poly (LENGTH('a) - 1) \<Longrightarrow> crc_steps n poly c = 0 \<longleftrightarrow> c = (0 :: 'a::len word)"
  by (induction n) (simp_all add: crc_steps_Suc crc_step_zero_iff)

lemma crc_bits_xor:
  "length xs = length ys \<Longrightarrow> crc_bits poly c xs XOR crc_bits poly d ys = crc_bits poly (c XOR d) (map2 (\<noteq>) xs ys)"
proof (induction xs ys arbitrary: c d rule: list_induct2)
  case (Cons x xs y ys)
  have "(c XOR of_bool x) XOR (d XOR of_bool y) = (c XOR d) XOR of_bool (x \<noteq> y)"
    by (cases x; cases y) (simp_all add: xor.assoc xor.left_commute xor.commute)
  then show ?case using Cons.IH [of "crc_step poly (c XOR of_bool x)" "crc_step poly (d XOR of_bool y)"]
    by (simp add: crc_bits_def flip: crc_step_xor)
qed (simp add: crc_bits_def)

lemma crc_bits_zeros: "crc_bits poly c (replicate n False) = crc_steps n poly c"
proof (induction n arbitrary: c)
  case (Suc n)
  have "crc_bits poly c (replicate (Suc n) False) = crc_bits poly (crc_step poly c) (replicate n False)" by (simp add: crc_bits_def)
  then show ?case using Suc [of "crc_step poly c"] by (simp add: crc_steps_def funpow_swap1)
qed (simp add: crc_bits_def)

lemma crc_bits_burst:
  fixes poly :: "'a::len word"
  assumes "bit poly (LENGTH('a) - 1)" "length bs \<le> LENGTH('a)" "True \<in> set bs"
  shows "crc_bits poly 0 (replicate m False @ bs @ replicate n False) \<noteq> 0"
proof -
  define v :: "'a word" where "v = horner_sum of_bool 2 bs"
  have v: "bit v i \<longleftrightarrow> i < length bs \<and> bs ! i" for i
    using assms(2) by (auto simp: v_def bit_horner_sum_bit_word_iff)
  have bs: "bs = map (bit v) [0..<length bs]" by (rule nth_equalityI) (simp_all add: v)
  have "take_bit (length bs) v = v" by (rule bit_word_eqI) (auto simp: bit_simps v)
  then have "crc_bits poly 0 bs = crc_steps (length bs) poly v"
    using crc_bits_word [OF assms(2), of poly 0 v] bs by simp
  moreover obtain i where "i < length bs" "bs ! i" using assms(3) by (metis in_set_conv_nth)
  then have "v \<noteq> 0" using v [of i] by auto
  ultimately show ?thesis
    using assms(1) by (simp add: crc_bits_append crc_bits_zeros crc_steps_zero_iff)
qed

text \<open>Two messages of the same length that differ, but only within a window of \<open>w\<close> bits.\<close>

definition burst :: "nat \<Rightarrow> bool list \<Rightarrow> bool list \<Rightarrow> bool" where
  "burst w xs ys \<longleftrightarrow> length xs = length ys \<and> xs \<noteq> ys \<and>
     (\<exists>i. \<forall>j<length xs. xs ! j \<noteq> ys ! j \<longrightarrow> i \<le> j \<and> j < i + w)"

lemma window_split:
  assumes "\<forall>j<length ds. ds ! j \<longrightarrow> i \<le> j \<and> j < i + w"
  shows "ds = replicate (min i (length ds)) False @ take w (drop i ds) @ replicate (length ds - (i + w)) False"
proof (rule nth_equalityI)
  fix j
  assume j: "j < length ds"
  consider "j < i" | "i \<le> j" "j < i + w" | "i + w \<le> j" by linarith
  then show "ds ! j = (replicate (min i (length ds)) False @ take w (drop i ds) @ replicate (length ds - (i + w)) False) ! j"
    using j assms by cases (auto simp: nth_append min_def)
qed (auto simp: min_def)

lemma crc_bits_detect:
  fixes poly :: "'a::len word"
  assumes "bit poly (LENGTH('a) - 1)" "burst LENGTH('a) xs ys"
  shows "crc_bits poly c xs \<noteq> crc_bits poly c ys"
proof -
  define ds where "ds = map2 (\<noteq>) xs ys"
  have l: "length xs = length ys" using assms(2) by (simp add: burst_def)
  obtain i where i: "\<forall>j<length ds. ds ! j \<longrightarrow> i \<le> j \<and> j < i + LENGTH('a)"
    using assms(2) l by (auto simp: burst_def ds_def)
  obtain j where j: "j < length ds" "ds ! j"
    using assms(2) l by (auto simp: burst_def ds_def list_eq_iff_nth_eq)
  have "ds ! j = take LENGTH('a) (drop i ds) ! (j - i)" "j - i < length (take LENGTH('a) (drop i ds))" using i j by auto
  then have "True \<in> set (take LENGTH('a) (drop i ds))" using j by (metis nth_mem)
  then have "crc_bits poly 0 ds \<noteq> 0"
    using crc_bits_burst [OF assms(1), of "take LENGTH('a) (drop i ds)" "min i (length ds)" "length ds - (i + LENGTH('a))"]
      window_split [OF i] by simp
  then show ?thesis using crc_bits_xor [OF l, of poly c c] by (auto simp: ds_def)
qed

end
