(* ===== verification/Hash_Crc64.thy ===== *)
theory Hash_Crc64
  imports Hash_Crc
begin

text \<open>
  Package \<open>hash/crc64\<close> (\<open>src/hash/crc64/crc64.go\<close>). A table pointer is \<open>None\<close> for nil and otherwise the contents of the
  table, which the package never changes and compares by value. The slicing tables of the two predefined polynomials
  are built once before their first use: they are constants here.
\<close>

section \<open>The package\<close>

definition crc64_Size :: nat where "crc64_Size = 8"

definition crc64_ISO :: u64 where "crc64_ISO = 0xD800000000000000"

definition crc64_ECMA :: u64 where "crc64_ECMA = 0xC96C5795D7870F42"

definition crc64_makeTable :: "u64 \<Rightarrow> u64 list" where
  "crc64_makeTable poly = crc_table poly"

definition makeSlicingBy8Table :: "u64 list \<Rightarrow> u64 list list" where
  "makeSlicingBy8Table t = slicing_tables t"

definition slicing8TableISO :: "u64 list list" where
  "slicing8TableISO = makeSlicingBy8Table (crc64_makeTable crc64_ISO)"

definition slicing8TableECMA :: "u64 list list" where
  "slicing8TableECMA = makeSlicingBy8Table (crc64_makeTable crc64_ECMA)"

definition crc64_MakeTable :: "u64 \<Rightarrow> u64 list option" where
  "crc64_MakeTable poly =
     Some (if poly = crc64_ISO then slicing8TableISO ! 0
           else if poly = crc64_ECMA then slicing8TableECMA ! 0
           else crc64_makeTable poly)"

record crc64_digest =
  crc64_crc :: u64
  crc64_tab :: "u64 list option"

definition crc64_New :: "u64 list option \<Rightarrow> crc64_digest" where
  "crc64_New tab = \<lparr>crc64_crc = 0, crc64_tab = tab\<rparr>"

definition crc64_BlockSize :: nat where "crc64_BlockSize = 1"

definition crc64_Reset :: "crc64_digest \<Rightarrow> crc64_digest" where
  "crc64_Reset d = d\<lparr>crc64_crc := 0\<rparr>"

text \<open>The choice of the slicing tables; \<open>None\<close> is the \<open>break\<close> for a short message.\<close>

definition crc64_helperTable :: "u64 list \<Rightarrow> nat \<Rightarrow> u64 list list option" where
  "crc64_helperTable tab n =
     (if tab = slicing8TableECMA ! 0 then Some slicing8TableECMA
      else if tab = slicing8TableISO ! 0 then Some slicing8TableISO
      else if n \<ge> 2048 then Some (makeSlicingBy8Table tab)
      else None)"

definition crc64_slice8 :: "u64 list list \<Rightarrow> u64 \<Rightarrow> u64" where
  "crc64_slice8 h crc =
     h ! 7 ! unat (crc AND 0xff) XOR
     h ! 6 ! unat (drop_bit 8 crc AND 0xff) XOR
     h ! 5 ! unat (drop_bit 16 crc AND 0xff) XOR
     h ! 4 ! unat (drop_bit 24 crc AND 0xff) XOR
     h ! 3 ! unat (drop_bit 32 crc AND 0xff) XOR
     h ! 2 ! unat (drop_bit 40 crc AND 0xff) XOR
     h ! 1 ! unat (drop_bit 48 crc AND 0xff) XOR
     h ! 0 ! unat (drop_bit 56 crc)"

function crc64_slicing :: "hash_order \<Rightarrow> u64 list list \<Rightarrow> u64 \<Rightarrow> bytes \<Rightarrow> panic + u64 \<times> bytes" where
  "crc64_slicing ho h crc p =
     (if length p > 8 then
        (case LEUint64 ho p of Inl e \<Rightarrow> Inl e
         | Inr w \<Rightarrow> crc64_slicing ho h (crc64_slice8 h (crc XOR w)) (drop 8 p))
      else Inr (crc, p))"
  by auto
termination by (relation "measure (\<lambda>(ho, h, crc, p). length p)") simp_all

declare crc64_slicing.simps [simp del]

lemma crc64_slicing_short: "crc64_slicing ho h crc p = Inr (c, q) \<Longrightarrow> length q \<le> 8"
  by (induction ho h crc p rule: crc64_slicing.induct)
    (subst (asm) (2) crc64_slicing.simps, auto split: if_splits sum.splits)

function crc64_loop :: "hash_order \<Rightarrow> u64 list option \<Rightarrow> u64 \<Rightarrow> bytes \<Rightarrow> panic + u64 \<times> bytes" where
  "crc64_loop ho tab crc p =
     (if length p \<ge> 64 then
        (case tab of None \<Rightarrow> Inl NilDereference
         | Some t \<Rightarrow>
             (case crc64_helperTable t (length p) of
                None \<Rightarrow> Inr (crc, p)
              | Some h \<Rightarrow>
                  (case crc64_slicing ho h crc p of Inl e \<Rightarrow> Inl e
                   | Inr (crc, q) \<Rightarrow> crc64_loop ho tab crc q)))
      else Inr (crc, p))"
  by auto
termination
  by (relation "measure (\<lambda>(ho, tab, crc, p). length p)") (auto dest!: crc64_slicing_short)

declare crc64_loop.simps [simp del]

text \<open>The remaining bytes, one at a time.\<close>

definition crc64_rest :: "u64 list option \<Rightarrow> u64 \<Rightarrow> bytes \<Rightarrow> panic + u64" where
  "crc64_rest tab crc p =
     (case tab of None \<Rightarrow> if p = [] then Inr crc else Inl NilDereference
      | Some t \<Rightarrow> Inr (foldl (crc_table_byte t) crc p))"

definition crc64_update :: "hash_order \<Rightarrow> u64 \<Rightarrow> u64 list option \<Rightarrow> bytes \<Rightarrow> panic + u64" where
  "crc64_update ho crc tab p =
     (case crc64_loop ho tab (NOT crc) p of Inl e \<Rightarrow> Inl e
      | Inr (crc, p) \<Rightarrow> (case crc64_rest tab crc p of Inl e \<Rightarrow> Inl e | Inr crc \<Rightarrow> Inr (NOT crc)))"

definition crc64_Update :: "hash_order \<Rightarrow> u64 \<Rightarrow> u64 list option \<Rightarrow> bytes \<Rightarrow> panic + u64" where
  "crc64_Update ho crc tab p = crc64_update ho crc tab p"

definition crc64_Write :: "hash_order \<Rightarrow> crc64_digest \<Rightarrow> bytes \<Rightarrow> panic + crc64_digest \<times> nat \<times> io_error option" where
  "crc64_Write ho d p =
     (case crc64_update ho (crc64_crc d) (crc64_tab d) p of Inl e \<Rightarrow> Inl e
      | Inr c \<Rightarrow> Inr (d\<lparr>crc64_crc := c\<rparr>, length p, None))"

definition crc64_Sum64 :: "crc64_digest \<Rightarrow> u64" where "crc64_Sum64 d = crc64_crc d"

definition crc64_Sum :: "crc64_digest \<Rightarrow> bytes \<Rightarrow> bytes" where
  "crc64_Sum d b =
     (let s = crc64_Sum64 d
      in b @ [ucast (drop_bit 56 s), ucast (drop_bit 48 s), ucast (drop_bit 40 s), ucast (drop_bit 32 s),
              ucast (drop_bit 24 s), ucast (drop_bit 16 s), ucast (drop_bit 8 s), ucast s])"

definition crc64_Checksum :: "hash_order \<Rightarrow> bytes \<Rightarrow> u64 list option \<Rightarrow> panic + u64" where
  "crc64_Checksum ho data tab = crc64_update ho 0 tab data"

definition crc64_tableSum :: "hash_order \<Rightarrow> u64 list option \<Rightarrow> panic + u64" where
  "crc64_tableSum ho t =
     crc64_Checksum ho (case t of None \<Rightarrow> [] | Some t \<Rightarrow> foldl (BEAppendUint64 ho) [] t) (crc64_MakeTable crc64_ISO)"

definition crc64_magic :: bytes where "crc64_magic = bytes_of ''crc'' @ [2]"

definition crc64_marshaledSize :: nat where "crc64_marshaledSize = length crc64_magic + 8 + 8"

definition crc64_AppendBinary :: "hash_order \<Rightarrow> crc64_digest \<Rightarrow> bytes \<Rightarrow> panic + bytes \<times> string option" where
  "crc64_AppendBinary ho d b =
     (case crc64_tableSum ho (crc64_tab d) of Inl e \<Rightarrow> Inl e
      | Inr ts \<Rightarrow> Inr (BEAppendUint64 ho (BEAppendUint64 ho (b @ crc64_magic) ts) (crc64_crc d), None))"

definition crc64_MarshalBinary :: "hash_order \<Rightarrow> crc64_digest \<Rightarrow> panic + bytes \<times> string option" where
  "crc64_MarshalBinary ho d = crc64_AppendBinary ho d []"

definition crc64_UnmarshalBinary :: "hash_order \<Rightarrow> crc64_digest \<Rightarrow> bytes \<Rightarrow> panic + crc64_digest \<times> string option" where
  "crc64_UnmarshalBinary ho d b =
     check_state crc64_magic crc64_marshaledSize ''hash/crc64'' b d
       (case crc64_tableSum ho (crc64_tab d) of Inl e \<Rightarrow> Inl e
        | Inr ts \<Rightarrow>
            (case BEUint64 ho (drop 4 b) of Inl e \<Rightarrow> Inl e
             | Inr v \<Rightarrow>
                 if ts \<noteq> v then Inr (d, Some ''hash/crc64: tables do not match'')
                 else (case BEUint64 ho (drop 12 b) of Inl e \<Rightarrow> Inl e
                       | Inr c \<Rightarrow> Inr (d\<lparr>crc64_crc := c\<rparr>, None))))"

definition crc64_Clone :: "crc64_digest \<Rightarrow> crc64_digest \<times> string option" where "crc64_Clone d = (d, None)"

section \<open>Correctness of the update\<close>

lemma crc64_slice8: "slicing_ok poly h \<Longrightarrow> crc64_slice8 h c = crc_steps 64 poly c"
proof -
  assume h: "slicing_ok poly h"
  have "unat (drop_bit 56 c) = unat (ucast (drop_bit 56 c) :: u8)" using unat_lt2p [of c] by (simp add: word_nat)
  moreover have "c = le_word (LE_AppendUint64 [] c)" by (simp add: le_word_val AppendUint_length le_val_bytes)
  then have "crc_steps 64 poly c = crc_steps 64 poly (le_word (LE_AppendUint64 [] c))" by simp
  moreover have "crc_steps 64 poly (le_word (LE_AppendUint64 [] c)) =
     crc_steps 64 poly (ucast (ucast c :: u8)) XOR crc_steps 56 poly (ucast (ucast (drop_bit 8 c) :: u8)) XOR
     crc_steps 48 poly (ucast (ucast (drop_bit 16 c) :: u8)) XOR crc_steps 40 poly (ucast (ucast (drop_bit 24 c) :: u8)) XOR
     crc_steps 32 poly (ucast (ucast (drop_bit 32 c) :: u8)) XOR crc_steps 24 poly (ucast (ucast (drop_bit 40 c) :: u8)) XOR
     crc_steps 16 poly (ucast (ucast (drop_bit 48 c) :: u8)) XOR crc_steps 8 poly (ucast (ucast (drop_bit 56 c) :: u8))"
    using crc_steps_le_word [where poly = poly and n = 56] crc_steps_le_word [where poly = poly and n = 48]
      crc_steps_le_word [where poly = poly and n = 40] crc_steps_le_word [where poly = poly and n = 32]
      crc_steps_le_word [where poly = poly and n = 24] crc_steps_le_word [where poly = poly and n = 16]
      crc_steps_le_word [where poly = poly and n = 8] crc_steps_le_word [where poly = poly and n = 0]
    by (simp add: LE_AppendUint64_def del: le_word.simps(2)) 
  ultimately show ?thesis by (simp add: crc64_slice8_def slicing_ok_row [OF h] unat_and_ff)
qed

lemma crc64_tables:
  "slicing8TableISO ! 0 = crc_table crc64_ISO" "slicing8TableECMA ! 0 = crc_table crc64_ECMA"
  "crc64_MakeTable poly = Some (crc_table poly)"
  "crc64_helperTable (crc_table poly) n = Some h \<Longrightarrow> slicing_ok poly h"
proof -
  show t: "slicing8TableISO ! 0 = crc_table crc64_ISO" "slicing8TableECMA ! 0 = crc_table crc64_ECMA"
    by (simp_all add: slicing8TableISO_def slicing8TableECMA_def makeSlicingBy8Table_def crc64_makeTable_def slicing_tables_spec)
  show "crc64_MakeTable poly = Some (crc_table poly)" by (simp add: crc64_MakeTable_def t crc64_makeTable_def)
  assume h: "crc64_helperTable (crc_table poly) n = Some h"
  have "h = slicing_tables (crc_table poly)"
    using h unfolding crc64_helperTable_def t
    by (auto simp: slicing8TableISO_def slicing8TableECMA_def makeSlicingBy8Table_def crc64_makeTable_def split: if_splits)
  then show "slicing_ok poly h" by (simp add: slicing_tables_spec)
qed

context hash_byteorder
begin

lemma crc64_slicing_spec:
  assumes "slicing_ok poly h"
  shows "\<exists>c' q. crc64_slicing ho h c p = Inr (c', q) \<and> length q \<le> 8 \<and> foldl (crc_byte poly) c p = foldl (crc_byte poly) c' q"
proof (induction "length p" arbitrary: c p rule: less_induct)
  case less
  show ?case
  proof (cases "length p > 8")
    case False
    then show ?thesis by (subst crc64_slicing.simps) simp
  next
    case True
    have le: "LEUint64 ho p = Inr (le_word (take 8 p))" using True by (simp add: read64_le Uint_le_word)
    have s: "crc64_slice8 h (c XOR le_word (take 8 p)) = foldl (crc_byte poly) c (take 8 p)"
      using True crc_bytes_le_word [of "take 8 p" poly c] by (simp add: crc64_slice8 [OF assms])
    have "foldl (crc_byte poly) c p = foldl (crc_byte poly) (foldl (crc_byte poly) c (take 8 p)) (drop 8 p)"
      by (simp flip: foldl_append)
    then show ?thesis using True less [of "drop 8 p" "foldl (crc_byte poly) c (take 8 p)"]
      by (subst crc64_slicing.simps) (simp add: le s)
  qed
qed

lemma crc64_update_spec:
  "crc64_update ho c (Some (crc_table poly)) p = Inr (NOT (foldl (crc_byte poly) (NOT c) p))"
proof -
  have "\<exists>c' q. crc64_loop ho (Some (crc_table poly)) d p = Inr (c', q) \<and> foldl (crc_byte poly) d p = foldl (crc_byte poly) c' q" for d
  proof (cases "length p \<ge> 64")
    case False
    then show ?thesis by (subst crc64_loop.simps) simp
  next
    case True
    show ?thesis
    proof (cases "crc64_helperTable (crc_table poly) (length p)")
      case None
      then show ?thesis using True by (subst crc64_loop.simps) simp
    next
      case (Some h)
      then obtain c' q where "crc64_slicing ho h d p = Inr (c', q)" "length q \<le> 8" "foldl (crc_byte poly) d p = foldl (crc_byte poly) c' q"
        using crc64_slicing_spec [OF crc64_tables(4)] by blast
      then show ?thesis using True Some by (subst crc64_loop.simps) (simp add: crc64_loop.simps [of ho _ c'])
    qed
  qed
  then obtain c' q where "crc64_loop ho (Some (crc_table poly)) (NOT c) p = Inr (c', q)"
    "foldl (crc_byte poly) (NOT c) p = foldl (crc_byte poly) c' q" by blast
  moreover have "crc_table_byte (crc_table poly) = crc_byte poly" by (simp add: crc_table_byte fun_eq_iff)
  ultimately show ?thesis by (simp add: crc64_update_def crc64_rest_def)
qed

end

section \<open>Marshalling\<close>

text \<open>The digest after a write that returns.\<close>

definition crc64_written :: "hash_order \<Rightarrow> crc64_digest \<Rightarrow> bytes \<Rightarrow> crc64_digest" where
  "crc64_written ho d p = (case crc64_Write ho d p of Inl _ \<Rightarrow> d | Inr (d, _) \<Rightarrow> d)"

definition crc64_valid :: "crc64_digest \<Rightarrow> bool" where
  "crc64_valid d \<longleftrightarrow> (\<exists>poly. crc64_tab d = crc64_MakeTable poly)"

definition crc64_same_table :: "crc64_digest \<Rightarrow> crc64_digest \<Rightarrow> bool" where
  "crc64_same_table d e \<longleftrightarrow> crc64_tab d = crc64_tab e"

context hash_byteorder
begin

lemma crc64_Write_spec:
  "crc64_tab d = crc64_MakeTable poly \<Longrightarrow>
     crc64_Write ho d p = Inr (d\<lparr>crc64_crc := NOT (foldl (crc_byte poly) (NOT (crc64_crc d)) p)\<rparr>, length p, None)"
  by (simp add: crc64_Write_def crc64_tables crc64_update_spec)

lemma crc64_tableSum_total: "\<exists>ts. crc64_tableSum ho t = Inr ts"
  by (simp add: crc64_tableSum_def crc64_Checksum_def crc64_tables crc64_update_spec)

lemma crc64_running: "running_hash (crc64_written ho) crc64_valid"
proof
  fix d p q
  assume "crc64_valid d"
  then obtain poly where t: "crc64_tab d = crc64_MakeTable poly" by (auto simp: crc64_valid_def)
  then have w: "crc64_written ho d p = d\<lparr>crc64_crc := NOT (foldl (crc_byte poly) (NOT (crc64_crc d)) p)\<rparr>" for p
    by (simp add: crc64_written_def crc64_Write_spec)
  show "crc64_valid (crc64_written ho d p)" using t by (auto simp: crc64_valid_def w)
  show "crc64_written ho d [] = d" by (simp add: w)
  show "crc64_written ho (crc64_written ho d p) q = crc64_written ho d (p @ q)"
    using t by (simp add: w) (simp add: crc64_written_def crc64_Write_spec)
qed

end

lemma crc64_frame: "length crc64_magic = 4" "crc64_marshaledSize = 20"
  by (simp_all add: crc64_marshaledSize_def crc64_magic_def bytes_of_def)

sublocale hash_byteorder \<subseteq> crc64: resumable_hash "crc64_written ho" crc64_valid crc64_same_table "crc64_MarshalBinary ho" "crc64_UnmarshalBinary ho"
proof (intro resumable_hash.intro resumable_hash_axioms.intro crc64_running)
  fix d e :: crc64_digest and b p :: bytes
  show "crc64_same_table d (crc64_written ho e p)" if "crc64_same_table d e"
    using that by (auto simp: crc64_same_table_def crc64_written_def crc64_Write_def split: sum.splits)
  obtain ts where ts: "crc64_tableSum ho (crc64_tab d) = Inr ts" using crc64_tableSum_total by blast
  show "\<exists>b. crc64_MarshalBinary ho d = Inr (b, None)"
    by (simp add: crc64_MarshalBinary_def crc64_AppendBinary_def ts)
  show "crc64_UnmarshalBinary ho d b = Inr (e, None)" if "crc64_same_table d e" "crc64_MarshalBinary ho e = Inr (b, None)"
  proof -
    have "b = crc64_magic @ BEAppendUint64 ho [] ts @ BEAppendUint64 ho [] (crc64_crc e)"
      using that ts append_split(2) [of "BEAppendUint64 ho crc64_magic ts"] append_split(2) [of crc64_magic ts]
      by (simp add: crc64_MarshalBinary_def crc64_AppendBinary_def crc64_same_table_def)
    moreover have "d\<lparr>crc64_crc := crc64_crc e\<rparr> = e" using that(1) by (simp add: crc64_same_table_def)
    ultimately show ?thesis
      using read_append(2) [of "crc64_crc e" "[]"]
      by (simp add: crc64_UnmarshalBinary_def check_state_ok crc64_frame ts read_append)
  qed
  show "\<exists>e err. crc64_UnmarshalBinary ho d b = Inr (e, err) \<and> (err \<noteq> None \<longrightarrow> e = d)"
    unfolding crc64_UnmarshalBinary_def
  proof (rule check_state_total)
    assume "length b = crc64_marshaledSize"
    then obtain v w where "BEUint64 ho (drop 4 b) = Inr v" "BEUint64 ho (drop 12 b) = Inr w"
      using reads_total(2) [of "drop 4 b"] reads_total(2) [of "drop 12 b"] by (auto simp: crc64_frame)
    then show "\<exists>e err. (case crc64_tableSum ho (crc64_tab d) of Inl e \<Rightarrow> Inl e
        | Inr ts \<Rightarrow>
            (case BEUint64 ho (drop 4 b) of Inl e \<Rightarrow> Inl e
             | Inr v \<Rightarrow>
                 if ts \<noteq> v then Inr (d, Some ''hash/crc64: tables do not match'')
                 else (case BEUint64 ho (drop 12 b) of Inl e \<Rightarrow> Inl e
                       | Inr c \<Rightarrow> Inr (d\<lparr>crc64_crc := c\<rparr>, None)))) = Inr (e, err) \<and> (err \<noteq> None \<longrightarrow> e = d)"
      by (simp add: ts)
  qed
qed

context hash_byteorder
begin

lemmas crc64_resumes = crc64.resumes

end

section \<open>Properties\<close>

text \<open>
  C33: CRC-64. With a table of \<open>MakeTable\<close>, \<open>Update\<close> and every write compute the bit-serial shift register of the
  polynomial over the bits of the message, whichever of the byte-wise and the slicing-by-8 loops run. With a
  polynomial of full degree, such as the two predefined ones, the checksums of two messages that differ in a burst of
  at most 64 bits are different.
\<close>

theorem crc64_register:
  assumes "hash_byteorder ho"
  shows "crc64_Update ho c (crc64_MakeTable poly) p = Inr (NOT (crc_bits poly (NOT c) (message_bits p))) \<and>
    crc64_Write ho \<lparr>crc64_crc = c, crc64_tab = crc64_MakeTable poly\<rparr> p =
      Inr (\<lparr>crc64_crc = NOT (crc_bits poly (NOT c) (message_bits p)), crc64_tab = crc64_MakeTable poly\<rparr>, length p, None) \<and>
    bit crc64_ISO 63 \<and> bit crc64_ECMA 63 \<and>
    (bit poly 63 \<and> burst 64 (message_bits p) (message_bits q) \<longrightarrow>
       crc64_Checksum ho p (crc64_MakeTable poly) \<noteq> crc64_Checksum ho q (crc64_MakeTable poly))"
proof (intro conjI impI)
  have u: "crc64_update ho c (crc64_MakeTable poly) p = Inr (NOT (crc_bits poly (NOT c) (message_bits p)))" for c p
    using hash_byteorder.crc64_update_spec [OF assms] by (simp add: crc64_tables crc_bits_message)
  then show "crc64_Update ho c (crc64_MakeTable poly) p = Inr (NOT (crc_bits poly (NOT c) (message_bits p)))"
    "crc64_Write ho \<lparr>crc64_crc = c, crc64_tab = crc64_MakeTable poly\<rparr> p =
      Inr (\<lparr>crc64_crc = NOT (crc_bits poly (NOT c) (message_bits p)), crc64_tab = crc64_MakeTable poly\<rparr>, length p, None)"
    by (simp_all add: crc64_Update_def crc64_Write_def)
  show "bit crc64_ISO 63" "bit crc64_ECMA 63" by (simp_all add: crc64_ISO_def crc64_ECMA_def)
  assume "bit poly 63 \<and> burst 64 (message_bits p) (message_bits q)"
  then show "crc64_Checksum ho p (crc64_MakeTable poly) \<noteq> crc64_Checksum ho q (crc64_MakeTable poly)"
    using crc_bits_detect [of poly "message_bits p" "message_bits q"] by (simp add: crc64_Checksum_def u)
qed

theorem crc64_register_witness:
  "hash_byteorder binary_hash_order \<and> bit crc64_ECMA 63 \<and> burst 64 (message_bits [0x31, 0x32]) (message_bits [0x31, 0x33]) \<and>
   crc64_Checksum binary_hash_order [0x31, 0x32] (crc64_MakeTable crc64_ECMA) \<noteq>
   crc64_Checksum binary_hash_order [0x31, 0x33] (crc64_MakeTable crc64_ECMA)"
proof -
  have "burst 64 (message_bits [0x31, 0x32]) (message_bits [0x31, 0x33])"
    unfolding burst_def by (intro conjI exI [of _ 0]) (simp_all add: upt_bytes)
  then show ?thesis
    using crc64_register [OF binary_hash.hash_byteorder_axioms, of 0 crc64_ECMA "[0x31, 0x32]" "[0x31, 0x33]"]
      binary_hash.hash_byteorder_axioms by simp
qed

end
