(* ===== verification/Hash_Crc32.thy ===== *)
theory Hash_Crc32
  imports Hash_Crc
begin

text \<open>
  Package \<open>hash/crc32\<close>: \<open>src/hash/crc32/crc32.go\<close> and \<open>crc32_generic.go\<close>, in the build without an
  architecture-specific implementation (\<open>crc32_otherarch.go\<close>). The package compares table pointers, so a pointer is
  modelled by the object it refers to: nil, one of the two tables of the package, or any other table, with its contents.
  The variables that the package initialises lazily are the record \<open>crc32_globals\<close>, passed through every operation;
  a \<open>sync.OnceFunc\<close> is a flag of that record. Function values are constructors of \<open>crc32_fn\<close>.
\<close>

section \<open>The generic algorithms\<close>

definition crc32_simplePopulateTable :: "u32 \<Rightarrow> u32 list" where
  "crc32_simplePopulateTable poly = crc_table poly"

definition crc32_simpleMakeTable :: "u32 \<Rightarrow> u32 list" where
  "crc32_simpleMakeTable poly = crc32_simplePopulateTable poly"

definition crc32_simpleUpdate :: "u32 \<Rightarrow> u32 list option \<Rightarrow> bytes \<Rightarrow> panic + u32" where
  "crc32_simpleUpdate crc tab p =
     (case tab of None \<Rightarrow> if p = [] then Inr crc else Inl NilDereference
      | Some t \<Rightarrow> Inr (NOT (foldl (crc_table_byte t) (NOT crc) p)))"

definition slicing8Cutoff :: nat where "slicing8Cutoff = 16"

definition crc32_slicingMakeTable :: "u32 \<Rightarrow> u32 list list" where
  "crc32_slicingMakeTable poly = slicing_tables (crc32_simplePopulateTable poly)"

definition crc32_slice8 :: "u32 list list \<Rightarrow> u32 \<Rightarrow> bytes \<Rightarrow> u32" where
  "crc32_slice8 tab crc p =
     tab ! 0 ! unat (p ! 7) XOR tab ! 1 ! unat (p ! 6) XOR tab ! 2 ! unat (p ! 5) XOR tab ! 3 ! unat (p ! 4) XOR
     tab ! 4 ! unat (drop_bit 24 crc) XOR tab ! 5 ! unat (drop_bit 16 crc AND 0xff) XOR
     tab ! 6 ! unat (drop_bit 8 crc AND 0xff) XOR tab ! 7 ! unat (crc AND 0xff)"

function crc32_slicing :: "hash_order \<Rightarrow> u32 list list \<Rightarrow> u32 \<Rightarrow> bytes \<Rightarrow> panic + u32 \<times> bytes" where
  "crc32_slicing ho tab crc p =
     (if length p > 8 then
        (case LEUint32 ho p of Inl e \<Rightarrow> Inl e
         | Inr w \<Rightarrow> crc32_slicing ho tab (crc32_slice8 tab (crc XOR w) p) (drop 8 p))
      else Inr (crc, p))"
  by auto
termination by (relation "measure (\<lambda>(ho, tab, crc, p). length p)") simp_all

declare crc32_slicing.simps [simp del]

definition crc32_slicingUpdate :: "hash_order \<Rightarrow> u32 \<Rightarrow> u32 list list \<Rightarrow> bytes \<Rightarrow> panic + u32" where
  "crc32_slicingUpdate ho crc tab p =
     (case (if length p \<ge> slicing8Cutoff then
              (case crc32_slicing ho tab (NOT crc) p of Inl e \<Rightarrow> Inl e | Inr (crc, p) \<Rightarrow> Inr (NOT crc, p))
            else Inr (crc, p)) of
        Inl e \<Rightarrow> Inl e
      | Inr (crc, p) \<Rightarrow> if length p = 0 then Inr crc else crc32_simpleUpdate crc (Some (tab ! 0)) p)"

section \<open>The interface to the architecture, and the variables of the package\<close>

definition archAvailableIEEE :: bool where "archAvailableIEEE = False"

definition archInitIEEE :: "panic + unit" where "archInitIEEE = Inl (PanicMsg ''not available'')"

definition archUpdateIEEE :: "u32 \<Rightarrow> bytes \<Rightarrow> panic + u32" where
  "archUpdateIEEE crc p = Inl (PanicMsg ''not available'')"

definition archAvailableCastagnoli :: bool where "archAvailableCastagnoli = False"

definition archInitCastagnoli :: "panic + unit" where "archInitCastagnoli = Inl (PanicMsg ''not available'')"

definition archUpdateCastagnoli :: "u32 \<Rightarrow> bytes \<Rightarrow> panic + u32" where
  "archUpdateCastagnoli crc p = Inl (PanicMsg ''not available'')"

definition crc32_IEEE :: u32 where "crc32_IEEE = 0xedb88320"

definition crc32_Castagnoli :: u32 where "crc32_Castagnoli = 0x82f63b78"

definition crc32_Koopman :: u32 where "crc32_Koopman = 0xeb31d82e"

datatype table_ptr = NilTable | IEEETable | CastagnoliTable | OtherTable "u32 list"

datatype crc32_fn = ArchCastagnoli | SlicingCastagnoli | ArchIEEE | SlicingIEEE

record crc32_globals =
  castagnoliTable :: table_ptr
  castagnoliTable8 :: "u32 list list option"
  updateCastagnoli :: "crc32_fn option"
  haveCastagnoli :: bool
  castagnoliDone :: bool
  ieeeTable8 :: "u32 list list option"
  updateIEEE :: "crc32_fn option"
  ieeeDone :: bool

definition crc32_initial :: crc32_globals where
  "crc32_initial = \<lparr>castagnoliTable = NilTable, castagnoliTable8 = None, updateCastagnoli = None, haveCastagnoli = False,
     castagnoliDone = False, ieeeTable8 = None, updateIEEE = None, ieeeDone = False\<rparr>"

text \<open>The table a pointer refers to.\<close>

fun table_of :: "table_ptr \<Rightarrow> u32 list option" where
  "table_of NilTable = None"
| "table_of IEEETable = Some (crc32_simpleMakeTable crc32_IEEE)"
| "table_of CastagnoliTable = Some (crc32_simpleMakeTable crc32_Castagnoli)"
| "table_of (OtherTable t) = Some t"

definition castagnoliInitOnce :: "crc32_globals \<Rightarrow> panic + crc32_globals" where
  "castagnoliInitOnce g =
     (if castagnoliDone g then Inr g
      else
        (let g = g\<lparr>castagnoliDone := True, castagnoliTable := CastagnoliTable\<rparr>
         in if archAvailableCastagnoli then
              (case archInitCastagnoli of Inl e \<Rightarrow> Inl e
               | Inr _ \<Rightarrow> Inr (g\<lparr>updateCastagnoli := Some ArchCastagnoli, haveCastagnoli := True\<rparr>))
            else
              Inr (g\<lparr>castagnoliTable8 := Some (crc32_slicingMakeTable crc32_Castagnoli),
                     updateCastagnoli := Some SlicingCastagnoli, haveCastagnoli := True\<rparr>)))"

definition ieeeInitOnce :: "crc32_globals \<Rightarrow> panic + crc32_globals" where
  "ieeeInitOnce g =
     (if ieeeDone g then Inr g
      else
        (let g = g\<lparr>ieeeDone := True\<rparr>
         in if archAvailableIEEE then
              (case archInitIEEE of Inl e \<Rightarrow> Inl e | Inr _ \<Rightarrow> Inr (g\<lparr>updateIEEE := Some ArchIEEE\<rparr>))
            else Inr (g\<lparr>ieeeTable8 := Some (crc32_slicingMakeTable crc32_IEEE), updateIEEE := Some SlicingIEEE\<rparr>)))"

text \<open>A call of a function value; the closures read the slicing table from its variable.\<close>

definition crc32_call :: "hash_order \<Rightarrow> crc32_globals \<Rightarrow> crc32_fn option \<Rightarrow> u32 \<Rightarrow> bytes \<Rightarrow> panic + u32" where
  "crc32_call ho g f crc p =
     (case f of
        None \<Rightarrow> Inl NilDereference
      | Some ArchCastagnoli \<Rightarrow> archUpdateCastagnoli crc p
      | Some ArchIEEE \<Rightarrow> archUpdateIEEE crc p
      | Some SlicingCastagnoli \<Rightarrow>
          (case castagnoliTable8 g of None \<Rightarrow> Inl NilDereference | Some t \<Rightarrow> crc32_slicingUpdate ho crc t p)
      | Some SlicingIEEE \<Rightarrow>
          (case ieeeTable8 g of None \<Rightarrow> Inl NilDereference | Some t \<Rightarrow> crc32_slicingUpdate ho crc t p))"

section \<open>The package\<close>

definition crc32_MakeTable :: "u32 \<Rightarrow> crc32_globals \<Rightarrow> panic + table_ptr \<times> crc32_globals" where
  "crc32_MakeTable poly g =
     (if poly = crc32_IEEE then (case ieeeInitOnce g of Inl e \<Rightarrow> Inl e | Inr g \<Rightarrow> Inr (IEEETable, g))
      else if poly = crc32_Castagnoli then
        (case castagnoliInitOnce g of Inl e \<Rightarrow> Inl e | Inr g \<Rightarrow> Inr (castagnoliTable g, g))
      else Inr (OtherTable (crc32_simpleMakeTable poly), g))"

record crc32_digest =
  crc32_crc :: u32
  crc32_tab :: table_ptr

definition crc32_New :: "table_ptr \<Rightarrow> crc32_globals \<Rightarrow> panic + crc32_digest \<times> crc32_globals" where
  "crc32_New tab g =
     (case (if tab = IEEETable then ieeeInitOnce g else Inr g) of Inl e \<Rightarrow> Inl e
      | Inr g \<Rightarrow> Inr (\<lparr>crc32_crc = 0, crc32_tab = tab\<rparr>, g))"

definition crc32_NewIEEE :: "crc32_globals \<Rightarrow> panic + crc32_digest \<times> crc32_globals" where
  "crc32_NewIEEE g = crc32_New IEEETable g"

definition crc32_Size :: nat where "crc32_Size = 4"

definition crc32_BlockSize :: nat where "crc32_BlockSize = 1"

definition crc32_Reset :: "crc32_digest \<Rightarrow> crc32_digest" where "crc32_Reset d = d\<lparr>crc32_crc := 0\<rparr>"

definition crc32_update :: "hash_order \<Rightarrow> crc32_globals \<Rightarrow> u32 \<Rightarrow> table_ptr \<Rightarrow> bytes \<Rightarrow> bool \<Rightarrow> panic + u32 \<times> crc32_globals" where
  "crc32_update ho g crc tab p checkInitIEEE =
     (if haveCastagnoli g \<and> tab = castagnoliTable g then
        (case crc32_call ho g (updateCastagnoli g) crc p of Inl e \<Rightarrow> Inl e | Inr c \<Rightarrow> Inr (c, g))
      else if tab = IEEETable then
        (case (if checkInitIEEE then ieeeInitOnce g else Inr g) of Inl e \<Rightarrow> Inl e
         | Inr g \<Rightarrow> (case crc32_call ho g (updateIEEE g) crc p of Inl e \<Rightarrow> Inl e | Inr c \<Rightarrow> Inr (c, g)))
      else (case crc32_simpleUpdate crc (table_of tab) p of Inl e \<Rightarrow> Inl e | Inr c \<Rightarrow> Inr (c, g)))"

definition crc32_Update :: "hash_order \<Rightarrow> crc32_globals \<Rightarrow> u32 \<Rightarrow> table_ptr \<Rightarrow> bytes \<Rightarrow> panic + u32 \<times> crc32_globals" where
  "crc32_Update ho g crc tab p = crc32_update ho g crc tab p True"

definition crc32_Write :: "hash_order \<Rightarrow> crc32_globals \<Rightarrow> crc32_digest \<Rightarrow> bytes \<Rightarrow> panic + (crc32_digest \<times> nat \<times> io_error option) \<times> crc32_globals" where
  "crc32_Write ho g d p =
     (case crc32_update ho g (crc32_crc d) (crc32_tab d) p False of Inl e \<Rightarrow> Inl e
      | Inr (c, g) \<Rightarrow> Inr ((d\<lparr>crc32_crc := c\<rparr>, length p, None), g))"

definition crc32_Sum32 :: "crc32_digest \<Rightarrow> u32" where "crc32_Sum32 d = crc32_crc d"

definition crc32_Sum :: "crc32_digest \<Rightarrow> bytes \<Rightarrow> bytes" where
  "crc32_Sum d b =
     (let s = crc32_Sum32 d in b @ [ucast (drop_bit 24 s), ucast (drop_bit 16 s), ucast (drop_bit 8 s), ucast s])"

definition crc32_Checksum :: "hash_order \<Rightarrow> crc32_globals \<Rightarrow> bytes \<Rightarrow> table_ptr \<Rightarrow> panic + u32 \<times> crc32_globals" where
  "crc32_Checksum ho g data tab = crc32_Update ho g 0 tab data"

definition crc32_ChecksumIEEE :: "hash_order \<Rightarrow> crc32_globals \<Rightarrow> bytes \<Rightarrow> panic + u32 \<times> crc32_globals" where
  "crc32_ChecksumIEEE ho g data =
     (case ieeeInitOnce g of Inl e \<Rightarrow> Inl e
      | Inr g \<Rightarrow> (case crc32_call ho g (updateIEEE g) 0 data of Inl e \<Rightarrow> Inl e | Inr c \<Rightarrow> Inr (c, g)))"

definition crc32_tableSum :: "hash_order \<Rightarrow> crc32_globals \<Rightarrow> table_ptr \<Rightarrow> panic + u32 \<times> crc32_globals" where
  "crc32_tableSum ho g t =
     crc32_ChecksumIEEE ho g (case table_of t of None \<Rightarrow> [] | Some t \<Rightarrow> foldl (BEAppendUint32 ho) [] t)"

definition crc32_magic :: bytes where "crc32_magic = bytes_of ''crc'' @ [1]"

definition crc32_marshaledSize :: nat where "crc32_marshaledSize = length crc32_magic + 4 + 4"

definition crc32_AppendBinary :: "hash_order \<Rightarrow> crc32_globals \<Rightarrow> crc32_digest \<Rightarrow> bytes \<Rightarrow> panic + (bytes \<times> string option) \<times> crc32_globals" where
  "crc32_AppendBinary ho g d b =
     (case crc32_tableSum ho g (crc32_tab d) of Inl e \<Rightarrow> Inl e
      | Inr (ts, g) \<Rightarrow> Inr ((BEAppendUint32 ho (BEAppendUint32 ho (b @ crc32_magic) ts) (crc32_crc d), None), g))"

definition crc32_MarshalBinary :: "hash_order \<Rightarrow> crc32_globals \<Rightarrow> crc32_digest \<Rightarrow> panic + (bytes \<times> string option) \<times> crc32_globals" where
  "crc32_MarshalBinary ho g d = crc32_AppendBinary ho g d []"

definition crc32_UnmarshalBinary :: "hash_order \<Rightarrow> crc32_globals \<Rightarrow> crc32_digest \<Rightarrow> bytes \<Rightarrow> panic + (crc32_digest \<times> crc32_globals) \<times> string option" where
  "crc32_UnmarshalBinary ho g d b =
     check_state crc32_magic crc32_marshaledSize ''hash/crc32'' b (d, g)
       (case crc32_tableSum ho g (crc32_tab d) of Inl e \<Rightarrow> Inl e
        | Inr (ts, g) \<Rightarrow>
            (case BEUint32 ho (drop 4 b) of Inl e \<Rightarrow> Inl e
             | Inr v \<Rightarrow>
                 if ts \<noteq> v then Inr ((d, g), Some ''hash/crc32: tables do not match'')
                 else (case BEUint32 ho (drop 8 b) of Inl e \<Rightarrow> Inl e
                       | Inr c \<Rightarrow> Inr ((d\<lparr>crc32_crc := c\<rparr>, g), None))))"

definition crc32_Clone :: "crc32_digest \<Rightarrow> crc32_digest \<times> string option" where "crc32_Clone d = (d, None)"

section \<open>Correctness of the slicing update\<close>

lemma crc32_slice8:
  assumes "slicing_ok poly h" "8 \<le> length p"
  shows "crc32_slice8 h c p = crc_steps 64 poly c XOR crc_steps 32 poly (le_word (take 4 (drop 4 p)))"
proof -
  have t: "take 4 (drop 4 p) = [p ! 4, p ! 5, p ! 6, p ! 7]"
    using assms(2) take_nths [of 4 "drop 4 p"] by (simp add: upt_bytes)
  have u: "unat (drop_bit 24 c) = unat (ucast (drop_bit 24 c) :: u8)" using unat_lt2p [of c] by (simp add: word_nat)
  have c: "c = le_word (LE_AppendUint32 [] c)" by (simp add: le_word_val AppendUint_length le_val_bytes)
  have s: "crc_steps 64 poly (le_word (LE_AppendUint32 [] c)) =
     crc_steps 64 poly (ucast (ucast c :: u8)) XOR crc_steps 56 poly (ucast (ucast (drop_bit 8 c) :: u8)) XOR
     crc_steps 48 poly (ucast (ucast (drop_bit 16 c) :: u8)) XOR crc_steps 40 poly (ucast (ucast (drop_bit 24 c) :: u8))"
    "crc_steps 32 poly (le_word [p ! 4, p ! 5, p ! 6, p ! 7]) =
     crc_steps 32 poly (ucast (p ! 4)) XOR crc_steps 24 poly (ucast (p ! 5)) XOR
     crc_steps 16 poly (ucast (p ! 6)) XOR crc_steps 8 poly (ucast (p ! 7))"
    using crc_steps_le_word [where poly = poly and n = 56] crc_steps_le_word [where poly = poly and n = 48]
      crc_steps_le_word [where poly = poly and n = 40] crc_steps_le_word [where poly = poly and n = 32]
      crc_steps_le_word [where poly = poly and n = 24] crc_steps_le_word [where poly = poly and n = 16]
      crc_steps_le_word [where poly = poly and n = 8] crc_steps_le_word [where poly = poly and n = 0]
    by (simp_all add: LE_AppendUint32_def del: le_word.simps(2))
  have r: "h ! 0 ! unat x = crc_steps 8 poly (ucast x)" "h ! 1 ! unat x = crc_steps 16 poly (ucast x)"
    "h ! 2 ! unat x = crc_steps 24 poly (ucast x)" "h ! 3 ! unat x = crc_steps 32 poly (ucast x)"
    "h ! 4 ! unat x = crc_steps 40 poly (ucast x)" "h ! 5 ! unat x = crc_steps 48 poly (ucast x)"
    "h ! 6 ! unat x = crc_steps 56 poly (ucast x)" "h ! 7 ! unat x = crc_steps 64 poly (ucast x)" for x :: u8
    using slicing_ok_row [OF assms(1), of _ x] by simp_all
  have "crc_steps 64 poly c = crc_steps 64 poly (le_word (LE_AppendUint32 [] c))" using c by simp
  then show ?thesis
    unfolding crc32_slice8_def t s u unat_and_ff r by (simp add: s xor.assoc xor.commute xor.left_commute)
qed

context hash_byteorder
begin

lemma crc32_slicing_spec:
  assumes "slicing_ok poly h"
  shows "\<exists>c' q. crc32_slicing ho h c p = Inr (c', q) \<and> length q \<le> 8 \<and> foldl (crc_byte poly) c p = foldl (crc_byte poly) c' q"
proof (induction "length p" arbitrary: c p rule: less_induct)
  case less
  show ?case
  proof (cases "length p > 8")
    case False
    then show ?thesis by (subst crc32_slicing.simps) simp
  next
    case True
    have le: "LEUint32 ho p = Inr (le_word (take 4 p))" using True by (simp add: read32_le Uint_le_word)
    have "foldl (crc_byte poly) c (take 4 p @ take 4 (drop 4 p)) =
        crc_steps 64 poly (c XOR le_word (take 4 p)) XOR crc_steps 32 poly (le_word (take 4 (drop 4 p)))"
      using True crc_bytes_le_word [of "take 4 p" poly c]
        crc_bytes_le_word [of "take 4 (drop 4 p)" poly "crc_steps 32 poly (c XOR le_word (take 4 p))"]
      by (simp add: crc_steps_xor flip: crc_steps_add)
    then have s: "crc32_slice8 h (c XOR le_word (take 4 p)) p = foldl (crc_byte poly) c (take 8 p)"
      using True crc32_slice8 [OF assms, of p] take_add [of 4 4 p] by simp
    have "foldl (crc_byte poly) c p = foldl (crc_byte poly) (foldl (crc_byte poly) c (take 8 p)) (drop 8 p)"
      by (simp flip: foldl_append)
    then show ?thesis using True less [of "drop 8 p" "foldl (crc_byte poly) c (take 8 p)"]
      by (subst crc32_slicing.simps) (simp add: le s)
  qed
qed

lemma crc32_slicingUpdate_spec:
  "crc32_slicingUpdate ho c (crc32_slicingMakeTable poly) p = Inr (NOT (foldl (crc_byte poly) (NOT c) p))"
proof -
  have t: "crc_table_byte (crc_table poly) = crc_byte poly" by (simp add: crc_table_byte fun_eq_iff)
  have ok: "slicing_ok poly (crc32_slicingMakeTable poly)" "crc32_slicingMakeTable poly ! 0 = crc_table poly"
    by (simp_all add: crc32_slicingMakeTable_def crc32_simplePopulateTable_def slicing_tables_spec)
  obtain c' q where s: "crc32_slicing ho (crc32_slicingMakeTable poly) (NOT c) p = Inr (c', q)"
    "foldl (crc_byte poly) (NOT c) p = foldl (crc_byte poly) c' q"
    using crc32_slicing_spec [OF ok(1)] by blast
  have "length p \<ge> slicing8Cutoff \<Longrightarrow> ?thesis"
    by (simp add: crc32_slicingUpdate_def crc32_simpleUpdate_def ok t s)
  moreover have "\<not> length p \<ge> slicing8Cutoff \<Longrightarrow> ?thesis"
    by (simp add: crc32_slicingUpdate_def crc32_simpleUpdate_def ok t)
  ultimately show ?thesis by blast
qed

end

section \<open>The lazily initialised variables\<close>

definition crc32_inv :: "crc32_globals \<Rightarrow> bool" where
  "crc32_inv g \<longleftrightarrow>
     haveCastagnoli g = castagnoliDone g \<and>
     (castagnoliDone g \<longrightarrow> castagnoliTable g = CastagnoliTable \<and> updateCastagnoli g = Some SlicingCastagnoli \<and>
        castagnoliTable8 g = Some (crc32_slicingMakeTable crc32_Castagnoli)) \<and>
     (ieeeDone g \<longrightarrow> updateIEEE g = Some SlicingIEEE \<and> ieeeTable8 g = Some (crc32_slicingMakeTable crc32_IEEE))"

text \<open>The pointers that \<open>MakeTable\<close> can have returned for a polynomial so far, and \<open>IEEETable\<close>.\<close>

definition crc32_table_for :: "crc32_globals \<Rightarrow> u32 \<Rightarrow> table_ptr \<Rightarrow> bool" where
  "crc32_table_for g poly tab \<longleftrightarrow>
     (case tab of NilTable \<Rightarrow> False
      | IEEETable \<Rightarrow> poly = crc32_IEEE
      | CastagnoliTable \<Rightarrow> poly = crc32_Castagnoli \<and> castagnoliDone g
      | OtherTable t \<Rightarrow> t = crc_table poly)"

lemmas crc32_init_defs = ieeeInitOnce_def castagnoliInitOnce_def archAvailableIEEE_def archAvailableCastagnoli_def

lemma crc32_inits:
  assumes "crc32_inv g"
  shows "\<exists>g'. ieeeInitOnce g = Inr g' \<and> crc32_inv g' \<and> ieeeDone g' \<and> castagnoliDone g' = castagnoliDone g \<and> (ieeeDone g \<longrightarrow> g' = g)"
    "\<exists>g'. castagnoliInitOnce g = Inr g' \<and> crc32_inv g' \<and> castagnoliDone g' \<and> ieeeDone g' = ieeeDone g"
  using assms by (simp_all add: crc32_init_defs crc32_inv_def)

lemma crc32_MakeTable_spec:
  assumes "crc32_inv g"
  shows "\<exists>tab g'. crc32_MakeTable poly g = Inr (tab, g') \<and> crc32_inv g' \<and> crc32_table_for g' poly tab \<and>
    (castagnoliDone g \<longrightarrow> castagnoliDone g') \<and> (ieeeDone g \<or> tab = IEEETable \<longrightarrow> ieeeDone g')"
proof (cases "poly = crc32_Castagnoli")
  case True
  obtain g' where "castagnoliInitOnce g = Inr g'" "crc32_inv g'" "castagnoliDone g'" "ieeeDone g' = ieeeDone g"
    using crc32_inits(2) [OF assms] by blast
  then show ?thesis using True
    by (simp add: crc32_MakeTable_def crc32_inv_def crc32_table_for_def crc32_IEEE_def crc32_Castagnoli_def)
next
  case False
  then show ?thesis using crc32_inits(1) [OF assms] assms
    by (auto simp: crc32_MakeTable_def crc32_table_for_def crc32_simpleMakeTable_def crc32_simplePopulateTable_def)
qed

context hash_byteorder
begin

text \<open>Every update is the register; without the check it needs an initialised IEEE implementation.\<close>

lemma crc32_update_spec:
  assumes "crc32_inv g" "crc32_table_for g poly tab" "chk \<or> tab \<noteq> IEEETable \<or> ieeeDone g"
  shows "\<exists>g'. crc32_update ho g c tab p chk = Inr (NOT (foldl (crc_byte poly) (NOT c) p), g') \<and> crc32_inv g' \<and>
    castagnoliDone g' = castagnoliDone g \<and> (ieeeDone g \<or> \<not> chk \<longrightarrow> g' = g)"
proof (cases tab)
  case IEEETable
  have "\<exists>g'. (if chk then ieeeInitOnce g else Inr g) = Inr g' \<and> crc32_inv g' \<and> ieeeDone g' \<and>
    castagnoliDone g' = castagnoliDone g \<and> (ieeeDone g \<or> \<not> chk \<longrightarrow> g' = g)"
  proof (cases chk)
    case True
    then show ?thesis using crc32_inits(1) [OF assms(1)] by simp
  next
    case False
    then show ?thesis using assms IEEETable by simp
  qed
  then obtain g' where "(if chk then ieeeInitOnce g else Inr g) = Inr g'" "crc32_inv g'" "ieeeDone g'"
    "castagnoliDone g' = castagnoliDone g" "ieeeDone g \<or> \<not> chk \<longrightarrow> g' = g" by blast
  then show ?thesis using assms IEEETable
    by (auto simp: crc32_update_def crc32_call_def crc32_inv_def crc32_table_for_def crc32_slicingUpdate_spec)
next
  case CastagnoliTable
  then show ?thesis using assms
    by (auto simp: crc32_update_def crc32_call_def crc32_inv_def crc32_table_for_def crc32_slicingUpdate_spec)
next
  case (OtherTable t)
  have "crc_table_byte (crc_table poly) = crc_byte poly" by (simp add: crc_table_byte fun_eq_iff)
  then show ?thesis using assms OtherTable
    by (auto simp: crc32_update_def crc32_simpleUpdate_def crc32_inv_def crc32_table_for_def)
qed (use assms in \<open>simp add: crc32_table_for_def\<close>)

lemma crc32_tableSum_total:
  assumes "crc32_inv g"
  shows "\<exists>g' ts. crc32_tableSum ho g t = Inr (ts, g') \<and> crc32_inv g' \<and> ieeeDone g' \<and> castagnoliDone g' = castagnoliDone g \<and>
    (ieeeDone g \<longrightarrow> g' = g)"
proof -
  obtain g' where "ieeeInitOnce g = Inr g'" "crc32_inv g'" "ieeeDone g'" "castagnoliDone g' = castagnoliDone g" "ieeeDone g \<longrightarrow> g' = g"
    using crc32_inits(1) [OF assms] by blast
  then show ?thesis
    by (auto simp: crc32_tableSum_def crc32_ChecksumIEEE_def crc32_inv_def crc32_call_def crc32_slicingUpdate_spec)
qed

end

section \<open>Marshalling\<close>

text \<open>The digest after a write that returns, and the results of marshalling.\<close>

definition crc32_written :: "hash_order \<Rightarrow> crc32_globals \<Rightarrow> crc32_digest \<Rightarrow> bytes \<Rightarrow> crc32_digest" where
  "crc32_written ho g d p = (case crc32_Write ho g d p of Inl _ \<Rightarrow> d | Inr ((d, _), _) \<Rightarrow> d)"

definition crc32_marshalled :: "hash_order \<Rightarrow> crc32_globals \<Rightarrow> crc32_digest \<Rightarrow> panic + bytes \<times> string option" where
  "crc32_marshalled ho g d = (case crc32_MarshalBinary ho g d of Inl e \<Rightarrow> Inl e | Inr (r, _) \<Rightarrow> Inr r)"

definition crc32_unmarshalled :: "hash_order \<Rightarrow> crc32_globals \<Rightarrow> crc32_digest \<Rightarrow> bytes \<Rightarrow> panic + crc32_digest \<times> string option" where
  "crc32_unmarshalled ho g d b = (case crc32_UnmarshalBinary ho g d b of Inl e \<Rightarrow> Inl e | Inr ((d, _), err) \<Rightarrow> Inr (d, err))"

definition crc32_valid :: "crc32_globals \<Rightarrow> crc32_digest \<Rightarrow> bool" where
  "crc32_valid g d \<longleftrightarrow> (\<exists>poly. crc32_table_for g poly (crc32_tab d))"

definition crc32_same_table :: "crc32_digest \<Rightarrow> crc32_digest \<Rightarrow> bool" where
  "crc32_same_table d e \<longleftrightarrow> crc32_tab d = crc32_tab e"

lemma crc32_frame: "length crc32_magic = 4" "crc32_marshaledSize = 12"
  by (simp_all add: crc32_marshaledSize_def crc32_magic_def bytes_of_def)

text \<open>The package once its IEEE implementation is initialised, as it is when a digest exists.\<close>

locale crc32_ready = hash_byteorder +
  fixes g :: crc32_globals
  assumes inv: "crc32_inv g" and ready: "ieeeDone g"
begin

lemma crc32_Write_spec:
  assumes "crc32_table_for g poly (crc32_tab d)"
  shows "crc32_Write ho g d p = Inr ((d\<lparr>crc32_crc := NOT (foldl (crc_byte poly) (NOT (crc32_crc d)) p)\<rparr>, length p, None), g)"
  using crc32_update_spec [OF inv assms, of False "crc32_crc d" p] ready by (auto simp: crc32_Write_def)

lemma crc32_running: "running_hash (crc32_written ho g) (crc32_valid g)"
proof
  fix d p q
  assume "crc32_valid g d"
  then obtain poly where t: "crc32_table_for g poly (crc32_tab d)" by (auto simp: crc32_valid_def)
  then have w: "crc32_written ho g d p = d\<lparr>crc32_crc := NOT (foldl (crc_byte poly) (NOT (crc32_crc d)) p)\<rparr>" for p
    by (simp add: crc32_written_def crc32_Write_spec)
  show "crc32_valid g (crc32_written ho g d p)" using t by (auto simp: crc32_valid_def w)
  show "crc32_written ho g d [] = d" by (simp add: w)
  show "crc32_written ho g (crc32_written ho g d p) q = crc32_written ho g d (p @ q)"
    using t by (simp add: w) (simp add: crc32_written_def crc32_Write_spec)
qed

lemma crc32_sum_ready: "\<exists>ts. crc32_tableSum ho g t = Inr (ts, g)"
  using crc32_tableSum_total [OF inv, of t] ready by blast

lemma crc32_unmarshal_marshal:
  assumes "crc32_same_table d e" "crc32_marshalled ho g e = Inr (b, None)"
  shows "crc32_unmarshalled ho g d b = Inr (e, None)"
proof -
  obtain ts where ts: "crc32_tableSum ho g (crc32_tab d) = Inr (ts, g)" using crc32_sum_ready by blast
  have "b = crc32_magic @ BEAppendUint32 ho [] ts @ BEAppendUint32 ho [] (crc32_crc e)"
    using assms ts append_split(1) [of "BEAppendUint32 ho crc32_magic ts"] append_split(1) [of crc32_magic ts]
    by (simp add: crc32_marshalled_def crc32_MarshalBinary_def crc32_AppendBinary_def crc32_same_table_def)
  moreover have "d\<lparr>crc32_crc := crc32_crc e\<rparr> = e" using assms(1) by (simp add: crc32_same_table_def)
  ultimately show ?thesis
    using read_append(1) [of "crc32_crc e" "[]"]
    by (simp add: crc32_unmarshalled_def crc32_UnmarshalBinary_def check_state_ok crc32_frame ts read_append)
qed

lemma crc32_unmarshal_total: "\<exists>e err. crc32_unmarshalled ho g d b = Inr (e, err) \<and> (err \<noteq> None \<longrightarrow> e = d)"
proof -
  obtain ts where ts: "crc32_tableSum ho g (crc32_tab d) = Inr (ts, g)" using crc32_sum_ready by blast
  have "length b = 12 \<Longrightarrow> \<exists>v w. BEUint32 ho (drop 4 b) = Inr v \<and> BEUint32 ho (drop 8 b) = Inr w"
    using reads_total(1) [of "drop 4 b"] reads_total(1) [of "drop 8 b"] by simp
  then show ?thesis
    by (auto simp: crc32_unmarshalled_def crc32_UnmarshalBinary_def check_state_def ts crc32_frame)
qed

end

sublocale crc32_ready \<subseteq> crc32: resumable_hash "crc32_written ho g" "crc32_valid g" crc32_same_table "crc32_marshalled ho g" "crc32_unmarshalled ho g"
proof (intro resumable_hash.intro resumable_hash_axioms.intro crc32_running)
  fix d e :: crc32_digest and b p :: bytes
  show "crc32_same_table d (crc32_written ho g e p)" if "crc32_same_table d e"
    using that by (auto simp: crc32_same_table_def crc32_written_def crc32_Write_def split: sum.splits)
  show "\<exists>b. crc32_marshalled ho g d = Inr (b, None)"
    using crc32_sum_ready [of "crc32_tab d"] by (auto simp: crc32_marshalled_def crc32_MarshalBinary_def crc32_AppendBinary_def)
qed (rule crc32_unmarshal_marshal crc32_unmarshal_total; assumption?)+

context crc32_ready
begin

lemmas crc32_resumes = crc32.resumes

end

text \<open>The variables after the first use of the IEEE table, with the byte orders of \<open>encoding/binary\<close>.\<close>

definition crc32_after_init :: crc32_globals where
  "crc32_after_init = (case ieeeInitOnce crc32_initial of Inl _ \<Rightarrow> crc32_initial | Inr g \<Rightarrow> g)"

interpretation crc32_binary: crc32_ready binary_hash_order crc32_after_init
  by unfold_locales (simp_all add: crc32_after_init_def crc32_inv_def crc32_initial_def crc32_init_defs)

section \<open>Properties\<close>

lemma crc32_New_spec:
  assumes "crc32_inv g" "crc32_table_for g poly tab"
  shows "\<exists>g'. crc32_New tab g = Inr (\<lparr>crc32_crc = 0, crc32_tab = tab\<rparr>, g') \<and> crc32_inv g' \<and> crc32_table_for g' poly tab \<and>
    (tab = IEEETable \<longrightarrow> ieeeDone g')"
  using crc32_inits(1) [OF assms(1)] assms
  by (auto simp: crc32_New_def crc32_table_for_def split: table_ptr.splits)

text \<open>
  C32: CRC-32. The lazily initialised variables of the package keep their invariant, whatever the order in which
  tables are made and used. \<open>MakeTable\<close> returns a table for its polynomial. With such a table, and with \<open>IEEETable\<close>
  even before anything is initialised, \<open>Update\<close> computes the bit-serial shift register of the polynomial over the bits
  of the message, on the slicing-by-8 and on the simple path, and \<open>New\<close> initialises what the writes of its digest rely
  on. With a polynomial of full degree, such as the three predefined ones, the checksums of two messages that differ
  in a burst of at most 32 bits are different.
\<close>

theorem crc32_register:
  assumes "hash_byteorder ho" "crc32_inv g" "crc32_table_for g poly tab"
  shows "crc32_inv crc32_initial \<and>
    (\<exists>tab' g'. crc32_MakeTable poly' g = Inr (tab', g') \<and> crc32_inv g' \<and> crc32_table_for g' poly' tab' \<and> crc32_table_for g' poly tab) \<and>
    (\<exists>g2. crc32_Update ho g c tab p = Inr (NOT (crc_bits poly (NOT c) (message_bits p)), g2) \<and> crc32_inv g2 \<and> crc32_table_for g2 poly tab) \<and>
    (\<exists>d g3. crc32_New tab g = Inr (d, g3) \<and> crc32_inv g3 \<and>
       crc32_Write ho g3 d p = Inr ((d\<lparr>crc32_crc := NOT (crc_bits poly (- 1) (message_bits p))\<rparr>, length p, None), g3)) \<and>
    (\<exists>x y g4 g5. crc32_Checksum ho g p tab = Inr (x, g4) \<and> crc32_Checksum ho g q tab = Inr (y, g5) \<and>
       (bit poly 31 \<and> burst 32 (message_bits p) (message_bits q) \<longrightarrow> x \<noteq> y)) \<and>
    bit crc32_IEEE 31 \<and> bit crc32_Castagnoli 31 \<and> bit crc32_Koopman 31"
proof (intro conjI)
  show "crc32_inv crc32_initial" by (simp add: crc32_inv_def crc32_initial_def)
  have keep: "crc32_table_for g' poly tab" if "castagnoliDone g \<longrightarrow> castagnoliDone g'" for g'
    using that assms(3) by (auto simp: crc32_table_for_def split: table_ptr.splits)
  show "\<exists>tab' g'. crc32_MakeTable poly' g = Inr (tab', g') \<and> crc32_inv g' \<and> crc32_table_for g' poly' tab' \<and> crc32_table_for g' poly tab"
    using crc32_MakeTable_spec [OF assms(2), of poly'] keep by blast
  have u: "\<exists>g'. crc32_update ho g c tab p True = Inr (NOT (crc_bits poly (NOT c) (message_bits p)), g') \<and> crc32_inv g' \<and> castagnoliDone g' = castagnoliDone g" for c p
    using hash_byteorder.crc32_update_spec [OF assms, of True c p] by (auto simp: crc_bits_message)
  show "\<exists>g2. crc32_Update ho g c tab p = Inr (NOT (crc_bits poly (NOT c) (message_bits p)), g2) \<and> crc32_inv g2 \<and> crc32_table_for g2 poly tab"
    using u [of c p] keep by (auto simp: crc32_Update_def)
  obtain g3 where n: "crc32_New tab g = Inr (\<lparr>crc32_crc = 0, crc32_tab = tab\<rparr>, g3)" "crc32_inv g3" "crc32_table_for g3 poly tab"
    "tab = IEEETable \<longrightarrow> ieeeDone g3" using crc32_New_spec [OF assms(2,3)] by blast
  have "crc32_Write ho g3 \<lparr>crc32_crc = 0, crc32_tab = tab\<rparr> p =
      Inr ((\<lparr>crc32_crc = 0, crc32_tab = tab\<rparr>\<lparr>crc32_crc := NOT (crc_bits poly (- 1) (message_bits p))\<rparr>, length p, None), g3)"
    using hash_byteorder.crc32_update_spec [OF assms(1) n(2,3), of False 0 p] n(4) by (auto simp: crc32_Write_def crc_bits_message)
  then show "\<exists>d g3. crc32_New tab g = Inr (d, g3) \<and> crc32_inv g3 \<and>
       crc32_Write ho g3 d p = Inr ((d\<lparr>crc32_crc := NOT (crc_bits poly (- 1) (message_bits p))\<rparr>, length p, None), g3)"
    using n by blast
  obtain g4 g5 where c: "crc32_Checksum ho g p tab = Inr (NOT (crc_bits poly (- 1) (message_bits p)), g4)"
    "crc32_Checksum ho g q tab = Inr (NOT (crc_bits poly (- 1) (message_bits q)), g5)"
    using u [of 0 p] u [of 0 q] by (auto simp: crc32_Checksum_def crc32_Update_def)
  have "bit poly 31 \<and> burst 32 (message_bits p) (message_bits q) \<longrightarrow>
      NOT (crc_bits poly (- 1) (message_bits p)) \<noteq> NOT (crc_bits poly (- 1) (message_bits q))"
    using crc_bits_detect [of poly "message_bits p" "message_bits q" "- 1"] by simp
  with c show "\<exists>x y g4 g5. crc32_Checksum ho g p tab = Inr (x, g4) \<and> crc32_Checksum ho g q tab = Inr (y, g5) \<and>
       (bit poly 31 \<and> burst 32 (message_bits p) (message_bits q) \<longrightarrow> x \<noteq> y)" by blast
qed (simp_all add: crc32_IEEE_def crc32_Castagnoli_def crc32_Koopman_def)

theorem crc32_register_witness:
  "hash_byteorder binary_hash_order \<and> crc32_inv crc32_initial \<and> crc32_table_for crc32_initial crc32_IEEE IEEETable \<and>
   (\<exists>g2. crc32_Update binary_hash_order crc32_initial 0 IEEETable [0x31] =
      Inr (NOT (crc_bits crc32_IEEE (- 1) (message_bits [0x31])), g2))"
proof -
  have i: "crc32_inv crc32_initial" by (simp add: crc32_inv_def crc32_initial_def)
  have t: "crc32_table_for crc32_initial crc32_IEEE IEEETable" by (simp add: crc32_table_for_def)
  show ?thesis
    using crc32_register [OF binary_hash.hash_byteorder_axioms i t, of 0 0 "[0x31]" "[]"] binary_hash.hash_byteorder_axioms i t
    by force
qed

end
