(* ===== verification/Spec2Isabelle.thy ===== *)
theory Spec2Isabelle
  imports Bits_Shuffle Bits_Arith Utf16 Container_Heap Container_List Container_Ring Base64_Stream Base64_Reader Json_Grammar Sort_Instances
    Path_Match Bytes_Buffer Hash_Adler32 Hash_Fnv Hash_Crc64 Hash_Crc32
begin

text \<open>
  A verification of packages of the Go standard library in \<open>src/\<close>: those that hold its basic algorithms and data
  structures, on which the rest of the library is built.

  \<^bold>\<open>The program.\<close> The repository is a library of packages, each a directory of \<open>src/\<close>. The packages modelled here call each
  other as follows: \<open>sort\<close>, \<open>slices\<close> and \<open>hash/fnv\<close> use \<open>math/bits\<close>; \<open>slices\<close> uses \<open>cmp\<close>; \<open>container/heap\<close> extends
  \<open>sort.Interface\<close>; \<open>strings.Builder\<close>, \<open>strings.Reader\<close>, \<open>bytes.Buffer\<close> and \<open>path.Match\<close> use \<open>unicode/utf8\<close>; \<open>encoding/base64\<close> writes to an
  \<open>io.Writer\<close> such as a \<open>strings.Builder\<close> and reads from an \<open>io.Reader\<close> such as a \<open>strings.Reader\<close>, and
  \<open>bytes.Buffer\<close> copies from the one and to the other; the hashes store their
  states with the byte orders that \<open>encoding/binary\<close> defines as well.

  \<^bold>\<open>Conventions.\<close> Machine integers are words, or integers with \<open>wrap64\<close> where the code can overflow an \<open>int\<close>; counts that
  cannot are natural numbers. A slice is a list, and what a function writes to a slice is part of its result. A panic is
  a value \<open>Inl\<close> of a sum type, an \<open>error\<close> result an option. Pointers that matter are addresses in a store
  (\<open>container/list\<close>, \<open>container/ring\<close>) or stand for the object they refer to (\<open>hash/crc32\<close>). A loop is a recursive
  function of its variables with a termination measure; the loops that walk a ring or call unknown code until it returns
  something are partial functions in the option type, and \<open>None\<close> is the call that does not return. There is no fuel:
  where such a loop is claimed to return, that is proved.

  \<^bold>\<open>Code outside the source tree.\<close> The packages \<open>internal/...\<close> and \<open>runtime\<close> are not in \<open>src/\<close>. What the models use of them are
  parameters, with the documented behaviour as the assumptions of a locale: \<open>internal/byteorder\<close> in \<open>byteorder\<close> and
  \<open>hash_byteorder\<close> (interpreted on the functions of \<open>encoding/binary\<close>), the allocator behind \<open>append\<close> and
  \<open>bytealg.MakeNoZero\<close> as a record of \<open>Strings_Builder\<close> and as a function that may fail in \<open>Bytes_Buffer\<close> (\<open>alloc_ok\<close>),
  \<open>bytealg.LastIndexByteString\<close> in \<open>last_index_byte\<close> (package \<open>path\<close>), \<open>bytealg.IndexByte\<close> and \<open>bytealg.IndexByteString\<close> in \<open>index_byte\<close>
  (\<open>bytes.Buffer\<close> and \<open>path.Match\<close>), both interpreted on the plain loops. The implementations behind an interface are parameters as well: \<open>sort.Interface\<close> in \<open>sort_data\<close>
  (interpreted on the slices of ints, strings, floating-point values and on the comparison functions of \<open>slices\<close>),
  \<open>heap.Interface\<close> in \<open>heap_data\<close>, \<open>io.Writer\<close> in \<open>appending_writer\<close> (interpreted on both writing methods of a
  \<open>strings.Builder\<close>), \<open>io.Reader\<close> in \<open>finite_reader\<close> (interpreted on a \<open>strings.Reader\<close> and on a \<open>bytes.Buffer\<close>), \<open>hash.Hash\<close> in \<open>running_hash\<close> and
  \<open>resumable_hash\<close> (nine hashes as sublocales).

  \<^bold>\<open>The theories\<close>, with the files they model and what is shown.

  \<^item> \<open>Go_Prelude\<close>: the types, panics and slice primitives, lemmas on words, bits and lists, the collections \<open>word_nat\<close> and
    \<open>word_bits\<close>, the search for a byte.
  \<^item> \<open>Bits_Tables\<close>, \<open>Bits\<close>: \<open>math/bits/bits_tables.go\<close> and \<open>bits.go\<close>. \<open>Bits_Counting\<close>, \<open>Bits_Shuffle\<close> and \<open>Bits_Arith\<close> give every
    function its meaning: bit lengths and counts, reversals and rotations, exact carries and products, and the quotient
    and remainder of \<open>Div64\<close>, with its panics.
  \<^item> \<open>Utf8\<close>, \<open>Utf8_Correct\<close>: \<open>unicode/utf8/utf8.go\<close>, the slice and the string copy of each function. Decoding accepts exactly the shortest
    encodings of valid code points, at either end of a slice; encoding, validation and counting agree with it.
  \<^item> \<open>Utf16\<close>: \<open>unicode/utf16/utf16.go\<close> and its round trips.
  \<^item> \<open>Sort_Model\<close>: \<open>sort/sort.go\<close>, \<open>sort/zsortinterface.go\<close>, \<open>sort/search.go\<close>, \<open>slices/sort.go\<close> and \<open>slices/zsortanyfunc.go\<close>;
    \<open>Sort_Spec\<close> states the contract of a collection and verifies the simple sorts over it, \<open>Sort_Pdq\<close> the
    pattern-defeating quicksort, \<open>Sort_Stable\<close> the stable merge sort. \<open>Sort_Instances\<close> models \<open>cmp/cmp.go\<close> and the ordered
    variants, interprets the contract and proves the properties of sorting and searching. The ordered values have NaN and the negative
    zero; the midpoint of a binary search is computed on wrapped integers.
  \<^item> \<open>Container_Heap\<close>: \<open>container/heap/heap.go\<close>, the heap order and what the operations do to the elements.
  \<^item> \<open>Linked_Rings\<close>, \<open>Container_List\<close>, \<open>Container_Ring\<close>: \<open>container/list/list.go\<close> and \<open>container/ring/ring.go\<close>. Every sequence of calls of list
    methods refines operations on sequences, as long as no element that \<open>Init\<close> has cut off from its list is passed to a later call; the ring
    operations are described on cycles.
  \<^item> \<open>Binary\<close>: \<open>encoding/binary/binary.go\<close> (the byte orders) and \<open>varint.go\<close>.
  \<^item> \<open>Strings_Builder\<close>, \<open>Strings_Reader\<close>: \<open>strings/builder.go\<close>, \<open>strings/reader.go\<close> and what they use of \<open>io/io.go\<close>. A builder holds what was written, a
    reader is a position in its string, whatever calls are made, \<open>WriteTo\<close> to an arbitrary writer included.
  \<^item> \<open>Bytes_Buffer\<close>: \<open>bytes/buffer.go\<close>, the slice with its backing array. Every sequence of calls refines a queue of bytes; the loop of
    \<open>ReadFrom\<close> ends.
  \<^item> \<open>Base64\<close>, \<open>Base64_Encode\<close>, \<open>Base64_Decode\<close>, \<open>Base64_Spec\<close>: \<open>encoding/base64/base64.go\<close>. The fast paths equal a reference decoder and stay inside
    their buffers; encoding and decoding are inverse. \<open>Base64_Stream\<close> (the stream encoder) and \<open>Base64_Reader\<close> (the stream
    decoder, modelled there) show what the streams deliver for any division into calls.
  \<^item> \<open>Json_Scanner\<close>: \<open>encoding/json/scanner.go\<close>. \<open>Json_Machine\<close> has the invariant of the reachable scanners, \<open>Json_Grammar\<close> the grammar of
    JSON and its equivalence with \<open>Valid\<close>.
  \<^item> \<open>Path\<close>, \<open>Path_Match\<close>: \<open>path/path.go\<close> and \<open>path/match.go\<close>. Every index of a string is bounds-checked. \<open>Clean\<close> computes the lexical normal
    form; \<open>Match\<close> accepts exactly the patterns of the documented grammar and its matches are compared with the documented ones.
  \<^item> \<open>Hash_Order\<close>, \<open>Hash_Adler32\<close>, \<open>Hash_Fnv\<close>, \<open>Hash_Crc\<close>, \<open>Hash_Crc64\<close>, \<open>Hash_Crc32\<close>: the packages below \<open>hash/\<close> of those names (\<open>crc32.go\<close>,
    \<open>crc32_generic.go\<close>, \<open>crc32_otherarch.go\<close> for CRC-32). The table-driven and sliced loops equal the bit-serial register, the
    sums of Adler-32 do not wrap, the 128-bit FNV refines 128-bit words; the marshalled states are treated for all nine hashes
    together below.

  \<^bold>\<open>What the models showed.\<close> \<open>List.Init\<close> leaves the elements of the list it clears attached to it, so that a later
  \<open>Remove\<close> makes the length negative (\<open>list_traversal\<close>). \<open>Ring.Unlink\<close> wraps around when it is asked to remove the largest \<open>int\<close> of
  elements (\<open>Ring_methods_spec\<close>). \<open>path.Match\<close> misses matches when a class matches a slash, and a star can split a character, so that
  two question marks match a single one (\<open>Match_glob\<close>). \<open>path.Dir\<close> can return the root for a path that is not made of slashes followed by other
  bytes (\<open>path_lexical\<close>). The base64 stream decoder accepts data behind padding, depending on the size of the slices it is read
  with (\<open>base64_stream_decodes\<close>). \<open>sort.SearchFloat64s\<close> returns the length of the slice for a NaN, although NaN values are sorted first
  (\<open>binary_searches\<close>). \<open>Buffer.UnreadByte\<close> succeeds after a \<open>ReadBytes\<close> that met the end of the buffer and after a \<open>Grow\<close> that
  moved the contents, without unreading anything (\<open>bytes_Buffer_queue\<close>).

  \<^bold>\<open>Not modelled.\<close> Of the packages above: the assembly versions behind \<open>math/bits\<close> and \<open>hash/crc32\<close>, which are not Go;
  \<open>encoding/binary.Read\<close>, \<open>Write\<close> and \<open>Size\<close> and \<open>sort.Slice\<close>, which work by reflection on values of arbitrary type (the sorting code behind
  \<open>sort.Slice\<close> is generated from the same text as the one modelled); the messages of JSON syntax errors; the rest of
  \<open>encoding/json\<close>, whose encoder and decoder work by reflection; the functions of \<open>strings\<close>, \<open>bytes\<close> and \<open>slices\<close> other than the builder, the reader,
  the buffer and sorting. Package \<open>sync\<close> enters only through the \<open>OnceFunc\<close> of \<open>hash/crc32\<close>, and calls are sequential. The other packages of the
  tree are not modelled: networking, the operating system, files and time (effects of the outside world), cryptography and
  big numbers (assembly and generated field arithmetic), \<open>reflect\<close> and the codecs built on it, floating-point mathematics, the
  Unicode tables, regular expressions, templates, archives, compression and images.
\<close>

section \<open>Properties that span components\<close>

text \<open>
  C36: resumable hashes. For every hash of \<open>hash/adler32\<close>, \<open>hash/fnv\<close>, \<open>hash/crc64\<close> and \<open>hash/crc32\<close>: the state after any
  writes, marshalled and unmarshalled into another digest (of the same table, for a CRC), continues with further writes
  exactly as one digest that is given the whole message at once; and unmarshalling arbitrary bytes never panics, either
  succeeds or reports an error, and leaves the digest as it was when it reports one. For \<open>hash/crc32\<close> the variables of
  the package are initialised, as they are once a digest of the IEEE table exists.
\<close>

theorem hash_states_resume:
  assumes "hash_byteorder ho" "crc32_inv g" "ieeeDone g" "crc32_table_for g poly32 tab32"
  shows "resumes adler_update (\<lambda>d. Inr (adler_MarshalBinary ho d)) (adler_UnmarshalBinary ho) w w' \<and>
    resumes (\<lambda>s p. fst (sum32_Write s p)) (\<lambda>d. Inr (sum32_MarshalBinary ho d)) (sum32_UnmarshalBinary ho) w w' \<and>
    resumes (\<lambda>s p. fst (sum32a_Write s p)) (\<lambda>d. Inr (sum32a_MarshalBinary ho d)) (sum32a_UnmarshalBinary ho) w w' \<and>
    resumes (\<lambda>s p. fst (sum64_Write s p)) (\<lambda>d. Inr (sum64_MarshalBinary ho d)) (sum64_UnmarshalBinary ho) x x' \<and>
    resumes (\<lambda>s p. fst (sum64a_Write s p)) (\<lambda>d. Inr (sum64a_MarshalBinary ho d)) (sum64a_UnmarshalBinary ho) x x' \<and>
    resumes (\<lambda>s p. fst (sum128_Write s p)) (\<lambda>d. Inr (sum128_MarshalBinary ho d)) (sum128_UnmarshalBinary ho) y y' \<and>
    resumes (\<lambda>s p. fst (sum128a_Write s p)) (\<lambda>d. Inr (sum128a_MarshalBinary ho d)) (sum128a_UnmarshalBinary ho) y y' \<and>
    resumes (crc64_written ho) (crc64_MarshalBinary ho) (crc64_UnmarshalBinary ho)
      \<lparr>crc64_crc = x, crc64_tab = crc64_MakeTable poly64\<rparr> \<lparr>crc64_crc = x', crc64_tab = crc64_MakeTable poly64\<rparr> \<and>
    resumes (crc32_written ho g) (crc32_marshalled ho g) (crc32_unmarshalled ho g)
      \<lparr>crc32_crc = w, crc32_tab = tab32\<rparr> \<lparr>crc32_crc = w', crc32_tab = tab32\<rparr>"
proof (intro conjI)
  have r: "crc32_ready ho g" using assms by (intro crc32_ready.intro crc32_ready_axioms.intro)
  show "resumes (crc32_written ho g) (crc32_marshalled ho g) (crc32_unmarshalled ho g)
      \<lparr>crc32_crc = w, crc32_tab = tab32\<rparr> \<lparr>crc32_crc = w', crc32_tab = tab32\<rparr>"
    using assms(4) by (intro crc32_ready.crc32_resumes [OF r]) (auto simp: crc32_valid_def crc32_same_table_def)
  show "resumes (crc64_written ho) (crc64_MarshalBinary ho) (crc64_UnmarshalBinary ho)
      \<lparr>crc64_crc = x, crc64_tab = crc64_MakeTable poly64\<rparr> \<lparr>crc64_crc = x', crc64_tab = crc64_MakeTable poly64\<rparr>"
    by (intro hash_byteorder.crc64_resumes [OF assms(1)]) (auto simp: crc64_valid_def crc64_same_table_def)
qed (rule hash_byteorder.adler_resumes [OF assms(1)] hash_byteorder.fnv32_resumes [OF assms(1)]
    hash_byteorder.fnv32a_resumes [OF assms(1)] hash_byteorder.fnv64_resumes [OF assms(1)]
    hash_byteorder.fnv64a_resumes [OF assms(1)] hash_byteorder.fnv128_resumes [OF assms(1)]
    hash_byteorder.fnv128a_resumes [OF assms(1)]; rule TrueI)+

theorem hash_states_resume_witness:
  "hash_byteorder binary_hash_order \<and> crc32_inv crc32_after_init \<and> ieeeDone crc32_after_init \<and>
   crc32_table_for crc32_after_init crc32_IEEE IEEETable \<and>
   resumes (crc32_written binary_hash_order crc32_after_init) (crc32_marshalled binary_hash_order crc32_after_init)
     (crc32_unmarshalled binary_hash_order crc32_after_init)
     \<lparr>crc32_crc = 0, crc32_tab = IEEETable\<rparr> \<lparr>crc32_crc = 0, crc32_tab = IEEETable\<rparr>"
proof -
  have t: "crc32_table_for crc32_after_init crc32_IEEE IEEETable" by (simp add: crc32_table_for_def)
  show ?thesis
    using hash_states_resume [OF binary_hash.hash_byteorder_axioms crc32_binary.inv crc32_binary.ready t, of 0 0]
      binary_hash.hash_byteorder_axioms crc32_binary.inv crc32_binary.ready t by blast
qed

end
